(* ===== verification/Prelude.thy ===== *)
theory Prelude
  imports Main "HOL-Library.Word"
begin

text \<open>
  Vocabulary shared by the component theories: the ways a C++ operation can fail to return
  (an exception, a failed assertion, undefined behaviour), machine words and bytes, the
  little-endian view a 64-bit x86 Linux build gives of an integer's storage, and generic
  lemmas on lists, results and words that carry the component proofs.
\<close>

unbundle bit_operations_syntax

subsection \<open>Faults and results\<close>

datatype exn =
    Std_invalid_argument string
  | Std_out_of_range string
  | Std_logic_error string
  | Std_length_error string
  | Std_runtime_error string
  | Std_exception string

text \<open>
  \<open>Std_exception\<close> is any other class derived from \<open>std::exception\<close>, with its text.
  \<open>Throws\<close> is a C++ exception that leaves the operation, \<open>Aborts\<close> a failed \<open>assert\<close>
  or \<open>std::terminate\<close>, and \<open>Undefined\<close> an execution the language gives no meaning to (a read
  or write outside an object, \<open>back()\<close> of an empty container).
\<close>

datatype fault = Throws exn | Aborts | Undefined

type_synonym 'a result = "fault + 'a"

definition and_then :: "'a result \<Rightarrow> ('a \<Rightarrow> 'b result) \<Rightarrow> 'b result" where
  "and_then m k = (case m of Inl e \<Rightarrow> Inl e | Inr x \<Rightarrow> k x)"

lemma and_then_simps [simp]:
  "and_then (Inl e) k = Inl e"
  "and_then (Inr x) k = k x"
  by (simp_all add: and_then_def)

lemma and_then_cong [fundef_cong]:
  "m = m' \<Longrightarrow> (\<And>x. m' = Inr x \<Longrightarrow> k x = k' x) \<Longrightarrow> and_then m k = and_then m' k'"
  by (cases m') auto

lemma and_then_eq_Inr:
  "and_then m k = Inr y \<longleftrightarrow> (\<exists>x. m = Inr x \<and> k x = Inr y)"
  by (cases m) auto

lemma and_then_eq_Inl:
  "and_then m k = Inl e \<longleftrightarrow> m = Inl e \<or> (\<exists>x. m = Inr x \<and> k x = Inl e)"
  by (cases m) auto

definition of_option :: "fault \<Rightarrow> 'a option \<Rightarrow> 'a result" where
  "of_option e m = (case m of None \<Rightarrow> Inl e | Some x \<Rightarrow> Inr x)"

lemma of_option_simps [simp]:
  "of_option e None = Inl e"
  "of_option e (Some x) = Inr x"
  by (simp_all add: of_option_def)

subsection \<open>Bytes and words\<close>

type_synonym byte = "8 word"
type_synonym u16 = "16 word"
type_synonym u32 = "32 word"
type_synonym u64 = "64 word"

text \<open>A \<open>char\<close> is signed on the target: widening it sign-extends.\<close>

abbreviation char_to_int :: "byte \<Rightarrow> u32" where
  "char_to_int b \<equiv> scast b"

lemma unat_byte: "unat (b :: byte) < 256"
  using unsigned_less [of b] by simp

lemma sint_eq_unat:
  fixes w :: "'a::len word"
  assumes "unat w < 2 ^ (LENGTH('a) - 1)"
  shows "sint w = int (unat w)"
proof -
  have u: "uint w = int (unat w)" by (rule uint_nat)
  have lo: "- (2 ^ (LENGTH('a) - Suc 0)) \<le> int (unat w)"
    by (rule order_trans [of _ 0]) simp_all
  have hi: "int (unat w) < 2 ^ (LENGTH('a) - Suc 0)"
    using assms by (metis One_nat_def of_nat_less_iff of_nat_numeral of_nat_power)
  have "sint w = signed_take_bit (LENGTH('a) - Suc 0) (int (unat w))"
    by (simp only: sint_uint u One_nat_def)
  also have "\<dots> = int (unat w)" by (rule signed_take_bit_int_eq_self [OF lo hi])
  finally show ?thesis .
qed

lemma unat_scast_small:
  fixes w :: "'a::len word"
  assumes "unat w < 2 ^ (LENGTH('a) - 1)" and "LENGTH('a) \<le> LENGTH('b::len)"
  shows "unat (scast w :: 'b word) = unat w"
proof -
  have "unat w < 2 ^ LENGTH('a)" by (rule unsigned_less)
  also have "(2::nat) ^ LENGTH('a) \<le> 2 ^ LENGTH('b)" using assms(2) by simp
  finally have b: "unat w < 2 ^ LENGTH('b)" .
  have "(scast w :: 'b word) = word_of_nat (unat w)"
    by (simp add: scast_eq sint_eq_unat [OF assms(1)])
  then show ?thesis using b by (simp only: unat_of_nat) simp
qed

text \<open>The bytes \<open>memcpy\<close> sees of an integer, least significant first.\<close>

definition le_bytes :: "nat \<Rightarrow> nat \<Rightarrow> byte list" where
  "le_bytes k n = map (\<lambda>i. word_of_nat (n div 256 ^ i)) [0..<k]"

fun le_value :: "byte list \<Rightarrow> nat" where
  "le_value [] = 0"
| "le_value (b # bs) = unat b + 256 * le_value bs"

lemma length_le_bytes [simp]: "length (le_bytes k n) = k"
  by (simp add: le_bytes_def)

lemma le_bytes_0 [simp]: "le_bytes 0 n = []"
  by (simp add: le_bytes_def)

lemma le_bytes_Suc: "le_bytes (Suc k) n = word_of_nat n # le_bytes k (n div 256)"
proof -
  have "[0..<Suc k] = 0 # map Suc [0..<k]"
    by (simp add: upt_conv_Cons map_Suc_upt del: upt_Suc)
  then show ?thesis
    by (simp add: le_bytes_def div_mult2_eq del: upt_Suc)
qed

lemma le_value_le_bytes: "le_value (le_bytes k n) = n mod 256 ^ k"
proof (induction k arbitrary: n)
  case 0
  then show ?case by simp
next
  case (Suc k)
  then show ?case
    by (simp add: le_bytes_Suc unat_of_nat mod_mult2_eq)
qed

lemma le_value_bound: "le_value bs < 256 ^ length bs"
proof (induction bs)
  case Nil
  then show ?case by simp
next
  case (Cons b bs)
  have "unat b < 256" by (rule unat_byte)
  with Cons show ?case by simp
qed

lemma le_bytes_le_value: "le_bytes (length bs) (le_value bs) = bs"
proof (induction bs)
  case Nil
  then show ?case by simp
next
  case (Cons b bs)
  have b: "unat b < 256" by (rule unat_byte)
  have "(of_nat (unat b + 256 * le_value bs) :: byte) = b"
    by (rule word_unat_eq_iff [THEN iffD2], simp only: unat_of_nat) (simp add: b)
  moreover have "(unat b + 256 * le_value bs) div 256 = le_value bs"
    using b by simp
  ultimately show ?case using Cons by (simp add: le_bytes_Suc)
qed

subsection \<open>Lists\<close>

lemma take_Suc_nth_append: "i < length xs \<Longrightarrow> take (Suc i) xs = take i xs @ [xs ! i]"
  by (simp add: take_Suc_conv_app_nth)

lemma drop_eq_Cons_nth: "drop i xs = y # ys \<Longrightarrow> i < length xs \<and> xs ! i = y \<and> drop (Suc i) xs = ys"
  by (metis Cons_nth_drop_Suc drop_eq_Nil2 leI list.inject list.simps(3))

definition splice_at :: "nat \<Rightarrow> 'a list \<Rightarrow> 'a list \<Rightarrow> 'a list" where
  "splice_at i ys xs = take i xs @ ys @ drop (i + length ys) xs"

lemma length_splice_at [simp]:
  "i + length ys \<le> length xs \<Longrightarrow> length (splice_at i ys xs) = length xs"
  by (simp add: splice_at_def)

lemma splice_at_app:
  "length xs = i \<Longrightarrow> length ys = length zs \<Longrightarrow> splice_at i ys (xs @ zs @ ws) = xs @ ys @ ws"
  by (simp add: splice_at_def)

subsection \<open>Decimal numbers\<close>

text \<open>The digits of \<open>std::to_string\<close> and of \<open>%d\<close> for a number that is not negative.\<close>

fun dec_nat :: "nat \<Rightarrow> string" where
  "dec_nat n = (if n < 10 then [char_of (48 + n)] else dec_nat (n div 10) @ [char_of (48 + n mod 10)])"

declare dec_nat.simps [simp del]

lemma dec_nat_inj: "dec_nat m = dec_nat n \<Longrightarrow> m = n"
proof (induction m arbitrary: n rule: dec_nat.induct)
  case (1 m)
  have digit: "(char_of (48 + i mod 10) :: char) = char_of (48 + j mod 10) \<longleftrightarrow> i mod 10 = j mod 10"
    for i j :: nat
  proof
    assume e: "(char_of (48 + i mod 10) :: char) = char_of (48 + j mod 10)"
    have "of_char (char_of (48 + i mod 10) :: char) = (of_char (char_of (48 + j mod 10) :: char) :: nat)"
      using e by (rule arg_cong)
    then show "i mod 10 = j mod 10" by (simp only: of_char_of) simp
  qed simp
  have ne: "dec_nat k \<noteq> []" for k by (simp add: dec_nat.simps [of k])
  show ?case
  proof (cases "m < 10")
    case True
    then have "n < 10" using 1(2) ne ne [symmetric] by (auto simp: dec_nat.simps [of m] dec_nat.simps [of n] split: if_splits)
    then show ?thesis using True 1(2) digit [of m n] by (simp add: dec_nat.simps [of m] dec_nat.simps [of n])
  next
    case False
    then have n: "\<not> n < 10" using 1(2) ne ne [symmetric] by (auto simp: dec_nat.simps [of m] dec_nat.simps [of n] split: if_splits)
    then have "dec_nat (m div 10) = dec_nat (n div 10)" "m mod 10 = n mod 10"
      using False 1(2) digit by (simp_all add: dec_nat.simps [of m] dec_nat.simps [of n])
    then have "m div 10 = n div 10" "m mod 10 = n mod 10" using 1(1) False by simp_all
    then show ?thesis by (metis div_mult_mod_eq)
  qed
qed

lemma sum_list_map_update:
  fixes w :: "'a \<Rightarrow> 'b::comm_monoid_add"
  assumes "i < length xs"
  shows "sum_list (map w (xs[i := x])) + w (xs ! i) = sum_list (map w xs) + w x"
proof -
  have "xs = take i xs @ xs ! i # drop (Suc i) xs" by (rule id_take_nth_drop [OF assms])
  then have "sum_list (map w xs) =
      sum_list (map w (take i xs)) + (w (xs ! i) + sum_list (map w (drop (Suc i) xs)))"
    by (metis (no_types, lifting) list.simps(9) map_append sum_list.Cons sum_list_append)
  then show ?thesis using assms by (simp add: upd_conv_take_nth_drop ac_simps)
qed

subsection \<open>The contract of an encoder and its decoder\<close>

text \<open>
  Several components turn a value into bytes and read it back. What a client relies on is
  that encoding a valid value succeeds and that decoding the bytes returns the value.
\<close>

locale byte_codec =
  fixes valid :: "'a \<Rightarrow> bool"
    and enc :: "'a \<Rightarrow> 'b result"
    and dec :: "'b \<Rightarrow> 'a result"
  assumes enc_total: "valid x \<Longrightarrow> \<exists>s. enc x = Inr s"
    and dec_enc: "valid x \<Longrightarrow> enc x = Inr s \<Longrightarrow> dec s = Inr x"
begin

lemma round: "valid x \<Longrightarrow> and_then (enc x) dec = Inr x"
  using enc_total [of x] dec_enc [of x] by auto

lemma enc_inj: "valid x \<Longrightarrow> valid y \<Longrightarrow> enc x = enc y \<Longrightarrow> x = y"
  using enc_total [of x] dec_enc [of x] dec_enc [of y] by auto

end

end
