(* ===== verification/BufConvert.thy ===== *)
theory BufConvert
  imports Prelude
begin

text \<open>
  The byte-buffer utilities of \<^verbatim>\<open>common/source/util/BufConvert.cpp\<close> and
  \<^verbatim>\<open>common/include/util/BufConvert.h\<close>: the Adler-32 style checksum, the in-place byte
  reversal (the base64 codec is in theory Base64). Buffers are byte lists; a
  buffer pointer that walks forward with a shrinking length is the list of the bytes left.
  \<^verbatim>\<open>unsigned long\<close> has the 64 bits of the Linux build.
\<close>

subsection \<open>adler32\<close>

abbreviation (input) BASE :: nat where "BASE \<equiv> 65521"
abbreviation (input) NMAX :: nat where "NMAX \<equiv> 5552"

type_synonym sums = "u32 \<times> u64"

text \<open>\<open>DO1\<close>: \<open>adler\<close> is an \<open>int32_t\<close>, so adding it to \<open>sum2\<close> sign-extends it.\<close>

fun DO1 :: "sums \<Rightarrow> byte \<Rightarrow> sums" where
  "DO1 (adler, sum2) b = (let a = adler + char_to_int b in (a, sum2 + scast a))"

fun DO_bytes :: "sums \<Rightarrow> byte list \<Rightarrow> sums" where
  "DO_bytes st [] = st"
| "DO_bytes st (b # bs) = DO_bytes (DO1 st b) bs"

definition DO16 :: "sums \<Rightarrow> byte list \<Rightarrow> sums" where
  "DO16 st buf = DO_bytes st (take 16 buf)"

definition MOD32 :: "u32 \<Rightarrow> u32" where
  "MOD32 a = a mod 65521"

definition MOD64 :: "u64 \<Rightarrow> u64" where
  "MOD64 a = a mod 65521"

text \<open>\<open>do { DO16(buf); buf += 16; } while (--n)\<close>, entered with \<open>n > 0\<close>.\<close>

fun do16_loop :: "nat \<Rightarrow> byte list \<Rightarrow> sums \<Rightarrow> byte list \<times> sums" where
  "do16_loop 0 buf st = (buf, st)"
| "do16_loop (Suc n) buf st = do16_loop n (drop 16 buf) (DO16 st buf)"

function nmax_loop :: "byte list \<Rightarrow> sums \<Rightarrow> byte list \<times> sums" where
  "nmax_loop buf st =
     (if NMAX \<le> length buf then
        (let r = snd (do16_loop (NMAX div 16) buf st)
         in nmax_loop (drop NMAX buf) (MOD32 (fst r), MOD64 (snd r)))
      else (buf, st))"
  by pat_completeness auto
termination
  by (relation "measure (\<lambda>(buf, _). length buf)") auto

declare nmax_loop.simps [simp del]

function rest16_loop :: "byte list \<Rightarrow> sums \<Rightarrow> byte list \<times> sums" where
  "rest16_loop buf st =
     (if 16 \<le> length buf then rest16_loop (drop 16 buf) (DO16 st buf) else (buf, st))"
  by pat_completeness auto
termination
  by (relation "measure (\<lambda>(buf, _). length buf)") auto

declare rest16_loop.simps [simp del]

definition combine :: "sums \<Rightarrow> u32" where
  "combine st = fst st OR push_bit 16 (ucast (snd st))"

definition adler32_body :: "byte list \<Rightarrow> u32" where
  "adler32_body buf =
     (if length buf = 1 then
        (let a = 1 + char_to_int (buf ! 0);
             a' = (if a \<ge> 65521 then a - 65521 else a);
             s = (scast a' :: u64);
             s' = (if s \<ge> 65521 then s - 65521 else s)
         in combine (a', s'))
      else if length buf < 16 then
        (let st = DO_bytes (1, 0) buf;
             a = (if fst st \<ge> 65521 then fst st - 65521 else fst st)
         in combine (a, MOD64 (snd st)))
      else
        (let blk = nmax_loop buf (1, 0);
             st = (if fst blk = [] then snd blk
                   else (let r = rest16_loop (fst blk) (snd blk);
                             t = DO_bytes (snd r) (fst r)
                         in (MOD32 (fst t), MOD64 (snd t))))
         in combine st))"

text \<open>
  The whole function on a pointer (\<open>None\<close> is \<open>nullptr\<close>) and a length. The one-byte branch
  comes before the null test and dereferences; a length past the buffer is an
  out-of-bounds read.
\<close>

definition adler32 :: "byte list option \<Rightarrow> nat \<Rightarrow> u32 result" where
  "adler32 buf len =
     (case buf of
        None \<Rightarrow> if len = 1 then Inl Undefined else Inr 1
      | Some bs \<Rightarrow> if length bs < len then Inl Undefined else Inr (adler32_body (take len bs)))"

subsection \<open>flipData\<close>

function flip_loop :: "nat \<Rightarrow> nat \<Rightarrow> 'a list \<Rightarrow> 'a list" where
  "flip_loop s e buf =
     (if s < e then flip_loop (Suc s) (e - 1) (buf[s := buf ! e, e := buf ! s]) else buf)"
  by pat_completeness auto
termination
  by (relation "measure (\<lambda>(s, e, _). e - s)") auto

declare flip_loop.simps [simp del]

definition flipData :: "'a list \<Rightarrow> nat \<Rightarrow> 'a list" where
  "flipData buf bufSize = (if bufSize < 2 then buf else flip_loop 0 (bufSize - 1) buf)"

subsection \<open>The checksum against the Adler-32 of RFC 1950\<close>

declare DO1.simps [simp del]

lemma DO1_unat:
  assumes "unat b < 128" "unat a + 128 \<le> 2^31" "unat s + 2^31 \<le> 2^64"
  shows "unat (fst (DO1 (a, s) b)) = unat a + unat b"
    and "unat (snd (DO1 (a, s) b)) = unat s + (unat a + unat b)"
proof -
  have c: "unat (char_to_int b) = unat b" using assms(1) by (simp add: unat_scast_small)
  then have *: "unat (a + char_to_int b) = unat a + unat b"
    using assms by (simp add: unat_word_ariths)
  then show "unat (fst (DO1 (a, s) b)) = unat a + unat b" by (simp add: DO1.simps Let_def)
  have "unat (scast (a + char_to_int b) :: u64) = unat a + unat b"
    using assms * by (simp add: unat_scast_small)
  then show "unat (snd (DO1 (a, s) b)) = unat s + (unat a + unat b)"
    using assms by (simp add: DO1.simps Let_def unat_word_ariths)
qed

text \<open>RFC 1950's running sums\<close>
fun ref_step :: "nat \<times> nat \<Rightarrow> byte \<Rightarrow> nat \<times> nat" where
  "ref_step (a, b) x = (let a' = (a + unat x) mod BASE in (a', (b + a') mod BASE))"

definition adler_ref :: "byte list \<Rightarrow> nat" where
  "adler_ref bs = (let (a, b) = foldl ref_step (1, 0) bs in b * 65536 + a)"

definition sums_mod :: "sums \<Rightarrow> nat \<times> nat" where
  "sums_mod st = (unat (fst st) mod BASE, unat (snd st) mod BASE)"

lemma sums_mod_DO1:
  assumes "unat b < 128" "unat (fst st) + 128 \<le> 2^31" "unat (snd st) + 2^31 \<le> 2^64"
  shows "sums_mod (DO1 st b) = ref_step (sums_mod st) b"
proof -
  obtain a s where st: "st = (a, s)" by (cases st)
  show ?thesis
    using DO1_unat [of b a s] assms unfolding st sums_mod_def 
    by (simp add: Let_def mod_simps)
qed

lemma sums_mod_DO_bytes:
  assumes "\<forall>b \<in> set bs. unat b < 128"
    and "unat (fst st) + 128 * length bs \<le> 2^31" "unat (snd st) + 2^31 * length bs \<le> 2^64"
  shows "sums_mod (DO_bytes st bs) = foldl ref_step (sums_mod st) bs
    \<and> unat (fst (DO_bytes st bs)) \<le> unat (fst st) + 128 * length bs"
  using assms
proof (induction bs arbitrary: st)
  case Nil
  show ?case by simp
next
  case (Cons b bs)
  obtain a s where st: "st = (a, s)" by (cases st)
  have 1: "unat (fst (DO1 st b)) = unat a + unat b" "unat (snd (DO1 st b)) = unat s + (unat a + unat b)"
    using Cons.prems st by (auto intro!: DO1_unat)
  have "sums_mod (DO1 st b) = ref_step (sums_mod st) b"
    using Cons.prems by (intro sums_mod_DO1) auto
  moreover have "unat (fst (DO1 st b)) + 128 * length bs \<le> 2^31"
     "unat (snd (DO1 st b)) + 2^31 * length bs \<le> 2^64" "unat b < 128"
    using Cons.prems 1 st by auto
  ultimately show ?case
    using Cons.IH [of "DO1 st b"] Cons.prems 1 st by auto
qed

lemma DO_bytes_append: "DO_bytes st (xs @ ys) = DO_bytes (DO_bytes st xs) ys"
  by (induction xs arbitrary: st) simp_all

lemma do16_loop_eq:
  "do16_loop n buf st = (drop (16 * n) buf, DO_bytes st (take (16 * n) buf))"
proof (induction n arbitrary: buf st)
  case 0
  then show ?case by simp
next
  case (Suc n)
  then show ?case
    by (simp add: DO16_def DO_bytes_append [symmetric] take_add add.commute)
qed

lemma rest16_loop_DO_bytes:
  "DO_bytes (snd (rest16_loop buf st)) (fst (rest16_loop buf st)) = DO_bytes st buf"
proof (induction buf st rule: rest16_loop.induct)
  case (1 buf st)
  show ?case
  proof (cases "16 \<le> length buf")
    case True
    with 1 show ?thesis
      by (simp add: rest16_loop.simps [of buf] DO16_def DO_bytes_append [symmetric])
  next
    case False
    then show ?thesis by (simp add: rest16_loop.simps [of buf])
  qed
qed

lemma unat_MOD: "unat (MOD32 a) = unat a mod BASE" "unat (MOD64 s) = unat s mod BASE"
  by (simp_all add: MOD32_def MOD64_def unat_mod_distrib)

lemma nmax_loop_spec:
  assumes "\<forall>b \<in> set buf. unat b < 128" "unat (fst st) < BASE" "unat (snd st) < BASE"
  shows "\<exists>pre. buf = pre @ fst (nmax_loop buf st) \<and> length (fst (nmax_loop buf st)) < NMAX
    \<and> sums_mod (snd (nmax_loop buf st)) = foldl ref_step (sums_mod st) pre
    \<and> unat (fst (snd (nmax_loop buf st))) < BASE \<and> unat (snd (snd (nmax_loop buf st))) < BASE"
  using assms
proof (induction buf st rule: nmax_loop.induct)
  case (1 buf st)
  show ?case
  proof (cases "NMAX \<le> length buf")
    case False
    with 1 show ?thesis by (simp add: nmax_loop.simps [of buf])
  next
    case True
    let ?r = "DO_bytes st (take NMAX buf)"
    let ?st' = "(MOD32 (fst ?r), MOD64 (snd ?r))"
    have step: "nmax_loop buf st = nmax_loop (drop NMAX buf) ?st'"
      using True by (subst nmax_loop.simps) (simp add: do16_loop_eq Let_def)
    have "sums_mod ?r = foldl ref_step (sums_mod st) (take NMAX buf)"
      using 1 True sums_mod_DO_bytes [of "take NMAX buf" st] by (auto dest: in_set_takeD)
    then have m: "sums_mod ?st' = foldl ref_step (sums_mod st) (take NMAX buf)"
      by (simp add: sums_mod_def unat_MOD)
    have "\<forall>b \<in> set (drop NMAX buf). unat b < 128"
      using "1.prems" by (auto dest: in_set_dropD)
    then obtain pre where "drop NMAX buf = pre @ fst (nmax_loop (drop NMAX buf) ?st')"
      "length (fst (nmax_loop (drop NMAX buf) ?st')) < NMAX"
      "sums_mod (snd (nmax_loop (drop NMAX buf) ?st')) = foldl ref_step (sums_mod ?st') pre"
      "unat (fst (snd (nmax_loop (drop NMAX buf) ?st'))) < BASE" 
      "unat (snd (snd (nmax_loop (drop NMAX buf) ?st'))) < BASE"
      using "1.IH" [OF True refl] True by (auto simp: do16_loop_eq unat_MOD)
    then show ?thesis
      unfolding step
      by (intro exI [of _ "take NMAX buf @ pre"]) (metis m append.assoc append_take_drop_id foldl_append)
  qed
qed

lemma ref_step_bound: "fst p < BASE \<Longrightarrow> snd p < BASE \<Longrightarrow> fst (foldl ref_step p bs) < BASE \<and> snd (foldl ref_step p bs) < BASE"
  by (induction bs arbitrary: p) (auto simp: Let_def)

lemma unat_combine:
  assumes "unat a < 65536" "unat s < 65536"
  shows "combine (a, s) = word_of_nat (unat s * 65536 + unat a)"
proof -
  have "a AND push_bit 16 (ucast s) = 0"
  proof (rule bit_word_eqI)
    fix n assume "n < LENGTH(32)"
    have "\<not> bit a n" if "16 \<le> n"
    proof -
      have "take_bit 16 (unat a) = unat a" using assms(1) by (intro take_bit_nat_eq_self) simp
      then have "\<not> bit (unat a) n" using that by (metis bit_take_bit_iff not_less)
      then show ?thesis by (simp add: bit_unsigned_iff)
    qed
    then show "bit (a AND push_bit 16 (ucast s)) n = bit (0::u32) n"
      by (auto simp: bit_simps)
  qed
  then have "combine (a, s) = a + push_bit 16 (ucast s)"
    by (simp add: combine_def disjunctive_add_eq_or)
  then show ?thesis
    by (simp add: push_bit_eq_mult)
qed

text \<open>
  C35: On data whose bytes are all below 128, \<open>adler32\<close> computes the Adler-32 checksum of
  RFC 1950, whatever the length: the unrolled blocks, the deferred reductions and the 32- and
  64-bit accumulators never overflow or lose a reduction.
\<close>

theorem adler32_ascii:
  assumes "\<forall>b \<in> set bs. unat b < 128" 
  shows "adler32 (Some bs) (length bs) = Inr (word_of_nat (adler_ref bs))"
proof -
  have fin: "combine st = word_of_nat (adler_ref bs)"
    if "unat (fst st) < BASE" "unat (snd st) < BASE" "sums_mod st = foldl ref_step (1, 0) bs" for st
    using that unat_combine [of "fst st" "snd st"] by (auto simp: adler_ref_def sums_mod_def split: prod.splits)
  have "adler32_body bs = word_of_nat (adler_ref bs)"
  proof -
    consider "length bs = 1" | "length bs \<noteq> 1" "length bs < 16" | "16 \<le> length bs" by linarith
    then show ?thesis
    proof cases
      case 1
      then obtain b where b: "bs = [b]" by (auto simp: length_Suc_conv)
      let ?a = "1 + char_to_int b"
      have a: "unat ?a = 1 + unat b" using assms b by (simp add: unat_word_ariths unat_scast_small)
      then have s: "unat (scast ?a :: u64) = 1 + unat b" using assms b by (simp add: unat_scast_small)
      have "adler32_body bs = combine (?a, scast ?a)"
        using a s assms b by (simp add: adler32_body_def Let_def word_le_nat_alt)
      also have "\<dots> = word_of_nat (adler_ref bs)"
        using a s assms b by (intro fin) (simp_all add: sums_mod_def)
      finally show ?thesis .
    next
      case 2
      let ?r = "DO_bytes (1, 0) bs"
      have r: "sums_mod ?r = foldl ref_step (1, 0) bs" "unat (fst ?r) < BASE"
        using sums_mod_DO_bytes [of bs "(1, 0)"] assms 2 by (auto simp: sums_mod_def)
      have "adler32_body bs = combine (fst ?r, MOD64 (snd ?r))"
        using 2 r by (simp add: adler32_body_def Let_def word_le_nat_alt)
      also have "\<dots> = word_of_nat (adler_ref bs)"
        using r by (intro fin) (simp_all add: sums_mod_def unat_MOD)
      finally show ?thesis .
    next
      case 3
      let ?n = "nmax_loop bs (1, 0)"
      obtain pre where n: "bs = pre @ fst ?n" "length (fst ?n) < NMAX"
        "sums_mod (snd ?n) = foldl ref_step (1, 0) pre"
        "unat (fst (snd ?n)) < BASE" "unat (snd (snd ?n)) < BASE"
        using nmax_loop_spec [of bs "(1, 0)"] assms by (auto simp: sums_mod_def)
      let ?r = "DO_bytes (snd ?n) (fst ?n)"
      have rest: "\<forall>b \<in> set (fst ?n). unat b < 128"
        using assms n(1) by (metis Un_iff set_append)
      have "sums_mod ?r = foldl ref_step (sums_mod (snd ?n)) (fst ?n)"
        using sums_mod_DO_bytes [of "fst ?n" "snd ?n"] n(2,4,5) rest by simp
      then have m: "sums_mod (MOD32 (fst ?r), MOD64 (snd ?r)) = foldl ref_step (1, 0) bs"
      proof -
        have "foldl ref_step (sums_mod (snd ?n)) (fst ?n) = foldl ref_step (1, 0) (pre @ fst ?n)"
          by (simp only: n(3) foldl_append)
        also have "pre @ fst ?n = bs" by (rule n(1) [symmetric])
        finally show ?thesis
          using \<open>sums_mod ?r = _\<close> by (simp add: sums_mod_def unat_MOD)
      qed
      have "adler32_body bs = combine (if fst ?n = [] then snd ?n else (MOD32 (fst ?r), MOD64 (snd ?r)))"
        using 3 by (simp add: adler32_body_def Let_def rest16_loop_DO_bytes)
      also have "\<dots> = word_of_nat (adler_ref bs)"
      proof (cases "fst ?n = []")
        case True
        with n(1,3) have "sums_mod (snd ?n) = foldl ref_step (1, 0) bs" by (metis append_Nil2)
        with True n(4,5) show ?thesis by (simp add: fin)
      next
        case False
        with m show ?thesis by (simp add: fin unat_MOD)
      qed
      finally show ?thesis .
    qed
  qed
  then show ?thesis by (simp add: adler32_def)
qed

theorem adler32_ascii_witness:
  "adler32 (Some [87, 105, 107, 105]) 4 = Inr (word_of_nat (adler_ref [87, 105, 107, 105]))"
proof -
  have "length [87, 105, 107, 105 :: byte] = 4" by simp
  then show ?thesis using adler32_ascii [of "[87, 105, 107, 105]"] by (simp only:) simp
qed

text \<open>
  A byte from 128 up is added as a negative number, so \<open>adler32\<close> is not Adler-32 on binary
  data: already for the one-byte buffer 0x80 the two checksums differ.
\<close>

theorem adler32_signed_char:
  "adler32 (Some [0x80]) 1 = Inr 0xFFFFFF90 \<and> word_of_nat (adler_ref [0x80]) \<noteq> (0xFFFFFF90 :: u32)"
  by (simp add: adler32_def adler32_body_def combine_def DO1.simps Let_def adler_ref_def)

lemma adler32_len_le: "len \<le> length bs \<Longrightarrow> adler32 (Some bs) len = Inr (adler32_body (take len bs))"
  by (simp add: adler32_def)

subsection \<open>The byte reversal\<close>

lemma flip_loop_nth:
  assumes "e < length buf" "k < length buf" "s \<le> Suc e"
  shows "length (flip_loop s e buf) = length buf
    \<and> flip_loop s e buf ! k = (if s \<le> k \<and> k \<le> e then buf ! (s + e - k) else buf ! k)"
  using assms
proof (induction s e buf rule: flip_loop.induct)
  case (1 s e buf)
  show ?case
  proof (cases "s < e")
    case True
    let ?b = "buf[s := buf ! e, e := buf ! s]"
    have "length (flip_loop (Suc s) (e - 1) ?b) = length buf
      \<and> flip_loop (Suc s) (e - 1) ?b ! k
          = (if Suc s \<le> k \<and> k \<le> e - 1 then ?b ! (Suc s + (e - 1) - k) else ?b ! k)"
      using "1.IH" [OF True] "1.prems" True by simp
    then show ?thesis
      using True "1.prems" by (auto simp: flip_loop.simps [of s e buf] nth_list_update)
  next
    case False
    then have "s \<le> k \<Longrightarrow> k \<le> e \<Longrightarrow> s + e - k = k" by linarith
    with False "1.prems" show ?thesis by (simp add: flip_loop.simps [of s e buf])
  qed
qed

lemma flipData_rev:
  assumes "n \<le> length buf"
  shows "flipData buf n = rev (take n buf) @ drop n buf"
proof (cases "n < 2")
  case True
  then show ?thesis using assms by (cases n; cases buf) (auto simp: flipData_def)
next
  case False
  then have n: "n - 1 < length buf" using assms by simp
  have len: "length (flip_loop 0 (n - 1) buf) = length buf"
    using flip_loop_nth [OF n n] by simp
  show ?thesis
  proof (rule nth_equalityI)
    fix k assume k: "k < length (flipData buf n)"
    then have "k < length buf" using len False by (simp add: flipData_def)
    from flip_loop_nth [OF n this, of 0] show "flipData buf n ! k = (rev (take n buf) @ drop n buf) ! k"
      using False assms by (auto simp: flipData_def nth_append rev_nth)
  qed (use len False assms in \<open>simp add: flipData_def\<close>)
qed


lemma length_flipData [simp]: "n \<le> length buf \<Longrightarrow> length (flipData buf n) = length buf"
  by (simp add: flipData_rev)

lemma flipData_all: "flipData buf (length buf) = rev buf"
  by (simp add: flipData_rev)

text \<open>
  \<open>flipData\<close> reverses exactly the first \<open>bufSize\<close> bytes in place and touches no other.
\<close>

theorem flipData_eq_rev:
  "n \<le> length buf \<Longrightarrow>
    flipData buf n = rev (take n buf) @ drop n buf \<and> flipData (flipData buf n) n = buf"
  by (simp add: flipData_rev)

theorem flipData_eq_rev_witness:
  "flipData [1, 2, 3, 4 :: byte] 3 = [3, 2, 1, 4]"
  using flipData_eq_rev [of 3 "[1, 2, 3, 4 :: byte]"] by (simp add: eval_nat_numeral)

end
