(* ===== verification/Base64.thy ===== *)
theory Base64
  imports BufConvert
begin

text \<open>
  The base64 codec of \<^verbatim>\<open>common/source/util/BufConvert.cpp\<close> and its string wrappers in
  \<^verbatim>\<open>common/include/util/BufConvert.h\<close>: the index loops as the code has them, their
  equality with an encoder written from the text of RFC 4648 (its own alphabet, 24-bit
  groups), and the round trip. Stores go to an explicit output buffer through the code's
  32-bit index, and the lengths are narrowed where the wrappers narrow them.
\<close>

subsection \<open>The code\<close>

definition base64en :: "byte list" where
  "base64en = map of_char
     ''ABCDEFGHIJKLMNOPQRSTUVWXYZabcdefghijklmnopqrstuvwxyz0123456789+/''"

definition BASE64_PAD :: byte where "BASE64_PAD = 61"
definition BASE64DE_FIRST :: int where "BASE64DE_FIRST = 43"
definition BASE64DE_LAST :: int where "BASE64DE_LAST = 122"

definition base64de :: "int list" where
  "base64de =
    [62, -1, -1, -1, 63, 52, 53, 54,
     55, 56, 57, 58, 59, 60, 61, -1,
     -1, -1, -1, -1, -1, -1, 0, 1,
     2, 3, 4, 5, 6, 7, 8, 9,
     10, 11, 12, 13, 14, 15, 16, 17,
     18, 19, 20, 21, 22, 23, 24, 25,
     -1, -1, -1, -1, -1, -1, 26, 27,
     28, 29, 30, 31, 32, 33, 34, 35,
     36, 37, 38, 39, 40, 41, 42, 43,
     44, 45, 46, 47, 48, 49, 50, 51]"

definition en :: "u32 \<Rightarrow> byte" where
  "en x = base64en ! unat x"

text \<open>
  Stores and \<open>+=\<close> through the output pointer are undefined past the end of its buffer. The
  encoder stores with \<open>outBuf[j++]\<close>, where \<open>j\<close> is an \<open>unsigned int\<close>.
\<close>

definition put_at :: "byte list \<Rightarrow> nat \<Rightarrow> byte \<Rightarrow> byte list result" where
  "put_at out j b = (if j < length out then Inr (out[j := b]) else Inl Undefined)"

fun put_next :: "u32 \<times> byte list \<Rightarrow> byte \<Rightarrow> (u32 \<times> byte list) result" where
  "put_next (j, out) b = and_then (put_at out (unat j) b) (\<lambda>out'. Inr (j + 1, out'))"

text \<open>\<open>in[i] >> k\<close> on a promoted \<open>char\<close> is an arithmetic shift of a 32-bit \<open>int\<close>.\<close>

function base64_encode_loop ::
  "byte list \<Rightarrow> nat \<Rightarrow> u32 \<times> byte list \<Rightarrow> (u32 \<times> byte list) result" where
  "base64_encode_loop inb i s =
     (if i < length inb then
        (let c = char_to_int (inb ! i); p = char_to_int (inb ! (i - 1)) in
         and_then
           (if i mod 3 = 0 then put_next s (en (signed_drop_bit 2 c AND 0x3F))
            else if i mod 3 = 1 then
              put_next s (en (push_bit 4 (p AND 0x3) + (signed_drop_bit 4 c AND 0xF)))
            else
              and_then (put_next s (en (push_bit 2 (p AND 0xF) + (signed_drop_bit 6 c AND 0x3))))
                (\<lambda>s'. put_next s' (en (c AND 0x3F))))
           (\<lambda>s'. base64_encode_loop inb (Suc i) s'))
      else Inr s)"
  by pat_completeness auto
termination
  by (relation "measure (\<lambda>(inb, i, _). length inb - i)") auto

declare base64_encode_loop.simps [simp del]

text \<open>
  After the loop the code steps \<open>i\<close> back and pads by \<open>i % 3\<close>. With \<open>inlen = 0\<close> the step back
  wraps to \<open>UINT_MAX\<close>, whose remainder is 0, and \<open>in[UINT_MAX]\<close> is read.
\<close>

definition base64Encode :: "byte list \<Rightarrow> byte list \<Rightarrow> (u32 \<times> byte list) result" where
  "base64Encode inb outBuf =
     and_then (base64_encode_loop inb 0 (0, outBuf)) (\<lambda>s.
       let i = (word_of_nat (length inb) :: u32) - 1; k = unat i in
       if k mod 3 = 0 then
         (if k < length inb then
            and_then (put_next s (en (push_bit 4 (char_to_int (inb ! k) AND 0x3))))
              (\<lambda>s'. and_then (put_next s' BASE64_PAD) (\<lambda>s''. put_next s'' BASE64_PAD))
          else Inl Undefined)
       else if k mod 3 = 1 then
         (if k < length inb then
            and_then (put_next s (en (push_bit 2 (char_to_int (inb ! k) AND 0xF))))
              (\<lambda>s'. put_next s' BASE64_PAD)
          else Inl Undefined)
       else Inr s)"

definition add_at :: "byte list \<Rightarrow> nat \<Rightarrow> byte \<Rightarrow> byte list result" where
  "add_at out j b = (if j < length out then Inr (out[j := out ! j + b]) else Inl Undefined)"

text \<open>The table lookup: \<open>None\<close> for a byte that is no base64 digit.\<close>

definition de :: "byte \<Rightarrow> u32 option" where
  "de b =
     (if sint b < BASE64DE_FIRST \<or> sint b > BASE64DE_LAST then None
      else (let c = base64de ! nat (sint b - BASE64DE_FIRST) in
            if c = -1 then None else Some (word_of_int c)))"

text \<open>One turn of the decoding loop past its two early returns: the switch on \<open>i % 4\<close>.\<close>

definition decode_step :: "byte list \<Rightarrow> nat \<Rightarrow> u32 \<Rightarrow> nat \<Rightarrow> byte list \<Rightarrow> (nat \<times> byte list) result"
  where
  "decode_step inb i c j out =
     (let n = (word_of_nat (length inb) :: u32); iw = (word_of_nat i :: u32) in
      if i mod 4 = 0 then
        and_then (put_at out j (ucast (push_bit 2 c AND 0xFF))) (\<lambda>out. Inr (j, out))
      else if i mod 4 = 1 then
        and_then (add_at out j (ucast (drop_bit 4 c AND 0x3))) (\<lambda>out.
          if iw < n - 3 \<or> inb ! (length inb - 2) \<noteq> BASE64_PAD
          then and_then (put_at out (Suc j) (ucast (push_bit 4 (c AND 0xF)))) (\<lambda>out. Inr (Suc j, out))
          else Inr (Suc j, out))
      else if i mod 4 = 2 then
        and_then (add_at out j (ucast (drop_bit 2 c AND 0xF))) (\<lambda>out.
          if iw < n - 2 \<or> inb ! (length inb - 1) \<noteq> BASE64_PAD
          then and_then (put_at out (Suc j) (ucast (push_bit 6 (c AND 0x3)))) (\<lambda>out. Inr (Suc j, out))
          else Inr (Suc j, out))
      else and_then (add_at out j (ucast c)) (\<lambda>out. Inr (Suc j, out)))"

function base64_decode_loop :: "byte list \<Rightarrow> nat \<Rightarrow> nat \<Rightarrow> byte list \<Rightarrow> (u32 \<times> byte list) result"
  where
  "base64_decode_loop inb i j out =
     (if i < length inb then
        (if inb ! i = BASE64_PAD then Inr (word_of_nat j, out)
         else (case de (inb ! i) of
                 None \<Rightarrow> Inr (-1, out)
               | Some c \<Rightarrow>
                   and_then (decode_step inb i c j out)
                     (\<lambda>(j', out'). base64_decode_loop inb (Suc i) j' out')))
      else Inr (word_of_nat j, out))"
  by pat_completeness auto
termination
  by (relation "measure (\<lambda>(inb, i, _). length inb - i)") auto

declare base64_decode_loop.simps [simp del]

definition base64Decode :: "byte list \<Rightarrow> byte list \<Rightarrow> (u32 \<times> byte list) result" where
  "base64Decode inb outBuf = base64_decode_loop inb 0 0 outBuf"

definition BASE64_ENCODE_OUT_SIZE :: "u32 \<Rightarrow> u32" where
  "BASE64_ENCODE_OUT_SIZE s = (s + 2) div 3 * 4"

definition BASE64_DECODE_OUT_SIZE :: "u32 \<Rightarrow> u32" where
  "BASE64_DECODE_OUT_SIZE s = s div 4 * 3"

text \<open>
  The wrappers size a zeroed string, convert into it and shrink it to the returned length.
  \<open>inBase64Decode\<close> keeps the sizes in an \<open>int\<close>: a computed size of \<open>2 ^ 31\<close> or more becomes
  negative and asks the string constructor for nearly \<open>2 ^ 64\<close> bytes, and a returned \<open>-1\<close>
  does the same to \<open>resize\<close>; both throw.
\<close>

definition inBase64Encode :: "byte list \<Rightarrow> byte list result" where
  "inBase64Encode data =
     (let size = BASE64_ENCODE_OUT_SIZE (word_of_nat (length data)) in
      and_then (base64Encode data (replicate (unat (size + 1)) 0)) (\<lambda>(n, out).
        Inr (take (unat n) (out @ replicate (unat n - length out) 0))))"

definition inBase64Decode :: "byte list \<Rightarrow> nat \<Rightarrow> byte list result" where
  "inBase64Decode str len =
     (if length str < len \<or> (len = 0 \<and> 0 \<notin> set str) then Inl Undefined else
      let inb = (if len = 0 then takeWhile (\<lambda>c. c \<noteq> 0) str else take len str);
          size = sint (BASE64_DECODE_OUT_SIZE (word_of_nat (length inb))) + 1
      in if size \<ge> 2 ^ 31 then Inl Undefined
         else if size < 0 then Inl (Throws (Std_length_error ''basic_string::_M_create''))
         else and_then (base64Decode inb (replicate (nat size) 0)) (\<lambda>(n, out).
           if sint n < 0 then Inl (Throws (Std_length_error ''basic_string::_M_replace_aux''))
           else Inr (take (unat n) (out @ replicate (unat n - length out) 0))))"

subsection \<open>Bit operations of the loops as arithmetic\<close>

lemma and_masks: fixes x :: "32 word" shows "x AND 0x3F = take_bit 6 x" "x AND 0xF = take_bit 4 x" "x AND 0x3 = take_bit 2 x" "x AND 0xFF = take_bit 8 x"
  by (simp_all add: take_bit_eq_mask mask_eq_exp_minus_1)


lemma bit_char_to_int: "bit (char_to_int b) n \<longleftrightarrow> n < 32 \<and> bit b (min 7 n)"
  by (auto simp: bit_simps min_def)

lemma bit_char_to_int_low: "n < 8 \<Longrightarrow> bit (char_to_int b) n \<longleftrightarrow> bit b n"
proof -
  assume "n < 8"
  then have "min 7 n = n" "n < 32" by linarith+
  then show ?thesis by (simp only: bit_char_to_int simp_thms)
qed

lemma bit_sar_low: "n + k < 8 \<Longrightarrow> bit (signed_drop_bit k (char_to_int b)) n \<longleftrightarrow> bit b (n + k)"
proof -
  assume "n + k < 8"
  then have k: "\<not> (LENGTH(32) - k \<le> n \<and> n < LENGTH(32))" "k + n < 8" by simp_all
  from k(1) have "bit (signed_drop_bit k (char_to_int b)) n = bit (char_to_int b) (k + n)"
    by (simp only: bit_signed_drop_bit_iff if_False)
  then show ?thesis using k(2) by (simp add: bit_char_to_int_low add.commute)
qed

lemma take_bit_char_to_int: "k \<le> 8 \<Longrightarrow> take_bit k (char_to_int b) = ucast (take_bit k b)"
  by (rule bit_word_eqI) (auto simp: bit_take_bit_iff bit_char_to_int_low bit_ucast_iff)

lemma take_bit_sar: "m + k = 8 \<Longrightarrow> take_bit m (signed_drop_bit k (char_to_int b)) = ucast (drop_bit k b)"
proof (rule bit_word_eqI)
  fix n assume mk: "m + k = 8" and "n < LENGTH(32)"
  then have n: "n < 32" by simp
  show "bit (take_bit m (signed_drop_bit k (char_to_int b))) n = bit (ucast (drop_bit k b) :: u32) n"
  proof (cases "n < m")
    case True
    then have "n + k < 8" using mk by linarith
    then show ?thesis using True n by (simp add: bit_take_bit_iff bit_sar_low bit_ucast_iff bit_drop_bit_eq add.commute)
  next
    case False
    then have "8 \<le> n + k" using mk by linarith
    then have "\<not> bit b (k + n)" by (auto dest: bit_imp_le_length)
    then show ?thesis using False by (simp add: bit_take_bit_iff bit_ucast_iff bit_drop_bit_eq)
  qed
qed

lemma sar_mask: "signed_drop_bit 2 (char_to_int b) AND 0x3F = ucast (drop_bit 2 b)"
 "signed_drop_bit 4 (char_to_int b) AND 0xF = ucast (drop_bit 4 b)"
 "signed_drop_bit 6 (char_to_int b) AND 0x3 = ucast (drop_bit 6 b)"
 "char_to_int b AND 0x3F = ucast (take_bit 6 b)"
 "char_to_int b AND 0xF = ucast (take_bit 4 b)"
 "char_to_int b AND 0x3 = ucast (take_bit 2 b)"
  unfolding and_masks
  by (simp_all add: take_bit_sar take_bit_char_to_int)

lemma de_en_all: "\<forall>x \<in> set [0..<64]. de (base64en ! x) = Some (word_of_nat x) \<and> base64en ! x \<noteq> BASE64_PAD"
  by (simp add: upt_rec base64en_def de_def BASE64DE_FIRST_def BASE64DE_LAST_def base64de_def BASE64_PAD_def)

text \<open>The four digits of a three-byte group\<close>
definition dig0 :: "byte \<Rightarrow> nat" where "dig0 a = unat a div 4"
definition dig1 :: "byte \<Rightarrow> byte \<Rightarrow> nat" where "dig1 a b = unat a mod 4 * 16 + unat b div 16"
definition dig2 :: "byte \<Rightarrow> byte \<Rightarrow> nat" where "dig2 b c = unat b mod 16 * 4 + unat c div 64"
definition dig3 :: "byte \<Rightarrow> nat" where "dig3 c = unat c mod 64"

lemma dig_less: "dig0 a < 64" "dig1 a b < 64" "dig2 b c < 64" "dig3 c < 64"
  using unat_byte [of a] unat_byte [of b] unat_byte [of c]
  by (auto simp: dig0_def dig1_def dig2_def dig3_def)

definition digit :: "nat \<Rightarrow> byte" where "digit x = base64en ! x"

fun groups :: "byte list \<Rightarrow> byte list" where
  "groups (a # b # c # r) = [digit (dig0 a), digit (dig1 a b), digit (dig2 b c), digit (dig3 c)] @ groups r"
| "groups [a, b] = [digit (dig0 a), digit (dig1 a b), digit (dig2 b 0), BASE64_PAD]"
| "groups [a] = [digit (dig0 a), digit (dig1 a 0), BASE64_PAD, BASE64_PAD]"
| "groups [] = []"

lemma unat_ucast_byte: "unat (ucast (b :: byte) :: u32) = unat b"
  using unat_byte [of b] by (simp add: unsigned_ucast_eq take_bit_nat_eq_self)

lemma en_dig:
  "en (signed_drop_bit 2 (char_to_int a) AND 0x3F) = digit (dig0 a)"
  "en (push_bit 4 (char_to_int a AND 0x3) + (signed_drop_bit 4 (char_to_int b) AND 0xF)) = digit (dig1 a b)"
  "en (push_bit 2 (char_to_int b AND 0xF) + (signed_drop_bit 6 (char_to_int c) AND 0x3)) = digit (dig2 b c)"
  "en (char_to_int c AND 0x3F) = digit (dig3 c)"
  "en (push_bit 4 (char_to_int a AND 0x3)) = digit (dig1 a 0)"
  "en (push_bit 2 (char_to_int b AND 0xF)) = digit (dig2 b 0)"
  unfolding en_def digit_def dig0_def dig1_def dig2_def dig3_def sar_mask
  using unat_byte [of a] unat_byte [of b] unat_byte [of c]
  by (simp_all add: unat_ucast_byte push_bit_eq_mult unat_word_ariths drop_bit_eq_div take_bit_eq_mod
     unat_div_distrib unat_mod_distrib)

fun body :: "byte list \<Rightarrow> byte list" where
  "body (a # b # c # r) = [digit (dig0 a), digit (dig1 a b), digit (dig2 b c), digit (dig3 c)] @ body r"
| "body [a, b] = [digit (dig0 a), digit (dig1 a b)]"
| "body [a] = [digit (dig0 a)]"
| "body [] = []"

text \<open>The encoder's state after the digits \<open>d\<close> went into the buffer \<open>buf\<close>\<close>

definition filled :: "byte list \<Rightarrow> byte list \<Rightarrow> u32 \<times> byte list" where
  "filled buf d = (word_of_nat (length d), d @ drop (length d) buf)"

lemma put_next_filled:
  assumes "length d < length buf" "length d < 2 ^ 32"
  shows "put_next (filled buf d) b = Inr (filled buf (d @ [b]))"
proof -
  have "unat (word_of_nat (length d) :: u32) = length d"
    using assms(2) by (simp add: unat_of_nat)
  moreover have "(d @ drop (length d) buf)[length d := b] = (d @ [b]) @ drop (Suc (length d)) buf"
    using assms(1) by (simp add: list_update_append Cons_nth_drop_Suc [symmetric])
  ultimately show ?thesis
    using assms(1) by (simp add: filled_def put_at_def add.commute)
qed

lemma encode_loop_end: "length inb \<le> i \<Longrightarrow> base64_encode_loop inb i s = Inr s"
  by (simp add: base64_encode_loop.simps [of inb i])

lemma encode_loop_0:
  assumes "i < length inb" "i mod 3 = 0" "length d < length buf" "length d < 2 ^ 32"
  shows "base64_encode_loop inb i (filled buf d)
    = base64_encode_loop inb (Suc i) (filled buf (d @ [digit (dig0 (inb ! i))]))"
  unfolding base64_encode_loop.simps [of inb i] Let_def en_dig
  using assms by (simp add: put_next_filled)

lemma encode_loop_1:
  assumes "i < length inb" "i mod 3 = 1" "length d < length buf" "length d < 2 ^ 32"
  shows "base64_encode_loop inb i (filled buf d)
    = base64_encode_loop inb (Suc i) (filled buf (d @ [digit (dig1 (inb ! (i - 1)) (inb ! i))]))"
  unfolding base64_encode_loop.simps [of inb i] Let_def en_dig
  using assms by (simp add: put_next_filled)

lemma encode_loop_2:
  assumes "i < length inb" "i mod 3 = 2" "Suc (length d) < length buf" "Suc (length d) < 2 ^ 32"
  shows "base64_encode_loop inb i (filled buf d)
    = base64_encode_loop inb (Suc i)
        (filled buf (d @ [digit (dig2 (inb ! (i - 1)) (inb ! i)), digit (dig3 (inb ! i))]))"
  unfolding base64_encode_loop.simps [of inb i] Let_def en_dig
  using assms by (simp add: put_next_filled)

lemma encode_loop_body:
  "i mod 3 = 0 \<Longrightarrow> drop i inb = rest \<Longrightarrow> length d + length (body rest) \<le> length buf
    \<Longrightarrow> length d + length (body rest) \<le> 2 ^ 32
    \<Longrightarrow> base64_encode_loop inb i (filled buf d) = Inr (filled buf (d @ body rest))"
proof (induction rest arbitrary: i d rule: body.induct)
  case (1 a b c r)
  have d: "i < length inb" "Suc i < length inb" "Suc (Suc i) < length inb" "inb ! i = a"
     "inb ! Suc i = b" "inb ! Suc (Suc i) = c" "drop (Suc (Suc (Suc i))) inb = r"
    using "1.prems"(2) by (auto dest!: drop_eq_Cons_nth)
  have m: "Suc i mod 3 = 1" "Suc (Suc i) mod 3 = 2" "Suc (Suc (Suc i)) mod 3 = 0"
    using "1.prems"(1) by presburger+
  show ?case
    using d "1.prems"(1,3,4)
    by (simp add: encode_loop_0 encode_loop_1 encode_loop_2 m "1.IH" [OF m(3) d(7)])
next
  case (2 a b)
  have d: "inb ! i = a" "inb ! Suc i = b" "length inb = Suc (Suc i)"
    using "2.prems"(2) by (auto dest!: drop_eq_Cons_nth)
  have m: "Suc i mod 3 = 1" using "2.prems"(1) by presburger
  show ?case
    using d m "2.prems"(1,3,4) by (simp add: encode_loop_0 encode_loop_1 encode_loop_end)
next
  case (3 a)
  have d: "inb ! i = a" "length inb = Suc i"
    using "3.prems"(2) by (auto dest!: drop_eq_Cons_nth)
  show ?case
    using d "3.prems"(1,3,4) by (simp add: encode_loop_0 encode_loop_end)
next
  case 4
  then show ?case by (simp add: encode_loop_end)
qed

lemma groups_body:
  "groups bs = body bs @ 
    (if length bs mod 3 = 1 then [digit (dig1 (last bs) 0), BASE64_PAD, BASE64_PAD]
     else if length bs mod 3 = 2 then [digit (dig2 (last bs) 0), BASE64_PAD] else [])"
  by (induction bs rule: groups.induct) (auto simp: mod_Suc)

lemma length_groups: "length (groups bs) = (length bs + 2) div 3 * 4"
proof (induction bs rule: groups.induct)
  case (1 a b c r)
  have "(length (a # b # c # r) + 2) div 3 = Suc ((length r + 2) div 3)" by simp
  with 1 show ?case by simp
qed auto

lemma base64Encode_groups:
  assumes "bs \<noteq> []" "length (groups bs) < 2 ^ 32" "length (groups bs) \<le> length buf"
  shows "base64Encode bs buf = Inr (filled buf (groups bs))"
proof -
  obtain k where k: "length bs = Suc k" using assms(1) by (cases bs) auto
  have "length bs < 2 ^ 32" using assms(2) length_groups [of bs] by simp
  then have u: "unat (word_of_nat (length bs) - 1 :: u32) = k"
    using k by (simp add: unat_of_nat del: unsigned_of_nat)
  have l: "bs ! k = last bs" using k by (metis assms(1) diff_Suc_1 last_conv_nth)
  have m: "k mod 3 = 0 \<longleftrightarrow> length bs mod 3 = 1" "k mod 3 = 1 \<longleftrightarrow> length bs mod 3 = 2"
    unfolding k by presburger+
  have z: "(0, buf) = filled buf []" by (simp add: filled_def)
  have "length (body bs) \<le> length (groups bs)" by (simp add: groups_body)
  then have loop: "base64_encode_loop bs 0 (filled buf []) = Inr (filled buf (body bs))"
    using encode_loop_body [of 0 bs bs "[]" buf] assms by simp
  have g: "length (groups bs) = length (body bs) + (if length bs mod 3 = 1 then 3
      else if length bs mod 3 = 2 then 2 else 0)"
    by (simp add: groups_body)
  show ?thesis
    unfolding base64Encode_def z loop Let_def u l en_dig m using assms(2,3) g k
    by (auto simp: groups_body put_next_filled)
qed

text \<open>
  The encoder RFC 4648 describes: three bytes are a 24-bit number, read as four 6-bit numbers
  from the top; a last group is filled up with zero bits and its unused places are \<open>=\<close>. The
  alphabet is written out from the RFC's table 1 by ranges.
\<close>

definition rfc_digit :: "nat \<Rightarrow> byte" where
  "rfc_digit x = word_of_nat
     (if x < 26 then 65 + x else if x < 52 then 97 + (x - 26)
      else if x < 62 then 48 + (x - 52) else if x = 62 then 43 else 47)"

definition sextets :: "byte \<Rightarrow> byte \<Rightarrow> byte \<Rightarrow> byte list" where
  "sextets a b c =
     (let n = unat a * 2 ^ 16 + unat b * 2 ^ 8 + unat c in
      map rfc_digit [n div 2 ^ 18, n div 2 ^ 12 mod 2 ^ 6, n div 2 ^ 6 mod 2 ^ 6, n mod 2 ^ 6])"

fun rfc4648 :: "byte list \<Rightarrow> byte list" where
  "rfc4648 (a # b # c # r) = sextets a b c @ rfc4648 r"
| "rfc4648 [a, b] = take 3 (sextets a b 0) @ [61]"
| "rfc4648 [a] = take 2 (sextets a 0 0) @ [61, 61]"
| "rfc4648 [] = []"

lemma digit_rfc_all: "\<forall>x \<in> set [0..<64]. base64en ! x = rfc_digit x"
  by (simp add: upt_rec base64en_def rfc_digit_def)

lemma digit_rfc: "x < 64 \<Longrightarrow> digit x = rfc_digit x"
  using digit_rfc_all by (simp add: digit_def)

lemma scaled_split:
  fixes x :: nat
  assumes "m * k = j"
  shows "x * k = x div m * j + x mod m * k"
proof -
  have "x * k = (x div m * m + x mod m) * k" by (simp only: div_mult_mod_eq)
  then show ?thesis using assms by (simp only: distrib_right mult.assoc)
qed

lemma top_low: "y < 64 \<Longrightarrow> (x * 64 + y) div 64 = x" "y < 64 \<Longrightarrow> (x * 64 + y) mod 64 = (y :: nat)"
  by simp_all

lemma sextet_digits:
  fixes a b c :: byte
  defines "n \<equiv> unat a * 2 ^ 16 + unat b * 2 ^ 8 + unat c"
  shows "n div 2 ^ 18 = dig0 a" "n div 2 ^ 12 mod 2 ^ 6 = dig1 a b"
    "n div 2 ^ 6 mod 2 ^ 6 = dig2 b c" "n mod 2 ^ 6 = dig3 c"
proof -
  let ?x = "unat a" and ?y = "unat b" and ?z = "unat c"
  have l: "?x < 256" "?y < 256" "?z < 256" by (rule unat_byte)+
  have s: "?x * 65536 = ?x div 4 * 262144 + ?x mod 4 * 65536"
    "?y * 256 = ?y div 16 * 4096 + ?y mod 16 * 256"
    by (rule scaled_split; simp)+
  have "?x * 65536 + ?y * 256 + ?z = dig0 a * 262144 + dig1 a b * 4096 + dig2 b c * 64 + dig3 c"
    unfolding dig0_def dig1_def dig2_def dig3_def s by (simp add: distrib_right)
  then have e: "n = ((dig0 a * 64 + dig1 a b) * 64 + dig2 b c) * 64 + dig3 c"
    by (simp add: n_def distrib_right)
  have d: "n div 64 = (dig0 a * 64 + dig1 a b) * 64 + dig2 b c" "n mod 64 = dig3 c"
    unfolding e by (simp_all only: top_low dig_less)
  have d': "n div 64 div 64 = dig0 a * 64 + dig1 a b" "n div 64 mod 64 = dig2 b c"
    unfolding d by (simp_all only: top_low dig_less)
  have d'': "n div 64 div 64 div 64 = dig0 a" "n div 64 div 64 mod 64 = dig1 a b"
    unfolding d' by (simp_all only: top_low dig_less)
  have p: "n div 2 ^ 18 = n div 64 div 64 div 64" "n div 2 ^ 12 = n div 64 div 64"
    by (simp_all add: div_mult2_eq [symmetric])
  have q: "2 ^ 6 = (64 :: nat)" by simp
  show "n div 2 ^ 18 = dig0 a" "n div 2 ^ 12 mod 2 ^ 6 = dig1 a b"
    "n div 2 ^ 6 mod 2 ^ 6 = dig2 b c" "n mod 2 ^ 6 = dig3 c"
    unfolding p q by (rule d'' d' d(2))+
qed

lemma sextets_digits: "sextets a b c = [digit (dig0 a), digit (dig1 a b), digit (dig2 b c), digit (dig3 c)]"
  unfolding sextets_def Let_def sextet_digits by (simp add: digit_rfc dig_less)

lemma rfc4648_groups: "rfc4648 bs = groups bs"
  by (induction bs rule: groups.induct) (simp_all add: sextets_digits BASE64_PAD_def)

lemma digit_table:
  "x < 64 \<Longrightarrow> de (digit x) = Some (word_of_nat x) \<and> digit x \<noteq> BASE64_PAD"
  using de_en_all by (simp add: digit_def)

lemma decode_values_all: "\<forall>x \<in> set [0..<64].
   ucast (push_bit 2 (word_of_nat x :: u32) AND 0xFF) = (word_of_nat (4 * x) :: byte)
 \<and> ucast (drop_bit 4 (word_of_nat x :: u32) AND 0x3) = (word_of_nat (x div 16) :: byte)
 \<and> ucast (push_bit 4 ((word_of_nat x :: u32) AND 0xF)) = (word_of_nat (x mod 16 * 16) :: byte)
 \<and> ucast (drop_bit 2 (word_of_nat x :: u32) AND 0xF) = (word_of_nat (x div 4) :: byte)
 \<and> ucast (push_bit 6 ((word_of_nat x :: u32) AND 0x3)) = (word_of_nat (x mod 4 * 64) :: byte)
 \<and> ucast (word_of_nat x :: u32) = (word_of_nat x :: byte)"
  by (simp add: upt_rec)

lemma decode_values:
  assumes "x < 64"
  shows "ucast (push_bit 2 (word_of_nat x :: u32) AND 0xFF) = (word_of_nat (4 * x) :: byte)"
    "ucast (drop_bit 4 (word_of_nat x :: u32) AND 0x3) = (word_of_nat (x div 16) :: byte)"
    "ucast (push_bit 4 ((word_of_nat x :: u32) AND 0xF)) = (word_of_nat (x mod 16 * 16) :: byte)"
    "ucast (drop_bit 2 (word_of_nat x :: u32) AND 0xF) = (word_of_nat (x div 4) :: byte)"
    "ucast (push_bit 6 ((word_of_nat x :: u32) AND 0x3)) = (word_of_nat (x mod 4 * 64) :: byte)"
    "ucast (word_of_nat x :: u32) = (word_of_nat x :: byte)"
  using bspec [OF decode_values_all, of x] assms by simp_all

lemma byte_of_parts: "m = unat a \<Longrightarrow> (word_of_nat m :: byte) = a"
  by simp

lemma group_bytes:
  "(word_of_nat (4 * dig0 a) :: byte) + word_of_nat (dig1 a b div 16) = a"
  "(word_of_nat (dig1 a b mod 16 * 16) :: byte) + word_of_nat (dig2 b c div 4) = b"
  "(word_of_nat (dig2 b c mod 4 * 64) :: byte) + word_of_nat (dig3 c) = c"
proof -
  have "4 * dig0 a + dig1 a b div 16 = unat a"
    using unat_byte [of a] unat_byte [of b] by (simp add: dig0_def dig1_def div_add1_eq)
  then show "(word_of_nat (4 * dig0 a) :: byte) + word_of_nat (dig1 a b div 16) = a"
    by (metis byte_of_parts of_nat_add)
  have "dig1 a b mod 16 * 16 + dig2 b c div 4 = unat b"
    using unat_byte [of b] unat_byte [of c] by (simp add: dig1_def dig2_def)
  then show "(word_of_nat (dig1 a b mod 16 * 16) :: byte) + word_of_nat (dig2 b c div 4) = b"
    by (metis byte_of_parts of_nat_add)
  have "dig2 b c mod 4 * 64 + dig3 c = unat c"
    using unat_byte [of c] by (simp add: dig2_def dig3_def)
  then show "(word_of_nat (dig2 b c mod 4 * 64) :: byte) + word_of_nat (dig3 c) = c"
    by (metis byte_of_parts of_nat_add)
qed

text \<open>The test that decides whether the next output byte is started\<close>
lemma more_after:
  assumes "k \<in> {2, 3}" "k \<le> length inb" "length inb < 2 ^ 32" "i + k \<le> length inb"
  shows "(word_of_nat i :: u32) < word_of_nat (length inb) - word_of_nat k \<longleftrightarrow> i + k < length inb"
proof -
  have "unat (word_of_nat (length inb) - word_of_nat k :: u32) = length inb - k"
    using assms by (subst unat_sub) (auto simp: unat_of_nat word_le_nat_alt)
  moreover have "unat (word_of_nat i :: u32) = i"
    using assms by (simp add: unat_of_nat)
  ultimately show ?thesis using assms by (auto simp: word_less_nat_alt)
qed

lemma decode_step_0:
  assumes "i mod 4 = 0" "j < length out" "x < 64"
  shows "decode_step inb i (word_of_nat x) j out = Inr (j, out[j := word_of_nat (4 * x)])"
  unfolding decode_step_def Let_def decode_values [OF assms(3)] put_at_def using assms by simp

lemma decode_step_1:
  assumes "i mod 4 = 1" "x < 64" "length inb < 2 ^ 32" "i + 3 \<le> length inb"
    "length inb = i + 3 \<Longrightarrow> inb ! Suc i \<noteq> BASE64_PAD" "Suc j < length out"
  shows "decode_step inb i (word_of_nat x) j out
    = Inr (Suc j, out[j := out ! j + word_of_nat (x div 16), Suc j := word_of_nat (x mod 16 * 16)])"
proof -
  have "(word_of_nat i :: u32) < word_of_nat (length inb) - 3 \<or> inb ! (length inb - 2) \<noteq> BASE64_PAD"
    using more_after [of 3 inb i] assms by (cases "length inb = i + 3") auto
  then show ?thesis
    unfolding decode_step_def Let_def decode_values [OF assms(2)] put_at_def add_at_def using assms by simp
qed

lemma decode_step_1_last:
  assumes "i mod 4 = 1" "x < 64" "length inb < 2 ^ 32" "length inb = i + 3"
    "inb ! Suc i = BASE64_PAD" "j < length out"
  shows "decode_step inb i (word_of_nat x) j out = Inr (Suc j, out[j := out ! j + word_of_nat (x div 16)])"
proof -
  have "\<not> (word_of_nat i :: u32) < word_of_nat (length inb) - 3"
    using more_after [of 3 inb i] assms by auto
  then show ?thesis
    unfolding decode_step_def Let_def decode_values [OF assms(2)] put_at_def add_at_def using assms by simp
qed

lemma decode_step_2:
  assumes "i mod 4 = 2" "x < 64" "length inb < 2 ^ 32" "i + 2 \<le> length inb"
    "length inb = i + 2 \<Longrightarrow> inb ! Suc i \<noteq> BASE64_PAD" "Suc j < length out"
  shows "decode_step inb i (word_of_nat x) j out
    = Inr (Suc j, out[j := out ! j + word_of_nat (x div 4), Suc j := word_of_nat (x mod 4 * 64)])"
proof -
  have "(word_of_nat i :: u32) < word_of_nat (length inb) - 2 \<or> inb ! (length inb - 1) \<noteq> BASE64_PAD"
    using more_after [of 2 inb i] assms by (cases "length inb = i + 2") auto
  then show ?thesis
    unfolding decode_step_def Let_def decode_values [OF assms(2)] put_at_def add_at_def using assms by simp
qed

lemma decode_step_2_last:
  assumes "i mod 4 = 2" "x < 64" "length inb < 2 ^ 32" "length inb = i + 2"
    "inb ! Suc i = BASE64_PAD" "j < length out"
  shows "decode_step inb i (word_of_nat x) j out = Inr (Suc j, out[j := out ! j + word_of_nat (x div 4)])"
proof -
  have "\<not> (word_of_nat i :: u32) < word_of_nat (length inb) - 2"
    using more_after [of 2 inb i] assms by auto
  then show ?thesis
    unfolding decode_step_def Let_def decode_values [OF assms(2)] put_at_def add_at_def using assms by simp
qed

lemma decode_step_3:
  assumes "i mod 4 = 3" "j < length out" "x < 64"
  shows "decode_step inb i (word_of_nat x) j out = Inr (Suc j, out[j := out ! j + word_of_nat x])"
  unfolding decode_step_def Let_def decode_values [OF assms(3)] add_at_def using assms by simp

lemma decode_loop_digit:
  assumes "i < length inb" "inb ! i = digit x" "x < 64"
    "decode_step inb i (word_of_nat x) j out = Inr (j', out')"
  shows "base64_decode_loop inb i j out = base64_decode_loop inb (Suc i) j' out'"
  using assms digit_table [of x] by (simp add: base64_decode_loop.simps [of inb i])

lemma decode_loop_pad:
  "i < length inb \<Longrightarrow> inb ! i = BASE64_PAD \<Longrightarrow> base64_decode_loop inb i j out = Inr (word_of_nat j, out)"
  by (simp add: base64_decode_loop.simps [of inb i])

lemma decode_loop_end: "length inb \<le> i \<Longrightarrow> base64_decode_loop inb i j out = Inr (word_of_nat j, out)"
  by (simp add: base64_decode_loop.simps [of inb i])

lemma take_Suc_update: "j < length xs \<Longrightarrow> take (Suc j) (xs[j := x]) = take j xs @ [x]"
  by (subst take_Suc_conv_app_nth) simp_all

lemma decode_full_group:
  assumes "i mod 4 = 0" "drop i inb = [digit x, digit y, digit z, digit w] @ rest"
    "x < 64" "y < 64" "z < 64" "w < 64" "length inb < 2 ^ 32" "j + 3 \<le> length out"
  shows "base64_decode_loop inb i j out = base64_decode_loop inb (i + 4) (j + 3)
    (out[j := word_of_nat (4 * x) + word_of_nat (y div 16),
         j + 1 := word_of_nat (y mod 16 * 16) + word_of_nat (z div 4),
         j + 2 := word_of_nat (z mod 4 * 64) + word_of_nat w])"
proof -
  have d: "i < length inb" "Suc i < length inb" "Suc (Suc i) < length inb" "Suc (Suc (Suc i)) < length inb"
     "inb ! i = digit x" "inb ! Suc i = digit y" "inb ! Suc (Suc i) = digit z" "inb ! Suc (Suc (Suc i)) = digit w"
    using assms(2) by (auto dest!: drop_eq_Cons_nth)
  have m: "Suc i mod 4 = 1" "Suc (Suc i) mod 4 = 2" "Suc (Suc (Suc i)) mod 4 = 3"
    using assms(1) by presburger+
  have i4: "i + 4 = Suc (Suc (Suc (Suc i)))" and add_3_eq_Suc': "j + 3 = Suc (Suc (Suc j))" by simp_all
  have np: "digit z \<noteq> BASE64_PAD" "digit w \<noteq> BASE64_PAD"
    using assms digit_table by auto
  have "base64_decode_loop inb i j out
      = base64_decode_loop inb (Suc i) j (out[j := word_of_nat (4 * x)])"
    using assms d decode_step_0 [OF assms(1) _ assms(3), of j out] by (intro decode_loop_digit) auto
  also have "\<dots> = base64_decode_loop inb (Suc (Suc i)) (Suc j)
      (out[j := word_of_nat (4 * x) + word_of_nat (y div 16), Suc j := word_of_nat (y mod 16 * 16)])"
    using assms d np decode_step_1 [OF m(1) assms(4,7), of j "out[j := word_of_nat (4 * x)]"]
    by (intro decode_loop_digit) auto
  also have "\<dots> = base64_decode_loop inb (Suc (Suc (Suc i))) (Suc (Suc j))
      (out[j := word_of_nat (4 * x) + word_of_nat (y div 16),
           Suc j := word_of_nat (y mod 16 * 16) + word_of_nat (z div 4),
           Suc (Suc j) := word_of_nat (z mod 4 * 64)])"
    using assms d np decode_step_2 [OF m(2) assms(5,7), of "Suc j" "out[j := word_of_nat (4 * x) + word_of_nat (y div 16), Suc j := word_of_nat (y mod 16 * 16)]"]
    by (intro decode_loop_digit) auto
  also have "\<dots> = base64_decode_loop inb (Suc (Suc (Suc (Suc i)))) (Suc (Suc (Suc j)))
      (out[j := word_of_nat (4 * x) + word_of_nat (y div 16),
           Suc j := word_of_nat (y mod 16 * 16) + word_of_nat (z div 4),
           Suc (Suc j) := word_of_nat (z mod 4 * 64) + word_of_nat w])"
    using assms d decode_step_3 [OF m(3), of "Suc (Suc j)" "out[j := word_of_nat (4 * x) + word_of_nat (y div 16),
           Suc j := word_of_nat (y mod 16 * 16) + word_of_nat (z div 4),
           Suc (Suc j) := word_of_nat (z mod 4 * 64)]" w]
    by (intro decode_loop_digit [where x = w]) auto
  finally show ?thesis
    by (simp only: add_2_eq_Suc' add_3_eq_Suc' Suc_eq_plus1 [symmetric] i4)
qed

lemma decode_groups:
  assumes "i mod 4 = 0" "drop i inb = groups rest" "length inb < 2 ^ 32" "j + length rest \<le> length out"
  shows "\<exists>out'. base64_decode_loop inb i j out = Inr (word_of_nat (j + length rest), out')
    \<and> length out' = length out \<and> take (j + length rest) out' = take j out @ rest"
  using assms
proof (induction rest arbitrary: i j out rule: groups.induct)
  case (1 a b c r)
  let ?out = "out[j := a, j + 1 := b, j + 2 := c]"
  have step: "base64_decode_loop inb i j out = base64_decode_loop inb (i + 4) (j + 3) ?out"
    using decode_full_group [OF "1.prems"(1) _ dig_less(1,2,3,4) "1.prems"(3), of a a b b c c "groups r" j out, unfolded group_bytes] "1.prems"(2,4)
    by simp
  have "drop (i + 4) inb = groups r"
  proof -
    have "drop (i + 4) inb = drop 4 (drop i inb)" by (simp add: add.commute)
    then show ?thesis by (simp only: "1.prems"(2)) simp
  qed
  moreover have "(i + 4) mod 4 = 0" using "1.prems"(1) by simp
  ultimately obtain out' where o: "base64_decode_loop inb (i + 4) (j + 3) ?out = Inr (word_of_nat (j + 3 + length r), out')"
    "length out' = length out" "take (j + 3 + length r) out' = take (j + 3) ?out @ r"
    using "1.IH" [of "i + 4" "j + 3" ?out] "1.prems"(3,4) by auto
  have "take (j + 3) ?out = take j out @ [a, b, c]"
    using "1.prems"(4) by (simp add: take_Suc_update eval_nat_numeral)
  then show ?case using step o by (intro exI [of _ out']) (simp add: algebra_simps eval_nat_numeral)
next
  case (2 a b)
  have d: "i < length inb" "Suc i < length inb" "Suc (Suc i) < length inb" "length inb = i + 4"
     "inb ! i = digit (dig0 a)" "inb ! Suc i = digit (dig1 a b)" "inb ! Suc (Suc i) = digit (dig2 b 0)"
     "inb ! Suc (Suc (Suc i)) = BASE64_PAD"
    using "2.prems"(2) by (auto dest!: drop_eq_Cons_nth)
  have m: "Suc i mod 4 = 1" "Suc (Suc i) mod 4 = 2" using "2.prems"(1) by presburger+
  let ?o1 = "out[j := word_of_nat (4 * dig0 a)]"
  let ?o2 = "out[j := a, Suc j := word_of_nat (dig1 a b mod 16 * 16)]"
  have "base64_decode_loop inb i j out = base64_decode_loop inb (Suc i) j ?o1"
    using "2.prems" d dig_less decode_step_0 [OF "2.prems"(1) _ dig_less(1), of j out] by (intro decode_loop_digit) auto
  also have "\<dots> = base64_decode_loop inb (Suc (Suc i)) (Suc j) ?o2"
    using "2.prems" d dig_less group_bytes [simplified] digit_table [OF dig_less(3), of b 0]
      decode_step_1 [OF m(1) dig_less(2) "2.prems"(3), of j ?o1 a b] by (intro decode_loop_digit) auto
  also have "\<dots> = base64_decode_loop inb (Suc (Suc (Suc i))) (Suc (Suc j)) (out[j := a, Suc j := b])"
    using "2.prems" d dig_less group_bytes [simplified] group_bytes(2) [of a b 0, simplified]
      decode_step_2_last [OF m(2) dig_less(3) "2.prems"(3), of "Suc j" ?o2 b 0] by (intro decode_loop_digit) auto
  also have "\<dots> = Inr (word_of_nat (Suc (Suc j)), out[j := a, Suc j := b])"
    using d by (intro decode_loop_pad) auto
  finally show ?case
    using "2.prems"(4) by (intro exI [of _ "out[j := a, Suc j := b]"]) (simp add: take_Suc_update)
next
  case (3 a)
  have d: "i < length inb" "Suc i < length inb" "length inb = i + 4"
     "inb ! i = digit (dig0 a)" "inb ! Suc i = digit (dig1 a 0)" "inb ! Suc (Suc i) = BASE64_PAD"
    using "3.prems"(2) by (auto dest!: drop_eq_Cons_nth)
  have m: "Suc i mod 4 = 1" using "3.prems"(1) by presburger
  let ?o1 = "out[j := word_of_nat (4 * dig0 a)]"
  have "base64_decode_loop inb i j out = base64_decode_loop inb (Suc i) j ?o1"
    using "3.prems" d dig_less decode_step_0 [OF "3.prems"(1) _ dig_less(1), of j out] by (intro decode_loop_digit) auto
  also have "\<dots> = base64_decode_loop inb (Suc (Suc i)) (Suc j) (out[j := a])"
    using "3.prems" d dig_less group_bytes [simplified]
      decode_step_1_last [OF m(1) dig_less(2) "3.prems"(3), of j ?o1 a 0] by (intro decode_loop_digit) auto
  also have "\<dots> = Inr (word_of_nat (Suc j), out[j := a])"
    using d by (intro decode_loop_pad) auto
  finally show ?case
    using "3.prems"(4) by (intro exI [of _ "out[j := a]"]) (simp add: take_Suc_update)
next
  case 4
  then show ?case by (simp add: decode_loop_end)
qed

subsection \<open>The string wrappers\<close>

definition b64_valid :: "byte list \<Rightarrow> bool" where
  "b64_valid bs \<longleftrightarrow> bs \<noteq> [] \<and> length bs < 2 ^ 31 - 1"

lemma groups_fit:
  assumes "length bs < 2 ^ 31 - 1"
  shows "unat (BASE64_ENCODE_OUT_SIZE (word_of_nat (length bs)) + 1) = length (groups bs) + 1"
    and "length (groups bs) < 2 ^ 32"
    and "sint (BASE64_DECODE_OUT_SIZE (word_of_nat (length (groups bs)))) = int ((length bs + 2) div 3 * 3)"
proof -
  have l: "length (groups bs) = (length bs + 2) div 3 * 4" by (rule length_groups)
  then show g: "length (groups bs) < 2 ^ 32" using assms by simp
  have "unat (word_of_nat (length bs) + 2 :: u32) = length bs + 2"
    using assms by (simp add: unat_word_ariths unat_of_nat)
  then show "unat (BASE64_ENCODE_OUT_SIZE (word_of_nat (length bs)) + 1) = length (groups bs) + 1"
    using assms l by (simp add: BASE64_ENCODE_OUT_SIZE_def unat_word_ariths unat_div_distrib)
  have "unat (BASE64_DECODE_OUT_SIZE (word_of_nat (length (groups bs)))) = (length bs + 2) div 3 * 3"
    using g l by (simp add: BASE64_DECODE_OUT_SIZE_def unat_word_ariths unat_div_distrib unat_of_nat)
  moreover have "(length bs + 2) div 3 * 3 < 2 ^ 31"
  proof -
    have "(length bs + 2) div 3 \<le> 2 ^ 31 div 3" using assms by (intro div_le_mono) simp
    then show ?thesis by simp
  qed
  ultimately show "sint (BASE64_DECODE_OUT_SIZE (word_of_nat (length (groups bs)))) = int ((length bs + 2) div 3 * 3)"
    by (subst sint_eq_unat) simp_all
qed

text \<open>
  C37: For every non-empty buffer whose encoding has fewer than \<open>2 ^ 32\<close> characters (the output
  index is 32 bits wide) and fits the output buffer, the encoder stores exactly the RFC 4648
  encoding there, four characters for every started group of three bytes, returns its length
  and leaves the rest of the buffer alone.
\<close>

theorem base64Encode_rfc4648:
  assumes "bs \<noteq> []" "(length bs + 2) div 3 * 4 < 2 ^ 32" "(length bs + 2) div 3 * 4 \<le> length buf"
  shows "base64Encode bs buf = Inr (word_of_nat ((length bs + 2) div 3 * 4),
    rfc4648 bs @ drop ((length bs + 2) div 3 * 4) buf)"
  using base64Encode_groups [of bs buf] assms by (simp add: rfc4648_groups length_groups filled_def)

theorem base64Encode_rfc4648_witness:
  "base64Encode [77, 97] (replicate 5 0) = Inr (4, [84, 87, 69, 61, 0])"
proof -
  have "rfc4648 [77, 97] = [84, 87, 69, 61]" by (simp add: sextets_def rfc_digit_def)
  then show ?thesis using base64Encode_rfc4648 [of "[77, 97]" "replicate 5 0"] by simp
qed

text \<open>
  On an empty buffer the padding code steps the unsigned index back to \<open>UINT_MAX\<close> and reads
  \<open>in[UINT_MAX]\<close>: encoding nothing is undefined behaviour.
\<close>

theorem base64Encode_empty: "base64Encode [] buf = Inl Undefined"
proof -
  have "unat (- 1 :: u32) = 4294967295" by (simp add: unsigned_minus_1_eq_mask mask_eq_exp_minus_1)
  then show ?thesis by (simp add: base64Encode_def base64_encode_loop.simps Let_def)
qed

lemma inBase64Encode_groups:
  assumes "b64_valid bs"
  shows "inBase64Encode bs = Inr (groups bs)"
proof -
  have v: "bs \<noteq> []" "length bs < 2 ^ 31 - 1" using assms by (simp_all add: b64_valid_def)
  have "unat (word_of_nat (length (groups bs)) :: u32) = length (groups bs)"
    using groups_fit(2) [OF v(2)] by (simp add: unat_of_nat)
  then show ?thesis
    using base64Encode_groups [of bs] groups_fit(1,2) [OF v(2)] v(1)
    by (simp add: inBase64Encode_def Let_def filled_def)
qed

lemma inBase64Decode_groups:
  assumes "b64_valid bs"
  shows "inBase64Decode (groups bs) (length (groups bs)) = Inr bs"
proof -
  let ?s = "groups bs" and ?n = "(length bs + 2) div 3 * 3"
  have v: "bs \<noteq> []" "length bs < 2 ^ 31 - 1" using assms by (simp_all add: b64_valid_def)
  let ?out = "replicate (Suc ?n) 0 :: byte list"
  have le: "length bs \<le> Suc ?n" by presburger
  obtain out' where o: "base64_decode_loop ?s 0 0 ?out = Inr (word_of_nat (length bs), out')"
    "take (length bs) out' = bs"
    using decode_groups [of 0 ?s bs 0 ?out] groups_fit(2) [OF v(2)] le
    by (auto simp del: replicate_Suc)
  have u: "unat (word_of_nat (length bs) :: u32) = length bs"
    using v(2) by (simp add: unat_of_nat)
  then have si: "sint (word_of_nat (length bs) :: u32) = int (length bs)"
    using v(2) by (subst sint_eq_unat) simp_all
  have ne: "length ?s \<noteq> 0" using v(1) length_groups [of bs] by (cases bs) auto
  have sz: "sint (BASE64_DECODE_OUT_SIZE (word_of_nat (length ?s))) + 1 = int (Suc ?n)"
    using groups_fit(3) [OF v(2)] by simp
  have "(length bs + 2) div 3 \<le> (2 ^ 31) div 3" using v(2) by (intro div_le_mono) simp
  then have "int (Suc ?n) < 2 ^ 31" by simp
  then have "inBase64Decode ?s (length ?s)
      = Inr (take (length bs) (out' @ replicate (length bs - length out') 0))"
    unfolding inBase64Decode_def base64Decode_def Let_def using o(1) u si ne
    by (simp del: of_nat_Suc replicate_Suc add: sz)
  also have "take (length bs) (out' @ replicate (length bs - length out') 0) = bs"
    using o(2) by (cases "length bs \<le> length out'") (auto dest: arg_cong [of _ _ length])
  finally show ?thesis .
qed

interpretation b64: byte_codec b64_valid inBase64Encode "\<lambda>s. inBase64Decode s (length s)"
  by unfold_locales (auto simp: inBase64Encode_groups inBase64Decode_groups)

text \<open>
  C18: Decoding what \<open>inBase64Encode\<close> produced returns the original bytes, binary data included,
  for every non-empty buffer of at most \<open>2 ^ 31 - 2\<close> bytes, the longest whose decoded size
  still fits the \<open>int\<close> of \<open>inBase64Decode\<close>.
\<close>

theorem base64_roundtrip:
  assumes "bs \<noteq> []" "length bs < 2 ^ 31 - 1"
  shows "and_then (inBase64Encode bs) (\<lambda>s. inBase64Decode s (length s)) = Inr bs"
  using assms by (intro b64.round) (simp add: b64_valid_def)

theorem base64_roundtrip_witness:
  "and_then (inBase64Encode [1, 200, 255, 4, 9]) (\<lambda>s. inBase64Decode s (length s)) = Inr [1, 200, 255, 4, 9]"
  by (rule base64_roundtrip) simp_all

lemma decode_invalid_first:
  "de c = None \<Longrightarrow> c \<noteq> BASE64_PAD \<Longrightarrow> base64Decode (c # cs) out = Inr (-1, out)"
  by (simp add: base64Decode_def base64_decode_loop.simps [of _ 0])

text \<open>
  A byte outside the base64 alphabet makes \<open>base64Decode\<close> return -1, and the wrapper passes
  that to \<open>resize\<close>: it throws \<open>std::length_error\<close> instead of reporting the bad input.
\<close>

theorem inBase64Decode_invalid_throws:
  assumes "de c = None" "c \<noteq> BASE64_PAD" "length cs < 2 ^ 31"
  shows "inBase64Decode (c # cs) (length (c # cs))
    = Inl (Throws (Std_length_error ''basic_string::_M_replace_aux''))"
proof -
  let ?d = "BASE64_DECODE_OUT_SIZE (word_of_nat (length (c # cs)))"
  have "unat ?d = length (c # cs) div 4 * 3"
    using assms(3) by (simp add: BASE64_DECODE_OUT_SIZE_def unat_word_ariths unat_div_distrib unat_of_nat)
  moreover have "length (c # cs) div 4 * 3 < 2 ^ 31 - 1" using assms(3) by simp
  ultimately have "0 \<le> sint ?d" "sint ?d < 2 ^ 31 - 1"
    by (simp_all add: sint_eq_unat)
  moreover have "sint (- 1 :: u32) < 0" by simp
  ultimately show ?thesis
    using assms by (simp add: inBase64Decode_def decode_invalid_first Let_def)
qed

theorem inBase64Decode_invalid_throws_witness:
  "inBase64Decode [33, 65, 65, 65] 4 = Inl (Throws (Std_length_error ''basic_string::_M_replace_aux''))"
proof -
  have l: "length [33, 65, 65, 65 :: byte] = 4" by simp
  have d: "de 33 = None" "(33 :: byte) \<noteq> BASE64_PAD"
    by (simp_all add: de_def BASE64DE_FIRST_def BASE64_PAD_def)
  show ?thesis
    using inBase64Decode_invalid_throws [OF d, of "[65, 65, 65]"] by (simp only: l) simp
qed

text \<open>
  One byte past the bound of the round trip the computed size no longer fits an \<open>int\<close>, and
  decoding throws before a character is read.
\<close>

theorem inBase64Decode_size_overflow:
  assumes "length bs = 2 ^ 31 - 1"
  shows "inBase64Decode (groups bs) (length (groups bs))
    = Inl (Throws (Std_length_error ''basic_string::_M_create''))"
proof -
  let ?d = "BASE64_DECODE_OUT_SIZE (word_of_nat (length (groups bs)))"
  have l: "length (groups bs) = 2863311532" using assms by (simp add: length_groups)
  then have "sint ?d = -2147483647" by (simp add: BASE64_DECODE_OUT_SIZE_def)
  then show ?thesis using l by (simp add: inBase64Decode_def Let_def)
qed

end
