(* ===== verification/VarData.thy ===== *)
theory VarData
  imports Prelude
begin

text \<open>
  The tagged value and the named bundle of values that travel with every event
  (src/code/common/include/util/CVarDatas.hpp). A \<open>CVariant\<close> owns a heap string or a heap byte
  array through a raw pointer in a union, so its special members are modelled on an explicit
  heap, and the development shows that they give value semantics: no operation sequence frees a
  cell twice, leaks one or lets two objects share one, and the abstract view of the store is a
  map from objects to values. \<open>CVarDatas\<close> is modelled on top of that value view.
\<close>

subsection \<open>The tag, the union and the heap\<close>

datatype EM_DataType =
    VAR_TYPE_INVALID | VAR_TYPE_BOOL | VAR_TYPE_CHAR | VAR_TYPE_INT32 | VAR_TYPE_UINT32
  | VAR_TYPE_INT64 | VAR_TYPE_UINT64 | VAR_TYPE_FLOAT | VAR_TYPE_DOUBLE | VAR_TYPE_STRING
  | VAR_TYPE_BYTE_ARRAY

text \<open>
  The union with its active member; \<open>None\<close> is \<open>nullptr\<close>. A floating-point member is kept as
  its IEEE 754 bit pattern.
\<close>

datatype unData =
    U_bool bool | U_char byte | U_i32 u32 | U_u32 u32 | U_i64 u64 | U_u64 u64
  | U_float u32 | U_double u64 | U_str "nat option" | U_arr "nat option"

record cvariant =
  m_type :: EM_DataType
  m_data :: unData

datatype cell = Str_cell "byte list" | Arr_cell "byte list"

record vheap =
  cells :: "nat \<Rightarrow> cell option"
  next_cell :: nat

definition heap_new :: "cell \<Rightarrow> vheap \<Rightarrow> nat \<times> vheap" where
  "heap_new c h =
     (next_cell h, h\<lparr>cells := (cells h)(next_cell h \<mapsto> c), next_cell := next_cell h + 1\<rparr>)"

definition delete_str :: "nat option \<Rightarrow> vheap \<Rightarrow> vheap result" where
  "delete_str p h = (case p of None \<Rightarrow> Inr h
     | Some a \<Rightarrow> (case cells h a of Some (Str_cell _) \<Rightarrow> Inr (h\<lparr>cells := (cells h)(a := None)\<rparr>)
                 | _ \<Rightarrow> Inl Undefined))"

definition delete_arr :: "nat option \<Rightarrow> vheap \<Rightarrow> vheap result" where
  "delete_arr p h = (case p of None \<Rightarrow> Inr h
     | Some a \<Rightarrow> (case cells h a of Some (Arr_cell _) \<Rightarrow> Inr (h\<lparr>cells := (cells h)(a := None)\<rparr>)
                 | _ \<Rightarrow> Inl Undefined))"

definition deref_str :: "nat option \<Rightarrow> vheap \<Rightarrow> byte list result" where
  "deref_str p h = (case p of None \<Rightarrow> Inl Undefined
     | Some a \<Rightarrow> (case cells h a of Some (Str_cell s) \<Rightarrow> Inr s | _ \<Rightarrow> Inl Undefined))"

definition deref_arr :: "nat option \<Rightarrow> vheap \<Rightarrow> byte list result" where
  "deref_arr p h = (case p of None \<Rightarrow> Inl Undefined
     | Some a \<Rightarrow> (case cells h a of Some (Arr_cell s) \<Rightarrow> Inr s | _ \<Rightarrow> Inl Undefined))"

subsection \<open>Constructors, destructor and assignment\<close>

text \<open>The argument of a converting constructor or of a setter.\<close>

datatype "value" =
    V_invalid | V_bool bool | V_char byte | V_int32 u32 | V_uint32 u32 | V_int64 u64
  | V_uint64 u64 | V_float u32 | V_double u64 | V_string "byte list" | V_bytes "byte list"

fun cvariant_new :: "value \<Rightarrow> vheap \<Rightarrow> cvariant \<times> vheap" where
  "cvariant_new V_invalid h = (\<lparr>m_type = VAR_TYPE_INVALID, m_data = U_i64 0\<rparr>, h)"
| "cvariant_new (V_bool b) h = (\<lparr>m_type = VAR_TYPE_BOOL, m_data = U_bool b\<rparr>, h)"
| "cvariant_new (V_char c) h = (\<lparr>m_type = VAR_TYPE_CHAR, m_data = U_char c\<rparr>, h)"
| "cvariant_new (V_int32 w) h = (\<lparr>m_type = VAR_TYPE_INT32, m_data = U_i32 w\<rparr>, h)"
| "cvariant_new (V_uint32 w) h = (\<lparr>m_type = VAR_TYPE_UINT32, m_data = U_u32 w\<rparr>, h)"
| "cvariant_new (V_int64 w) h = (\<lparr>m_type = VAR_TYPE_INT64, m_data = U_i64 w\<rparr>, h)"
| "cvariant_new (V_uint64 w) h = (\<lparr>m_type = VAR_TYPE_UINT64, m_data = U_u64 w\<rparr>, h)"
| "cvariant_new (V_float w) h = (\<lparr>m_type = VAR_TYPE_FLOAT, m_data = U_float w\<rparr>, h)"
| "cvariant_new (V_double w) h = (\<lparr>m_type = VAR_TYPE_DOUBLE, m_data = U_double w\<rparr>, h)"
| "cvariant_new (V_string s) h =
     (let (a, h) = heap_new (Str_cell s) h
      in (\<lparr>m_type = VAR_TYPE_STRING, m_data = U_str (Some a)\<rparr>, h))"
| "cvariant_new (V_bytes s) h =
     (let (a, h) = heap_new (Arr_cell s) h
      in (\<lparr>m_type = VAR_TYPE_BYTE_ARRAY, m_data = U_arr (Some a)\<rparr>, h))"

text \<open>\<open>resetCheck\<close> frees what the tag says is owned and leaves the tag as it is.\<close>

definition resetCheck :: "cvariant \<Rightarrow> vheap \<Rightarrow> (cvariant \<times> vheap) result" where
  "resetCheck v h = (case m_type v of
       VAR_TYPE_STRING \<Rightarrow>
         (case m_data v of
            U_str p \<Rightarrow> and_then (delete_str p h) (\<lambda>h. Inr (v\<lparr>m_data := U_str None\<rparr>, h))
          | _ \<Rightarrow> Inl Undefined)
     | VAR_TYPE_BYTE_ARRAY \<Rightarrow>
         (case m_data v of
            U_arr p \<Rightarrow> and_then (delete_arr p h) (\<lambda>h. Inr (v\<lparr>m_data := U_arr None\<rparr>, h))
          | _ \<Rightarrow> Inl Undefined)
     | _ \<Rightarrow> Inr (v, h))"

definition cvariant_destroy :: "cvariant \<Rightarrow> vheap \<Rightarrow> vheap result" where
  "cvariant_destroy v h = and_then (resetCheck v h) (\<lambda>(v, h). Inr h)"

text \<open>The \<open>switch\<close> of the copy assignment: an owned object is cloned, the rest copied bitwise.\<close>

definition copy_from :: "cvariant \<Rightarrow> vheap \<Rightarrow> (cvariant \<times> vheap) result" where
  "copy_from rhs h = (case m_type rhs of
       VAR_TYPE_STRING \<Rightarrow>
         (case m_data rhs of
            U_str p \<Rightarrow> and_then (deref_str p h) (\<lambda>s.
              let (a, h) = heap_new (Str_cell s) h
              in Inr (\<lparr>m_type = VAR_TYPE_STRING, m_data = U_str (Some a)\<rparr>, h))
          | _ \<Rightarrow> Inl Undefined)
     | VAR_TYPE_BYTE_ARRAY \<Rightarrow>
         (case m_data rhs of
            U_arr p \<Rightarrow> and_then (deref_arr p h) (\<lambda>s.
              let (a, h) = heap_new (Arr_cell s) h
              in Inr (\<lparr>m_type = VAR_TYPE_BYTE_ARRAY, m_data = U_arr (Some a)\<rparr>, h))
          | _ \<Rightarrow> Inl Undefined)
     | t \<Rightarrow> Inr (\<lparr>m_type = t, m_data = m_data rhs\<rparr>, h))"

text \<open>
  The \<open>switch\<close> of the two move members: the result and what is left of the source, whose tag
  is exchanged for \<open>VAR_TYPE_INVALID\<close> and whose pointer, if any, for \<open>nullptr\<close>.
\<close>

definition move_from :: "cvariant \<Rightarrow> (cvariant \<times> cvariant) result" where
  "move_from rhs = (case m_type rhs of
       VAR_TYPE_STRING \<Rightarrow>
         (case m_data rhs of
            U_str p \<Rightarrow> Inr (\<lparr>m_type = VAR_TYPE_STRING, m_data = U_str p\<rparr>,
                           \<lparr>m_type = VAR_TYPE_INVALID, m_data = U_str None\<rparr>)
          | _ \<Rightarrow> Inl Undefined)
     | VAR_TYPE_BYTE_ARRAY \<Rightarrow>
         (case m_data rhs of
            U_arr p \<Rightarrow> Inr (\<lparr>m_type = VAR_TYPE_BYTE_ARRAY, m_data = U_arr p\<rparr>,
                           \<lparr>m_type = VAR_TYPE_INVALID, m_data = U_arr None\<rparr>)
          | _ \<Rightarrow> Inl Undefined)
     | t \<Rightarrow> Inr (\<lparr>m_type = t, m_data = m_data rhs\<rparr>, rhs\<lparr>m_type := VAR_TYPE_INVALID\<rparr>))"

text \<open>
  A program's variables: the objects alive, by identity, and the heap. Object identity decides
  the test \<open>this != &var\<close> of the assignments.
\<close>

record vstore =
  objs :: "nat \<Rightarrow> cvariant option"
  vheap_of :: vheap

definition with_obj :: "nat \<Rightarrow> vstore \<Rightarrow> (cvariant \<Rightarrow> 'a result) \<Rightarrow> 'a result" where
  "with_obj i s k = and_then (of_option Undefined (objs s i)) k"

definition put_obj :: "nat \<Rightarrow> cvariant \<Rightarrow> vheap \<Rightarrow> vstore \<Rightarrow> vstore" where
  "put_obj i v h s = s\<lparr>objs := (objs s)(i \<mapsto> v), vheap_of := h\<rparr>"

definition construct :: "nat \<Rightarrow> value \<Rightarrow> vstore \<Rightarrow> vstore result" where
  "construct i x s = (let (v, h) = cvariant_new x (vheap_of s) in Inr (put_obj i v h s))"

definition destroy :: "nat \<Rightarrow> vstore \<Rightarrow> vstore result" where
  "destroy i s = with_obj i s (\<lambda>v.
     and_then (cvariant_destroy v (vheap_of s)) (\<lambda>h.
       Inr (s\<lparr>objs := (objs s)(i := None), vheap_of := h\<rparr>)))"

definition copy_assign :: "nat \<Rightarrow> nat \<Rightarrow> vstore \<Rightarrow> vstore result" where
  "copy_assign i j s = with_obj i s (\<lambda>v. with_obj j s (\<lambda>w.
     if i = j then Inr s
     else and_then (resetCheck v (vheap_of s)) (\<lambda>(v, h).
            and_then (copy_from w h) (\<lambda>(v, h). Inr (put_obj i v h s)))))"

text \<open>
  The copy constructor starts from the member initialiser (an invalid tag and an indeterminate
  union, here zero) and runs the assignment on itself.
\<close>

definition copy_construct :: "nat \<Rightarrow> nat \<Rightarrow> vstore \<Rightarrow> vstore result" where
  "copy_construct i j s = copy_assign i j
     (put_obj i \<lparr>m_type = VAR_TYPE_INVALID, m_data = U_i64 0\<rparr> (vheap_of s) s)"

definition move_construct :: "nat \<Rightarrow> nat \<Rightarrow> vstore \<Rightarrow> vstore result" where
  "move_construct i j s = with_obj j s (\<lambda>w.
     and_then (move_from w) (\<lambda>(v, w).
       Inr (put_obj i v (vheap_of s) (put_obj j w (vheap_of s) s))))"

text \<open>
  The move assignment returns \<open>CVariant\<close> by value: its \<open>return *this\<close> copies the object into a
  temporary that the caller destroys at the end of the statement.
\<close>

definition move_assign :: "nat \<Rightarrow> nat \<Rightarrow> vstore \<Rightarrow> vstore result" where
  "move_assign i j s = with_obj i s (\<lambda>v. with_obj j s (\<lambda>w.
     and_then
       (if i = j then Inr (v, s)
        else and_then (resetCheck v (vheap_of s)) (\<lambda>(v, h).
               and_then (move_from w) (\<lambda>(v, w). Inr (v, put_obj i v h (put_obj j w h s)))))
       (\<lambda>(v, s).
         and_then (copy_from v (vheap_of s)) (\<lambda>(tmp, h).
           and_then (cvariant_destroy tmp h) (\<lambda>h. Inr (s\<lparr>vheap_of := h\<rparr>))))))"

text \<open>The ten setters: free what is owned, then store the new tag and member.\<close>

definition set_data :: "nat \<Rightarrow> value \<Rightarrow> vstore \<Rightarrow> vstore result" where
  "set_data i x s = with_obj i s (\<lambda>v.
     and_then (resetCheck v (vheap_of s)) (\<lambda>(v, h).
       let (v, h) = cvariant_new x h in Inr (put_obj i v h s)))"

subsection \<open>Getters and the numeric cast\<close>

text \<open>Every getter is strict: any other tag is a \<open>logic_error\<close>, no conversion is tried.\<close>

definition type_mismatch :: "string \<Rightarrow> 'a result" where
  "type_mismatch msg = Inl (Throws (Std_logic_error msg))"

definition getBoolData :: "cvariant \<Rightarrow> bool result" where
  "getBoolData v = (if m_type v \<noteq> VAR_TYPE_BOOL then type_mismatch ''variant m_type is not bool!''
     else case m_data v of U_bool x \<Rightarrow> Inr x | _ \<Rightarrow> Inl Undefined)"

definition getCharData :: "cvariant \<Rightarrow> byte result" where
  "getCharData v = (if m_type v \<noteq> VAR_TYPE_CHAR then type_mismatch ''variant m_type is not char!''
     else case m_data v of U_char x \<Rightarrow> Inr x | _ \<Rightarrow> Inl Undefined)"

definition getInt32Data :: "cvariant \<Rightarrow> u32 result" where
  "getInt32Data v = (if m_type v \<noteq> VAR_TYPE_INT32 then type_mismatch ''variant m_type is not int32!''
     else case m_data v of U_i32 x \<Rightarrow> Inr x | _ \<Rightarrow> Inl Undefined)"

definition getUint32Data :: "cvariant \<Rightarrow> u32 result" where
  "getUint32Data v = (if m_type v \<noteq> VAR_TYPE_UINT32 then type_mismatch ''variant m_type is not uint32!''
     else case m_data v of U_u32 x \<Rightarrow> Inr x | _ \<Rightarrow> Inl Undefined)"

definition getInt64Data :: "cvariant \<Rightarrow> u64 result" where
  "getInt64Data v = (if m_type v \<noteq> VAR_TYPE_INT64 then type_mismatch ''variant m_type is not int64!''
     else case m_data v of U_i64 x \<Rightarrow> Inr x | _ \<Rightarrow> Inl Undefined)"

definition getUint64Data :: "cvariant \<Rightarrow> u64 result" where
  "getUint64Data v = (if m_type v \<noteq> VAR_TYPE_UINT64 then type_mismatch ''variant m_type is not uint64!''
     else case m_data v of U_u64 x \<Rightarrow> Inr x | _ \<Rightarrow> Inl Undefined)"

definition getFloatData :: "cvariant \<Rightarrow> u32 result" where
  "getFloatData v = (if m_type v \<noteq> VAR_TYPE_FLOAT then type_mismatch ''variant m_type is not float!''
     else case m_data v of U_float x \<Rightarrow> Inr x | _ \<Rightarrow> Inl Undefined)"

definition getDoubleData :: "cvariant \<Rightarrow> u64 result" where
  "getDoubleData v = (if m_type v \<noteq> VAR_TYPE_DOUBLE then type_mismatch ''variant m_type is not double!''
     else case m_data v of U_double x \<Rightarrow> Inr x | _ \<Rightarrow> Inl Undefined)"

definition getStringData :: "vheap \<Rightarrow> cvariant \<Rightarrow> byte list result" where
  "getStringData h v = (if m_type v \<noteq> VAR_TYPE_STRING then type_mismatch ''variant m_type is not string!''
     else case m_data v of U_str p \<Rightarrow> deref_str p h | _ \<Rightarrow> Inl Undefined)"

definition getByteArrayData :: "vheap \<Rightarrow> cvariant \<Rightarrow> byte list result" where
  "getByteArrayData h v = (if m_type v \<noteq> VAR_TYPE_BYTE_ARRAY then type_mismatch ''variant m_type is not array!''
     else case m_data v of U_arr p \<Rightarrow> deref_arr p h | _ \<Rightarrow> Inl Undefined)"

text \<open>
  Truncation of an IEEE 754 value with \<open>e\<close> exponent and \<open>m\<close> fraction bits; \<open>None\<close> for an
  infinity or a NaN. Converting a value the target type cannot hold is undefined.
\<close>

definition ieee_trunc :: "nat \<Rightarrow> nat \<Rightarrow> nat \<Rightarrow> int option" where
  "ieee_trunc e m n =
     (let neg = n div 2 ^ (e + m) mod 2 = 1; ex = n div 2 ^ m mod 2 ^ e; frac = n mod 2 ^ m;
          shift = 2 ^ (e - 1) - 1 + m
      in if ex = 2 ^ e - 1 then None
         else if ex = 0 then Some 0
         else let mag = (if shift \<le> ex then (2 ^ m + frac) * 2 ^ (ex - shift)
                         else (2 ^ m + frac) div 2 ^ (shift - ex))
              in Some (if neg then - int mag else int mag))"

definition int_in_range :: "bool \<Rightarrow> nat \<Rightarrow> int \<Rightarrow> bool" where
  "int_in_range is_signed w x =
     (if is_signed then - (2 ^ (w - 1)) \<le> x \<and> x < 2 ^ (w - 1) else 0 \<le> x \<and> x < 2 ^ w)"

definition real_to_int :: "bool \<Rightarrow> int option \<Rightarrow> 'b::len word result" where
  "real_to_int is_signed x = (case x of
       Some i \<Rightarrow> if int_in_range is_signed LENGTH('b) i then Inr (word_of_int i) else Inl Undefined
     | None \<Rightarrow> Inl Undefined)"

text \<open>\<open>CastToNum\<close> at an integer type of any width, signed or not.\<close>

definition CastToNum :: "bool \<Rightarrow> cvariant \<Rightarrow> 'b::len word result" where
  "CastToNum is_signed v = (case (m_type v, m_data v) of
       (VAR_TYPE_BOOL, U_bool b) \<Rightarrow> Inr (if b then 1 else 0)
     | (VAR_TYPE_CHAR, U_char c) \<Rightarrow> Inr (scast c)
     | (VAR_TYPE_INT32, U_i32 w) \<Rightarrow> Inr (scast w)
     | (VAR_TYPE_UINT32, U_u32 w) \<Rightarrow> Inr (ucast w)
     | (VAR_TYPE_INT64, U_i64 w) \<Rightarrow> Inr (scast w)
     | (VAR_TYPE_UINT64, U_u64 w) \<Rightarrow> Inr (ucast w)
     | (VAR_TYPE_FLOAT, U_float w) \<Rightarrow> real_to_int is_signed (ieee_trunc 8 23 (unat w))
     | (VAR_TYPE_DOUBLE, U_double w) \<Rightarrow> real_to_int is_signed (ieee_trunc 11 52 (unat w))
     | (VAR_TYPE_INVALID, _) \<Rightarrow> type_mismatch ''cast to number failed! variant m_type is not number!''
     | (VAR_TYPE_STRING, _) \<Rightarrow> type_mismatch ''cast to number failed! variant m_type is not number!''
     | (VAR_TYPE_BYTE_ARRAY, _) \<Rightarrow> type_mismatch ''cast to number failed! variant m_type is not number!''
     | _ \<Rightarrow> Inl Undefined)"

subsection \<open>The abstract view and the ownership invariant\<close>

definition value_of :: "vheap \<Rightarrow> cvariant \<Rightarrow> value result" where
  "value_of h v = (case m_type v of
       VAR_TYPE_INVALID \<Rightarrow> Inr V_invalid
     | VAR_TYPE_BOOL \<Rightarrow> and_then (getBoolData v) (Inr \<circ> V_bool)
     | VAR_TYPE_CHAR \<Rightarrow> and_then (getCharData v) (Inr \<circ> V_char)
     | VAR_TYPE_INT32 \<Rightarrow> and_then (getInt32Data v) (Inr \<circ> V_int32)
     | VAR_TYPE_UINT32 \<Rightarrow> and_then (getUint32Data v) (Inr \<circ> V_uint32)
     | VAR_TYPE_INT64 \<Rightarrow> and_then (getInt64Data v) (Inr \<circ> V_int64)
     | VAR_TYPE_UINT64 \<Rightarrow> and_then (getUint64Data v) (Inr \<circ> V_uint64)
     | VAR_TYPE_FLOAT \<Rightarrow> and_then (getFloatData v) (Inr \<circ> V_float)
     | VAR_TYPE_DOUBLE \<Rightarrow> and_then (getDoubleData v) (Inr \<circ> V_double)
     | VAR_TYPE_STRING \<Rightarrow> and_then (getStringData h v) (Inr \<circ> V_string)
     | VAR_TYPE_BYTE_ARRAY \<Rightarrow> and_then (getByteArrayData h v) (Inr \<circ> V_bytes))"

definition owner :: "cvariant \<Rightarrow> nat option" where
  "owner v = (case (m_type v, m_data v) of
       (VAR_TYPE_STRING, U_str p) \<Rightarrow> p
     | (VAR_TYPE_BYTE_ARRAY, U_arr p) \<Rightarrow> p
     | _ \<Rightarrow> None)"

text \<open>
  Every object alive has a value, no two own the same cell, every cell is owned, and the
  allocator never returns a cell in use.
\<close>

definition store_ok :: "vstore \<Rightarrow> bool" where
  "store_ok s \<longleftrightarrow>
     (\<forall>i v. objs s i = Some v \<longrightarrow> (\<exists>x. value_of (vheap_of s) v = Inr x)) \<and>
     (\<forall>i j v w a. objs s i = Some v \<longrightarrow> objs s j = Some w \<longrightarrow>
        owner v = Some a \<longrightarrow> owner w = Some a \<longrightarrow> i = j) \<and>
     (\<forall>a c. cells (vheap_of s) a = Some c \<longrightarrow> a < next_cell (vheap_of s)) \<and>
     (\<forall>a c. cells (vheap_of s) a = Some c \<longrightarrow> (\<exists>i v. objs s i = Some v \<and> owner v = Some a))"

definition contents :: "vstore \<Rightarrow> nat \<Rightarrow> value option" where
  "contents s i = (case objs s i of None \<Rightarrow> None
     | Some v \<Rightarrow> (case value_of (vheap_of s) v of Inr x \<Rightarrow> Some x | Inl _ \<Rightarrow> None))"

definition no_vars :: vstore where
  "no_vars = \<lparr>objs = Map.empty, vheap_of = \<lparr>cells = Map.empty, next_cell = 0\<rparr>\<rparr>"

subsection \<open>Programs over variants and their abstract meaning\<close>

datatype vop =
    Construct nat "value" | CopyConstruct nat nat | MoveConstruct nat nat | Destroy nat
  | CopyAssign nat nat | MoveAssign nat nat | SetData nat "value"

fun vop_step :: "vop \<Rightarrow> vstore \<Rightarrow> vstore result" where
  "vop_step (Construct i x) s = construct i x s"
| "vop_step (CopyConstruct i j) s = copy_construct i j s"
| "vop_step (MoveConstruct i j) s = move_construct i j s"
| "vop_step (Destroy i) s = destroy i s"
| "vop_step (CopyAssign i j) s = copy_assign i j s"
| "vop_step (MoveAssign i j) s = move_assign i j s"
| "vop_step (SetData i x) s = set_data i x s"

fun vop_run :: "vop list \<Rightarrow> vstore \<Rightarrow> vstore result" where
  "vop_run [] s = Inr s"
| "vop_run (p # ps) s = and_then (vop_step p s) (vop_run ps)"

text \<open>What the language demands of the caller: fresh identities to construct, live ones to use.\<close>

fun vop_legal :: "vop \<Rightarrow> nat set \<Rightarrow> bool" where
  "vop_legal (Construct i x) D = (i \<notin> D)"
| "vop_legal (CopyConstruct i j) D = (i \<notin> D \<and> j \<in> D)"
| "vop_legal (MoveConstruct i j) D = (i \<notin> D \<and> j \<in> D)"
| "vop_legal (Destroy i) D = (i \<in> D)"
| "vop_legal (CopyAssign i j) D = (i \<in> D \<and> j \<in> D)"
| "vop_legal (MoveAssign i j) D = (i \<in> D \<and> j \<in> D)"
| "vop_legal (SetData i x) D = (i \<in> D)"

fun value_step :: "vop \<Rightarrow> (nat \<Rightarrow> value option) \<Rightarrow> nat \<Rightarrow> value option" where
  "value_step (Construct i x) m = m(i \<mapsto> x)"
| "value_step (CopyConstruct i j) m = m(i := m j)"
| "value_step (MoveConstruct i j) m = m(i := m j, j \<mapsto> V_invalid)"
| "value_step (Destroy i) m = m(i := None)"
| "value_step (CopyAssign i j) m = m(i := m j)"
| "value_step (MoveAssign i j) m = (if i = j then m else m(i := m j, j \<mapsto> V_invalid))"
| "value_step (SetData i x) m = m(i \<mapsto> x)"

fun vops_legal :: "vop list \<Rightarrow> (nat \<Rightarrow> value option) \<Rightarrow> bool" where
  "vops_legal [] m = True"
| "vops_legal (p # ps) m = (vop_legal p (dom m) \<and> vops_legal ps (value_step p m))"

definition value_run :: "vop list \<Rightarrow> (nat \<Rightarrow> value option) \<Rightarrow> nat \<Rightarrow> value option" where
  "value_run ps m = fold value_step ps m"

subsection \<open>Lemmas on single variants\<close>

named_theorems getter_defs

lemmas [getter_defs] = type_mismatch_def getBoolData_def getCharData_def getInt32Data_def
  getUint32Data_def getInt64Data_def getUint64Data_def getFloatData_def getDoubleData_def
  getStringData_def getByteArrayData_def

definition free_cell :: "nat option \<Rightarrow> vheap \<Rightarrow> vheap" where
  "free_cell p h = (case p of None \<Rightarrow> h | Some a \<Rightarrow> h\<lparr>cells := (cells h)(a := None)\<rparr>)"

lemma cells_free_cell: "cells (free_cell p h) a = (if p = Some a then None else cells h a)"
  by (auto simp: free_cell_def split: option.splits)

lemma next_free_cell [simp]: "next_cell (free_cell p h) = next_cell h"
  by (simp add: free_cell_def split: option.splits)

lemma value_of_cases:
  assumes "value_of h v = Inr x"
  obtains
    (plain) "m_type v \<notin> {VAR_TYPE_STRING, VAR_TYPE_BYTE_ARRAY}" "owner v = None"
  | (str) a b where "m_type v = VAR_TYPE_STRING" "m_data v = U_str (Some a)"
      "cells h a = Some (Str_cell b)" "x = V_string b" "owner v = Some a"
  | (arr) a b where "m_type v = VAR_TYPE_BYTE_ARRAY" "m_data v = U_arr (Some a)"
      "cells h a = Some (Arr_cell b)" "x = V_bytes b" "owner v = Some a"
proof (cases "m_type v")
  case VAR_TYPE_STRING
  then show ?thesis using assms that(2)
    by (auto simp: value_of_def owner_def getStringData_def deref_str_def type_mismatch_def
        and_then_eq_Inr split: unData.splits option.splits cell.splits)
next
  case VAR_TYPE_BYTE_ARRAY
  then show ?thesis using assms that(3)
    by (auto simp: value_of_def owner_def getByteArrayData_def deref_arr_def type_mismatch_def
        and_then_eq_Inr split: unData.splits option.splits cell.splits)
qed (rule that(1); simp add: owner_def)+

lemma value_of_plain:
  "m_type v \<notin> {VAR_TYPE_STRING, VAR_TYPE_BYTE_ARRAY} \<Longrightarrow> value_of h v = value_of h' v"
  by (cases "m_type v") (simp_all add: value_of_def)

lemma owner_cell: "value_of h v = Inr x \<Longrightarrow> owner v = Some a \<Longrightarrow> \<exists>c. cells h a = Some c"
  by (erule value_of_cases) auto

lemma value_of_frame:
  assumes "value_of h v = Inr x" and "\<And>a. owner v = Some a \<Longrightarrow> cells h' a = cells h a"
  shows "value_of h' v = Inr x"
  using assms(1)
proof (cases rule: value_of_cases)
  case plain
  then show ?thesis using assms(1) value_of_plain by metis
next
  case (str a b)
  then show ?thesis using assms(2) [of a]
    by (simp add: value_of_def getStringData_def deref_str_def)
next
  case (arr a b)
  then show ?thesis using assms(2) [of a]
    by (simp add: value_of_def getByteArrayData_def deref_arr_def)
qed

lemma resetCheck_frees:
  assumes "value_of h v = Inr x"
  shows "\<exists>v'. resetCheck v h = Inr (v', free_cell (owner v) h)"
  using assms
proof (cases rule: value_of_cases)
  case plain
  then show ?thesis by (cases "m_type v") (simp_all add: resetCheck_def free_cell_def)
next
  case (str a b)
  then show ?thesis by (simp add: resetCheck_def delete_str_def free_cell_def)
next
  case (arr a b)
  then show ?thesis by (simp add: resetCheck_def delete_arr_def free_cell_def)
qed

text \<open>A value just built: it owns nothing, or exactly the one cell that was allocated for it.\<close>

definition fresh_value :: "vheap \<Rightarrow> value \<Rightarrow> cvariant \<Rightarrow> vheap \<Rightarrow> bool" where
  "fresh_value h x v h' \<longleftrightarrow> value_of h' v = Inr x \<and>
     (owner v = None \<and> h' = h \<or>
      (\<exists>c. owner v = Some (next_cell h) \<and> h' = snd (heap_new c h)))"

lemma cvariant_new_fresh: "cvariant_new x h = (v, h') \<Longrightarrow> fresh_value h x v h'"
  by (cases x) (auto simp: fresh_value_def value_of_def owner_def heap_new_def
      getter_defs deref_str_def deref_arr_def Let_def)

lemma copy_from_fresh:
  assumes "value_of h w = Inr x"
  shows "\<exists>v h'. copy_from w h = Inr (v, h') \<and> fresh_value h x v h'"
  using assms
proof (cases rule: value_of_cases)
  case plain
  define v where "v = \<lparr>m_type = m_type w, m_data = m_data w\<rparr>"
  have "copy_from w h = Inr (v, h)"
    using plain by (cases "m_type w") (simp_all add: copy_from_def v_def)
  moreover have "v = w" by (simp add: v_def)
  ultimately show ?thesis using plain assms by (simp add: fresh_value_def)
next
  case (str a b)
  then show ?thesis
    by (auto simp: copy_from_def deref_str_def heap_new_def fresh_value_def value_of_def
        owner_def getStringData_def Let_def)
next
  case (arr a b)
  then show ?thesis
    by (auto simp: copy_from_def deref_arr_def heap_new_def fresh_value_def value_of_def
        owner_def getByteArrayData_def Let_def)
qed

lemma move_from_owner:
  assumes "value_of h w = Inr x"
  shows "\<exists>v w'. move_from w = Inr (v, w') \<and> value_of h v = Inr x \<and> owner v = owner w \<and>
      m_type w' = VAR_TYPE_INVALID"
  using assms
proof (cases rule: value_of_cases)
  case plain
  define v where "v = \<lparr>m_type = m_type w, m_data = m_data w\<rparr>"
  have "move_from w = Inr (v, w\<lparr>m_type := VAR_TYPE_INVALID\<rparr>)"
    using plain by (cases "m_type w") (simp_all add: move_from_def v_def)
  moreover have "v = w" by (simp add: v_def)
  ultimately show ?thesis using assms by simp
next
  case (str a b)
  then show ?thesis
    by (simp add: move_from_def value_of_def owner_def getStringData_def deref_str_def)
next
  case (arr a b)
  then show ?thesis
    by (simp add: move_from_def value_of_def owner_def getByteArrayData_def deref_arr_def)
qed

lemma invalid_variant:
  "m_type w = VAR_TYPE_INVALID \<Longrightarrow> value_of h w = Inr V_invalid \<and> owner w = None"
  by (simp add: value_of_def owner_def)

text \<open>Destroying a fresh temporary gives the heap back, up to the allocator's next address.\<close>

lemma destroy_fresh:
  assumes "fresh_value h x v h'" and "cells h (next_cell h) = None"
  shows "\<exists>h''. cvariant_destroy v h' = Inr h'' \<and> cells h'' = cells h \<and> next_cell h \<le> next_cell h''"
proof -
  have x: "value_of h' v = Inr x" using assms(1) by (simp add: fresh_value_def)
  obtain v' where r: "resetCheck v h' = Inr (v', free_cell (owner v) h')"
    using resetCheck_frees [OF x] by blast
  have "cells (free_cell (owner v) h') = cells h \<and> next_cell h \<le> next_cell h'"
    using assms by (auto simp: fresh_value_def free_cell_def heap_new_def)
  then show ?thesis using r by (simp add: cvariant_destroy_def)
qed

subsection \<open>Lemmas on the store\<close>

lemma store_okD:
  assumes "store_ok s"
  shows store_ok_value: "objs s i = Some v \<Longrightarrow> \<exists>x. value_of (vheap_of s) v = Inr x"
    and store_ok_owner: "objs s i = Some v \<Longrightarrow> objs s j = Some w \<Longrightarrow>
      owner v = Some a \<Longrightarrow> owner w = Some a \<Longrightarrow> i = j"
    and store_ok_next: "cells (vheap_of s) a = Some c \<Longrightarrow> a < next_cell (vheap_of s)"
    and store_ok_owned: "cells (vheap_of s) a = Some c \<Longrightarrow>
      \<exists>i v. objs s i = Some v \<and> owner v = Some a"
  using assms unfolding store_ok_def by blast+

lemma next_cell_free: "store_ok s \<Longrightarrow> cells (vheap_of s) (next_cell (vheap_of s)) = None"
  using store_ok_next by (cases "cells (vheap_of s) (next_cell (vheap_of s))") blast+

lemma contents_Some:
  "store_ok s \<Longrightarrow> objs s i = Some v \<Longrightarrow> value_of (vheap_of s) v = Inr x \<Longrightarrow> contents s i = Some x"
  by (simp add: contents_def)

lemma dom_contents: "store_ok s \<Longrightarrow> dom (contents s) = dom (objs s)"
  using store_ok_value by (fastforce simp: contents_def dom_def split: option.splits)

definition drop_obj :: "nat \<Rightarrow> cvariant \<Rightarrow> vstore \<Rightarrow> vstore" where
  "drop_obj i v s = s\<lparr>objs := (objs s)(i := None), vheap_of := free_cell (owner v) (vheap_of s)\<rparr>"

lemma drop_obj_simps [simp]:
  "objs (drop_obj i v s) = (objs s)(i := None)"
  "vheap_of (drop_obj i v s) = free_cell (owner v) (vheap_of s)"
  "put_obj i w h (drop_obj i v s) = put_obj i w h s"
  by (simp_all add: drop_obj_def put_obj_def)

lemma put_obj_simps [simp]:
  "objs (put_obj i v h s) = (objs s)(i \<mapsto> v)"
  "vheap_of (put_obj i v h s) = h"
  by (simp_all add: put_obj_def)

lemma drop_value:
  assumes ok: "store_ok s" and i: "objs s i = Some v" and j: "objs s j = Some w"
    and ne: "i \<noteq> j" and w: "value_of (vheap_of s) w = Inr x"
  shows "value_of (free_cell (owner v) (vheap_of s)) w = Inr x"
  using w
proof (rule value_of_frame)
  fix a assume "owner w = Some a"
  then have "owner v \<noteq> Some a" using store_ok_owner [OF ok i j] ne by blast
  then show "cells (free_cell (owner v) (vheap_of s)) a = cells (vheap_of s) a"
    by (simp add: cells_free_cell)
qed

lemma drop_obj_ok:
  assumes ok: "store_ok s" and i: "objs s i = Some v"
  shows "store_ok (drop_obj i v s)"
proof -
  let ?h = "free_cell (owner v) (vheap_of s)"
  have "\<exists>x. value_of ?h w = Inr x" if "((objs s)(i := None)) j = Some w" for j w
  proof -
    have j: "objs s j = Some w" and ne: "i \<noteq> j" using that by (auto split: if_splits)
    obtain x where "value_of (vheap_of s) w = Inr x" using store_ok_value [OF ok j] by blast
    then show ?thesis using drop_value [OF ok i j ne] by blast
  qed
  moreover have "\<exists>j w. ((objs s)(i := None)) j = Some w \<and> owner w = Some a"
    if "cells ?h a = Some c" for a c
  proof -
    have ne: "owner v \<noteq> Some a" and c: "cells (vheap_of s) a = Some c"
      using that by (auto simp: cells_free_cell split: if_splits)
    obtain j w where j: "objs s j = Some w" "owner w = Some a"
      using store_ok_owned [OF ok c] by blast
    then have "j \<noteq> i" using i ne by auto
    then show ?thesis using j by auto
  qed
  moreover have "a < next_cell ?h" if "cells ?h a = Some c" for a c
    using that store_ok_next [OF ok] by (auto simp: cells_free_cell split: if_splits)
  moreover have "j = k" if "((objs s)(i := None)) j = Some w" "((objs s)(i := None)) k = Some u"
    "owner w = Some a" "owner u = Some a" for j k w u a
    using that store_ok_owner [OF ok] by (auto split: if_splits)
  ultimately show ?thesis unfolding store_ok_def drop_obj_simps by blast
qed

lemma contents_drop_obj:
  assumes ok: "store_ok s" and i: "objs s i = Some v"
  shows "contents (drop_obj i v s) = (contents s)(i := None)"
proof
  fix j
  show "contents (drop_obj i v s) j = ((contents s)(i := None)) j"
  proof (cases "j = i \<or> objs s j = None")
    case True
    then show ?thesis by (auto simp: contents_def)
  next
    case False
    then obtain w where j: "objs s j = Some w" and ne: "i \<noteq> j" by auto
    obtain x where x: "value_of (vheap_of s) w = Inr x" using store_ok_value [OF ok j] by blast
    then show ?thesis using j ne drop_value [OF ok i j ne x] by (simp add: contents_def)
  qed
qed

lemma fresh_keeps_value:
  assumes ok: "store_ok s" and f: "fresh_value (vheap_of s) x v h'"
    and j: "value_of (vheap_of s) w = Inr y"
  shows "value_of h' w = Inr y \<and> owner w \<noteq> Some (next_cell (vheap_of s))"
proof -
  have ne: "owner w \<noteq> Some (next_cell (vheap_of s))"
    using owner_cell [OF j] next_cell_free [OF ok] by fastforce
  have "value_of h' w = Inr y"
    using j
  proof (rule value_of_frame)
    fix a assume "owner w = Some a"
    then show "cells h' a = cells (vheap_of s) a"
      using f ne by (auto simp: fresh_value_def heap_new_def)
  qed
  then show ?thesis using ne by simp
qed

lemma put_obj_ok:
  assumes ok: "store_ok s" and i: "objs s i = None" and f: "fresh_value (vheap_of s) x v h'"
  shows "store_ok (put_obj i v h' s)"
proof -
  have v: "value_of h' v = Inr x" using f by (simp add: fresh_value_def)
  have old: "value_of h' w = Inr y \<and> owner w \<noteq> Some (next_cell (vheap_of s))"
    if "value_of (vheap_of s) w = Inr y" for w y
    by (rule fresh_keeps_value [OF ok f that])
  have "\<exists>y. value_of h' w = Inr y" if "((objs s)(i \<mapsto> v)) j = Some w" for j w
  proof (cases "j = i")
    case True
    then show ?thesis using that v by auto
  next
    case False
    then have "objs s j = Some w" using that by simp
    then show ?thesis using store_ok_value [OF ok] old by blast
  qed
  moreover have "j = k" if "((objs s)(i \<mapsto> v)) j = Some w" "((objs s)(i \<mapsto> v)) k = Some u"
    "owner w = Some a" "owner u = Some a" for j k w u a
  proof -
    have new: "a = next_cell (vheap_of s)" if "owner v = Some a" for a
      using that f by (auto simp: fresh_value_def)
    have ne: "owner w' \<noteq> Some (next_cell (vheap_of s))" if "objs s j' = Some w'" for j' w'
      using store_ok_value [OF ok that] old by blast
    show ?thesis
      using that new ne store_ok_owner [OF ok, of j w k u a] by (auto split: if_splits)
  qed
  moreover have "a < next_cell h'" if "cells h' a = Some c" for a c
    using that f store_ok_next [OF ok, of a]
    by (auto simp: fresh_value_def heap_new_def less_Suc_eq split: if_splits)
  moreover have "\<exists>j w. ((objs s)(i \<mapsto> v)) j = Some w \<and> owner w = Some a"
    if "cells h' a = Some c" for a c
  proof (cases "cells (vheap_of s) a")
    case None
    then have "owner v = Some a" using that f
      by (auto simp: fresh_value_def heap_new_def split: if_splits)
    then show ?thesis by (intro exI [of _ i] exI [of _ v]) simp
  next
    case (Some c')
    then obtain j w where "objs s j = Some w" "owner w = Some a"
      using store_ok_owned [OF ok] by blast
    moreover have "j \<noteq> i" using i calculation by auto
    ultimately show ?thesis by (intro exI [of _ j] exI [of _ w]) simp
  qed
  ultimately show ?thesis unfolding store_ok_def put_obj_simps by blast
qed

lemma contents_put_obj:
  assumes ok: "store_ok s" and f: "fresh_value (vheap_of s) x v h'"
  shows "contents (put_obj i v h' s) = (contents s)(i \<mapsto> x)"
proof
  fix j
  show "contents (put_obj i v h' s) j = ((contents s)(i \<mapsto> x)) j"
  proof (cases "j = i")
    case True
    then show ?thesis using f by (simp add: contents_def fresh_value_def)
  next
    case ne: False
    show ?thesis
    proof (cases "objs s j")
      case None
      then show ?thesis using ne by (simp add: contents_def)
    next
      case (Some w)
      then obtain y where "value_of (vheap_of s) w = Inr y" using store_ok_value [OF ok] by blast
      then show ?thesis using fresh_keeps_value [OF ok f] Some ne by (simp add: contents_def)
    qed
  qed
qed

lemma move_obj_ok:
  assumes ok: "store_ok s" and i: "objs s i = None" and j: "objs s j = Some w"
    and v: "value_of (vheap_of s) v = Inr x" "owner v = owner w"
    and w': "m_type w' = VAR_TYPE_INVALID"
  shows "store_ok (put_obj i v (vheap_of s) (put_obj j w' (vheap_of s) s))"
proof -
  let ?o = "(objs s)(j \<mapsto> w', i \<mapsto> v)"
  have ij: "i \<noteq> j" using i j by auto
  have inv: "value_of (vheap_of s) w' = Inr V_invalid" "owner w' = None"
    using invalid_variant [OF w'] by auto
  have "\<exists>y. value_of (vheap_of s) u = Inr y" if "?o k = Some u" for k u
    using that v inv store_ok_value [OF ok] by (auto split: if_splits)
  moreover have "k = l" if "?o k = Some t" "?o l = Some u" "owner t = Some a" "owner u = Some a"
    for k l t u a
  proof -
    have other: "k' = j" if "objs s k' = Some t'" "owner t' = Some a" "owner v = Some a" for k' t'
      using store_ok_owner [OF ok that(1) j that(2)] that(3) v(2) by simp
    have nj: "k' \<noteq> j" if "?o k' = Some t'" "owner t' = Some a" for k' t'
      using that ij inv by auto
    have old: "k' = i \<and> t' = v \<or> k' \<noteq> i \<and> objs s k' = Some t'"
      if "?o k' = Some t'" "owner t' = Some a" for k' t'
      using that nj [OF that] by (cases "k' = i") simp_all
    show ?thesis
      using old [OF that(1,3)] old [OF that(2,4)] nj [OF that(1,3)] nj [OF that(2,4)]
        other store_ok_owner [OF ok _ _ that(3,4)] that by blast
  qed
  moreover have "\<exists>k u. ?o k = Some u \<and> owner u = Some a"
    if c: "cells (vheap_of s) a = Some c" for a c
  proof -
    obtain k u where k: "objs s k = Some u" "owner u = Some a"
      using store_ok_owned [OF ok c] by blast
    show ?thesis
    proof (cases "k = j")
      case True
      then have "owner v = Some a" using k j v by simp
      then show ?thesis by (intro exI [of _ i] exI [of _ v]) simp
    next
      case False
      then have "?o k = Some u" using k i by auto
      then show ?thesis using k by blast
    qed
  qed
  moreover have "a < next_cell (vheap_of s)" if "cells (vheap_of s) a = Some c" for a c
    by (rule store_ok_next [OF ok that])
  ultimately show ?thesis unfolding store_ok_def put_obj_simps by blast
qed

lemma contents_move_obj:
  assumes "value_of (vheap_of s) v = Inr x" and "m_type w' = VAR_TYPE_INVALID" and "i \<noteq> j"
  shows "contents (put_obj i v (vheap_of s) (put_obj j w' (vheap_of s) s)) =
    (contents s)(i \<mapsto> x, j \<mapsto> V_invalid)"
proof
  fix k
  show "contents (put_obj i v (vheap_of s) (put_obj j w' (vheap_of s) s)) k =
    ((contents s)(i \<mapsto> x, j \<mapsto> V_invalid)) k"
    using assms invalid_variant [OF assms(2), of "vheap_of s"]
    by (cases "objs s k") (simp_all add: contents_def)
qed

lemma grow_next_ok:
  assumes ok: "store_ok s" and h: "cells h = cells (vheap_of s)"
    "next_cell (vheap_of s) \<le> next_cell h"
  shows "store_ok (s\<lparr>vheap_of := h\<rparr>) \<and> contents (s\<lparr>vheap_of := h\<rparr>) = contents s"
proof -
  have val: "value_of h v = value_of (vheap_of s) v" for v
  proof -
    have "deref_str p h = deref_str p (vheap_of s)" for p using h(1) by (cases p) (simp_all add: deref_str_def)
    moreover have "deref_arr p h = deref_arr p (vheap_of s)" for p
      using h(1) by (cases p) (simp_all add: deref_arr_def)
    ultimately show ?thesis
      by (cases "m_type v"; cases "m_data v")
        (simp_all add: value_of_def getStringData_def getByteArrayData_def)
  qed
  have "store_ok (s\<lparr>vheap_of := h\<rparr>)"
    using ok h(2) unfolding store_ok_def by (simp add: val h(1)) (meson less_le_trans)
  moreover have "contents (s\<lparr>vheap_of := h\<rparr>) i = contents s i" for i
    by (cases "objs s i") (simp_all add: contents_def val)
  ultimately show ?thesis by (simp add: fun_eq_iff)
qed

subsection \<open>Every special member refines its operation on values\<close>

definition refines :: "vstore \<Rightarrow> vop \<Rightarrow> bool" where
  "refines s p \<longleftrightarrow> (\<exists>s'. vop_step p s = Inr s' \<and> store_ok s' \<and>
     contents s' = value_step p (contents s))"

lemma objs_live:
  assumes "store_ok s" and "i \<in> dom (contents s)"
  obtains v x where "objs s i = Some v" "value_of (vheap_of s) v = Inr x" "contents s i = Some x"
proof -
  obtain v where v: "objs s i = Some v" using assms dom_contents by fastforce
  obtain x where x: "value_of (vheap_of s) v = Inr x" using store_ok_value [OF assms(1) v] by blast
  show ?thesis by (rule that [OF v x contents_Some [OF assms(1) v x]])
qed

lemma objs_dead: "store_ok s \<Longrightarrow> i \<notin> dom (contents s) \<Longrightarrow> objs s i = None"
  by (auto simp: dom_contents)

lemma construct_refines:
  assumes ok: "store_ok s" and i: "i \<notin> dom (contents s)"
  shows "refines s (Construct i x)"
proof -
  obtain v h where n: "cvariant_new x (vheap_of s) = (v, h)" by force
  note f = cvariant_new_fresh [OF n]
  show ?thesis
    using put_obj_ok [OF ok objs_dead [OF ok i] f] contents_put_obj [OF ok f]
    by (simp add: refines_def construct_def n)
qed

lemma destroy_refines:
  assumes ok: "store_ok s" and i: "i \<in> dom (contents s)"
  shows "refines s (Destroy i)"
proof -
  obtain v x where v: "objs s i = Some v" "value_of (vheap_of s) v = Inr x"
    by (rule objs_live [OF ok i])
  obtain v' where "resetCheck v (vheap_of s) = Inr (v', free_cell (owner v) (vheap_of s))"
    using resetCheck_frees [OF v(2)] by blast
  then have "destroy i s = Inr (drop_obj i v s)"
    using v by (simp add: destroy_def with_obj_def cvariant_destroy_def drop_obj_def)
  then show ?thesis
    using drop_obj_ok [OF ok v(1)] contents_drop_obj [OF ok v(1)] by (simp add: refines_def)
qed

lemma set_data_refines:
  assumes ok: "store_ok s" and i: "i \<in> dom (contents s)"
  shows "refines s (SetData i x)"
proof -
  obtain v y where v: "objs s i = Some v" "value_of (vheap_of s) v = Inr y"
    by (rule objs_live [OF ok i])
  obtain v' where r: "resetCheck v (vheap_of s) = Inr (v', free_cell (owner v) (vheap_of s))"
    using resetCheck_frees [OF v(2)] by blast
  let ?d = "drop_obj i v s"
  obtain w h where n: "cvariant_new x (vheap_of ?d) = (w, h)" by force
  note f = cvariant_new_fresh [OF n]
  note d = drop_obj_ok [OF ok v(1)]
  have "set_data i x s = Inr (put_obj i w h s)"
    using v r n by (simp add: set_data_def with_obj_def)
  then show ?thesis
    using put_obj_ok [OF d _ f, of i] contents_put_obj [OF d f, of i]
      contents_drop_obj [OF ok v(1)]
    by (simp add: refines_def)
qed

lemma copy_assign_refines:
  assumes ok: "store_ok s" and i: "i \<in> dom (contents s)" and j: "j \<in> dom (contents s)"
  shows "refines s (CopyAssign i j)"
proof -
  obtain v y where v: "objs s i = Some v" "value_of (vheap_of s) v = Inr y"
    by (rule objs_live [OF ok i])
  obtain w x where w: "objs s j = Some w" "value_of (vheap_of s) w = Inr x" "contents s j = Some x"
    by (rule objs_live [OF ok j])
  show ?thesis
  proof (cases "i = j")
    case True
    then show ?thesis using ok w by (auto simp: refines_def copy_assign_def with_obj_def)
  next
    case False
    obtain v' where r: "resetCheck v (vheap_of s) = Inr (v', free_cell (owner v) (vheap_of s))"
      using resetCheck_frees [OF v(2)] by blast
    let ?d = "drop_obj i v s"
    note d = drop_obj_ok [OF ok v(1)]
    obtain u h where u: "copy_from w (vheap_of ?d) = Inr (u, h)"
      and f: "fresh_value (vheap_of ?d) x u h"
      using copy_from_fresh drop_value [OF ok v(1) w(1) False w(2)] by fastforce
    have "copy_assign i j s = Inr (put_obj i u h s)"
      using v w r u False by (simp add: copy_assign_def with_obj_def)
    then show ?thesis
      using put_obj_ok [OF d _ f, of i] contents_put_obj [OF d f, of i]
        contents_drop_obj [OF ok v(1)] w(3)
      by (simp add: refines_def)
  qed
qed

lemma copy_construct_refines:
  assumes ok: "store_ok s" and i: "i \<notin> dom (contents s)" and j: "j \<in> dom (contents s)"
  shows "refines s (CopyConstruct i j)"
proof -
  let ?v = "\<lparr>m_type = VAR_TYPE_INVALID, m_data = U_i64 0\<rparr>"
  let ?s = "put_obj i ?v (vheap_of s) s"
  have f: "fresh_value (vheap_of s) V_invalid ?v (vheap_of s)"
    by (rule cvariant_new_fresh) simp
  note ok' = put_obj_ok [OF ok objs_dead [OF ok i] f]
  note c = contents_put_obj [OF ok f, of i]
  have ij: "j \<noteq> i" using i j by auto
  have "i \<in> dom (contents ?s)" "j \<in> dom (contents ?s)" using c j ij by auto
  then have "refines ?s (CopyAssign i j)" by (rule copy_assign_refines [OF ok'])
  then show ?thesis using c ij by (simp add: refines_def copy_construct_def)
qed

lemma move_construct_refines:
  assumes ok: "store_ok s" and i: "i \<notin> dom (contents s)" and j: "j \<in> dom (contents s)"
  shows "refines s (MoveConstruct i j)"
proof -
  obtain w x where w: "objs s j = Some w" "value_of (vheap_of s) w = Inr x" "contents s j = Some x"
    by (rule objs_live [OF ok j])
  obtain v w' where m: "move_from w = Inr (v, w')" "value_of (vheap_of s) v = Inr x"
    "owner v = owner w" "m_type w' = VAR_TYPE_INVALID"
    using move_from_owner [OF w(2)] by blast
  have ij: "i \<noteq> j" using i j by auto
  show ?thesis
    using w m ij move_obj_ok [OF ok objs_dead [OF ok i] w(1) m(2,3,4)]
      contents_move_obj [OF m(2,4) ij]
    by (simp add: refines_def move_construct_def with_obj_def)
qed

lemma return_by_value_harmless:
  assumes ok: "store_ok s" and v: "value_of (vheap_of s) v = Inr x"
  shows "\<exists>h. and_then (copy_from v (vheap_of s)) (\<lambda>(tmp, h).
           and_then (cvariant_destroy tmp h) (\<lambda>h. Inr (s\<lparr>vheap_of := h\<rparr>))) = Inr (s\<lparr>vheap_of := h\<rparr>) \<and>
         store_ok (s\<lparr>vheap_of := h\<rparr>) \<and> contents (s\<lparr>vheap_of := h\<rparr>) = contents s"
proof -
  obtain u h where u: "copy_from v (vheap_of s) = Inr (u, h)" "fresh_value (vheap_of s) x u h"
    using copy_from_fresh [OF v] by blast
  obtain h' where h': "cvariant_destroy u h = Inr h'" "cells h' = cells (vheap_of s)"
    "next_cell (vheap_of s) \<le> next_cell h'"
    using destroy_fresh [OF u(2) next_cell_free [OF ok]] by blast
  show ?thesis using u h' grow_next_ok [OF ok h'(2,3)] by auto
qed

lemma move_assign_refines:
  assumes ok: "store_ok s" and i: "i \<in> dom (contents s)" and j: "j \<in> dom (contents s)"
  shows "refines s (MoveAssign i j)"
proof -
  obtain v y where v: "objs s i = Some v" "value_of (vheap_of s) v = Inr y"
    by (rule objs_live [OF ok i])
  obtain w x where w: "objs s j = Some w" "value_of (vheap_of s) w = Inr x" "contents s j = Some x"
    by (rule objs_live [OF ok j])
  show ?thesis
  proof (cases "i = j")
    case True
    then show ?thesis
      using v w return_by_value_harmless [OF ok v(2)]
      by (auto simp: refines_def move_assign_def with_obj_def)
  next
    case ij: False
    let ?d = "drop_obj i v s"
    note d = drop_obj_ok [OF ok v(1)]
    obtain v' where r: "resetCheck v (vheap_of s) = Inr (v', vheap_of ?d)"
      using resetCheck_frees [OF v(2)] by auto
    have wd: "value_of (vheap_of ?d) w = Inr x"
      using drop_value [OF ok v(1) w(1) ij w(2)] by simp
    obtain u w' where m: "move_from w = Inr (u, w')" "value_of (vheap_of ?d) u = Inr x"
      "owner u = owner w" "m_type w' = VAR_TYPE_INVALID"
      using move_from_owner [OF wd] by blast
    let ?t = "put_obj i u (vheap_of ?d) (put_obj j w' (vheap_of ?d) ?d)"
    have t: "?t = put_obj i u (vheap_of ?d) (put_obj j w' (vheap_of ?d) s)"
      using ij by (simp add: put_obj_def drop_obj_def fun_upd_twist)
    have ok': "store_ok ?t"
      using w ij by (intro move_obj_ok [OF d _ _ m(2,3,4)]) auto
    have c: "contents ?t = (contents s)(i \<mapsto> x, j \<mapsto> V_invalid)"
      using contents_move_obj [OF m(2,4) ij] contents_drop_obj [OF ok v(1)] by simp
    have vt: "value_of (vheap_of ?t) u = Inr x" using m(2) by simp
    show ?thesis
      using v w r m ij c return_by_value_harmless [OF ok' vt] unfolding t
      by (auto simp: refines_def move_assign_def with_obj_def)
  qed
qed

lemma vop_refines:
  assumes "store_ok s" and "vop_legal p (dom (contents s))"
  shows "refines s p"
  using assms
  by (cases p) (simp_all add: construct_refines destroy_refines set_data_refines
      copy_assign_refines copy_construct_refines move_construct_refines move_assign_refines)

lemma vop_run_refines:
  assumes "store_ok s" and "vops_legal ps (contents s)"
  shows "\<exists>s'. vop_run ps s = Inr s' \<and> store_ok s' \<and> contents s' = value_run ps (contents s)"
  using assms
proof (induction ps arbitrary: s)
  case Nil
  then show ?case by (simp add: value_run_def)
next
  case (Cons p ps)
  have "vop_legal p (dom (contents s))" using Cons.prems by simp
  then obtain s1 where s1: "vop_step p s = Inr s1" "store_ok s1"
    "contents s1 = value_step p (contents s)"
    using vop_refines [OF Cons.prems(1)] unfolding refines_def by blast
  then show ?case using Cons.IH [OF s1(2)] Cons.prems(2) by (simp add: value_run_def)
qed

lemma no_vars_ok: "store_ok no_vars" "contents no_vars = Map.empty"
  by (simp_all add: store_ok_def no_vars_def contents_def fun_eq_iff)

subsection \<open>The named bundle\<close>

text \<open>
  Every \<open>CVariant\<close> a bundle holds is a clone (\<open>addVar\<close> takes its argument by value and
  \<open>make_pair\<close> copies it), so the values above stand for the objects. The \<open>unordered_map\<close> is
  an association list whose order stands for the unspecified iteration order; \<open>None\<close> is the
  null \<open>unique_ptr\<close> a move leaves behind. A moved-from name is empty, as libstdc++ leaves it.
\<close>

record cvardatas =
  m_pMapVars :: "(string \<times> value) list option"
  m_strName :: string
  m_ulType :: u32

definition CVarDatas :: cvardatas where
  "CVarDatas = \<lparr>m_pMapVars = Some [], m_strName = [], m_ulType = 0\<rparr>"

definition vars_of :: "cvardatas \<Rightarrow> ((string \<times> value) list \<Rightarrow> 'a result) \<Rightarrow> 'a result" where
  "vars_of d k = and_then (of_option Undefined (m_pMapVars d)) k"

definition CVarDatas_copy :: "cvardatas \<Rightarrow> cvardatas result" where
  "CVarDatas_copy rhs = vars_of rhs (\<lambda>m.
     Inr \<lparr>m_pMapVars = Some m, m_strName = m_strName rhs, m_ulType = m_ulType rhs\<rparr>)"

definition moved_from :: "cvardatas \<Rightarrow> cvardatas" where
  "moved_from d = d\<lparr>m_pMapVars := None, m_strName := [], m_ulType := 0\<rparr>"

text \<open>The new object and what is left of the source.\<close>

definition CVarDatas_move :: "cvardatas \<Rightarrow> cvardatas \<times> cvardatas" where
  "CVarDatas_move rhs =
     (\<lparr>m_pMapVars = m_pMapVars rhs, m_strName = m_strName rhs, m_ulType = m_ulType rhs\<rparr>,
      moved_from rhs)"

text \<open>Assignment between distinct objects; a self-assignment is a no-op of the copy form.\<close>

definition CVarDatas_assign :: "cvardatas \<Rightarrow> cvardatas \<Rightarrow> cvardatas result" where
  "CVarDatas_assign d rhs = vars_of d (\<lambda>_. vars_of rhs (\<lambda>m.
     Inr (d\<lparr>m_pMapVars := Some m, m_strName := m_strName rhs, m_ulType := m_ulType rhs\<rparr>)))"

definition CVarDatas_move_assign :: "cvardatas \<Rightarrow> cvardatas \<Rightarrow> cvardatas \<times> cvardatas" where
  "CVarDatas_move_assign d rhs =
     (d\<lparr>m_pMapVars := m_pMapVars rhs, m_strName := m_strName rhs, m_ulType := m_ulType rhs\<rparr>,
      moved_from rhs)"

definition isContain :: "string \<Rightarrow> cvardatas \<Rightarrow> bool result" where
  "isContain k d = vars_of d (\<lambda>m. Inr (map_of m k \<noteq> None))"

definition getAllKey :: "cvardatas \<Rightarrow> string list result" where
  "getAllKey d = vars_of d (\<lambda>m. Inr (map fst m))"

text \<open>\<open>insert\<close> leaves an existing key as it is.\<close>

definition addVar :: "string \<Rightarrow> value \<Rightarrow> cvardatas \<Rightarrow> cvardatas result" where
  "addVar k x d = vars_of d (\<lambda>m.
     Inr (if map_of m k = None then d\<lparr>m_pMapVars := Some ((k, x) # m)\<rparr> else d))"

definition getVar :: "string \<Rightarrow> cvardatas \<Rightarrow> value result" where
  "getVar k d = vars_of d (\<lambda>m.
     of_option (Throws (Std_invalid_argument (''invalid key '' @ k))) (map_of m k))"

definition setName :: "string \<Rightarrow> cvardatas \<Rightarrow> cvardatas" where
  "setName n d = d\<lparr>m_strName := n\<rparr>"

definition getName :: "cvardatas \<Rightarrow> string" where
  "getName d = m_strName d"

definition setType :: "u32 \<Rightarrow> cvardatas \<Rightarrow> cvardatas" where
  "setType t d = d\<lparr>m_ulType := t\<rparr>"

definition getType :: "cvardatas \<Rightarrow> u32" where
  "getType d = m_ulType d"

fun addVars :: "(string \<times> value) list \<Rightarrow> cvardatas \<Rightarrow> cvardatas result" where
  "addVars [] d = Inr d"
| "addVars ((k, x) # xs) d = and_then (addVar k x d) (addVars xs)"

lemma addVars_map:
  assumes "m_pMapVars d = Some m" and "distinct (map fst m)"
  shows "\<exists>m'. addVars xs d = Inr (d\<lparr>m_pMapVars := Some m'\<rparr>) \<and> map_of m' = map_of xs ++ map_of m \<and>
    distinct (map fst m')"
  using assms
proof (induction xs arbitrary: d m)
  case Nil
  then show ?case by (intro exI [of _ m]) simp
next
  case (Cons kx xs)
  obtain k x where kx: "kx = (k, x)" by force
  show ?case
  proof (cases "map_of m k")
    case None
    let ?d = "d\<lparr>m_pMapVars := Some ((k, x) # m)\<rparr>"
    have "distinct (map fst ((k, x) # m))"
      using None Cons.prems(2) by (simp add: map_of_eq_None_iff)
    then obtain m' where m': "addVars xs ?d = Inr (?d\<lparr>m_pMapVars := Some m'\<rparr>)"
      "map_of m' = map_of xs ++ map_of ((k, x) # m)" "distinct (map fst m')"
      using Cons.IH [of ?d "(k, x) # m"] unfolding cvardatas.simps by fastforce
    moreover have "map_of xs ++ map_of ((k, x) # m) = map_of (kx # xs) ++ map_of m"
      using None kx by (auto simp: map_add_def fun_eq_iff split: option.splits)
    moreover have "addVars (kx # xs) d = addVars xs ?d"
      using None Cons.prems(1) kx by (simp add: addVar_def vars_of_def)
    moreover have "d\<lparr>m_pMapVars := Some ((k, x) # m), m_pMapVars := Some m'\<rparr> =
      d\<lparr>m_pMapVars := Some m'\<rparr>" by simp
    ultimately show ?thesis by metis
  next
    case (Some y)
    obtain m' where m': "addVars xs d = Inr (d\<lparr>m_pMapVars := Some m'\<rparr>)"
      "map_of m' = map_of xs ++ map_of m" "distinct (map fst m')"
      using Cons.IH [OF Cons.prems] by blast
    moreover have "map_of xs ++ map_of m = map_of (kx # xs) ++ map_of m"
      using Some kx by (auto simp: map_add_def fun_eq_iff split: option.splits)
    moreover have "addVars (kx # xs) d = addVars xs d"
      using Some Cons.prems(1) kx by (simp add: addVar_def vars_of_def)
    ultimately show ?thesis by metis
  qed
qed

subsection \<open>What the components rely on\<close>

text \<open>
  C13: variants have value semantics. Any program of constructions, copies, moves, assignments
  (self-assignments included), setters and destructions that only names objects alive runs
  without undefined behaviour, its objects hold what the same program on plain values computes,
  and once the last object is gone every heap string and byte array has been freed. A string of
  any length is kept whole, although the comment at \<^verbatim>\<open>CVarDatas.hpp:24\<close> says that one of more than
  255 characters is truncated: nothing in the class truncates.
\<close>

theorem variants_have_value_semantics:
  assumes "vops_legal ps Map.empty"
  shows "\<exists>s. vop_run ps no_vars = Inr s \<and> contents s = value_run ps Map.empty \<and>
    (dom (value_run ps Map.empty) = {} \<longrightarrow> cells (vheap_of s) = Map.empty)"
proof -
  obtain s where s: "vop_run ps no_vars = Inr s" "store_ok s" "contents s = value_run ps Map.empty"
    using vop_run_refines [OF no_vars_ok(1), of ps] assms no_vars_ok(2) by auto
  have "cells (vheap_of s) a = None" if "dom (contents s) = {}" for a
    using that store_ok_owned [OF s(2), of a] dom_contents [OF s(2)]
    by (cases "cells (vheap_of s) a") fastforce+
  then show ?thesis using s by (auto simp: fun_eq_iff)
qed

lemma variants_have_value_semantics_witness:
  "\<exists>s. vop_run [Construct 0 (V_string [104, 105]), CopyConstruct 1 0, MoveAssign 0 0,
        MoveConstruct 2 0, SetData 1 (V_bytes [1]), CopyAssign 2 1, Destroy 0, Destroy 1, Destroy 2]
      no_vars = Inr s \<and> cells (vheap_of s) = Map.empty"
  using variants_have_value_semantics
    [of "[Construct 0 (V_string [104, 105]), CopyConstruct 1 0, MoveAssign 0 0,
      MoveConstruct 2 0, SetData 1 (V_bytes [1]), CopyAssign 2 1, Destroy 0, Destroy 1, Destroy 2]"]
  by (auto simp: value_run_def)

text \<open>
  The getters are strict. On any object alive, the getter of the stored type returns the
  stored value and every other getter throws \<open>logic_error\<close>; none reads an inactive member of
  the union or a freed cell.
\<close>

theorem getters_are_strict:
  assumes "store_ok s" and "objs s i = Some v" and "contents s i = Some x"
  shows "getBoolData v = (case x of V_bool b \<Rightarrow> Inr b | _ \<Rightarrow> type_mismatch ''variant m_type is not bool!'') \<and>
    getCharData v = (case x of V_char c \<Rightarrow> Inr c | _ \<Rightarrow> type_mismatch ''variant m_type is not char!'') \<and>
    getInt32Data v = (case x of V_int32 w \<Rightarrow> Inr w | _ \<Rightarrow> type_mismatch ''variant m_type is not int32!'') \<and>
    getUint32Data v = (case x of V_uint32 w \<Rightarrow> Inr w | _ \<Rightarrow> type_mismatch ''variant m_type is not uint32!'') \<and>
    getInt64Data v = (case x of V_int64 w \<Rightarrow> Inr w | _ \<Rightarrow> type_mismatch ''variant m_type is not int64!'') \<and>
    getUint64Data v = (case x of V_uint64 w \<Rightarrow> Inr w | _ \<Rightarrow> type_mismatch ''variant m_type is not uint64!'') \<and>
    getFloatData v = (case x of V_float w \<Rightarrow> Inr w | _ \<Rightarrow> type_mismatch ''variant m_type is not float!'') \<and>
    getDoubleData v = (case x of V_double w \<Rightarrow> Inr w | _ \<Rightarrow> type_mismatch ''variant m_type is not double!'') \<and>
    getStringData (vheap_of s) v =
      (case x of V_string b \<Rightarrow> Inr b | _ \<Rightarrow> type_mismatch ''variant m_type is not string!'') \<and>
    getByteArrayData (vheap_of s) v =
      (case x of V_bytes b \<Rightarrow> Inr b | _ \<Rightarrow> type_mismatch ''variant m_type is not array!'')"
proof -
  have "value_of (vheap_of s) v = Inr x"
    using store_ok_value [OF assms(1,2)] assms(2,3) by (auto simp: contents_def)
  then show ?thesis
    by (cases "m_type v"; cases "m_data v") (auto simp: value_of_def getter_defs and_then_eq_Inr)
qed

text \<open>
  a bundle keeps the first value added under a name. After adding any list of pairs to a new
  bundle, a lookup returns the first pair's value and throws \<open>invalid_argument\<close> for a name that
  was never added, membership agrees with it, and \<open>getAllKey\<close> lists each name once.
\<close>

theorem bundle_first_value_wins:
  "\<exists>d ks. addVars xs CVarDatas = Inr d \<and> getAllKey d = Inr ks \<and> distinct ks \<and>
     set ks = fst ` set xs \<and>
     (\<forall>k. isContain k d = Inr (k \<in> fst ` set xs) \<and>
        getVar k d = (case map_of xs k of
            Some x \<Rightarrow> Inr x | None \<Rightarrow> Inl (Throws (Std_invalid_argument (''invalid key '' @ k)))))"
proof -
  obtain m where m: "addVars xs CVarDatas = Inr (CVarDatas\<lparr>m_pMapVars := Some m\<rparr>)"
    "map_of m = map_of xs" "distinct (map fst m)"
    using addVars_map [of CVarDatas "[]" xs] by (auto simp: CVarDatas_def)
  have "fst ` set m = fst ` set xs"
    using m(2) by (metis dom_map_of_conv_image_fst)
  moreover have "map_of xs k \<noteq> None \<longleftrightarrow> k \<in> fst ` set xs" for k
    by (simp add: map_of_eq_None_iff)
  moreover have "of_option e (map_of xs k) = (case map_of xs k of Some x \<Rightarrow> Inr x | None \<Rightarrow> Inl e)"
    for e k by (simp add: of_option_def split: option.split)
  ultimately show ?thesis
    using m by (simp add: getAllKey_def isContain_def getVar_def vars_of_def split: option.split)
qed

text \<open>
  a moved-from bundle is not a bundle. Its map is a null pointer, so every access, an
  \<open>addVar\<close>, a copy of it and even a copy assignment \<^emph>\<open>to\<close> it are undefined; only a move
  assignment gives it a map again.
\<close>

theorem moved_from_bundle_unusable:
  "let src = snd (CVarDatas_move d)
   in isContain k src = Inl Undefined \<and> getAllKey src = Inl Undefined \<and>
      getVar k src = Inl Undefined \<and> addVar k x src = Inl Undefined \<and>
      CVarDatas_copy src = Inl Undefined \<and> CVarDatas_assign src e = Inl Undefined \<and>
      fst (CVarDatas_move d) = d \<and> fst (CVarDatas_move_assign src e) = e"
  by (simp add: CVarDatas_move_def CVarDatas_move_assign_def moved_from_def isContain_def
      getAllKey_def getVar_def addVar_def CVarDatas_copy_def CVarDatas_assign_def vars_of_def)

subsection \<open>Numeric casts\<close>

text \<open>
  \<open>CastToNum\<close> to an integer type wraps silently but never rounds up. An \<open>int32\<close> read at any
  wider type keeps its signed value and a \<open>uint32\<close> its unsigned one, a \<open>uint64\<close> above the
  maximum of \<open>int64\<close> reads negative, a double is truncated towards zero, and a double outside
  the target's range is undefined.
\<close>

theorem cast_to_num_conversions:
  assumes "32 \<le> LENGTH('b::len)"
  shows "(\<exists>r :: 'b word. CastToNum True \<lparr>m_type = VAR_TYPE_INT32, m_data = U_i32 w\<rparr> = Inr r \<and>
      sint r = sint w) \<and>
    (\<exists>r :: 'b word. CastToNum False \<lparr>m_type = VAR_TYPE_UINT32, m_data = U_u32 w\<rparr> = Inr r \<and>
      unat r = unat w) \<and>
    CastToNum True \<lparr>m_type = VAR_TYPE_UINT64, m_data = U_u64 (2 ^ 63)\<rparr> =
      (Inr (word_of_int (- (2 ^ 63))) :: u64 result) \<and>
    CastToNum True \<lparr>m_type = VAR_TYPE_DOUBLE, m_data = U_double 0xBFFC000000000000\<rparr> =
      (Inr (- 1) :: u32 result) \<and>
    (CastToNum True \<lparr>m_type = VAR_TYPE_DOUBLE, m_data = U_double 0x41E0000000000000\<rparr> :: u32 result) =
      Inl Undefined"
proof -
  have "sint (scast w :: 'b word) = sint w"
    by (rule sint_up_scast) (use assms in \<open>simp add: is_up\<close>)
  moreover have "unat (ucast v :: 'b word) = unat v" for v :: u32
  proof -
    have "unat v < 2 ^ 32" using unsigned_less [of v] by simp
    also have "(2 :: nat) ^ 32 \<le> 2 ^ LENGTH('b)" using assms by (intro power_increasing) simp_all
    finally show ?thesis by (simp add: unsigned_ucast_eq take_bit_nat_eq_self)
  qed
  ultimately show ?thesis
    by (simp add: CastToNum_def real_to_int_def ieee_trunc_def int_in_range_def Let_def)
qed

lemma cast_to_num_conversions_witness:
  "\<exists>r :: u64. CastToNum True \<lparr>m_type = VAR_TYPE_INT32, m_data = U_i32 (- 1)\<rparr> = Inr r \<and>
      sint r = - 1"
  using cast_to_num_conversions [where 'b = 64, of "- 1"] by simp

end
