(* ===== verification/Json.thy ===== *)
theory Json
  imports Prelude
begin

text \<open>
  The JSON value, its two printers and its parser (src/code/common/include/util/json.hpp).
  A \<open>Value\<close> is a tree with deep copies; here it is the tree itself, and \<open>JsonPrograms\<close> shows that
  the pointers behind it keep to that. Floating-point arithmetic is
  the C library's (\<open>stod\<close>, \<open>pow\<close>, \<open>to_string(double)\<close>), whose rounding the program does not
  decide, so the type of doubles and these operations are a parameter. The parser works on
  \<open>str[offset]\<close> with the offset passed by reference; every exception carries the offset it was
  thrown at, which \<open>load\<close> reports.
\<close>

subsection \<open>Values\<close>

datatype emJsonType = Null | Object | Array | String | Floating | Integral | Boolean

datatype 'f json =
    JNull
  | JObject "(string \<times> 'f json) list"
  | JArray "'f json list"
  | JString string
  | JFloating 'f
  | JIntegral u64
  | JBoolean bool

record 'f float_lib =
  fl_stod :: "string \<Rightarrow> exn + 'f"
  fl_of_long :: "u64 \<Rightarrow> 'f"
  fl_pow10 :: "u64 \<Rightarrow> 'f"
  fl_mul :: "'f \<Rightarrow> 'f \<Rightarrow> 'f"
  fl_to_string :: "'f \<Rightarrow> string"
  fl_zero :: 'f

fun JSONType :: "'f json \<Rightarrow> emJsonType" where
  "JSONType JNull = Null"
| "JSONType (JObject _) = Object"
| "JSONType (JArray _) = Array"
| "JSONType (JString _) = String"
| "JSONType (JFloating _) = Floating"
| "JSONType (JIntegral _) = Integral"
| "JSONType (JBoolean _) = Boolean"

text \<open>\<open>SetType\<close> keeps a value of the type asked for and otherwise replaces it by an empty one.\<close>

fun empty_of :: "'f float_lib \<Rightarrow> emJsonType \<Rightarrow> 'f json" where
  "empty_of fl Null = JNull"
| "empty_of fl Object = JObject []"
| "empty_of fl Array = JArray []"
| "empty_of fl String = JString []"
| "empty_of fl Floating = JFloating (fl_zero fl)"
| "empty_of fl Integral = JIntegral 0"
| "empty_of fl Boolean = JBoolean False"

definition SetType :: "'f float_lib \<Rightarrow> emJsonType \<Rightarrow> 'f json \<Rightarrow> 'f json" where
  "SetType fl t v = (if t = JSONType v then v else empty_of fl t)"

definition Make :: "'f float_lib \<Rightarrow> emJsonType \<Rightarrow> 'f json" where
  "Make fl t = SetType fl t JNull"

text \<open>A \<open>std::map\<close> keeps its keys in the order of \<open>char_traits\<close>, which compares unsigned bytes.\<close>

fun key_less :: "string \<Rightarrow> string \<Rightarrow> bool" where
  "key_less _ [] = False"
| "key_less [] (_ # _) = True"
| "key_less (a # as) (b # bs) =
     (let x = of_char a :: nat; y = of_char b in x < y \<or> x = y \<and> key_less as bs)"

fun map_insert :: "string \<Rightarrow> 'a \<Rightarrow> (string \<times> 'a) list \<Rightarrow> (string \<times> 'a) list" where
  "map_insert k x [] = [(k, x)]"
| "map_insert k x ((k', y) # m) =
     (if k = k' then (k, x) # m
      else if key_less k k' then (k, x) # (k', y) # m
      else (k', y) # map_insert k x m)"

text \<open>
  The move members, between distinct objects, leave \<open>Null\<close> behind; \<open>clear\<close> does so in place;
  an assignment of a scalar sets the type first and then stores into the new payload.
\<close>

definition json_move :: "'f json \<Rightarrow> 'f json \<times> 'f json" where
  "json_move other = (other, JNull)"

definition json_move_assign :: "'f json \<Rightarrow> 'f json \<Rightarrow> 'f json \<times> 'f json" where
  "json_move_assign v other = (other, JNull)"

definition json_clear :: "'f json \<Rightarrow> 'f json" where
  "json_clear v = JNull"

definition assign_bool :: "'f float_lib \<Rightarrow> bool \<Rightarrow> 'f json \<Rightarrow> 'f json" where
  "assign_bool fl b v = (case SetType fl Boolean v of JBoolean _ \<Rightarrow> JBoolean b | w \<Rightarrow> w)"

definition assign_int :: "'f float_lib \<Rightarrow> u64 \<Rightarrow> 'f json \<Rightarrow> 'f json" where
  "assign_int fl i v = (case SetType fl Integral v of JIntegral _ \<Rightarrow> JIntegral i | w \<Rightarrow> w)"

definition assign_float :: "'f float_lib \<Rightarrow> 'f \<Rightarrow> 'f json \<Rightarrow> 'f json" where
  "assign_float fl x v = (case SetType fl Floating v of JFloating _ \<Rightarrow> JFloating x | w \<Rightarrow> w)"

definition assign_string :: "'f float_lib \<Rightarrow> string \<Rightarrow> 'f json \<Rightarrow> 'f json" where
  "assign_string fl s v = (case SetType fl String v of JString _ \<Rightarrow> JString s | w \<Rightarrow> w)"

text \<open>
  \<open>operator[]\<close> and the non-const \<open>at\<close> return a reference; reading through it and writing
  through it are two operations here. Both first turn the value into an object or an array.
\<close>

definition get_key :: "'f float_lib \<Rightarrow> string \<Rightarrow> 'f json \<Rightarrow> 'f json \<times> 'f json" where
  "get_key fl k v = (case SetType fl Object v of
       JObject m \<Rightarrow> (case map_of m k of
           Some x \<Rightarrow> (x, JObject m)
         | None \<Rightarrow> (JNull, JObject (map_insert k JNull m)))
     | w \<Rightarrow> (JNull, w))"

definition set_key :: "'f float_lib \<Rightarrow> string \<Rightarrow> 'f json \<Rightarrow> 'f json \<Rightarrow> 'f json" where
  "set_key fl k x v = (case SetType fl Object v of
       JObject m \<Rightarrow> JObject (map_insert k x m)
     | w \<Rightarrow> w)"

text \<open>The growth test and \<open>index + 1\<close> are in 32-bit unsigned arithmetic.\<close>

definition grow :: "u32 \<Rightarrow> 'f json list \<Rightarrow> 'f json list" where
  "grow i xs = (if length xs \<le> unat i
     then take (unat (i + 1)) xs @ replicate (unat (i + 1) - length xs) JNull else xs)"

definition get_index :: "'f float_lib \<Rightarrow> u32 \<Rightarrow> 'f json \<Rightarrow> ('f json \<times> 'f json) result" where
  "get_index fl i v = (case SetType fl Array v of
       JArray xs \<Rightarrow> (let ys = grow i xs in
         if unat i < length ys then Inr (ys ! unat i, JArray ys) else Inl Undefined)
     | _ \<Rightarrow> Inl Undefined)"

definition set_index :: "'f float_lib \<Rightarrow> u32 \<Rightarrow> 'f json \<Rightarrow> 'f json \<Rightarrow> 'f json result" where
  "set_index fl i x v = (case SetType fl Array v of
       JArray xs \<Rightarrow> (let ys = grow i xs in
         if unat i < length ys then Inr (JArray (ys[unat i := x])) else Inl Undefined)
     | _ \<Rightarrow> Inl Undefined)"

text \<open>The const \<open>at\<close> does not look at the type: on another value it follows a wild pointer.\<close>

definition at_key :: "string \<Rightarrow> 'f json \<Rightarrow> 'f json result" where
  "at_key k v = (case v of
       JObject m \<Rightarrow> of_option (Throws (Std_out_of_range ''map::at'')) (map_of m k)
     | _ \<Rightarrow> Inl Undefined)"

definition at_index :: "u32 \<Rightarrow> 'f json \<Rightarrow> 'f json result" where
  "at_index i v = (case v of
       JArray xs \<Rightarrow> if unat i < length xs then Inr (xs ! unat i)
                    else Inl (Throws (Std_out_of_range ''deque::_M_range_check''))
     | _ \<Rightarrow> Inl Undefined)"

definition append1 :: "'f float_lib \<Rightarrow> 'f json \<Rightarrow> 'f json \<Rightarrow> 'f json" where
  "append1 fl x v = (case SetType fl Array v of JArray xs \<Rightarrow> JArray (xs @ [x]) | w \<Rightarrow> w)"

fun appends :: "'f float_lib \<Rightarrow> 'f json list \<Rightarrow> 'f json \<Rightarrow> 'f json" where
  "appends fl [] v = v"
| "appends fl (x # xs) v = appends fl xs (append1 fl x v)"

definition make_array :: "'f float_lib \<Rightarrow> 'f json list \<Rightarrow> 'f json" where
  "make_array fl xs = appends fl xs (Make fl Array)"

definition json_length :: "'f json \<Rightarrow> u32" where
  "json_length v = (case v of JArray xs \<Rightarrow> word_of_nat (length xs) | _ \<Rightarrow> - 1)"

definition hasKey :: "string \<Rightarrow> 'f json \<Rightarrow> bool" where
  "hasKey k v = (case v of JObject m \<Rightarrow> map_of m k \<noteq> None | _ \<Rightarrow> False)"

definition eraseKey :: "string \<Rightarrow> 'f json \<Rightarrow> bool \<times> 'f json" where
  "eraseKey k v = (case v of
       JObject m \<Rightarrow> (map_of m k \<noteq> None, JObject (filter (\<lambda>p. fst p \<noteq> k) m))
     | _ \<Rightarrow> (False, v))"

definition json_size :: "'f json \<Rightarrow> u32" where
  "json_size v = (case v of
       JObject m \<Rightarrow> word_of_nat (length m)
     | JArray xs \<Rightarrow> word_of_nat (length xs)
     | _ \<Rightarrow> - 1)"

subsection \<open>Printing\<close>

definition chr_backspace :: char where "chr_backspace = CHR 0x08"
definition chr_formfeed :: char where "chr_formfeed = CHR 0x0C"
definition chr_return :: char where "chr_return = CHR 0x0D"

lemmas chr_defs = chr_backspace_def chr_formfeed_def chr_return_def

definition escape_char :: "char \<Rightarrow> string" where
  "escape_char c =
     (if c = CHR 0x22 then [CHR 0x5C, CHR 0x22]
      else if c = CHR 0x5C then [CHR 0x5C, CHR 0x5C]
      else if c = chr_backspace then [CHR 0x5C, CHR ''b'']
      else if c = chr_formfeed then [CHR 0x5C, CHR ''f'']
      else if c = CHR 0x0A then [CHR 0x5C, CHR ''n'']
      else if c = chr_return then [CHR 0x5C, CHR ''r'']
      else if c = CHR 0x09 then [CHR 0x5C, CHR ''t'']
      else [c])"

definition json_escape :: "string \<Rightarrow> string" where
  "json_escape s = concat (map escape_char s)"

definition ToString :: "'f json \<Rightarrow> string \<times> bool" where
  "ToString v = (case v of JString s \<Rightarrow> (json_escape s, True) | _ \<Rightarrow> ([], False))"

definition ToFloat :: "'f float_lib \<Rightarrow> 'f json \<Rightarrow> 'f \<times> bool" where
  "ToFloat fl v = (case v of JFloating x \<Rightarrow> (x, True) | _ \<Rightarrow> (fl_zero fl, False))"

definition ToInt :: "'f json \<Rightarrow> u64 \<times> bool" where
  "ToInt v = (case v of JIntegral i \<Rightarrow> (i, True) | _ \<Rightarrow> (0, False))"

definition ToBool :: "'f json \<Rightarrow> bool \<times> bool" where
  "ToBool v = (case v of JBoolean b \<Rightarrow> (b, True) | _ \<Rightarrow> (False, False))"

text \<open>The braced constructor takes its list in pairs; after an odd one it reads past the end.\<close>

fun of_init_list :: "'f float_lib \<Rightarrow> 'f json list \<Rightarrow> 'f json \<Rightarrow> 'f json result" where
  "of_init_list fl [] v = Inr v"
| "of_init_list fl [x] v = Inl Undefined"
| "of_init_list fl (x # y # r) v = of_init_list fl r (set_key fl (fst (ToString x)) y v)"

definition to_string_long :: "u64 \<Rightarrow> string" where
  "to_string_long i = (if sint i < 0 then CHR ''-'' # dec_nat (nat (- sint i)) else dec_nat (nat (sint i)))"

fun sep_join :: "string \<Rightarrow> string list \<Rightarrow> string" where
  "sep_join sep [] = []"
| "sep_join sep [x] = x"
| "sep_join sep (x # y # xs) = x @ sep @ sep_join sep (y # xs)"

fun dumpFast :: "'f float_lib \<Rightarrow> 'f json \<Rightarrow> string" where
  "dumpFast fl JNull = ''null''"
| "dumpFast fl (JObject m) =
     ''{'' @ sep_join '','' (map (\<lambda>(k, v). CHR 0x22 # k @ CHR 0x22 # CHR '':'' # dumpFast fl v) m) @ ''}''"
| "dumpFast fl (JArray xs) = ''['' @ sep_join '','' (map (dumpFast fl) xs) @ '']''"
| "dumpFast fl (JString s) = CHR 0x22 # json_escape s @ [CHR 0x22]"
| "dumpFast fl (JFloating x) = fl_to_string fl x"
| "dumpFast fl (JIntegral i) = to_string_long i"
| "dumpFast fl (JBoolean b) = (if b then ''true'' else ''false'')"

definition nl :: string where "nl = [CHR 0x0A]"

fun dumpStyle :: "'f float_lib \<Rightarrow> nat \<Rightarrow> string \<Rightarrow> 'f json \<Rightarrow> string" where
  "dumpStyle fl d tab JNull = ''null''"
| "dumpStyle fl d tab (JObject m) =
     (let pad = concat (replicate d tab) in
      (if d = 0 then pad @ ''{'' @ nl else nl @ pad @ ''{'' @ nl) @
      sep_join ('','' @ nl) (map (\<lambda>(k, v).
        pad @ tab @ [CHR 0x22] @ k @ [CHR 0x22] @ '' : '' @ dumpStyle fl (d + 1) tab v) m) @
      nl @ pad @ ''}'')"
| "dumpStyle fl d tab (JArray xs) =
     (let pad = concat (replicate d tab) in
      nl @ pad @ ''['' @ nl @
      sep_join ('','' @ nl) (map (\<lambda>v. pad @ tab @ dumpStyle fl (d + 1) tab v) xs) @
      nl @ pad @ '']'')"
| "dumpStyle fl d tab (JString s) = CHR 0x22 # json_escape s @ [CHR 0x22]"
| "dumpStyle fl d tab (JFloating x) = fl_to_string fl x"
| "dumpStyle fl d tab (JIntegral i) = to_string_long i"
| "dumpStyle fl d tab (JBoolean b) = (if b then ''true'' else ''false'')"

subsection \<open>Well-formed values and what the operations keep\<close>

lemma key_less_asym: "key_less a b \<Longrightarrow> \<not> key_less b a"
  by (induction a b rule: key_less.induct) (auto simp: Let_def)

lemma key_less_irrefl: "\<not> key_less a a"
  using key_less_asym by blast

lemma key_less_trans: "key_less a b \<Longrightarrow> key_less b c \<Longrightarrow> key_less a c"
proof (induction a b arbitrary: c rule: key_less.induct)
  case (2 b bs)
  then show ?case by (cases c) auto
next
  case (3 a as b bs)
  then show ?case by (cases c) (auto simp: Let_def)
qed simp

lemma key_less_total: "a \<noteq> b \<Longrightarrow> key_less a b \<or> key_less b a"
proof (induction a b rule: key_less.induct)
  case (3 a as b bs)
  then show ?case by (auto simp: Let_def)
next
  case (1 as)
  then show ?case by (cases as) simp_all
qed simp

text \<open>Every object in the value has its keys in order, each once, as a \<open>std::map\<close> keeps them.\<close>

fun wf_json :: "'f json \<Rightarrow> bool" where
  "wf_json (JObject m) = (sorted_wrt key_less (map fst m) \<and> (\<forall>p\<in>set m. wf_json (snd p)))"
| "wf_json (JArray xs) = (\<forall>x\<in>set xs. wf_json x)"
| "wf_json _ = True"

lemma keys_map_insert: "fst ` set (map_insert k x m) = insert k (fst ` set m)"
  by (induction k x m rule: map_insert.induct) auto

lemma sorted_map_insert:
  "sorted_wrt key_less (map fst m) \<Longrightarrow> sorted_wrt key_less (map fst (map_insert k x m))"
proof (induction k x m rule: map_insert.induct)
  case (2 k x k' y m)
  have "key_less k' k''" if "k \<noteq> k'" "\<not> key_less k k'" "k'' \<in> fst ` set (map_insert k x m)" for k''
    using that 2 key_less_total [of k k'] by (auto simp: keys_map_insert)
  then show ?case using 2 key_less_trans by (auto simp: image_iff)
qed simp

lemma values_map_insert: "p \<in> set (map_insert k x m) \<Longrightarrow> p = (k, x) \<or> p \<in> set m"
  by (induction k x m rule: map_insert.induct) (auto split: if_splits)

lemma map_of_map_insert:
  "sorted_wrt key_less (map fst m) \<Longrightarrow> map_of (map_insert k x m) = (map_of m)(k \<mapsto> x)"
proof (induction k x m rule: map_insert.induct)
  case (2 k x k' y m)
  then show ?case by (auto simp: fun_eq_iff)
qed simp

lemma set_key_wf: "wf_json v \<Longrightarrow> wf_json x \<Longrightarrow> wf_json (set_key fl k x v)"
  by (cases v) (auto simp: set_key_def SetType_def sorted_map_insert dest!: values_map_insert)

lemma set_index_wf:
  assumes "set_index fl i x v = Inr w" and "wf_json v" and "wf_json x"
  shows "wf_json w"
proof -
  have g: "wf_json y" if "y \<in> set (grow i xs)" "\<forall>y\<in>set xs. wf_json y" for y xs
    using that by (auto simp: grow_def split: if_splits dest: in_set_takeD)
  obtain xs where xs: "SetType fl Array v = JArray xs" "\<forall>y\<in>set xs. wf_json y"
    using assms(2) by (cases v) (auto simp: SetType_def)
  then have w: "w = JArray ((grow i xs)[unat i := x])"
    using assms(1) by (simp add: set_index_def Let_def split: if_splits)
  have "y = x \<or> y \<in> set (grow i xs)" if "y \<in> set ((grow i xs)[unat i := x])" for y
    using that set_update_subset_insert by fastforce
  then show ?thesis using w g [OF _ xs(2)] assms(3) by auto
qed

text \<open>
  an object behaves as a map. After a write through \<open>operator[]\<close> the value is still well
  formed, the key is present and reads back, every other key reads as before, the size grows by
  one exactly when the key was new, and erasing it takes it away again.
\<close>

theorem object_is_a_map:
  assumes "wf_json (JObject m)" and "wf_json x"
  shows "\<exists>m'. set_key fl k x (JObject m) = JObject m' \<and> wf_json (JObject m') \<and>
    hasKey k (JObject m') \<and> at_key k (JObject m') = Inr x \<and>
    (\<forall>k'. k' \<noteq> k \<longrightarrow> at_key k' (JObject m') = at_key k' (JObject m)) \<and>
    length m' = (if hasKey k (JObject m) then length m else length m + 1) \<and>
    \<not> hasKey k (snd (eraseKey k (JObject m')))"
proof -
  let ?m = "map_insert k x m"
  have so: "sorted_wrt key_less (map fst m)" using assms(1) by simp
  have d: "distinct (map fst l)" if "sorted_wrt key_less (map fst l)" for l :: "(string \<times> 'a json) list"
    using that by (induction l) (use key_less_irrefl in auto)
  have len: "length l = card (fst ` set l)" if "sorted_wrt key_less (map fst l)" for l :: "(string \<times> 'a json) list"
    using distinct_card [OF d [OF that]] by simp
  have "length ?m = (if k \<in> fst ` set m then length m else length m + 1)"
    by (simp add: len [OF so] len [OF sorted_map_insert [OF so]] keys_map_insert card_insert_if insert_absorb)
  moreover have "k \<in> fst ` set m \<longleftrightarrow> map_of m k \<noteq> None" by (simp add: map_of_eq_None_iff)
  moreover have "map_of (filter (\<lambda>p. fst p \<noteq> k) ?m) k = None"
    by (auto simp: map_of_eq_None_iff)
  moreover have "wf_json (JObject ?m)"
    using set_key_wf [OF assms, of fl k] by (simp add: set_key_def SetType_def)
  ultimately show ?thesis
    by (intro exI [of _ ?m])
      (simp add: set_key_def SetType_def hasKey_def at_key_def eraseKey_def map_of_map_insert [OF so])
qed

lemma object_is_a_map_witness:
  "\<exists>m'. set_key undefined ''b'' JNull (JObject [(''a'', JBoolean True)]) = JObject m' \<and>
     hasKey ''b'' (JObject m' :: unit json) \<and> at_key ''a'' (JObject m') = Inr (JBoolean True)"
  using object_is_a_map [of "[(''a'', JBoolean True)]" "JNull :: unit json" undefined "''b''"]
  by (auto simp: at_key_def)

text \<open>
  The last index of an array cannot be used. For the index \<open>UINT_MAX\<close> the growth computes
  \<open>index + 1 = 0\<close> in unsigned arithmetic, empties the array and then accesses it, whatever the
  value held before.
\<close>

theorem index_growth_wraps:
  assumes "\<forall>xs. v = JArray xs \<longrightarrow> length xs < 2 ^ 32"
  shows "set_index fl (- 1) x v = Inl Undefined \<and> get_index fl (- 1) v = Inl Undefined"
proof -
  have m: "unat (- 1 :: u32) = 2 ^ 32 - 1"
    by (simp add: unsigned_minus_1_eq_mask mask_eq_exp_minus_1)
  obtain xs where xs: "SetType fl Array v = JArray xs" "length xs < 2 ^ 32"
    using assms by (cases v) (auto simp: SetType_def)
  then have "grow (- 1) xs = []" by (simp add: grow_def m)
  then show ?thesis using xs by (simp add: set_index_def get_index_def)
qed

lemma index_growth_wraps_witness:
  "set_index fl (- 1) x (JArray [JNull, JNull]) = Inl Undefined"
  using index_growth_wraps [of "JArray [JNull, JNull]" fl x] by simp

end
