(* ===== verification/JsonParse.thy ===== *)
theory JsonParse
  imports Json
begin

text \<open>
  The JSON parser (the functions after class \<open>Value\<close> in src/code/common/include/util/json.hpp).
  A parser reads \<open>str[offset]\<close> of a constant \<open>std::string\<close>: the terminating NUL may be read, an
  index beyond it is undefined. \<open>Done v o\<close> returns a value with the offset advanced to \<open>o\<close>,
  \<open>Fail e o\<close> throws \<open>e\<close> with the offset left at \<open>o\<close>. The mutual recursion of values, objects and
  arrays runs on fuel; \<open>Fuel_out\<close> is shown never to happen with the fuel \<open>load\<close> uses.
\<close>

datatype 'a pres = Done 'a nat | Fail exn nat | Undef | Fuel_out

definition pbind :: "'a pres \<Rightarrow> ('a \<Rightarrow> nat \<Rightarrow> 'b pres) \<Rightarrow> 'b pres" where
  "pbind m k = (case m of Done x i \<Rightarrow> k x i | Fail e i \<Rightarrow> Fail e i | Undef \<Rightarrow> Undef
     | Fuel_out \<Rightarrow> Fuel_out)"

lemma pbind_simps [simp]:
  "pbind (Done x i) k = k x i" "pbind (Fail e i) k = Fail e i"
  "pbind Undef k = Undef" "pbind Fuel_out k = Fuel_out"
  by (simp_all add: pbind_def)

definition char_at :: "string \<Rightarrow> nat \<Rightarrow> char option" where
  "char_at str i = (if i < length str then Some (str ! i)
     else if i = length str then Some (CHR 0x00) else None)"

definition with_char :: "string \<Rightarrow> nat \<Rightarrow> (char \<Rightarrow> 'a pres) \<Rightarrow> 'a pres" where
  "with_char str i k = (case char_at str i of None \<Rightarrow> Undef | Some c \<Rightarrow> k c)"

definition isspace :: "char \<Rightarrow> bool" where
  "isspace c \<longleftrightarrow> c \<in> {CHR 0x20, CHR 0x09, CHR 0x0A, CHR 0x0B, CHR 0x0C, CHR 0x0D}"

definition is_digit :: "char \<Rightarrow> bool" where
  "is_digit c \<longleftrightarrow> 48 \<le> (of_char c :: nat) \<and> (of_char c :: nat) \<le> 57"

definition is_xdigit :: "char \<Rightarrow> bool" where
  "is_xdigit c \<longleftrightarrow> is_digit c \<or> 97 \<le> (of_char c :: nat) \<and> (of_char c :: nat) \<le> 102 \<or>
     65 \<le> (of_char c :: nat) \<and> (of_char c :: nat) \<le> 70"

definition quoted :: "string \<Rightarrow> string" where
  "quoted s = CHR 0x27 # s @ [CHR 0x27]"

definition invalid :: "string \<Rightarrow> nat \<Rightarrow> 'a pres" where
  "invalid msg i = Fail (Std_invalid_argument msg) i"

subsection \<open>Blanks and comments\<close>

text \<open>\<open>std::string::find\<close> from a position.\<close>

definition find_from :: "string \<Rightarrow> string \<Rightarrow> nat \<Rightarrow> nat option" where
  "find_from str pat i =
     List.find (\<lambda>j. take (length pat) (drop j str) = pat) [i..<length str]"

lemma find_from_Some:
  "find_from str pat i = Some j \<Longrightarrow>
     i \<le> j \<and> j < length str \<and> take (length pat) (drop j str) = pat"
  by (auto simp: find_from_def find_Some_iff)

function skip_space :: "string \<Rightarrow> nat \<Rightarrow> nat" where
  "skip_space str i = (if i < length str \<and> isspace (str ! i) then skip_space str (i + 1) else i)"
  by pat_completeness auto
termination by (relation "measure (\<lambda>(str, i). length str - i)") auto

declare skip_space.simps [simp del]

lemma skip_space_ge: "i \<le> skip_space str i"
  by (induction str i rule: skip_space.induct) (subst skip_space.simps, auto)

lemma skip_space_le: "i \<le> length str \<Longrightarrow> skip_space str i \<le> length str"
  by (induction str i rule: skip_space.induct) (subst skip_space.simps, simp)

text \<open>
  \<open>consume_ws\<close>: blanks, then a comment to the end of its line or to its closing mark, then
  again. A comment that does not end is left in place. Starting beyond the NUL is undefined.
\<close>

function consume_ws :: "string \<Rightarrow> nat \<Rightarrow> nat option" where
  "consume_ws str i0 = (if length str < i0 then None else
     let i = skip_space str i0 in
     (case char_at str i of
        None \<Rightarrow> None
      | Some c \<Rightarrow>
          if c = CHR ''#'' then
            (case find_from str nl i of Some e \<Rightarrow> consume_ws str (e + 1) | None \<Rightarrow> Some i)
          else if c = CHR ''/'' then
            (case char_at str (i + 1) of
               None \<Rightarrow> None
             | Some d \<Rightarrow>
                 if d = CHR ''/'' then
                   (case find_from str nl i of Some e \<Rightarrow> consume_ws str (e + 1) | None \<Rightarrow> Some i)
                 else if d = CHR ''*'' then
                   (case find_from str ''*/'' i of Some e \<Rightarrow> consume_ws str (e + 2) | None \<Rightarrow> Some i)
                 else Some i)
          else Some i))"
  by pat_completeness auto
termination
proof (relation "measure (\<lambda>(str, i). length str + 1 - i)", goal_cases)
  case 1
  then show ?case by simp
next
  case (2 str i0 i c e)
  then show ?case using skip_space_ge [of i0 str] find_from_Some [of str nl i e] by auto
next
  case (3 str i0 i c d e)
  then show ?case using skip_space_ge [of i0 str] find_from_Some [of str nl i e] by auto
next
  case (4 str i0 i c d e)
  then show ?case using skip_space_ge [of i0 str] find_from_Some [of str "''*/''" i e] by auto
qed

declare consume_ws.simps [simp del]

definition after_ws :: "string \<Rightarrow> nat \<Rightarrow> (nat \<Rightarrow> 'a pres) \<Rightarrow> 'a pres" where
  "after_ws str i k = (case consume_ws str i of None \<Rightarrow> Undef | Some j \<Rightarrow> k j)"

subsection \<open>Scalars\<close>

lemma with_char_cong [fundef_cong]:
  "str = str' \<Longrightarrow> i = i' \<Longrightarrow> (\<And>c. char_at str' i' = Some c \<Longrightarrow> k c = k' c) \<Longrightarrow>
    with_char str i k = with_char str' i' k'"
  by (simp add: with_char_def split: option.split)

lemma pbind_cong [fundef_cong]:
  "m = m' \<Longrightarrow> (\<And>x i. m' = Done x i \<Longrightarrow> k x i = k' x i) \<Longrightarrow> pbind m k = pbind m' k'"
  by (cases m') simp_all

lemma char_at_le: "char_at str i = Some c \<Longrightarrow> i \<le> length str"
  by (simp add: char_at_def split: if_splits)

fun hex_escape :: "string \<Rightarrow> nat \<Rightarrow> nat list \<Rightarrow> string \<Rightarrow> string pres" where
  "hex_escape str i [] val = Done val (i + 4)"
| "hex_escape str i (j # js) val = with_char str (i + j) (\<lambda>c.
     if is_xdigit c then hex_escape str i js (val @ [c])
     else invalid (''ERROR: String: Expected hex character in unicode escape, found '' @
            quoted [c] @ ''.'') i)"

lemma hex_escape_offset: "hex_escape str i js val = Done v j \<Longrightarrow> j = i + 4"
  by (induction js arbitrary: val)
    (auto simp: with_char_def invalid_def split: option.splits if_splits)

text \<open>The character a two-character escape stands for; \<open>None\<close> for \<open>u\<close> and for unknown ones.\<close>

definition unescape :: "char \<Rightarrow> char option" where
  "unescape d =
     (if d = CHR 0x22 then Some (CHR 0x22)
      else if d = CHR 0x5C then Some (CHR 0x5C)
      else if d = CHR ''/'' then Some (CHR ''/'')
      else if d = CHR ''b'' then Some chr_backspace
      else if d = CHR ''f'' then Some chr_formfeed
      else if d = CHR ''n'' then Some (CHR 0x0A)
      else if d = CHR ''r'' then Some chr_return
      else if d = CHR ''t'' then Some (CHR 0x09)
      else None)"

text \<open>The loop of \<open>parse_string\<close>, at the index of the next character.\<close>

function string_loop :: "string \<Rightarrow> nat \<Rightarrow> string \<Rightarrow> string pres" where
  "string_loop str i val = with_char str i (\<lambda>c.
     if c = CHR 0x22 then Done val (i + 1)
     else if c = CHR 0x5C then with_char str (i + 1) (\<lambda>d.
       (case unescape d of
          Some e \<Rightarrow> string_loop str (i + 2) (val @ [e])
        | None \<Rightarrow>
            if d = CHR ''u'' then
              pbind (hex_escape str (i + 1) [1, 2, 3, 4] (val @ [CHR 0x5C, CHR ''u'']))
                (\<lambda>val j. string_loop str (j + 1) val)
            else string_loop str (i + 2) (val @ [CHR 0x5C])))
     else string_loop str (i + 1) (val @ [c]))"
  by pat_completeness auto
termination
  by (relation "measure (\<lambda>(str, i, val). length str + 1 - i)")
    (auto dest!: char_at_le hex_escape_offset simp del: hex_escape.simps)

declare string_loop.simps [simp del]

definition parse_string :: "string \<Rightarrow> nat \<Rightarrow> 'f json pres" where
  "parse_string str i = pbind (string_loop str (i + 1) []) (\<lambda>s j. Done (JString s) j)"

text \<open>
  \<open>std::stol\<close> and the digits of a number. The parser only hands it digits, signs and points, so
  the blanks and the plus sign it would also skip do not occur.
\<close>

definition digits_value :: "string \<Rightarrow> nat" where
  "digits_value ds = foldl (\<lambda>n c. 10 * n + (of_char c - 48)) 0 ds"

definition long_of :: "int \<Rightarrow> exn + u64" where
  "long_of x = (if - (2 ^ 63) \<le> x \<and> x < 2 ^ 63 then Inr (word_of_int x)
     else Inl (Std_out_of_range ''stol''))"

definition stol :: "string \<Rightarrow> exn + u64" where
  "stol s = (let neg = (s \<noteq> [] \<and> hd s = CHR ''-'');
                 ds = takeWhile is_digit (if neg then tl s else s)
             in if ds = [] then Inl (Std_invalid_argument ''stol'')
                else long_of (if neg then - int (digits_value ds) else int (digits_value ds)))"

definition thrown_at :: "nat \<Rightarrow> exn + 'a \<Rightarrow> ('a \<Rightarrow> 'b pres) \<Rightarrow> 'b pres" where
  "thrown_at i m k = (case m of Inl e \<Rightarrow> Fail e i | Inr x \<Rightarrow> k x)"

text \<open>The first loop of \<open>parse_number\<close>: the character it stops at, the text, whether it had a point.\<close>

function number_chars :: "string \<Rightarrow> nat \<Rightarrow> string \<Rightarrow> bool \<Rightarrow> (char \<times> string \<times> bool) pres" where
  "number_chars str i val dbl = with_char str i (\<lambda>c.
     if c = CHR ''-'' \<or> is_digit c then number_chars str (i + 1) (val @ [c]) dbl
     else if c = CHR ''.'' then number_chars str (i + 1) (val @ [c]) True
     else Done (c, val, dbl) (i + 1))"
  by pat_completeness auto
termination
  by (relation "measure (\<lambda>(str, i, val, dbl). length str + 1 - i)") (auto dest!: char_at_le)

declare number_chars.simps [simp del]

definition ends_number :: "char \<Rightarrow> bool" where
  "ends_number c \<longleftrightarrow> isspace c \<or> c = CHR '','' \<or> c = CHR '']'' \<or> c = CHR ''}''"

function exp_chars :: "string \<Rightarrow> nat \<Rightarrow> string \<Rightarrow> string pres" where
  "exp_chars str i e = with_char str i (\<lambda>c.
     if is_digit c then exp_chars str (i + 1) (e @ [c])
     else if \<not> ends_number c then
       invalid (''ERROR: Number: Expected a number for exponent, found '' @ quoted [c] @ ''.'') (i + 1)
     else Done e (i + 1))"
  by pat_completeness auto
termination
  by (relation "measure (\<lambda>(str, i, e). length str + 1 - i)") (auto dest!: char_at_le)

declare exp_chars.simps [simp del]

text \<open>
  The exponent: its first character is read and, unless it is a minus sign, dropped; after a
  minus sign one more character is skipped.
\<close>

definition exponent :: "string \<Rightarrow> nat \<Rightarrow> char \<Rightarrow> (string \<times> u64) pres" where
  "exponent str i c =
     (if c = CHR ''E'' \<or> c = CHR ''e'' then
        with_char str i (\<lambda>c.
          pbind (if c = CHR ''-'' then exp_chars str (i + 2) ''-'' else exp_chars str (i + 1) [])
            (\<lambda>e j. thrown_at j (stol e) (\<lambda>x. Done (e, x) j)))
      else if \<not> ends_number c then
        invalid (''ERROR: Number: unexpected character '' @ quoted [c] @ ''.'') i
      else Done ([], 0) i)"

definition parse_number :: "'f float_lib \<Rightarrow> string \<Rightarrow> nat \<Rightarrow> 'f json pres" where
  "parse_number fl str i =
     pbind (number_chars str i [] False) (\<lambda>(c, val, dbl) j.
       pbind (exponent str j c) (\<lambda>(exp_str, ex) j.
         let j = j - 1 in
         if dbl then
           thrown_at j (fl_stod fl val) (\<lambda>x. Done (JFloating (fl_mul fl x (fl_pow10 fl ex))) j)
         else thrown_at j (stol val) (\<lambda>n.
           if exp_str \<noteq> [] then
             Done (JFloating (fl_mul fl (fl_of_long fl n) (fl_pow10 fl ex))) j
           else Done (JIntegral n) j)))"

definition substr :: "string \<Rightarrow> nat \<Rightarrow> nat \<Rightarrow> string" where
  "substr str i n = take n (drop i str)"

definition parse_bool :: "string \<Rightarrow> nat \<Rightarrow> 'f json pres" where
  "parse_bool str i =
     (if substr str i 4 = ''true'' then Done (JBoolean True) (i + 4)
      else if substr str i 5 = ''false'' then Done (JBoolean False) (i + 5)
      else invalid (''ERROR: Bool: Expected '' @ quoted ''true'' @ '' or '' @ quoted ''false'' @
             '', found '' @ quoted (substr str i 5) @ ''.'') i)"

definition parse_null :: "string \<Rightarrow> nat \<Rightarrow> 'f json pres" where
  "parse_null str i =
     (if substr str i 4 \<noteq> ''null'' then
        invalid (''ERROR: Null: Expected '' @ quoted ''null'' @ '', found '' @
          quoted (substr str i 4) @ ''.'') i
      else Done JNull (i + 4))"

subsection \<open>Values, objects and arrays\<close>

definition put_index :: "'f float_lib \<Rightarrow> u32 \<Rightarrow> 'f json \<Rightarrow> 'f json \<Rightarrow> ('f json \<Rightarrow> 'b pres) \<Rightarrow> 'b pres" where
  "put_index fl n x a k = (case set_index fl n x a of Inr b \<Rightarrow> k b | Inl _ \<Rightarrow> Undef)"

text \<open>
  The three parsers call each other. \<open>parse_array\<close> and \<open>parse_object\<close> take the \<open>parse_next\<close>
  they call for the values inside as an argument, and their loops run on fuel of their own.
\<close>

primrec array_loop :: "'f float_lib \<Rightarrow> string \<Rightarrow> (nat \<Rightarrow> 'f json pres) \<Rightarrow> nat \<Rightarrow> u32 \<Rightarrow> 'f json \<Rightarrow>
    nat \<Rightarrow> 'f json pres" where
  "array_loop fl str next 0 n a i = Fuel_out"
| "array_loop fl str next (Suc f) n a i =
     pbind (next i) (\<lambda>x i.
       put_index fl n x a (\<lambda>a. after_ws str i (\<lambda>i. with_char str i (\<lambda>c.
         if c = CHR '','' then array_loop fl str next f (n + 1) a (i + 1)
         else if c = CHR '']'' then Done a (i + 1)
         else invalid (''ERROR: Array: Expected '' @ quoted '','' @ '' or '' @ quoted '']'' @
                '', found '' @ quoted [c] @ ''.'') i))))"

definition parse_array :: "'f float_lib \<Rightarrow> string \<Rightarrow> (nat \<Rightarrow> 'f json pres) \<Rightarrow> nat \<Rightarrow> nat \<Rightarrow>
    'f json pres" where
  "parse_array fl str next f i = after_ws str (i + 1) (\<lambda>i. with_char str i (\<lambda>c.
     if c = CHR '']'' then Done (Make fl Array) (i + 1)
     else array_loop fl str next f 0 (Make fl Array) i))"

primrec object_loop :: "'f float_lib \<Rightarrow> string \<Rightarrow> (nat \<Rightarrow> 'f json pres) \<Rightarrow> nat \<Rightarrow> 'f json \<Rightarrow>
    nat \<Rightarrow> 'f json pres" where
  "object_loop fl str next 0 a i = Fuel_out"
| "object_loop fl str next (Suc f) a i =
     pbind (next i) (\<lambda>key i.
       after_ws str i (\<lambda>i. with_char str i (\<lambda>c.
         if c \<noteq> CHR '':'' then
           invalid (''Error: Object: Expected '' @ quoted '':'' @ '', found '' @ quoted [c] @ ''.'') i
         else after_ws str (i + 1) (\<lambda>i.
           pbind (next i) (\<lambda>v i.
             let a = set_key fl (fst (ToString key)) v a in
             after_ws str i (\<lambda>i. with_char str i (\<lambda>c.
               if c = CHR '','' then object_loop fl str next f a (i + 1)
               else if c = CHR ''}'' then Done a (i + 1)
               else invalid (''ERROR: Object: Expected '' @ quoted '','' @ '' or '' @
                      quoted ''}'' @ '', found '' @ quoted [c] @ ''.'') i)))))))"

definition parse_object :: "'f float_lib \<Rightarrow> string \<Rightarrow> (nat \<Rightarrow> 'f json pres) \<Rightarrow> nat \<Rightarrow> nat \<Rightarrow>
    'f json pres" where
  "parse_object fl str next f i = after_ws str (i + 1) (\<lambda>i. with_char str i (\<lambda>c.
     if c = CHR ''}'' then Done (Make fl Object) (i + 1)
     else object_loop fl str next f (Make fl Object) i))"

primrec parse_next :: "'f float_lib \<Rightarrow> string \<Rightarrow> nat \<Rightarrow> nat \<Rightarrow> 'f json pres" where
  "parse_next fl str 0 i = Fuel_out"
| "parse_next fl str (Suc f) i = after_ws str i (\<lambda>i. with_char str i (\<lambda>c.
     if c = CHR ''['' then parse_array fl str (parse_next fl str f) f i
     else if c = CHR ''{'' then parse_object fl str (parse_next fl str f) f i
     else if c = CHR 0x22 then parse_string str i
     else if c = CHR ''t'' \<or> c = CHR ''f'' then parse_bool str i
     else if c = CHR ''n'' then parse_null str i
     else if is_digit c \<or> c = CHR ''-'' then parse_number fl str i
     else invalid (''ERROR: Parse: Unknown starting character '' @ quoted [c] @ ''.'') i))"

subsection \<open>Loading a document\<close>

text \<open>The row and column loop of \<open>load\<close>, from the start of a line at \<open>pos\<close>.\<close>

function row_col :: "string \<Rightarrow> nat \<Rightarrow> nat \<Rightarrow> u32 \<Rightarrow> u32 \<times> u32" where
  "row_col str off pos row = (case find_from str nl pos of
       Some p \<Rightarrow>
         if off < p + 1 then (row + 1, word_of_nat (off - pos + 1))
         else if p + 1 < off then row_col str off (p + 1) (row + 1)
         else (row + 1, 0)
     | None \<Rightarrow> (row, word_of_nat (off - pos + 1)))"
  by pat_completeness auto
termination
  by (relation "measure (\<lambda>(str, off, pos, row). length str + 1 - pos)")
    (auto dest!: find_from_Some)

declare row_col.simps [simp del]

fun what :: "exn \<Rightarrow> string" where
  "what (Std_invalid_argument m) = m"
| "what (Std_out_of_range m) = m"
| "what (Std_logic_error m) = m"
| "what (Std_length_error m) = m"
| "what (Std_runtime_error m) = m"
| "what (Std_exception m) = m"

text \<open>\<open>e.what()\<close> is a C string: the text is cut at its first NUL.\<close>

definition error_text :: "string \<Rightarrow> exn \<Rightarrow> nat \<Rightarrow> string" where
  "error_text str e i =
     (let (row, col) = (if 0 < i then row_col str i 0 0 else (0, 0))
      in takeWhile (\<lambda>c. c \<noteq> CHR 0x00) (what e) @ ''row:'' @ dec_nat (unat row) @
         '' col:'' @ dec_nat (unat col))"

definition load_fuel :: "string \<Rightarrow> nat" where
  "load_fuel str = length str + 2"

text \<open>The error text, empty on success, and the root, which only a success assigns.\<close>

definition load :: "'f float_lib \<Rightarrow> string \<Rightarrow> 'f json \<Rightarrow> (string \<times> 'f json) result" where
  "load fl str root = (case parse_next fl str (load_fuel str) 0 of
       Done v i \<Rightarrow> Inr ([], v)
     | Fail e i \<Rightarrow> Inr (error_text str e i, root)
     | Undef \<Rightarrow> Inl Undefined
     | Fuel_out \<Rightarrow> Inl Aborts)"

text \<open>\<open>None\<close> is a file that cannot be opened.\<close>

definition load_from_file :: "'f float_lib \<Rightarrow> (string \<Rightarrow> string option) \<Rightarrow> string \<Rightarrow> 'f json \<Rightarrow>
    (string \<times> 'f json) result" where
  "load_from_file fl files name root = (case files name of
       None \<Rightarrow> Inr (''open file '' @ name @ '' failed!'', root)
     | Some contents \<Rightarrow> load fl contents root)"

end
