(* ===== verification/JsonTerm.thy ===== *)
theory JsonTerm
  imports JsonParse
begin

text \<open>
  Every JSON parser advances and stays within the text, so the recursion of values inside values
  is bounded by the length of the text and \<open>load\<close> terminates on every input.
\<close>

subsection \<open>Every parser advances and the recursion is bounded\<close>

lemma char_at_less: "char_at str i = Some c \<Longrightarrow> c \<noteq> CHR 0x00 \<Longrightarrow> i < length str"
  by (auto simp: char_at_def split: if_splits)

lemma with_char_Done: "with_char str i k = Done x j \<Longrightarrow> \<exists>c. char_at str i = Some c \<and> k c = Done x j"
  by (auto simp: with_char_def split: option.splits)

lemma pbind_Done: "pbind m k = Done x j \<Longrightarrow> \<exists>y i. m = Done y i \<and> k y i = Done x j"
  by (cases m) auto

lemma thrown_at_Done: "thrown_at i m k = Done x j \<Longrightarrow> \<exists>y. m = Inr y \<and> k y = Done x j"
  by (cases m) (auto simp: thrown_at_def)

lemma invalid_not_Done [simp]: "invalid msg i \<noteq> Done x j" "invalid msg i \<noteq> Fuel_out"
  by (simp_all add: invalid_def)

lemma consume_ws_range: "consume_ws str i = Some j \<Longrightarrow> i \<le> j \<and> j \<le> length str"
proof (induction str i arbitrary: j rule: consume_ws.induct)
  case (1 str i0)
  let ?i = "skip_space str i0"
  note D = 1(4) [unfolded consume_ws.simps [of str i0]]
  have le: "i0 \<le> length str" using D by (simp split: if_splits)
  have i: "i0 \<le> ?i" "?i \<le> length str" using skip_space_ge skip_space_le [OF le] by auto
  obtain c where c: "char_at str ?i = Some c" using D le by (cases "char_at str ?i") (auto simp: Let_def)
  show ?case
  proof (cases "j = ?i")
    case True
    then show ?thesis using i by simp
  next
    case False
    then consider (line) e where "c = CHR ''#''" "find_from str nl ?i = Some e" "consume_ws str (e + 1) = Some j"
      | (line2) e where "c = CHR ''/''" "char_at str (?i + 1) = Some (CHR ''/'')" "find_from str nl ?i = Some e"
          "consume_ws str (e + 1) = Some j"
      | (block) e where "c = CHR ''/''" "char_at str (?i + 1) = Some (CHR ''*'')" "find_from str ''*/'' ?i = Some e"
          "consume_ws str (e + 2) = Some j"
      using D le c by (auto simp: Let_def split: option.splits if_splits)
    then show ?thesis
    proof cases
      case (line e)
      then show ?thesis
        using 1(1) [OF _ refl c _ line(2,3)] le i find_from_Some [OF line(2)] by linarith
    next
      case (line2 e)
      then show ?thesis
        using 1(2) [OF _ refl c _ _ line2(2) _ line2(3,4)] le i find_from_Some [OF line2(3)] by simp
    next
      case (block e)
      then show ?thesis
        using 1(3) [OF _ refl c _ _ block(2) _ _ block(3,4)] le i find_from_Some [OF block(3)] by simp
    qed
  qed
qed

lemma after_ws_Done: "after_ws str i k = Done x j \<Longrightarrow> \<exists>i'. i \<le> i' \<and> i' \<le> length str \<and> k i' = Done x j"
  by (auto simp: after_ws_def split: option.splits dest!: consume_ws_range)

lemma string_loop_Done: "string_loop str i val = Done s j \<Longrightarrow> i < j \<and> j \<le> length str"
proof (induction str i val rule: string_loop.induct)
  case (1 str i val)
  note D = 1(5) [unfolded string_loop.simps [of str i val]]
  obtain c where c: "char_at str i = Some c" using D by (blast dest: with_char_Done)
  consider (quote) "c = CHR 0x22" | (esc) "c = CHR 0x5C" | (plain) "c \<noteq> CHR 0x22" "c \<noteq> CHR 0x5C"
    by blast
  then show ?case
  proof cases
    case quote
    then show ?thesis using D c char_at_less [OF c] by (simp add: with_char_def)
  next
    case esc
    then obtain d where d: "char_at str (i + 1) = Some d"
      and E: "(case unescape d of Some e \<Rightarrow> string_loop str (i + 2) (val @ [e])
        | None \<Rightarrow> if d = CHR ''u'' then
            pbind (hex_escape str (i + 1) [1, 2, 3, 4] (val @ [CHR 0x5C, CHR ''u'']))
              (\<lambda>val j. string_loop str (j + 1) val)
          else string_loop str (i + 2) (val @ [CHR 0x5C])) = Done s j"
      using D by (auto simp only: with_char_def c option.case char.inject if_True if_False simp_thms
          dest!: with_char_Done split: if_splits option.splits)
    show ?thesis
    proof (cases "unescape d")
      case (Some e)
      then show ?thesis using 1(3) [OF c _ esc d Some] E esc by simp
    next
      case None
      show ?thesis
      proof (cases "d = CHR ''u''")
        case True
        then have P: "pbind (hex_escape str (i + 1) [1, 2, 3, 4] (val @ [CHR 0x5C, CHR ''u'']))
            (\<lambda>val j. string_loop str (j + 1) val) = Done s j"
          using E None by (simp del: hex_escape.simps)
        obtain v k where k: "hex_escape str (i + 1) [1, 2, 3, 4] (val @ [CHR 0x5C, CHR ''u'']) = Done v k"
          "string_loop str (k + 1) v = Done s j"
          using pbind_Done [OF P] by blast
        have "i + 1 < k" using hex_escape_offset [OF k(1)] by simp
        then show ?thesis using 1(1) [OF c _ esc d None True k] esc by simp
      next
        case False
        then show ?thesis using 1(2) [OF c _ esc d None False] E None esc by simp
      qed
    qed
  next
    case plain
    then show ?thesis using 1(4) [OF c plain] D c by (simp add: with_char_def)
  qed
qed

lemma parse_string_Done: "parse_string str i = Done v j \<Longrightarrow> i < j \<and> j \<le> length str"
  by (auto simp: parse_string_def dest!: pbind_Done string_loop_Done)

lemma number_chars_Done:
  "number_chars str i val dbl = Done (c, r) j \<Longrightarrow>
     i < j \<and> char_at str (j - 1) = Some c \<and> (\<forall>d. char_at str i = Some d \<and> (is_digit d \<or> d = CHR ''-'') \<longrightarrow> i + 1 < j)"
proof (induction str i val dbl rule: number_chars.induct)
  case (1 str i val dbl)
  note D = 1(3) [unfolded number_chars.simps [of str i val dbl]]
  obtain d where d: "char_at str i = Some d" using D by (blast dest: with_char_Done)
  show ?case
  proof (cases "d = CHR ''-'' \<or> is_digit d")
    case True
    then show ?thesis using 1(1) [OF d True] D d by (auto simp: with_char_def)
  next
    case False
    then show ?thesis using 1(2) [OF d False] D d by (auto simp: with_char_def split: if_splits)
  qed
qed

lemma ends_number_not_nul: "ends_number c \<Longrightarrow> c \<noteq> CHR 0x00"
  by (auto simp: ends_number_def isspace_def)

lemma exp_chars_Done: "exp_chars str i e = Done r j \<Longrightarrow> i < j \<and> j \<le> length str"
proof (induction str i e rule: exp_chars.induct)
  case (1 str i e)
  note D = 1(2) [unfolded exp_chars.simps [of str i e]]
  obtain c where c: "char_at str i = Some c" using D by (blast dest: with_char_Done)
  show ?case
  proof (cases "is_digit c")
    case True
    then show ?thesis using 1(1) [OF c True] D c by (simp add: with_char_def)
  next
    case False
    then show ?thesis using D c char_at_less [OF c] ends_number_not_nul [of c]
      by (auto simp: with_char_def split: if_splits)
  qed
qed

lemma exponent_Done:
  assumes "exponent str i c = Done r j" and "char_at str (i - 1) = Some c" and "0 < i"
  shows "i \<le> j \<and> j \<le> length str"
proof (cases "c = CHR ''E'' \<or> c = CHR ''e''")
  case True
  then show ?thesis using assms(1)
    by (auto simp: exponent_def dest!: with_char_Done pbind_Done thrown_at_Done exp_chars_Done
        split: if_splits)
next
  case False
  then show ?thesis using assms char_at_less [OF assms(2)] ends_number_not_nul [of c]
    by (auto simp: exponent_def split: if_splits)
qed

lemma parse_number_Done:
  assumes "parse_number fl str i = Done v j" and "char_at str i = Some d"
    and "is_digit d \<or> d = CHR ''-''"
  shows "i < j \<and> j \<le> length str"
proof -
  obtain c val dbl k where n: "number_chars str i [] False = Done (c, val, dbl) k"
    and r: "pbind (exponent str k c) (\<lambda>(exp_str, ex) j. let j = j - 1 in
         if dbl then
           thrown_at j (fl_stod fl val) (\<lambda>x. Done (JFloating (fl_mul fl x (fl_pow10 fl ex))) j)
         else thrown_at j (stol val) (\<lambda>n.
           if exp_str \<noteq> [] then
             Done (JFloating (fl_mul fl (fl_of_long fl n) (fl_pow10 fl ex))) j
           else Done (JIntegral n) j)) = Done v j"
    using assms(1) by (auto simp: parse_number_def dest!: pbind_Done)
  obtain e x l where e: "exponent str k c = Done (e, x) l" and l: "j = l - 1"
    using r by (auto simp: Let_def dest!: pbind_Done thrown_at_Done split: if_splits)
  show ?thesis
    using number_chars_Done [OF n] exponent_Done [OF e] assms(2,3) l by auto
qed

lemma substr_length: "substr str i n = w \<Longrightarrow> w \<noteq> [] \<Longrightarrow> length w = n \<Longrightarrow> i + n \<le> length str"
  by (auto simp: substr_def)

lemma parse_bool_Done: "parse_bool str i = Done v j \<Longrightarrow> i < j \<and> j \<le> length str"
  using substr_length [of str i 4 "''true''"] substr_length [of str i 5 "''false''"]
  by (auto simp: parse_bool_def split: if_splits)

lemma parse_null_Done: "parse_null str i = Done v j \<Longrightarrow> i < j \<and> j \<le> length str"
  using substr_length [of str i 4 "''null''"] by (auto simp: parse_null_def split: if_splits)

text \<open>A parser of values moves forward and stays within the text.\<close>

definition advances :: "string \<Rightarrow> (nat \<Rightarrow> 'a pres) \<Rightarrow> bool" where
  "advances str p \<longleftrightarrow> (\<forall>i x j. p i = Done x j \<longrightarrow> i < j \<and> j \<le> length str)"

lemma advancesD: "advances str p \<Longrightarrow> p i = Done x j \<Longrightarrow> i < j \<and> j \<le> length str"
  by (auto simp: advances_def)

lemma put_index_Done: "put_index fl n x a k = Done y j \<Longrightarrow> \<exists>b. k b = Done y j"
  by (auto simp: put_index_def split: sum.splits)

lemma array_loop_Done:
  assumes p: "advances str next"
  shows "array_loop fl str next f n a i = Done v j \<Longrightarrow> i < j \<and> j \<le> length str"
proof (induction f arbitrary: n a i)
  case (Suc f)
  obtain x k a' m c where k: "next i = Done x k" and m: "k \<le> m" and c: "char_at str m = Some c"
    and r: "(if c = CHR '','' then array_loop fl str next f (n + 1) a' (m + 1)
         else if c = CHR '']'' then Done a' (m + 1)
         else invalid (''ERROR: Array: Expected '' @ quoted '','' @ '' or '' @ quoted '']'' @
                '', found '' @ quoted [c] @ ''.'') m) = Done v j"
    using Suc.prems by (auto simp del: invalid_not_Done dest!: pbind_Done put_index_Done after_ws_Done with_char_Done)
  show ?case
    using r advancesD [OF p k] m char_at_less [OF c] Suc.IH [of "n + 1" a' "m + 1"]
    by (auto split: if_splits)
qed simp

lemma object_loop_Done:
  assumes p: "advances str next"
  shows "object_loop fl str next f a i = Done v j \<Longrightarrow> i < j \<and> j \<le> length str"
proof (induction f arbitrary: a i)
  case (Suc f)
  obtain key k m c where k: "next i = Done key k" and m: "k \<le> m" and c: "char_at str m = Some c"
    and r: "(if c \<noteq> CHR '':'' then
           invalid (''Error: Object: Expected '' @ quoted '':'' @ '', found '' @ quoted [c] @ ''.'') m
         else after_ws str (m + 1) (\<lambda>i.
           pbind (next i) (\<lambda>v i.
             let a = set_key fl (fst (ToString key)) v a in
             after_ws str i (\<lambda>i. with_char str i (\<lambda>c.
               if c = CHR '','' then object_loop fl str next f a (i + 1)
               else if c = CHR ''}'' then Done a (i + 1)
               else invalid (''ERROR: Object: Expected '' @ quoted '','' @ '' or '' @
                      quoted ''}'' @ '', found '' @ quoted [c] @ ''.'') i))))) = Done v j"
    using Suc.prems by (auto simp del: invalid_not_Done dest!: pbind_Done after_ws_Done with_char_Done)
  have "after_ws str (m + 1) (\<lambda>i.
           pbind (next i) (\<lambda>v i.
             let a = set_key fl (fst (ToString key)) v a in
             after_ws str i (\<lambda>i. with_char str i (\<lambda>c.
               if c = CHR '','' then object_loop fl str next f a (i + 1)
               else if c = CHR ''}'' then Done a (i + 1)
               else invalid (''ERROR: Object: Expected '' @ quoted '','' @ '' or '' @
                      quoted ''}'' @ '', found '' @ quoted [c] @ ''.'') i)))) = Done v j"
    using r by (simp split: if_splits)
  then obtain x l l' a' q d where l: "m + 1 \<le> l" "next l = Done x l'" "l' \<le> q" "char_at str q = Some d"
    and s: "(if d = CHR '','' then object_loop fl str next f a' (q + 1)
               else if d = CHR ''}'' then Done a' (q + 1)
               else invalid (''ERROR: Object: Expected '' @ quoted '','' @ '' or '' @
                      quoted ''}'' @ '', found '' @ quoted [d] @ ''.'') q) = Done v j"
    by (auto simp: Let_def simp del: invalid_not_Done dest!: pbind_Done after_ws_Done with_char_Done)
  show ?case
    using s advancesD [OF p k] advancesD [OF p l(2)] l m char_at_less [OF l(4)] Suc.IH [of a' "q + 1"]
    by (auto split: if_splits)
qed simp

lemma parse_next_advances: "advances str (parse_next fl str f)"
proof (induction f)
  case 0
  then show ?case by (simp add: advances_def)
next
  case (Suc f)
  have "i < j \<and> j \<le> length str" if D: "parse_next fl str (Suc f) i = Done v j" for i v j
  proof -
    obtain k c where k: "i \<le> k" "k \<le> length str" and c: "char_at str k = Some c"
      and r: "(if c = CHR ''['' then parse_array fl str (parse_next fl str f) f k
     else if c = CHR ''{'' then parse_object fl str (parse_next fl str f) f k
     else if c = CHR 0x22 then parse_string str k
     else if c = CHR ''t'' \<or> c = CHR ''f'' then parse_bool str k
     else if c = CHR ''n'' then parse_null str k
     else if is_digit c \<or> c = CHR ''-'' then parse_number fl str k
     else invalid (''ERROR: Parse: Unknown starting character '' @ quoted [c] @ ''.'') k) = Done v j"
      using D unfolding parse_next.simps by (blast dest: after_ws_Done with_char_Done)
    have "k < j \<and> j \<le> length str"
      if "parse_array fl str (parse_next fl str f) f k = Done v j"
      using that array_loop_Done [OF Suc.IH] char_at_less
      by (fastforce simp: parse_array_def dest!: after_ws_Done with_char_Done split: if_splits)
    moreover have "k < j \<and> j \<le> length str"
      if "parse_object fl str (parse_next fl str f) f k = Done v j"
      using that object_loop_Done [OF Suc.IH] char_at_less
      by (fastforce simp: parse_object_def dest!: after_ws_Done with_char_Done split: if_splits)
    ultimately have "k < j \<and> j \<le> length str"
      using r parse_string_Done [of str k v j] parse_bool_Done [of str k v j]
        parse_null_Done [of str k v j] parse_number_Done [of fl str k v j, OF _ c]
      by (auto split: if_splits)
    then show ?thesis using k by simp
  qed
  then show ?case by (simp only: advances_def) blast
qed

subsection \<open>Termination\<close>

lemma with_char_Fuel:
  "with_char str i k = Fuel_out \<Longrightarrow> \<exists>c. char_at str i = Some c \<and> k c = Fuel_out"
  by (auto simp: with_char_def split: option.splits)

lemma pbind_Fuel:
  "pbind m k = Fuel_out \<Longrightarrow> m = Fuel_out \<or> (\<exists>x i. m = Done x i \<and> k x i = Fuel_out)"
  by (cases m) auto

lemma after_ws_Fuel:
  "after_ws str i k = Fuel_out \<Longrightarrow> \<exists>i'. i \<le> i' \<and> i' \<le> length str \<and> k i' = Fuel_out"
  by (auto simp: after_ws_def split: option.splits dest!: consume_ws_range)

lemma thrown_at_Fuel: "thrown_at i m k = Fuel_out \<Longrightarrow> \<exists>x. k x = Fuel_out"
  by (auto simp: thrown_at_def split: sum.splits)

lemma put_index_Fuel: "put_index fl n x a k = Fuel_out \<Longrightarrow> \<exists>b. k b = Fuel_out"
  by (auto simp: put_index_def split: sum.splits)

lemma hex_escape_total: "hex_escape str i js val \<noteq> Fuel_out"
  by (induction js arbitrary: val) (auto dest!: with_char_Fuel split: if_splits)

lemma string_loop_total: "string_loop str i val \<noteq> Fuel_out"
proof (induction str i val rule: string_loop.induct)
  case (1 str i val)
  show ?case
  proof
    assume "string_loop str i val = Fuel_out"
    note D = this [unfolded string_loop.simps [of str i val]]
    obtain c where c: "char_at str i = Some c" using D by (blast dest: with_char_Fuel)
    show False
    proof (cases "c = CHR 0x22 \<or> c \<noteq> CHR 0x5C")
      case True
      then show ?thesis using D 1(4) [OF c] c by (auto simp: with_char_def split: if_splits)
    next
      case False
      then have esc: "c \<noteq> CHR 0x22" "c = CHR 0x5C" by auto
      then obtain d where d: "char_at str (i + 1) = Some d"
        and E: "(case unescape d of Some e \<Rightarrow> string_loop str (i + 2) (val @ [e])
          | None \<Rightarrow> if d = CHR ''u'' then
              pbind (hex_escape str (i + 1) [1, 2, 3, 4] (val @ [CHR 0x5C, CHR ''u'']))
                (\<lambda>val j. string_loop str (j + 1) val)
            else string_loop str (i + 2) (val @ [CHR 0x5C])) = Fuel_out"
        using D by (auto simp only: with_char_def c option.case char.inject if_True if_False simp_thms
            dest!: with_char_Fuel split: if_splits option.splits)
      show ?thesis
        using E 1(3) [OF c esc d] 1(2) [OF c esc d] 1(1) [OF c esc d] hex_escape_total
        by (auto simp del: hex_escape.simps dest!: pbind_Fuel split: option.splits if_splits)
    qed
  qed
qed

lemma number_chars_total: "number_chars str i val dbl \<noteq> Fuel_out"
  by (induction str i val dbl rule: number_chars.induct)
    (subst number_chars.simps, auto dest!: with_char_Fuel split: if_splits)

lemma exp_chars_total: "exp_chars str i e \<noteq> Fuel_out"
  by (induction str i e rule: exp_chars.induct)
    (subst exp_chars.simps, auto dest!: with_char_Fuel split: if_splits)

lemma exponent_total: "exponent str i c \<noteq> Fuel_out"
  using exp_chars_total
  by (auto simp: exponent_def dest!: with_char_Fuel pbind_Fuel thrown_at_Fuel split: if_splits)

lemma scalars_total:
  "parse_string str i \<noteq> Fuel_out" "parse_number fl str i \<noteq> Fuel_out"
  "parse_bool str i \<noteq> Fuel_out" "parse_null str i \<noteq> Fuel_out"
  using string_loop_total number_chars_total exponent_total
  by (auto simp: parse_string_def parse_number_def parse_bool_def parse_null_def Let_def
      dest!: pbind_Fuel thrown_at_Fuel split: if_splits)

text \<open>\<open>next\<close> has fuel for every value that starts at or after \<open>i\<close>.\<close>

definition fuelled :: "string \<Rightarrow> (nat \<Rightarrow> 'a pres) \<Rightarrow> nat \<Rightarrow> bool" where
  "fuelled str p i \<longleftrightarrow> (\<forall>j. i \<le> j \<and> j \<le> length str \<longrightarrow> p j \<noteq> Fuel_out)"

lemma fuelled_later: "fuelled str p i \<Longrightarrow> i \<le> j \<Longrightarrow> fuelled str p j"
  by (auto simp: fuelled_def)

lemma array_loop_total:
  assumes p: "advances str next"
  shows "fuelled str next i \<Longrightarrow> i \<le> length str \<Longrightarrow> length str + 1 \<le> f + i \<Longrightarrow>
    array_loop fl str next f n a i \<noteq> Fuel_out"
proof (induction f arbitrary: n a i)
  case (Suc f)
  show ?case
  proof
    assume "array_loop fl str next (Suc f) n a i = Fuel_out"
    then obtain x k b m c where k: "next i = Fuel_out \<or> next i = Done x k" and m: "next i = Done x k \<Longrightarrow> k \<le> m"
      and c: "next i = Done x k \<Longrightarrow> char_at str m = Some c"
      and r: "next i = Done x k \<Longrightarrow> c = CHR '','' \<and> array_loop fl str next f (n + 1) b (m + 1) = Fuel_out"
      by (fastforce dest!: pbind_Fuel put_index_Fuel after_ws_Fuel with_char_Fuel split: if_splits)
    have d: "next i = Done x k" using k Suc.prems by (auto simp: fuelled_def)
    have "i < k" "m < length str" using advancesD [OF p d] char_at_less [OF c [OF d]] r [OF d] by auto
    then have "array_loop fl str next f (n + 1) b (m + 1) \<noteq> Fuel_out"
      using m [OF d] Suc.prems by (intro Suc.IH fuelled_later [OF Suc.prems(1)]) auto
    then show False using r [OF d] by simp
  qed
qed simp

lemma object_loop_total:
  assumes p: "advances str next"
  shows "fuelled str next i \<Longrightarrow> i \<le> length str \<Longrightarrow> length str + 1 \<le> f + i \<Longrightarrow>
    object_loop fl str next f a i \<noteq> Fuel_out"
proof (induction f arbitrary: a i)
  case (Suc f)
  show ?case
  proof
    assume F: "object_loop fl str next (Suc f) a i = Fuel_out"
    have n: "next j \<noteq> Fuel_out" if "i \<le> j" "j \<le> length str" for j
      using Suc.prems(1) that by (simp add: fuelled_def)
    obtain key k m c where k: "next i = Done key k" "k \<le> m" "char_at str m = Some c"
      and r: "(if c \<noteq> CHR '':'' then
           invalid (''Error: Object: Expected '' @ quoted '':'' @ '', found '' @ quoted [c] @ ''.'') m
         else after_ws str (m + 1) (\<lambda>i.
           pbind (next i) (\<lambda>v i.
             let a = set_key fl (fst (ToString key)) v a in
             after_ws str i (\<lambda>i. with_char str i (\<lambda>c.
               if c = CHR '','' then object_loop fl str next f a (i + 1)
               else if c = CHR ''}'' then Done a (i + 1)
               else invalid (''ERROR: Object: Expected '' @ quoted '','' @ '' or '' @
                      quoted ''}'' @ '', found '' @ quoted [c] @ ''.'') i))))) = Fuel_out"
      using F n [of i] Suc.prems(2) by (auto simp del: invalid_not_Done dest!: pbind_Fuel after_ws_Fuel with_char_Fuel)
    have im: "i < m" using advancesD [OF p k(1)] k(2) by simp
    have "after_ws str (m + 1) (\<lambda>i.
           pbind (next i) (\<lambda>v i.
             let a = set_key fl (fst (ToString key)) v a in
             after_ws str i (\<lambda>i. with_char str i (\<lambda>c.
               if c = CHR '','' then object_loop fl str next f a (i + 1)
               else if c = CHR ''}'' then Done a (i + 1)
               else invalid (''ERROR: Object: Expected '' @ quoted '','' @ '' or '' @
                      quoted ''}'' @ '', found '' @ quoted [c] @ ''.'') i)))) = Fuel_out"
      using r by (simp split: if_splits)
    then obtain l x l' q b where l: "m + 1 \<le> l" "l \<le> length str" "next l = Fuel_out \<or> next l = Done x l'"
      and q: "next l = Done x l' \<Longrightarrow> l' \<le> q \<and> char_at str q = Some (CHR '','') \<and>
        object_loop fl str next f b (q + 1) = Fuel_out"
      by (fastforce simp: Let_def dest!: pbind_Fuel after_ws_Fuel with_char_Fuel split: if_splits)
    have d: "next l = Done x l'" using l n [of l] im by auto
    note Q = q [OF d]
    have "q < length str" "i < q"
      using char_at_less [of str q "CHR '',''"] Q l im advancesD [OF p d] by auto
    then have "object_loop fl str next f b (q + 1) \<noteq> Fuel_out"
      using Suc.prems by (intro Suc.IH fuelled_later [OF Suc.prems(1)]) auto
    then show False using Q by simp
  qed
qed simp

lemma parse_next_total: "0 < f \<Longrightarrow> length str + 1 \<le> f + i \<Longrightarrow> parse_next fl str f i \<noteq> Fuel_out"
proof (induction f arbitrary: i)
  case (Suc f)
  have inner: "fuelled str (parse_next fl str f) k" if "i < k" for k
    unfolding fuelled_def
  proof (intro allI impI)
    fix j assume "k \<le> j \<and> j \<le> length str"
    then show "parse_next fl str f j \<noteq> Fuel_out" using that Suc.prems by (intro Suc.IH) auto
  qed
  have fuel: "length str + 1 \<le> f + k" if "i < k" for k using that Suc.prems by simp
  have arr: "parse_array fl str (parse_next fl str f) f k \<noteq> Fuel_out" if "i \<le> k" for k
  proof
    assume "parse_array fl str (parse_next fl str f) f k = Fuel_out"
    then obtain m where "k + 1 \<le> m" "m \<le> length str"
      "array_loop fl str (parse_next fl str f) f 0 (Make fl Array) m = Fuel_out"
      by (auto simp: parse_array_def dest!: after_ws_Fuel with_char_Fuel split: if_splits)
    then show False
      using array_loop_total [OF parse_next_advances inner [of m] _ fuel [of m]] that by simp
  qed
  have obj: "parse_object fl str (parse_next fl str f) f k \<noteq> Fuel_out" if "i \<le> k" for k
  proof
    assume "parse_object fl str (parse_next fl str f) f k = Fuel_out"
    then obtain m where "k + 1 \<le> m" "m \<le> length str"
      "object_loop fl str (parse_next fl str f) f (Make fl Object) m = Fuel_out"
      by (auto simp: parse_object_def dest!: after_ws_Fuel with_char_Fuel split: if_splits)
    then show False
      using object_loop_total [OF parse_next_advances inner [of m] _ fuel [of m]] that by simp
  qed
  show ?case
  proof
    assume "parse_next fl str (Suc f) i = Fuel_out"
    then obtain k c where k: "i \<le> k" and
      r: "(if c = CHR ''['' then parse_array fl str (parse_next fl str f) f k
     else if c = CHR ''{'' then parse_object fl str (parse_next fl str f) f k
     else if c = CHR 0x22 then parse_string str k
     else if c = CHR ''t'' \<or> c = CHR ''f'' then parse_bool str k
     else if c = CHR ''n'' then parse_null str k
     else if is_digit c \<or> c = CHR ''-'' then parse_number fl str k
     else invalid (''ERROR: Parse: Unknown starting character '' @ quoted [c] @ ''.'') k) = Fuel_out"
      unfolding parse_next.simps by (blast dest: after_ws_Fuel with_char_Fuel)
    then show False
      using arr [OF k] obj [OF k] by (simp add: scalars_total split: if_splits)
  qed
qed simp

text \<open>
  C24: \<open>load\<close> terminates on every input. The recursion never exceeds the length of the text, and
  a call ends in one of three ways: the root is the parsed value and the error text is empty, the
  root is untouched and the error text says why, or the parser has read beyond the text.
\<close>

theorem load_terminates:
  "(\<exists>v j. parse_next fl str (load_fuel str) 0 = Done v j \<and> 0 < j \<and> j \<le> length str \<and>
      load fl str root = Inr ([], v)) \<or>
   (\<exists>e i. parse_next fl str (load_fuel str) 0 = Fail e i \<and>
      load fl str root = Inr (error_text str e i, root) \<and> error_text str e i \<noteq> []) \<or>
   (parse_next fl str (load_fuel str) 0 = Undef \<and> load fl str root = Inl Undefined)"
proof -
  have "parse_next fl str (load_fuel str) 0 \<noteq> Fuel_out"
    by (rule parse_next_total) (simp_all add: load_fuel_def)
  moreover have "0 < j \<and> j \<le> length str" if "parse_next fl str (load_fuel str) 0 = Done v j" for v j
    by (rule advancesD [OF parse_next_advances that])
  moreover have "error_text str e i \<noteq> []" for e i
    by (simp add: error_text_def split: prod.split)
  ultimately show ?thesis
    by (cases "parse_next fl str (load_fuel str) 0") (simp_all add: load_def)
qed

end
