(* ===== verification/JsonText.thy ===== *)
theory JsonText
  imports JsonTerm
begin

text \<open>
  The texts of a JSON value: any layout of a document (blanks and comments between the tokens)
  loads to its value, and both printers write such layouts, which gives the round trips. Then
  the behaviours of the code on numbers, unterminated strings and the reported position, and the
  shape of every value the parser builds.
\<close>

subsection \<open>Reading what was written\<close>

text \<open>
  A gap between tokens: blanks, comments to the end of the line, and block comments. The opening
  mark of a block comment is also searched for the closing one, so \<open>/*/\<close> would already be a
  complete comment and is not one of these.
\<close>

inductive gap :: "string \<Rightarrow> bool" where
  "gap []"
| "isspace c \<Longrightarrow> gap w \<Longrightarrow> gap (c # w)"
| "CHR 0x0A \<notin> set b \<Longrightarrow> gap w \<Longrightarrow> gap (CHR ''#'' # b @ CHR 0x0A # w)"
| "CHR 0x0A \<notin> set b \<Longrightarrow> gap w \<Longrightarrow> gap (CHR ''/'' # CHR ''/'' # b @ CHR 0x0A # w)"
| "CHR ''*'' \<notin> set b \<Longrightarrow> take 1 b \<noteq> ''/'' \<Longrightarrow> gap w \<Longrightarrow>
     gap (CHR ''/'' # CHR ''*'' # b @ CHR ''*'' # CHR ''/'' # w)"

definition solid :: "char \<Rightarrow> bool" where
  "solid c \<longleftrightarrow> \<not> isspace c \<and> c \<noteq> CHR ''#'' \<and> c \<noteq> CHR ''/''"

lemma char_at_app [simp]: "char_at (p @ c # s) (length p) = Some c"
  by (simp add: char_at_def)

lemma char_at_app2 [simp]: "char_at (p @ c # d # s) (Suc (length p)) = Some d"
  using char_at_app [of "p @ [c]" d s] by simp

lemma skip_space_app: "\<not> isspace c \<Longrightarrow> skip_space (p @ c # s) (length p) = length p"
  by (subst skip_space.simps) simp

lemma skip_space_step:
  "isspace c \<Longrightarrow> skip_space (p @ c # s) (length p) = skip_space (p @ c # s) (length p + 1)"
  by (subst skip_space.simps) simp

lemma consume_ws_solid: "solid c \<Longrightarrow> consume_ws (p @ c # s) (length p) = Some (length p)"
  by (subst consume_ws.simps) (simp add: solid_def skip_space_app)

lemma consume_ws_space:
  "isspace c \<Longrightarrow> consume_ws (p @ c # s) (length p) = consume_ws (p @ c # s) (length p + 1)"
  by (subst (1 2) consume_ws.simps) (simp add: skip_space_step Let_def)

lemma find_from_first:
  assumes "take (length pat) s = pat" and "s \<noteq> []"
    and "\<And>k. k < length b \<Longrightarrow> take (length pat) (drop k b @ s) \<noteq> pat"
  shows "find_from (p @ b @ s) pat (length p) = Some (length p + length b)"
  unfolding find_from_def find_Some_iff
proof (intro exI [of _ "length b"] conjI allI impI)
  show "length b < length [length p..<length (p @ b @ s)]" using assms(2) by simp
  then show "length p + length b = [length p..<length (p @ b @ s)] ! length b" by simp
  then show "take (length pat) (drop ([length p..<length (p @ b @ s)] ! length b) (p @ b @ s)) = pat"
    using assms(1) by simp
next
  fix j assume "j < length b"
  then show "take (length pat) (drop ([length p..<length (p @ b @ s)] ! j) (p @ b @ s)) \<noteq> pat"
    using assms(2) assms(3) [of j] by simp
qed

lemma find_newline:
  assumes "CHR 0x0A \<notin> set b"
  shows "find_from (p @ b @ CHR 0x0A # s) nl (length p) = Some (length p + length b)"
proof (rule find_from_first)
  fix k assume k: "k < length b"
  then have "b ! k \<noteq> CHR 0x0A" using assms nth_mem by metis
  then show "take (length nl) (drop k b @ CHR 0x0A # s) \<noteq> nl"
    using k by (simp add: nl_def flip: Cons_nth_drop_Suc)
qed (simp_all add: nl_def)

lemma find_comment_end:
  assumes "CHR ''*'' \<notin> set b" and "take 1 b \<noteq> ''/''"
  shows "find_from (p @ (CHR ''/'' # CHR ''*'' # b) @ CHR ''*'' # CHR ''/'' # s) ''*/'' (length p) =
    Some (length p + length (CHR ''/'' # CHR ''*'' # b))"
proof (rule find_from_first)
  fix k assume k: "k < length (CHR ''/'' # CHR ''*'' # b)"
  consider "k = 0" | "k = 1" | j where "k = j + 2" "j < length b"
    using k by (cases k; cases "k - 1") auto
  then show "take (length ''*/'') (drop k (CHR ''/'' # CHR ''*'' # b) @ CHR ''*'' # CHR ''/'' # s) \<noteq> ''*/''"
  proof cases
    case 2
    then show ?thesis using assms(2) by (cases b) auto
  next
    case (3 j)
    have "b ! j \<noteq> CHR ''*''" using assms(1) 3(2) nth_mem by metis
    then show ?thesis using 3 by (simp flip: Cons_nth_drop_Suc)
  qed simp
qed simp_all

lemma gap_consume:
  "gap w \<Longrightarrow> consume_ws (p @ w @ s) (length p) = consume_ws (p @ w @ s) (length p + length w)"
proof (induction w arbitrary: p rule: gap.induct)
  case (2 c w)
  then show ?case using consume_ws_space [of c p "w @ s"] 2(3) [of "p @ [c]"] by simp
next
  case (3 b w)
  have "consume_ws (p @ (CHR ''#'' # b @ CHR 0x0A # w) @ s) (length p) =
      consume_ws (p @ (CHR ''#'' # b @ CHR 0x0A # w) @ s) (length p + length (CHR ''#'' # b) + 1)"
    using find_newline [of "CHR ''#'' # b" p "w @ s"] 3(1)
    by (subst consume_ws.simps) (simp add: skip_space_app isspace_def)
  then show ?case using 3(3) [of "p @ CHR ''#'' # b @ [CHR 0x0A]"] by (simp add: ac_simps)
next
  case (4 b w)
  have "consume_ws (p @ (CHR ''/'' # CHR ''/'' # b @ CHR 0x0A # w) @ s) (length p) =
      consume_ws (p @ (CHR ''/'' # CHR ''/'' # b @ CHR 0x0A # w) @ s)
        (length p + length (CHR ''/'' # CHR ''/'' # b) + 1)"
    using find_newline [of "CHR ''/'' # CHR ''/'' # b" p "w @ s"] 4(1)
    by (subst consume_ws.simps) (simp add: skip_space_app isspace_def)
  then show ?case using 4(3) [of "p @ CHR ''/'' # CHR ''/'' # b @ [CHR 0x0A]"] by (simp add: ac_simps)
next
  case (5 b w)
  have "consume_ws (p @ (CHR ''/'' # CHR ''*'' # b @ CHR ''*'' # CHR ''/'' # w) @ s) (length p) =
      consume_ws (p @ (CHR ''/'' # CHR ''*'' # b @ CHR ''*'' # CHR ''/'' # w) @ s)
        (length p + length (CHR ''/'' # CHR ''*'' # b) + 2)"
    using find_comment_end [OF 5(1,2), of p "w @ s"]
    by (subst consume_ws.simps) (simp add: skip_space_app isspace_def)
  then show ?case using 5(4) [of "p @ CHR ''/'' # CHR ''*'' # b @ [CHR ''*'', CHR ''/'']"] by (simp add: ac_simps)
qed simp

lemma gap_solid:
  assumes "gap w" and "solid c"
  shows "consume_ws (p @ w @ c # s) (length p) = Some (length p + length w)"
  using gap_consume [OF assms(1), of p "c # s"] consume_ws_solid [OF assms(2), of "p @ w" s] by simp

subsection \<open>Strings\<close>

lemma string_loop_escape:
  "string_loop (p @ escape_char c @ s) (length p) val =
     string_loop (p @ escape_char c @ s) (length p + length (escape_char c)) (val @ [c])"
  by (subst string_loop.simps)
    (simp add: escape_char_def with_char_def unescape_def chr_defs)

lemma string_loop_text:
  "string_loop (p @ json_escape t @ CHR 0x22 # s) (length p) val =
     Done (val @ t) (length p + length (json_escape t) + 1)"
proof (induction t arbitrary: p val)
  case Nil
  then show ?case by (subst string_loop.simps) (simp add: json_escape_def with_char_def)
next
  case (Cons c t)
  have e: "json_escape (c # t) = escape_char c @ json_escape t" by (simp add: json_escape_def)
  show ?case
    using string_loop_escape [of p c "json_escape t @ CHR 0x22 # s" val]
      Cons.IH [of "p @ escape_char c" "val @ [c]"]
    by (simp add: e ac_simps)
qed

lemma parse_string_text:
  "parse_string (p @ CHR 0x22 # json_escape t @ CHR 0x22 # s) (length p) =
     Done (JString t) (length p + length (json_escape t) + 2)"
  using string_loop_text [of "p @ [CHR 0x22]" t s "[]"] by (simp add: parse_string_def)

subsection \<open>Integers\<close>

lemma is_digit_char_of: "n < 10 \<Longrightarrow> is_digit (char_of (48 + n :: nat))"
  by (simp add: is_digit_def)

lemma dec_nat_digits: "c \<in> set (dec_nat n) \<Longrightarrow> is_digit c"
proof (induction n rule: dec_nat.induct)
  case (1 n)
  then show ?case
    by (cases "n < 10") (auto simp: dec_nat.simps [of n] intro: is_digit_char_of)
qed

lemma dec_nat_not_Nil [simp]: "dec_nat n \<noteq> []"
  by (simp add: dec_nat.simps [of n])

lemma digits_value_snoc: "digits_value (ds @ [c]) = 10 * digits_value ds + (of_char c - 48)"
  by (simp add: digits_value_def)

lemma digits_value_dec_nat: "digits_value (dec_nat n) = n"
proof (induction n rule: dec_nat.induct)
  case (1 n)
  show ?case
  proof (cases "n < 10")
    case True
    then show ?thesis by (simp add: dec_nat.simps [of n] digits_value_def)
  next
    case False
    then show ?thesis using 1
      by (simp add: dec_nat.simps [of n] digits_value_snoc)
  qed
qed

lemma takeWhile_digits: "(\<And>c. c \<in> set ds \<Longrightarrow> is_digit c) \<Longrightarrow> takeWhile is_digit ds = ds"
  by (simp add: takeWhile_eq_all_conv)

lemma stol_to_string_long: "stol (to_string_long i) = Inr i"
proof -
  have r: "- (2 ^ 63) \<le> sint i" "sint i < 2 ^ 63"
    using sint_range_size [of i] by (simp_all add: word_size)
  have tw: "takeWhile is_digit (dec_nat n) = dec_nat n" for n
    by (rule takeWhile_digits) (rule dec_nat_digits)
  have nodash: "hd (dec_nat n) \<noteq> CHR ''-''" for n
  proof -
    have "is_digit (hd (dec_nat n))" by (rule dec_nat_digits [of _ n]) simp
    then show ?thesis by (auto simp: is_digit_def)
  qed
  show ?thesis
    using r by (cases "sint i < 0")
      (simp_all add: stol_def to_string_long_def tw nodash digits_value_dec_nat long_of_def Let_def)
qed

lemma number_chars_run:
  "(\<And>c. c \<in> set ds \<Longrightarrow> is_digit c \<or> c = CHR ''-'') \<Longrightarrow> str = p @ ds @ s \<Longrightarrow> i = length p \<Longrightarrow>
     char_at str (i + length ds) = Some e \<Longrightarrow> \<not> is_digit e \<Longrightarrow> e \<noteq> CHR ''-'' \<Longrightarrow> e \<noteq> CHR ''.'' \<Longrightarrow>
     number_chars str i val dbl = Done (e, val @ ds, dbl) (i + length ds + 1)"
proof (induction ds arbitrary: p i val)
  case Nil
  then show ?case by (subst number_chars.simps) (simp add: with_char_def)
next
  case (Cons d ds)
  have "number_chars str i val dbl = number_chars str (i + 1) (val @ [d]) dbl"
    using Cons.prems(1) [of d] Cons.prems(2,3)
    by (subst number_chars.simps) (auto simp: with_char_def)
  then show ?case using Cons.IH [of "p @ [d]" "i + 1" "val @ [d]"] Cons.prems by simp
qed

lemma number_chars_digits:
  "(\<And>c. c \<in> set ds \<Longrightarrow> is_digit c \<or> c = CHR ''-'') \<Longrightarrow>
     \<not> is_digit e \<Longrightarrow> e \<noteq> CHR ''-'' \<Longrightarrow> e \<noteq> CHR ''.'' \<Longrightarrow>
     number_chars (p @ ds @ e # s) (length p) val dbl =
       Done (e, val @ ds, dbl) (length p + length ds + 1)"
  using char_at_app [of "p @ ds" e s]
  by (intro number_chars_run [where p = p and s = "e # s"]) auto

lemma to_string_long_chars: "c \<in> set (to_string_long i) \<Longrightarrow> is_digit c \<or> c = CHR ''-''"
  by (auto simp: to_string_long_def dest: dec_nat_digits split: if_splits)

lemma ends_number_other:
  "ends_number e \<Longrightarrow> \<not> is_digit e \<and> e \<notin> {CHR ''-'', CHR ''.'', CHR ''e'', CHR ''E''}"
  by (auto simp: ends_number_def isspace_def is_digit_def)

lemma parse_number_long:
  assumes "ends_number e"
  shows "parse_number fl (p @ to_string_long i @ e # s) (length p) =
    Done (JIntegral i) (length p + length (to_string_long i))"
proof -
  have "number_chars (p @ to_string_long i @ e # s) (length p) [] False =
      Done (e, to_string_long i, False) (length p + length (to_string_long i) + 1)"
    using number_chars_digits [of "to_string_long i" e p s "[]" False] to_string_long_chars
      ends_number_other [OF assms] by auto
  then show ?thesis
    using ends_number_other [OF assms] assms
    by (simp add: parse_number_def exponent_def stol_to_string_long thrown_at_def)
qed

subsection \<open>The texts of a value\<close>

text \<open>
  \<open>jtext v s\<close>: the text \<open>s\<close> is a layout of the value \<open>v\<close>, with any gaps between its tokens. A
  number must be followed by a blank or the next token, since the parser does not accept a comment
  there. The key of a member is kept in its escaped form; of two members with one key the last
  one counts.
\<close>

fun is_number :: "'f json \<Rightarrow> bool" where
  "is_number (JIntegral _) = True"
| "is_number (JFloating _) = True"
| "is_number _ = False"

definition gap_after :: "'f json \<Rightarrow> string \<Rightarrow> bool" where
  "gap_after v w \<longleftrightarrow> gap w \<and> (is_number v \<longrightarrow> w = [] \<or> isspace (hd w))"

inductive jtext :: "'f json \<Rightarrow> string \<Rightarrow> bool"
  and jitems :: "'f json list \<Rightarrow> string \<Rightarrow> bool"
  and jmembers :: "(string \<times> 'f json) list \<Rightarrow> string \<Rightarrow> bool" where
  jt_null: "jtext JNull ''null''"
| jt_true: "jtext (JBoolean True) ''true''"
| jt_false: "jtext (JBoolean False) ''false''"
| jt_string: "jtext (JString t) (CHR 0x22 # json_escape t @ [CHR 0x22])"
| jt_integral: "jtext (JIntegral i) (to_string_long i)"
| jt_gap: "gap w \<Longrightarrow> jtext v s \<Longrightarrow> jtext v (w @ s)"
| jt_empty_array: "gap w \<Longrightarrow> jtext (JArray []) (CHR ''['' # w @ '']'')"
| jt_array: "jitems xs s \<Longrightarrow> length xs < 2 ^ 32 \<Longrightarrow> jtext (JArray xs) (CHR ''['' # s @ '']'')"
| jt_empty_object: "gap w \<Longrightarrow> jtext (JObject []) (CHR ''{'' # w @ ''}'')"
| jt_object: "jmembers ms s \<Longrightarrow>
    jtext (JObject (fold (\<lambda>(k, v). map_insert k v) ms [])) (CHR ''{'' # s @ ''}'')"
| ji_last: "jtext x s \<Longrightarrow> gap_after x w \<Longrightarrow> jitems [x] (s @ w)"
| ji_more: "jtext x s \<Longrightarrow> gap_after x w \<Longrightarrow> jitems xs r \<Longrightarrow> jitems (x # xs) (s @ w @ CHR '','' # r)"
| jm_last: "gap w \<Longrightarrow> gap w' \<Longrightarrow> jtext x s \<Longrightarrow> gap_after x w'' \<Longrightarrow>
    jmembers [(json_escape k, x)]
      (w @ CHR 0x22 # json_escape k @ CHR 0x22 # w' @ CHR '':'' # s @ w'')"
| jm_more: "gap w \<Longrightarrow> gap w' \<Longrightarrow> jtext x s \<Longrightarrow> gap_after x w'' \<Longrightarrow> jmembers ms r \<Longrightarrow>
    jmembers ((json_escape k, x) # ms)
      (w @ CHR 0x22 # json_escape k @ CHR 0x22 # w' @ CHR '':'' # s @ w'' @ CHR '','' # r)"

text \<open>The parser on a text with any surroundings, given the fuel its position needs.\<close>

definition reads :: "'f float_lib \<Rightarrow> 'f json \<Rightarrow> string \<Rightarrow> bool" where
  "reads fl v s \<longleftrightarrow> (\<forall>p u f. (is_number v \<longrightarrow> u \<noteq> [] \<and> ends_number (hd u)) \<longrightarrow>
     length (p @ s @ u) + 1 \<le> f + length p \<longrightarrow>
     parse_next fl (p @ s @ u) f (length p) = Done v (length p + length s))"

lemma readsI:
  assumes "\<And>p u f. (is_number v \<Longrightarrow> u \<noteq> [] \<and> ends_number (hd u)) \<Longrightarrow> length s + length u \<le> f \<Longrightarrow>
     parse_next fl (p @ s @ u) (Suc f) (length p) = Done v (length p + length s)"
  shows "reads fl v s"
  unfolding reads_def
proof (intro allI impI)
  fix p u f
  assume u: "is_number v \<longrightarrow> u \<noteq> [] \<and> ends_number (hd u)" and "length (p @ s @ u) + 1 \<le> f + length p"
  then obtain g where "f = Suc g" "length s + length u \<le> g" by (cases f) auto
  then show "parse_next fl (p @ s @ u) f (length p) = Done v (length p + length s)"
    using assms [of u g p] u by blast
qed

lemma solid_tokens:
  "solid (CHR 0x22)" "solid (CHR ''['')" "solid (CHR '']'')" "solid (CHR ''{'')" "solid (CHR ''}'')"
  "solid (CHR '','')" "solid (CHR '':'')" "solid (CHR ''n'')" "solid (CHR ''t'')" "solid (CHR ''f'')"
  by (simp_all add: solid_def isspace_def)

lemma after_gap:
  "gap w \<Longrightarrow> solid c \<Longrightarrow> str = p @ w @ c # s \<Longrightarrow> i = length p \<Longrightarrow>
    after_ws str i k = k (length p + length w)"
  by (simp add: after_ws_def gap_solid)

lemma with_char_app: "str = p @ c # s \<Longrightarrow> i = length p \<Longrightarrow> with_char str i k = k c"
  by (simp add: with_char_def)

lemma parse_next_at:
  assumes "solid c" and "str = p @ c # s" and "i = length p"
  shows "parse_next fl str (Suc f) i =
    (if c = CHR ''['' then parse_array fl str (parse_next fl str f) f i
     else if c = CHR ''{'' then parse_object fl str (parse_next fl str f) f i
     else if c = CHR 0x22 then parse_string str i
     else if c = CHR ''t'' \<or> c = CHR ''f'' then parse_bool str i
     else if c = CHR ''n'' then parse_null str i
     else if is_digit c \<or> c = CHR ''-'' then parse_number fl str i
     else invalid (''ERROR: Parse: Unknown starting character '' @ quoted [c] @ ''.'') i)"
  unfolding parse_next.simps assms(3)
    after_gap [OF gap.intros(1) assms(1), of str p s "length p", unfolded append_Nil, OF assms(2) refl]
    list.size add_0_right
  by (rule with_char_app [OF assms(2) refl])

lemma reads_null: "reads fl JNull ''null''"
  by (rule readsI) (simp add: parse_next_at [OF solid_tokens(8) _ refl] parse_null_def substr_def
      del: parse_next.simps)

lemma reads_bool: "reads fl (JBoolean True) ''true''" "reads fl (JBoolean False) ''false''"
  by (rule readsI, simp add: parse_next_at [OF solid_tokens(9) _ refl]
      parse_next_at [OF solid_tokens(10) _ refl] parse_bool_def substr_def del: parse_next.simps)+

lemma reads_string: "reads fl (JString t) (CHR 0x22 # json_escape t @ [CHR 0x22])"
proof (rule readsI)
  fix p u f
  show "parse_next fl (p @ (CHR 0x22 # json_escape t @ [CHR 0x22]) @ u) (Suc f) (length p) =
      Done (JString t) (length p + length (CHR 0x22 # json_escape t @ [CHR 0x22]))"
    using parse_string_text [of p t u]
    by (simp add: parse_next_at [OF solid_tokens(1) _ refl] del: parse_next.simps)
qed

lemma reads_integral: "reads fl (JIntegral i) (to_string_long i)"
proof (rule readsI)
  fix p u f
  assume "is_number (JIntegral i) \<Longrightarrow> u \<noteq> [] \<and> ends_number (hd u)"
  then obtain e r where u: "u = e # r" and e: "ends_number e" by (cases u) auto
  obtain c s where cs: "to_string_long i = c # s"
    by (cases "to_string_long i") (auto simp: to_string_long_def split: if_splits)
  have c: "is_digit c \<or> c = CHR ''-''" using to_string_long_chars [of c i] cs by simp
  then have sc: "solid c" by (auto simp: solid_def isspace_def is_digit_def)
  have "c \<notin> {CHR ''['', CHR ''{'', CHR 0x22, CHR ''t'', CHR ''f'', CHR ''n''}"
    using c by (auto simp: is_digit_def)
  then show "parse_next fl (p @ to_string_long i @ u) (Suc f) (length p) =
      Done (JIntegral i) (length p + length (to_string_long i))"
    using parse_number_long [of e fl p i r] e c cs u
    by (simp add: parse_next_at [OF sc _ refl, of _ p "s @ e # r"] del: parse_next.simps)
qed

definition reads_items :: "'f float_lib \<Rightarrow> 'f json list \<Rightarrow> string \<Rightarrow> bool" where
  "reads_items fl xs s \<longleftrightarrow> xs \<noteq> [] \<and> (\<forall>p r f g acc. length acc + length xs < 2 ^ 32 \<longrightarrow>
     length s + length r + 1 < f \<longrightarrow> length s + length r + 1 < g \<longrightarrow>
     array_loop fl (p @ s @ CHR '']'' # r) (parse_next fl (p @ s @ CHR '']'' # r) g) f
       (word_of_nat (length acc)) (JArray acc) (length p) =
     Done (JArray (acc @ xs)) (length p + length s + 1))"

definition reads_members :: "'f float_lib \<Rightarrow> (string \<times> 'f json) list \<Rightarrow> string \<Rightarrow> bool" where
  "reads_members fl ms s \<longleftrightarrow> (\<forall>p r f g m.
     length s + length r + 1 < f \<longrightarrow> length s + length r + 1 < g \<longrightarrow>
     object_loop fl (p @ s @ CHR ''}'' # r) (parse_next fl (p @ s @ CHR ''}'' # r) g) f
       (JObject m) (length p) =
     Done (JObject (fold (\<lambda>(k, v). map_insert k v) ms m)) (length p + length s + 1))"

lemma reads_itemsD:
  assumes "reads_items fl xs s" and "length acc + length xs < 2 ^ 32" and "str = p @ s @ CHR '']'' # r"
    and "i = length p" and "n = word_of_nat (length acc)"
    and "length s + length r + 1 < f" and "length s + length r + 1 < g"
  shows "array_loop fl str (parse_next fl str g) f n (JArray acc) i =
     Done (JArray (acc @ xs)) (i + length s + 1)"
  using assms unfolding reads_items_def by simp

lemma reads_membersD:
  assumes "reads_members fl ms s" and "str = p @ s @ CHR ''}'' # r" and "i = length p"
    and "length s + length r + 1 < f" and "length s + length r + 1 < g"
  shows "object_loop fl str (parse_next fl str g) f (JObject m) i =
     Done (JObject (fold (\<lambda>(k, v). map_insert k v) ms m)) (i + length s + 1)"
  using assms unfolding reads_members_def by simp

lemma readsD:
  assumes "reads fl v s" and "is_number v \<Longrightarrow> u \<noteq> [] \<and> ends_number (hd u)" and "str = p @ s @ u"
    and "i = length p" and "length s + length u < f"
  shows "parse_next fl str f i = Done v (i + length s)"
  using assms unfolding reads_def by simp

lemma reads_gap:
  assumes w: "gap w" and v: "reads fl v s"
  shows "reads fl v (w @ s)"
proof (rule readsI)
  fix p u f
  assume e: "is_number v \<Longrightarrow> u \<noteq> [] \<and> ends_number (hd u)" and f: "length (w @ s) + length u \<le> f"
  let ?str = "p @ (w @ s) @ u"
  have "after_ws ?str (length p) k = after_ws ?str (length p + length w) k" for k :: "nat \<Rightarrow> 'a json pres"
    using gap_consume [OF w, of p "s @ u"] by (simp add: after_ws_def)
  then have "parse_next fl ?str (Suc f) (length p) = parse_next fl ?str (Suc f) (length p + length w)"
    by (simp only: parse_next.simps)
  also have "\<dots> = Done v (length p + length w + length s)"
    by (rule readsD [OF v e, of _ "p @ w"]) (use f in simp_all)
  finally show "parse_next fl ?str (Suc f) (length p) = Done v (length p + length (w @ s))"
    by (simp add: ac_simps)
qed

lemma gap_after_end:
  assumes "gap_after v w" and "is_number v" and "ends_number c"
  shows "ends_number (hd (w @ [c]))"
  using assms by (cases w) (auto simp: gap_after_def ends_number_def)

lemma put_index_next:
  assumes "length acc + 1 < 2 ^ 32"
  shows "put_index fl (word_of_nat (length acc)) x (JArray acc) k = k (JArray (acc @ [x]))"
proof -
  have "unat (word_of_nat (length acc) :: u32) = length acc"
    using assms by (simp add: unat_of_nat)
  moreover have "unat (word_of_nat (length acc) + 1 :: u32) = length acc + 1"
    using assms by (simp add: unat_of_nat unat_word_ariths(1))
  ultimately show ?thesis
    by (simp add: put_index_def set_index_def SetType_def grow_def list_update_append)
qed

lemma item_steps:
  assumes x: "reads fl x s" and w: "gap_after x w" and c: "is_number x \<Longrightarrow> ends_number c" "solid c"
    and str: "str = p @ s @ w @ c # r" and i: "i = length p"
  shows item_value: "length s + length w + length r + 1 < g \<Longrightarrow>
      parse_next fl str g i = Done x (i + length s)"
    and item_sep: "after_ws str (i + length s) (\<lambda>i. with_char str i (k i)) = k (i + length s + length w) c"
proof -
  have hd: "hd (w @ c # r) = hd (w @ [c])" by (cases w) auto
  show "parse_next fl str g i = Done x (i + length s)"
    if "length s + length w + length r + 1 < g"
    by (rule readsD [where p = p and u = "w @ c # r", OF x _ str i])
      (use that gap_after_end [OF w _ c(1)] hd in auto)
  have "gap w" using w by (simp add: gap_after_def)
  then show "after_ws str (i + length s) (\<lambda>i. with_char str i (k i)) = k (i + length s + length w) c"
    using str i
    by (simp add: after_gap [OF _ c(2), of w _ "p @ s" r] with_char_app [of _ "p @ s @ w" c r] ac_simps)
qed

lemma ends_tokens: "ends_number (CHR '','')" "ends_number (CHR '']'')" "ends_number (CHR ''}'')"
  by (simp_all add: ends_number_def)

lemma reads_items_last:
  assumes x: "reads fl x s" and w: "gap_after x w"
  shows "reads_items fl [x] (s @ w)"
  unfolding reads_items_def
proof (intro conjI allI impI)
  fix p r :: string and f g :: nat and acc :: "'a json list"
  assume n: "length acc + length [x] < 2 ^ 32"
    and f: "length (s @ w) + length r + 1 < f" and g: "length (s @ w) + length r + 1 < g"
  let ?str = "p @ (s @ w) @ CHR '']'' # r"
  obtain f' where f': "f = Suc f'" using f by (cases f) auto
  note st = item_steps [OF x w ends_tokens(2) solid_tokens(3), of "p @ s @ w @ CHR '']'' # r" p r, OF refl refl]
  show "array_loop fl ?str (parse_next fl ?str g) f (word_of_nat (length acc)) (JArray acc) (length p) =
      Done (JArray (acc @ [x])) (length p + length (s @ w) + 1)"
    using n g by (simp add: f' st put_index_next del: parse_next.simps)
qed simp

lemma reads_items_more:
  assumes x: "reads fl x s" and w: "gap_after x w" and xs: "reads_items fl xs t"
  shows "reads_items fl (x # xs) (s @ w @ CHR '','' # t)"
  unfolding reads_items_def
proof (intro conjI allI impI)
  fix p r :: string and f g :: nat and acc :: "'a json list"
  assume n: "length acc + length (x # xs) < 2 ^ 32"
    and f: "length (s @ w @ CHR '','' # t) + length r + 1 < f"
    and g: "length (s @ w @ CHR '','' # t) + length r + 1 < g"
  let ?str = "p @ (s @ w @ CHR '','' # t) @ CHR '']'' # r"
  obtain f' where f': "f = Suc f'" using f by (cases f) auto
  note st = item_steps [OF x w ends_tokens(1) solid_tokens(6), of "p @ s @ w @ CHR '','' # t @ CHR '']'' # r" p "t @ CHR '']'' # r", OF refl refl]
  have "array_loop fl ?str (parse_next fl ?str g) f' (word_of_nat (length (acc @ [x])))
      (JArray (acc @ [x])) (length (p @ s @ w @ '','')) =
    Done (JArray ((acc @ [x]) @ xs)) (length (p @ s @ w @ '','') + length t + 1)"
    using n f g f' by (intro reads_itemsD [OF xs, where r = r]) auto
  then show "array_loop fl ?str (parse_next fl ?str g) f (word_of_nat (length acc)) (JArray acc) (length p) =
      Done (JArray (acc @ x # xs)) (length p + length (s @ w @ CHR '','' # t) + 1)"
    using n g by (simp add: f' st put_index_next ac_simps del: parse_next.simps)
qed simp

definition starts :: "string \<Rightarrow> bool" where
  "starts s \<longleftrightarrow> (\<exists>w c r. s = w @ c # r \<and> gap w \<and> solid c \<and> c \<noteq> CHR '']'' \<and> c \<noteq> CHR ''}'')"

lemma starts_append: "starts s \<Longrightarrow> starts (s @ u)"
  unfolding starts_def by (metis append.assoc append_Cons)

lemma gap_append: "gap w \<Longrightarrow> gap u \<Longrightarrow> gap (w @ u)"
proof (induction w rule: gap.induct)
  case (5 b w)
  then show ?case using gap.intros(5) [of b "w @ u"] by simp
qed (auto intro: gap.intros)

lemma starts_gap: "gap w \<Longrightarrow> starts s \<Longrightarrow> starts (w @ s)"
  unfolding starts_def using gap_append by (metis append.assoc)

lemma starts_token: "solid c \<Longrightarrow> c \<noteq> CHR '']'' \<Longrightarrow> c \<noteq> CHR ''}'' \<Longrightarrow> starts (c # r)"
  unfolding starts_def using gap.intros(1) by (metis append_Nil)

lemma starts_integral: "starts (to_string_long i)"
proof -
  obtain c s where cs: "to_string_long i = c # s"
    by (cases "to_string_long i") (auto simp: to_string_long_def split: if_splits)
  have "is_digit c \<or> c = CHR ''-''" using to_string_long_chars [of c i] cs by simp
  then show ?thesis unfolding cs by (intro starts_token) (auto simp: solid_def isspace_def is_digit_def)
qed

text \<open>Skipping the gap before a value first does not change what is parsed there.\<close>

lemma parse_next_same:
  "consume_ws str i = consume_ws str j \<Longrightarrow> 0 < f \<Longrightarrow> parse_next fl str f i = parse_next fl str f j"
  by (cases f) (simp_all add: after_ws_def)

lemma starts_skip:
  assumes "starts s" and "str = p @ s @ r" and "i = length p"
  shows "\<exists>j c. consume_ws str i = Some j \<and> consume_ws str j = Some j \<and> char_at str j = Some c \<and>
    c \<noteq> CHR '']'' \<and> c \<noteq> CHR ''}''"
proof -
  obtain w c t where s: "s = w @ c # t" and w: "gap w" "solid c" "c \<noteq> CHR '']'' \<and> c \<noteq> CHR ''}''"
    using assms(1) unfolding starts_def by blast
  have "consume_ws str i = Some (length (p @ w))"
    using gap_solid [OF w(1,2), of p "t @ r"] assms(2,3) s by simp
  moreover have "consume_ws str (length (p @ w)) = Some (length (p @ w))"
    using consume_ws_solid [OF w(2), of "p @ w" "t @ r"] assms(2) s by simp
  moreover have "char_at str (length (p @ w)) = Some c"
    using char_at_app [of "p @ w" c "t @ r"] assms(2) s by simp
  ultimately show ?thesis using w(3) by blast
qed

lemma after_ws_next:
  assumes "starts s" and "str = p @ s @ r" and "i = length p" and "0 < f"
  shows "after_ws str i (\<lambda>i. pbind (parse_next fl str f i) k) = pbind (parse_next fl str f i) k"
proof -
  obtain j where j: "consume_ws str i = Some j" "consume_ws str j = Some j"
    using starts_skip [OF assms(1-3)] by blast
  then show ?thesis
    using parse_next_same [of str i j f fl] assms(4) by (simp add: after_ws_def)
qed

lemma reads_array:
  assumes xs: "reads_items fl xs s" and st: "starts s" and n: "length xs < 2 ^ 32"
  shows "reads fl (JArray xs) (CHR ''['' # s @ '']'')"
proof (rule readsI)
  fix p u :: string and f
  assume f: "length (CHR ''['' # s @ '']'') + length u \<le> f"
  let ?str = "p @ (CHR ''['' # s @ '']'') @ u" and ?i = "length p + 1"
  obtain j c where j: "consume_ws ?str ?i = Some j" "consume_ws ?str j = Some j"
    "char_at ?str j = Some c" "c \<noteq> CHR '']''"
    using starts_skip [OF st, of ?str "p @ ''[''" "CHR '']'' # u" ?i] by auto
  obtain f' where f': "f = Suc f'" using f by (cases f) auto
  have same: "parse_next fl ?str f j = parse_next fl ?str f ?i"
    using j f by (intro parse_next_same) auto
  have "parse_next fl ?str (Suc f) (length p) = parse_array fl ?str (parse_next fl ?str f) f (length p)"
    by (simp add: parse_next_at [OF solid_tokens(2) _ refl] del: parse_next.simps)
  also have "\<dots> = array_loop fl ?str (parse_next fl ?str f) f 0 (JArray []) j"
    using j by (simp add: parse_array_def after_ws_def with_char_def Make_def SetType_def
        del: parse_next.simps array_loop.simps append.simps append_assoc)
  also have "\<dots> = array_loop fl ?str (parse_next fl ?str f) f 0 (JArray []) ?i"
    unfolding f' array_loop.simps same [unfolded f'] ..
  also have "\<dots> = Done (JArray ([] @ xs)) (?i + length s + 1)"
    using n f by (intro reads_itemsD [OF xs, where p = "p @ ''[''" and r = u]) auto
  finally show "parse_next fl ?str (Suc f) (length p) =
      Done (JArray xs) (length p + length (CHR ''['' # s @ '']''))"
    by simp
qed

lemma reads_object:
  assumes ms: "reads_members fl ms s" and st: "starts s"
  shows "reads fl (JObject (fold (\<lambda>(k, v). map_insert k v) ms [])) (CHR ''{'' # s @ ''}'')"
proof (rule readsI)
  fix p u :: string and f
  assume f: "length (CHR ''{'' # s @ ''}'') + length u \<le> f"
  let ?str = "p @ (CHR ''{'' # s @ ''}'') @ u" and ?i = "length p + 1"
  obtain j c where j: "consume_ws ?str ?i = Some j" "consume_ws ?str j = Some j"
    "char_at ?str j = Some c" "c \<noteq> CHR ''}''"
    using starts_skip [OF st, of ?str "p @ ''{''" "CHR ''}'' # u" ?i] by auto
  obtain f' where f': "f = Suc f'" using f by (cases f) auto
  have same: "parse_next fl ?str f j = parse_next fl ?str f ?i"
    using j f by (intro parse_next_same) auto
  have "parse_next fl ?str (Suc f) (length p) = parse_object fl ?str (parse_next fl ?str f) f (length p)"
    by (simp add: parse_next_at [OF solid_tokens(4) _ refl] del: parse_next.simps)
  also have "\<dots> = object_loop fl ?str (parse_next fl ?str f) f (JObject []) j"
    using j by (simp add: parse_object_def after_ws_def with_char_def Make_def SetType_def
        del: parse_next.simps object_loop.simps append.simps append_assoc)
  also have "\<dots> = object_loop fl ?str (parse_next fl ?str f) f (JObject []) ?i"
    unfolding f' object_loop.simps same [unfolded f'] ..
  also have "\<dots> = Done (JObject (fold (\<lambda>(k, v). map_insert k v) ms [])) (?i + length s + 1)"
    using f by (intro reads_membersD [OF ms, where p = "p @ ''{''" and r = u]) auto
  finally show "parse_next fl ?str (Suc f) (length p) =
      Done (JObject (fold (\<lambda>(k, v). map_insert k v) ms [])) (length p + length (CHR ''{'' # s @ ''}''))"
    by simp
qed

lemma reads_empty_array: "gap w \<Longrightarrow> reads fl (JArray []) (CHR ''['' # w @ '']'')"
proof (rule readsI)
  fix p u :: string and f
  assume w: "gap w"
  show "parse_next fl (p @ (CHR ''['' # w @ '']'') @ u) (Suc f) (length p) =
      Done (JArray []) (length p + length (CHR ''['' # w @ '']''))"
    using gap_solid [OF w solid_tokens(3), of "p @ ''[''" u]
      char_at_app [of "p @ CHR ''['' # w" "CHR '']''" u]
    by (simp add: parse_next_at [OF solid_tokens(2) _ refl] parse_array_def Make_def SetType_def
        after_ws_def with_char_def del: parse_next.simps)
qed

lemma reads_empty_object: "gap w \<Longrightarrow> reads fl (JObject []) (CHR ''{'' # w @ ''}'')"
proof (rule readsI)
  fix p u :: string and f
  assume w: "gap w"
  show "parse_next fl (p @ (CHR ''{'' # w @ ''}'') @ u) (Suc f) (length p) =
      Done (JObject []) (length p + length (CHR ''{'' # w @ ''}''))"
    using gap_solid [OF w solid_tokens(5), of "p @ ''{''" u]
      char_at_app [of "p @ CHR ''{'' # w" "CHR ''}''" u]
    by (simp add: parse_next_at [OF solid_tokens(4) _ refl] parse_object_def Make_def SetType_def
        after_ws_def with_char_def del: parse_next.simps)
qed

text \<open>One member: its key, its colon and its value, up to the separator \<open>c\<close>.\<close>

lemma member_steps:
  assumes w: "gap w" "gap w'" and x: "reads fl x s" "starts s" and w'': "gap_after x w''"
    and c: "ends_number c" "solid c"
    and str: "str = p @ w @ CHR 0x22 # json_escape k @ CHR 0x22 # w' @ CHR '':'' # s @ w'' @ c # r"
    and i: "i = length p"
    and g: "length str < g + i"
  shows "object_loop fl str (parse_next fl str g) (Suc f) (JObject m) i =
    (let j = i + length (w @ CHR 0x22 # json_escape k @ CHR 0x22 # w' @ CHR '':'' # s @ w'');
         a = JObject (map_insert (json_escape k) x m)
     in if c = CHR '','' then object_loop fl str (parse_next fl str g) f a (j + 1)
        else if c = CHR ''}'' then Done a (j + 1)
        else invalid (''ERROR: Object: Expected '' @ quoted '','' @ '' or '' @
               quoted ''}'' @ '', found '' @ quoted [c] @ ''.'') j)"
proof -
  let ?key = "w @ CHR 0x22 # json_escape k @ [CHR 0x22]"
  let ?q = "p @ ?key @ w' @ '':''"
  have key: "reads fl (JString k) ?key" by (rule reads_gap [OF w(1) reads_string])
  have w': "gap_after (JString k) w'" using w(2) by (simp add: gap_after_def)
  have s1: "str = p @ ?key @ w' @ CHR '':'' # (s @ w'' @ c # r)" using str by simp
  have s2: "str = ?q @ s @ w'' @ c # r" using str by simp
  have n: "\<not> is_number (JString k)" by simp
  have k1: "parse_next fl str g i = Done (JString k) (i + length ?key)"
    using item_value [OF key w' _ solid_tokens(7) s1 i, of g] n g i str by simp
  have k2: "after_ws str (i + length ?key) (\<lambda>i. with_char str i (h i)) =
      h (i + length ?key + length w') (CHR '':'')" for h :: "nat \<Rightarrow> char \<Rightarrow> 'a json pres"
    using item_sep [OF key w' _ solid_tokens(7) s1 i] n by simp
  have q: "i + length ?key + length w' + 1 = length ?q" using i by simp
  have v0: "after_ws str (length ?q) (\<lambda>i. pbind (parse_next fl str g i) h) =
      pbind (parse_next fl str g (length ?q)) h" for h :: "'a json \<Rightarrow> nat \<Rightarrow> 'a json pres"
    by (rule after_ws_next [OF x(2), of _ ?q "w'' @ c # r"]) (use s2 g i str in auto)
  have v1: "parse_next fl str g (length ?q) = Done x (length ?q + length s)"
    using item_value [OF x(1) w'' c(1) c(2) s2 refl, of g] g i str by simp
  have v2: "after_ws str (length ?q + length s) (\<lambda>i. with_char str i (h i)) =
      h (length ?q + length s + length w'') c" for h :: "nat \<Rightarrow> char \<Rightarrow> 'a json pres"
    by (rule item_sep [OF x(1) w'' c(1) c(2) s2 refl])
  have j: "length ?q + length s + length w'' =
      i + length (w @ CHR 0x22 # json_escape k @ CHR 0x22 # w' @ CHR '':'' # s @ w'')"
    using i by simp
  have set: "set_key fl (fst (ToString (JString k))) x (JObject m) = JObject (map_insert (json_escape k) x m)"
    by (simp add: set_key_def SetType_def ToString_def)
  show ?thesis
    unfolding object_loop.simps k1 pbind_simps k2 q
    by (simp only: v0 v1 pbind_simps set Let_def v2 j not_not simp_thms if_False)
qed

lemma reads_members_last:
  assumes w: "gap w" "gap w'" and x: "reads fl x s" "starts s" and w'': "gap_after x w''"
  shows "reads_members fl [(json_escape k, x)]
    (w @ CHR 0x22 # json_escape k @ CHR 0x22 # w' @ CHR '':'' # s @ w'')"
  unfolding reads_members_def
proof (intro allI impI)
  fix p r :: string and f g :: nat and m
  let ?t = "w @ CHR 0x22 # json_escape k @ CHR 0x22 # w' @ CHR '':'' # s @ w''"
  assume f: "length ?t + length r + 1 < f" and g: "length ?t + length r + 1 < g"
  obtain f' where f': "f = Suc f'" using f by (cases f) auto
  have str: "p @ ?t @ CHR ''}'' # r =
      p @ w @ CHR 0x22 # json_escape k @ CHR 0x22 # w' @ CHR '':'' # s @ w'' @ CHR ''}'' # r"
    by simp
  show "object_loop fl (p @ ?t @ CHR ''}'' # r) (parse_next fl (p @ ?t @ CHR ''}'' # r) g) f
      (JObject m) (length p) =
    Done (JObject (fold (\<lambda>(k, v). map_insert k v) [(json_escape k, x)] m)) (length p + length ?t + 1)"
    unfolding f' using g
    by (subst member_steps [OF w x w'' ends_tokens(3) solid_tokens(5) str refl])
      (simp_all add: Let_def)
qed

lemma reads_members_more:
  assumes w: "gap w" "gap w'" and x: "reads fl x s" "starts s" and w'': "gap_after x w''"
    and ms: "reads_members fl ms t"
  shows "reads_members fl ((json_escape k, x) # ms)
    (w @ CHR 0x22 # json_escape k @ CHR 0x22 # w' @ CHR '':'' # s @ w'' @ CHR '','' # t)"
  unfolding reads_members_def
proof (intro allI impI)
  fix p r :: string and f g :: nat and m
  let ?u = "w @ CHR 0x22 # json_escape k @ CHR 0x22 # w' @ CHR '':'' # s @ w''"
  let ?t = "w @ CHR 0x22 # json_escape k @ CHR 0x22 # w' @ CHR '':'' # s @ w'' @ CHR '','' # t"
  let ?str = "p @ ?t @ CHR ''}'' # r" and ?m = "map_insert (json_escape k) x m"
  assume f: "length ?t + length r + 1 < f" and g: "length ?t + length r + 1 < g"
  obtain f' where f': "f = Suc f'" using f by (cases f) auto
  have str: "?str = p @ w @ CHR 0x22 # json_escape k @ CHR 0x22 # w' @ CHR '':'' # s @ w'' @ CHR '','' #
      (t @ CHR ''}'' # r)"
    by simp
  have "object_loop fl ?str (parse_next fl ?str g) f (JObject m) (length p) =
      object_loop fl ?str (parse_next fl ?str g) f' (JObject ?m) (length p + length ?u + 1)"
    unfolding f' using g
    by (subst member_steps [OF w x w'' ends_tokens(1) solid_tokens(6) str refl])
      (simp_all add: Let_def)
  also have "\<dots> = Done (JObject (fold (\<lambda>(k, v). map_insert k v) ms ?m)) (length p + length ?u + 1 + length t + 1)"
    using f g f' by (intro reads_membersD [OF ms, where p = "p @ ?u @ '',''" and r = r]) auto
  finally show "object_loop fl ?str (parse_next fl ?str g) f (JObject m) (length p) =
      Done (JObject (fold (\<lambda>(k, v). map_insert k v) ((json_escape k, x) # ms) m)) (length p + length ?t + 1)"
    by (simp add: ac_simps)
qed

lemma texts_are_read:
  shows text_is_read: "jtext v s \<Longrightarrow> reads fl v s \<and> starts s"
    and "jitems xs s' \<Longrightarrow> reads_items fl xs s' \<and> starts s'"
    and "jmembers ms s'' \<Longrightarrow> reads_members fl ms s'' \<and> starts s''"
proof (induction rule: jtext_jitems_jmembers.inducts)
qed (simp_all add: reads_null reads_bool reads_string reads_integral reads_gap reads_empty_array
    reads_array reads_empty_object reads_object reads_items_last reads_items_more
    reads_members_last reads_members_more starts_gap starts_append starts_integral starts_token
    solid_tokens)

text \<open>A library of doubles without any, for documents that hold none.\<close>

definition no_floats :: "unit float_lib" where
  "no_floats = \<lparr>fl_stod = (\<lambda>_. Inr ()), fl_of_long = (\<lambda>_. ()), fl_pow10 = (\<lambda>_. ()),
     fl_mul = (\<lambda>_ _. ()), fl_to_string = (\<lambda>_. ''0.000000''), fl_zero = ()\<rparr>"

lemma load_text:
  assumes "jtext v s" and "\<not> is_number v"
  shows "load fl s root = Inr ([], v)"
proof -
  have "reads fl v s" using text_is_read assms(1) by blast
  then have "parse_next fl s (load_fuel s) 0 = Done v (length s)"
    using readsD [of fl v s "[]" s "[]" 0 "load_fuel s"] assms(2) by (simp add: load_fuel_def)
  then show ?thesis by (simp add: load_def)
qed

text \<open>
  C26: every layout of a document loads to its value. Whatever blanks, line comments and block
  comments stand between the tokens, in whatever order and however often the members of an object
  are given, \<open>load\<close> returns the value with an empty error text. The layouts (\<open>jtext\<close>) are of values
  without doubles, with strings in the escapes the printers use and integers in their shortest
  form; arrays have fewer than \<open>2 ^ 32\<close> elements, a block comment holds no \<open>*\<close> of its own and does not begin with \<open>/\<close>, no
  comment directly follows a number, the document ends with its value and is not a bare number.
\<close>

theorem load_reads_every_layout:
  assumes "jtext v s" and "\<not> is_number v"
  shows "load fl s root = Inr ([], v)"
  by (rule load_text [OF assms])

subsection \<open>The printers write layouts\<close>

lemma map_insert_last:
  "(\<And>k'. k' \<in> fst ` set m \<Longrightarrow> key_less k' k) \<Longrightarrow> map_insert k x m = m @ [(k, x)]"
proof (induction m)
  case (Cons p m)
  obtain k' y where p: "p = (k', y)" by force
  have "key_less k' k" using Cons.prems [of k'] p by simp
  then show ?case
    using p Cons key_less_asym key_less_irrefl by (auto simp: image_iff)
qed simp

lemma fold_map_insert_sorted:
  "sorted_wrt key_less (map fst (m @ ms)) \<Longrightarrow> fold (\<lambda>(k, v). map_insert k v) ms m = m @ ms"
proof (induction ms arbitrary: m)
  case (Cons p ms)
  obtain k x where p: "p = (k, x)" by force
  have "map_insert k x m = m @ [(k, x)]"
    using Cons.prems p by (intro map_insert_last) (auto simp: sorted_wrt_append)
  then show ?case using Cons.IH [of "m @ [(k, x)]"] Cons.prems p by simp
qed simp

definition blank :: "string \<Rightarrow> bool" where
  "blank w \<longleftrightarrow> list_all isspace w"

lemma blank_simps [simp]:
  "blank []" "blank (c # w) = (isspace c \<and> blank w)" "blank (v @ w) = (blank v \<and> blank w)"
  by (auto simp: blank_def)

lemma blank_concat [simp]: "blank tab \<Longrightarrow> blank (concat (replicate d tab))"
  by (induction d) simp_all

lemma blank_nl [simp]: "blank nl" "isspace (CHR '' '')"
  by (simp_all add: nl_def isspace_def)

lemma blank_gap: "blank w \<Longrightarrow> gap w"
  by (induction w) (auto intro: gap.intros)

lemma blank_gap_after: "blank w \<Longrightarrow> gap_after v w"
  by (cases w) (auto simp: gap_after_def intro: blank_gap)

text \<open>
  The values whose printed form can be read back: no doubles (\<open>to_string\<close> keeps six decimals),
  keys in escaped form and in the order of the map, arrays an \<open>unsigned\<close> can index.
\<close>

fun loadable :: "'f json \<Rightarrow> bool" where
  "loadable (JObject m) =
     (sorted_wrt key_less (map fst m) \<and>
      (\<forall>p\<in>set m. fst p \<in> range json_escape \<and> loadable (snd p)))"
| "loadable (JArray xs) = (length xs < 2 ^ 32 \<and> (\<forall>x\<in>set xs. loadable x))"
| "loadable (JFloating _) = False"
| "loadable _ = True"

lemma jitems_gap:
  assumes "jitems xs s" and w: "gap w"
  shows "jitems xs (w @ s)"
  using assms(1)
proof (cases rule: jitems.cases)
  case (ji_last x t v)
  then show ?thesis
    using jtext_jitems_jmembers.ji_last [OF jt_gap [OF w ji_last(3)] ji_last(4)] by simp
next
  case (ji_more x t v ys r)
  then show ?thesis
    using jtext_jitems_jmembers.ji_more [OF jt_gap [OF w ji_more(3)] ji_more(4,5)] by simp
qed

lemma jmembers_gap:
  assumes "jmembers ms s" and v: "gap v"
  shows "jmembers ms (v @ s)"
  using assms(1)
proof (cases rule: jmembers.cases)
  case (jm_last w w' x t w'' k)
  then show ?thesis
    using jtext_jitems_jmembers.jm_last [OF gap_append [OF v jm_last(3)] jm_last(4,5,6), of k] by simp
next
  case (jm_more w w' x t w'' ns r k)
  then show ?thesis
    using jtext_jitems_jmembers.jm_more [OF gap_append [OF v jm_more(3)] jm_more(4,5,6,7), of k] by simp
qed

lemma jitems_join:
  assumes "xs \<noteq> []" and "\<And>x. x \<in> set xs \<Longrightarrow> jtext x (f x)" and "blank u" "blank w"
  shows "jitems xs (sep_join (CHR '','' # u) (map f xs) @ w)"
  using assms(1,2)
proof (induction xs rule: induct_list012)
  case (2 x)
  then show ?case using ji_last [OF _ blank_gap_after [OF assms(4)]] by simp
next
  case (3 x y zs)
  have "jitems (y # zs) (u @ sep_join (CHR '','' # u) (map f (y # zs)) @ w)"
    by (rule jitems_gap [OF _ blank_gap [OF assms(3)]]) (use 3 in simp)
  then show ?case using ji_more [of x "f x" "[]" "y # zs"] 3(4) blank_gap_after [of "[]" x] by simp
qed simp

lemma jmembers_join:
  assumes "ms \<noteq> []" and "\<And>p. p \<in> set ms \<Longrightarrow> fst p \<in> range json_escape \<and> jtext (snd p) (f (snd p))"
    and "blank pre" "blank sp" "blank sp'" "blank u" "blank w"
  shows "jmembers ms (sep_join (CHR '','' # u)
    (map (\<lambda>(k, v). pre @ CHR 0x22 # k @ CHR 0x22 # sp @ CHR '':'' # sp' @ f v) ms) @ w)"
  using assms(1,2)
proof (induction ms rule: induct_list012)
  case (2 p)
  obtain k v where p: "p = (json_escape k, v)" "jtext v (f v)" using 2(2) [of p] by (cases p) auto
  show ?case
    using jm_last [OF blank_gap blank_gap jt_gap [OF blank_gap] blank_gap_after, of pre sp sp' v "f v" w k] p assms
    by simp
next
  case (3 p q zs)
  obtain k v where p: "p = (json_escape k, v)" "jtext v (f v)" using 3(4) [of p] by (cases p) auto
  have "jmembers (q # zs) (u @ sep_join (CHR '','' # u)
    (map (\<lambda>(k, v). pre @ CHR 0x22 # k @ CHR 0x22 # sp @ CHR '':'' # sp' @ f v) (q # zs)) @ w)"
    by (rule jmembers_gap [OF _ blank_gap [OF assms(6)]]) (use 3 in simp)
  then show ?case
    using jm_more [OF blank_gap blank_gap jt_gap [OF blank_gap] blank_gap_after, of pre sp sp' v "f v" "[]" "q # zs" _ k]
      p assms by simp
qed simp

lemma jtext_members:
  assumes "jmembers m s" and "sorted_wrt key_less (map fst m)"
  shows "jtext (JObject m) (CHR ''{'' # s @ ''}'')"
  using jt_object [OF assms(1)] fold_map_insert_sorted [of "[]" m] assms(2) by simp

lemma dumpFast_jtext: "loadable v \<Longrightarrow> jtext v (dumpFast fl v)"
proof (induction fl v rule: dumpFast.induct)
  case (2 fl m)
  show ?case
  proof (cases "m = []")
    case True
    then show ?thesis using jt_empty_object [OF gap.intros(1)] by simp
  next
    case False
    have v: "jtext (snd p) (dumpFast fl (snd p))" if "p \<in> set m" for p
      using 2 that by (cases p) auto
    have "jmembers m (sep_join (CHR '','' # []) (map (\<lambda>(k, v).
        [] @ CHR 0x22 # k @ CHR 0x22 # [] @ CHR '':'' # [] @ dumpFast fl v) m) @ [])"
      using 2(2) v by (intro jmembers_join [OF False]) auto
    then show ?thesis using jtext_members 2(2) by fastforce
  qed
next
  case (3 fl xs)
  show ?case
  proof (cases "xs = []")
    case True
    then show ?thesis using jt_empty_array [OF gap.intros(1)] by simp
  next
    case False
    have "jitems xs (sep_join (CHR '','' # []) (map (dumpFast fl) xs) @ [])"
      using 3 by (intro jitems_join [OF False]) auto
    then show ?thesis using jt_array 3(2) by fastforce
  qed
qed (auto intro: jtext_jitems_jmembers.intros)

lemma dumpStyle_jtext:
  "blank tab \<Longrightarrow> loadable v \<Longrightarrow> jtext v (dumpStyle fl d tab v)"
proof (induction fl d tab v rule: dumpStyle.induct)
  case (2 fl d tab m)
  let ?pad = "concat (replicate d tab)"
  have lead: "gap (if d = 0 then [] else nl @ ?pad)" using 2(2) by (simp add: blank_gap)
  have "jtext (JObject m) (CHR ''{'' # (nl @ sep_join (CHR '','' # nl) (map (\<lambda>(k, v).
        (?pad @ tab) @ CHR 0x22 # k @ CHR 0x22 # '' '' @ CHR '':'' # '' '' @ dumpStyle fl (d + 1) tab v) m) @
        (nl @ ?pad)) @ ''}'')"
  proof (cases "m = []")
    case True
    then show ?thesis using jt_empty_object [OF blank_gap, of "nl @ nl @ ?pad"] 2(2) by simp
  next
    case False
    have v: "jtext (snd p) (dumpStyle fl (d + 1) tab (snd p))" if "p \<in> set m" for p
      using 2 that by (cases p) auto
    show ?thesis
      using 2(2,3) v by (intro jtext_members jmembers_gap blank_gap jmembers_join [OF False]) auto
  qed
  from jt_gap [OF lead this] show ?case by (simp add: Let_def split: if_splits)
next
  case (3 fl d tab xs)
  let ?pad = "concat (replicate d tab)"
  have "jtext (JArray xs) (CHR ''['' # (nl @ sep_join (CHR '','' # nl)
      (map (\<lambda>v. ?pad @ tab @ dumpStyle fl (d + 1) tab v) xs) @ (nl @ ?pad)) @ '']'')"
  proof (cases "xs = []")
    case True
    then show ?thesis using jt_empty_array [OF blank_gap, of "nl @ nl @ ?pad"] 3(2) by simp
  next
    case False
    have v: "jtext x (?pad @ tab @ dumpStyle fl (d + 1) tab x)" if "x \<in> set xs" for x
      using jt_gap [OF blank_gap, of "?pad @ tab" x] 3 that by simp
    have "jitems xs (nl @ sep_join (CHR '','' # nl)
      (map (\<lambda>v. ?pad @ tab @ dumpStyle fl (d + 1) tab v) xs) @ (nl @ ?pad))"
      using 3(2) by (intro jitems_gap blank_gap jitems_join [OF False] v) simp_all
    then show ?thesis using 3(3) by (intro jt_array) simp_all
  qed
  from jt_gap [OF blank_gap this, of "nl @ ?pad"] 3(2) show ?case by (simp add: Let_def)
qed (auto intro: jtext_jitems_jmembers.intros)

text \<open>
  C7: what the printers write, the parser reads. For every value without doubles whose keys are
  in escaped form, other than a bare number (which does not load, \<open>bare_number_rejected\<close>), the
  compact output and the indented one (with any blanks as the tab and any starting depth) load to
  that value.
\<close>

theorem json_roundtrip:
  assumes "loadable v" and "\<not> is_number v" and "blank tab"
  shows "load fl (dumpFast fl v) root = Inr ([], v) \<and> load fl (dumpStyle fl d tab v) root = Inr ([], v)"
  using assms dumpFast_jtext dumpStyle_jtext by (blast intro: load_text)

lemma plain_key: "json_escape k = k \<Longrightarrow> k \<in> range json_escape"
  by (metis rangeI)

lemma json_roundtrip_witness:
  "load no_floats (dumpStyle no_floats 0 [CHR 0x09]
     (JObject [(''a'', JArray [JIntegral 5, JBoolean True, JNull]), (''b'', JString ''x'')])) JNull =
   Inr ([], JObject [(''a'', JArray [JIntegral 5, JBoolean True, JNull]), (''b'', JString ''x'')])"
  using json_roundtrip [of "JObject [(''a'', JArray [JIntegral 5, JBoolean True, JNull]), (''b'', JString ''x'')]"
      "[CHR 0x09]" no_floats JNull 0]
    plain_key [of "''a''"] plain_key [of "''b''"]
  by (simp add: isspace_def json_escape_def escape_char_def chr_defs)

lemma load_reads_every_layout_witness:
  "load no_floats (''[ // five'' @ nl @ ''5 , 6 ]'') JNull = Inr ([], JArray [JIntegral 5, JIntegral 6])"
proof -
  have n: "to_string_long 5 = ''5''" "to_string_long 6 = ''6''"
    by code_simp+
  have g: "gap ('' // five'' @ nl)"
    using gap.intros(2) [of "CHR '' ''" "''// five'' @ nl"] gap.intros(4) [of "'' five''" "[]"] gap.intros(1)
    by (simp add: nl_def isspace_def)
  have "jitems [JIntegral 6] ('' '' @ ''6'' @ '' '')"
    using ji_last [OF jt_gap [OF blank_gap jt_integral] blank_gap_after, of "'' ''" "'' ''" 6] n by simp
  then have "jitems [JIntegral 5, JIntegral 6] (('' // five'' @ nl @ ''5'') @ '' '' @ CHR '','' # '' 6 '')"
    using ji_more [OF jt_gap [OF g jt_integral] blank_gap_after, of "'' ''" _ _ 5] n by simp
  then have "jtext (JArray [JIntegral 5, JIntegral 6] :: unit json) (''[ // five'' @ nl @ ''5 , 6 ]'')"
    using jt_array by fastforce
  from load_reads_every_layout [OF this, of no_floats JNull] show ?thesis by simp
qed

text \<open>The compact printer with the parser is an encoder with its decoder.\<close>

definition json_enc :: "'f float_lib \<Rightarrow> 'f json \<Rightarrow> string result" where
  "json_enc fl v = Inr (dumpFast fl v)"

definition json_dec :: "'f float_lib \<Rightarrow> string \<Rightarrow> 'f json result" where
  "json_dec fl s = and_then (load fl s JNull) (\<lambda>(err, v).
     if err = [] then Inr v else Inl (Throws (Std_runtime_error err)))"

interpretation json_codec:
  byte_codec "\<lambda>v. loadable v \<and> \<not> is_number v" "json_enc fl" "json_dec fl" for fl
  by unfold_locales
    (auto simp: json_enc_def json_dec_def load_text [OF dumpFast_jtext])

text \<open>Two such values never print alike.\<close>

lemma dumpFast_inj:
  "loadable v \<Longrightarrow> \<not> is_number v \<Longrightarrow> loadable w \<Longrightarrow> \<not> is_number w \<Longrightarrow>
     dumpFast fl v = dumpFast fl w \<Longrightarrow> v = w"
  using json_codec.enc_inj [of v w fl] by (simp add: json_enc_def)

subsection \<open>Numbers, unterminated strings and the reported position\<close>

lemma stol_dec_nat: "n < 2 ^ 63 \<Longrightarrow> stol (dec_nat n) = Inr (word_of_nat n)"
proof -
  assume n: "n < 2 ^ 63"
  have "is_digit (hd (dec_nat n))" by (rule dec_nat_digits [of _ n]) simp
  then have "hd (dec_nat n) \<noteq> CHR ''-''" by (auto simp: is_digit_def)
  moreover have tw: "takeWhile is_digit (dec_nat n) = dec_nat n"
    by (rule takeWhile_digits) (rule dec_nat_digits)
  moreover have "int n < 2 ^ 63" using n by simp
  ultimately show ?thesis by (simp add: stol_def digits_value_dec_nat long_of_def Let_def tw del: takeWhile_eq_all_conv)
qed

lemma exp_chars_run:
  "(\<And>c. c \<in> set ds \<Longrightarrow> is_digit c) \<Longrightarrow> ends_number e \<Longrightarrow>
     exp_chars (p @ ds @ e # s) (length p) val = Done (val @ ds) (length p + length ds + 1)"
proof (induction ds arbitrary: p val)
  case Nil
  then show ?case using ends_number_other [of e] by (subst exp_chars.simps) (simp add: with_char_def)
next
  case (Cons d ds)
  have "exp_chars (p @ (d # ds) @ e # s) (length p) val =
      exp_chars (p @ (d # ds) @ e # s) (length p + 1) (val @ [d])"
    using Cons.prems(1) [of d] by (subst exp_chars.simps) (auto simp: with_char_def)
  then show ?case using Cons.IH [of "p @ [d]" "val @ [d]"] Cons.prems by simp
qed

lemma parse_number_exponent:
  assumes d: "d \<noteq> CHR ''-''" and n: "n < 2 ^ 63" and c: "c = CHR ''e'' \<or> c = CHR ''E''" and e: "ends_number e"
  shows "parse_number fl (p @ (to_string_long i @ c # d # dec_nat n) @ e # s) (length p) =
    Done (JFloating (fl_mul fl (fl_of_long fl i) (fl_pow10 fl (word_of_nat n))))
      (length p + length (to_string_long i @ c # d # dec_nat n))"
proof -
  let ?m = "to_string_long i"
  let ?str = "p @ (?m @ c # d # dec_nat n) @ e # s"
  have a: "number_chars ?str (length p) [] False = Done (c, ?m, False) (length p + length ?m + 1)"
    using number_chars_digits [of ?m c p "d # dec_nat n @ e # s" "[]" False] to_string_long_chars c
    by (auto simp: is_digit_def)
  have x: "exp_chars ?str (length p + length ?m + 2) [] =
      Done (dec_nat n) (length p + length ?m + 2 + length (dec_nat n) + 1)"
    using exp_chars_run [of "dec_nat n" e "p @ ?m @ [c, d]" s "[]"] dec_nat_digits [of _ n] e by simp
  have h: "char_at ?str (length p + length ?m + 1) = Some d"
    using char_at_app [of "p @ ?m @ [c]" d "dec_nat n @ e # s"] by simp
  have E: "exponent ?str (length p + length ?m + 1) c =
      Done (dec_nat n, word_of_nat n) (length p + length ?m + 2 + length (dec_nat n) + 1)"
  proof -
    have "(c = CHR ''E'' \<or> c = CHR ''e'') = True" using c by auto
    then show ?thesis
      using d x h by (simp add: exponent_def with_char_def stol_dec_nat [OF n] thrown_at_def)
  qed
  show ?thesis
    unfolding parse_number_def a pbind_simps prod.case E
    by (simp add: stol_to_string_long thrown_at_def)
qed

text \<open>
  the parser drops the first digit of an exponent. Whatever character follows the \<open>e\<close>, the
  digits after it are taken as the exponent: an array with the number \<open>1e25\<close> loads as one
  holding \<open>1e5\<close>.
\<close>

theorem exponent_loses_first_digit:
  assumes "d \<noteq> CHR ''-''" and "n < 2 ^ 63"
  shows "load fl (''['' @ to_string_long i @ CHR ''e'' # d # dec_nat n @ '']'') root =
    Inr ([], JArray [JFloating (fl_mul fl (fl_of_long fl i) (fl_pow10 fl (word_of_nat n)))])"
proof -
  let ?x = "JFloating (fl_mul fl (fl_of_long fl i) (fl_pow10 fl (word_of_nat n)))"
  let ?t = "to_string_long i @ CHR ''e'' # d # dec_nat n"
  have "reads fl ?x ?t"
  proof (rule readsI)
    fix p u f
    assume "is_number ?x \<Longrightarrow> u \<noteq> [] \<and> ends_number (hd u)"
    then obtain e r where u: "u = e # r" and e: "ends_number e" by (cases u) auto
    obtain c s where cs: "to_string_long i = c # s"
      by (cases "to_string_long i") (auto simp: to_string_long_def split: if_splits)
    have c: "is_digit c \<or> c = CHR ''-''" using to_string_long_chars [of c i] cs by simp
    then have sc: "solid c" by (auto simp: solid_def isspace_def is_digit_def)
    have nc: "c \<notin> {CHR ''['', CHR ''{'', CHR 0x22, CHR ''t'', CHR ''f'', CHR ''n''}"
      using c by (auto simp: is_digit_def)
    have "parse_next fl (p @ ?t @ u) (Suc f) (length p) = parse_number fl (p @ ?t @ u) (length p)"
      using c nc cs
      by (simp add: parse_next_at [OF sc _ refl, of _ p "s @ CHR ''e'' # d # dec_nat n @ u"] del: parse_next.simps)
    then show "parse_next fl (p @ ?t @ u) (Suc f) (length p) = Done ?x (length p + length ?t)"
      using parse_number_exponent [OF assms disjI1 [OF refl] e, of fl p i r] u by simp
  qed
  then have "reads_items fl [?x] (?t @ [])"
    by (rule reads_items_last) (simp add: gap_after_def gap.intros)
  moreover have "starts (?t @ [])" by (intro starts_append starts_integral)
  ultimately have "reads fl (JArray [?x]) (CHR ''['' # (?t @ []) @ '']'')"
    by (rule reads_array) simp
  note doc = this
  let ?doc = "''['' @ ?t @ '']''"
  have "parse_next fl ?doc (load_fuel ?doc) 0 = Done (JArray [?x]) (0 + length (CHR ''['' # (?t @ []) @ '']''))"
    by (rule readsD [OF doc, where p = "[]" and u = "[]"]) (simp_all add: load_fuel_def)
  then have "load fl ?doc root = Inr ([], JArray [?x])" by (simp only: load_def pres.case)
  then show ?thesis by simp
qed

lemma exponent_loses_first_digit_witness:
  "load no_floats (''['' @ to_string_long 1 @ CHR ''e'' # CHR ''2'' # dec_nat 5 @ '']'') JNull =
     Inr ([], JArray [JFloating ()])"
  using exponent_loses_first_digit [of "CHR ''2''" 5 no_floats 1 JNull] by (simp add: no_floats_def)

text \<open>
  A bare number is not a document. The loop of \<open>parse_number\<close> wants a blank, a comma or a
  bracket after a number, so the printed form of an integer does not load: the root stays as it
  was and the error text is not empty.
\<close>

theorem bare_number_rejected:
  "\<exists>err. load fl (dumpFast fl (JIntegral i)) root = Inr (err, root) \<and> err \<noteq> []"
proof -
  let ?m = "to_string_long i"
  have n: "number_chars ?m 0 [] False = Done (CHR 0x00, ?m, False) (length ?m + 1)"
    using number_chars_run [where ds = ?m and p = "[]" and s = "[]" and str = ?m and i = 0
        and e = "CHR 0x00" and val = "[]" and dbl = False] to_string_long_chars
    by (auto simp: char_at_def is_digit_def)
  obtain c s where cs: "?m = c # s"
    by (cases ?m) (auto simp: to_string_long_def split: if_splits)
  have c: "is_digit c \<or> c = CHR ''-''" using to_string_long_chars [of c i] cs by simp
  then have sc: "solid c" by (auto simp: solid_def isspace_def is_digit_def)
  have nc: "c \<notin> {CHR ''['', CHR ''{'', CHR 0x22, CHR ''t'', CHR ''f'', CHR ''n''}"
    using c by (auto simp: is_digit_def)
  have "parse_next fl ?m (Suc f) 0 = parse_number fl ?m 0" for f
    using parse_next_at [OF sc, of ?m "[]" s 0 fl f] c nc cs by auto
  moreover have "\<exists>msg. parse_number fl ?m 0 = Fail (Std_invalid_argument msg) (length ?m + 1)"
    by (simp add: parse_number_def n exponent_def ends_number_def isspace_def invalid_def)
  ultimately obtain msg where "parse_next fl ?m (load_fuel ?m) 0 = Fail (Std_invalid_argument msg) (length ?m + 1)"
    by (auto simp: load_fuel_def simp del: parse_next.simps)
  then show ?thesis by (simp add: load_def error_text_def split: prod.split)
qed

lemma string_loop_open:
  "CHR 0x22 \<notin> set t \<Longrightarrow> CHR 0x5C \<notin> set t \<Longrightarrow> string_loop (p @ t) (length p) val = Undef"
proof (induction t arbitrary: p val)
  case Nil
  have "string_loop p (length p + 1) v = Undef" for v
    by (subst string_loop.simps) (simp add: with_char_def char_at_def)
  then show ?case by (subst string_loop.simps) (simp add: with_char_def char_at_def)
next
  case (Cons c t)
  have "string_loop (p @ c # t) (length p) val = string_loop (p @ c # t) (length p + 1) (val @ [c])"
    using Cons.prems by (subst string_loop.simps) (auto simp: with_char_def)
  then show ?case using Cons.IH [of "p @ [c]" "val @ [c]"] Cons.prems by simp
qed

text \<open>
  an unterminated string runs off the text. When the closing quote is missing the loop of
  \<open>parse_string\<close> takes the terminating NUL for a character of the string and reads on beyond it,
  instead of reporting an error.
\<close>

theorem unterminated_string_undefined:
  assumes "CHR 0x22 \<notin> set t" and "CHR 0x5C \<notin> set t"
  shows "load fl (CHR 0x22 # t) root = Inl Undefined"
proof -
  have "parse_string (CHR 0x22 # t) 0 = (Undef :: 'a json pres)"
    using string_loop_open [OF assms, of "[CHR 0x22]" "[]"] by (simp add: parse_string_def)
  then have "parse_next fl (CHR 0x22 # t) (Suc f) 0 = Undef" for f
    using parse_next_at [OF solid_tokens(1), of "CHR 0x22 # t" "[]" t 0 fl f] by simp
  then show ?thesis by (simp add: load_def load_fuel_def del: parse_next.simps)
qed

lemma unterminated_string_undefined_witness:
  "load no_floats [CHR 0x22, CHR ''a''] JNull = Inl Undefined"
  using unterminated_string_undefined [of "''a''" no_floats JNull] by simp

text \<open>
  The position in the error text: rows count the line ends up to the offset, plus one when the
  line of the error is itself ended; on the last line of a text the count starts from zero.
\<close>

definition newlines :: "string \<Rightarrow> nat" where
  "newlines s = length (filter (\<lambda>c. c = CHR 0x0A) s)"

lemma newlines_simps [simp]:
  "newlines [] = 0" "newlines (s @ t) = newlines s + newlines t"
  "newlines (c # s) = (if c = CHR 0x0A then 1 else 0) + newlines s"
  by (simp_all add: newlines_def)

lemma take1_drop: "j < length str \<Longrightarrow> take (length nl) (drop j str) = nl \<longleftrightarrow> str ! j = CHR 0x0A"
  by (simp add: nl_def flip: Cons_nth_drop_Suc)

lemma find_newline_Some:
  assumes "find_from str nl pos = Some p"
  shows "pos \<le> p" "p < length str" "str ! p = CHR 0x0A" "CHR 0x0A \<notin> set (drop pos (take p str))"
proof -
  obtain k where k: "k < length [pos..<length str]" "p = pos + k"
    "take (length nl) (drop p str) = nl" "\<forall>j<k. take (length nl) (drop (pos + j) str) \<noteq> nl"
    using assms by (auto simp: find_from_def find_Some_iff)
  then show "pos \<le> p" "p < length str" by simp_all
  then show "str ! p = CHR 0x0A" using k(3) take1_drop by blast
  have "str ! (pos + j) \<noteq> CHR 0x0A" if "j < k" for j
    using k that take1_drop [of "pos + j" str] by simp
  then show "CHR 0x0A \<notin> set (drop pos (take p str))"
    using k by (auto simp: in_set_conv_nth)
qed

lemma find_newline_None: "find_from str nl pos = None \<Longrightarrow> CHR 0x0A \<notin> set (drop pos str)"
  using take1_drop [of _ str] by (fastforce simp: find_from_def find_None_iff in_set_conv_nth)

lemma newlines_0: "CHR 0x0A \<notin> set s \<Longrightarrow> newlines s = 0"
  by (induction s) auto

lemma row_col_row:
  "pos < i \<Longrightarrow> i \<le> length str \<Longrightarrow> fst (row_col str i pos row) =
     row + word_of_nat (newlines (drop pos (take i str)) +
       (if str ! (i - 1) \<noteq> CHR 0x0A \<and> CHR 0x0A \<in> set (drop i str) then 1 else 0))"
proof (induction str i pos row rule: row_col.induct)
  case (1 str i pos row)
  note unf = row_col.simps [of str i pos row]
  show ?case
  proof (cases "find_from str nl pos")
    case None
    have n: "CHR 0x0A \<notin> set (drop pos str)" by (rule find_newline_None [OF None])
    have "set (drop i str) \<subseteq> set (drop pos str)" "set (drop pos (take i str)) \<subseteq> set (drop pos str)"
      using 1(2) by (auto simp: drop_take set_drop_subset_set_drop dest: in_set_takeD)
    then have "newlines (drop pos (take i str)) = 0" "CHR 0x0A \<notin> set (drop i str)"
      using n by (auto intro: newlines_0)
    then show ?thesis using unf None by simp
  next
    case (Some p)
    note p = find_newline_Some [OF Some]
    have split: "drop pos (take i str) = drop pos (take p str) @ CHR 0x0A # drop (p + 1) (take i str)"
      if "p < i"
    proof -
      have "take i str = take p str @ str ! p # drop (p + 1) (take i str)"
        using that p(2) 1(3) id_take_nth_drop [of p "take i str"] by simp
      then have "drop pos (take i str) = drop pos (take p str @ str ! p # drop (p + 1) (take i str))" by simp
      then show ?thesis using p by simp
    qed
    consider "i < p + 1" | "p + 1 < i" | "p + 1 = i" by linarith
    then show ?thesis
    proof cases
      case 1
      have "drop pos (take i str) = take (i - pos) (drop pos (take p str))"
        using 1 by (simp add: drop_take min_def)
      then have "newlines (drop pos (take i str)) = 0"
        using p(4) by (intro newlines_0) (metis in_set_takeD)
      moreover have "str ! (i - 1) \<noteq> CHR 0x0A"
      proof
        assume "str ! (i - 1) = CHR 0x0A"
        then have "drop pos (take p str) ! (i - 1 - pos) = CHR 0x0A"
          and "i - 1 - pos < length (drop pos (take p str))"
          using 1 p(1,2) \<open>pos < i\<close> by simp_all
        then show False using p(4) nth_mem by metis
      qed
      moreover have "CHR 0x0A \<in> set (drop i str)"
      proof -
        have "drop i str ! (p - i) = CHR 0x0A" "p - i < length (drop i str)" using 1 p(2,3) by simp_all
        then show ?thesis using nth_mem by metis
      qed
      ultimately show ?thesis using 1 unf Some by simp
    next
      case 2
      then show ?thesis using 1(1) [OF Some] 1(3) unf Some split newlines_0 [OF p(4)] by simp
    next
      case 3
      then have "i - 1 = p" by simp
      then show ?thesis using 3 unf Some split newlines_0 [OF p(4)] p(3) by simp
    qed
  qed
qed

text \<open>
  The row \<open>load\<close> reports is the number of line ends before the error, plus one exactly when
  the line of the error is ended too: an error on the last, unended line is reported one row too
  low, and so is one found at the very start of a line.
\<close>

theorem reported_row:
  assumes "0 < i" and "i \<le> length str"
  shows "fst (row_col str i 0 0) = word_of_nat (newlines (take i str) +
    (if str ! (i - 1) \<noteq> CHR 0x0A \<and> CHR 0x0A \<in> set (drop i str) then 1 else 0))"
  using row_col_row [OF assms, of 0] by simp

lemma reported_row_witness:
  "fst (row_col (''a'' @ nl @ ''b'') 3 0 0) = 1 \<and> fst (row_col (''a'' @ nl @ ''b'' @ nl) 3 0 0) = 2"
  using reported_row [of 3 "''a'' @ nl @ ''b''"] reported_row [of 3 "''a'' @ nl @ ''b'' @ nl"]
  by (simp add: nl_def)

subsection \<open>The shape of what is parsed\<close>

definition builds_wf :: "(nat \<Rightarrow> 'f json pres) \<Rightarrow> bool" where
  "builds_wf p \<longleftrightarrow> (\<forall>i v j. p i = Done v j \<longrightarrow> wf_json v)"

lemma scalars_wf:
  "parse_string str i = Done v j \<Longrightarrow> wf_json v"
  "parse_bool str i = Done v j \<Longrightarrow> wf_json v"
  "parse_null str i = Done v j \<Longrightarrow> wf_json v"
  "parse_number fl str i = Done v j \<Longrightarrow> wf_json v"
  by (auto simp: parse_string_def parse_bool_def parse_null_def parse_number_def Let_def
      dest!: pbind_Done thrown_at_Done split: if_splits)

lemma array_loop_wf:
  assumes p: "builds_wf next"
  shows "array_loop fl str next f n a i = Done v j \<Longrightarrow> wf_json a \<Longrightarrow> wf_json v"
proof (induction f arbitrary: n a i)
  case (Suc f)
  obtain x k where k: "next i = Done x k"
    and r: "put_index fl n x a (\<lambda>a. after_ws str k (\<lambda>i. with_char str i (\<lambda>c.
         if c = CHR '','' then array_loop fl str next f (n + 1) a (i + 1)
         else if c = CHR '']'' then Done a (i + 1)
         else invalid (''ERROR: Array: Expected '' @ quoted '','' @ '' or '' @ quoted '']'' @
                '', found '' @ quoted [c] @ ''.'') i))) = Done v j"
    using Suc.prems(1) unfolding array_loop.simps by (blast dest: pbind_Done)
  obtain b where b: "set_index fl n x a = Inr b"
    and s: "after_ws str k (\<lambda>i. with_char str i (\<lambda>c.
         if c = CHR '','' then array_loop fl str next f (n + 1) b (i + 1)
         else if c = CHR '']'' then Done b (i + 1)
         else invalid (''ERROR: Array: Expected '' @ quoted '','' @ '' or '' @ quoted '']'' @
                '', found '' @ quoted [c] @ ''.'') i)) = Done v j"
    using r by (cases "set_index fl n x a") (simp_all add: put_index_def)
  have "wf_json b" using set_index_wf [OF b] Suc.prems(2) p k by (auto simp: builds_wf_def)
  then show ?case
    using s Suc.IH [of "n + 1" b] by (auto dest!: after_ws_Done with_char_Done split: if_splits)
qed simp

lemma object_loop_wf:
  assumes p: "builds_wf next"
  shows "object_loop fl str next f a i = Done v j \<Longrightarrow> wf_json a \<Longrightarrow> wf_json v"
proof (induction f arbitrary: a i)
  case (Suc f)
  obtain key k c m where "next i = Done key k" and m: "(if c \<noteq> CHR '':'' then
           invalid (''Error: Object: Expected '' @ quoted '':'' @ '', found '' @ quoted [c] @ ''.'') m
         else after_ws str (m + 1) (\<lambda>i.
           pbind (next i) (\<lambda>v i.
             let a = set_key fl (fst (ToString key)) v a in
             after_ws str i (\<lambda>i. with_char str i (\<lambda>c.
               if c = CHR '','' then object_loop fl str next f a (i + 1)
               else if c = CHR ''}'' then Done a (i + 1)
               else invalid (''ERROR: Object: Expected '' @ quoted '','' @ '' or '' @
                      quoted ''}'' @ '', found '' @ quoted [c] @ ''.'') i))))) = Done v j"
    using Suc.prems(1) by (auto simp del: invalid_not_Done dest!: pbind_Done after_ws_Done with_char_Done)
  then have "after_ws str (m + 1) (\<lambda>i.
           pbind (next i) (\<lambda>v i.
             let a = set_key fl (fst (ToString key)) v a in
             after_ws str i (\<lambda>i. with_char str i (\<lambda>c.
               if c = CHR '','' then object_loop fl str next f a (i + 1)
               else if c = CHR ''}'' then Done a (i + 1)
               else invalid (''ERROR: Object: Expected '' @ quoted '','' @ '' or '' @
                      quoted ''}'' @ '', found '' @ quoted [c] @ ''.'') i)))) = Done v j"
    by (simp split: if_splits)
  then obtain l x l' q d where x: "next l = Done x l'" and
    "(if d = CHR '','' then object_loop fl str next f (set_key fl (fst (ToString key)) x a) (q + 1)
      else if d = CHR ''}'' then Done (set_key fl (fst (ToString key)) x a) (q + 1)
      else invalid (''ERROR: Object: Expected '' @ quoted '','' @ '' or '' @
                      quoted ''}'' @ '', found '' @ quoted [d] @ ''.'') q) = Done v j"
    unfolding Let_def by (blast dest: pbind_Done after_ws_Done with_char_Done)
  then have s: "object_loop fl str next f (set_key fl (fst (ToString key)) x a) (q + 1) = Done v j \<or>
      v = set_key fl (fst (ToString key)) x a"
    by (simp split: if_splits)
  have "wf_json (set_key fl (fst (ToString key)) x a)"
  proof -
    have "wf_json x" using p x unfolding builds_wf_def by blast
    then show ?thesis by (rule set_key_wf [OF Suc.prems(2)])
  qed
  then show ?case using s Suc.IH by blast
qed simp

lemma parse_next_wf: "builds_wf (parse_next fl str f)"
proof (induction f)
  case 0
  then show ?case by (simp add: builds_wf_def)
next
  case (Suc f)
  have arr: "parse_array fl str (parse_next fl str f) f i = Done v j \<Longrightarrow> wf_json v" for i v j
    using array_loop_wf [OF Suc.IH]
    by (auto simp: parse_array_def Make_def SetType_def dest!: after_ws_Done with_char_Done split: if_splits)
  have obj: "parse_object fl str (parse_next fl str f) f i = Done v j \<Longrightarrow> wf_json v" for i v j
    using object_loop_wf [OF Suc.IH]
    by (auto simp: parse_object_def Make_def SetType_def dest!: after_ws_Done with_char_Done split: if_splits)
  have "wf_json v" if D: "parse_next fl str (Suc f) i = Done v j" for i v j
  proof -
    obtain k c where r: "(if c = CHR ''['' then parse_array fl str (parse_next fl str f) f k
     else if c = CHR ''{'' then parse_object fl str (parse_next fl str f) f k
     else if c = CHR 0x22 then parse_string str k
     else if c = CHR ''t'' \<or> c = CHR ''f'' then parse_bool str k
     else if c = CHR ''n'' then parse_null str k
     else if is_digit c \<or> c = CHR ''-'' then parse_number fl str k
     else invalid (''ERROR: Parse: Unknown starting character '' @ quoted [c] @ ''.'') k) = Done v j"
      using D unfolding parse_next.simps by (blast dest: after_ws_Done with_char_Done)
    then show ?thesis
      using arr [of k v j] obj [of k v j] scalars_wf(1-3) [of str k v j] scalars_wf(4) [of fl str k v j]
      by (simp split: if_splits)
  qed
  then show ?case unfolding builds_wf_def by blast
qed

text \<open>
  every loaded value is well formed. In whatever order a document gives its members, and
  however often it repeats a key, each object of the result has every key once and in the order
  of the map; a load that fails leaves the root it was given.
\<close>

theorem loaded_values_well_formed:
  assumes "load fl s root = Inr (err, v)" and "wf_json root"
  shows "wf_json v"
  using assms parse_next_wf [of fl s "load_fuel s"]
  by (auto simp: load_def builds_wf_def split: pres.splits)

lemma loaded_values_well_formed_witness:
  "wf_json (JArray [JBoolean True, JObject [(''k'', JNull :: unit json)]])"
proof -
  let ?v = "JArray [JBoolean True, JObject [(''k'', JNull :: unit json)]]"
  have "loadable ?v" using plain_key [of "''k''"] by (simp add: json_escape_def escape_char_def chr_defs)
  then have "load no_floats (dumpFast no_floats ?v) JNull = Inr ([], ?v)"
    by (intro load_text dumpFast_jtext) simp_all
  then show ?thesis by (rule loaded_values_well_formed) simp
qed

end
