(* ===== verification/ByteChannel.thy ===== *)
theory ByteChannel
  imports Prelude
begin

text \<open>
  The contract a byte buffer offers its users: bytes put in come out in order, in the pieces
  the reader asks for. \<^verbatim>\<open>CDataStream\<close> and \<^verbatim>\<open>mmrNet::Buffer\<close> both provide it; what framed
  traffic over such a buffer does is proved here once.
\<close>

locale byte_channel =
  fixes inv :: "'s \<Rightarrow> bool"
    and content :: "'s \<Rightarrow> byte list"
    and room :: "'s \<Rightarrow> nat \<Rightarrow> bool"
    and put :: "byte list \<Rightarrow> 's \<Rightarrow> 's result"
    and get :: "nat \<Rightarrow> 's \<Rightarrow> (byte list \<times> 's) result"
  assumes put_content:
      "inv s \<Longrightarrow> room s (length bs) \<Longrightarrow> \<exists>s'. put bs s = Inr s' \<and> inv s' \<and> content s' = content s @ bs"
    and get_content:
      "inv s \<Longrightarrow> 0 < n \<Longrightarrow> n \<le> length (content s) \<Longrightarrow>
        \<exists>s'. get n s = Inr (take n (content s), s') \<and> inv s' \<and> content s' = drop n (content s)"
    and room_mono: "inv s \<Longrightarrow> room s (m + n) \<Longrightarrow> room s m"
    and room_put: "inv s \<Longrightarrow> room s (length bs + n) \<Longrightarrow> put bs s = Inr s' \<Longrightarrow> room s' n"
    and room_get: "inv s \<Longrightarrow> 0 < m \<Longrightarrow> m \<le> length (content s) \<Longrightarrow> room s n \<Longrightarrow>
        get m s = Inr (bs, s') \<Longrightarrow> room s' n"

fun put_all :: "(byte list \<Rightarrow> 's \<Rightarrow> 's result) \<Rightarrow> byte list list \<Rightarrow> 's \<Rightarrow> 's result" where
  "put_all put [] s = Inr s"
| "put_all put (f # fs) s = and_then (put f s) (put_all put fs)"

fun get_all :: "(nat \<Rightarrow> 's \<Rightarrow> (byte list \<times> 's) result) \<Rightarrow> nat list \<Rightarrow> 's \<Rightarrow> (byte list list \<times> 's) result"
  where
  "get_all get [] s = Inr ([], s)"
| "get_all get (n # ns) s =
     and_then (get n s) (\<lambda>(f, s'). and_then (get_all get ns s') (\<lambda>(fs, s''). Inr (f # fs, s'')))"

text \<open>An interleaving of writes and reads, and what it does to the queue of bytes.\<close>

datatype channel_op = Put "byte list" | Get nat

fun put_total :: "channel_op list \<Rightarrow> nat" where
  "put_total [] = 0"
| "put_total (Put bs # ops) = length bs + put_total ops"
| "put_total (Get n # ops) = put_total ops"

fun queue_ops :: "channel_op list \<Rightarrow> byte list \<Rightarrow> (byte list list \<times> byte list) option" where
  "queue_ops [] q = Some ([], q)"
| "queue_ops (Put bs # ops) q = queue_ops ops (q @ bs)"
| "queue_ops (Get n # ops) q =
     (if 0 < n \<and> n \<le> length q
      then map_option (\<lambda>(out, r). (take n q # out, r)) (queue_ops ops (drop n q)) else None)"

fun run_ops :: "(byte list \<Rightarrow> 's \<Rightarrow> 's result) \<Rightarrow> (nat \<Rightarrow> 's \<Rightarrow> (byte list \<times> 's) result) \<Rightarrow>
    channel_op list \<Rightarrow> 's \<Rightarrow> (byte list list \<times> 's) result" where
  "run_ops put get [] s = Inr ([], s)"
| "run_ops put get (Put bs # ops) s = and_then (put bs s) (run_ops put get ops)"
| "run_ops put get (Get n # ops) s =
     and_then (get n s) (\<lambda>(f, s'). and_then (run_ops put get ops s') (\<lambda>(fs, s''). Inr (f # fs, s'')))"

context byte_channel
begin

lemma run_ops_queue:
  "inv s \<Longrightarrow> room s (put_total ops) \<Longrightarrow> queue_ops ops (content s) = Some (out, rest) \<Longrightarrow>
    \<exists>s'. run_ops put get ops s = Inr (out, s') \<and> inv s' \<and> content s' = rest"
proof (induction ops arbitrary: s out)
  case Nil
  then show ?case by simp
next
  case (Cons op ops)
  show ?case
  proof (cases op)
    case (Put bs)
    have r: "room s (length bs + put_total ops)" using Cons.prems(2) Put by simp
    obtain s' where s': "put bs s = Inr s'" "inv s'" "content s' = content s @ bs"
      using put_content [OF Cons.prems(1) room_mono [OF Cons.prems(1) r]] by blast
    have "queue_ops ops (content s') = Some (out, rest)" using Cons.prems(3) Put s'(3) by simp
    from Cons.IH [OF s'(2) room_put [OF Cons.prems(1) r s'(1)] this] show ?thesis
      using Put s'(1) by simp
  next
    case (Get n)
    then obtain out' where n: "0 < n" "n \<le> length (content s)"
      and q: "queue_ops ops (drop n (content s)) = Some (out', rest)" "out = take n (content s) # out'"
      using Cons.prems(3) by (auto split: if_splits)
    obtain s' where s': "get n s = Inr (take n (content s), s')" "inv s'" "content s' = drop n (content s)"
      using get_content [OF Cons.prems(1) n] by blast
    have "room s (put_total ops)" using Cons.prems(2) Get by simp
    from Cons.IH [OF s'(2) room_get [OF Cons.prems(1) n this s'(1)]] q s'(3) obtain t where
      "run_ops put get ops s' = Inr (out', t)" "inv t" "content t = rest" by auto
    then show ?thesis using Get s'(1) q(2) by simp
  qed
qed

lemma put_all_content:
  "inv s \<Longrightarrow> room s (length (concat fs)) \<Longrightarrow>
    \<exists>s'. put_all put fs s = Inr s' \<and> inv s' \<and> content s' = content s @ concat fs"
proof (induction fs arbitrary: s)
  case Nil
  then show ?case by simp
next
  case (Cons f fs)
  have "room s (length f + length (concat fs))" using Cons.prems(2) by simp
  then have "room s (length f)" by (rule room_mono [OF Cons.prems(1)])
  from put_content [OF Cons.prems(1) this] obtain s' where
    s': "put f s = Inr s'" "inv s'" "content s' = content s @ f" by blast
  have "room s' (length (concat fs))"
    using room_put [OF Cons.prems(1) _ s'(1)] Cons.prems(2) by simp
  with Cons.IH [OF s'(2)] obtain t where
    "put_all put fs s' = Inr t" "inv t" "content t = content s' @ concat fs" by blast
  with s' show ?case by (intro exI [of _ t]) simp
qed

lemma get_all_frames:
  "inv s \<Longrightarrow> [] \<notin> set fs \<Longrightarrow> content s = concat fs @ rest \<Longrightarrow>
    \<exists>s'. get_all get (map length fs) s = Inr (fs, s') \<and> inv s' \<and> content s' = rest"
proof (induction fs arbitrary: s)
  case Nil
  then show ?case by simp
next
  case (Cons f fs)
  then have "0 < length f" "length f \<le> length (content s)" "content s = f @ concat fs @ rest"
    by auto
  with Cons.prems(1) get_content [of s "length f"] obtain s' where
    s': "get (length f) s = Inr (f, s')" "inv s'" "content s' = concat fs @ rest" by force
  with Cons.IH [OF s'(2) _ s'(3)] Cons.prems(2) obtain t where
    "get_all get (map length fs) s' = Inr (fs, t)" "inv t" "content t = rest" by auto
  with s' show ?case by simp
qed

lemma frames_round:
  assumes "inv s" "content s = []" "[] \<notin> set fs" "room s (length (concat fs))"
  shows "\<exists>s'. and_then (put_all put fs s) (get_all get (map length fs)) = Inr (fs, s')
    \<and> inv s' \<and> content s' = []"
proof -
  from put_all_content [OF assms(1,4)] assms(2) obtain s' where
    p: "put_all put fs s = Inr s'" "inv s'" "content s' = concat fs @ []" by auto
  from get_all_frames [OF p(2) assms(3) p(3)] p(1) show ?thesis by auto
qed

end

end
