(* ===== verification/NetBuffer.thy ===== *)
theory NetBuffer
  imports ByteChannel
begin

text \<open>
  \<^verbatim>\<open>common/include/mmrNet/Buffer.hpp\<close>: a byte vector with a read and a write index. Every
  member function is a definition over the record; a failed \<open>assert\<close> is \<open>Aborts\<close>, a copy that
  leaves the vector is \<open>Undefined\<close>. The indices are \<open>uint32_t\<close>, so the new size that
  \<open>ensureWriteSpace\<close> computes is reduced modulo \<open>2 ^ 32\<close>.
\<close>

record net_buffer =
  m_buffer :: "byte list"
  m_readIndex :: nat
  m_writeIndex :: nat

definition NET_BUFFER_SIZE :: nat where "NET_BUFFER_SIZE = 64 * 1024"

definition Buffer :: net_buffer where
  "Buffer = \<lparr>m_buffer = replicate NET_BUFFER_SIZE 0, m_readIndex = 0, m_writeIndex = 0\<rparr>"

definition tailIdleSize :: "net_buffer \<Rightarrow> nat" where
  "tailIdleSize b = length (m_buffer b) - m_writeIndex b"

definition handIdleSize :: "net_buffer \<Rightarrow> nat" where
  "handIdleSize b = m_readIndex b"

definition readAbleSize :: "net_buffer \<Rightarrow> nat" where
  "readAbleSize b = m_writeIndex b - m_readIndex b"

definition moveReadOffset :: "nat \<Rightarrow> net_buffer \<Rightarrow> net_buffer result" where
  "moveReadOffset len b =
     (if len \<le> readAbleSize b then Inr (b\<lparr>m_readIndex := m_readIndex b + len\<rparr>) else Inl Aborts)"

definition moveWriteOffset :: "nat \<Rightarrow> net_buffer \<Rightarrow> net_buffer result" where
  "moveWriteOffset len b =
     (if len \<le> tailIdleSize b then Inr (b\<lparr>m_writeIndex := m_writeIndex b + len\<rparr>) else Inl Aborts)"

text \<open>\<open>std::vector::resize\<close>: cut off or extend with zero bytes.\<close>

definition vec_resize :: "nat \<Rightarrow> byte list \<Rightarrow> byte list" where
  "vec_resize n xs = take n xs @ replicate (n - length xs) 0"

definition ensureWriteSpace :: "nat \<Rightarrow> net_buffer \<Rightarrow> net_buffer" where
  "ensureWriteSpace len b =
     (if tailIdleSize b \<ge> len then b
      else if len \<le> tailIdleSize b + handIdleSize b then
        (let rsz = readAbleSize b in
         b\<lparr>m_buffer := splice_at 0 (take rsz (drop (m_readIndex b) (m_buffer b))) (m_buffer b),
           m_readIndex := 0, m_writeIndex := rsz\<rparr>)
      else b\<lparr>m_buffer := vec_resize ((m_writeIndex b + len) mod 2 ^ 32) (m_buffer b)\<rparr>)"

definition Write :: "byte list \<Rightarrow> net_buffer \<Rightarrow> net_buffer result" where
  "Write data b =
     (let b' = ensureWriteSpace (length data) b in
      if m_writeIndex b' + length data \<le> length (m_buffer b')
      then Inr (b'\<lparr>m_buffer := splice_at (m_writeIndex b') data (m_buffer b')\<rparr>)
      else Inl Undefined)"

definition WriteAndPush :: "byte list \<Rightarrow> net_buffer \<Rightarrow> net_buffer result" where
  "WriteAndPush data b = and_then (Write data b) (moveWriteOffset (length data))"

definition writeString :: "byte list \<Rightarrow> net_buffer \<Rightarrow> net_buffer result" where
  "writeString data b = Write data b"

definition WriteStringAndPush :: "byte list \<Rightarrow> net_buffer \<Rightarrow> net_buffer result" where
  "WriteStringAndPush data b = and_then (writeString data b) (moveWriteOffset (length data))"

definition readable :: "net_buffer \<Rightarrow> byte list" where
  "readable b = take (readAbleSize b) (drop (m_readIndex b) (m_buffer b))"

definition writeBuffer :: "net_buffer \<Rightarrow> net_buffer \<Rightarrow> net_buffer result" where
  "writeBuffer data b = Write (readable data) b"

definition writeBufferAndPush :: "net_buffer \<Rightarrow> net_buffer \<Rightarrow> net_buffer result" where
  "writeBufferAndPush data b = and_then (writeBuffer data b) (moveWriteOffset (readAbleSize data))"

definition Read :: "nat \<Rightarrow> net_buffer \<Rightarrow> byte list result" where
  "Read len b =
     (if len \<le> readAbleSize b then
        (if m_readIndex b + len \<le> length (m_buffer b)
         then Inr (take len (drop (m_readIndex b) (m_buffer b))) else Inl Undefined)
      else Inl Aborts)"

definition readAsString :: "nat \<Rightarrow> net_buffer \<Rightarrow> byte list result" where
  "readAsString len b = (if len \<le> readAbleSize b then Read len b else Inl Aborts)"

definition readAndPop :: "nat \<Rightarrow> net_buffer \<Rightarrow> (byte list \<times> net_buffer) result" where
  "readAndPop len b =
     and_then (Read len b) (\<lambda>bs. and_then (moveReadOffset len b) (\<lambda>b'. Inr (bs, b')))"

definition ReadAsStringAndPop :: "nat \<Rightarrow> net_buffer \<Rightarrow> (byte list \<times> net_buffer) result" where
  "ReadAsStringAndPop len b =
     (if len \<le> readAbleSize b then
        and_then (readAsString len b) (\<lambda>bs. and_then (moveReadOffset len b) (\<lambda>b'. Inr (bs, b')))
      else Inl Aborts)"

text \<open>\<open>memchr\<close> for a line feed: the offset from the read position.\<close>

fun memchr :: "byte \<Rightarrow> byte list \<Rightarrow> nat option" where
  "memchr c [] = None"
| "memchr c (b # bs) = (if b = c then Some 0 else map_option Suc (memchr c bs))"

definition FindCRLF :: "net_buffer \<Rightarrow> nat option" where
  "FindCRLF b = memchr 10 (readable b)"

definition getLine :: "net_buffer \<Rightarrow> byte list result" where
  "getLine b = (case FindCRLF b of None \<Rightarrow> Inr [] | Some p \<Rightarrow> readAsString (p + 1) b)"

definition getLineAndPop :: "net_buffer \<Rightarrow> (byte list \<times> net_buffer) result" where
  "getLineAndPop b =
     and_then (getLine b) (\<lambda>str. and_then (moveReadOffset (length str) b) (\<lambda>b'. Inr (str, b')))"

definition Clear :: "net_buffer \<Rightarrow> net_buffer" where
  "Clear b = b\<lparr>m_readIndex := 0, m_writeIndex := 0\<rparr>"

subsection \<open>The index invariant and the queue of readable bytes\<close>

definition nb_inv :: "net_buffer \<Rightarrow> bool" where
  "nb_inv b \<longleftrightarrow> m_readIndex b \<le> m_writeIndex b \<and> m_writeIndex b \<le> length (m_buffer b)"

text \<open>The write index after a write of \<open>n\<close> more bytes still fits \<open>uint32_t\<close>.\<close>

definition nb_room :: "net_buffer \<Rightarrow> nat \<Rightarrow> bool" where
  "nb_room b n \<longleftrightarrow> m_writeIndex b + n < 2 ^ 32"

lemma nb_inv_Buffer: "nb_inv Buffer" and readable_Buffer: "readable Buffer = []"
  by (simp_all add: nb_inv_def Buffer_def readable_def readAbleSize_def)

lemma length_readable: "nb_inv b \<Longrightarrow> length (readable b) = readAbleSize b"
  unfolding nb_inv_def readable_def readAbleSize_def length_take length_drop by linarith

lemma ensureWriteSpace_spec:
  assumes "nb_inv b" "nb_room b len"
  defines "b' \<equiv> ensureWriteSpace len b"
  shows "nb_inv b' \<and> readable b' = readable b \<and> m_writeIndex b' + len \<le> length (m_buffer b')
    \<and> m_writeIndex b' \<le> m_writeIndex b"
proof -
  note i = assms(1) [unfolded nb_inv_def]
  consider (fits) "len \<le> tailIdleSize b"
    | (shift) "tailIdleSize b < len" "len \<le> tailIdleSize b + handIdleSize b"
    | (grow) "tailIdleSize b + handIdleSize b < len" by linarith
  then show ?thesis
  proof cases
    case fits
    moreover from fits have "m_writeIndex b + len \<le> length (m_buffer b)"
      using i unfolding tailIdleSize_def by linarith
    ultimately show ?thesis using assms(1) by (simp add: b'_def ensureWriteSpace_def)
  next
    case shift
    have l: "length (readable b) = readAbleSize b" by (rule length_readable [OF assms(1)])
    have e: "b' = b\<lparr>m_buffer := readable b @ drop (readAbleSize b) (m_buffer b),
        m_readIndex := 0, m_writeIndex := readAbleSize b\<rparr>"
      using shift l by (simp add: b'_def ensureWriteSpace_def Let_def splice_at_def readable_def)
    have "readAbleSize b \<le> length (m_buffer b)" using i unfolding readAbleSize_def by linarith
    moreover have "readable b' = readable b"
      using l by (simp add: e readable_def [of "_\<lparr>m_writeIndex := _\<rparr>"]) (simp add: readAbleSize_def)
    ultimately show ?thesis
      using i shift l by (simp add: e nb_inv_def) (simp add: tailIdleSize_def handIdleSize_def readAbleSize_def)
  next
    case grow
    have m: "(m_writeIndex b + len) mod 2 ^ 32 = m_writeIndex b + len"
      using assms(2) unfolding nb_room_def by (rule mod_less)
    have "length (m_buffer b) \<le> m_writeIndex b + len" using grow i by (simp add: tailIdleSize_def)
    then have e: "b' = b\<lparr>m_buffer := m_buffer b @ replicate (m_writeIndex b + len - length (m_buffer b)) 0\<rparr>"
      using grow m by (simp add: b'_def ensureWriteSpace_def Let_def vec_resize_def)
    have "readable b' = readable b"
      using i by (simp add: e readable_def readAbleSize_def)
    then show ?thesis
      using i \<open>length (m_buffer b) \<le> _\<close> by (simp add: e nb_inv_def)
  qed
qed

lemma readable_append:
  assumes "nb_inv b" "m_writeIndex b + length data \<le> length (m_buffer b)"
  shows "readable (b\<lparr>m_buffer := splice_at (m_writeIndex b) data (m_buffer b),
      m_writeIndex := m_writeIndex b + length data\<rparr>) = readable b @ data"
proof -
  have i: "m_readIndex b \<le> m_writeIndex b" "m_writeIndex b \<le> length (m_buffer b)"
    using assms(1) by (simp_all add: nb_inv_def)
  let ?p = "take (m_writeIndex b) (m_buffer b)"
  have "drop (m_readIndex b) (splice_at (m_writeIndex b) data (m_buffer b))
      = (drop (m_readIndex b) ?p @ data) @ drop (m_writeIndex b + length data) (m_buffer b)"
    using i by (simp add: splice_at_def)
  moreover have "length (drop (m_readIndex b) ?p @ data) = m_writeIndex b + length data - m_readIndex b"
    using i by simp
  moreover have "drop (m_readIndex b) ?p = readable b"
    by (simp add: readable_def readAbleSize_def drop_take)
  ultimately show ?thesis by (simp add: readable_def readAbleSize_def)
qed

lemma WriteAndPush_spec:
  assumes "nb_inv b" "nb_room b (length data)"
  shows "\<exists>b'. WriteAndPush data b = Inr b' \<and> nb_inv b' \<and> readable b' = readable b @ data
    \<and> m_writeIndex b' \<le> m_writeIndex b + length data"
proof -
  let ?b = "ensureWriteSpace (length data) b"
  have e: "nb_inv ?b" "readable ?b = readable b" "m_writeIndex ?b + length data \<le> length (m_buffer ?b)"
    "m_writeIndex ?b \<le> m_writeIndex b"
    using ensureWriteSpace_spec [OF assms] by simp_all
  let ?d = "?b\<lparr>m_buffer := splice_at (m_writeIndex ?b) data (m_buffer ?b),
    m_writeIndex := m_writeIndex ?b + length data\<rparr>"
  have "WriteAndPush data b = Inr ?d"
    using e(3) by (simp add: WriteAndPush_def Write_def Let_def moveWriteOffset_def tailIdleSize_def)
  moreover have "nb_inv ?d" using e by (simp add: nb_inv_def)
  moreover have "readable ?d = readable b @ data"
    using readable_append [OF e(1,3)] e(2) by simp
  ultimately show ?thesis using e(4) by auto
qed

lemma readAndPop_spec:
  assumes "nb_inv b" "n \<le> length (readable b)"
  shows "\<exists>b'. readAndPop n b = Inr (take n (readable b), b') \<and> nb_inv b' \<and> readable b' = drop n (readable b)"
proof -
  have i: "m_readIndex b \<le> m_writeIndex b" "m_writeIndex b \<le> length (m_buffer b)"
    using assms(1) by (simp_all add: nb_inv_def)
  have n: "n \<le> readAbleSize b" using assms length_readable by simp
  then have n': "m_readIndex b + n \<le> m_writeIndex b" using i by (simp add: readAbleSize_def)
  let ?b = "b\<lparr>m_readIndex := m_readIndex b + n\<rparr>"
  have "readAndPop n b = Inr (take n (readable b), ?b)"
    using n n' i by (simp add: readAndPop_def Read_def moveReadOffset_def readable_def min_absorb1)
  moreover have "readable ?b = drop n (readable b)"
    by (simp add: readable_def readAbleSize_def drop_take add.commute)
  ultimately show ?thesis using n' i by (simp add: nb_inv_def)
qed

interpretation net: byte_channel nb_inv readable nb_room WriteAndPush readAndPop
proof
  fix s s' :: net_buffer and bs :: "byte list" and m n :: nat
  show "nb_inv s \<Longrightarrow> nb_room s (length bs) \<Longrightarrow>
      \<exists>s'. WriteAndPush bs s = Inr s' \<and> nb_inv s' \<and> readable s' = readable s @ bs"
    using WriteAndPush_spec by blast
  show "nb_inv s \<Longrightarrow> 0 < n \<Longrightarrow> n \<le> length (readable s) \<Longrightarrow>
      \<exists>s'. readAndPop n s = Inr (take n (readable s), s') \<and> nb_inv s' \<and> readable s' = drop n (readable s)"
    using readAndPop_spec by blast
  show "nb_inv s \<Longrightarrow> nb_room s (m + n) \<Longrightarrow> nb_room s m" by (simp add: nb_room_def)
  show "nb_inv s \<Longrightarrow> nb_room s (length bs + n) \<Longrightarrow> WriteAndPush bs s = Inr s' \<Longrightarrow> nb_room s' n"
    using WriteAndPush_spec [of s bs] by (auto simp: nb_room_def)
  show "nb_inv s \<Longrightarrow> 0 < m \<Longrightarrow> m \<le> length (readable s) \<Longrightarrow> nb_room s n \<Longrightarrow>
      readAndPop m s = Inr (bs, s') \<Longrightarrow> nb_room s' n"
    by (auto simp: nb_room_def readAndPop_def Read_def moveReadOffset_def split: if_splits)
qed

text \<open>
  C5: Any interleaving of \<open>WriteAndPush\<close> and \<open>readAndPop\<close> on a buffer behaves as the queue of its
  readable bytes: as long as the queue never underflows and the bytes written keep the write
  index below \<open>2 ^ 32\<close>, no assertion fails, no copy leaves the vector, and the reads return
  what the queue does, through every shift to the front and every growth of the vector.
\<close>

theorem net_buffer_is_queue:
  assumes "nb_inv b" "m_writeIndex b + put_total ops < 2 ^ 32"
    and "queue_ops ops (readable b) = Some (out, rest)"
  shows "\<exists>b'. run_ops WriteAndPush readAndPop ops b = Inr (out, b') \<and> nb_inv b' \<and> readable b' = rest"
  using assms by (intro net.run_ops_queue) (simp_all add: nb_room_def)

theorem net_buffer_is_queue_witness:
  "\<exists>b'. run_ops WriteAndPush readAndPop [Put [1, 2, 3], Get 2, Put [4], Get 2]
      \<lparr>m_buffer = [0, 0, 0], m_readIndex = 0, m_writeIndex = 0\<rparr> = Inr ([[1, 2], [3, 4]], b')
    \<and> nb_inv b' \<and> readable b' = []"
  by (rule net_buffer_is_queue) (simp_all add: nb_inv_def readable_def readAbleSize_def)

subsection \<open>Lines\<close>

lemma memchr_None: "memchr c bs = None \<longleftrightarrow> c \<notin> set bs"
  by (induction bs) auto

lemma memchr_append: "c \<notin> set xs \<Longrightarrow> memchr c (xs @ c # ys) = Some (length xs)"
  by (induction xs) auto

lemma readAsString_spec:
  assumes "nb_inv b" "n \<le> length (readable b)"
  shows "readAsString n b = Inr (take n (readable b))"
  using readAndPop_spec [OF assms] assms length_readable
  by (auto simp: readAsString_def readAndPop_def and_then_eq_Inr)

lemma moveReadOffset_spec:
  assumes "nb_inv b" "n \<le> length (readable b)"
  shows "\<exists>b'. moveReadOffset n b = Inr b' \<and> nb_inv b' \<and> readable b' = drop n (readable b)"
  using readAndPop_spec [OF assms] by (auto simp: readAndPop_def and_then_eq_Inr)

text \<open>
  \<open>getLineAndPop\<close> returns the first line with its line feed and leaves the bytes behind it;
  while no line feed has arrived it returns the empty string and consumes nothing.
\<close>

theorem getLineAndPop_line:
  assumes "nb_inv b"
  shows "(\<forall>line rest. readable b = line @ 10 # rest \<and> 10 \<notin> set line \<longrightarrow>
      (\<exists>b'. getLineAndPop b = Inr (line @ [10], b') \<and> nb_inv b' \<and> readable b' = rest))
    \<and> (10 \<notin> set (readable b) \<longrightarrow> getLineAndPop b = Inr ([], b))"
proof (intro conjI allI impI)
  fix line rest assume r: "readable b = line @ 10 # rest \<and> 10 \<notin> set line"
  then have f: "FindCRLF b = Some (length line)" by (simp add: FindCRLF_def memchr_append)
  have "getLine b = Inr (line @ [10])"
    using r f readAsString_spec [OF assms, of "length line + 1"] by (simp add: getLine_def)
  moreover obtain b' where "moveReadOffset (length line + 1) b = Inr b'" "nb_inv b'" "readable b' = rest"
    using r moveReadOffset_spec [OF assms, of "length line + 1"] by auto
  ultimately show "\<exists>b'. getLineAndPop b = Inr (line @ [10], b') \<and> nb_inv b' \<and> readable b' = rest"
    by (simp add: getLineAndPop_def)
next
  assume "10 \<notin> set (readable b)"
  then have "FindCRLF b = None" by (simp add: FindCRLF_def memchr_None)
  then show "getLineAndPop b = Inr ([], b)"
    by (simp add: getLineAndPop_def getLine_def moveReadOffset_def)
qed

theorem getLineAndPop_line_witness:
  "\<exists>b'. getLineAndPop \<lparr>m_buffer = [72, 10, 73], m_readIndex = 0, m_writeIndex = 3\<rparr> = Inr ([72, 10], b')
    \<and> readable b' = [73]"
proof -
  let ?b = "\<lparr>m_buffer = [72, 10, 73], m_readIndex = 0, m_writeIndex = 3\<rparr> :: net_buffer"
  have "nb_inv ?b" by (simp add: nb_inv_def)
  moreover have "readable ?b = [72] @ 10 # [73]" by (simp add: readable_def readAbleSize_def)
  ultimately show ?thesis using getLineAndPop_line [of ?b] by fastforce
qed

end
