(* ===== verification/DataStream.thy ===== *)
theory DataStream
  imports ByteChannel BufConvert
begin

text \<open>
  \<^verbatim>\<open>common/include/util/CDataStream.hpp\<close>: the serialisation stream, for the default buffer
  type \<^verbatim>\<open>std::vector<char>\<close>. The host's byte order is an argument (\<open>host\<close>) wherever the code
  looks at the storage of an integer, so that a stream written on one machine can be read on
  another. Floating-point items are their IEEE bit patterns: the code only moves their bytes.
\<close>

datatype emEndian = LITTLE | BIG

record data_stream =
  ds_buffer :: "byte list"
  ds_read_pos :: nat
  ds_stream_endian :: emEndian
  ds_machine_endian :: emEndian

text \<open>The \<open>k\<close> bytes a host stores for an integer, and the integer it reads from them.\<close>

definition host_bytes :: "emEndian \<Rightarrow> nat \<Rightarrow> nat \<Rightarrow> byte list" where
  "host_bytes host k n = (case host of LITTLE \<Rightarrow> le_bytes k n | BIG \<Rightarrow> rev (le_bytes k n))"

definition host_value :: "emEndian \<Rightarrow> byte list \<Rightarrow> nat" where
  "host_value host bs = (case host of LITTLE \<Rightarrow> le_value bs | BIG \<Rightarrow> le_value (rev bs))"

definition initMachineEndian :: "emEndian \<Rightarrow> data_stream \<Rightarrow> data_stream" where
  "initMachineEndian host ds =
     (let e = host_bytes host 8 1 ! 0
      in ds\<lparr>ds_machine_endian := (if e = 1 then LITTLE else BIG)\<rparr>)"

definition CDataStream :: "emEndian \<Rightarrow> emEndian \<Rightarrow> data_stream" where
  "CDataStream host stream = initMachineEndian host
     \<lparr>ds_buffer = [], ds_read_pos = 0, ds_stream_endian = stream, ds_machine_endian = LITTLE\<rparr>"

definition SetStream :: "byte list \<Rightarrow> emEndian \<Rightarrow> data_stream \<Rightarrow> data_stream" where
  "SetStream buf order ds = ds\<lparr>ds_stream_endian := order, ds_read_pos := 0, ds_buffer := buf\<rparr>"

definition CDataStream_copy :: "emEndian \<Rightarrow> byte list \<Rightarrow> emEndian \<Rightarrow> data_stream" where
  "CDataStream_copy host buf stream = SetStream buf stream (CDataStream host stream)"

definition CDataStream_move :: "emEndian \<Rightarrow> byte list \<Rightarrow> emEndian \<Rightarrow> data_stream" where
  "CDataStream_move host bufData stream = initMachineEndian host
     \<lparr>ds_buffer = bufData, ds_read_pos = 0, ds_stream_endian = stream, ds_machine_endian = LITTLE\<rparr>"

definition DoFlip :: "data_stream \<Rightarrow> byte list \<Rightarrow> byte list" where
  "DoFlip ds buf =
     (if ds_machine_endian ds = ds_stream_endian ds \<or> length buf < 2 then buf
      else flip_loop 0 (length buf - 1) buf)"

definition DoWrite :: "byte list \<Rightarrow> data_stream \<Rightarrow> data_stream" where
  "DoWrite buf ds = ds\<lparr>ds_buffer := ds_buffer ds @ buf\<rparr>"

text \<open>
  \<open>at\<close> checks the first byte only; the \<open>memcpy\<close> behind it may run past the end.
\<close>

definition DoRead :: "nat \<Rightarrow> data_stream \<Rightarrow> byte list result" where
  "DoRead n ds =
     (if length (ds_buffer ds) \<le> ds_read_pos ds then Inl (Throws (Std_out_of_range ''vector::_M_range_check''))
      else if length (ds_buffer ds) < ds_read_pos ds + n then Inl Undefined
      else Inr (take n (drop (ds_read_pos ds) (ds_buffer ds))))"

subsection \<open>Scalars, enumerations and strings\<close>

datatype scalar_type =
  T_char | T_uchar | T_float | T_double | T_int16 | T_uint16 | T_int32 | T_uint32 | T_int64 | T_uint64

datatype scalar =
    Char byte | UChar byte | Float u32 | Double u64 | Int16 u16 | UInt16 u16
  | Int32 u32 | UInt32 u32 | Int64 u64 | UInt64 u64

fun sizeof :: "scalar_type \<Rightarrow> nat" where
  "sizeof T_char = 1" | "sizeof T_uchar = 1" | "sizeof T_float = 4" | "sizeof T_double = 8"
| "sizeof T_int16 = 2" | "sizeof T_uint16 = 2" | "sizeof T_int32 = 4" | "sizeof T_uint32 = 4"
| "sizeof T_int64 = 8" | "sizeof T_uint64 = 8"

fun scalar_type_of :: "scalar \<Rightarrow> scalar_type" where
  "scalar_type_of (Char _) = T_char" | "scalar_type_of (UChar _) = T_uchar"
| "scalar_type_of (Float _) = T_float" | "scalar_type_of (Double _) = T_double"
| "scalar_type_of (Int16 _) = T_int16" | "scalar_type_of (UInt16 _) = T_uint16"
| "scalar_type_of (Int32 _) = T_int32" | "scalar_type_of (UInt32 _) = T_uint32"
| "scalar_type_of (Int64 _) = T_int64" | "scalar_type_of (UInt64 _) = T_uint64"

fun scalar_bits :: "scalar \<Rightarrow> nat" where
  "scalar_bits (Char w) = unat w" | "scalar_bits (UChar w) = unat w"
| "scalar_bits (Float w) = unat w" | "scalar_bits (Double w) = unat w"
| "scalar_bits (Int16 w) = unat w" | "scalar_bits (UInt16 w) = unat w"
| "scalar_bits (Int32 w) = unat w" | "scalar_bits (UInt32 w) = unat w"
| "scalar_bits (Int64 w) = unat w" | "scalar_bits (UInt64 w) = unat w"

fun scalar_make :: "scalar_type \<Rightarrow> nat \<Rightarrow> scalar" where
  "scalar_make T_char n = Char (word_of_nat n)" | "scalar_make T_uchar n = UChar (word_of_nat n)"
| "scalar_make T_float n = Float (word_of_nat n)" | "scalar_make T_double n = Double (word_of_nat n)"
| "scalar_make T_int16 n = Int16 (word_of_nat n)" | "scalar_make T_uint16 n = UInt16 (word_of_nat n)"
| "scalar_make T_int32 n = Int32 (word_of_nat n)" | "scalar_make T_uint32 n = UInt32 (word_of_nat n)"
| "scalar_make T_int64 n = Int64 (word_of_nat n)" | "scalar_make T_uint64 n = UInt64 (word_of_nat n)"

definition WriteAlgorithm :: "emEndian \<Rightarrow> scalar \<Rightarrow> data_stream \<Rightarrow> data_stream" where
  "WriteAlgorithm host t ds =
     (let ch = DoFlip ds (host_bytes host (sizeof (scalar_type_of t)) (scalar_bits t)) in DoWrite ch ds)"

definition ReadAlgorithm :: "emEndian \<Rightarrow> scalar_type \<Rightarrow> data_stream \<Rightarrow> (scalar \<times> data_stream) result" where
  "ReadAlgorithm host ty ds =
     and_then (DoRead (sizeof ty) ds) (\<lambda>ch.
       let ch' = DoFlip ds ch
       in Inr (scalar_make ty (host_value host ch'), ds\<lparr>ds_read_pos := ds_read_pos ds + sizeof ty\<rparr>))"

text \<open>
  The overloads of \<open><<\<close> and \<open>>>\<close>: a scalar, an enumeration through its underlying type, a
  string as a \<open>uint32_t\<close> length and its bytes.
\<close>

datatype item = Scalar scalar | Enumeration scalar | Str "byte list"

datatype item_type = T_scalar scalar_type | T_enum scalar_type | T_str

fun item_type_of :: "item \<Rightarrow> item_type" where
  "item_type_of (Scalar s) = T_scalar (scalar_type_of s)"
| "item_type_of (Enumeration s) = T_enum (scalar_type_of s)"
| "item_type_of (Str s) = T_str"

fun write_item :: "emEndian \<Rightarrow> item \<Rightarrow> data_stream \<Rightarrow> data_stream" where
  "write_item host (Scalar s) ds = WriteAlgorithm host s ds"
| "write_item host (Enumeration s) ds = WriteAlgorithm host s ds"
| "write_item host (Str s) ds =
     (let strLen = word_of_nat (length s) :: u32;
          ds' = WriteAlgorithm host (UInt32 strLen) ds
      in ds'\<lparr>ds_buffer := ds_buffer ds' @ take (unat strLen) s\<rparr>)"

fun read_item :: "emEndian \<Rightarrow> item_type \<Rightarrow> data_stream \<Rightarrow> (item \<times> data_stream) result" where
  "read_item host (T_scalar ty) ds = and_then (ReadAlgorithm host ty ds) (\<lambda>(s, ds'). Inr (Scalar s, ds'))"
| "read_item host (T_enum ty) ds = and_then (ReadAlgorithm host ty ds) (\<lambda>(s, ds'). Inr (Enumeration s, ds'))"
| "read_item host T_str ds =
     and_then (ReadAlgorithm host T_uint32 ds) (\<lambda>(s, ds').
       let strLen = scalar_bits s
       in if ds_read_pos ds' + strLen \<le> length (ds_buffer ds')
          then Inr (Str (take strLen (drop (ds_read_pos ds') (ds_buffer ds'))),
                    ds'\<lparr>ds_read_pos := ds_read_pos ds' + strLen\<rparr>)
          else Inl Undefined)"

fun write_items :: "emEndian \<Rightarrow> item list \<Rightarrow> data_stream \<Rightarrow> data_stream" where
  "write_items host [] ds = ds"
| "write_items host (x # xs) ds = write_items host xs (write_item host x ds)"

fun read_items :: "emEndian \<Rightarrow> item_type list \<Rightarrow> data_stream \<Rightarrow> (item list \<times> data_stream) result" where
  "read_items host [] ds = Inr ([], ds)"
| "read_items host (t # ts) ds =
     and_then (read_item host t ds) (\<lambda>(x, ds').
       and_then (read_items host ts ds') (\<lambda>(xs, ds''). Inr (x # xs, ds'')))"

definition GetReadPos :: "data_stream \<Rightarrow> nat" where "GetReadPos ds = ds_read_pos ds"
definition GetBuffer :: "data_stream \<Rightarrow> byte list" where "GetBuffer ds = ds_buffer ds"
definition GetStreamEndian :: "data_stream \<Rightarrow> emEndian" where "GetStreamEndian ds = ds_stream_endian ds"
definition GetMachineEndian :: "data_stream \<Rightarrow> emEndian" where "GetMachineEndian ds = ds_machine_endian ds"
definition stream_size :: "data_stream \<Rightarrow> nat" where "stream_size ds = length (ds_buffer ds)"
definition stream_empty :: "data_stream \<Rightarrow> bool" where "stream_empty ds = (ds_buffer ds = [])"

definition moveBuffer :: "data_stream \<Rightarrow> byte list \<times> data_stream" where
  "moveBuffer ds = (ds_buffer ds, ds\<lparr>ds_read_pos := 0, ds_buffer := []\<rparr>)"

definition stream_clear :: "data_stream \<Rightarrow> data_stream" where
  "stream_clear ds = ds\<lparr>ds_read_pos := 0, ds_buffer := []\<rparr>"

definition stream_index :: "data_stream \<Rightarrow> nat \<Rightarrow> byte result" where
  "stream_index ds offset =
     (if ds_read_pos ds + offset < length (ds_buffer ds)
      then Inr (ds_buffer ds ! (ds_read_pos ds + offset)) else Inl Undefined)"

subsection \<open>The byte image\<close>

text \<open>What the wire holds: each scalar in the stream's order, a string behind its length.\<close>

fun scalar_image :: "emEndian \<Rightarrow> scalar \<Rightarrow> byte list" where
  "scalar_image e s = host_bytes e (sizeof (scalar_type_of s)) (scalar_bits s)"

fun item_image :: "emEndian \<Rightarrow> item \<Rightarrow> byte list" where
  "item_image e (Scalar s) = scalar_image e s"
| "item_image e (Enumeration s) = scalar_image e s"
| "item_image e (Str s) = host_bytes e 4 (length s) @ s"

fun item_ok :: "item \<Rightarrow> bool" where
  "item_ok (Str s) \<longleftrightarrow> length s < 2 ^ 32"
| "item_ok _ \<longleftrightarrow> True"

text \<open>The stream knows the byte order of the host it runs on.\<close>

definition on_host :: "emEndian \<Rightarrow> data_stream \<Rightarrow> bool" where
  "on_host host ds \<longleftrightarrow> ds_machine_endian ds = host"

lemma on_host_init: "on_host host (initMachineEndian host ds)"
proof (cases host)
  case LITTLE
  then show ?thesis by (simp add: on_host_def initMachineEndian_def host_bytes_def le_bytes_def)
next
  case BIG
  have "length (le_bytes 8 1) = 8" by simp
  then have "rev (le_bytes 8 1) ! 0 = le_bytes 8 1 ! 7"
    by (simp only: rev_nth) simp
  then have "rev (le_bytes 8 1) ! 0 = 0" by (simp add: le_bytes_def)
  with BIG show ?thesis by (simp add: on_host_def initMachineEndian_def host_bytes_def)
qed

lemma length_host_bytes [simp]: "length (host_bytes h k n) = k"
  by (simp add: host_bytes_def split: emEndian.split)

lemma host_value_host_bytes: "host_value h (host_bytes h k n) = n mod 256 ^ k"
  by (simp add: host_value_def host_bytes_def le_value_le_bytes split: emEndian.split)

lemma DoFlip_eq:
  "on_host host ds \<Longrightarrow> DoFlip ds buf = (if host = ds_stream_endian ds then buf else rev buf)"
proof -
  assume h: "on_host host ds"
  have "flip_loop 0 (length buf - 1) buf = rev buf" if "2 \<le> length buf"
    using that flipData_all [of buf] by (simp add: flipData_def)
  moreover have "buf = rev buf" if "length buf < 2"
    using that by (cases buf) auto
  ultimately show ?thesis using h by (auto simp: DoFlip_def on_host_def)
qed

lemma DoFlip_host_bytes:
  assumes "on_host host ds"
  shows "DoFlip ds (host_bytes host k n) = host_bytes (ds_stream_endian ds) k n"
  using DoFlip_eq [OF assms]
  by (cases host; cases "ds_stream_endian ds") (simp_all add: host_bytes_def)

lemma unat_small:
  "unat (a :: 8 word) < 256" "unat (b :: 16 word) < 65536" "unat (c :: 32 word) < 4294967296"
  "unat (d :: 64 word) < 18446744073709551616"
  by (rule order_less_le_trans [OF unsigned_less], simp)+

lemma scalar_bits_bound: "scalar_bits s < 256 ^ sizeof (scalar_type_of s)"
  by (cases s) (simp_all add: unat_small)

lemma scalar_make_bits: "scalar_make (scalar_type_of s) (scalar_bits s) = s"
  by (cases s) simp_all

lemma WriteAlgorithm_image:
  assumes "on_host host ds"
  shows "WriteAlgorithm host s ds = DoWrite (scalar_image (ds_stream_endian ds) s) ds"
  by (simp add: WriteAlgorithm_def DoFlip_host_bytes [OF assms] Let_def)

lemma write_item_image:
  assumes "on_host host ds" "item_ok x"
  shows "write_item host x ds = DoWrite (item_image (ds_stream_endian ds) x) ds"
  using assms by (cases x) (simp_all add: WriteAlgorithm_image DoWrite_def unat_of_nat Let_def)

lemma DoWrite_simps [simp]:
  "ds_buffer (DoWrite b ds) = ds_buffer ds @ b" "ds_read_pos (DoWrite b ds) = ds_read_pos ds"
  "ds_stream_endian (DoWrite b ds) = ds_stream_endian ds"
  "on_host h (DoWrite b ds) = on_host h ds"
  by (simp_all add: DoWrite_def on_host_def)

lemma write_items_image:
  assumes "on_host host ds" "\<forall>x \<in> set xs. item_ok x"
  shows "write_items host xs ds = DoWrite (concat (map (item_image (ds_stream_endian ds)) xs)) ds"
  using assms
proof (induction xs arbitrary: ds)
  case Nil
  then show ?case by (simp add: DoWrite_def)
next
  case (Cons x xs)
  then show ?case by (simp add: write_item_image) (simp add: DoWrite_def)
qed

subsection \<open>Reading back\<close>

definition take_read :: "nat \<Rightarrow> data_stream \<Rightarrow> (byte list \<times> data_stream) result" where
  "take_read n ds = and_then (DoRead n ds) (\<lambda>bs. Inr (bs, ds\<lparr>ds_read_pos := ds_read_pos ds + n\<rparr>))"

definition ds_unread :: "data_stream \<Rightarrow> byte list" where
  "ds_unread ds = drop (ds_read_pos ds) (ds_buffer ds)"

definition ds_inv :: "data_stream \<Rightarrow> bool" where
  "ds_inv ds \<longleftrightarrow> ds_read_pos ds \<le> length (ds_buffer ds)"

interpretation dsq: byte_channel ds_inv ds_unread "\<lambda>_ _. True" "\<lambda>bs ds. Inr (DoWrite bs ds)" take_read
  by unfold_locales (auto simp: ds_inv_def ds_unread_def take_read_def DoRead_def add.commute)

lemma DoRead_unread:
  assumes "ds_unread ds = bs @ rest" "bs \<noteq> []"
  shows "DoRead (length bs) ds = Inr bs"
proof -
  have "length (ds_unread ds) = length bs + length rest" using assms(1) by simp
  moreover have "0 < length bs" using assms(2) by simp
  ultimately have "ds_read_pos ds + length bs \<le> length (ds_buffer ds)" "\<not> length (ds_buffer ds) \<le> ds_read_pos ds"
    unfolding ds_unread_def length_drop by linarith+
  then show ?thesis using assms(1) by (simp add: DoRead_def ds_unread_def)
qed

lemma sizeof_pos: "0 < sizeof ty" by (cases ty) simp_all

definition advance :: "nat \<Rightarrow> data_stream \<Rightarrow> data_stream" where
  "advance n ds = ds\<lparr>ds_read_pos := ds_read_pos ds + n\<rparr>"

lemma advance_simps [simp]:
  "ds_buffer (advance n ds) = ds_buffer ds" "ds_stream_endian (advance n ds) = ds_stream_endian ds"
  "on_host h (advance n ds) = on_host h ds" "ds_read_pos (advance n ds) = ds_read_pos ds + n"
  "advance 0 ds = ds"
  "advance m (advance n ds) = advance (n + m) ds"
  by (simp_all add: advance_def on_host_def add.assoc)

lemma ds_unread_advance: "ds_unread ds = bs @ rest \<Longrightarrow> ds_unread (advance (length bs) ds) = rest"
  by (simp add: ds_unread_def advance_def) (metis add.commute append_eq_conv_conj drop_drop)

lemma ReadAlgorithm_image:
  assumes "on_host host ds" "ds_unread ds = scalar_image (ds_stream_endian ds) s @ rest"
  shows "ReadAlgorithm host (scalar_type_of s) ds = Inr (s, advance (sizeof (scalar_type_of s)) ds)"
proof -
  let ?e = "ds_stream_endian ds" and ?k = "sizeof (scalar_type_of s)"
  let ?i = "scalar_image ?e s"
  have "length ?i = ?k" by simp
  moreover have "?i \<noteq> []" using sizeof_pos by (metis calculation length_0_conv less_irrefl)
  ultimately have r: "DoRead ?k ds = Inr ?i" using DoRead_unread [OF assms(2)] by simp
  have f: "DoFlip ds ?i = host_bytes host ?k (scalar_bits s)"
    using DoFlip_eq [OF assms(1)]
    by (cases host; cases ?e) (simp_all add: host_bytes_def)
  have "host_value host (host_bytes host ?k (scalar_bits s)) = scalar_bits s"
    using scalar_bits_bound by (simp add: host_value_host_bytes)
  then show ?thesis
    by (simp only: ReadAlgorithm_def r and_then_simps Let_def f scalar_make_bits advance_def)
qed

lemma read_item_image:
  assumes "on_host host ds" "ds_unread ds = item_image (ds_stream_endian ds) x @ rest" "item_ok x"
  shows "read_item host (item_type_of x) ds = Inr (x, advance (length (item_image (ds_stream_endian ds) x)) ds)"
proof (cases x)
  case (Scalar s)
  then show ?thesis using assms ReadAlgorithm_image [of host ds s rest] by simp
next
  case (Enumeration s)
  then show ?thesis using assms ReadAlgorithm_image [of host ds s rest] by simp
next
  case (Str s)
  let ?e = "ds_stream_endian ds" and ?l = "UInt32 (word_of_nat (length s))"
  have l: "unat (word_of_nat (length s) :: u32) = length s"
    using assms(3) Str by (simp add: unat_of_nat)
  have u: "ds_unread ds = scalar_image ?e ?l @ s @ rest"
    using assms(2) Str l by simp
  have r: "ReadAlgorithm host T_uint32 ds = Inr (?l, advance 4 ds)"
    using ReadAlgorithm_image [OF assms(1) u] by simp
  have u': "ds_unread (advance 4 ds) = s @ rest" using ds_unread_advance [OF u] by simp
  then have "length (drop (ds_read_pos (advance 4 ds)) (ds_buffer ds)) = length s + length rest"
    by (simp add: ds_unread_def)
  then have "ds_read_pos (advance 4 ds) + length s \<le> length (ds_buffer (advance 4 ds)) \<or> s = []"
    by (cases s) auto
  moreover have "ds_read_pos (advance 4 ds) \<le> length (ds_buffer (advance 4 ds))"
  proof -
    have "length (ds_unread ds) = 4 + length s + length rest" using u by simp
    then show ?thesis by (simp add: ds_unread_def)
  qed
  ultimately have b: "ds_read_pos (advance 4 ds) + length s \<le> length (ds_buffer (advance 4 ds))" by auto
  have t: "take (length s) (drop (ds_read_pos (advance 4 ds)) (ds_buffer (advance 4 ds))) = s"
    using u' unfolding ds_unread_def by simp
  have "read_item host T_str ds = Inr (Str s, (advance 4 ds)\<lparr>ds_read_pos := ds_read_pos (advance 4 ds) + length s\<rparr>)"
    using b t by (simp add: r l Let_def)
  then show ?thesis using Str by (simp add: advance_def add.assoc)
qed

lemma read_items_image:
  assumes "on_host host ds" "\<forall>x \<in> set xs. item_ok x"
    and "ds_unread ds = concat (map (item_image (ds_stream_endian ds)) xs) @ rest"
  shows "read_items host (map item_type_of xs) ds
    = Inr (xs, advance (length (concat (map (item_image (ds_stream_endian ds)) xs))) ds)"
  using assms
proof (induction xs arbitrary: ds)
  case Nil
  then show ?case by simp
next
  case (Cons x xs)
  let ?e = "ds_stream_endian ds"
  have u: "ds_unread ds = item_image ?e x @ concat (map (item_image ?e) xs) @ rest" using Cons.prems(3) by simp
  have "read_item host (item_type_of x) ds = Inr (x, advance (length (item_image ?e x)) ds)"
    using read_item_image [OF Cons.prems(1) u] Cons.prems(2) by simp
  moreover have "read_items host (map item_type_of xs) (advance (length (item_image ?e x)) ds)
      = Inr (xs, advance (length (concat (map (item_image ?e) xs))) (advance (length (item_image ?e x)) ds))"
    using Cons.IH [of "advance (length (item_image ?e x)) ds"] Cons.prems(1,2) ds_unread_advance [OF u] by simp
  ultimately show ?case by simp
qed

text \<open>Raw writes and reads in any interleaving: the stream is the queue of its unread bytes.\<close>

lemma data_stream_queue:
  assumes "ds_inv ds" "queue_ops ops (ds_unread ds) = Some (out, rest)"
  shows "\<exists>ds'. run_ops (\<lambda>bs ds. Inr (DoWrite bs ds)) take_read ops ds = Inr (out, ds') \<and> ds_inv ds' \<and> ds_unread ds' = rest"
  using dsq.run_ops_queue [OF assms(1) _ assms(2)] by simp

subsection \<open>Streams between machines\<close>

text \<open>
  What a sender produces and a receiver takes: the item types (the schema both sides know)
  and the bytes. The two hosts and the stream's order are free.
\<close>

definition send_items :: "emEndian \<Rightarrow> emEndian \<Rightarrow> item list \<Rightarrow> (item_type list \<times> byte list) result" where
  "send_items host e xs = Inr (map item_type_of xs, GetBuffer (write_items host xs (CDataStream host e)))"

definition receive_items :: "emEndian \<Rightarrow> emEndian \<Rightarrow> item_type list \<times> byte list \<Rightarrow> item list result" where
  "receive_items host e msg =
     and_then (read_items host (fst msg) (CDataStream_copy host (snd msg) e)) (\<lambda>(xs, _). Inr xs)"

definition items_ok :: "item list \<Rightarrow> bool" where
  "items_ok xs \<longleftrightarrow> (\<forall>x \<in> set xs. item_ok x)"

lemma CDataStream_simps [simp]:
  "ds_buffer (CDataStream h e) = []" "ds_read_pos (CDataStream h e) = 0"
  "ds_stream_endian (CDataStream h e) = e" "on_host h (CDataStream h e)"
  by (simp_all add: CDataStream_def on_host_init) (simp_all add: initMachineEndian_def Let_def)

lemma CDataStream_copy_simps [simp]:
  "ds_buffer (CDataStream_copy h bs e) = bs" "ds_read_pos (CDataStream_copy h bs e) = 0"
  "ds_stream_endian (CDataStream_copy h bs e) = e" "on_host h (CDataStream_copy h bs e)"
  using CDataStream_simps(4) [of h e] by (simp_all add: CDataStream_copy_def SetStream_def on_host_def)

lemma sent_image:
  "items_ok xs \<Longrightarrow>
    GetBuffer (write_items host xs (CDataStream host e)) = concat (map (item_image e) xs)"
  by (simp add: items_ok_def GetBuffer_def write_items_image)

interpretation dsc: byte_codec items_ok "send_items h1 e" "receive_items h2 e" for h1 h2 e
proof
  fix xs msg assume ok: "items_ok xs"
  show "\<exists>s. send_items h1 e xs = Inr s" by (simp add: send_items_def)
  assume "send_items h1 e xs = Inr msg"
  then have m: "msg = (map item_type_of xs, concat (map (item_image e) xs))"
    using sent_image [OF ok] by (simp add: send_items_def)
  show "receive_items h2 e msg = Inr xs"
    using read_items_image [of h2 "CDataStream_copy h2 (snd msg) e" xs "[]"] ok
    by (simp add: m receive_items_def items_ok_def ds_unread_def)
qed

text \<open>
  C1: Whatever items a program streams out on one machine (scalars, enumerations, strings
  shorter than \<open>2 ^ 32\<close>), a program on a machine of the same or the other byte order that
  reads the same types back, with the stream's order agreed, gets exactly those items.
\<close>

theorem datastream_roundtrip:
  assumes "\<forall>x \<in> set xs. item_ok x"
  shows "and_then (send_items h1 e xs) (receive_items h2 e) = Inr xs"
  using assms by (intro dsc.round) (simp add: items_ok_def)

theorem datastream_roundtrip_witness:
  "and_then (send_items LITTLE BIG [Str [104, 105], Scalar (Int32 5), Enumeration (Int16 1)])
     (receive_items BIG BIG) = Inr [Str [104, 105], Scalar (Int32 5), Enumeration (Int16 1)]"
  by (rule datastream_roundtrip) simp

text \<open>
  The bytes on the wire do not depend on the machine that writes them: they are the
  images of the items in the stream's byte order, one after the other.
\<close>

theorem datastream_wire_format:
  assumes "\<forall>x \<in> set xs. item_ok x"
  shows "GetBuffer (write_items host xs (CDataStream host e)) = concat (map (item_image e) xs)"
  using assms by (intro sent_image) (simp add: items_ok_def)

theorem datastream_wire_format_witness:
  "GetBuffer (write_items LITTLE [Scalar (Int16 0x0102), Str [7]] (CDataStream LITTLE BIG)) = [1, 2, 0, 0, 0, 1, 7]"
proof -
  have "concat (map (item_image BIG) [Scalar (Int16 0x0102), Str [7]]) = [1, 2, 0, 0, 0, 1, 7]"
    by (simp add: host_bytes_def le_bytes_def upt_rec)
  then show ?thesis using datastream_wire_format [of "[Scalar (Int16 0x0102), Str [7]]" LITTLE BIG] by simp
qed

text \<open>
  Reading a scalar from a stream with too few bytes: with none left \<open>at\<close> throws
  \<open>out_of_range\<close> and the stream can go on; with some but not enough left the copy reads past
  the buffer. With enough bytes the read succeeds and advances by the size of the type.
\<close>

theorem ReadAlgorithm_truncated:
  assumes "ds_inv ds"
  shows "(ds_unread ds = [] \<longrightarrow>
      ReadAlgorithm host ty ds = Inl (Throws (Std_out_of_range ''vector::_M_range_check'')))
    \<and> (ds_unread ds \<noteq> [] \<and> length (ds_unread ds) < sizeof ty \<longrightarrow> ReadAlgorithm host ty ds = Inl Undefined)
    \<and> (sizeof ty \<le> length (ds_unread ds) \<longrightarrow>
      (\<exists>v. ReadAlgorithm host ty ds = Inr (v, advance (sizeof ty) ds)))"
  using assms sizeof_pos [of ty]
  by (auto simp: ReadAlgorithm_def DoRead_def ds_inv_def ds_unread_def advance_def Let_def)

theorem ReadAlgorithm_truncated_witness:
  "ReadAlgorithm LITTLE T_int16 (CDataStream_copy LITTLE [1] BIG) = Inl Undefined"
  using ReadAlgorithm_truncated [of "CDataStream_copy LITTLE [1] BIG" LITTLE T_int16]
  by (simp add: ds_inv_def ds_unread_def)

text \<open>
  A string's length prefix is not checked against the bytes that follow: a stream that
  announces more bytes than it holds makes \<open>>>\<close> copy from outside the buffer.
\<close>

theorem read_string_length_unchecked:
  assumes "on_host host ds" "ds_unread ds = host_bytes (ds_stream_endian ds) 4 n @ bs"
    and "n < 2 ^ 32" "length bs < n"
  shows "read_item host T_str ds = Inl Undefined"
proof -
  have n: "unat (word_of_nat n :: u32) = n" using assms(3) by (simp add: unat_of_nat)
  have u: "ds_unread ds = scalar_image (ds_stream_endian ds) (UInt32 (word_of_nat n)) @ bs"
    using assms(2) n by simp
  have r: "ReadAlgorithm host T_uint32 ds = Inr (UInt32 (word_of_nat n), advance 4 ds)"
    using ReadAlgorithm_image [OF assms(1) u] by simp
  have "length (ds_unread (advance 4 ds)) < n" using ds_unread_advance [OF u] assms(4) by simp
  then have "\<not> ds_read_pos ds + 4 + n \<le> length (ds_buffer ds)"
    by (simp add: ds_unread_def)
  then show ?thesis by (simp add: r n Let_def)
qed

theorem read_string_length_unchecked_witness:
  "read_item LITTLE T_str (CDataStream_copy LITTLE [0, 0, 0, 9, 65] BIG) = Inl Undefined"
proof -
  have "host_bytes BIG 4 9 = [0, 0, 0, 9]"
    by (simp add: host_bytes_def le_bytes_def upt_rec)
  then show ?thesis
    using read_string_length_unchecked [of LITTLE "CDataStream_copy LITTLE [0, 0, 0, 9, 65] BIG" 9 "[65]"]
    by (simp add: ds_unread_def)
qed

end
