(* ===== verification/ProtoCodec.thy ===== *)
theory ProtoCodec
  imports DataStream
begin

text \<open>
  \<^verbatim>\<open>common/include/protoBase/ProtoCodec.hpp\<close>: the frame a protobuf message travels in, built
  and taken apart by pointer walks over one buffer, with the integers reversed in place.

  The protobuf library is a parameter (record \<open>protobuf\<close>): its descriptor pool and factory
  (\<open>pb_new\<close>), a message's type name, size, serialisation and parser. \<open>host\<close> is the byte order
  of the machine, as in theory DataStream. A read or write outside the buffer is \<open>Undefined\<close>.
\<close>

subsection \<open>Types\<close>

datatype EM_ErrCode =
    ERR_UNDEFINE | ERR_NONE | ERR_NULL_PTR | ERR_INVALID_LENGTH | ERR_CHECK_SUM
  | ERR_INVALIDE_NAME_LEN | ERR_UNKNOWN_MSG_TYPE | ERR_PARSE

record 'm protobuf =
  pb_type_name :: "'m \<Rightarrow> byte list"
  pb_byte_size :: "'m \<Rightarrow> nat"
  pb_serialize :: "'m \<Rightarrow> byte list option"
  pb_new :: "byte list \<Rightarrow> 'm option"
  pb_parse :: "'m \<Rightarrow> byte list \<Rightarrow> 'm \<times> bool"

record 'm rpc_message =
  ulSequeNum :: u32
  usNameLen :: u16
  strName :: "byte list"
  lMsgLen :: u32
  protoMsgPtr :: "'m option"
  lCheckSum :: u32

definition ProtoRpcMessage :: "'m rpc_message" where
  "ProtoRpcMessage = \<lparr>ulSequeNum = 0, usNameLen = 0, strName = [], lMsgLen = 0,
     protoMsgPtr = None, lCheckSum = 0\<rparr>"

definition PROTO_MSG_MIN_LEN :: nat where "PROTO_MSG_MIN_LEN = 16"

subsection \<open>The buffer as memory\<close>

definition load :: "nat \<Rightarrow> nat \<Rightarrow> byte list \<Rightarrow> byte list result" where
  "load off n buf = (if off + n \<le> length buf then Inr (take n (drop off buf)) else Inl Undefined)"

text \<open>
  The bytes \<open>string::append(first, last)\<close> appends; a range whose end lies before its beginning is
  outside the function's contract.
\<close>

definition append_range :: "nat \<Rightarrow> nat \<Rightarrow> byte list \<Rightarrow> byte list result" where
  "append_range p q buf = (if p \<le> q then load p (q - p) buf else Inl Undefined)"

definition store :: "nat \<Rightarrow> byte list \<Rightarrow> byte list \<Rightarrow> byte list result" where
  "store off bs buf = (if off + length bs \<le> length buf then Inr (splice_at off bs buf) else Inl Undefined)"

definition initEndian :: "emEndian \<Rightarrow> emEndian" where
  "initEndian host = (if host_bytes host 8 1 ! 0 = 1 then LITTLE else BIG)"

definition protoFlipBuf :: "emEndian \<Rightarrow> nat \<Rightarrow> nat \<Rightarrow> byte list \<Rightarrow> byte list result" where
  "protoFlipBuf host off bufSize buf =
     (if initEndian host \<noteq> BIG \<and> bufSize > 2
      then and_then (load off bufSize buf) (\<lambda>bs. store off (flipData bs bufSize) buf)
      else Inr buf)"

text \<open>Flip in place, then \<open>memcpy\<close> into an integer of that size; the changed buffer goes on.\<close>

definition flip_load :: "emEndian \<Rightarrow> nat \<Rightarrow> nat \<Rightarrow> byte list \<Rightarrow> (nat \<times> byte list) result" where
  "flip_load host off n buf =
     and_then (protoFlipBuf host off n buf) (\<lambda>buf'.
       and_then (load off n buf') (\<lambda>bs. Inr (host_value host bs, buf')))"

definition store_flip :: "emEndian \<Rightarrow> nat \<Rightarrow> nat \<Rightarrow> nat \<Rightarrow> byte list \<Rightarrow> byte list result" where
  "store_flip host off n v buf =
     and_then (store off (host_bytes host n v) buf) (protoFlipBuf host off n)"

definition hbuf_resize :: "nat \<Rightarrow> byte list \<Rightarrow> byte list" where
  "hbuf_resize cap buf = (if cap = length buf then buf else take cap buf @ replicate (cap - length buf) 0)"

subsection \<open>Decoding\<close>

definition createMessage :: "'m protobuf \<Rightarrow> byte list \<Rightarrow> 'm option" where
  "createMessage pb typeName = pb_new pb typeName"

type_synonym 'm decoded = "EM_ErrCode \<times> 'm rpc_message \<times> byte list"

text \<open>From the length of the protobuf data on.\<close>

definition decode_body ::
    "emEndian \<Rightarrow> 'm protobuf \<Rightarrow> 'm \<Rightarrow> nat \<Rightarrow> 'm rpc_message \<Rightarrow> byte list \<Rightarrow> 'm decoded result" where
  "decode_body host pb m0 p msg buf =
     and_then (flip_load host p 4 buf) (\<lambda>(v, buf).
       let msg = msg\<lparr>lMsgLen := word_of_nat v\<rparr>
       in if lMsgLen msg <s 0 then Inl Undefined
          else and_then (load (p + 4) (unat (lMsgLen msg)) buf) (\<lambda>bs.
            let r = pb_parse pb m0 bs;
                msg = msg\<lparr>protoMsgPtr := Some (fst r)\<rparr>
            in if snd r then Inr (ERR_NONE, msg, buf) else Inr (ERR_PARSE, msg, buf)))"

text \<open>From the sequence number on, the checksum having been accepted.\<close>

definition decode_head ::
    "emEndian \<Rightarrow> 'm protobuf \<Rightarrow> 'm rpc_message \<Rightarrow> byte list \<Rightarrow> 'm decoded result" where
  "decode_head host pb msg buf =
     and_then (flip_load host 0 4 buf) (\<lambda>(seq, buf).
     let msg = msg\<lparr>ulSequeNum := word_of_nat seq\<rparr> in
     and_then (flip_load host 4 2 buf) (\<lambda>(nlen, buf).
     let msg = msg\<lparr>usNameLen := word_of_nat nlen\<rparr> in
     and_then (append_range 6 (6 + unat (usNameLen msg) - 1) buf) (\<lambda>nm.
     let msg = msg\<lparr>strName := strName msg @ nm\<rparr>;
         msg = msg\<lparr>protoMsgPtr := createMessage pb (strName msg)\<rparr>
     in case protoMsgPtr msg of
          None \<Rightarrow> Inr (ERR_UNKNOWN_MSG_TYPE, msg, buf)
        | Some m0 \<Rightarrow> decode_body host pb m0 (6 + unat (usNameLen msg)) msg buf)))"

definition decode_frame ::
    "emEndian \<Rightarrow> 'm protobuf \<Rightarrow> 'm rpc_message \<Rightarrow> byte list \<Rightarrow> 'm decoded result" where
  "decode_frame host pb msg buf =
     (if length buf < PROTO_MSG_MIN_LEN then Inr (ERR_INVALID_LENGTH, msg, buf)
      else and_then (adler32 (Some buf) (unat (word_of_nat (length buf - 4) :: u32))) (\<lambda>lcheckSum.
        and_then (flip_load host (length buf - 4) 4 buf) (\<lambda>(s, buf).
          let lBufSum = word_of_nat s :: u32
          in if lcheckSum \<noteq> lBufSum then Inr (ERR_CHECK_SUM, msg, buf)
             else decode_head host pb msg buf)))"

definition decodingFromBuf ::
    "emEndian \<Rightarrow> 'm protobuf \<Rightarrow> 'm rpc_message option \<Rightarrow> byte list option \<Rightarrow>
      (EM_ErrCode \<times> 'm rpc_message option \<times> byte list option) result" where
  "decodingFromBuf host pb protoMsg buf =
     (case (protoMsg, buf) of
        (Some msg, Some b) \<Rightarrow>
          and_then (decode_frame host pb msg b) (\<lambda>(e, msg', b'). Inr (e, Some msg', Some b'))
      | _ \<Rightarrow> Inr (ERR_NULL_PTR, protoMsg, buf))"

subsection \<open>Encoding\<close>

text \<open>
  The size of the frame is a sum of \<open>int\<close>s: past \<open>2 ^ 31\<close> it overflows, and a negative one asks for
  more memory than there is.
\<close>

definition encode_frame ::
    "emEndian \<Rightarrow> 'm protobuf \<Rightarrow> 'm rpc_message \<Rightarrow> 'm \<Rightarrow> byte list \<Rightarrow> 'm decoded result" where
  "encode_frame host pb msg m buf =
     (let msg = msg\<lparr>strName := pb_type_name pb m\<rparr>;
          msg = msg\<lparr>usNameLen := word_of_nat (length (strName msg) + 1)\<rparr>;
          nameLen = unat (usNameLen msg);
          lBufSize = word_of_nat (pb_byte_size pb m) :: u32;
          size = unat lBufSize
      in if lBufSize <s 0 \<or> 2 ^ 31 \<le> 14 + nameLen + size then Inl Undefined
         else
           let buf = hbuf_resize (14 + nameLen + size) buf in
           and_then (store_flip host 0 4 (unat (ulSequeNum msg)) buf) (\<lambda>buf.
           and_then (store_flip host 4 2 nameLen buf) (\<lambda>buf.
           and_then (store 6 (take nameLen (strName msg @ [0])) buf) (\<lambda>buf.
           and_then (store_flip host (6 + nameLen) 4 size buf) (\<lambda>buf.
           case pb_serialize pb m of
             None \<Rightarrow> Inr (ERR_PARSE, msg, buf)
           | Some bs \<Rightarrow>
               if length bs > size then Inr (ERR_PARSE, msg, buf)
               else
                 and_then (store (10 + nameLen) bs buf) (\<lambda>buf.
                 and_then (adler32 (Some buf) (unat (word_of_nat (length buf - 4) :: u32))) (\<lambda>sum.
                 and_then (store_flip host (10 + nameLen + size) 4 (unat sum) buf) (\<lambda>buf.
                   Inr (ERR_NONE, msg, buf)))))))))"

definition codingToBuf ::
    "emEndian \<Rightarrow> 'm protobuf \<Rightarrow> 'm rpc_message option \<Rightarrow> byte list option \<Rightarrow>
      (EM_ErrCode \<times> 'm rpc_message option \<times> byte list option) result" where
  "codingToBuf host pb protoMsg buf =
     (case (protoMsg, buf) of
        (Some msg, Some b) \<Rightarrow>
          (case protoMsgPtr msg of
             None \<Rightarrow> Inr (ERR_NULL_PTR, protoMsg, buf)
           | Some m \<Rightarrow> and_then (encode_frame host pb msg m b) (\<lambda>(e, msg', b'). Inr (e, Some msg', Some b')))
      | _ \<Rightarrow> Inr (ERR_NULL_PTR, protoMsg, buf))"

subsection \<open>Loads and stores on a split buffer\<close>

lemma initEndian_host [simp]: "initEndian host = host"
  using on_host_init [of host undefined]
  by (simp add: initEndian_def initMachineEndian_def on_host_def Let_def)

lemma load_split: "length pre = off \<Longrightarrow> length bs = n \<Longrightarrow> load off n (pre @ bs @ suf) = Inr bs"
  by (simp add: load_def)

lemma store_split:
  "length pre = off \<Longrightarrow> length old = length bs \<Longrightarrow> store off bs (pre @ old @ suf) = Inr (pre @ bs @ suf)"
  by (simp add: store_def splice_at_def)

text \<open>The bytes of an integer field: reversed to big-endian except for the two-byte one.\<close>

definition field_bytes :: "emEndian \<Rightarrow> nat \<Rightarrow> nat \<Rightarrow> byte list" where
  "field_bytes host n v = (if n > 2 then host_bytes BIG n v else host_bytes host n v)"

lemma length_field_bytes [simp]: "length (field_bytes h n v) = n"
  by (simp add: field_bytes_def)

lemma flip_host: "host \<noteq> BIG \<Longrightarrow> flipData (host_bytes host n v) n = host_bytes BIG n v"
  using flipData_all [of "host_bytes host n v"] by (cases host) (simp_all add: host_bytes_def)

lemma protoFlipBuf_split:
  assumes "length pre = off" "length bs = n"
  shows "protoFlipBuf host off n (pre @ bs @ suf)
    = Inr (pre @ (if host \<noteq> BIG \<and> n > 2 then rev bs else bs) @ suf)"
  using assms flipData_all [of bs]
  by (simp add: protoFlipBuf_def load_split store_split)

lemma store_flip_split:
  assumes "length pre = off" "length old = n"
  shows "store_flip host off n v (pre @ old @ suf) = Inr (pre @ field_bytes host n v @ suf)"
  using assms
  by (cases host)
    (simp_all add: store_flip_def store_split protoFlipBuf_split field_bytes_def host_bytes_def)

lemma flip_load_split:
  assumes "length pre = off" "length bs = n" "v < 256 ^ n" "bs = field_bytes host n v"
  shows "flip_load host off n (pre @ bs @ suf) = Inr (v, pre @ host_bytes host n v @ suf)"
proof -
  have "protoFlipBuf host off n (pre @ bs @ suf) = Inr (pre @ host_bytes host n v @ suf)"
    using assms by (cases host) (simp_all add: protoFlipBuf_split field_bytes_def host_bytes_def)
  then show ?thesis
    using assms(1,3) by (simp add: flip_load_def load_split host_value_host_bytes)
qed

lemma hbuf_resize_length [simp]: "length (hbuf_resize n buf) = n"
  by (auto simp: hbuf_resize_def)

subsection \<open>The frame\<close>

text \<open>What the sender lays out: the fields in order, the checksum over all but itself.\<close>

definition frame_body :: "emEndian \<Rightarrow> u32 \<Rightarrow> byte list \<Rightarrow> byte list \<Rightarrow> byte list" where
  "frame_body host seq name bs =
     field_bytes host 4 (unat seq) @ field_bytes host 2 (length name + 1) @ (name @ [0])
       @ field_bytes host 4 (length bs) @ bs"

definition frame :: "emEndian \<Rightarrow> u32 \<Rightarrow> byte list \<Rightarrow> byte list \<Rightarrow> byte list" where
  "frame host seq name bs =
     (let b = frame_body host seq name bs in b @ field_bytes host 4 (unat (adler32_body b)))"

lemma length_frame_body: "length (frame_body host seq name bs) = 11 + length name + length bs"
  by (simp add: frame_body_def)

lemma list_split6:
  assumes "length xs = a + b + c + d + e + f"
  obtains x1 x2 x3 x4 x5 x6 where "xs = x1 @ x2 @ x3 @ x4 @ x5 @ x6" "length x1 = a" "length x2 = b"
    "length x3 = c" "length x4 = d" "length x5 = e" "length x6 = f"
proof -
  have s: "drop n xs = take k (drop n xs) @ drop (k + n) xs" for n k
    using append_take_drop_id [of k "drop n xs"] by simp
  have "xs = take a xs @ take b (drop a xs) @ take c (drop (b + a) xs) @ take d (drop (c + (b + a)) xs)
      @ take e (drop (d + (c + (b + a))) xs) @ drop (e + (d + (c + (b + a)))) xs"
    by (simp only: s [symmetric] append_take_drop_id)
  then show ?thesis by (rule that) (use assms in simp_all)
qed

lemma nonneg_int32: "n < 2 ^ 31 \<Longrightarrow> \<not> (word_of_nat n :: u32) <s 0 \<and> unat (word_of_nat n :: u32) = n"
  using sint_eq_unat [of "word_of_nat n :: u32"] by (simp add: word_sless_alt unat_of_nat)

lemma adler32_whole:
  "n \<le> length bs \<Longrightarrow> n < 2 ^ 32 \<Longrightarrow>
    adler32 (Some bs) (unat (word_of_nat n :: u32)) = Inr (adler32_body (take n bs))"
  by (simp add: adler32_len_le unat_of_nat)

lemma encode_frame_eq:
  assumes name: "pb_type_name pb m = name" "length name + 1 < 2 ^ 16"
    and size: "pb_byte_size pb m = length bs" "pb_serialize pb m = Some bs" "15 + length name + length bs < 2 ^ 31"
  shows "\<exists>msg'. encode_frame host pb msg m buf = Inr (ERR_NONE, msg', frame host (ulSequeNum msg) name bs)
    \<and> ulSequeNum msg' = ulSequeNum msg"
proof -
  let ?nl = "length name + 1" and ?sz = "length bs"
  have nl: "unat (word_of_nat ?nl :: u16) = ?nl" using name(2) by (simp only: unat_of_nat) simp
  have "length bs < 2 ^ 31" using size(3) by simp
  note sz = nonneg_int32 [OF this]
  have fits: "\<not> 2 ^ 31 \<le> 14 + ?nl + ?sz" using size(3) by simp
  let ?buf = "hbuf_resize (14 + ?nl + ?sz) buf"
  have "length ?buf = 4 + 2 + ?nl + 4 + ?sz + 4" by simp
  then obtain x1 x2 x3 x4 x5 x6 where b: "?buf = x1 @ x2 @ x3 @ x4 @ x5 @ x6"
    and l: "length x1 = 4" "length x2 = 2" "length x3 = ?nl" "length x4 = 4" "length x5 = ?sz" "length x6 = 4"
    by (rule list_split6)
  define f1 where "f1 = field_bytes host 4 (unat (ulSequeNum msg))"
  define f2 where "f2 = field_bytes host 2 ?nl"
  define nm where "nm = name @ [0 :: byte]"
  define f4 where "f4 = field_bytes host 4 ?sz"
  define bd where "bd = f1 @ f2 @ nm @ f4 @ bs"
  define f6 where "f6 = field_bytes host 4 (unat (adler32_body bd))"
  have lf: "length f1 = 4" "length f2 = 2" "length nm = ?nl" "length f4 = 4"
    by (simp_all add: f1_def f2_def nm_def f4_def)
  have s1: "store_flip host 0 4 (unat (ulSequeNum msg)) ?buf = Inr (f1 @ x2 @ x3 @ x4 @ x5 @ x6)"
    unfolding b f1_def using store_flip_split [of "[]" 0 x1 4] l by simp
  have s2: "store_flip host 4 2 ?nl (f1 @ x2 @ x3 @ x4 @ x5 @ x6) = Inr (f1 @ f2 @ x3 @ x4 @ x5 @ x6)"
    unfolding f2_def using store_flip_split [of f1 4 x2 2] l lf by simp
  have s3: "store 6 (take ?nl nm) (f1 @ f2 @ x3 @ x4 @ x5 @ x6) = Inr (f1 @ f2 @ nm @ x4 @ x5 @ x6)"
    using store_split [of "f1 @ f2" 6 x3 nm] l lf by simp
  have s4: "store_flip host (6 + ?nl) 4 ?sz (f1 @ f2 @ nm @ x4 @ x5 @ x6) = Inr (f1 @ f2 @ nm @ f4 @ x5 @ x6)"
    unfolding f4_def using store_flip_split [of "f1 @ f2 @ nm" "6 + ?nl" x4 4] l lf by simp
  have s5: "store (10 + ?nl) bs (f1 @ f2 @ nm @ f4 @ x5 @ x6) = Inr (bd @ x6)"
    unfolding bd_def using store_split [of "f1 @ f2 @ nm @ f4" "10 + ?nl" x5 bs] l lf by simp
  have lb: "length bd = 10 + ?nl + ?sz" using lf by (simp add: bd_def)
  have s6: "adler32 (Some (bd @ x6)) (unat (word_of_nat (length (bd @ x6) - 4) :: u32)) = Inr (adler32_body bd)"
  proof -
    have "length (bd @ x6) - 4 = length bd" using l by simp
    then show ?thesis using adler32_whole [of "length bd" "bd @ x6"] name(2) size(3) lb by (simp only:) simp
  qed
  have s7: "store_flip host (10 + ?nl + ?sz) 4 (unat (adler32_body bd)) (bd @ x6) = Inr (bd @ f6)"
    unfolding f6_def using store_flip_split [of bd "10 + ?nl + ?sz" x6 4 host _ "[]"] l lb by simp
  have fr: "bd @ f6 = frame host (ulSequeNum msg) name bs"
    by (simp add: frame_def frame_body_def f6_def bd_def f1_def f2_def nm_def f4_def Let_def)
  let ?msg = "msg\<lparr>strName := name, usNameLen := word_of_nat ?nl\<rparr>"
  have "encode_frame host pb msg m buf = Inr (ERR_NONE, ?msg, bd @ f6)"
    using s1 s2 s3 s4 s5 s6 s7 sz fits unfolding nm_def
    by (cases msg) (simp only: encode_frame_def Let_def name(1) size(1,2) rpc_message.simps nl if_False if_True
        and_then_simps option.case less_irrefl simp_thms)
  then show ?thesis using fr by (intro exI [of _ ?msg]) simp
qed

lemma word_of_nat_unat: "word_of_nat (unat (w :: u32)) = w"
  by simp

lemma decode_frame_eq:
  assumes name: "length name + 1 < 2 ^ 16" "name \<noteq> []" "length bs < 2 ^ 31"
    and pb: "pb_new pb name = Some m0" "pb_parse pb m0 bs = (m, True)"
  shows "\<exists>msg' buf'. decode_frame host pb ProtoRpcMessage (frame host seq name bs) = Inr (ERR_NONE, msg', buf')
    \<and> ulSequeNum msg' = seq \<and> strName msg' = name \<and> protoMsgPtr msg' = Some m"
proof -
  let ?nl = "length name + 1" and ?sz = "length bs"
  define f1 where "f1 = field_bytes host 4 (unat seq)"
  define f2 where "f2 = field_bytes host 2 ?nl"
  define f4 where "f4 = field_bytes host 4 ?sz"
  define bd where "bd = f1 @ f2 @ (name @ [0]) @ f4 @ bs"
  define f6 where "f6 = field_bytes host 4 (unat (adler32_body bd))"
  define h1 where "h1 = host_bytes host 4 (unat seq)"
  define h2 where "h2 = host_bytes host 2 ?nl"
  define h4 where "h4 = host_bytes host 4 ?sz"
  define h6 where "h6 = host_bytes host 4 (unat (adler32_body bd))"
  have fr: "frame host seq name bs = bd @ f6"
    by (simp add: frame_def frame_body_def f6_def bd_def f1_def f2_def f4_def Let_def)
  have lf: "length f1 = 4" "length f2 = 2" "length f4 = 4" "length f6 = 4" "length h1 = 4" "length h2 = 2"
      "length h4 = 4" "length h6 = 4"
    by (simp_all add: f1_def f2_def f4_def f6_def h1_def h2_def h4_def h6_def)
  have lb: "length bd = 10 + ?nl + ?sz" using lf by (simp add: bd_def)
  have m: "\<not> length (bd @ f6) < PROTO_MSG_MIN_LEN"
    using lb lf name(2) by (cases name) (simp_all add: PROTO_MSG_MIN_LEN_def)
  have d0: "adler32 (Some (bd @ f6)) (unat (word_of_nat (length (bd @ f6) - 4) :: u32)) = Inr (adler32_body bd)"
  proof -
    have "length (bd @ f6) - 4 = length bd" using lf by simp
    then show ?thesis using adler32_whole [of "length bd" "bd @ f6"] name lb by (simp only:) simp
  qed
  have u: "unat (w :: u32) < 256 ^ 4" for w using unat_small(3) by simp
  have d1: "flip_load host (length (bd @ f6) - 4) 4 (bd @ f6) = Inr (unat (adler32_body bd), bd @ h6)"
    using flip_load_split [of bd "length bd" f6 4 _ host "[]"] lf u by (simp add: f6_def h6_def)
  have d2: "flip_load host 0 4 (bd @ h6) = Inr (unat seq, h1 @ f2 @ (name @ [0]) @ f4 @ bs @ h6)"
    using flip_load_split [of "[]" 0 f1 4 "unat seq" host "f2 @ (name @ [0]) @ f4 @ bs @ h6"] lf u
    by (simp add: bd_def f1_def h1_def)
  have d3: "flip_load host 4 2 (h1 @ f2 @ (name @ [0]) @ f4 @ bs @ h6) = Inr (?nl, h1 @ h2 @ (name @ [0]) @ f4 @ bs @ h6)"
    using flip_load_split [of h1 4 f2 2 ?nl host "(name @ [0]) @ f4 @ bs @ h6"] lf name(1)
    by (simp add: f2_def h2_def)
  have "load 6 (?nl - 1) (h1 @ h2 @ (name @ [0]) @ f4 @ bs @ h6) = Inr name"
    using load_split [of "h1 @ h2" 6 name "length name" "[0] @ f4 @ bs @ h6"] lf by simp
  then have d4: "append_range 6 (6 + ?nl - 1) (h1 @ h2 @ (name @ [0]) @ f4 @ bs @ h6) = Inr name"
    by (simp add: append_range_def)
  have d5: "flip_load host (6 + ?nl) 4 (h1 @ h2 @ (name @ [0]) @ f4 @ bs @ h6) = Inr (?sz, h1 @ h2 @ (name @ [0]) @ h4 @ bs @ h6)"
    using flip_load_split [of "h1 @ h2 @ (name @ [0])" "6 + ?nl" f4 4 ?sz host "bs @ h6"] lf name(3)
    by (simp add: f4_def h4_def)
  have d6: "load (6 + ?nl + 4) ?sz (h1 @ h2 @ (name @ [0]) @ h4 @ bs @ h6) = Inr bs"
    using load_split [of "h1 @ h2 @ (name @ [0]) @ h4" "6 + ?nl + 4" bs ?sz h6] lf by simp
  have nl: "unat (word_of_nat ?nl :: u16) = ?nl" using name(1) by (simp only: unat_of_nat) simp
  note sz = nonneg_int32 [OF name(3)]
  let ?msg = "ProtoRpcMessage\<lparr>ulSequeNum := seq, usNameLen := word_of_nat ?nl, strName := name,
    protoMsgPtr := Some m0\<rparr> :: 'a rpc_message"
  have body: "decode_body host pb m0 (6 + ?nl) ?msg (h1 @ h2 @ (name @ [0]) @ f4 @ bs @ h6)
      = Inr (ERR_NONE, ?msg\<lparr>lMsgLen := word_of_nat ?sz, protoMsgPtr := Some m\<rparr>, h1 @ h2 @ (name @ [0]) @ h4 @ bs @ h6)"
    using sz by (simp only: ProtoRpcMessage_def decode_body_def d5 and_then_simps prod.case Let_def rpc_message.simps if_False
        d6 pb(2) fst_conv snd_conv if_True)
  have head: "decode_head host pb ProtoRpcMessage (bd @ h6) =
      decode_body host pb m0 (6 + ?nl) ?msg (h1 @ h2 @ (name @ [0]) @ f4 @ bs @ h6)"
  proof -
    have "?nl \<noteq> 0" by simp
    then show ?thesis
      by (simp only: ProtoRpcMessage_def decode_head_def d2 and_then_simps prod.case Let_def rpc_message.simps nl d3 d4
          if_False append_Nil createMessage_def pb(1) option.case word_of_nat_unat)
  qed
  have "decode_frame host pb ProtoRpcMessage (bd @ f6) = decode_head host pb ProtoRpcMessage (bd @ h6)"
    using m by (simp only: decode_frame_def d0 and_then_simps d1 prod.case Let_def if_False
        word_of_nat_unat simp_thms)
  then show ?thesis unfolding fr head body by simp
qed

subsection \<open>Round trip\<close>

text \<open>
  What the codec needs of the protobuf library for a message: serialisation succeeds with the
  announced size, the whole frame is smaller than \<open>2 ^ 31\<close> bytes, the factory knows the type and the
  parser inverts the serialiser.
\<close>

definition pb_wire_ok :: "'m protobuf \<Rightarrow> 'm \<Rightarrow> bool" where
  "pb_wire_ok pb m \<longleftrightarrow>
     pb_type_name pb m \<noteq> [] \<and> length (pb_type_name pb m) + 1 < 2 ^ 16 \<and>
     (case (pb_serialize pb m, pb_new pb (pb_type_name pb m)) of
        (Some bs, Some m0) \<Rightarrow> pb_byte_size pb m = length bs \<and>
          15 + length (pb_type_name pb m) + length bs < 2 ^ 31 \<and> pb_parse pb m0 bs = (m, True)
      | _ \<Rightarrow> False)"

definition request_of :: "u32 \<Rightarrow> 'm \<Rightarrow> 'm rpc_message" where
  "request_of seq m = ProtoRpcMessage\<lparr>ulSequeNum := seq, protoMsgPtr := Some m\<rparr>"

text \<open>Both directions as a codec of sequence number and message; any error code is a failure.\<close>

definition rpc_encode :: "emEndian \<Rightarrow> 'm protobuf \<Rightarrow> u32 \<times> 'm \<Rightarrow> byte list result" where
  "rpc_encode host pb x =
     and_then (codingToBuf host pb (Some (request_of (fst x) (snd x))) (Some [])) (\<lambda>(e, _, b).
       case (e, b) of (ERR_NONE, Some b) \<Rightarrow> Inr b | _ \<Rightarrow> Inl Aborts)"

definition rpc_decode :: "emEndian \<Rightarrow> 'm protobuf \<Rightarrow> byte list \<Rightarrow> (u32 \<times> 'm) result" where
  "rpc_decode host pb b =
     and_then (decodingFromBuf host pb (Some ProtoRpcMessage) (Some b)) (\<lambda>(e, m, _).
       case (e, m) of
         (ERR_NONE, Some msg) \<Rightarrow> (case protoMsgPtr msg of Some x \<Rightarrow> Inr (ulSequeNum msg, x) | None \<Rightarrow> Inl Aborts)
       | _ \<Rightarrow> Inl Aborts)"

lemma codingToBuf_ok:
  assumes "pb_wire_ok pb m" "protoMsgPtr msg = Some m"
  shows "\<exists>msg' bs. codingToBuf host pb (Some msg) (Some b0)
      = Inr (ERR_NONE, Some msg', Some (frame host (ulSequeNum msg) (pb_type_name pb m) bs))
    \<and> pb_serialize pb m = Some bs"
proof -
  obtain bs where "pb_serialize pb m = Some bs" "pb_byte_size pb m = length bs"
    "15 + length (pb_type_name pb m) + length bs < 2 ^ 31" "length (pb_type_name pb m) + 1 < 2 ^ 16"
    using assms(1) by (auto simp: pb_wire_ok_def split: option.splits)
  with encode_frame_eq [OF refl this(4,2,1,3), of host msg b0] show ?thesis
    using assms(2) by (auto simp: codingToBuf_def)
qed

lemma decodingFromBuf_ok:
  assumes "pb_wire_ok pb m" "pb_serialize pb m = Some bs"
  shows "\<exists>msg' b'. decodingFromBuf host pb (Some ProtoRpcMessage) (Some (frame host seq (pb_type_name pb m) bs))
      = Inr (ERR_NONE, Some msg', Some b')
    \<and> ulSequeNum msg' = seq \<and> strName msg' = pb_type_name pb m \<and> protoMsgPtr msg' = Some m"
proof -
  obtain m0 where "pb_new pb (pb_type_name pb m) = Some m0" "pb_parse pb m0 bs = (m, True)"
    "15 + length (pb_type_name pb m) + length bs < 2 ^ 31"
    using assms by (auto simp: pb_wire_ok_def split: option.splits)
  moreover from this have "length bs < 2 ^ 31" by simp
  ultimately show ?thesis using decode_frame_eq [of "pb_type_name pb m" bs pb m0 m host seq] assms by (auto simp: decodingFromBuf_def pb_wire_ok_def)
qed

interpretation rpc: byte_codec "\<lambda>x. pb_wire_ok pb (snd x)" "rpc_encode host pb" "rpc_decode host pb" for host pb
proof
  fix x :: "u32 \<times> 'a" and b
  let ?r = "request_of (fst x) (snd x)"
  assume ok: "pb_wire_ok pb (snd x)"
  have r: "protoMsgPtr ?r = Some (snd x)" "ulSequeNum ?r = fst x" by (simp_all add: request_of_def)
  obtain msg' bs where e: "codingToBuf host pb (Some ?r) (Some [])
      = Inr (ERR_NONE, Some msg', Some (frame host (fst x) (pb_type_name pb (snd x)) bs))"
    "pb_serialize pb (snd x) = Some bs"
    using codingToBuf_ok [OF ok r(1), of host "[]"] r(2) by auto
  then show "\<exists>s. rpc_encode host pb x = Inr s" by (simp add: rpc_encode_def)
  assume "rpc_encode host pb x = Inr b"
  then have "b = frame host (fst x) (pb_type_name pb (snd x)) bs" using e(1) by (simp add: rpc_encode_def)
  then show "rpc_decode host pb b = Inr x"
    using decodingFromBuf_ok [OF ok e(2), of host "fst x"] by (auto simp: rpc_decode_def)
qed

text \<open>A one-type library for concrete inputs: type \<open>M\<close>, whose messages are their own bytes.\<close>

definition bytes_pb :: "byte list protobuf" where
  "bytes_pb = \<lparr>pb_type_name = (\<lambda>_. [77]), pb_byte_size = length, pb_serialize = Some,
     pb_new = (\<lambda>n. if n = [77] then Some [] else None), pb_parse = (\<lambda>_ bs. (bs, True))\<rparr>"

lemma bytes_pb_ok: "length m < 2 ^ 30 \<Longrightarrow> pb_wire_ok bytes_pb m"
  by (simp add: pb_wire_ok_def bytes_pb_def)

text \<open>
  C2: A message coded into any buffer and decoded on a host of the same byte order arrives with
  its sequence number, its type name and its content: the checksum is accepted, every length
  field is found where the decoder looks for it and no access leaves the buffer. Needed of
  protobuf: it parses what it serialised, the type name is non-empty and fits the 16-bit length, and
  the frame with its 15 bytes of overhead is below \<open>2 ^ 31\<close> bytes, as its size is computed in an \<open>int\<close>.
\<close>

theorem proto_codec_roundtrip:
  assumes "pb_wire_ok pb m" "protoMsgPtr msg = Some m"
  shows "\<exists>msg1 buf msg2 buf2. codingToBuf host pb (Some msg) (Some b0) = Inr (ERR_NONE, msg1, Some buf)
    \<and> decodingFromBuf host pb (Some ProtoRpcMessage) (Some buf) = Inr (ERR_NONE, Some msg2, buf2)
    \<and> ulSequeNum msg2 = ulSequeNum msg \<and> strName msg2 = pb_type_name pb m \<and> protoMsgPtr msg2 = Some m"
proof -
  obtain msg1 bs where "codingToBuf host pb (Some msg) (Some b0)
      = Inr (ERR_NONE, Some msg1, Some (frame host (ulSequeNum msg) (pb_type_name pb m) bs))"
    "pb_serialize pb m = Some bs"
    using codingToBuf_ok [OF assms, of host b0] by blast
  with decodingFromBuf_ok [OF assms(1) this(2), of host "ulSequeNum msg"] show ?thesis by blast
qed

theorem proto_codec_roundtrip_witness:
  "\<exists>msg1 buf msg2 buf2.
      codingToBuf LITTLE bytes_pb (Some (request_of 7 [1, 2, 3])) (Some []) = Inr (ERR_NONE, msg1, Some buf)
    \<and> decodingFromBuf LITTLE bytes_pb (Some ProtoRpcMessage) (Some buf) = Inr (ERR_NONE, Some msg2, buf2)
    \<and> ulSequeNum msg2 = 7 \<and> protoMsgPtr msg2 = Some [1, 2, 3]"
  using proto_codec_roundtrip [of bytes_pb "[1, 2, 3]" "request_of 7 [1, 2, 3]" LITTLE "[]"] bytes_pb_ok [of "[1, 2, 3]"]
  by (auto simp: request_of_def)

subsection \<open>Rejected frames\<close>

lemma flip_load_tail:
  assumes "length t = 4"
  shows "flip_load host (length b) 4 (b @ t)
    = Inr (host_value BIG t, b @ (if host = BIG then t else rev t))"
  using protoFlipBuf_split [of b "length b" t 4 host "[]"] assms
    load_split [of b "length b" t 4 "[]"] load_split [of b "length b" "rev t" 4 "[]"]
  by (cases host) (simp_all add: flip_load_def host_value_def)

lemma decode_frame_checked:
  assumes "12 \<le> length b" "length t = 4" "length b < 2 ^ 32"
  shows "decode_frame host pb msg (b @ t) =
    (let t' = b @ (if host = BIG then t else rev t)
     in if adler32_body b \<noteq> word_of_nat (host_value BIG t) then Inr (ERR_CHECK_SUM, msg, t')
        else decode_head host pb msg t')"
proof -
  have l: "length (b @ t) - 4 = length b" "\<not> length (b @ t) < PROTO_MSG_MIN_LEN"
    using assms by (simp_all add: PROTO_MSG_MIN_LEN_def)
  have a: "adler32 (Some (b @ t)) (unat (word_of_nat (length b) :: u32)) = Inr (adler32_body b)"
    using adler32_whole [of "length b" "b @ t"] assms(3) by simp
  show ?thesis
    by (simp only: decode_frame_def l a and_then_simps flip_load_tail [OF assms(2)] prod.case Let_def if_False)
qed

text \<open>
  C14: Any buffer shorter than 16 bytes, the empty one included, is refused as too short, and one
  whose last four bytes are not the big-endian checksum of the rest is refused for its checksum; no
  message is built. A short buffer is left as it came; of the other the trailer is reversed on a
  little-endian host, against the comment of the server, which sends it back as the original.
\<close>

theorem decode_rejects:
  assumes "length t4 = 4"
  shows "(length s < 16 \<longrightarrow> decode_frame host pb msg s = Inr (ERR_INVALID_LENGTH, msg, s)) \<and>
    (12 \<le> length b \<and> length b < 2 ^ 32 \<and> adler32_body b \<noteq> word_of_nat (host_value BIG t4) \<longrightarrow>
      decode_frame host pb msg (b @ t4) = Inr (ERR_CHECK_SUM, msg, b @ (if host = BIG then t4 else rev t4)))"
  using assms
  by (simp add: decode_frame_checked Let_def) (simp add: decode_frame_def PROTO_MSG_MIN_LEN_def)

theorem decode_rejects_witness:
  "decode_frame LITTLE bytes_pb ProtoRpcMessage [] = Inr (ERR_INVALID_LENGTH, ProtoRpcMessage, []) \<and>
   decode_frame LITTLE bytes_pb ProtoRpcMessage ([0, 0, 0, 0, 0, 0, 0, 0, 0, 0, 0, 0] @ [1, 2, 3, 4])
    = Inr (ERR_CHECK_SUM, ProtoRpcMessage, [0, 0, 0, 0, 0, 0, 0, 0, 0, 0, 0, 0] @ [4, 3, 2, 1])"
proof -
  let ?z = "[0, 0, 0, 0, 0, 0, 0, 0, 0, 0, 0, 0] :: byte list"
  have l: "length ?z = 12" by simp
  have "adler32_body ?z \<noteq> word_of_nat (host_value BIG [1, 2, 3, 4])"
    by (simp add: adler32_body_def host_value_def combine_def DO1.simps Let_def MOD64_def)
  then show ?thesis
    using decode_rejects [of "[1, 2, 3, 4]" "[]" LITTLE bytes_pb ProtoRpcMessage ?z] unfolding l by simp
qed

text \<open>
  The decoder answers every pair of non-null arguments with one of five codes; in
  particular \<open>ERR_INVALIDE_NAME_LEN\<close>, the code for a bad name length, is never produced, and
  a null argument gives \<open>ERR_NULL_PTR\<close> and changes nothing.
\<close>

theorem decode_error_codes:
  "(\<forall>m b. decodingFromBuf host pb (Some msg) (Some buf) = Inr (e, m, b) \<longrightarrow>
      e \<in> {ERR_NONE, ERR_INVALID_LENGTH, ERR_CHECK_SUM, ERR_UNKNOWN_MSG_TYPE, ERR_PARSE})
    \<and> decodingFromBuf host pb None ob = Inr (ERR_NULL_PTR, None, ob)
    \<and> decodingFromBuf host pb om None = Inr (ERR_NULL_PTR, om, None)"
  by (auto simp: decodingFromBuf_def decode_frame_def decode_head_def decode_body_def and_then_eq_Inr Let_def
      split: if_splits option.splits prod.splits)

theorem decode_error_codes_witness:
  "\<forall>m b. decodingFromBuf LITTLE bytes_pb (Some ProtoRpcMessage) (Some [1]) \<noteq> Inr (ERR_INVALIDE_NAME_LEN, m, b)"
  using decode_error_codes [of LITTLE bytes_pb ProtoRpcMessage "[1]" ERR_INVALIDE_NAME_LEN] by auto

text \<open>The head of an accepted frame, up to the name.\<close>

lemma decode_head_bad_name:
  assumes "12 \<le> length b"
    and "nl = host_value host (take 2 (drop 4 b))" "nl = 0 \<or> length b + 4 < 5 + nl" "length t = 4"
  shows "decode_head host pb msg (b @ t) = Inl Undefined"
proof -
  define x y z where "x = take 4 b" and "y = take 2 (drop 4 b)" and "z = drop 6 b"
  have "drop 4 b = y @ z"
    using append_take_drop_id [of 2 "drop 4 b"] by (simp add: y_def z_def)
  then have b: "b = x @ y @ z" using append_take_drop_id [of 4 b] by (simp add: x_def)
  have l: "length x = 4" "length y = 2" using assms(1) by (simp_all add: x_def y_def)
  let ?x = "if host = BIG then x else rev x"
  have f1: "protoFlipBuf host 0 4 (b @ t) = Inr (?x @ y @ z @ t)"
    using protoFlipBuf_split [of "[]" 0 x 4 host "y @ z @ t"] l by (simp add: b)
  have f2: "load 0 4 (?x @ y @ z @ t) = Inr ?x"
    using load_split [of "[]" 0 ?x 4 "y @ z @ t"] l by simp
  have f3: "protoFlipBuf host 4 2 (?x @ y @ z @ t) = Inr (?x @ y @ z @ t)"
    by (simp add: protoFlipBuf_def)
  have f4: "load 4 2 (?x @ y @ z @ t) = Inr y"
    using load_split [of ?x 4 y 2 "z @ t"] l by simp
  have "nl < 256 ^ 2" using le_value_bound [of y] le_value_bound [of "rev y"] l(2)
    by (cases host) (simp_all add: assms(2) y_def [symmetric] host_value_def)
  then have nl: "unat (word_of_nat nl :: u16) = nl" by (simp add: unat_of_nat)
  have "append_range 6 (6 + nl - 1) (?x @ y @ z @ t) = Inl Undefined"
    using assms(3,4) l by (auto simp: append_range_def load_def b)
  then show ?thesis
    using f1 f2 f3 f4 nl assms(2)
    by (simp add: decode_head_def flip_load_def Let_def y_def [symmetric])
qed

lemma head_overrun:
  assumes "12 \<le> length b" "length b < 2 ^ 32"
    and "nl = host_value host (take 2 (drop 4 b))" "nl = 0 \<or> length b + 4 < 5 + nl"
  shows "decodingFromBuf host pb (Some msg) (Some (b @ host_bytes BIG 4 (unat (adler32_body b)))) = Inl Undefined"
proof -
  let ?t = "host_bytes BIG 4 (unat (adler32_body b))"
  have "unat (adler32_body b) < 256 ^ 4" using unat_small(3) by simp
  then have "word_of_nat (host_value BIG ?t) = adler32_body b"
    by (simp add: host_value_host_bytes word_of_nat_unat)
  then have "decode_frame host pb msg (b @ ?t) = decode_head host pb msg (b @ (if host = BIG then ?t else rev ?t))"
    using decode_frame_checked [of b ?t host pb msg] assms(1,2) by (simp add: Let_def)
  also have "\<dots> = Inl Undefined"
    by (rule decode_head_bad_name [OF assms(1,3,4)]) simp
  finally show ?thesis by (simp add: decodingFromBuf_def)
qed

text \<open>
  C21: The name length is taken from the frame unchecked: a frame that passes the checksum makes the
  decoder read outside the buffer when it announces a name that ends behind the buffer, and hand
  \<open>string::append\<close> a range that ends before it begins when it announces one of length zero.
\<close>

theorem decode_name_length_unchecked:
  assumes "12 \<le> length b" "length b < 2 ^ 32"
    and "nl = host_value host (take 2 (drop 4 b))" "nl = 0 \<or> length b + 4 < 5 + nl"
  shows "decodingFromBuf host pb (Some msg) (Some (b @ host_bytes BIG 4 (unat (adler32_body b)))) = Inl Undefined"
  using assms by (rule head_overrun)

theorem decode_name_length_unchecked_witness:
  "decodingFromBuf LITTLE bytes_pb (Some ProtoRpcMessage)
     (Some ([0, 0, 0, 1, 200, 0, 77, 0, 0, 0, 0, 0]
       @ host_bytes BIG 4 (unat (adler32_body [0, 0, 0, 1, 200, 0, 77, 0, 0, 0, 0, 0])))) = Inl Undefined"
  by (rule decode_name_length_unchecked [where nl = 200]) (simp_all add: host_value_def)

lemma swapped_small: "n < 256 \<Longrightarrow> le_value (rev (le_bytes 2 n)) = 256 * n"
  by (simp add: le_bytes_def upt_rec unat_of_nat)

text \<open>
  The frame is meant to be big-endian, but the two-byte name length is left in the
  sender's order (only fields of more than two bytes are reversed): a big-endian host takes
  a little-endian host's well-formed frame with a short name for one whose name runs out of
  the buffer.
\<close>

theorem name_length_not_portable:
  assumes "name \<noteq> []" "length name + 1 < 256" "length bs < 255 * length name"
  shows "decodingFromBuf BIG pb (Some msg) (Some (frame LITTLE seq name bs)) = Inl Undefined"
proof -
  let ?b = "frame_body LITTLE seq name bs" and ?nl = "length name + 1"
  have l: "length ?b = 11 + length name + length bs" by (rule length_frame_body)
  have "take 2 (drop 4 ?b) = host_bytes LITTLE 2 ?nl"
    by (simp add: frame_body_def field_bytes_def)
  moreover have "le_value (rev (le_bytes 2 ?nl)) = 256 * ?nl"
    by (rule swapped_small [OF assms(2)])
  ultimately have v: "256 * ?nl = host_value BIG (take 2 (drop 4 ?b))"
    by (simp add: host_value_def host_bytes_def)
  have "frame LITTLE seq name bs = ?b @ host_bytes BIG 4 (unat (adler32_body ?b))"
    by (simp add: frame_def field_bytes_def Let_def)
  moreover have "12 \<le> length ?b" using l assms(1) by (cases name) simp_all
  moreover have "length ?b < 2 ^ 32" "length ?b + 4 < 5 + 256 * ?nl" using l assms by simp_all
  ultimately show ?thesis using head_overrun [OF _ _ v] by simp
qed

theorem name_length_not_portable_witness:
  "decodingFromBuf BIG bytes_pb (Some ProtoRpcMessage) (Some (frame LITTLE 1 [77] [])) = Inl Undefined"
  by (rule name_length_not_portable) simp_all

end
