(* ===== verification/ProtoServer.thy ===== *)
theory ProtoServer
  imports ProtoCodec
begin

text \<open>
  \<^verbatim>\<open>service/compnets/ProtoRpcServer/CProtoServe.cpp\<close> and \<^verbatim>\<open>IProtoRpcServer.h\<close>: the message
  handler of one connection. The connection (\<open>hv::SocketChannel\<close>, a vendored class) is the
  login flag the server keeps in it and the calls made on it, in order. A registered callback
  is a function of the request and of the application's state \<open>'w\<close>; the callback map is an
  association list keyed by the request type's name, which stands for its descriptor.
\<close>

datatype channel_call = Ch_write "byte list" | Ch_close

record channel =
  clientState :: bool
  calls :: "channel_call list"

definition new_channel :: channel where
  "new_channel = \<lparr>clientState = False, calls = []\<rparr>"

definition channel_write :: "byte list \<Rightarrow> channel \<Rightarrow> channel" where
  "channel_write bs ch = ch\<lparr>calls := calls ch @ [Ch_write bs]\<rparr>"

definition channel_close :: "channel \<Rightarrow> channel" where
  "channel_close ch = ch\<lparr>calls := calls ch @ [Ch_close]\<rparr>"

type_synonym ('m, 'w) callback = "'m \<Rightarrow> 'w \<Rightarrow> 'm option \<times> 'w"
type_synonym ('m, 'w) callbacks = "(byte list \<times> ('m, 'w) callback) list"

text \<open>Registering a type a second time is reported and changes nothing.\<close>

definition registerMessageCallback ::
    "byte list \<Rightarrow> ('m, 'w) callback \<Rightarrow> ('m, 'w) callbacks \<Rightarrow> ('m, 'w) callbacks" where
  "registerMessageCallback descrip cb cbs =
     (if map_of cbs descrip \<noteq> None then cbs else (descrip, cb) # cbs)"

definition dealProtobufMessage ::
    "'m protobuf \<Rightarrow> ('m, 'w) callbacks \<Rightarrow> 'm \<Rightarrow> 'w \<Rightarrow> 'm option \<times> 'w" where
  "dealProtobufMessage pb cbs request w =
     (case map_of cbs (pb_type_name pb request) of
        None \<Rightarrow> (None, w)
      | Some cb \<Rightarrow> cb request w)"

text \<open>
  \<open>mmrService.LoginRequest\<close>, the type name the login handler compares with.
\<close>

definition login_type :: "byte list" where
  "login_type = [109, 109, 114, 83, 101, 114, 118, 105, 99, 101, 46,
     76, 111, 103, 105, 110, 82, 101, 113, 117, 101, 115, 116]"

text \<open>Code the response into a fresh buffer and write it; the coder's return code is not looked at.\<close>

definition send_response ::
    "emEndian \<Rightarrow> 'm protobuf \<Rightarrow> u32 \<Rightarrow> 'm \<Rightarrow> channel \<Rightarrow> channel result" where
  "send_response host pb seq response ch =
     (let protoResponse = ProtoRpcMessage\<lparr>protoMsgPtr := Some response, ulSequeNum := seq\<rparr>
      in and_then (codingToBuf host pb (Some protoResponse) (Some [])) (\<lambda>(_, _, outBuf).
           Inr (channel_write (case outBuf of Some b \<Rightarrow> b | None \<Rightarrow> []) ch)))"

definition echo_and_close :: "byte list option \<Rightarrow> channel \<Rightarrow> channel" where
  "echo_and_close buf ch =
     channel_close (channel_write (case buf of Some b \<Rightarrow> b | None \<Rightarrow> []) ch)"

definition onDealLoginMessage ::
    "emEndian \<Rightarrow> 'm protobuf \<Rightarrow> ('m, 'w) callbacks \<Rightarrow> byte list \<Rightarrow> channel \<Rightarrow> 'w \<Rightarrow> (channel \<times> 'w) result"
  where
  "onDealLoginMessage host pb cbs buf ch w =
     and_then (decodingFromBuf host pb (Some ProtoRpcMessage) (Some buf)) (\<lambda>(errCode, req, buf').
       case (errCode, req) of
         (ERR_NONE, Some protoRequest) \<Rightarrow>
           (case protoMsgPtr protoRequest of
              None \<Rightarrow> Inl Undefined
            | Some m \<Rightarrow>
                if pb_type_name pb m = login_type then
                  (case dealProtobufMessage pb cbs m w of
                     (Some response, w') \<Rightarrow>
                       and_then (send_response host pb (ulSequeNum protoRequest) response (ch\<lparr>clientState := True\<rparr>))
                         (\<lambda>ch'. Inr (ch', w'))
                   | (None, w') \<Rightarrow> Inr (channel_close ch, w'))
                else Inr (echo_and_close buf' ch, w))
       | _ \<Rightarrow> Inr (echo_and_close buf' ch, w))"

definition onDealMessage ::
    "emEndian \<Rightarrow> 'm protobuf \<Rightarrow> ('m, 'w) callbacks \<Rightarrow> byte list \<Rightarrow> channel \<Rightarrow> 'w \<Rightarrow> (channel \<times> 'w) result"
  where
  "onDealMessage host pb cbs buf ch w =
     (if \<not> clientState ch then onDealLoginMessage host pb cbs buf ch w
      else
        and_then (decodingFromBuf host pb (Some ProtoRpcMessage) (Some buf)) (\<lambda>(errCode, req, buf').
          case (errCode, req) of
            (ERR_NONE, Some protoRequest) \<Rightarrow>
              (case protoMsgPtr protoRequest of
                 None \<Rightarrow> Inl Undefined
               | Some m \<Rightarrow>
                   (case dealProtobufMessage pb cbs m w of
                      (Some response, w') \<Rightarrow>
                        and_then (send_response host pb (ulSequeNum protoRequest) response ch) (\<lambda>ch'. Inr (ch', w'))
                    | (None, w') \<Rightarrow> Inr (channel_close ch, w')))
          | _ \<Rightarrow> Inr (echo_and_close buf' ch, w)))"

text \<open>The messages of one connection, in the order they arrive.\<close>

fun deal_messages ::
    "emEndian \<Rightarrow> 'm protobuf \<Rightarrow> ('m, 'w) callbacks \<Rightarrow> byte list list \<Rightarrow> channel \<Rightarrow> 'w \<Rightarrow> (channel \<times> 'w) result"
  where
  "deal_messages host pb cbs [] ch w = Inr (ch, w)"
| "deal_messages host pb cbs (b # bs) ch w =
     and_then (onDealMessage host pb cbs b ch w) (\<lambda>(ch', w'). deal_messages host pb cbs bs ch' w')"

subsection \<open>Before login\<close>

text \<open>The request a frame carries for this server, if it decodes.\<close>

definition decoded_request :: "emEndian \<Rightarrow> 'm protobuf \<Rightarrow> byte list \<Rightarrow> 'm option" where
  "decoded_request host pb buf =
     (case decodingFromBuf host pb (Some ProtoRpcMessage) (Some buf) of
        Inr (ERR_NONE, Some msg, _) \<Rightarrow> protoMsgPtr msg
      | _ \<Rightarrow> None)"

definition is_login :: "emEndian \<Rightarrow> 'm protobuf \<Rightarrow> byte list \<Rightarrow> bool" where
  "is_login host pb buf =
     (case decoded_request host pb buf of Some m \<Rightarrow> pb_type_name pb m = login_type | None \<Rightarrow> False)"

lemma channel_simps [simp]:
  "clientState (channel_write bs ch) = clientState ch" "clientState (channel_close ch) = clientState ch"
  "clientState (echo_and_close b ch) = clientState ch"
  "calls (channel_write bs ch) = calls ch @ [Ch_write bs]" "calls (channel_close ch) = calls ch @ [Ch_close]"
  by (simp_all add: channel_write_def channel_close_def echo_and_close_def)

lemma not_login_step:
  assumes "\<not> clientState ch" "\<not> is_login host pb buf" "onDealMessage host pb cbs buf ch w = Inr (ch', w')"
  shows "w' = w \<and> \<not> clientState ch' \<and> (\<exists>b. ch' = echo_and_close b ch)"
proof -
  have l: "onDealLoginMessage host pb cbs buf ch w = Inr (ch', w')"
    using assms(1,3) by (simp add: onDealMessage_def)
  then obtain e req b' where d: "decodingFromBuf host pb (Some ProtoRpcMessage) (Some buf) = Inr (e, req, b')"
    unfolding onDealLoginMessage_def and_then_eq_Inr by auto
  show ?thesis
  proof (cases "e = ERR_NONE \<and> (\<exists>msg m. req = Some msg \<and> protoMsgPtr msg = Some m)")
    case True
    then obtain msg m where r: "e = ERR_NONE" "req = Some msg" "protoMsgPtr msg = Some m" by auto
    then have "pb_type_name pb m \<noteq> login_type"
      using assms(2) by (simp add: is_login_def decoded_request_def d)
    then have "ch' = echo_and_close b' ch" "w' = w" using l r by (simp_all add: onDealLoginMessage_def d)
    then show ?thesis using assms(1) by auto
  next
    case False
    then have "ch' = echo_and_close b' ch \<and> w' = w"
      using l by (cases e; cases req) (auto simp: onDealLoginMessage_def d split: option.splits)
    then show ?thesis using assms(1) by auto
  qed
qed

text \<open>
  C3: Until a login request arrives, nothing a client sends reaches the application: whatever
  frames come, as long as none decodes to a \<open>mmrService.LoginRequest\<close>, no callback runs (the
  application's state is unchanged), the connection stays unauthenticated and every frame is
  answered with the buffer and a close.
\<close>

theorem no_dispatch_before_login:
  assumes "\<not> clientState ch" "\<forall>b \<in> set bufs. \<not> is_login host pb b"
    and "deal_messages host pb cbs bufs ch w = Inr (ch', w')"
  shows "w' = w \<and> \<not> clientState ch'
    \<and> length (filter (\<lambda>c. c = Ch_close) (calls ch')) = length (filter (\<lambda>c. c = Ch_close) (calls ch)) + length bufs"
  using assms
proof (induction bufs arbitrary: ch w)
  case Nil
  then show ?case by simp
next
  case (Cons b bufs)
  then obtain ch1 w1 where s: "onDealMessage host pb cbs b ch w = Inr (ch1, w1)"
    and r: "deal_messages host pb cbs bufs ch1 w1 = Inr (ch', w')"
    by (auto simp: and_then_eq_Inr)
  have "w1 = w" "\<not> clientState ch1" and e: "\<exists>x. ch1 = echo_and_close x ch"
    using not_login_step [OF Cons.prems(1) _ s] Cons.prems(2) by auto
  moreover have "length (filter (\<lambda>c. c = Ch_close) (calls ch1)) = Suc (length (filter (\<lambda>c. c = Ch_close) (calls ch)))"
    using e by (auto simp: echo_and_close_def)
  ultimately show ?case using Cons.IH [of ch1 w1] Cons.prems(2) r by simp
qed

text \<open>A demonstration application: counts the requests it sees and answers with the request.\<close>

definition counting :: "(byte list, nat) callback" where
  "counting m w = (Some m, w + 1)"

theorem no_dispatch_before_login_witness:
  "\<exists>ch'. deal_messages LITTLE bytes_pb [([77], counting)] [[1, 2, 3], []] new_channel 5 = Inr (ch', 5)
    \<and> \<not> clientState ch' \<and> length (filter (\<lambda>c. c = Ch_close) (calls ch')) = 2"
proof -
  have d: "decodingFromBuf LITTLE bytes_pb (Some ProtoRpcMessage) (Some b)
      = Inr (ERR_INVALID_LENGTH, Some ProtoRpcMessage, Some b)" if "length b < 16" for b
    using that by (simp add: decodingFromBuf_def decode_frame_def PROTO_MSG_MIN_LEN_def)
  then have n: "\<not> is_login LITTLE bytes_pb b" if "length b < 16" for b
    using that by (simp add: is_login_def decoded_request_def)
  have "\<exists>ch'. deal_messages LITTLE bytes_pb [([77], counting)] [[1, 2, 3], []] new_channel 5 = Inr (ch', 5)"
    by (simp add: onDealMessage_def onDealLoginMessage_def d new_channel_def)
  then obtain ch' where r: "deal_messages LITTLE bytes_pb [([77], counting)] [[1, 2, 3], []] new_channel 5 = Inr (ch', 5)"
    by blast
  have "calls new_channel = []" "\<not> clientState new_channel" by (simp_all add: new_channel_def)
  then show ?thesis using no_dispatch_before_login [OF _ _ r] r n by simp
qed

subsection \<open>Requests and responses\<close>

lemma rpc_decode_Inr:
  assumes "rpc_decode host pb buf = Inr (seq, m)"
  obtains msg b' where "decodingFromBuf host pb (Some ProtoRpcMessage) (Some buf) = Inr (ERR_NONE, Some msg, b')"
    "protoMsgPtr msg = Some m" "ulSequeNum msg = seq"
proof -
  obtain e req b' where d: "decodingFromBuf host pb (Some ProtoRpcMessage) (Some buf) = Inr (e, req, b')"
    using assms by (auto simp: rpc_decode_def and_then_eq_Inr)
  have r: "(case (e, req) of
      (ERR_NONE, Some msg) \<Rightarrow> (case protoMsgPtr msg of Some x \<Rightarrow> Inr (ulSequeNum msg, x) | None \<Rightarrow> Inl Aborts)
    | _ \<Rightarrow> Inl Aborts) = Inr (seq, m)"
    using assms by (simp add: rpc_decode_def d)
  have "e = ERR_NONE" using r by (cases e) simp_all
  moreover obtain msg where "req = Some msg" "protoMsgPtr msg = Some m" "ulSequeNum msg = seq"
    using r by (cases e; cases req) (auto split: option.splits)
  ultimately show ?thesis using that d by blast
qed

lemma send_response_ok:
  assumes "pb_wire_ok pb resp"
  obtains out where "send_response host pb seq resp ch = Inr (channel_write out ch)"
    "rpc_decode host pb out = Inr (seq, resp)"
proof -
  have r: "ProtoRpcMessage\<lparr>protoMsgPtr := Some resp, ulSequeNum := seq\<rparr> = request_of seq resp"
    by (simp add: request_of_def ProtoRpcMessage_def)
  obtain msg' bs where c: "codingToBuf host pb (Some (request_of seq resp)) (Some [])
      = Inr (ERR_NONE, Some msg', Some (frame host seq (pb_type_name pb resp) bs))"
    using codingToBuf_ok [OF assms, of "request_of seq resp" host "[]"] by (auto simp: request_of_def)
  let ?out = "frame host seq (pb_type_name pb resp) bs"
  have "rpc_encode host pb (seq, resp) = Inr ?out" by (simp add: rpc_encode_def c)
  then have "rpc_decode host pb ?out = Inr (seq, resp)" using rpc.dec_enc [of pb "(seq, resp)"] assms by simp
  moreover have "send_response host pb seq resp ch = Inr (channel_write ?out ch)"
    by (simp add: send_response_def Let_def r c)
  ultimately show ?thesis using that by blast
qed

text \<open>
  C6: A logged-in client whose request frame arrives intact gets exactly one write and no
  close: the frame of the registered callback's answer, which decodes on its side to that
  answer under the sequence number of the request.
\<close>

theorem response_matches_request:
  assumes "clientState ch" "pb_wire_ok pb req" "rpc_encode host pb (seq, req) = Inr buf"
    and "map_of cbs (pb_type_name pb req) = Some cb" "cb req w = (Some resp, w')" "pb_wire_ok pb resp"
  shows "\<exists>out. onDealMessage host pb cbs buf ch w = Inr (ch\<lparr>calls := calls ch @ [Ch_write out]\<rparr>, w')
    \<and> rpc_decode host pb out = Inr (seq, resp)"
proof -
  have "rpc_decode host pb buf = Inr (seq, req)" using rpc.dec_enc [of pb "(seq, req)"] assms(2,3) by simp
  then obtain msg b' where d: "decodingFromBuf host pb (Some ProtoRpcMessage) (Some buf) = Inr (ERR_NONE, Some msg, b')"
    "protoMsgPtr msg = Some req" "ulSequeNum msg = seq" by (rule rpc_decode_Inr)
  obtain out where o: "send_response host pb seq resp ch = Inr (channel_write out ch)"
    "rpc_decode host pb out = Inr (seq, resp)"
    using send_response_ok [OF assms(6)] by blast
  have "onDealMessage host pb cbs buf ch w = Inr (channel_write out ch, w')"
    using assms(1,4,5) d o(1) by (simp add: onDealMessage_def dealProtobufMessage_def)
  then show ?thesis using o(2) by (auto simp: channel_write_def)
qed

theorem response_matches_request_witness:
  "\<exists>buf out. rpc_encode LITTLE bytes_pb (9, [1, 2]) = Inr buf
    \<and> onDealMessage LITTLE bytes_pb [([77], counting)] buf \<lparr>clientState = True, calls = []\<rparr> (0::nat)
      = Inr (\<lparr>clientState = True, calls = [Ch_write out]\<rparr>, 1)
    \<and> rpc_decode LITTLE bytes_pb out = Inr (9, [1, 2])"
proof -
  have ok: "pb_wire_ok bytes_pb [1, 2]" using bytes_pb_ok [of "[1, 2]"] by simp
  obtain buf where b: "rpc_encode LITTLE bytes_pb (9, [1, 2]) = Inr buf"
    using rpc.enc_total [of bytes_pb "(9, [1, 2])" LITTLE] ok by auto
  then show ?thesis
    using response_matches_request [of "\<lparr>clientState = True, calls = []\<rparr>" bytes_pb "[1, 2]" LITTLE 9 buf
        "[([77], counting)]" counting "0::nat" "[1, 2]" 1] ok
    by (auto simp: bytes_pb_def counting_def)
qed

text \<open>
  C8: The login handshake: the first frame being a login request that the registered callback
  accepts, the connection becomes authenticated and the client gets the callback's answer
  under its sequence number; if the callback refuses, or no callback is registered, the
  connection is closed, stays unauthenticated and nothing is written.
\<close>

theorem login_handshake:
  assumes "\<not> clientState ch" "pb_wire_ok pb req" "rpc_encode host pb (seq, req) = Inr buf"
    and "pb_type_name pb req = login_type"
  shows "(\<forall>resp w'. dealProtobufMessage pb cbs req w = (Some resp, w') \<and> pb_wire_ok pb resp \<longrightarrow>
      (\<exists>out. onDealMessage host pb cbs buf ch w = Inr (\<lparr>clientState = True, calls = calls ch @ [Ch_write out]\<rparr>, w')
        \<and> rpc_decode host pb out = Inr (seq, resp)))
    \<and> (\<forall>w'. dealProtobufMessage pb cbs req w = (None, w') \<longrightarrow>
      onDealMessage host pb cbs buf ch w = Inr (\<lparr>clientState = False, calls = calls ch @ [Ch_close]\<rparr>, w'))"
proof -
  have "rpc_decode host pb buf = Inr (seq, req)" using rpc.dec_enc [of pb "(seq, req)"] assms(2,3) by simp
  then obtain msg b' where d: "decodingFromBuf host pb (Some ProtoRpcMessage) (Some buf) = Inr (ERR_NONE, Some msg, b')"
    "protoMsgPtr msg = Some req" "ulSequeNum msg = seq" by (rule rpc_decode_Inr)
  show ?thesis
  proof (intro conjI allI impI)
    fix resp w' assume r: "dealProtobufMessage pb cbs req w = (Some resp, w') \<and> pb_wire_ok pb resp"
    then obtain out where o: "send_response host pb seq resp (ch\<lparr>clientState := True\<rparr>)
        = Inr (channel_write out (ch\<lparr>clientState := True\<rparr>))" "rpc_decode host pb out = Inr (seq, resp)"
      using send_response_ok [of pb resp] by blast
    have "onDealMessage host pb cbs buf ch w = Inr (channel_write out (ch\<lparr>clientState := True\<rparr>), w')"
      using assms(1,4) d o(1) r by (simp add: onDealMessage_def onDealLoginMessage_def)
    then show "\<exists>out. onDealMessage host pb cbs buf ch w = Inr (\<lparr>clientState = True, calls = calls ch @ [Ch_write out]\<rparr>, w')
        \<and> rpc_decode host pb out = Inr (seq, resp)"
      using o(2) by (cases ch) (auto simp: channel_write_def)
  next
    fix w' assume "dealProtobufMessage pb cbs req w = (None, w')"
    then show "onDealMessage host pb cbs buf ch w = Inr (\<lparr>clientState = False, calls = calls ch @ [Ch_close]\<rparr>, w')"
      using assms(1,4) d by (cases ch) (simp add: onDealMessage_def onDealLoginMessage_def channel_close_def)
  qed
qed

text \<open>A library whose only message type is the login request, for concrete inputs.\<close>

definition login_pb :: "byte list protobuf" where
  "login_pb = \<lparr>pb_type_name = (\<lambda>_. login_type), pb_byte_size = length, pb_serialize = Some,
     pb_new = (\<lambda>n. if n = login_type then Some [] else None), pb_parse = (\<lambda>_ bs. (bs, True))\<rparr>"

lemma login_pb_ok: "length m < 2 ^ 30 \<Longrightarrow> pb_wire_ok login_pb m"
  by (simp add: pb_wire_ok_def login_pb_def login_type_def)

theorem login_handshake_witness:
  "\<exists>buf out. rpc_encode LITTLE login_pb (1, [8]) = Inr buf
    \<and> onDealMessage LITTLE login_pb [(login_type, counting)] buf new_channel (0::nat)
      = Inr (\<lparr>clientState = True, calls = [Ch_write out]\<rparr>, 1)
    \<and> onDealMessage LITTLE login_pb [] buf new_channel (0::nat) = Inr (\<lparr>clientState = False, calls = [Ch_close]\<rparr>, 0)"
proof -
  have ok: "pb_wire_ok login_pb [8]" using login_pb_ok [of "[8]"] by simp
  obtain buf where b: "rpc_encode LITTLE login_pb (1, [8]) = Inr buf"
    using rpc.enc_total [of login_pb "(1, [8])" LITTLE] ok by auto
  have n: "\<not> clientState new_channel" "pb_type_name login_pb [8] = login_type" "calls new_channel = []"
    by (simp_all add: new_channel_def login_pb_def)
  have a: "dealProtobufMessage login_pb [(login_type, counting)] [8] (0::nat) = (Some [8], 1)"
    "dealProtobufMessage login_pb [] [8] (0::nat) = (None, 0)"
    by (simp_all add: dealProtobufMessage_def login_pb_def counting_def)
  show ?thesis
    using login_handshake [OF n(1) ok b n(2), of "[(login_type, counting)]" "0::nat"]
      login_handshake [OF n(1) ok b n(2), of "[]" "0::nat"] a ok n(3) b by auto
qed

text \<open>
  The buffer the server sends back when a frame fails its checksum is not the one that
  came in: the decoder has reversed the last four bytes in place on a little-endian host,
  before the connection is closed.
\<close>

theorem rejected_frame_echo:
  assumes "12 \<le> length b" "length b < 2 ^ 32" "length t = 4"
    and "adler32_body b \<noteq> word_of_nat (host_value BIG t)"
  shows "onDealMessage LITTLE pb cbs (b @ t) ch w = Inr (ch\<lparr>calls := calls ch @ [Ch_write (b @ rev t), Ch_close]\<rparr>, w)"
proof -
  have "decodingFromBuf LITTLE pb (Some ProtoRpcMessage) (Some (b @ t))
      = Inr (ERR_CHECK_SUM, Some ProtoRpcMessage, Some (b @ rev t))"
    using decode_frame_checked [OF assms(1,3,2), of LITTLE pb ProtoRpcMessage] assms(4) by (simp add: decodingFromBuf_def Let_def)
  then show ?thesis
    by (cases ch)
      (simp add: onDealMessage_def onDealLoginMessage_def echo_and_close_def channel_write_def channel_close_def)
qed

theorem rejected_frame_echo_witness:
  "onDealMessage LITTLE bytes_pb [] ([0, 0, 0, 0, 0, 0, 0, 0, 0, 0, 0, 0] @ [1, 2, 3, 4]) new_channel ()
    = Inr (\<lparr>clientState = False, calls = [Ch_write ([0, 0, 0, 0, 0, 0, 0, 0, 0, 0, 0, 0] @ [4, 3, 2, 1]), Ch_close]\<rparr>, ())"
proof -
  let ?z = "[0, 0, 0, 0, 0, 0, 0, 0, 0, 0, 0, 0] :: byte list"
  have l: "length ?z = 12" by simp
  have "adler32_body ?z \<noteq> word_of_nat (host_value BIG [1, 2, 3, 4])"
    by (simp add: adler32_body_def host_value_def combine_def DO1.simps Let_def MOD64_def)
  then show ?thesis
    using rejected_frame_echo [of ?z "[1, 2, 3, 4]" bytes_pb "[]" new_channel "()"] unfolding l
    by (simp add: new_channel_def)
qed

lemma register_lookup:
  "map_of (registerMessageCallback d cb cbs) x =
    (if x = d \<and> map_of cbs d = None then Some cb else map_of cbs x)"
  by (auto simp: registerMessageCallback_def)

subsection \<open>Typed callbacks\<close>

text \<open>
  \<^verbatim>\<open>common/include/protoBase/ProtoMsgCallback.h\<close>: a callback is registered for a type \<open>Request\<close>, and
  what it is called with is cast to that type without a test; a message of another type makes the
  call undefined. The callbacks above leave the cast out; it is always a right one, because the map is keyed by
  the type of the callback it holds.
\<close>

record ('m, 'w) ProtoRpcCallbackT =
  Request :: "byte list"
  m_callbackFunc :: "('m, 'w) callback"

definition onMessage :: "'m protobuf \<Rightarrow> ('m, 'w) ProtoRpcCallbackT \<Rightarrow> 'm \<Rightarrow> 'w \<Rightarrow> ('m option \<times> 'w) result" where
  "onMessage pb cb request w =
     (if pb_type_name pb request = Request cb then Inr (m_callbackFunc cb request w) else Inl Undefined)"

definition register_typed :: "byte list \<Rightarrow> ('m, 'w) callback \<Rightarrow>
    (byte list \<times> ('m, 'w) ProtoRpcCallbackT) list \<Rightarrow> (byte list \<times> ('m, 'w) ProtoRpcCallbackT) list" where
  "register_typed T f m_mapCallbacks =
     (if map_of m_mapCallbacks T \<noteq> None then m_mapCallbacks
      else (T, \<lparr>Request = T, m_callbackFunc = f\<rparr>) # m_mapCallbacks)"

definition deal_typed :: "'m protobuf \<Rightarrow> (byte list \<times> ('m, 'w) ProtoRpcCallbackT) list \<Rightarrow> 'm \<Rightarrow> 'w \<Rightarrow>
    ('m option \<times> 'w) result" where
  "deal_typed pb m_mapCallbacks request w =
     (case map_of m_mapCallbacks (pb_type_name pb request) of
        None \<Rightarrow> Inr (None, w)
      | Some cb \<Rightarrow> onMessage pb cb request w)"

definition typed_map :: "('m, 'w) callbacks \<Rightarrow> (byte list \<times> ('m, 'w) ProtoRpcCallbackT) list" where
  "typed_map = map (\<lambda>(T, f). (T, \<lparr>Request = T, m_callbackFunc = f\<rparr>))"

lemma map_of_typed: "map_of (typed_map cbs) T = map_option (\<lambda>f. \<lparr>Request = T, m_callbackFunc = f\<rparr>) (map_of cbs T)"
  by (induction cbs) (auto simp: typed_map_def)

lemma register_typed_map: "register_typed T f (typed_map cbs) = typed_map (registerMessageCallback T f cbs)"
  by (simp add: register_typed_def registerMessageCallback_def map_of_typed) (simp add: typed_map_def)

lemma registered_typed:
  "fold (\<lambda>(T, f). register_typed T f) rs (typed_map cbs) =
   typed_map (fold (\<lambda>(T, f). registerMessageCallback T f) rs cbs)"
  by (induction rs arbitrary: cbs) (auto simp: register_typed_map)

text \<open>Whatever has been registered, no request is cast to a type it does not have.\<close>

theorem callback_casts_right:
  "deal_typed pb (fold (\<lambda>(T, f). register_typed T f) rs []) request w =
   Inr (dealProtobufMessage pb (fold (\<lambda>(T, f). registerMessageCallback T f) rs []) request w)"
proof -
  have "fold (\<lambda>(T, f). register_typed T f) rs [] = typed_map (fold (\<lambda>(T, f). registerMessageCallback T f) rs [])"
    using registered_typed [of rs "[]"] by (simp add: typed_map_def)
  then show ?thesis
    by (simp add: deal_typed_def dealProtobufMessage_def map_of_typed onMessage_def split: option.split)
qed

end
