(* ===== verification/RpcClient.thy ===== *)
theory RpcClient
  imports ProtoServer
begin

text \<open>
  \<^verbatim>\<open>service/app/clientTestApp/CProtoRpcClient.cpp\<close> and \<^verbatim>\<open>.h\<close>: the calling side. Several threads
  may be inside \<open>call\<close> at once, so \<open>call\<close> is split at the points where another thread can
  run: the request is coded, entered into \<open>m_calls\<close> and written; the thread starts to wait;
  it wakes (by \<open>notify\<close>, by the timeout, or spuriously); it takes the response and erases its
  entry. A context lives on the heap and the map and the calling thread share it; contexts
  are numbered in the order of their creation. The event loop's \<open>onDealMessage\<close> and
  \<open>onDealConnection\<close> are the other operations.
\<close>

datatype emConnState = kInitialized | kConnecting | kConnected | kDisconnectd

datatype phase = Sent | Waiting | Woken | Finished

record 'm rpc_context =
  ctx_seq :: u32
  requestPtr :: 'm
  responsePtr :: "'m option"
  ctx_phase :: phase

text \<open>What happened, newest first: the history the properties are stated over.\<close>

datatype 'm client_event = Called nat u32 | Received u32 'm | Returned nat "'m option"

record 'm rpc_client =
  m_connState :: emConnState
  s_id :: u32
  m_calls :: "u32 \<rightharpoonup> nat"
  contexts :: "'m rpc_context list"
  sent_frames :: "byte list list"
  history :: "'m client_event list"

definition CProtoRpcClient :: "'m rpc_client" where
  "CProtoRpcClient = \<lparr>m_connState = kInitialized, s_id = 0, m_calls = Map.empty, contexts = [],
     sent_frames = [], history = []\<rparr>"

definition client_connect :: "'m rpc_client \<Rightarrow> 'm rpc_client" where
  "client_connect c = c\<lparr>m_connState := kConnecting\<rparr>"

definition client_onDealConnection :: "bool \<Rightarrow> 'm rpc_client \<Rightarrow> 'm rpc_client" where
  "client_onDealConnection connected c =
     c\<lparr>m_connState := (if connected then kConnected else kDisconnectd)\<rparr>"

text \<open>\<open>call\<close> up to \<open>channel->write\<close>; \<open>None\<close> is the early \<open>return nullptr\<close>.\<close>

definition call_begin ::
    "emEndian \<Rightarrow> 'm protobuf \<Rightarrow> 'm \<Rightarrow> 'm rpc_client \<Rightarrow> (nat option \<times> 'm rpc_client) result" where
  "call_begin host pb req c =
     (if m_connState c \<noteq> kConnected then Inr (None, c)
      else
        let seq = s_id c + 1;
            protoMsg = ProtoRpcMessage\<lparr>ulSequeNum := seq, protoMsgPtr := Some req\<rparr>
        in and_then (codingToBuf host pb (Some protoMsg) (Some [])) (\<lambda>(_, _, bufSend).
             let k = length (contexts c);
                 ctx = \<lparr>ctx_seq = seq, requestPtr = req, responsePtr = None, ctx_phase = Sent\<rparr>
             in Inr (Some k, c\<lparr>s_id := seq, m_calls := (m_calls c)(seq \<mapsto> k), contexts := contexts c @ [ctx],
                  sent_frames := sent_frames c @ [case bufSend of Some b \<Rightarrow> b | None \<Rightarrow> []],
                  history := Called k seq # history c\<rparr>)))"

definition ctx_update :: "nat \<Rightarrow> ('m rpc_context \<Rightarrow> 'm rpc_context) \<Rightarrow> 'm rpc_client \<Rightarrow> 'm rpc_client" where
  "ctx_update k f c = c\<lparr>contexts := (contexts c)[k := f (contexts c ! k)]\<rparr>"

text \<open>\<open>ctx->wait\<close>: entered once; left when notified, at the timeout or spuriously.\<close>

definition wait_begin :: "nat \<Rightarrow> 'm rpc_client \<Rightarrow> 'm rpc_client option" where
  "wait_begin k c =
     (if k < length (contexts c) \<and> ctx_phase (contexts c ! k) = Sent
      then Some (ctx_update k (\<lambda>x. x\<lparr>ctx_phase := Waiting\<rparr>) c) else None)"

definition wait_timeout :: "nat \<Rightarrow> 'm rpc_client \<Rightarrow> 'm rpc_client option" where
  "wait_timeout k c =
     (if k < length (contexts c) \<and> ctx_phase (contexts c ! k) = Waiting
      then Some (ctx_update k (\<lambda>x. x\<lparr>ctx_phase := Woken\<rparr>) c) else None)"

text \<open>\<open>notify_one\<close> wakes the thread only if it is already waiting.\<close>

definition notify :: "'m rpc_context \<Rightarrow> 'm rpc_context" where
  "notify x = (if ctx_phase x = Waiting then x\<lparr>ctx_phase := Woken\<rparr> else x)"

definition call_end :: "nat \<Rightarrow> 'm rpc_client \<Rightarrow> ('m option \<times> 'm rpc_client) option" where
  "call_end k c =
     (if k < length (contexts c) \<and> ctx_phase (contexts c ! k) = Woken then
        (let x = contexts c ! k; res = responsePtr x; c' = ctx_update k (\<lambda>x. x\<lparr>ctx_phase := Finished\<rparr>) c
         in Some (res, c'\<lparr>m_calls := (m_calls c)(ctx_seq x := None), history := Returned k res # history c\<rparr>))
      else None)"

definition client_onDealMessage ::
    "emEndian \<Rightarrow> 'm protobuf \<Rightarrow> byte list \<Rightarrow> 'm rpc_client \<Rightarrow> 'm rpc_client result" where
  "client_onDealMessage host pb buf c =
     and_then (decodingFromBuf host pb (Some ProtoRpcMessage) (Some buf)) (\<lambda>(errCode, rcv, _).
       case (errCode, rcv) of
         (ERR_NONE, Some protoRcv) \<Rightarrow>
           (case protoMsgPtr protoRcv of
              None \<Rightarrow> Inl Undefined
            | Some m \<Rightarrow>
                let c' = c\<lparr>history := Received (ulSequeNum protoRcv) m # history c\<rparr> in
                (case m_calls c (ulSequeNum protoRcv) of
                   Some k \<Rightarrow> Inr (ctx_update k (\<lambda>x. notify (x\<lparr>responsePtr := Some m\<rparr>)) c')
                 | None \<Rightarrow> Inr c'))
       | _ \<Rightarrow> Inr c)"

subsection \<open>Interleavings\<close>

inductive client_step :: "emEndian \<Rightarrow> 'm protobuf \<Rightarrow> 'm rpc_client \<Rightarrow> 'm rpc_client \<Rightarrow> bool"
  for host pb where
  step_connect: "client_step host pb c (client_connect c)"
| step_connection: "client_step host pb c (client_onDealConnection b c)"
| step_begin: "call_begin host pb req c = Inr (ko, c') \<Longrightarrow> client_step host pb c c'"
| step_wait: "wait_begin k c = Some c' \<Longrightarrow> client_step host pb c c'"
| step_timeout: "wait_timeout k c = Some c' \<Longrightarrow> client_step host pb c c'"
| step_message: "client_onDealMessage host pb buf c = Inr c' \<Longrightarrow> client_step host pb c c'"
| step_end: "call_end k c = Some (res, c') \<Longrightarrow> client_step host pb c c'"

inductive client_reachable :: "emEndian \<Rightarrow> 'm protobuf \<Rightarrow> 'm rpc_client \<Rightarrow> bool" for host pb where
  reach_init: "client_reachable host pb CProtoRpcClient"
| reach_step: "client_reachable host pb c \<Longrightarrow> client_step host pb c c' \<Longrightarrow> client_reachable host pb c'"

text \<open>In the history \<open>h\<close> (newest first) a message with number \<open>s\<close> and content \<open>m\<close> came after call \<open>k\<close>.\<close>

fun answered :: "nat \<Rightarrow> u32 \<Rightarrow> 'm \<Rightarrow> 'm client_event list \<Rightarrow> bool" where
  "answered k s m [] = False"
| "answered k s m (e # h) = (answered k s m h \<or> (e = Received s m \<and> Called k s \<in> set h))"

definition ctx_ok :: "'m rpc_client \<Rightarrow> nat \<Rightarrow> bool" where
  "ctx_ok c k \<longleftrightarrow>
     Called k (ctx_seq (contexts c ! k)) \<in> set (history c) \<and>
     (\<forall>m. responsePtr (contexts c ! k) = Some m \<longrightarrow> answered k (ctx_seq (contexts c ! k)) m (history c))"

fun history_ok :: "'m client_event list \<Rightarrow> bool" where
  "history_ok [] = True"
| "history_ok (Returned k (Some m) # h) \<longleftrightarrow> (\<exists>s. answered k s m h) \<and> history_ok h"
| "history_ok (_ # h) \<longleftrightarrow> history_ok h"

definition client_inv :: "'m rpc_client \<Rightarrow> bool" where
  "client_inv c \<longleftrightarrow>
     (\<forall>k < length (contexts c). ctx_ok c k) \<and>
     (\<forall>s k. m_calls c s = Some k \<longrightarrow> k < length (contexts c) \<and> ctx_seq (contexts c ! k) = s) \<and>
     history_ok (history c)"

lemma answered_Cons: "answered k s m h \<Longrightarrow> answered k s m (e # h)"
  by simp

lemma ctx_update_simps [simp]:
  "length (contexts (ctx_update k f c)) = length (contexts c)"
  "m_calls (ctx_update k f c) = m_calls c" "history (ctx_update k f c) = history c"
  "j < length (contexts c) \<Longrightarrow>
    contexts (ctx_update k f c) ! j = (if j = k then f (contexts c ! k) else contexts c ! j)"
  by (simp_all add: ctx_update_def)

lemma notify_simps [simp]: "ctx_seq (notify x) = ctx_seq x" "responsePtr (notify x) = responsePtr x"
  by (simp_all add: notify_def)

lemma inv_init: "client_inv CProtoRpcClient"
  by (simp add: client_inv_def CProtoRpcClient_def)

lemma inv_begin:
  assumes "client_inv c" "call_begin host pb req c = Inr (ko, c')"
  shows "client_inv c'"
proof (cases "m_connState c = kConnected")
  case False
  then show ?thesis using assms by (simp add: call_begin_def)
next
  case True
  let ?seq = "s_id c + 1" and ?k = "length (contexts c)"
  let ?x = "\<lparr>ctx_seq = ?seq, requestPtr = req, responsePtr = None, ctx_phase = Sent\<rparr>"
  have c': "contexts c' = contexts c @ [?x]" "m_calls c' = (m_calls c)(?seq \<mapsto> ?k)"
    "history c' = Called ?k ?seq # history c"
    using assms(2) True by (auto simp: call_begin_def Let_def and_then_eq_Inr)
  have "ctx_ok c' k" if "k < length (contexts c')" for k
    using assms(1) that by (auto simp: client_inv_def ctx_ok_def c' nth_append less_Suc_eq)
  moreover have "k < length (contexts c') \<and> ctx_seq (contexts c' ! k) = s" if "m_calls c' s = Some k" for s k
  proof (cases "s = ?seq")
    case True
    then have "k = ?k" using that by (simp add: c')
    then show ?thesis using True by (simp add: c')
  next
    case False
    then have "m_calls c s = Some k" using that by (simp add: c')
    then have "k < length (contexts c) \<and> ctx_seq (contexts c ! k) = s" using assms(1) by (simp add: client_inv_def)
    then show ?thesis by (simp add: c' nth_append)
  qed
  ultimately show ?thesis using assms(1) by (simp add: client_inv_def c'(3))
qed

lemma inv_phase:
  assumes "client_inv c" "\<And>x. ctx_seq (f x) = ctx_seq x \<and> responsePtr (f x) = responsePtr x"
  shows "client_inv (ctx_update k f c)"
  using assms unfolding client_inv_def ctx_ok_def by (auto split: if_splits)

text \<open>A buffer either changes nothing or arrives as a message, for a call or for none.\<close>

lemma client_message_cases:
  assumes "client_onDealMessage host pb buf c = Inr c'"
  obtains (other) "c' = c"
    | (dropped) s m where "m_calls c s = None" "c' = c\<lparr>history := Received s m # history c\<rparr>"
    | (deliver) s m k where "m_calls c s = Some k"
        "c' = ctx_update k (\<lambda>x. notify (x\<lparr>responsePtr := Some m\<rparr>)) (c\<lparr>history := Received s m # history c\<rparr>)"
proof -
  obtain e rcv b where d: "decodingFromBuf host pb (Some ProtoRpcMessage) (Some buf) = Inr (e, rcv, b)"
    using assms by (auto simp: client_onDealMessage_def and_then_eq_Inr)
  have r: "(case (e, rcv) of (ERR_NONE, Some protoRcv) \<Rightarrow>
           (case protoMsgPtr protoRcv of None \<Rightarrow> Inl Undefined
            | Some m \<Rightarrow>
                let c' = c\<lparr>history := Received (ulSequeNum protoRcv) m # history c\<rparr> in
                (case m_calls c (ulSequeNum protoRcv) of
                   Some k \<Rightarrow> Inr (ctx_update k (\<lambda>x. notify (x\<lparr>responsePtr := Some m\<rparr>)) c')
                 | None \<Rightarrow> Inr c'))
       | _ \<Rightarrow> Inr c) = Inr c'"
    using assms by (simp add: client_onDealMessage_def d)
  show ?thesis
  proof (cases "e = ERR_NONE \<and> (\<exists>msg m. rcv = Some msg \<and> protoMsgPtr msg = Some m)")
    case True
    then obtain msg m where m: "e = ERR_NONE" "rcv = Some msg" "protoMsgPtr msg = Some m" by auto
    show ?thesis
    proof (cases "m_calls c (ulSequeNum msg)")
      case None
      then show ?thesis using r m by (intro dropped [of "ulSequeNum msg" m]) simp_all
    next
      case (Some k)
      then show ?thesis using r m by (intro deliver [of "ulSequeNum msg" k m]) (simp_all add: Let_def)
    qed
  next
    case False
    then have "c' = c" using r by (cases e; cases rcv) (auto split: option.splits)
    then show ?thesis by (rule other)
  qed
qed

lemma inv_message:
  assumes "client_inv c" "client_onDealMessage host pb buf c = Inr c'"
  shows "client_inv c'"
  using assms(2)
proof (cases rule: client_message_cases)
  case other
  then show ?thesis using assms(1) by simp
next
  case dropped
  then show ?thesis using assms(1) by (simp add: client_inv_def ctx_ok_def)
next
  case (deliver s m k)
  have k: "k < length (contexts c)" "ctx_seq (contexts c ! k) = s" "ctx_ok c k"
    using assms(1) deliver(1) by (auto simp: client_inv_def)
  have "ctx_ok c' j" if "j < length (contexts c)" for j
    using assms(1) that k by (simp add: client_inv_def ctx_ok_def deliver(2))
  moreover have "j < length (contexts c) \<and> ctx_seq (contexts c' ! j) = u" if "m_calls c' u = Some j" for u j
    using assms(1) that by (auto simp: client_inv_def deliver(2))
  moreover have "length (contexts c') = length (contexts c)" "history_ok (history c')"
    using assms(1) by (simp_all add: deliver(2) client_inv_def)
  ultimately show ?thesis unfolding client_inv_def by presburger
qed

lemma inv_end:
  assumes "client_inv c" "call_end k c = Some (res, c')"
  shows "client_inv c'"
proof -
  let ?d = "ctx_update k (\<lambda>x. x\<lparr>ctx_phase := Finished\<rparr>) c"
  have k: "k < length (contexts c)" "res = responsePtr (contexts c ! k)"
    and c': "c' = ?d\<lparr>m_calls := (m_calls c)(ctx_seq (contexts c ! k) := None), history := Returned k res # history c\<rparr>"
    using assms(2) by (auto simp: call_end_def Let_def split: if_splits)
  have d: "client_inv ?d" by (rule inv_phase [OF assms(1)]) simp
  have "history_ok (Returned k res # history c)"
  proof (cases res)
    case None
    then show ?thesis using assms(1) by (simp add: client_inv_def)
  next
    case (Some m)
    have "ctx_ok c k" "history_ok (history c)" using assms(1) k(1) by (simp_all add: client_inv_def)
    moreover have "responsePtr (contexts c ! k) = Some m" using k(2) Some by simp
    ultimately show ?thesis by (auto simp: Some ctx_ok_def)
  qed
  moreover have "ctx_ok c' j" if "j < length (contexts c)" for j
    using d that by (simp add: client_inv_def ctx_ok_def c')
  moreover have "j < length (contexts c) \<and> ctx_seq (contexts c' ! j) = s" if "m_calls c' s = Some j" for s j
    using assms(1) that by (auto simp: client_inv_def c' split: if_splits)
  moreover have "length (contexts c') = length (contexts c)" "history c' = Returned k res # history c"
    by (simp_all add: c')
  ultimately show ?thesis unfolding client_inv_def by presburger
qed

lemma client_step_inv: "client_step host pb c c' \<Longrightarrow> client_inv c \<Longrightarrow> client_inv c'"
proof (induction rule: client_step.induct)
  case (step_connect c)
  then show ?case by (simp add: client_connect_def client_inv_def ctx_ok_def)
next
  case (step_connection c b)
  then show ?case by (simp add: client_onDealConnection_def client_inv_def ctx_ok_def)
next
  case (step_begin req c ko c')
  show ?case by (rule inv_begin [OF step_begin(2,1)])
next
  case (step_wait k c c')
  then have "c' = ctx_update k (\<lambda>x. x\<lparr>ctx_phase := Waiting\<rparr>) c" by (simp add: wait_begin_def split: if_splits)
  then show ?case using inv_phase [OF step_wait(2)] by simp
next
  case (step_timeout k c c')
  then have "c' = ctx_update k (\<lambda>x. x\<lparr>ctx_phase := Woken\<rparr>) c" by (simp add: wait_timeout_def split: if_splits)
  then show ?case using inv_phase [OF step_timeout(2)] by simp
next
  case (step_message buf c c')
  show ?case by (rule inv_message [OF step_message(2,1)])
next
  case (step_end k c res c')
  show ?case by (rule inv_end [OF step_end(2,1)])
qed

lemma client_reachable_inv: "client_reachable host pb c \<Longrightarrow> client_inv c"
  by (induction rule: client_reachable.induct) (simp_all add: inv_init client_step_inv)

subsection \<open>What a call returns\<close>

lemma history_ok_tl: "history_ok (e # h) \<Longrightarrow> history_ok h"
proof (cases e)
  case (Returned k r)
  then show "history_ok (e # h) \<Longrightarrow> history_ok h" by (cases r) simp_all
qed simp_all

lemma history_ok_suffix: "history_ok (new @ h) \<Longrightarrow> history_ok h"
  by (induction new) (auto dest: history_ok_tl)

lemma client_receives:
  assumes "rpc_decode host pb buf = Inr (s, m)"
  shows "client_onDealMessage host pb buf c =
    Inr (case m_calls c s of
           Some k \<Rightarrow> ctx_update k (\<lambda>x. notify (x\<lparr>responsePtr := Some m\<rparr>)) (c\<lparr>history := Received s m # history c\<rparr>)
         | None \<Rightarrow> c\<lparr>history := Received s m # history c\<rparr>)"
proof -
  obtain msg b' where "decodingFromBuf host pb (Some ProtoRpcMessage) (Some buf) = Inr (ERR_NONE, Some msg, b')"
    "protoMsgPtr msg = Some m" "ulSequeNum msg = s" by (rule rpc_decode_Inr [OF assms])
  then show ?thesis by (simp add: client_onDealMessage_def Let_def split: option.split)
qed

text \<open>
  C10: However calls, replies, timeouts and reconnections interleave, a call that returns a
  message returns one that arrived after the call was made and carried the number the call
  was sent with: no reply to another call, and no stale one, is ever handed out.
\<close>

theorem call_returns_own_reply:
  assumes "client_reachable host pb c" "history c = new @ Returned k (Some m) # old"
  shows "\<exists>s. answered k s m old"
proof -
  have "history_ok (Returned k (Some m) # old)"
    using client_reachable_inv [OF assms(1)] assms(2) history_ok_suffix by (metis client_inv_def)
  then show ?thesis by simp
qed

text \<open>One call from connection to return, on the one-type library.\<close>

definition demo_client :: "byte list rpc_client" where
  "demo_client = client_onDealConnection True CProtoRpcClient"

lemma demo_run:
  "\<exists>c. client_reachable LITTLE bytes_pb c
    \<and> history c = [Returned 0 (Some [5]), Received 1 [5], Called 0 1]"
proof -
  have ok: "pb_wire_ok bytes_pb [5]" by (simp add: bytes_pb_ok)
  obtain buf where "rpc_encode LITTLE bytes_pb (1, [5]) = Inr buf"
    using rpc.enc_total [of bytes_pb "(1, [5])" LITTLE] ok by auto
  then have d: "rpc_decode LITTLE bytes_pb buf = Inr (1, [5])"
    using rpc.dec_enc [of bytes_pb "(1, [5])" LITTLE buf] ok by simp
  have r0: "client_reachable LITTLE bytes_pb demo_client"
    unfolding demo_client_def by (rule reach_step [OF reach_init step_connection])
  have "protoMsgPtr (ProtoRpcMessage\<lparr>ulSequeNum := 1, protoMsgPtr := Some [5]\<rparr>) = Some [5 :: byte]" by simp
  from codingToBuf_ok [OF ok this, of LITTLE "[]"] obtain msg' fr where
    e: "codingToBuf LITTLE bytes_pb (Some (ProtoRpcMessage\<lparr>ulSequeNum := 1, protoMsgPtr := Some [5]\<rparr>)) (Some [])
      = Inr (ERR_NONE, Some msg', Some fr)" by blast
  let ?x = "\<lparr>ctx_seq = 1, requestPtr = [5], responsePtr = None, ctx_phase = Sent\<rparr> :: byte list rpc_context"
  let ?c1 = "\<lparr>m_connState = kConnected, s_id = 1, m_calls = [1 \<mapsto> 0], contexts = [?x], sent_frames = [fr], history = [Called 0 1]\<rparr>"
  have "call_begin LITTLE bytes_pb [5] demo_client = Inr (Some 0, ?c1)"
    using e by (simp add: call_begin_def demo_client_def client_onDealConnection_def CProtoRpcClient_def Let_def)
  then have r1: "client_reachable LITTLE bytes_pb ?c1" using r0 by (blast intro: reach_step step_begin)
  let ?c2 = "ctx_update 0 (\<lambda>x. x\<lparr>ctx_phase := Waiting\<rparr>) ?c1"
  have "wait_begin 0 ?c1 = Some ?c2" by (simp add: wait_begin_def)
  then have r2: "client_reachable LITTLE bytes_pb ?c2" using r1 by (blast intro: reach_step step_wait)
  let ?c3 = "ctx_update 0 (\<lambda>x. notify (x\<lparr>responsePtr := Some [5]\<rparr>)) (?c2\<lparr>history := Received 1 [5] # history ?c2\<rparr>)"
  have "client_onDealMessage LITTLE bytes_pb buf ?c2 = Inr ?c3"
    by (simp add: client_receives [OF d])
  then have r3: "client_reachable LITTLE bytes_pb ?c3" using r2 by (blast intro: reach_step step_message)
  obtain c4 where "call_end 0 ?c3 = Some (Some [5], c4)" "history c4 = [Returned 0 (Some [5]), Received 1 [5], Called 0 1]"
    by (simp add: call_end_def ctx_update_def notify_def Let_def)
  then show ?thesis using r3 by (blast intro: reach_step step_end)
qed

theorem call_returns_own_reply_witness: "\<exists>s. answered 0 s [5 :: byte] [Received 1 [5], Called 0 1]"
proof -
  obtain c where "client_reachable LITTLE bytes_pb c" "history c = [] @ Returned 0 (Some [5]) # [Received 1 [5], Called 0 1]"
    using demo_run by auto
  then show ?thesis by (rule call_returns_own_reply)
qed

text \<open>
  \<open>wait\<close> has no predicate, and the request is written before it: a reply that arrives
  before the calling thread starts to wait is stored, but its notification is lost, so the
  thread waits although the response is there and cannot go on before the timeout.
\<close>

theorem reply_before_wait_is_not_noticed:
  assumes "rpc_decode host pb buf = Inr (s, m)" "m_calls c s = Some k"
    and "k < length (contexts c)" "ctx_phase (contexts c ! k) = Sent"
  shows "\<exists>c1 c2. client_onDealMessage host pb buf c = Inr c1 \<and> wait_begin k c1 = Some c2
    \<and> responsePtr (contexts c2 ! k) = Some m \<and> ctx_phase (contexts c2 ! k) = Waiting \<and> call_end k c2 = None"
proof -
  let ?c1 = "ctx_update k (\<lambda>x. notify (x\<lparr>responsePtr := Some m\<rparr>)) (c\<lparr>history := Received s m # history c\<rparr>)"
  let ?c2 = "ctx_update k (\<lambda>x. x\<lparr>ctx_phase := Waiting\<rparr>) ?c1"
  have "client_onDealMessage host pb buf c = Inr ?c1" using assms(2) by (simp add: client_receives [OF assms(1)])
  moreover have "wait_begin k ?c1 = Some ?c2" using assms(3,4) by (simp add: wait_begin_def notify_def)
  moreover have "responsePtr (contexts ?c2 ! k) = Some m" "ctx_phase (contexts ?c2 ! k) = Waiting"
    using assms(3) by simp_all
  moreover have "call_end k ?c2 = None" using assms(3) by (simp add: call_end_def)
  ultimately show ?thesis by blast
qed

theorem reply_before_wait_is_not_noticed_witness:
  "\<exists>buf c1 c2. client_onDealMessage LITTLE bytes_pb buf
      \<lparr>m_connState = kConnected, s_id = 1, m_calls = [1 \<mapsto> 0],
        contexts = [\<lparr>ctx_seq = 1, requestPtr = [5], responsePtr = None, ctx_phase = Sent\<rparr>],
        sent_frames = [], history = [Called 0 1]\<rparr> = Inr c1
    \<and> wait_begin 0 c1 = Some c2 \<and> responsePtr (contexts c2 ! 0) = Some [6] \<and> call_end 0 c2 = None"
proof -
  have ok: "pb_wire_ok bytes_pb [6]" by (simp add: bytes_pb_ok)
  obtain buf where "rpc_encode LITTLE bytes_pb (1, [6]) = Inr buf"
    using rpc.enc_total [of bytes_pb "(1, [6])" LITTLE] ok by auto
  then have d: "rpc_decode LITTLE bytes_pb buf = Inr (1, [6])"
    using rpc.dec_enc [of bytes_pb "(1, [6])" LITTLE buf] ok by simp
  show ?thesis
    using reply_before_wait_is_not_noticed [OF d, of "\<lparr>m_connState = kConnected, s_id = 1, m_calls = [1 \<mapsto> 0],
        contexts = [\<lparr>ctx_seq = 1, requestPtr = [5], responsePtr = None, ctx_phase = Sent\<rparr>],
        sent_frames = [], history = [Called 0 1]\<rparr>" 0]
    by auto
qed

end
