(* ===== verification/RpcSystem.thy ===== *)
theory RpcSystem
  imports RpcClient
begin

text \<open>
  The client (src/code/service/app/clientTestApp/CProtoRpcClient.cpp) and the server's connection
  handler (src/code/service/compnets/ProtoRpcServer/CProtoServe.cpp) joined by a connection. The
  network, which is not part of the repository, is two queues of buffers: each write arrives as one
  buffer, in order, or is lost with the connection (\<open>system_step\<close>); in \<open>net_step True\<close> it is two
  streams of bytes, a read returning everything written since the last one. Reads that return part
  of a write are left out: neither side puts a frame together from several reads. A new connection starts with a new server
  channel, so with a client that is not logged in. The login component's callback
  (src/code/service/compnets/AuthorityManager/CAlthorityProcessor.cpp) is the one registered.
\<close>

record ('m, 'w) rpc_system =
  client :: "'m rpc_client"
  server :: channel
  app :: 'w
  up :: "byte list list"
  down :: "byte list list"
  past_calls :: "channel_call list"

definition rpc_system_new :: "'w \<Rightarrow> ('m, 'w) rpc_system" where
  "rpc_system_new w = \<lparr>client = CProtoRpcClient, server = new_channel, app = w, up = [], down = [], past_calls = []\<rparr>"

text \<open>What the server called on its channels, over all connections so far.\<close>

definition server_calls :: "('m, 'w) rpc_system \<Rightarrow> channel_call list" where
  "server_calls s = past_calls s @ calls (server s)"

fun writes :: "channel_call list \<Rightarrow> byte list list" where
  "writes [] = []"
| "writes (Ch_write b # cs) = b # writes cs"
| "writes (Ch_close # cs) = writes cs"

text \<open>A connection comes up, and one goes down with what is under way.\<close>

definition system_connect :: "('m, 'w) rpc_system \<Rightarrow> ('m, 'w) rpc_system" where
  "system_connect s = s\<lparr>client := client_onDealConnection True (client s), past_calls := server_calls s,
     server := new_channel, up := [], down := []\<rparr>"

definition system_disconnect :: "('m, 'w) rpc_system \<Rightarrow> ('m, 'w) rpc_system" where
  "system_disconnect s = s\<lparr>client := client_onDealConnection False (client s), up := [], down := []\<rparr>"

text \<open>What a step of the client writes is put on the way to the server.\<close>

definition client_moves :: "'m rpc_client \<Rightarrow> ('m, 'w) rpc_system \<Rightarrow> ('m, 'w) rpc_system" where
  "client_moves c s = s\<lparr>client := c, up := up s @ drop (length (sent_frames (client s))) (sent_frames c)\<rparr>"

definition server_receives ::
    "emEndian \<Rightarrow> 'm protobuf \<Rightarrow> ('m, 'w) callbacks \<Rightarrow> ('m, 'w) rpc_system \<Rightarrow> ('m, 'w) rpc_system result option" where
  "server_receives host pb cbs s =
     (case up s of
        [] \<Rightarrow> None
      | b # bs \<Rightarrow> Some (and_then (onDealMessage host pb cbs b (server s) (app s)) (\<lambda>(ch, w).
          Inr (s\<lparr>server := ch, app := w, up := bs,
                 down := down s @ writes (drop (length (calls (server s))) (calls ch))\<rparr>))))"

definition client_receives_reply ::
    "emEndian \<Rightarrow> 'm protobuf \<Rightarrow> ('m, 'w) rpc_system \<Rightarrow> ('m, 'w) rpc_system result option" where
  "client_receives_reply host pb s =
     (case down s of
        [] \<Rightarrow> None
      | b # bs \<Rightarrow> Some (and_then (client_onDealMessage host pb b (client s)) (\<lambda>c.
          Inr (s\<lparr>client := c, down := bs\<rparr>))))"

text \<open>The calls are those of messages the protobuf library can carry.\<close>

inductive system_step ::
    "emEndian \<Rightarrow> 'm protobuf \<Rightarrow> ('m, 'w) callbacks \<Rightarrow> ('m, 'w) rpc_system \<Rightarrow> ('m, 'w) rpc_system \<Rightarrow> bool"
  for host pb cbs where
  sys_start: "system_step host pb cbs s (client_moves (client_connect (client s)) s)"
| sys_connect: "system_step host pb cbs s (system_connect s)"
| sys_disconnect: "system_step host pb cbs s (system_disconnect s)"
| sys_call: "pb_wire_ok pb req \<Longrightarrow> call_begin host pb req (client s) = Inr (ko, c) \<Longrightarrow>
    system_step host pb cbs s (client_moves c s)"
| sys_wait: "wait_begin k (client s) = Some c \<Longrightarrow> system_step host pb cbs s (client_moves c s)"
| sys_timeout: "wait_timeout k (client s) = Some c \<Longrightarrow> system_step host pb cbs s (client_moves c s)"
| sys_return: "call_end k (client s) = Some (res, c) \<Longrightarrow> system_step host pb cbs s (client_moves c s)"
| sys_server: "server_receives host pb cbs s = Some (Inr s') \<Longrightarrow> system_step host pb cbs s s'"
| sys_reply: "client_receives_reply host pb s = Some (Inr s') \<Longrightarrow> system_step host pb cbs s s'"

inductive system_steps ::
    "emEndian \<Rightarrow> 'm protobuf \<Rightarrow> ('m, 'w) callbacks \<Rightarrow> ('m, 'w) rpc_system \<Rightarrow> ('m, 'w) rpc_system \<Rightarrow> bool"
  for host pb cbs where
  steps_refl: "system_steps host pb cbs s s"
| steps_step: "system_steps host pb cbs s s' \<Longrightarrow> system_step host pb cbs s' s'' \<Longrightarrow> system_steps host pb cbs s s''"

lemma system_steps_trans:
  "system_steps host pb cbs s' s'' \<Longrightarrow> system_steps host pb cbs s s' \<Longrightarrow> system_steps host pb cbs s s''"
  by (induction rule: system_steps.induct) (auto intro: steps_step)

text \<open>
  The byte stream: what is on the way in a direction is joined to one buffer before it is read.
\<close>

definition join_stream :: "('m, 'w) rpc_system \<Rightarrow> ('m, 'w) rpc_system" where
  "join_stream s =
     s\<lparr>up := (if concat (up s) = [] then [] else [concat (up s)]),
       down := (if concat (down s) = [] then [] else [concat (down s)])\<rparr>"

inductive net_step ::
    "bool \<Rightarrow> emEndian \<Rightarrow> 'm protobuf \<Rightarrow> ('m, 'w) callbacks \<Rightarrow> ('m, 'w) rpc_system \<Rightarrow> ('m, 'w) rpc_system \<Rightarrow> bool"
  for stream host pb cbs where
  net_step: "system_step host pb cbs (if stream then join_stream s else s) s' \<Longrightarrow> net_step stream host pb cbs s s'"

inductive net_steps ::
    "bool \<Rightarrow> emEndian \<Rightarrow> 'm protobuf \<Rightarrow> ('m, 'w) callbacks \<Rightarrow> ('m, 'w) rpc_system \<Rightarrow> ('m, 'w) rpc_system \<Rightarrow> bool"
  for stream host pb cbs where
  net_refl: "net_steps stream host pb cbs s s"
| net_more: "net_steps stream host pb cbs s s' \<Longrightarrow> net_step stream host pb cbs s' s'' \<Longrightarrow> net_steps stream host pb cbs s s''"

lemma net_steps_trans:
  "net_steps stream host pb cbs s' s'' \<Longrightarrow> net_steps stream host pb cbs s s' \<Longrightarrow> net_steps stream host pb cbs s s''"
  by (induction rule: net_steps.induct) (auto intro: net_more)

lemma net_steps_queues: "net_steps False host pb cbs s s' \<Longrightarrow> system_steps host pb cbs s s'"
  by (induction rule: net_steps.induct) (auto intro: steps_step simp: net_step.simps steps_refl)

lemma net_step_single:
  assumes "system_step host pb cbs s s'" "up s = [] \<or> (\<exists>b. up s = [b] \<and> b \<noteq> [])"
    "down s = [] \<or> (\<exists>b. down s = [b] \<and> b \<noteq> [])"
  shows "net_step stream host pb cbs s s'"
proof -
  have "join_stream s = s" using assms(2,3) by (auto simp: join_stream_def)
  then show ?thesis using assms(1) by (intro net_step) simp
qed

subsection \<open>The answer to a call\<close>

text \<open>\<open>m\<close> is what the callback registered for the request of call \<open>k\<close> answered to it.\<close>

definition answer_to :: "'m protobuf \<Rightarrow> ('m, 'w) callbacks \<Rightarrow> 'm rpc_client \<Rightarrow> nat \<Rightarrow> 'm \<Rightarrow> bool" where
  "answer_to pb cbs c k m \<longleftrightarrow>
     (let req = requestPtr (contexts c ! k)
      in \<exists>cb w w'. map_of cbs (pb_type_name pb req) = Some cb \<and> cb req w = (Some m, w'))"

text \<open>The callbacks answer with messages the protobuf library can carry.\<close>

definition answers_ok :: "'m protobuf \<Rightarrow> ('m, 'w) callbacks \<Rightarrow> bool" where
  "answers_ok pb cbs \<longleftrightarrow>
     (\<forall>d cb req w resp w'. map_of cbs d = Some cb \<longrightarrow> cb req w = (Some resp, w') \<longrightarrow> pb_wire_ok pb resp)"

lemma dealt_ok:
  assumes "answers_ok pb cbs" "dealProtobufMessage pb cbs req w = (Some resp, w')"
  shows "pb_wire_ok pb resp"
proof (cases "map_of cbs (pb_type_name pb req)")
  case (Some cb)
  then have "cb req w = (Some resp, w')" using assms(2) by (simp add: dealProtobufMessage_def)
  then show ?thesis using assms(1) Some unfolding answers_ok_def by blast
qed (use assms(2) in \<open>simp add: dealProtobufMessage_def\<close>)

text \<open>Calls are numbered from one in the order they are made, in 32 bits.\<close>

definition numbered :: "'m rpc_client \<Rightarrow> bool" where
  "numbered c \<longleftrightarrow> s_id c = word_of_nat (length (contexts c)) \<and>
     (\<forall>k < length (contexts c). ctx_seq (contexts c ! k) = word_of_nat (Suc k))"

definition carries_request :: "emEndian \<Rightarrow> 'm protobuf \<Rightarrow> 'm rpc_client \<Rightarrow> byte list \<Rightarrow> bool" where
  "carries_request host pb c b \<longleftrightarrow>
     (\<exists>k < length (contexts c). rpc_decode host pb b = Inr (ctx_seq (contexts c ! k), requestPtr (contexts c ! k)))"

definition carries_answer ::
    "emEndian \<Rightarrow> 'm protobuf \<Rightarrow> ('m, 'w) callbacks \<Rightarrow> 'm rpc_client \<Rightarrow> byte list \<Rightarrow> bool" where
  "carries_answer host pb cbs c b \<longleftrightarrow>
     (\<exists>k < length (contexts c). \<exists>m. rpc_decode host pb b = Inr (ctx_seq (contexts c ! k), m) \<and> answer_to pb cbs c k m)"

definition answered_right :: "'m protobuf \<Rightarrow> ('m, 'w) callbacks \<Rightarrow> 'm rpc_client \<Rightarrow> bool" where
  "answered_right pb cbs c \<longleftrightarrow>
     (\<forall>k < length (contexts c). \<forall>m. responsePtr (contexts c ! k) = Some m \<longrightarrow> answer_to pb cbs c k m) \<and>
     (\<forall>k m. Returned k (Some m) \<in> set (history c) \<longrightarrow> k < length (contexts c) \<and> answer_to pb cbs c k m)"

text \<open>No close by the server, and fewer calls than there are sequence numbers.\<close>

definition undisturbed :: "('m, 'w) rpc_system \<Rightarrow> bool" where
  "undisturbed s \<longleftrightarrow> Ch_close \<notin> set (server_calls s) \<and> length (contexts (client s)) < 2 ^ 32"

definition system_inv :: "emEndian \<Rightarrow> 'm protobuf \<Rightarrow> ('m, 'w) callbacks \<Rightarrow> ('m, 'w) rpc_system \<Rightarrow> bool" where
  "system_inv host pb cbs s \<longleftrightarrow>
     numbered (client s) \<and> client_inv (client s) \<and> (\<forall>b \<in> set (up s). carries_request host pb (client s) b) \<and>
     (undisturbed s \<longrightarrow> (\<forall>b \<in> set (down s). carries_answer host pb cbs (client s) b) \<and> answered_right pb cbs (client s))"

lemma system_invI:
  assumes "numbered (client s)" "client_inv (client s)" "\<And>b. b \<in> set (up s) \<Longrightarrow> carries_request host pb (client s) b"
    and "\<And>b. undisturbed s \<Longrightarrow> b \<in> set (down s) \<Longrightarrow> carries_answer host pb cbs (client s) b"
    and "undisturbed s \<Longrightarrow> answered_right pb cbs (client s)"
  shows "system_inv host pb cbs s"
  using assms by (simp add: system_inv_def)

lemma system_invD:
  assumes "system_inv host pb cbs s"
  shows "numbered (client s)" "client_inv (client s)" "b \<in> set (up s) \<Longrightarrow> carries_request host pb (client s) b"
    "undisturbed s \<Longrightarrow> b \<in> set (down s) \<Longrightarrow> carries_answer host pb cbs (client s) b"
    "undisturbed s \<Longrightarrow> answered_right pb cbs (client s)"
  using assms by (simp_all add: system_inv_def)

lemma numbered_inj:
  assumes "numbered c" "length (contexts c) < 2 ^ 32" "k < length (contexts c)" "j < length (contexts c)"
    and "ctx_seq (contexts c ! k) = ctx_seq (contexts c ! j)"
  shows "k = j"
proof -
  have "unat (word_of_nat (Suc i) :: u32) = Suc i" if "i < length (contexts c)" for i
    using that assms(2) by (simp only: unat_of_nat) simp
  then show ?thesis using assms by (metis Suc_inject numbered_def)
qed

text \<open>Steps that keep every call's number and request, and those that also keep the responses.\<close>

definition same_calls :: "'m rpc_client \<Rightarrow> 'm rpc_client \<Rightarrow> bool" where
  "same_calls c c' \<longleftrightarrow> length (contexts c') = length (contexts c) \<and> s_id c' = s_id c \<and>
     (\<forall>k < length (contexts c). ctx_seq (contexts c' ! k) = ctx_seq (contexts c ! k) \<and>
        requestPtr (contexts c' ! k) = requestPtr (contexts c ! k))"

definition quiet :: "'m rpc_client \<Rightarrow> 'm rpc_client \<Rightarrow> bool" where
  "quiet c c' \<longleftrightarrow> same_calls c c' \<and> sent_frames c' = sent_frames c \<and>
     (\<forall>k < length (contexts c). responsePtr (contexts c' ! k) = responsePtr (contexts c ! k)) \<and>
     (\<forall>e \<in> set (history c'). e \<in> set (history c) \<or>
        (\<exists>k < length (contexts c). e = Returned k (responsePtr (contexts c ! k))))"

lemma same_calls_numbered: "same_calls c c' \<Longrightarrow> numbered c \<Longrightarrow> numbered c'"
  by (simp add: same_calls_def numbered_def)

lemma same_calls_answer:
  "same_calls c c' \<Longrightarrow> k < length (contexts c) \<Longrightarrow> answer_to pb cbs c' k m = answer_to pb cbs c k m"
  by (simp add: same_calls_def answer_to_def Let_def)

lemma same_calls_carries:
  assumes "same_calls c c'"
  shows "carries_request host pb c b \<Longrightarrow> carries_request host pb c' b"
    "carries_answer host pb cbs c b \<Longrightarrow> carries_answer host pb cbs c' b"
proof -
  have q: "length (contexts c') = length (contexts c)"
    "k < length (contexts c) \<Longrightarrow> ctx_seq (contexts c' ! k) = ctx_seq (contexts c ! k)"
    "k < length (contexts c) \<Longrightarrow> requestPtr (contexts c' ! k) = requestPtr (contexts c ! k)" for k
    using assms by (simp_all add: same_calls_def)
  show "carries_request host pb c b \<Longrightarrow> carries_request host pb c' b"
    unfolding carries_request_def using q by metis
  show "carries_answer host pb cbs c b \<Longrightarrow> carries_answer host pb cbs c' b"
    unfolding carries_answer_def using q(1,2) same_calls_answer [OF assms, of _ pb cbs] by metis
qed

lemma quiet_connect: "quiet c (client_connect c)"
  by (simp add: quiet_def same_calls_def client_connect_def)

lemma quiet_connection: "quiet c (client_onDealConnection b c)"
  by (simp add: quiet_def same_calls_def client_onDealConnection_def)

lemma quiet_phase: "quiet c (ctx_update k (\<lambda>x. x\<lparr>ctx_phase := ph\<rparr>) c)"
  by (simp add: quiet_def same_calls_def) (simp add: ctx_update_def)

lemma quiet_wait: "wait_begin k c = Some c' \<Longrightarrow> quiet c c'"
  by (auto simp: wait_begin_def quiet_phase split: if_splits)

lemma quiet_timeout: "wait_timeout k c = Some c' \<Longrightarrow> quiet c c'"
  by (auto simp: wait_timeout_def quiet_phase split: if_splits)

lemma quiet_end: "call_end k c = Some (res, c') \<Longrightarrow> quiet c c'"
  using quiet_phase [of c k Finished]
  by (auto simp: call_end_def Let_def quiet_def same_calls_def split: if_splits)

lemma quiet_calls: "quiet c c' \<Longrightarrow> same_calls c c'"
  by (simp add: quiet_def)

lemma quiet_right:
  assumes q: "quiet c c'" and r: "answered_right pb cbs c"
  shows "answered_right pb cbs c'"
proof -
  have "k < length (contexts c) \<and> answer_to pb cbs c k m" if "Returned k (Some m) \<in> set (history c')" for k m
    using that q r by (auto simp: quiet_def answered_right_def)
  moreover have "answer_to pb cbs c k m" if "responsePtr (contexts c' ! k) = Some m" "k < length (contexts c)" for k m
    using that q r by (simp add: quiet_def answered_right_def)
  moreover have "length (contexts c') = length (contexts c)" using q by (simp add: quiet_def same_calls_def)
  ultimately show ?thesis
    unfolding answered_right_def using same_calls_answer [OF quiet_calls [OF q], of _ pb cbs] by metis
qed

lemma quiet_inv:
  assumes "system_inv host pb cbs s" "quiet (client s) c" "client_step host pb (client s) c"
    and "client s' = c" "set (up s') \<subseteq> set (up s)" "set (down s') \<subseteq> set (down s)"
    and "set (server_calls s') = set (server_calls s)"
  shows "system_inv host pb cbs s'"
proof -
  note calls = quiet_calls [OF assms(2)]
  have "numbered c" by (rule same_calls_numbered [OF calls system_invD(1) [OF assms(1)]])
  moreover have "client_inv c" using client_step_inv [OF assms(3)] system_invD(2) [OF assms(1)] .
  moreover have "undisturbed s' = undisturbed s" using calls assms(4,7) by (simp add: undisturbed_def same_calls_def)
  ultimately show ?thesis
    unfolding assms(4) [symmetric]
    using system_invD(3-5) [OF assms(1)] same_calls_carries [OF calls] quiet_right [OF assms(2)] assms(4-6)
    by (intro system_invI) blast+
qed

subsection \<open>Calls, requests and replies\<close>

lemma call_begin_sends:
  assumes "pb_wire_ok pb req" "m_connState c = kConnected"
  obtains fr where "call_begin host pb req c = Inr (Some (length (contexts c)), c\<lparr>s_id := s_id c + 1,
      m_calls := (m_calls c)(s_id c + 1 \<mapsto> length (contexts c)),
      contexts := contexts c @ [\<lparr>ctx_seq = s_id c + 1, requestPtr = req, responsePtr = None, ctx_phase = Sent\<rparr>],
      sent_frames := sent_frames c @ [fr], history := Called (length (contexts c)) (s_id c + 1) # history c\<rparr>)"
    "rpc_decode host pb fr = Inr (s_id c + 1, req)"
proof -
  have r: "ProtoRpcMessage\<lparr>ulSequeNum := s_id c + 1, protoMsgPtr := Some req\<rparr> = request_of (s_id c + 1) req"
    by (simp add: request_of_def)
  obtain msg' bs where e: "codingToBuf host pb (Some (request_of (s_id c + 1) req)) (Some [])
      = Inr (ERR_NONE, Some msg', Some (frame host (s_id c + 1) (pb_type_name pb req) bs))"
    using codingToBuf_ok [OF assms(1), of "request_of (s_id c + 1) req" host "[]"] by (auto simp: request_of_def)
  let ?fr = "frame host (s_id c + 1) (pb_type_name pb req) bs"
  have "rpc_encode host pb (s_id c + 1, req) = Inr ?fr" by (simp add: rpc_encode_def e)
  then have d: "rpc_decode host pb ?fr = Inr (s_id c + 1, req)"
    using rpc.dec_enc [of pb "(s_id c + 1, req)"] assms(1) by simp
  show ?thesis by (rule that [OF _ d]) (simp add: call_begin_def Let_def assms(2) r e)
qed

lemma system_inv_call:
  assumes inv: "system_inv host pb cbs s" and ok: "pb_wire_ok pb req"
    and call: "call_begin host pb req (client s) = Inr (ko, c)"
  shows "system_inv host pb cbs (client_moves c s)"
proof (cases "m_connState (client s) = kConnected")
  case False
  then have "client_moves c s = s" using call by (simp add: call_begin_def client_moves_def)
  then show ?thesis using inv by simp
next
  case True
  let ?c = "client s"
  let ?x = "\<lparr>ctx_seq = s_id ?c + 1, requestPtr = req, responsePtr = None, ctx_phase = Sent\<rparr>"
  obtain fr where fr: "call_begin host pb req ?c = Inr (Some (length (contexts ?c)), ?c\<lparr>s_id := s_id ?c + 1,
      m_calls := (m_calls ?c)(s_id ?c + 1 \<mapsto> length (contexts ?c)), contexts := contexts ?c @ [?x],
      sent_frames := sent_frames ?c @ [fr], history := Called (length (contexts ?c)) (s_id ?c + 1) # history ?c\<rparr>)"
    "rpc_decode host pb fr = Inr (s_id ?c + 1, req)"
    by (rule call_begin_sends [OF ok True, of host])
  have c: "contexts c = contexts ?c @ [?x]" "s_id c = s_id ?c + 1" "sent_frames c = sent_frames ?c @ [fr]"
    "history c = Called (length (contexts ?c)) (s_id ?c + 1) # history ?c"
    using call fr(1) by auto
  have old: "contexts c ! k = contexts ?c ! k" if "k < length (contexts ?c)" for k
    using that by (simp add: c nth_append)
  have new: "contexts c ! length (contexts ?c) = ?x" "length (contexts c) = Suc (length (contexts ?c))"
    by (simp_all add: c)
  have "numbered c"
    using system_invD(1) [OF inv] by (auto simp: numbered_def c nth_append less_Suc_eq)
  moreover have "client_inv c" by (rule inv_begin [OF system_invD(2) [OF inv] call])
  moreover have "carries_request host pb c b" if "b \<in> set (up (client_moves c s))" for b
  proof (cases "b = fr")
    case True
    then show ?thesis using fr(2) new unfolding carries_request_def
      by (intro exI [of _ "length (contexts ?c)"]) simp
  next
    case False
    then have "b \<in> set (up s)" using that by (simp add: client_moves_def c)
    from system_invD(3) [OF inv this] show ?thesis
      using old new(2) unfolding carries_request_def by (metis less_SucI)
  qed
  moreover have u: "undisturbed s" if "undisturbed (client_moves c s)"
    using that new(2) by (simp add: undisturbed_def client_moves_def server_calls_def)
  moreover have ans: "answer_to pb cbs c k m = answer_to pb cbs ?c k m" if "k < length (contexts ?c)" for k m
    using old [OF that] by (simp add: answer_to_def)
  moreover have "carries_answer host pb cbs c b" if "undisturbed (client_moves c s)" "b \<in> set (down (client_moves c s))" for b
  proof -
    have "b \<in> set (down s)" using that(2) by (simp add: client_moves_def)
    from system_invD(4) [OF inv u [OF that(1)] this] show ?thesis
      using old new(2) ans unfolding carries_answer_def by (metis less_SucI)
  qed
  moreover have "answered_right pb cbs c" if "undisturbed (client_moves c s)"
  proof -
    note r = system_invD(5) [OF inv u [OF that], unfolded answered_right_def]
    have "responsePtr (contexts c ! k) = Some m \<Longrightarrow> answer_to pb cbs c k m" if "k < length (contexts c)" for k m
      using that r old [of k] ans [of k] new by (cases "k < length (contexts ?c)") (auto simp: less_Suc_eq)
    moreover have "Returned k (Some m) \<in> set (history c) \<Longrightarrow> k < length (contexts c) \<and> answer_to pb cbs c k m" for k m
      using r ans [of k] new(2) by (auto simp: c(4) intro: less_SucI)
    ultimately show ?thesis unfolding answered_right_def by blast
  qed
  ultimately show ?thesis by (intro system_invI) (simp_all add: client_moves_def)
qed

text \<open>A request that decodes is answered by its callback, or the connection is closed.\<close>

lemma server_answers_or_closes:
  assumes deal: "onDealMessage host pb cbs b ch w = Inr (ch', w')" and req: "rpc_decode host pb b = Inr (seq, req)"
    and ok: "answers_ok pb cbs"
  shows "(\<exists>cb resp out. map_of cbs (pb_type_name pb req) = Some cb \<and> cb req w = (Some resp, w') \<and>
      calls ch' = calls ch @ [Ch_write out] \<and> rpc_decode host pb out = Inr (seq, resp)) \<or>
    (\<exists>new. calls ch' = calls ch @ new \<and> Ch_close \<in> set new)"
proof -
  obtain msg b' where d: "decodingFromBuf host pb (Some ProtoRpcMessage) (Some b) = Inr (ERR_NONE, Some msg, b')"
    "protoMsgPtr msg = Some req" "ulSequeNum msg = seq" by (rule rpc_decode_Inr [OF req])
  have closing: "\<exists>new. calls (channel_close ch) = calls ch @ new \<and> Ch_close \<in> set new"
    "\<exists>new. calls (echo_and_close b' ch) = calls ch @ new \<and> Ch_close \<in> set new"
    by (simp_all add: echo_and_close_def)
  have answer: ?thesis if dealt: "dealProtobufMessage pb cbs req w = (Some resp, w1)"
      "and_then (send_response host pb seq resp ch1) (\<lambda>ch'. Inr (ch', w1)) = Inr (ch', w')" "calls ch1 = calls ch"
    for resp w1 ch1
  proof -
    obtain cb where cb: "map_of cbs (pb_type_name pb req) = Some cb" "cb req w = (Some resp, w1)"
      using dealt by (auto simp: dealProtobufMessage_def split: option.splits)
    obtain out where "send_response host pb seq resp ch1 = Inr (channel_write out ch1)"
      "rpc_decode host pb out = Inr (seq, resp)" by (rule send_response_ok [OF dealt_ok [OF ok dealt(1)]])
    then show ?thesis using that(2,3) cb by auto
  qed
  obtain ro w1 where r: "dealProtobufMessage pb cbs req w = (ro, w1)" by fastforce
  have login: "onDealLoginMessage host pb cbs b ch w =
      (if pb_type_name pb req = login_type
       then (case ro of Some resp \<Rightarrow> and_then (send_response host pb seq resp (ch\<lparr>clientState := True\<rparr>)) (\<lambda>ch'. Inr (ch', w1))
             | None \<Rightarrow> Inr (channel_close ch, w1))
       else Inr (echo_and_close b' ch, w))"
    using d r by (cases ro) (simp_all add: onDealLoginMessage_def)
  have logged_in: "clientState ch \<Longrightarrow> onDealMessage host pb cbs b ch w =
      (case ro of Some resp \<Rightarrow> and_then (send_response host pb seq resp ch) (\<lambda>ch'. Inr (ch', w1))
       | None \<Rightarrow> Inr (channel_close ch, w1))"
    using d r by (cases ro) (simp_all add: onDealMessage_def)
  consider "ro = None" "ch' = channel_close ch" | "ch' = echo_and_close b' ch"
    | resp ch1 where "ro = Some resp" "calls ch1 = calls ch"
        "and_then (send_response host pb seq resp ch1) (\<lambda>ch'. Inr (ch', w1)) = Inr (ch', w')"
  proof (cases "clientState ch")
    case True
    then show ?thesis using deal logged_in that(1) that(3) [of _ ch] by (cases ro) auto
  next
    case False
    then have "onDealLoginMessage host pb cbs b ch w = Inr (ch', w')" using deal by (simp add: onDealMessage_def)
    then show ?thesis
      using login that(1,2) that(3) [of _ "ch\<lparr>clientState := True\<rparr>"] by (cases ro) (auto split: if_splits)
  qed
  then show ?thesis
  proof cases
    case 1
    then show ?thesis using closing(1) by blast
  next
    case 2
    then show ?thesis using closing(2) by blast
  next
    case 3
    then show ?thesis using answer r by blast
  qed
qed

lemma writes_append [simp]: "writes (xs @ ys) = writes xs @ writes ys"
  by (induction xs rule: writes.induct) simp_all

lemma system_inv_server:
  assumes inv: "system_inv host pb cbs s" and ok: "answers_ok pb cbs"
    and step: "server_receives host pb cbs s = Some (Inr s')"
  shows "system_inv host pb cbs s'"
proof -
  obtain b bs ch w where u: "up s = b # bs" and deal: "onDealMessage host pb cbs b (server s) (app s) = Inr (ch, w)"
    and s': "s' = s\<lparr>server := ch, app := w, up := bs, down := down s @ writes (drop (length (calls (server s))) (calls ch))\<rparr>"
    using step by (auto simp: server_receives_def and_then_eq_Inr split: list.splits)
  have "carries_request host pb (client s) b" using system_invD(3) [OF inv] u by simp
  then obtain k where k: "k < length (contexts (client s))"
    and req: "rpc_decode host pb b = Inr (ctx_seq (contexts (client s) ! k), requestPtr (contexts (client s) ! k))"
    by (auto simp: carries_request_def)
  from server_answers_or_closes [OF deal req ok] show ?thesis
  proof (elim disjE exE conjE)
    fix cb resp out
    assume cb: "map_of cbs (pb_type_name pb (requestPtr (contexts (client s) ! k))) = Some cb"
      "cb (requestPtr (contexts (client s) ! k)) (app s) = (Some resp, w)"
      and calls: "calls ch = calls (server s) @ [Ch_write out]"
      and out: "rpc_decode host pb out = Inr (ctx_seq (contexts (client s) ! k), resp)"
    have "answer_to pb cbs (client s) k resp" using cb by (auto simp: answer_to_def Let_def)
    then have "carries_answer host pb cbs (client s) out" using k out by (auto simp: carries_answer_def)
    moreover have "down s' = down s @ [out]" "undisturbed s' = undisturbed s"
      by (simp_all add: s' calls undisturbed_def server_calls_def)
    ultimately show ?thesis
      using system_invD [OF inv] by (intro system_invI) (auto simp: s' u)
  next
    fix new
    assume "calls ch = calls (server s) @ new" "Ch_close \<in> set new"
    then have "\<not> undisturbed s'" by (simp add: s' undisturbed_def server_calls_def)
    then show ?thesis using system_invD(1-3) [OF inv] by (intro system_invI) (simp_all add: s' u)
  qed
qed

lemma reply_same_calls:
  assumes "client_onDealMessage host pb b c = Inr c'"
  shows "same_calls c c'" "sent_frames c' = sent_frames c" "Returned k r \<in> set (history c') \<Longrightarrow> Returned k r \<in> set (history c)"
proof -
  have n: "requestPtr (notify x) = requestPtr x" for x :: "'a rpc_context" by (simp add: notify_def)
  have i: "s_id (ctx_update k f c) = s_id c" "sent_frames (ctx_update k f c) = sent_frames c" for k f and c :: "'a rpc_client"
    by (simp_all add: ctx_update_def)
  show "same_calls c c'" using assms by (cases rule: client_message_cases) (simp_all add: same_calls_def n i)
  show "sent_frames c' = sent_frames c" using assms by (cases rule: client_message_cases) (simp_all add: i)
  show "Returned k r \<in> set (history c') \<Longrightarrow> Returned k r \<in> set (history c)"
    using assms by (cases rule: client_message_cases) simp_all
qed

text \<open>An answer under the number of call \<open>j\<close> reaches no other call.\<close>

lemma reply_right:
  assumes inv: "numbered c" "client_inv c" "length (contexts c) < 2 ^ 32" "answered_right pb cbs c"
    and b: "carries_answer host pb cbs c b" "client_onDealMessage host pb b c = Inr c'"
  shows "answered_right pb cbs c'"
proof -
  obtain j m where j: "j < length (contexts c)" "rpc_decode host pb b = Inr (ctx_seq (contexts c ! j), m)"
    "answer_to pb cbs c j m" using b(1) by (auto simp: carries_answer_def)
  note c' = client_receives [OF j(2), of c]
  have "answer_to pb cbs c k x" if k: "k < length (contexts c)" "responsePtr (contexts c' ! k) = Some x" for k x
  proof (cases "m_calls c (ctx_seq (contexts c ! j)) = Some k")
    case True
    then have "ctx_seq (contexts c ! k) = ctx_seq (contexts c ! j)" using inv(2) by (simp add: client_inv_def)
    then have "k = j" using numbered_inj [OF inv(1,3) k(1) j(1)] by simp
    moreover have "x = m" using b(2) k c' True by auto
    ultimately show ?thesis using j(3) by simp
  next
    case False
    then have "responsePtr (contexts c' ! k) = responsePtr (contexts c ! k)"
      using b(2) k(1) c' by (cases "m_calls c (ctx_seq (contexts c ! j))") auto
    then show ?thesis using k inv(4) by (simp add: answered_right_def)
  qed
  moreover have "k < length (contexts c) \<and> answer_to pb cbs c k x" if "Returned k (Some x) \<in> set (history c')" for k x
    using reply_same_calls(3) [OF b(2) that] inv(4) by (simp add: answered_right_def)
  moreover have "length (contexts c') = length (contexts c)"
    using reply_same_calls(1) [OF b(2)] by (simp add: same_calls_def)
  ultimately show ?thesis
    unfolding answered_right_def using same_calls_answer [OF reply_same_calls(1) [OF b(2)], of _ pb cbs] by metis
qed

lemma system_inv_reply:
  assumes inv: "system_inv host pb cbs s" and step: "client_receives_reply host pb s = Some (Inr s')"
  shows "system_inv host pb cbs s'"
proof -
  let ?c = "client s"
  obtain b bs c where dn: "down s = b # bs" and deal: "client_onDealMessage host pb b ?c = Inr c"
    and s': "client s' = c" "up s' = up s" "down s' = bs" "server_calls s' = server_calls s"
    using step by (auto simp: client_receives_reply_def and_then_eq_Inr server_calls_def split: list.splits)
  note calls = reply_same_calls(1) [OF deal]
  have u: "undisturbed s' = undisturbed s" using calls by (simp add: undisturbed_def s' same_calls_def)
  have "answered_right pb cbs c" if "undisturbed s"
    using system_invD [OF inv] that dn by (intro reply_right [OF _ _ _ _ _ deal]) (simp_all add: undisturbed_def)
  then show ?thesis
    using system_invD [OF inv] same_calls_numbered [OF calls] inv_message [OF _ deal]
      same_calls_carries(1) [OF calls] same_calls_carries(2) [OF calls, of host pb cbs] u dn
    by (intro system_invI) (simp_all add: s')
qed

lemma server_calls_new [simp]: "server_calls (rpc_system_new w) = []"
  by (simp add: server_calls_def rpc_system_new_def new_channel_def)

lemma system_inv_new: "system_inv host pb cbs (rpc_system_new w)"
proof -
  have "client (rpc_system_new w :: ('a, 'b) rpc_system) = CProtoRpcClient" "up (rpc_system_new w :: ('a, 'b) rpc_system) = []"
    "down (rpc_system_new w :: ('a, 'b) rpc_system) = []" by (simp_all add: rpc_system_new_def)
  moreover have "numbered CProtoRpcClient" "answered_right pb cbs CProtoRpcClient"
    by (simp_all add: numbered_def answered_right_def CProtoRpcClient_def)
  ultimately show ?thesis using inv_init by (intro system_invI) simp_all
qed

lemma client_moves_simps [simp]:
  "client (client_moves c s) = c" "down (client_moves c s) = down s" "server (client_moves c s) = server s"
  "app (client_moves c s) = app s" "server_calls (client_moves c s) = server_calls s"
  "quiet (client s) c \<Longrightarrow> up (client_moves c s) = up s"
  by (simp_all add: client_moves_def server_calls_def quiet_def)

lemma system_step_inv:
  assumes "answers_ok pb cbs" "system_step host pb cbs s s'" "system_inv host pb cbs s"
  shows "system_inv host pb cbs s'"
  using assms(2)
proof cases
  case sys_start
  show ?thesis unfolding sys_start
    by (rule quiet_inv [OF assms(3) quiet_connect step_connect]) (simp_all add: quiet_connect)
next
  case sys_connect
  show ?thesis unfolding sys_connect
    by (rule quiet_inv [OF assms(3) quiet_connection step_connection])
      (simp_all add: system_connect_def server_calls_def new_channel_def)
next
  case sys_disconnect
  show ?thesis unfolding sys_disconnect
    by (rule quiet_inv [OF assms(3) quiet_connection step_connection])
      (simp_all add: system_disconnect_def server_calls_def)
next
  case (sys_call req ko c)
  then show ?thesis using system_inv_call [OF assms(3)] by simp
next
  case (sys_wait k c)
  show ?thesis unfolding sys_wait(1)
    by (rule quiet_inv [OF assms(3) quiet_wait [OF sys_wait(2)] step_wait [OF sys_wait(2)]])
      (simp_all add: quiet_wait [OF sys_wait(2)])
next
  case (sys_timeout k c)
  show ?thesis unfolding sys_timeout(1)
    by (rule quiet_inv [OF assms(3) quiet_timeout [OF sys_timeout(2)] step_timeout [OF sys_timeout(2)]])
      (simp_all add: quiet_timeout [OF sys_timeout(2)])
next
  case (sys_return k res c)
  show ?thesis unfolding sys_return(1)
    by (rule quiet_inv [OF assms(3) quiet_end [OF sys_return(2)] step_end [OF sys_return(2)]])
      (simp_all add: quiet_end [OF sys_return(2)])
next
  case sys_server
  show ?thesis by (rule system_inv_server [OF assms(3,1) sys_server])
next
  case sys_reply
  show ?thesis by (rule system_inv_reply [OF assms(3) sys_reply])
qed

lemma system_steps_inv:
  assumes "system_steps host pb cbs s s'" "answers_ok pb cbs" "system_inv host pb cbs s"
  shows "system_inv host pb cbs s'"
  using assms by (induction rule: system_steps.induct) (auto intro: system_step_inv)

text \<open>
  C4: Client and server together, in every interleaving of calls, replies, timeouts and
  reconnections: as long as the server has closed no connection and fewer than \<open>2 ^ 32\<close> calls were
  made, a call that returns a message returns what the callback registered for the type of its
  request answered to that very request.
\<close>

theorem call_returns_callback_answer:
  assumes "answers_ok pb cbs" "system_steps host pb cbs (rpc_system_new w0) s"
    and "Ch_close \<notin> set (server_calls s)" "length (contexts (client s)) < 2 ^ 32"
    and "Returned k (Some m) \<in> set (history (client s))"
  shows "\<exists>cb w w'. map_of cbs (pb_type_name pb (requestPtr (contexts (client s) ! k))) = Some cb \<and>
    cb (requestPtr (contexts (client s) ! k)) w = (Some m, w')"
proof -
  have "answered_right pb cbs (client s)"
    using system_invD(5) [OF system_steps_inv [OF assms(2,1) system_inv_new]] assms(3,4) by (simp add: undisturbed_def)
  then show ?thesis using assms(5) by (auto simp: answered_right_def answer_to_def Let_def)
qed

subsection \<open>A session\<close>

text \<open>The results of the calls that returned, in that order.\<close>

fun returns :: "'m client_event list \<Rightarrow> (nat \<times> 'm option) list" where
  "returns [] = []"
| "returns (Returned k r # h) = returns h @ [(k, r)]"
| "returns (Called k s # h) = returns h"
| "returns (Received s m # h) = returns h"

text \<open>What the callbacks answer to a sequence of requests, if they answer all of them.\<close>

fun answers :: "'m protobuf \<Rightarrow> ('m, 'w) callbacks \<Rightarrow> 'm list \<Rightarrow> 'w \<Rightarrow> ('m list \<times> 'w) option" where
  "answers pb cbs [] w = Some ([], w)"
| "answers pb cbs (req # reqs) w =
     (case dealProtobufMessage pb cbs req w of
        (None, w') \<Rightarrow> None
      | (Some resp, w') \<Rightarrow> map_option (\<lambda>(resps, w''). (resp # resps, w'')) (answers pb cbs reqs w'))"

definition ready :: "bool \<Rightarrow> ('m, 'w) rpc_system \<Rightarrow> bool" where
  "ready logged_in s \<longleftrightarrow> m_connState (client s) = kConnected \<and> up s = [] \<and> down s = [] \<and>
     clientState (server s) = logged_in \<and> Ch_close \<notin> set (server_calls s)"

lemma server_answers:
  assumes "rpc_decode host pb b = Inr (seq, req)" "dealProtobufMessage pb cbs req w = (Some resp, w')"
    and "pb_wire_ok pb resp" "clientState ch \<or> pb_type_name pb req = login_type"
  obtains out where "onDealMessage host pb cbs b ch w = Inr (channel_write out (ch\<lparr>clientState := True\<rparr>), w')"
    "rpc_decode host pb out = Inr (seq, resp)"
proof -
  obtain msg b' where d: "decodingFromBuf host pb (Some ProtoRpcMessage) (Some b) = Inr (ERR_NONE, Some msg, b')"
    "protoMsgPtr msg = Some req" "ulSequeNum msg = seq" by (rule rpc_decode_Inr [OF assms(1)])
  obtain out where out: "send_response host pb seq resp (ch\<lparr>clientState := True\<rparr>) = Inr (channel_write out (ch\<lparr>clientState := True\<rparr>))"
    "rpc_decode host pb out = Inr (seq, resp)" by (rule send_response_ok [OF assms(3)])
  have "onDealMessage host pb cbs b ch w = Inr (channel_write out (ch\<lparr>clientState := True\<rparr>), w')"
  proof (cases "clientState ch")
    case True
    then have c: "ch\<lparr>clientState := True\<rparr> = ch" by simp
    show ?thesis unfolding c using True d out(1) [unfolded c] assms(2) by (simp add: onDealMessage_def)
  next
    case False
    then show ?thesis using d out(1) assms(2,4) by (simp add: onDealMessage_def onDealLoginMessage_def)
  qed
  then show ?thesis by (rule that [OF _ out(2)])
qed

lemma rpc_decode_nonempty: "rpc_decode host pb b = Inr x \<Longrightarrow> b \<noteq> []"
  by (auto simp: rpc_decode_def decodingFromBuf_def decode_frame_def PROTO_MSG_MIN_LEN_def and_then_eq_Inr)

lemma one_call:
  assumes rd: "ready l s" and req: "pb_wire_ok pb req" "l \<or> pb_type_name pb req = login_type"
    and deal: "dealProtobufMessage pb cbs req (app s) = (Some resp, w)" and resp: "pb_wire_ok pb resp"
  shows "\<exists>s'. net_steps stream host pb cbs s s' \<and> ready True s' \<and> app s' = w \<and>
    length (contexts (client s')) = Suc (length (contexts (client s))) \<and>
    returns (history (client s')) = returns (history (client s)) @ [(length (contexts (client s)), Some resp)]"
proof -
  let ?c = "client s" and ?n = "length (contexts (client s))" and ?q = "s_id (client s) + 1"
  have rd': "m_connState ?c = kConnected" "up s = []" "down s = []" "clientState (server s) = l"
    "Ch_close \<notin> set (server_calls s)" using rd by (simp_all add: ready_def)
  obtain fr where call: "call_begin host pb req ?c = Inr (Some ?n, ?c\<lparr>s_id := ?q, m_calls := (m_calls ?c)(?q \<mapsto> ?n),
      contexts := contexts ?c @ [\<lparr>ctx_seq = ?q, requestPtr = req, responsePtr = None, ctx_phase = Sent\<rparr>],
      sent_frames := sent_frames ?c @ [fr], history := Called ?n ?q # history ?c\<rparr>)" (is "_ = Inr (_, ?c1)")
    and fr: "rpc_decode host pb fr = Inr (?q, req)"
    by (rule call_begin_sends [OF req(1) rd'(1), of host])
  let ?s1 = "client_moves ?c1 s"
  have up1: "up ?s1 = [fr]" by (simp add: client_moves_def rd')
  have down1: "down ?s1 = []" by (simp add: client_moves_def rd')
  have 1: "system_step host pb cbs s ?s1" by (rule sys_call [OF req(1) call])
  let ?c2 = "ctx_update ?n (\<lambda>x. x\<lparr>ctx_phase := Waiting\<rparr>) ?c1"
  have w: "wait_begin ?n ?c1 = Some ?c2" by (simp add: wait_begin_def)
  let ?s2 = "client_moves ?c2 ?s1"
  have 2: "system_step host pb cbs ?s1 ?s2" using w by (intro sys_wait) simp
  have up2: "up ?s2 = [fr]" using up1 quiet_wait [OF w] by simp
  obtain out where out: "onDealMessage host pb cbs fr (server s) (app s) =
      Inr (channel_write out ((server s)\<lparr>clientState := True\<rparr>), w)" (is "_ = Inr (?ch, _)")
    "rpc_decode host pb out = Inr (?q, resp)"
    by (rule server_answers [OF fr deal resp, of "server s"]) (use req(2) rd'(4) in auto)
  let ?s3 = "?s2\<lparr>server := ?ch, app := w, up := [], down := [out]\<rparr>"
  have 3: "system_step host pb cbs ?s2 ?s3"
    by (rule sys_server) (simp add: server_receives_def up2 out(1) rd'(3))
  let ?c4 = "ctx_update ?n (\<lambda>x. notify (x\<lparr>responsePtr := Some resp\<rparr>)) (?c2\<lparr>history := Received ?q resp # history ?c2\<rparr>)"
  let ?s4 = "?s3\<lparr>client := ?c4, down := []\<rparr>"
  have 4: "system_step host pb cbs ?s3 ?s4"
    by (rule sys_reply) (simp add: client_receives_reply_def client_receives [OF out(2)])
  obtain c5 where e: "call_end ?n ?c4 = Some (Some resp, c5)" and h5: "history c5 = Returned ?n (Some resp) # history ?c4"
    by (simp add: call_end_def notify_def Let_def)
  let ?s5 = "client_moves c5 ?s4"
  have 5: "system_step host pb cbs ?s4 ?s5" using e by (intro sys_return) simp
  have "m_connState c5 = kConnected" "length (contexts c5) = Suc ?n"
    using e rd'(1) by (auto simp: call_end_def Let_def ctx_update_def split: if_splits)
  moreover have "server_calls ?s5 = server_calls s @ [Ch_write out]"
    by (simp add: server_calls_def client_moves_def)
  moreover have "up ?s5 = []" using quiet_end [OF e] by simp
  ultimately have "ready True ?s5" using rd'(5) by (simp add: ready_def)
  moreover have "net_steps stream host pb cbs s ?s5"
    by (rule net_more [OF net_more [OF net_more [OF net_more [OF net_more [OF net_refl
      net_step_single [OF 1]] net_step_single [OF 2]] net_step_single [OF 3]] net_step_single [OF 4]] net_step_single [OF 5]])
      (use up1 up2 down1 rd'(2,3) rpc_decode_nonempty [OF fr] rpc_decode_nonempty [OF out(2)] in simp_all)
  moreover have "returns (history (client ?s5)) = returns (history ?c) @ [(?n, Some resp)]" by (simp add: h5)
  ultimately show ?thesis using \<open>length (contexts c5) = Suc ?n\<close> by (intro exI [of _ ?s5]) simp
qed

lemma answers_Cons:
  assumes "answers pb cbs (req # reqs) w = Some (resps, w')"
  obtains resp w1 rest where "dealProtobufMessage pb cbs req w = (Some resp, w1)"
    "answers pb cbs reqs w1 = Some (rest, w')" "resps = resp # rest"
  using assms by (auto split: prod.splits option.splits)

lemma logged_in_calls:
  assumes "ready True s" "\<forall>req \<in> set reqs. pb_wire_ok pb req" "answers_ok pb cbs"
    and "answers pb cbs reqs (app s) = Some (resps, w)"
  shows "\<exists>s'. net_steps stream host pb cbs s s' \<and> ready True s' \<and> app s' = w \<and>
    length (contexts (client s')) = length (contexts (client s)) + length resps \<and>
    returns (history (client s')) = returns (history (client s)) @ enumerate (length (contexts (client s))) (map Some resps)"
  using assms
proof (induction reqs arbitrary: s resps)
  case Nil
  then show ?case by (auto intro!: exI [of _ s] net_refl)
next
  case (Cons req reqs)
  obtain resp w1 rest where a: "dealProtobufMessage pb cbs req (app s) = (Some resp, w1)"
    "answers pb cbs reqs w1 = Some (rest, w)" "resps = resp # rest"
    by (rule answers_Cons [OF Cons.prems(4)])
  from one_call [OF Cons.prems(1) _ _ a(1) dealt_ok [OF Cons.prems(3) a(1)], where host = host and stream = stream] Cons.prems(2) obtain s1 where
    s1: "net_steps stream host pb cbs s s1" "ready True s1" "app s1 = w1"
      "length (contexts (client s1)) = Suc (length (contexts (client s)))"
      "returns (history (client s1)) = returns (history (client s)) @ [(length (contexts (client s)), Some resp)]"
    by auto
  from Cons.IH [OF s1(2) _ Cons.prems(3), of rest] Cons.prems(2) a(2) s1(3) obtain s2 where
    s2: "net_steps stream host pb cbs s1 s2" "ready True s2" "app s2 = w"
      "length (contexts (client s2)) = length (contexts (client s1)) + length rest"
      "returns (history (client s2)) = returns (history (client s1)) @ enumerate (length (contexts (client s1))) (map Some rest)"
    by auto
  show ?case
    using net_steps_trans [OF s2(1) s1(1)] s2 s1(4,5) by (intro exI [of _ s2]) (simp add: a(3))
qed

lemma session_runs:
  fixes pb :: "'m protobuf" and w0 :: 'w
  assumes "pb_type_name pb login = login_type" "\<forall>req \<in> set (login # reqs). pb_wire_ok pb req" "answers_ok pb cbs"
    and "answers pb cbs (login # reqs) w0 = Some (resps, w)"
  shows "\<exists>s. net_steps stream host pb cbs (rpc_system_new w0) s \<and> app s = w \<and> ready True s \<and>
    length (contexts (client s)) = length resps \<and> returns (history (client s)) = enumerate 0 (map Some resps)"
proof -
  let ?s0 = "system_connect (rpc_system_new w0) :: ('m, 'w) rpc_system"
  have s0: "ready False ?s0" "app ?s0 = w0" "contexts (client ?s0) = []" "history (client ?s0) = []"
    by (simp_all add: ready_def system_connect_def server_calls_def new_channel_def client_onDealConnection_def)
      (simp_all add: rpc_system_new_def new_channel_def CProtoRpcClient_def)
  obtain resp w1 rest where a: "dealProtobufMessage pb cbs login w0 = (Some resp, w1)"
    "answers pb cbs reqs w1 = Some (rest, w)" "resps = resp # rest"
    by (rule answers_Cons [OF assms(4)])
  have "dealProtobufMessage pb cbs login (app ?s0) = (Some resp, w1)" using a(1) s0(2) by simp
  from one_call [OF s0(1) _ _ this dealt_ok [OF assms(3) a(1)], where host = host and stream = stream] assms(1,2) s0(3,4) obtain s1 where
    s1: "net_steps stream host pb cbs ?s0 s1" "ready True s1" "app s1 = w1" "length (contexts (client s1)) = 1"
      "returns (history (client s1)) = [(0, Some resp)]"
    by auto
  from logged_in_calls [OF s1(2) _ assms(3), where reqs = reqs and resps = rest and w = w and host = host and stream = stream] assms(2) a(2) s1(3) obtain s2 where
    s2: "net_steps stream host pb cbs s1 s2" "ready True s2" "app s2 = w"
      "length (contexts (client s2)) = length (contexts (client s1)) + length rest"
      "returns (history (client s2)) = (0, Some resp) # enumerate 1 (map Some rest)"
    using s1(4,5) by auto
  have "net_steps stream host pb cbs (rpc_system_new w0) ?s0" by (rule net_more [OF net_refl net_step_single [OF sys_connect]])
      (simp_all add: rpc_system_new_def)
  then have "net_steps stream host pb cbs (rpc_system_new w0) s2"
    using net_steps_trans [OF s2(1) net_steps_trans [OF s1(1)]] by blast
  then show ?thesis using s2 by (intro exI [of _ s2]) (simp add: s1(4) a(3))
qed

text \<open>
  C9: A session can run to its end: from the fresh system, when the callbacks answer a login request
  and then every request of a list, there is a run in which the connection comes up, the calls are
  made one after the other, each returns its callback's answer, and the application ends in the
  state the callbacks leave. Such a run exists on a network that delivers each write as one read
  and also on a byte stream whose reads return everything written since the last one (\<open>stream\<close>).
  It does not cover a read that returns part of a frame, nor calls under way at the same time,
  whose frames one read can run together (\<open>coalesced_requests_refused\<close>).
\<close>

theorem session_completes:
  assumes "pb_type_name pb login = login_type" "\<forall>req \<in> set (login # reqs). pb_wire_ok pb req" "answers_ok pb cbs"
    and "answers pb cbs (login # reqs) w0 = Some (resps, w)"
  shows "\<exists>s. net_steps stream host pb cbs (rpc_system_new w0) s \<and> app s = w \<and> clientState (server s) \<and>
    Ch_close \<notin> set (server_calls s) \<and> returns (history (client s)) = enumerate 0 (map Some resps)"
  using session_runs [OF assms, where host = host and stream = stream] by (auto simp: ready_def)

lemma returns_mem: "(k, r) \<in> set (returns h) \<longleftrightarrow> Returned k r \<in> set h"
  by (induction h rule: returns.induct) auto

text \<open>A server whose only request is the login.\<close>

lemma demo_answers:
  "answers_ok login_pb [(login_type, \<lambda>_ w :: nat. (Some [8], w + 1))]"
  "answers login_pb [(login_type, \<lambda>_ w :: nat. (Some [8], w + 1))] [[5], [6]] 0 = Some ([[8], [8]], 2)"
  using login_pb_ok [of "[8]"] by (simp_all add: answers_ok_def dealProtobufMessage_def login_pb_def split: if_splits)

theorem session_completes_witness:
  "\<exists>s. net_steps True LITTLE login_pb [(login_type, \<lambda>_ w :: nat. (Some [8], w + 1))] (rpc_system_new 0) s \<and> app s = 2 \<and>
     returns (history (client s)) = [(0, Some [8]), (1, Some [8])]"
proof -
  have "pb_type_name login_pb [5] = login_type" by (simp add: login_pb_def)
  from session_completes [OF this _ demo_answers, where host = LITTLE and stream = True] show ?thesis
    using login_pb_ok [of "[5]"] login_pb_ok [of "[6]"] by auto
qed

theorem call_returns_callback_answer_witness:
  "\<exists>s :: (byte list, nat) rpc_system. Returned 1 (Some [8]) \<in> set (history (client s)) \<and> app s = 2 \<and>
     (\<exists>cb w w'. map_of [(login_type, \<lambda>_ w. (Some [8], w + 1))] (pb_type_name login_pb (requestPtr (contexts (client s) ! 1))) = Some cb \<and>
        cb (requestPtr (contexts (client s) ! 1)) (w :: nat) = (Some [8 :: byte], w'))"
proof -
  have "pb_type_name login_pb [5] = login_type" by (simp add: login_pb_def)
  from session_runs [OF this _ demo_answers, where host = LITTLE and stream = False] obtain s where
    n: "net_steps False LITTLE login_pb [(login_type, \<lambda>_ w. (Some [8], w + 1))] (rpc_system_new 0) s" and
    s: "app s = (2 :: nat)"
      "Ch_close \<notin> set (server_calls s)" "length (contexts (client s)) = 2" "(1, Some [8]) \<in> set (returns (history (client s)))"
    using login_pb_ok [of "[5]"] login_pb_ok [of "[6]"] by (auto simp: ready_def)
  have st: "system_steps LITTLE login_pb [(login_type, \<lambda>_ w. (Some [8], w + 1))] (rpc_system_new 0) s"
    by (rule net_steps_queues [OF n])
  have r: "Returned 1 (Some [8]) \<in> set (history (client s))" using s(4) by (simp add: returns_mem)
  have "length (contexts (client s)) < 2 ^ 32" using s(3) by simp
  from call_returns_callback_answer [OF demo_answers(1) st s(2) this r] s(1) r show ?thesis by (intro exI [of _ s] conjI)
qed

subsection \<open>Frames and reads\<close>

text \<open>
  Neither side gives the event loop a rule for cutting the byte stream into frames, so what one
  read returns is taken for one frame. Two correct requests that arrive in one read are refused
  together: both are echoed and the connection is closed.
\<close>

theorem coalesced_requests_refused:
  "\<exists>f g. rpc_decode LITTLE bytes_pb f = Inr (1, [5]) \<and> rpc_decode LITTLE bytes_pb g = Inr (2, [6]) \<and>
     (\<exists>out. onDealMessage LITTLE bytes_pb cbs (f @ g) ch w = Inr (ch\<lparr>calls := calls ch @ [Ch_write out, Ch_close]\<rparr>, w))"
proof -
  have ok: "pb_wire_ok bytes_pb [m]" for m by (simp add: bytes_pb_ok)
  have dec: "rpc_decode LITTLE bytes_pb (frame LITTLE seq [77] [m]) = Inr (seq, [m])" for seq m
  proof -
    obtain msg' where "codingToBuf LITTLE bytes_pb (Some (request_of seq [m])) (Some [])
        = Inr (ERR_NONE, Some msg', Some (frame LITTLE seq [77] [m]))"
      using codingToBuf_ok [OF ok [of m], of "request_of seq [m]" LITTLE "[]"] by (auto simp: request_of_def bytes_pb_def)
    then have "rpc_encode LITTLE bytes_pb (seq, [m]) = Inr (frame LITTLE seq [77] [m])" by (simp add: rpc_encode_def)
    then show ?thesis using rpc.dec_enc [of bytes_pb "(seq, [m])"] ok by simp
  qed
  let ?b = "[0, 0, 0, 1, 2, 0, 77, 0, 0, 0, 0, 1, 5, 2, 75, 0, 87, 0, 0, 0, 2, 2, 0, 77, 0, 0, 0, 0, 1, 6] :: byte list"
  have f: "frame LITTLE 1 [77] [5] @ frame LITTLE 2 [77] [6] = ?b @ [2, 86, 0, 89]"
    by (simp add: frame_def frame_body_def field_bytes_def host_bytes_def le_bytes_def upt_rec adler32_body_def
      combine_def DO1.simps Let_def MOD64_def)
  have "adler32_body ?b \<noteq> word_of_nat (host_value BIG [2, 86, 0, 89])"
    by (simp add: adler32_body_def nmax_loop.simps rest16_loop.simps DO16_def combine_def DO1.simps Let_def
      MOD32_def MOD64_def host_value_def)
  then have "onDealMessage LITTLE bytes_pb cbs (?b @ [2, 86, 0, 89]) ch w =
      Inr (ch\<lparr>calls := calls ch @ [Ch_write (?b @ rev [2, 86, 0, 89]), Ch_close]\<rparr>, w)"
    by (intro rejected_frame_echo) simp_all
  then show ?thesis using dec [of 1 5] dec [of 2 6] unfolding f [symmetric] by blast
qed

end
