(* ===== verification/Services.thy ===== *)
theory Services
  imports Prelude "HOL-Library.AList"
begin

text \<open>
  \<^verbatim>\<open>service/core/include/ServiceCtrlPolicies.hpp\<close>: the three interchangeable registries of
  the framework, with \<^verbatim>\<open>common/include/general/TypeInfo.hpp\<close>, the key of the first. A service
  is stored as \<^verbatim>\<open>std::shared_ptr<void>\<close> and cast back to the type asked for; the model keeps
  beside it the class it was registered as, and a cast to another class is \<open>Undefined\<close>.
\<close>

subsection \<open>The service interfaces of the program\<close>

datatype service_class = ICmdService | IProtoRpcServer | IHelloService

instantiation service_class :: linorder
begin

definition class_rank :: "service_class \<Rightarrow> nat" where
  "class_rank c = (case c of ICmdService \<Rightarrow> 0 | IProtoRpcServer \<Rightarrow> 1 | IHelloService \<Rightarrow> 2)"

definition less_eq_service_class :: "service_class \<Rightarrow> service_class \<Rightarrow> bool" where
  "less_eq_service_class a b \<longleftrightarrow> class_rank a \<le> class_rank b"

definition less_service_class :: "service_class \<Rightarrow> service_class \<Rightarrow> bool" where
  "less_service_class a b \<longleftrightarrow> class_rank a < class_rank b"

instance
proof
  fix x y :: service_class
  show "x \<le> y \<Longrightarrow> y \<le> x \<Longrightarrow> x = y"
    by (cases x; cases y) (simp_all add: less_eq_service_class_def class_rank_def)
qed (auto simp: less_eq_service_class_def less_service_class_def)

end

definition GetClassGUIDStatic :: "service_class \<Rightarrow> string" where
  "GetClassGUIDStatic c = (case c of
     ICmdService \<Rightarrow> ''F2C2688E-C687-4541-B120-F5800C136774''
   | IProtoRpcServer \<Rightarrow> ''27F32F5F-BBE8-4515-8A5D-EEACFAFACFA5''
   | IHelloService \<Rightarrow> ''4EF84440-A747-49E9-993F-8CEDA873BA65'')"

text \<open>A stored \<open>shared_ptr<void>\<close>: the class it came from and the object.\<close>

type_synonym 's stored = "service_class \<times> 's"

definition static_pointer_cast :: "service_class \<Rightarrow> 's stored \<Rightarrow> 's option result" where
  "static_pointer_cast T p = (if fst p = T then Inr (Some (snd p)) else Inl Undefined)"

subsection \<open>TypeInfo\<close>

text \<open>
  A wrapped \<open>type_info\<close>, ordered by \<open>before\<close> (any linear order of the classes).
\<close>

definition before :: "'t::linorder \<Rightarrow> 't \<Rightarrow> bool" where "before a b \<longleftrightarrow> a < b"

definition TypeInfo_eq :: "'t::linorder \<Rightarrow> 't \<Rightarrow> bool" where "TypeInfo_eq a b \<longleftrightarrow> a = b"
definition TypeInfo_neq :: "'t::linorder \<Rightarrow> 't \<Rightarrow> bool" where "TypeInfo_neq a b \<longleftrightarrow> \<not> TypeInfo_eq a b"
definition TypeInfo_less :: "'t::linorder \<Rightarrow> 't \<Rightarrow> bool" where "TypeInfo_less a b \<longleftrightarrow> before a b"

text \<open>\<open>operator>\<close> as written: it calls itself on the same arguments.\<close>

partial_function (option) TypeInfo_greater :: "'t::linorder \<Rightarrow> 't \<Rightarrow> bool option" where
  "TypeInfo_greater a b = TypeInfo_greater a b"

definition TypeInfo_le :: "'t::linorder \<Rightarrow> 't \<Rightarrow> bool option" where
  "TypeInfo_le a b = map_option Not (TypeInfo_greater a b)"

definition TypeInfo_ge :: "'t::linorder \<Rightarrow> 't \<Rightarrow> bool" where
  "TypeInfo_ge a b \<longleftrightarrow> \<not> TypeInfo_less a b"

lemma TypeInfo_greater_None: "TypeInfo_greater a b = None"
proof -
  have "TypeInfo_greater a b = Some r \<Longrightarrow> False" for r
    by (rule TypeInfo_greater.raw_induct [of "\<lambda>_ _ _. False"]) auto
  then show ?thesis by (cases "TypeInfo_greater a b") auto
qed

text \<open>
  Of the six comparisons of \<open>TypeInfo\<close>, \<open>==\<close>, \<open>!=\<close>, \<open><\<close> and \<open>>=\<close> are those of the order
  \<open>before\<close>; \<open>>\<close> calls itself and never returns, and \<open><=\<close>, which calls it, never does either.
\<close>

theorem TypeInfo_comparisons:
  "TypeInfo_eq a b = (a = b) \<and> TypeInfo_neq a b = (a \<noteq> b) \<and> TypeInfo_less a b = (a < b)
    \<and> TypeInfo_ge a b = (b \<le> a) \<and> TypeInfo_greater a b = None \<and> TypeInfo_le a b = None"
  by (auto simp: TypeInfo_eq_def TypeInfo_neq_def TypeInfo_less_def before_def TypeInfo_ge_def TypeInfo_le_def
      TypeInfo_greater_None)

subsection \<open>The contract of a registry\<close>

locale service_registry =
  fixes inv :: "'r \<Rightarrow> bool"
    and empty :: 'r
    and regist :: "'t \<Rightarrow> 's \<Rightarrow> 'r \<Rightarrow> 'r"
    and get :: "'t \<Rightarrow> 'r \<Rightarrow> 's option result"
  assumes inv_empty: "inv empty"
    and inv_regist: "inv r \<Longrightarrow> inv (regist T s r)"
    and get_empty: "get T empty = Inr None"
    and get_fresh: "inv r \<Longrightarrow> get T r = Inr None \<Longrightarrow> get T (regist T s r) = Inr (Some s)"
    and get_other: "inv r \<Longrightarrow> T \<noteq> T' \<Longrightarrow> get T' (regist T s r) = get T' r"
begin

lemma inv_foldl: "inv r \<Longrightarrow> inv (foldl (\<lambda>r (T, s). regist T s r) r ss)"
  by (induction ss arbitrary: r) (auto simp: inv_regist)

lemma get_foldl_other:
  "inv r \<Longrightarrow> T \<notin> fst ` set ss \<Longrightarrow> get T (foldl (\<lambda>r (T, s). regist T s r) r ss) = get T r"
  by (induction ss arbitrary: r) (auto simp: inv_regist get_other)

lemma get_all_distinct:
  "inv r \<Longrightarrow> distinct (map fst ss) \<Longrightarrow> \<forall>T \<in> fst ` set ss. get T r = Inr None \<Longrightarrow> (T, s) \<in> set ss \<Longrightarrow>
    get T (foldl (\<lambda>r (T, s). regist T s r) r ss) = Inr (Some s)"
proof (induction ss arbitrary: r)
  case Nil
  then show ?case by simp
next
  case (Cons p ss)
  obtain T' s' where p: "p = (T', s')" by (cases p)
  have i: "inv (regist T' s' r)" using Cons.prems(1) by (rule inv_regist)
  show ?case
  proof (cases "(T, s) = p")
    case True
    then have "T \<notin> fst ` set ss" using Cons.prems(2) p by auto
    then show ?thesis
      using get_foldl_other [OF i] get_fresh [OF Cons.prems(1)] Cons.prems(3) True p by simp
  next
    case False
    then have "(T, s) \<in> set ss" using Cons.prems(4) by simp
    moreover have "\<forall>U \<in> fst ` set ss. get U (regist T' s' r) = Inr None"
      using Cons.prems(1,2,3) p get_other [of r T'] by force
    ultimately show ?thesis using Cons.IH [OF i] Cons.prems(2) p by simp
  qed
qed

end

locale replacing_registry = service_registry +
  assumes get_regist: "inv r \<Longrightarrow> get T (regist T s r) = Inr (Some s)"
begin

lemma get_last:
  "inv r \<Longrightarrow> get T (foldl (\<lambda>r (T, s). regist T s r) r ss) =
    (case map_of (rev ss) T of Some s \<Rightarrow> Inr (Some s) | None \<Rightarrow> get T r)"
proof (induction ss rule: rev_induct)
  case Nil
  then show ?case by simp
next
  case (snoc p ss)
  then show ?case
    using inv_foldl [of r ss] by (cases p) (auto simp: get_regist get_other)
qed

end

locale keeping_registry = service_registry +
  assumes get_kept: "inv r \<Longrightarrow> get T r = Inr (Some s0) \<Longrightarrow> get T (regist T s r) = Inr (Some s0)"
begin

lemma get_first:
  "inv r \<Longrightarrow> get T r = Inr (Some s0) \<Longrightarrow> get T (foldl (\<lambda>r (T, s). regist T s r) r ss) = Inr (Some s0)"
proof (induction ss arbitrary: r)
  case Nil
  then show ?case by simp
next
  case (Cons p ss)
  obtain T' s where p: "p = (T', s)" by (cases p)
  have "get T (regist T' s r) = Inr (Some s0)"
    using get_kept [OF Cons.prems] get_other [OF Cons.prems(1)] Cons.prems(2) by (cases "T' = T") simp_all
  then show ?case using Cons.IH [OF inv_regist [OF Cons.prems(1)]] p by simp
qed

end

subsection \<open>MapServKeyByTypeID\<close>

type_synonym 's map_registry = "(service_class \<times> 's stored) list"

text \<open>\<open>std::map::insert\<close> leaves an existing entry alone.\<close>

definition MapServ_registService :: "service_class \<Rightarrow> 's \<Rightarrow> 's map_registry \<Rightarrow> 's map_registry" where
  "MapServ_registService T pSer m = (if map_of m T \<noteq> None then m else (T, (T, pSer)) # m)"

definition MapServ_getService :: "service_class \<Rightarrow> 's map_registry \<Rightarrow> 's option result" where
  "MapServ_getService T m = (case map_of m T of None \<Rightarrow> Inr None | Some p \<Rightarrow> static_pointer_cast T p)"

definition MapServ_clear :: "'s map_registry \<Rightarrow> 's map_registry" where "MapServ_clear m = []"
definition MapServ_size :: "'s map_registry \<Rightarrow> nat" where "MapServ_size m = length m"

definition MapServ_inv :: "'s map_registry \<Rightarrow> bool" where
  "MapServ_inv m \<longleftrightarrow> (\<forall>T p. map_of m T = Some p \<longrightarrow> fst p = T)"

lemma MapServ_get_regist:
  "MapServ_getService T' (MapServ_registService T s m) =
    (if T' = T \<and> map_of m T = None then Inr (Some s) else MapServ_getService T' m)"
  by (simp add: MapServ_getService_def MapServ_registService_def static_pointer_cast_def)

lemma MapServ_get_None: "MapServ_getService T m = Inr None \<longleftrightarrow> map_of m T = None"
  by (simp add: MapServ_getService_def static_pointer_cast_def split: option.split)

interpretation by_type: keeping_registry MapServ_inv "[]" MapServ_registService MapServ_getService
proof
  fix m :: "'a map_registry" and T T' and s s0
  show "MapServ_inv m \<Longrightarrow> MapServ_inv (MapServ_registService T s m)"
    by (simp add: MapServ_inv_def MapServ_registService_def)
  show "MapServ_inv m \<Longrightarrow> MapServ_getService T m = Inr (Some s0) \<Longrightarrow>
      MapServ_getService T (MapServ_registService T s m) = Inr (Some s0)"
    using MapServ_get_None [of T m] by (auto simp: MapServ_get_regist)
qed (simp_all add: MapServ_inv_def MapServ_get_regist MapServ_get_None)

subsection \<open>UnMapServKeyByGUID\<close>

type_synonym 's guid_registry = "(string \<times> 's stored) list"

text \<open>A repeated GUID is reported and its entry replaced.\<close>

definition UnMap_registService :: "service_class \<Rightarrow> 's \<Rightarrow> 's guid_registry \<Rightarrow> 's guid_registry" where
  "UnMap_registService T pSer m = AList.update (GetClassGUIDStatic T) (T, pSer) m"

definition UnMap_getService :: "service_class \<Rightarrow> 's guid_registry \<Rightarrow> 's option result" where
  "UnMap_getService T m =
     (case map_of m (GetClassGUIDStatic T) of None \<Rightarrow> Inr None | Some p \<Rightarrow> static_pointer_cast T p)"

definition UnMap_clear :: "'s guid_registry \<Rightarrow> 's guid_registry" where "UnMap_clear m = []"
definition UnMap_size :: "'s guid_registry \<Rightarrow> nat" where "UnMap_size m = length m"

definition UnMap_inv :: "'s guid_registry \<Rightarrow> bool" where
  "UnMap_inv m \<longleftrightarrow> distinct (map fst m) \<and> (\<forall>g p. map_of m g = Some p \<longrightarrow> GetClassGUIDStatic (fst p) = g)"

lemma guid_inj: "GetClassGUIDStatic a = GetClassGUIDStatic b \<longleftrightarrow> a = b"
  by (cases a; cases b) (simp_all add: GetClassGUIDStatic_def)

interpretation by_guid: replacing_registry UnMap_inv "[]" UnMap_registService UnMap_getService
  by unfold_locales
    (auto simp: UnMap_inv_def UnMap_registService_def UnMap_getService_def static_pointer_cast_def
      guid_inj update_conv' distinct_update split: option.splits if_splits)

subsection \<open>VecServByIndex\<close>

text \<open>
  Each class has one static index for the whole process, \<open>-1\<close> before the first registration;
  the record holds these statics beside the vector.
\<close>

record 's vec_registry =
  GetClassIndexStatic :: "service_class \<Rightarrow> int"
  m_vecServices :: "'s stored list"

definition VecServByIndex :: "'s vec_registry" where
  "VecServByIndex = \<lparr>GetClassIndexStatic = (\<lambda>_. - 1), m_vecServices = []\<rparr>"

definition Vec_registService :: "service_class \<Rightarrow> 's \<Rightarrow> 's vec_registry \<Rightarrow> 's vec_registry" where
  "Vec_registService T pSer r =
     (let v = m_vecServices r @ [(T, pSer)]
      in r\<lparr>m_vecServices := v, GetClassIndexStatic := (GetClassIndexStatic r)(T := int (length v) - 1)\<rparr>)"

definition Vec_getService :: "service_class \<Rightarrow> 's vec_registry \<Rightarrow> 's option result" where
  "Vec_getService T r =
     (let index = GetClassIndexStatic r T
      in if index < 0 \<or> int (length (m_vecServices r)) \<le> index then Inr None
         else static_pointer_cast T (m_vecServices r ! nat index))"

definition Vec_clear :: "'s vec_registry \<Rightarrow> 's vec_registry" where
  "Vec_clear r = r\<lparr>m_vecServices := []\<rparr>"

definition Vec_size :: "'s vec_registry \<Rightarrow> nat" where "Vec_size r = length (m_vecServices r)"

definition Vec_inv :: "'s vec_registry \<Rightarrow> bool" where
  "Vec_inv r \<longleftrightarrow> (\<forall>T. GetClassIndexStatic r T \<ge> 0 \<longrightarrow>
     GetClassIndexStatic r T < int (length (m_vecServices r)) \<and>
     fst (m_vecServices r ! nat (GetClassIndexStatic r T)) = T)"

lemma Vec_get_regist:
  "Vec_getService T' (Vec_registService T s r) =
    (if T' = T then Inr (Some s)
     else if GetClassIndexStatic r T' = int (length (m_vecServices r)) then Inl Undefined
     else Vec_getService T' r)"
  by (auto simp: Vec_getService_def Vec_registService_def static_pointer_cast_def Let_def nth_append)

interpretation by_index: replacing_registry Vec_inv VecServByIndex Vec_registService Vec_getService
proof
  fix r :: "'a vec_registry" and T T' and s
  show "Vec_inv VecServByIndex" by (simp add: Vec_inv_def VecServByIndex_def)
  show "Vec_inv r \<Longrightarrow> Vec_inv (Vec_registService T s r)"
    by (force simp: Vec_inv_def Vec_registService_def Let_def nth_append)
  show "Vec_getService T VecServByIndex = Inr None" by (simp add: Vec_getService_def VecServByIndex_def Let_def)
  show "Vec_getService T (Vec_registService T s r) = Inr (Some s)" by (simp add: Vec_get_regist)
  show "Vec_getService T (Vec_registService T s r) = Inr (Some s)" by (simp add: Vec_get_regist)
  show "Vec_inv r \<Longrightarrow> T \<noteq> T' \<Longrightarrow> Vec_getService T' (Vec_registService T s r) = Vec_getService T' r"
    unfolding Vec_inv_def by (auto simp: Vec_get_regist dest!: spec [of _ T'])
qed

subsection \<open>What clients of the registries rely on\<close>

text \<open>
  C23: Services registered under distinct interfaces, in any order and number, are each found
  again under their own interface, by every one of the three policies, and no lookup casts
  an object to a class it was not registered as.
\<close>

theorem registered_services_found:
  assumes "distinct (map fst ss)" "(T, s) \<in> set ss"
  shows "MapServ_getService T (foldl (\<lambda>r (T, s). MapServ_registService T s r) [] ss) = Inr (Some s)
    \<and> UnMap_getService T (foldl (\<lambda>r (T, s). UnMap_registService T s r) [] ss) = Inr (Some s)
    \<and> Vec_getService T (foldl (\<lambda>r (T, s). Vec_registService T s r) VecServByIndex ss) = Inr (Some s)"
  using by_type.get_all_distinct [OF by_type.inv_empty assms(1) _ assms(2)]
    by_guid.get_all_distinct [OF by_guid.inv_empty assms(1) _ assms(2)]
    by_index.get_all_distinct [OF by_index.inv_empty assms(1) _ assms(2)]
  by (simp add: by_type.get_empty by_guid.get_empty by_index.get_empty)

theorem registered_services_found_witness:
  "Vec_getService IHelloService
     (foldl (\<lambda>r (T, s). Vec_registService T s r) VecServByIndex [(ICmdService, 1), (IHelloService, 2 :: nat)])
   = Inr (Some 2)"
  using registered_services_found [of "[(ICmdService, 1), (IHelloService, 2 :: nat)]" IHelloService 2] by simp

text \<open>
  The policies are not interchangeable when an interface is registered twice: the map by
  type keeps the first service, the GUID map and the indexed vector hand out the last.
\<close>

theorem repeated_registration:
  assumes "T \<notin> fst ` set ss"
  shows "MapServ_getService T (foldl (\<lambda>r (T, s). MapServ_registService T s r) [] ((T, s1) # ss @ [(T, s2)])) = Inr (Some s1)
    \<and> UnMap_getService T (foldl (\<lambda>r (T, s). UnMap_registService T s r) [] ((T, s1) # ss @ [(T, s2)])) = Inr (Some s2)
    \<and> Vec_getService T (foldl (\<lambda>r (T, s). Vec_registService T s r) VecServByIndex ((T, s1) # ss @ [(T, s2)])) = Inr (Some s2)"
proof (intro conjI)
  have "MapServ_getService T (MapServ_registService T s1 []) = Inr (Some s1)"
    by (rule by_type.get_fresh [OF by_type.inv_empty by_type.get_empty])
  from by_type.get_first [OF by_type.inv_regist [OF by_type.inv_empty] this, of "ss @ [(T, s2)]"]
  show "MapServ_getService T (foldl (\<lambda>r (T, s). MapServ_registService T s r) [] ((T, s1) # ss @ [(T, s2)])) = Inr (Some s1)"
    by simp
  show "UnMap_getService T (foldl (\<lambda>r (T, s). UnMap_registService T s r) [] ((T, s1) # ss @ [(T, s2)])) = Inr (Some s2)"
    using by_guid.get_last [OF by_guid.inv_empty, of T "(T, s1) # ss @ [(T, s2)]"] by simp
  show "Vec_getService T (foldl (\<lambda>r (T, s). Vec_registService T s r) VecServByIndex ((T, s1) # ss @ [(T, s2)])) = Inr (Some s2)"
    using by_index.get_last [OF by_index.inv_empty, of T "(T, s1) # ss @ [(T, s2)]"] by simp
qed

theorem repeated_registration_witness:
  "MapServ_getService ICmdService (foldl (\<lambda>r (T, s). MapServ_registService T s r) [] [(ICmdService, 1), (ICmdService, 2 :: nat)])
   = Inr (Some 1)"
  using repeated_registration [of ICmdService "[]" 1 "2 :: nat"] by simp

text \<open>
  \<open>VecServByIndex::clear\<close> empties the vector but not the static indices of the classes.
  A class registered before the clear and not after it is looked up at its old index: if
  another class has been registered there meanwhile, \<open>getService\<close> casts that class's
  object to the wrong type instead of reporting an unregistered service.
\<close>

theorem vec_clear_stale_index:
  assumes "T \<noteq> T'"
  shows "Vec_getService T (Vec_registService T' s' (Vec_clear (Vec_registService T s VecServByIndex))) = Inl Undefined"
  using assms
  by (simp add: Vec_get_regist) (simp add: Vec_clear_def Vec_registService_def VecServByIndex_def Let_def)

theorem vec_clear_stale_index_witness:
  "Vec_getService ICmdService
     (Vec_registService IHelloService 2 (Vec_clear (Vec_registService ICmdService (1 :: nat) VecServByIndex)))
   = Inl Undefined"
  by (rule vec_clear_stale_index) simp

end
