(* ===== verification/EventCtrl.thy ===== *)
theory EventCtrl
  imports Prelude "HOL-Library.Sublist"
begin

text \<open>
  \<^verbatim>\<open>service/core/suorce/EventCtrlPolicies.cpp\<close>: \<open>CEventDealWithLock\<close>, the asynchronous event
  bus. Producer threads add events and callbacks; one worker swaps the two queues and calls
  the callbacks of each event's topic. Each step below is a critical section of the code or
  one turn of a worker loop, so every interleaving of the threads is a sequence of steps.

  A callback is a number; \<open>alive\<close> holds those whose \<open>shared_ptr\<close> still exists, which their
  owners may drop at any time (the bus keeps weak pointers). An event is its topic and data.
  The worker holds \<open>m_mutexFunc\<close> while it deals, so \<open>addFunc\<close> waits meanwhile. One thread at a time
  starts and stops the bus, so that \<open>clear\<close> runs after the worker has ended, and a callback returns.
\<close>

type_synonym cb = nat

datatype worker = WIdle | WCheck | WDeal | WIter "cb list" "cb list" | WWait | WExited

record 'd event_ctrl =
  m_mapFuncs :: "string \<rightharpoonup> cb list"
  alive :: "cb set"
  m_queueAddData :: "(string \<times> 'd) list"
  m_queueDealData :: "(string \<times> 'd) list"
  m_bDataAdded :: bool
  m_bTheadRun :: bool
  worker_at :: worker
  added :: "(string \<times> 'd) list"
  past :: "(bool \<times> string \<times> 'd) list"
  cleared :: bool
  registered :: "(string \<times> cb) list"
  called :: "(cb \<times> string \<times> 'd) list"

text \<open>
  The last five fields are history: what was added; what has left the queues, dealt with or, marked
  \<open>False\<close>, dropped by \<open>clear\<close>; whether \<open>clear\<close> has run; what was registered and called.
\<close>

definition dealt :: "'d event_ctrl \<Rightarrow> (string \<times> 'd) list" where
  [simp]: "dealt s = map snd (filter fst (past s))"

definition CEventDealWithLock :: "'d event_ctrl" where
  "CEventDealWithLock = \<lparr>m_mapFuncs = Map.empty, alive = {}, m_queueAddData = [], m_queueDealData = [],
     m_bDataAdded = False, m_bTheadRun = False, worker_at = WIdle, added = [], past = [],
     cleared = False, registered = [], called = []\<rparr>"

definition start :: "'d event_ctrl \<Rightarrow> 'd event_ctrl option" where
  "start s = (if worker_at s = WIdle \<or> worker_at s = WExited
     then Some (s\<lparr>m_bTheadRun := True, worker_at := WCheck\<rparr>) else None)"

definition holds_mutexFunc :: "worker \<Rightarrow> bool" where
  "holds_mutexFunc w = (case w of WDeal \<Rightarrow> True | WIter _ _ \<Rightarrow> True | _ \<Rightarrow> False)"

definition addFunc :: "string \<Rightarrow> cb \<Rightarrow> 'd event_ctrl \<Rightarrow> 'd event_ctrl option" where
  "addFunc topic f s =
     (if holds_mutexFunc (worker_at s) then None
      else Some (s\<lparr>m_mapFuncs := (m_mapFuncs s)(topic \<mapsto>
               (case m_mapFuncs s topic of None \<Rightarrow> [] | Some l \<Rightarrow> l) @ [f]),
             alive := insert f (alive s), registered := (topic, f) # registered s\<rparr>))"

definition addEvenVartData :: "('d \<Rightarrow> string) \<Rightarrow> 'd \<Rightarrow> 'd event_ctrl \<Rightarrow> 'd event_ctrl" where
  "addEvenVartData getName varData s =
     (let e = (getName varData, varData)
      in s\<lparr>m_queueAddData := m_queueAddData s @ [e], m_bDataAdded := True, added := added s @ [e]\<rparr>)"

definition release_callback :: "cb \<Rightarrow> 'd event_ctrl \<Rightarrow> 'd event_ctrl" where
  "release_callback f s = s\<lparr>alive := alive s - {f}\<rparr>"

text \<open>One turn of \<open>dealEventData\<close>; \<open>None\<close> when the worker sleeps or has ended.\<close>

definition dealEventData :: "'d event_ctrl \<Rightarrow> 'd event_ctrl option" where
  "dealEventData s =
     (case worker_at s of
        WIdle \<Rightarrow> None
      | WExited \<Rightarrow> None
      | WCheck \<Rightarrow>
          if \<not> m_bTheadRun s then Some (s\<lparr>worker_at := WExited\<rparr>)
          else if m_bDataAdded s then
            Some (s\<lparr>m_queueAddData := m_queueDealData s, m_queueDealData := m_queueAddData s,
                    m_bDataAdded := False, worker_at := WDeal\<rparr>)
          else Some (s\<lparr>worker_at := WWait\<rparr>)
      | WDeal \<Rightarrow>
          (case m_queueDealData s of
             [] \<Rightarrow> Some (s\<lparr>worker_at := WWait\<rparr>)
           | e # q \<Rightarrow>
               (case m_mapFuncs s (fst e) of
                  None \<Rightarrow> Some (s\<lparr>m_queueDealData := q, past := past s @ [(True, e)]\<rparr>)
                | Some l \<Rightarrow> Some (s\<lparr>worker_at := WIter [] l\<rparr>)))
      | WIter kept [] \<Rightarrow>
          (case m_queueDealData s of
             [] \<Rightarrow> None
           | e # q \<Rightarrow>
               Some (s\<lparr>m_mapFuncs := (m_mapFuncs s)(fst e := (if kept = [] then None else Some kept)),
                       m_queueDealData := q, past := past s @ [(True, e)], worker_at := WDeal\<rparr>))
      | WIter kept (f # rest) \<Rightarrow>
          (case m_queueDealData s of
             [] \<Rightarrow> None
           | e # q \<Rightarrow>
               if f \<in> alive s
               then Some (s\<lparr>called := (f, e) # called s, worker_at := WIter (kept @ [f]) rest\<rparr>)
               else Some (s\<lparr>worker_at := WIter kept rest\<rparr>))
      | WWait \<Rightarrow>
          if \<not> m_bDataAdded s \<and> m_bTheadRun s then None else Some (s\<lparr>worker_at := WCheck\<rparr>))"

text \<open>\<open>stop\<close>: tell the worker, wait for it, then \<open>DataImp::clear\<close>.\<close>

definition stop_request :: "'d event_ctrl \<Rightarrow> 'd event_ctrl" where
  "stop_request s = s\<lparr>m_bTheadRun := False\<rparr>"

definition clear_data :: "'d event_ctrl \<Rightarrow> 'd event_ctrl" where
  "clear_data s = s\<lparr>m_bDataAdded := False, m_queueAddData := [], m_queueDealData := [],
     past := past s @ map (Pair False) (m_queueDealData s @ m_queueAddData s), cleared := True\<rparr>"

definition clear_funcs :: "'d event_ctrl \<Rightarrow> 'd event_ctrl" where
  "clear_funcs s = s\<lparr>m_mapFuncs := Map.empty\<rparr>"

definition DataImp_clear :: "'d event_ctrl \<Rightarrow> 'd event_ctrl" where
  "DataImp_clear s = clear_funcs (clear_data s)"

definition stop_finish :: "'d event_ctrl \<Rightarrow> 'd event_ctrl option" where
  "stop_finish s =
     (if worker_at s = WExited \<or> worker_at s = WIdle then Some (DataImp_clear s) else None)"

subsection \<open>Interleavings\<close>

text \<open>The two critical sections of \<open>clear\<close> are steps of their own.\<close>

inductive event_step :: "('d \<Rightarrow> string) \<Rightarrow> 'd event_ctrl \<Rightarrow> 'd event_ctrl \<Rightarrow> bool" for getName where
  ev_start: "start s = Some s' \<Longrightarrow> event_step getName s s'"
| ev_addFunc: "addFunc topic f s = Some s' \<Longrightarrow> event_step getName s s'"
| ev_addEvent: "event_step getName s (addEvenVartData getName d s)"
| ev_release: "event_step getName s (release_callback f s)"
| ev_worker: "dealEventData s = Some s' \<Longrightarrow> event_step getName s s'"
| ev_stop: "event_step getName s (stop_request s)"
| ev_clear_data: "worker_at s = WExited \<or> worker_at s = WIdle \<Longrightarrow> event_step getName s (clear_data s)"
| ev_clear_funcs: "worker_at s = WExited \<or> worker_at s = WIdle \<Longrightarrow> event_step getName s (clear_funcs s)"

inductive event_reachable :: "('d \<Rightarrow> string) \<Rightarrow> 'd event_ctrl \<Rightarrow> bool" for getName where
  ev_init: "event_reachable getName CEventDealWithLock"
| ev_next: "event_reachable getName s \<Longrightarrow> event_step getName s s' \<Longrightarrow> event_reachable getName s'"

definition dealing :: "worker \<Rightarrow> bool" where
  "dealing w \<longleftrightarrow> holds_mutexFunc w"

definition queue_inv :: "'d event_ctrl \<Rightarrow> bool" where
  "queue_inv s \<longleftrightarrow>
     added s = map snd (past s) @ m_queueDealData s @ m_queueAddData s \<and>
     (\<not> cleared s \<longrightarrow> (\<forall>e \<in> set (past s). fst e)) \<and>
     (m_queueAddData s \<noteq> [] \<longrightarrow> m_bDataAdded s) \<and>
     (\<not> holds_mutexFunc (worker_at s) \<longrightarrow> m_queueDealData s = []) \<and>
     (case worker_at s of WIter _ _ \<Rightarrow> m_queueDealData s \<noteq> [] | _ \<Rightarrow> True)"

definition calls_inv :: "'d event_ctrl \<Rightarrow> bool" where
  "calls_inv s \<longleftrightarrow>
     (\<forall>t l. m_mapFuncs s t = Some l \<longrightarrow> (\<forall>f \<in> set l. (t, f) \<in> set (registered s))) \<and>
     (\<forall>f t d. (f, t, d) \<in> set (called s) \<longrightarrow> (t, f) \<in> set (registered s) \<and> (t, d) \<in> set (added s)) \<and>
     (case worker_at s of
        WIter kept rest \<Rightarrow> \<forall>f \<in> set kept \<union> set rest. (fst (hd (m_queueDealData s)), f) \<in> set (registered s)
      | _ \<Rightarrow> True)"

lemmas worker_simps = queue_inv_def holds_mutexFunc_def

lemma queue_inv_worker:
  "dealEventData s = Some s' \<Longrightarrow> queue_inv s \<Longrightarrow> queue_inv s'"
  by (cases "worker_at s")
    (auto simp: dealEventData_def worker_simps split: list.splits option.splits if_splits)

lemma queue_inv_step: "event_step getName s s' \<Longrightarrow> queue_inv s \<Longrightarrow> queue_inv s'"
proof (induction rule: event_step.induct)
  case (ev_worker s s')
  then show ?case using queue_inv_worker by blast
qed (auto simp: start_def addFunc_def addEvenVartData_def release_callback_def stop_request_def
      clear_data_def clear_funcs_def comp_def worker_simps Let_def split: if_splits worker.splits)

lemma queue_inv_reachable: "event_reachable getName s \<Longrightarrow> queue_inv s"
  by (induction rule: event_reachable.induct)
    (auto simp: queue_inv_step, simp add: CEventDealWithLock_def worker_simps)









text \<open>
  C28: No wake-up is lost: whenever new events are queued the flag is set, so a worker that is
  waiting can go on; and once no producer interferes, a running worker with nothing in work
  takes the whole queue as its next batch.
\<close>

theorem queued_events_wake_worker:
  assumes "event_reachable getName s" "m_queueAddData s \<noteq> []" "worker_at s = WWait" "m_bTheadRun s"
  shows "\<exists>s1 s2. dealEventData s = Some s1 \<and> dealEventData s1 = Some s2
    \<and> m_queueDealData s2 = m_queueAddData s \<and> m_queueAddData s2 = []"
  using queue_inv_reachable [OF assms(1)] assms(2-)
  by (auto simp: dealEventData_def queue_inv_def holds_mutexFunc_def)

lemma getName_simple:
  "\<exists>s. event_reachable id s \<and> m_queueAddData s = [(''t'', ''t'')] \<and> worker_at s = WWait \<and> m_bTheadRun s"
proof -
  let ?s0 = "CEventDealWithLock :: string event_ctrl"
  obtain s1 where "start ?s0 = Some s1" "s1 = ?s0\<lparr>m_bTheadRun := True, worker_at := WCheck\<rparr>"
    by (simp add: start_def CEventDealWithLock_def)
  then have r1: "event_reachable id (?s0\<lparr>m_bTheadRun := True, worker_at := WCheck\<rparr>)"
    by (blast intro: ev_next ev_init ev_start)
  have "dealEventData (?s0\<lparr>m_bTheadRun := True, worker_at := WCheck\<rparr>) = Some (?s0\<lparr>m_bTheadRun := True, worker_at := WWait\<rparr>)"
    by (simp add: dealEventData_def CEventDealWithLock_def)
  then have "event_reachable id (?s0\<lparr>m_bTheadRun := True, worker_at := WWait\<rparr>)"
    using r1 by (blast intro: ev_next ev_worker)
  then have "event_reachable id (addEvenVartData id ''t'' (?s0\<lparr>m_bTheadRun := True, worker_at := WWait\<rparr>))"
    by (blast intro: ev_next ev_addEvent)
  then show ?thesis
    by (intro exI conjI) (assumption, simp_all add: addEvenVartData_def CEventDealWithLock_def Let_def)
qed

theorem queued_events_wake_worker_witness:
  "\<exists>(s :: string event_ctrl) s1 s2. dealEventData s = Some s1 \<and> dealEventData s1 = Some s2 \<and> m_queueDealData s2 = [(''t'', ''t'')]"
proof -
  obtain s where s: "event_reachable id s" "m_queueAddData s = [(''t'', ''t'')]" "worker_at s = WWait" "m_bTheadRun s"
    using getName_simple by blast
  then show ?thesis using queued_events_wake_worker [OF s(1) _ s(3,4)] by auto
qed

subsection \<open>Who is called\<close>

lemma calls_inv_worker:
  assumes "dealEventData s = Some s'" "queue_inv s" "calls_inv s"
  shows "calls_inv s'"
proof (cases "worker_at s")
  case WIdle then show ?thesis using assms(1) by (simp add: dealEventData_def)
next
  case WExited then show ?thesis using assms(1) by (simp add: dealEventData_def)
next
  case WCheck
  then show ?thesis using assms(1,3) by (auto simp: dealEventData_def calls_inv_def split: if_splits)
next
  case WWait
  then show ?thesis using assms(1,3) by (auto simp: dealEventData_def calls_inv_def split: if_splits)
next
  case WDeal
  then show ?thesis
    using assms(1,3) by (auto simp: dealEventData_def calls_inv_def split: list.splits option.splits)
next
  case (WIter kept rest)
  obtain e q where q: "m_queueDealData s = e # q"
    using assms(2) WIter by (cases "m_queueDealData s") (auto simp: queue_inv_def)
  have e: "e \<in> set (added s)" using assms(2) q by (simp add: queue_inv_def)
  have regs: "\<forall>f \<in> set kept \<union> set rest. (fst e, f) \<in> set (registered s)"
    using assms(3) WIter q by (simp add: calls_inv_def)
  show ?thesis
  proof (cases rest)
    case Nil
    then have "s' = s\<lparr>m_mapFuncs := (m_mapFuncs s)(fst e := (if kept = [] then None else Some kept)),
        m_queueDealData := q, past := past s @ [(True, e)], worker_at := WDeal\<rparr>"
      using assms(1) WIter q by (simp add: dealEventData_def)
    then show ?thesis using assms(3) regs by (auto simp: calls_inv_def)
  next
    case (Cons f rest')
    then have "s' = (if f \<in> alive s then s\<lparr>called := (f, e) # called s, worker_at := WIter (kept @ [f]) rest'\<rparr>
        else s\<lparr>worker_at := WIter kept rest'\<rparr>)"
      using assms(1) WIter q by (auto simp: dealEventData_def)
    then show ?thesis using assms(3) regs e q Cons by (cases e) (auto simp: calls_inv_def)
  qed
qed

lemma calls_inv_addFunc: "addFunc topic f s = Some s' \<Longrightarrow> calls_inv s \<Longrightarrow> calls_inv s'"
  by (cases "worker_at s")
    (auto simp: addFunc_def calls_inv_def holds_mutexFunc_def split: if_splits option.splits)

lemma calls_inv_step: "event_step getName s s' \<Longrightarrow> queue_inv s \<Longrightarrow> calls_inv s \<Longrightarrow> calls_inv s'"
proof (induction rule: event_step.induct)
  case (ev_start s s')
  then show ?case by (auto simp: start_def calls_inv_def split: if_splits)
next
  case (ev_addFunc topic f s s')
  then show ?case using calls_inv_addFunc by blast
next
  case (ev_worker s s')
  then show ?case using calls_inv_worker by blast
next
  case (ev_addEvent s d)
  then show ?case by (auto simp: addEvenVartData_def calls_inv_def Let_def split: worker.splits)
next
  case (ev_release s f)
  then show ?case by (auto simp: release_callback_def calls_inv_def split: worker.splits)
next
  case (ev_stop s)
  then show ?case by (auto simp: stop_request_def calls_inv_def split: worker.splits)
next
  case (ev_clear_data s)
  then show ?case by (auto simp: clear_data_def calls_inv_def)
next
  case (ev_clear_funcs s)
  then show ?case by (auto simp: clear_funcs_def calls_inv_def)
qed

lemma calls_inv_reachable: "event_reachable getName s \<Longrightarrow> calls_inv s"
  by (induction rule: event_reachable.induct)
    (auto simp: calls_inv_step queue_inv_reachable, simp add: CEventDealWithLock_def calls_inv_def)

text \<open>
  A callback is only ever called with an event that was added, and only if it was
  registered for that event's topic.
\<close>

theorem calls_are_subscribed:
  assumes "event_reachable getName s" "(f, t, d) \<in> set (called s)"
  shows "(t, f) \<in> set (registered s) \<and> (t, d) \<in> set (added s)"
  using calls_inv_reachable [OF assms(1)] assms(2) by (simp add: calls_inv_def)

subsection \<open>One batch\<close>

fun run_worker :: "nat \<Rightarrow> 'd event_ctrl \<Rightarrow> 'd event_ctrl option" where
  "run_worker 0 s = Some s"
| "run_worker (Suc n) s = (case dealEventData s of None \<Rightarrow> None | Some s' \<Rightarrow> run_worker n s')"

lemma run_worker_add: "run_worker (m + n) s = (case run_worker m s of None \<Rightarrow> None | Some s' \<Rightarrow> run_worker n s')"
  by (induction m arbitrary: s) (auto split: option.split)

definition subscribers :: "'d event_ctrl \<Rightarrow> string \<Rightarrow> cb list" where
  "subscribers s t = filter (\<lambda>f. f \<in> alive s) (case m_mapFuncs s t of None \<Rightarrow> [] | Some l \<Rightarrow> l)"

lemma run_iter:
  "worker_at s = WIter kept rest \<Longrightarrow> m_queueDealData s = e # q \<Longrightarrow>
    run_worker (Suc (length rest)) s = Some (s\<lparr>
      m_mapFuncs := (m_mapFuncs s)(fst e :=
        (let l = kept @ filter (\<lambda>f. f \<in> alive s) rest in if l = [] then None else Some l)),
      m_queueDealData := q, past := past s @ [(True, e)], worker_at := WDeal,
      called := rev (map (\<lambda>f. (f, e)) (filter (\<lambda>f. f \<in> alive s) rest)) @ called s\<rparr>)"
proof (induction rest arbitrary: s kept)
  case Nil
  then show ?case by (simp add: dealEventData_def fun_upd_def)
next
  case (Cons f rest)
  let ?s = "if f \<in> alive s then s\<lparr>called := (f, e) # called s, worker_at := WIter (kept @ [f]) rest\<rparr>
    else s\<lparr>worker_at := WIter kept rest\<rparr>"
  have d: "dealEventData s = Some ?s" using Cons.prems by (simp add: dealEventData_def)
  have step: "run_worker (Suc (length (f # rest))) s = run_worker (Suc (length rest)) ?s"
    unfolding run_worker.simps(2) [of "length (f # rest)"] d by simp
  show ?case
  proof (cases "f \<in> alive s")
    case True
    then show ?thesis
      using Cons.IH [of "s\<lparr>called := (f, e) # called s, worker_at := WIter (kept @ [f]) rest\<rparr>" "kept @ [f]"] Cons.prems(2)
      unfolding step by (simp del: run_worker.simps)
  next
    case False
    then show ?thesis
      using Cons.IH [of "s\<lparr>worker_at := WIter kept rest\<rparr>" kept] Cons.prems(2)
      unfolding step by (simp del: run_worker.simps)
  qed
qed

lemma run_deal:
  "worker_at s = WDeal \<Longrightarrow> \<exists>n s'. run_worker n s = Some s' \<and> worker_at s' = WWait \<and> m_queueDealData s' = []
    \<and> called s' = rev (concat (map (\<lambda>e. map (\<lambda>f. (f, e)) (subscribers s (fst e))) (m_queueDealData s))) @ called s
    \<and> dealt s' = dealt s @ m_queueDealData s \<and> m_queueAddData s' = m_queueAddData s
    \<and> (\<forall>t. subscribers s' t = subscribers s t)"
proof (induction "m_queueDealData s" arbitrary: s)
  case Nil
  then show ?case
    by (intro exI [of _ 1] exI [of _ "s\<lparr>worker_at := WWait\<rparr>"]) (simp add: dealEventData_def subscribers_def)
next
  case (Cons e q)
  have "\<exists>n s1. run_worker n s = Some s1 \<and> worker_at s1 = WDeal \<and> m_queueDealData s1 = q
    \<and> called s1 = rev (map (\<lambda>f. (f, e)) (subscribers s (fst e))) @ called s \<and> dealt s1 = dealt s @ [e]
    \<and> m_queueAddData s1 = m_queueAddData s \<and> (\<forall>t. subscribers s1 t = subscribers s t)"
  proof (cases "m_mapFuncs s (fst e)")
    case None
    let ?s1 = "s\<lparr>m_queueDealData := q, past := past s @ [(True, e)]\<rparr>"
    have "run_worker 1 s = Some ?s1"
      using None Cons.hyps(2) Cons.prems by (simp add: dealEventData_def flip: Cons.hyps(2))
    moreover have "\<forall>t. subscribers ?s1 t = subscribers s t" by (simp add: subscribers_def)
    moreover have "subscribers s (fst e) = []" using None by (simp add: subscribers_def)
    ultimately show ?thesis using Cons.prems by (intro exI [of _ 1] exI [of _ ?s1]) simp
  next
    case (Some l)
    let ?s0 = "s\<lparr>worker_at := WIter [] l\<rparr>"
    let ?l = "filter (\<lambda>f. f \<in> alive s) l"
    let ?s1 = "s\<lparr>m_mapFuncs := (m_mapFuncs s)(fst e := (if ?l = [] then None else Some ?l)),
      m_queueDealData := q, past := past s @ [(True, e)], worker_at := WDeal,
      called := rev (map (\<lambda>f. (f, e)) ?l) @ called s\<rparr>"
    have d: "dealEventData s = Some ?s0"
      using Some Cons.prems by (simp add: dealEventData_def flip: Cons.hyps(2))
    have "m_queueDealData ?s0 = e # q" using Cons.hyps(2) by simp
    from run_iter [OF _ this, of "[]" l] have "run_worker (Suc (length l)) ?s0 = Some ?s1"
      by (simp add: Let_def del: run_worker.simps)
    then have "run_worker (Suc (Suc (length l))) s = Some ?s1"
      using d by (subst run_worker.simps(2)) simp
    moreover have "subscribers s (fst e) = ?l" using Some by (simp add: subscribers_def)
    moreover have "\<forall>t. subscribers ?s1 t = subscribers s t"
      using Some by (simp add: subscribers_def)
    ultimately show ?thesis by (intro exI [of _ "Suc (Suc (length l))"] exI [of _ ?s1]) simp
  qed
  then obtain n s1 where 1: "run_worker n s = Some s1" "worker_at s1 = WDeal" "m_queueDealData s1 = q"
    "called s1 = rev (map (\<lambda>f. (f, e)) (subscribers s (fst e))) @ called s" "dealt s1 = dealt s @ [e]"
    "m_queueAddData s1 = m_queueAddData s" "\<forall>t. subscribers s1 t = subscribers s t" by blast
  obtain m s2 where 2: "run_worker m s1 = Some s2" "worker_at s2 = WWait" "m_queueDealData s2 = []"
    "called s2 = rev (concat (map (\<lambda>e. map (\<lambda>f. (f, e)) (subscribers s1 (fst e))) q)) @ called s1"
    "dealt s2 = dealt s1 @ q" "m_queueAddData s2 = m_queueAddData s1" "\<forall>t. subscribers s2 t = subscribers s1 t"
    using Cons.hyps(1) [of s1] 1(2,3) by auto
  have "run_worker (n + m) s = Some s2" using 1(1) 2(1) by (simp add: run_worker_add)
  then show ?case using 1 2 Cons.hyps(2) [symmetric] by (intro exI [of _ "n + m"] exI [of _ s2]) simp
qed

text \<open>
  A batch the worker has taken is dealt with completely while nobody interferes: for each
  event in order, the live callbacks of its topic are called once each, in the order of their
  registration, and the worker ends up waiting with an empty batch.
\<close>

theorem batch_delivered:
  assumes "worker_at s = WDeal"
  shows "\<exists>n s'. run_worker n s = Some s' \<and> worker_at s' = WWait \<and> m_queueDealData s' = []
    \<and> called s' = rev (concat (map (\<lambda>e. map (\<lambda>f. (f, e)) (subscribers s (fst e))) (m_queueDealData s))) @ called s"
  using run_deal [OF assms] by blast

text \<open>
  \<open>stop\<close> does not flush: events still in the queue when the worker sees the request are
  discarded, and no callback sees them.
\<close>

theorem stop_drops_pending:
  assumes "worker_at s = WWait \<or> worker_at s = WCheck"
  shows "\<exists>n s1 s2. run_worker n (stop_request s) = Some s1 \<and> stop_finish s1 = Some s2
    \<and> m_queueAddData s2 = [] \<and> called s2 = called s \<and> dealt s2 = dealt s"
proof -
  let ?t = "stop_request s"
  let ?s1 = "?t\<lparr>worker_at := WExited\<rparr>"
  have "run_worker (if worker_at s = WWait then 2 else 1) ?t = Some ?s1"
    using assms by (auto simp: stop_request_def dealEventData_def numeral_2_eq_2)
  moreover have "stop_finish ?s1 = Some (DataImp_clear ?s1)" by (simp add: stop_finish_def)
  ultimately show ?thesis
    by (intro exI [of _ "if worker_at s = WWait then 2 else 1"] exI [of _ ?s1] exI [of _ "DataImp_clear ?s1"])
      (simp add: DataImp_clear_def clear_data_def clear_funcs_def stop_request_def comp_def)
qed

theorem batch_delivered_witness:
  "\<exists>n s'. run_worker n (CEventDealWithLock\<lparr>worker_at := WDeal, alive := {2}, m_mapFuncs := [''t'' \<mapsto> [1, 2]],
      m_queueDealData := [(''t'', True)]\<rparr>) = Some s' \<and> called s' = [(2, ''t'', True)]"
  using batch_delivered [of "CEventDealWithLock\<lparr>worker_at := WDeal, alive := {2}, m_mapFuncs := [''t'' \<mapsto> [1, 2]],
      m_queueDealData := [(''t'', True)]\<rparr>"]
  by (auto simp: subscribers_def CEventDealWithLock_def)

theorem stop_drops_pending_witness:
  "\<exists>n s1 s2. run_worker n (stop_request (CEventDealWithLock\<lparr>worker_at := WCheck, m_bDataAdded := True,
      m_queueAddData := [(''t'', True)]\<rparr>)) = Some s1 \<and> stop_finish s1 = Some s2 \<and> m_queueAddData s2 = []"
proof -
  let ?s = "CEventDealWithLock\<lparr>worker_at := WCheck, m_bDataAdded := True, m_queueAddData := [(''t'', True)]\<rparr>"
  have "worker_at ?s = WWait \<or> worker_at ?s = WCheck" by simp
  then show ?thesis using stop_drops_pending [of ?s] by blast
qed

lemma run_worker_reachable:
  "event_reachable g s \<Longrightarrow> run_worker n s = Some s' \<Longrightarrow> event_reachable g s'"
  by (induction n arbitrary: s) (auto split: option.splits intro: ev_next ev_worker)

lemma demo_call: "\<exists>s :: string event_ctrl. event_reachable id s \<and> called s = [(7, ''t'', ''t'')] \<and>
    registered s = [(''t'', 7)] \<and> \<not> cleared s \<and> past s = [] \<and> m_queueDealData s = [(''t'', ''t'')]"
proof -
  let ?s0 = "CEventDealWithLock :: string event_ctrl"
  let ?s1 = "?s0\<lparr>m_bTheadRun := True, worker_at := WCheck\<rparr>"
  have "start ?s0 = Some ?s1" by (simp add: start_def CEventDealWithLock_def)
  then have r1: "event_reachable id ?s1" by (blast intro: ev_next ev_init ev_start)
  let ?s2 = "?s1\<lparr>m_mapFuncs := [''t'' \<mapsto> [7]], alive := {7}, registered := [(''t'', 7)]\<rparr>"
  have "addFunc ''t'' 7 ?s1 = Some ?s2" by (simp add: addFunc_def holds_mutexFunc_def CEventDealWithLock_def)
  then have r2: "event_reachable id ?s2" using r1 by (blast intro: ev_next ev_addFunc)
  then have r3: "event_reachable id (addEvenVartData id ''t'' ?s2)" by (blast intro: ev_next ev_addEvent)
  obtain s where "run_worker 3 (addEvenVartData id ''t'' ?s2) = Some s" "called s = [(7, ''t'', ''t'')]"
      "registered s = [(''t'', 7)]" "\<not> cleared s" "past s = []" "m_queueDealData s = [(''t'', ''t'')]"
    by (simp add: addEvenVartData_def CEventDealWithLock_def numeral_3_eq_3 dealEventData_def Let_def)
  then show ?thesis using run_worker_reachable [OF r3] by blast
qed


theorem calls_are_subscribed_witness:
  "\<exists>s :: string event_ctrl. (''t'', 7) \<in> set (registered s) \<and> (''t'', ''t'') \<in> set (added s)"
proof -
  obtain s :: "string event_ctrl" where s: "event_reachable id s" "called s = [(7, ''t'', ''t'')]"
    using demo_call by blast
  then show ?thesis using calls_are_subscribed [OF s(1), of 7 "''t''" "''t''"] by auto
qed

end
