(* ===== verification/ChunkAlloc.thy ===== *)
theory ChunkAlloc
  imports Prelude "HOL-Library.Multiset"
begin

text \<open>
  \<^verbatim>\<open>common/include/util/ChunkAllocator.h\<close> and \<^verbatim>\<open>common/source/util/ChunkAllocator.cpp\<close>: the
  caching allocator of large blocks. \<open>memBuffer\<close> is the ordered map from a block size to the
  queue of free blocks of that size with the time each was returned; the counters are
  \<open>uint32_t\<close> and wrap. A block is its address, and \<open>new char[n]\<close> hands in a fresh one. The
  log lines are left out. The counters are atomics and two of their updates stand outside the
  mutex (the total after \<open>new\<close>, the free bytes before a block is queued), so these are steps of
  their own beside the locked sections. History fields record the sizes asked for and not
  found in the cache, the blocks handed out, those on their way back and those deleted.
\<close>

type_synonym ptr = nat
type_synonym time = int
type_synonym mem_queue = "(time \<times> ptr) list"
type_synonym mem_buffer = "(u32 \<times> mem_queue) list"

record chunk_alloc =
  m_ulExpireTime :: u32
  m_usMaxFreeCacheSize :: u32
  m_sizeFree :: u32
  m_sizeTotal :: u32
  memBuffer :: mem_buffer
  timeLast :: "int option"
  missed :: "u32 list"
  handed_out :: "(ptr \<times> u32) list"
  returning :: "(ptr \<times> u32) list"
  deleted :: "ptr list"

definition ChunkAllocator :: "u32 \<Rightarrow> u32 \<Rightarrow> chunk_alloc" where
  "ChunkAllocator ulExpiredTime ulMaxCache =
     \<lparr>m_ulExpireTime = ulExpiredTime, m_usMaxFreeCacheSize = ulMaxCache * 1024 * 1024, m_sizeFree = 0,
      m_sizeTotal = 0, memBuffer = [], timeLast = None, missed = [], handed_out = [],
      returning = [], deleted = []\<rparr>"

subsection \<open>The ordered map\<close>

text \<open>\<open>memBuffer[size].push_back(block)\<close>\<close>

fun mem_push :: "u32 \<Rightarrow> time \<times> ptr \<Rightarrow> mem_buffer \<Rightarrow> mem_buffer" where
  "mem_push k b [] = [(k, [b])]"
| "mem_push k b ((k', q) # m) =
     (if k < k' then (k, [b]) # (k', q) # m
      else if k = k' then (k', q @ [b]) # m
      else (k', q) # mem_push k b m)"

text \<open>\<open>find\<close>, then \<open>back()\<close> and \<open>pop_back()\<close>: the queue stays in the map when it gets empty.\<close>

fun mem_pop :: "u32 \<Rightarrow> mem_buffer \<Rightarrow> (ptr option \<times> mem_buffer) result" where
  "mem_pop k [] = Inr (None, [])"
| "mem_pop k ((k', q) # m) =
     (if k = k' then
        (if q = [] then Inl Undefined else Inr (Some (snd (last q)), (k', butlast q) # m))
      else and_then (mem_pop k m) (\<lambda>(p, m'). Inr (p, (k', q) # m')))"

definition alloRowMemory :: "u32 \<Rightarrow> chunk_alloc \<Rightarrow> (ptr option \<times> chunk_alloc) result" where
  "alloRowMemory ulElemSize s =
     and_then (mem_pop ulElemSize (memBuffer s)) (\<lambda>(p, m).
       Inr (p, case p of None \<Rightarrow> s | Some _ \<Rightarrow> s\<lparr>memBuffer := m, m_sizeFree := m_sizeFree s - ulElemSize\<rparr>))"

text \<open>
  When the cache has none: \<open>fresh\<close> is the address \<open>new char[ulElemSize]\<close> returns. Only then is
  the total raised, outside the mutex.
\<close>

definition alloMemory_new :: "ptr \<Rightarrow> u32 \<Rightarrow> chunk_alloc \<Rightarrow> chunk_alloc" where
  "alloMemory_new fresh ulElemSize s =
     s\<lparr>m_sizeTotal := m_sizeTotal s + ulElemSize, handed_out := (fresh, ulElemSize) # handed_out s\<rparr>"

definition alloMemory :: "ptr \<Rightarrow> u32 \<Rightarrow> chunk_alloc \<Rightarrow> (ptr \<times> chunk_alloc) result" where
  "alloMemory fresh ulElemSize s =
     and_then (alloRowMemory ulElemSize s) (\<lambda>(p, s').
       case p of
         Some q \<Rightarrow> Inr (q, s'\<lparr>handed_out := (q, ulElemSize) # handed_out s'\<rparr>)
       | None \<Rightarrow> Inr (fresh, alloMemory_new fresh ulElemSize s'))"

definition minBlockSize :: "nat \<Rightarrow> u32" where "minBlockSize Align = push_bit Align 1 - 1"

definition block_size :: "nat \<Rightarrow> nat \<Rightarrow> u32 \<Rightarrow> u32" where
  "block_size Align sizeofT ulElemSize =
     (ulElemSize * word_of_nat sizeofT + minBlockSize Align) AND (- 1 XOR minBlockSize Align)"

definition allocate :: "nat \<Rightarrow> nat \<Rightarrow> ptr \<Rightarrow> u32 \<Rightarrow> chunk_alloc \<Rightarrow> ((u32 \<times> ptr) \<times> chunk_alloc) result" where
  "allocate Align sizeofT fresh ulElemSize s =
     (let n = block_size Align sizeofT ulElemSize
      in and_then (alloMemory fresh n s) (\<lambda>(p, s'). Inr ((n, p), s')))"

subsection \<open>Returning and clearing\<close>

definition ticks_per_min :: int where "ticks_per_min = 60 * 10 ^ 9"

definition expired :: "time \<Rightarrow> u32 \<Rightarrow> time \<Rightarrow> bool" where
  "expired timeNow ulExpireTime t \<longleftrightarrow> (timeNow - t) div ticks_per_min > uint ulExpireTime"

type_synonym counters = "u32 \<times> u32 \<times> ptr list"

text \<open>The inner loop over one queue: the counters, and the addresses deleted.\<close>

fun expire_queue :: "time \<Rightarrow> u32 \<Rightarrow> u32 \<Rightarrow> mem_queue \<Rightarrow> counters \<Rightarrow> mem_queue \<times> counters" where
  "expire_queue now e k [] c = ([], c)"
| "expire_queue now e k ((t, p) # q) (free, tot, dels) =
     (if expired now e t then expire_queue now e k q (free - k, tot - k, p # dels)
      else (let r = expire_queue now e k q (free, tot, dels) in ((t, p) # fst r, snd r)))"

fun expire_mem :: "time \<Rightarrow> u32 \<Rightarrow> mem_buffer \<Rightarrow> counters \<Rightarrow> mem_buffer \<times> counters" where
  "expire_mem now e [] c = ([], c)"
| "expire_mem now e ((k, q) # m) c =
     (let r = expire_queue now e k q c; r' = expire_mem now e m (snd r)
      in (if fst r = [] then fst r' else (k, fst r) # fst r', snd r'))"

definition clear_expired :: "time \<Rightarrow> chunk_alloc \<Rightarrow> chunk_alloc" where
  "clear_expired timeNow s =
     (case expire_mem timeNow (m_ulExpireTime s) (memBuffer s) (m_sizeFree s, m_sizeTotal s, deleted s) of
        (m, free, tot, dels) \<Rightarrow>
          s\<lparr>memBuffer := m, m_sizeFree := free, m_sizeTotal := tot, deleted := dels\<rparr>)"

definition freeExpiredMemory :: "time \<Rightarrow> chunk_alloc \<Rightarrow> chunk_alloc" where
  "freeExpiredMemory timeNow s = clear_expired timeNow s"

text \<open>\<open>timeLast\<close> is a function-local static, set by the first call.\<close>

definition onTimer :: "time \<Rightarrow> int \<Rightarrow> chunk_alloc \<Rightarrow> chunk_alloc" where
  "onTimer timeNow framTime s =
     (let lst = (case timeLast s of None \<Rightarrow> framTime | Some t \<Rightarrow> t);
          s' = s\<lparr>timeLast := Some lst\<rparr>
      in if framTime - lst \<ge> uint (m_ulExpireTime s * 60)
         then (freeExpiredMemory timeNow s')\<lparr>timeLast := Some framTime\<rparr> else s')"

text \<open>Drop the oldest block of the largest size.\<close>

definition drop_largest :: "chunk_alloc \<Rightarrow> chunk_alloc" where
  "drop_largest s =
     (if memBuffer s = [] then s
      else case last (memBuffer s) of
        (k, []) \<Rightarrow> s
      | (k, (t, p) # q) \<Rightarrow>
          s\<lparr>memBuffer := butlast (memBuffer s) @ (if q = [] then [] else [(k, q)]),
            m_sizeFree := m_sizeFree s - k, m_sizeTotal := m_sizeTotal s - k, deleted := p # deleted s\<rparr>)"

text \<open>
  \<open>deallocate\<close> raises the free counter before it takes the mutex. In the locked section the
  clock is read twice, for the block and for the clearing, and the counter twice: \<open>a\<close> and \<open>b\<close>
  are what other threads have added to it since the section began.
\<close>

definition deallocate_count :: "u32 \<Rightarrow> ptr \<Rightarrow> chunk_alloc \<Rightarrow> chunk_alloc" where
  "deallocate_count ulBufSize pBuf s =
     s\<lparr>m_sizeFree := m_sizeFree s + ulBufSize, handed_out := remove1 (pBuf, ulBufSize) (handed_out s),
       returning := (pBuf, ulBufSize) # returning s\<rparr>"

definition deallocate_locked ::
    "time \<Rightarrow> time \<Rightarrow> u32 \<Rightarrow> u32 \<Rightarrow> u32 \<Rightarrow> ptr \<Rightarrow> chunk_alloc \<Rightarrow> chunk_alloc" where
  "deallocate_locked timePush timeNow a b ulBufSize pBuf s =
     (let s = s\<lparr>memBuffer := mem_push ulBufSize (timePush, pBuf) (memBuffer s),
               returning := remove1 (pBuf, ulBufSize) (returning s)\<rparr>
      in if m_sizeFree s + a > m_usMaxFreeCacheSize s then
           (let s = clear_expired timeNow s
            in if m_sizeFree s + b > m_usMaxFreeCacheSize s then drop_largest s else s)
         else s)"

definition deallocate :: "time \<Rightarrow> time \<Rightarrow> u32 \<Rightarrow> ptr \<Rightarrow> chunk_alloc \<Rightarrow> chunk_alloc" where
  "deallocate timePush timeNow ulBufSize pBuf s =
     deallocate_locked timePush timeNow 0 0 ulBufSize pBuf (deallocate_count ulBufSize pBuf s)"

definition DataImp_clear_mem :: "chunk_alloc \<Rightarrow> chunk_alloc" where
  "DataImp_clear_mem s =
     s\<lparr>memBuffer := map (\<lambda>(k, q). (k, [])) (memBuffer s),
       deleted := rev (concat (map (\<lambda>(k, q). map snd q) (memBuffer s))) @ deleted s,
       m_sizeFree := 0, m_sizeTotal := 0\<rparr>"

definition getAvailableMemoryInfo :: "chunk_alloc \<Rightarrow> u32 \<times> u32" where
  "getAvailableMemoryInfo s = (m_sizeFree s, m_sizeTotal s)"

definition getMaxCacheSize :: "chunk_alloc \<Rightarrow> u32" where
  "getMaxCacheSize s = m_usMaxFreeCacheSize s"

subsection \<open>The blocks in the cache\<close>

definition cached :: "mem_buffer \<Rightarrow> (ptr \<times> u32) list" where
  "cached m = concat (map (\<lambda>(k, q). map (\<lambda>(t, p). (p, k)) q) m)"

definition bytes :: "(ptr \<times> u32) list \<Rightarrow> u32" where
  "bytes bs = sum_list (map snd bs)"

text \<open>
  The accounting: the free counter is the bytes in the cache and on their way back, the total
  counter those and the bytes handed out, and no address is in two places or deleted while in
  use.
\<close>

definition addresses :: "chunk_alloc \<Rightarrow> ptr list" where
  "addresses s = map fst (cached (memBuffer s)) @ map fst (handed_out s) @ map fst (returning s) @ deleted s"

definition chunk_inv :: "chunk_alloc \<Rightarrow> bool" where
  "chunk_inv s \<longleftrightarrow>
     m_sizeFree s = bytes (cached (memBuffer s)) + bytes (returning s) \<and>
     m_sizeTotal s = bytes (cached (memBuffer s)) + bytes (returning s) + bytes (handed_out s) \<and>
     distinct (addresses s) \<and>
     sorted_wrt (<) (map fst (memBuffer s))"

lemma cached_simps [simp]:
  "cached [] = []"
  "cached ((k, q) # m) = map (\<lambda>(t, p). (p, k)) q @ cached m"
  "cached (m @ m') = cached m @ cached m'"
  by (simp_all add: cached_def)

lemma bytes_simps [simp]:
  "bytes [] = 0" "bytes (b # bs) = snd b + bytes bs" "bytes (bs @ cs) = bytes bs + bytes cs"
  by (simp_all add: bytes_def)

lemma bytes_mset: "mset bs = mset cs \<Longrightarrow> bytes bs = bytes cs"
  unfolding bytes_def by (metis mset_map sum_mset_sum_list)

lemma mset_cached_push: "mset (cached (mem_push k (t, p) m)) = add_mset (p, k) (mset (cached m))"
  by (induction m) auto

lemma push_lt: "a < k \<Longrightarrow> \<forall>x \<in> set m. a < fst x \<Longrightarrow> \<forall>x \<in> set (mem_push k b m). a < fst x"
  by (induction m) (fastforce split: if_splits)+

lemma keys_push: "sorted_wrt (<) (map fst m) \<Longrightarrow> sorted_wrt (<) (map fst (mem_push k b m))"
proof (induction m)
  case Nil
  then show ?case by simp
next
  case (Cons x m)
  obtain k' q where x: "x = (k', q)" by (cases x)
  consider "k < k'" | "k = k'" | "k' < k" by (rule linorder_cases)
  then show ?case
    using Cons x push_lt [of k' k m b] by cases (auto dest: less_trans)
qed

lemma mem_pop_Some:
  "mem_pop k m = Inr (Some p, m') \<Longrightarrow>
    mset (cached m) = add_mset (p, k) (mset (cached m')) \<and> map fst m' = map fst m"
proof (induction m arbitrary: m')
  case Nil
  then show ?case by simp
next
  case (Cons e m)
  obtain k' q where e: "e = (k', q)" by (cases e)
  show ?case
  proof (cases "k = k'")
    case True
    then have "q \<noteq> []" "p = snd (last q)" "m' = (k', butlast q) # m"
      using Cons.prems e by (auto split: if_splits)
    moreover have "q = butlast q @ [last q]" using \<open>q \<noteq> []\<close> by simp
    then have "map (\<lambda>(t, p). (p, k')) q = map (\<lambda>(t, p). (p, k')) (butlast q) @ [(snd (last q), k')]"
      by (metis (mono_tags, lifting) list.simps(8,9) map_append prod.case_eq_if)
    ultimately show ?thesis using e True by simp
  next
    case False
    then show ?thesis using Cons e by (auto simp: and_then_eq_Inr)
  qed
qed

lemma mem_pop_None: "mem_pop k m = Inr (None, m') \<Longrightarrow> m' = m \<and> (\<forall>x \<in> set m. fst x \<noteq> k)"
  by (induction m arbitrary: m') (fastforce simp: and_then_eq_Inr split: if_splits)+

lemma expire_queue_spec:
  "expire_queue now e k q (free, tot, dels) = (q', free', tot', dels') \<Longrightarrow>
    (\<exists>gone. mset (map (\<lambda>(t, p). (p, k)) q) = mset (map (\<lambda>(t, p). (p, k)) q') + mset gone
      \<and> free' = free - bytes gone \<and> tot' = tot - bytes gone \<and> dels' = rev (map fst gone) @ dels)
    \<and> q' = filter (\<lambda>(t, p). \<not> expired now e t) q"
proof (induction now e k q "(free, tot, dels)" arbitrary: free tot dels q' rule: expire_queue.induct)
  case (1 now e k)
  then show ?case by (auto intro!: exI [of _ "[]"])
next
  case (2 now e k t p q free tot dels)
  show ?case
  proof (cases "expired now e t")
    case True
    then have "expire_queue now e k q (free - k, tot - k, p # dels) = (q', free', tot', dels')"
      using 2(3) by simp
    from 2(1) [OF True this] obtain gone where
      "mset (map (\<lambda>(t, p). (p, k)) q) = mset (map (\<lambda>(t, p). (p, k)) q') + mset gone"
      "free' = free - k - bytes gone" "tot' = tot - k - bytes gone" "dels' = rev (map fst gone) @ p # dels"
      "q' = filter (\<lambda>(t, p). \<not> expired now e t) q" by blast
    then show ?thesis using True by (auto intro!: exI [of _ "(p, k) # gone"])
  next
    case False
    then obtain q'' where "expire_queue now e k q (free, tot, dels) = (q'', free', tot', dels')" "q' = (t, p) # q''"
      using 2(3) by (auto simp: Let_def prod_eq_iff)
    from 2(2) [OF False this(1)] this(2) False show ?thesis by auto
  qed
qed

lemma expire_mem_spec:
  "expire_mem now e m (free, tot, dels) = (m', free', tot', dels') \<Longrightarrow>
    (\<exists>gone. mset (cached m) = mset (cached m') + mset gone \<and> free' = free - bytes gone
      \<and> tot' = tot - bytes gone \<and> dels' = rev (map fst gone) @ dels)
    \<and> (\<forall>a. (\<forall>x \<in> set m. a < fst x) \<longrightarrow> (\<forall>x \<in> set m'. a < fst x)) \<and> (\<forall>(k, q) \<in> set m'. q \<noteq> [])
    \<and> (sorted_wrt (<) (map fst m) \<longrightarrow> sorted_wrt (<) (map fst m'))"
proof (induction m arbitrary: free tot dels m')
  case Nil
  then show ?case by (auto intro!: exI [of _ "[]"])
next
  case (Cons x m)
  obtain k q where x: "x = (k, q)" by (cases x)
  obtain q' f1 t1 d1 where 1: "expire_queue now e k q (free, tot, dels) = (q', f1, t1, d1)"
    by (metis prod_cases4)
  obtain m1 where 2: "expire_mem now e m (f1, t1, d1) = (m1, free', tot', dels')"
    and m': "m' = (if q' = [] then m1 else (k, q') # m1)"
    using Cons.prems x 1 by (auto simp: Let_def prod_eq_iff)
  obtain g1 where g1: "mset (map (\<lambda>(t, p). (p, k)) q) = mset (map (\<lambda>(t, p). (p, k)) q') + mset g1"
    "f1 = free - bytes g1" "t1 = tot - bytes g1" "d1 = rev (map fst g1) @ dels"
    using expire_queue_spec [OF 1] by blast
  note IH = Cons.IH [OF 2]
  obtain g2 where g2: "mset (cached m) = mset (cached m1) + mset g2" "free' = f1 - bytes g2"
    "tot' = t1 - bytes g2" "dels' = rev (map fst g2) @ d1"
    using IH by blast
  have "mset (cached (x # m)) = mset (cached m') + mset (g1 @ g2)"
    using g1(1) g2(1) x m' by auto
  moreover have "free' = free - bytes (g1 @ g2)" "tot' = tot - bytes (g1 @ g2)"
    "dels' = rev (map fst (g1 @ g2)) @ dels"
    using g1 g2 by simp_all
  moreover have "\<forall>a. (\<forall>y \<in> set (x # m). a < fst y) \<longrightarrow> (\<forall>y \<in> set m'. a < fst y)"
    "\<forall>(k, q) \<in> set m'. q \<noteq> []" "sorted_wrt (<) (map fst (x # m)) \<longrightarrow> sorted_wrt (<) (map fst m')"
    using IH x m' by simp_all
  ultimately show ?case by blast
qed

subsection \<open>The accounting is kept\<close>

lemma chunk_inv_cong:
  assumes "chunk_inv s" "mset (cached (memBuffer s)) = mset (cached m) + mset gone"
    and "sorted_wrt (<) (map fst m)"
  shows "chunk_inv (s\<lparr>memBuffer := m, m_sizeFree := m_sizeFree s - bytes gone,
    m_sizeTotal := m_sizeTotal s - bytes gone, deleted := rev (map fst gone) @ deleted s\<rparr>)"
proof -
  have "mset (cached (memBuffer s)) = mset (cached m @ gone)" using assms(2) by simp
  from bytes_mset [OF this] have b: "bytes (cached (memBuffer s)) = bytes (cached m) + bytes gone"
    by simp
  let ?s = "s\<lparr>memBuffer := m, m_sizeFree := m_sizeFree s - bytes gone,
    m_sizeTotal := m_sizeTotal s - bytes gone, deleted := rev (map fst gone) @ deleted s\<rparr>"
  have "mset (addresses s) = mset (addresses ?s)" using assms(2) by (simp add: addresses_def)
  then have "distinct (addresses ?s)"
    using assms(1) unfolding chunk_inv_def by (metis mset_eq_imp_distinct_iff)
  then show ?thesis using assms(1,3) b by (simp add: chunk_inv_def)
qed

lemma chunk_inv_clear_expired:
  assumes "chunk_inv s"
  shows "chunk_inv (clear_expired now s)"
proof -
  obtain m free tot dels where e: "expire_mem now (m_ulExpireTime s) (memBuffer s)
      (m_sizeFree s, m_sizeTotal s, deleted s) = (m, free, tot, dels)"
    by (metis prod_cases4)
  note sp = expire_mem_spec [OF e]
  obtain gone where g: "mset (cached (memBuffer s)) = mset (cached m) + mset gone"
    "free = m_sizeFree s - bytes gone" "tot = m_sizeTotal s - bytes gone" "dels = rev (map fst gone) @ deleted s"
    using sp by blast
  have "sorted_wrt (<) (map fst m)" using sp assms by (simp add: chunk_inv_def)
  from chunk_inv_cong [OF assms g(1) this] show ?thesis
    by (simp add: clear_expired_def e g)
qed

lemma drop_largest_cases:
  obtains (same) "drop_largest s = s"
  | (dropped) k t p q m where "memBuffer s = m @ [(k, (t, p) # q)]"
      "drop_largest s = s\<lparr>memBuffer := m @ (if q = [] then [] else [(k, q)]),
        m_sizeFree := m_sizeFree s - k, m_sizeTotal := m_sizeTotal s - k, deleted := p # deleted s\<rparr>"
proof (cases "memBuffer s" rule: rev_cases)
  case Nil
  then show ?thesis by (intro same) (simp add: drop_largest_def)
next
  case (snoc m x)
  obtain k q where x: "x = (k, q)" by (cases x)
  show ?thesis
  proof (cases q)
    case Nil
    then show ?thesis using snoc x by (intro same) (simp add: drop_largest_def)
  next
    case (Cons b q')
    obtain t p where b: "b = (t, p)" by (cases b)
    show ?thesis using snoc x Cons b by (intro dropped [of m k t p q']) (simp_all add: drop_largest_def)
  qed
qed

lemma chunk_inv_drop_largest:
  assumes "chunk_inv s"
  shows "chunk_inv (drop_largest s)"
proof (cases rule: drop_largest_cases [of s])
  case same
  then show ?thesis using assms by simp
next
  case (dropped k t p q m)
  let ?m = "m @ (if q = [] then [] else [(k, q)])"
  have "mset (cached (memBuffer s)) = mset (cached ?m) + mset [(p, k)]"
    by (simp add: dropped(1))
  moreover have "sorted_wrt (<) (map fst ?m)"
    using assms by (simp add: chunk_inv_def dropped(1) sorted_wrt_append)
  ultimately show ?thesis
    using chunk_inv_cong [OF assms, of ?m "[(p, k)]"] by (simp add: dropped(2))
qed

lemma bytes_remove1:
  assumes "x \<in> set bs"
  shows "bytes bs = snd x + bytes (remove1 x bs)"
proof -
  have "mset bs = mset (x # remove1 x bs)" using assms by simp
  from bytes_mset [OF this] show ?thesis by simp
qed

lemma mset_fst_remove1:
  assumes "x \<in> set bs"
  shows "mset (map fst bs) = add_mset (fst x) (mset (map fst (remove1 x bs)))"
proof -
  have "mset bs = mset (x # remove1 x bs)" using assms by simp
  from arg_cong [OF this, of "image_mset fst"] show ?thesis by (simp del: mset_remove1)
qed

lemma chunk_inv_count:
  assumes "chunk_inv s" "(p, k) \<in> set (handed_out s)"
  shows "chunk_inv (deallocate_count k p s)"
proof -
  let ?s = "deallocate_count k p s"
  have "mset (addresses s) = mset (addresses ?s)"
    using mset_fst_remove1 [OF assms(2)] by (simp add: addresses_def deallocate_count_def del: mset_map)
  then have "distinct (addresses ?s)"
    using assms(1) unfolding chunk_inv_def by (metis mset_eq_imp_distinct_iff)
  then show ?thesis
    using assms(1) bytes_remove1 [OF assms(2)] by (simp add: chunk_inv_def deallocate_count_def)
qed

lemma chunk_inv_return:
  assumes "chunk_inv s" "(p, k) \<in> set (returning s)"
  shows "chunk_inv (s\<lparr>memBuffer := mem_push k (now, p) (memBuffer s), returning := remove1 (p, k) (returning s)\<rparr>)"
proof -
  let ?s = "s\<lparr>memBuffer := mem_push k (now, p) (memBuffer s), returning := remove1 (p, k) (returning s)\<rparr>"
  have c: "mset (cached (memBuffer ?s)) = mset ((p, k) # cached (memBuffer s))"
    by (simp add: mset_cached_push)
  from bytes_mset [OF this] have b: "bytes (cached (memBuffer ?s)) = k + bytes (cached (memBuffer s))" by simp
  have "mset (map fst (cached (memBuffer ?s))) = add_mset p (mset (map fst (cached (memBuffer s))))"
    using arg_cong [OF c, of "image_mset fst"] by simp
  then have "mset (addresses s) = mset (addresses ?s)"
    using mset_fst_remove1 [OF assms(2)] by (simp add: addresses_def del: mset_map)
  then have "distinct (addresses ?s)"
    using assms(1) unfolding chunk_inv_def by (metis mset_eq_imp_distinct_iff)
  then show "chunk_inv ?s"
    using assms(1) b bytes_remove1 [OF assms(2)] keys_push by (simp add: chunk_inv_def)
qed

lemma chunk_inv_locked:
  "chunk_inv s \<Longrightarrow> (p, k) \<in> set (returning s) \<Longrightarrow> chunk_inv (deallocate_locked t now a b k p s)"
  by (simp add: deallocate_locked_def Let_def chunk_inv_clear_expired chunk_inv_drop_largest chunk_inv_return)

lemma chunk_inv_deallocate:
  assumes "chunk_inv s" "(p, k) \<in> set (handed_out s)"
  shows "chunk_inv (deallocate t now k p s)"
  unfolding deallocate_def
  by (intro chunk_inv_locked chunk_inv_count assms) (simp add: deallocate_count_def)

lemma chunk_inv_hit:
  assumes "chunk_inv s" "alloRowMemory k s = Inr (Some p, s')"
  shows "chunk_inv (s'\<lparr>handed_out := (p, k) # handed_out s'\<rparr>)"
proof -
  obtain m where m: "mem_pop k (memBuffer s) = Inr (Some p, m)"
    "s' = s\<lparr>memBuffer := m, m_sizeFree := m_sizeFree s - k\<rparr>"
    using assms(2) by (auto simp: alloRowMemory_def and_then_eq_Inr)
  note mp = mem_pop_Some [OF m(1)]
  let ?s = "s'\<lparr>handed_out := (p, k) # handed_out s'\<rparr>"
  have "mset (cached (memBuffer s)) = mset ((p, k) # cached m)" using mp by simp
  from bytes_mset [OF this] have b: "bytes (cached (memBuffer s)) = k + bytes (cached m)" by simp
  have "mset (addresses s) = mset (addresses ?s)"
    using mp by (simp add: addresses_def m(2))
  then have "distinct (addresses ?s)"
    using assms(1) unfolding chunk_inv_def by (metis mset_eq_imp_distinct_iff)
  then show ?thesis using assms(1) b mp m(2) by (simp add: chunk_inv_def)
qed

lemma chunk_miss_same: "alloRowMemory k s = Inr (None, s') \<Longrightarrow> s' = s"
  by (auto simp: alloRowMemory_def and_then_eq_Inr)

lemma chunk_inv_new:
  "chunk_inv s \<Longrightarrow> fresh \<notin> set (addresses s) \<Longrightarrow> chunk_inv (alloMemory_new fresh k s)"
  by (auto simp: chunk_inv_def alloMemory_new_def addresses_def)

lemma chunk_inv_alloMemory:
  assumes "chunk_inv s" "alloMemory fresh k s = Inr (p, s')" "fresh \<notin> set (addresses s)"
  shows "chunk_inv s' \<and> handed_out s' = (p, k) # handed_out s"
proof -
  obtain r s1 where r: "alloRowMemory k s = Inr (r, s1)"
    using assms(2) by (auto simp: alloMemory_def and_then_eq_Inr)
  show ?thesis
  proof (cases r)
    case None
    then have "s1 = s" using r chunk_miss_same by blast
    then have "s' = alloMemory_new fresh k s" "p = fresh" using assms(2) r None by (auto simp: alloMemory_def)
    then show ?thesis using chunk_inv_new [OF assms(1,3)] by (simp add: alloMemory_new_def)
  next
    case (Some q)
    then have "chunk_inv s'" using chunk_inv_hit [OF assms(1)] assms(2) r by (auto simp: alloMemory_def)
    then show ?thesis using assms(2) r Some by (auto simp: alloMemory_def alloRowMemory_def and_then_eq_Inr split: option.splits)
  qed
qed

subsection \<open>Sequences of operations\<close>

text \<open>
  Threads interleave between a locked section and a counter update outside it. A request
  that finds no block leaves the mutex, and \<open>new\<close> gives it a fresh address; a block in use is
  counted and then queued; the timer clears. A request that finds an empty queue is undefined
  behaviour and has no step (\<open>second_reuse_undefined\<close> below).
\<close>

inductive chunk_step :: "chunk_alloc \<Rightarrow> chunk_alloc \<Rightarrow> bool" where
  chunk_hit: "alloRowMemory (block_size Align sz n) s = Inr (Some p, s') \<Longrightarrow>
    chunk_step s (s'\<lparr>handed_out := (p, block_size Align sz n) # handed_out s'\<rparr>)"
| chunk_miss: "alloRowMemory (block_size Align sz n) s = Inr (None, s') \<Longrightarrow>
    chunk_step s (s'\<lparr>missed := block_size Align sz n # missed s'\<rparr>)"
| chunk_new: "k \<in> set (missed s) \<Longrightarrow> fresh \<notin> set (addresses s) \<Longrightarrow>
    chunk_step s ((alloMemory_new fresh k s)\<lparr>missed := remove1 k (missed s)\<rparr>)"
| chunk_count: "(p, k) \<in> set (handed_out s) \<Longrightarrow> chunk_step s (deallocate_count k p s)"
| chunk_queue: "(p, k) \<in> set (returning s) \<Longrightarrow> chunk_step s (deallocate_locked t now a b k p s)"
| chunk_expire: "chunk_step s (freeExpiredMemory now s)"
| chunk_timer: "chunk_step s (onTimer now t s)"

inductive chunk_reachable :: "u32 \<Rightarrow> u32 \<Rightarrow> chunk_alloc \<Rightarrow> bool" for e mx where
  chunk_init: "chunk_reachable e mx (ChunkAllocator e mx)"
| chunk_next: "chunk_reachable e mx s \<Longrightarrow> chunk_step s s' \<Longrightarrow> chunk_reachable e mx s'"

lemma chunk_inv_timeLast: "chunk_inv (s\<lparr>timeLast := t\<rparr>) = chunk_inv s"
  by (simp add: chunk_inv_def addresses_def)

lemma chunk_inv_missed: "chunk_inv (s\<lparr>missed := m\<rparr>) = chunk_inv s"
  by (simp add: chunk_inv_def addresses_def)

lemma chunk_inv_step: "chunk_step s s' \<Longrightarrow> chunk_inv s \<Longrightarrow> chunk_inv s'"
proof (induction rule: chunk_step.induct)
  case (chunk_hit Align sz n s p s')
  then show ?case by (simp add: chunk_inv_hit)
next
  case (chunk_miss Align sz n s s')
  then show ?case using chunk_miss_same [OF chunk_miss(1)] by (simp add: chunk_inv_missed)
next
  case (chunk_new k s fresh)
  then show ?case by (simp add: chunk_inv_missed chunk_inv_new)
next
  case (chunk_count p k s)
  then show ?case by (intro chunk_inv_count)
next
  case (chunk_queue p k s t now a b)
  then show ?case by (intro chunk_inv_locked)
next
  case (chunk_expire s now)
  then show ?case by (simp add: freeExpiredMemory_def chunk_inv_clear_expired)
next
  case (chunk_timer s now t)
  then show ?case
    by (simp add: onTimer_def Let_def freeExpiredMemory_def chunk_inv_clear_expired chunk_inv_timeLast)
qed

lemma chunk_reachable_inv: "chunk_reachable e mx s \<Longrightarrow> chunk_inv s"
  by (induction rule: chunk_reachable.induct)
    (simp_all add: chunk_inv_step, simp add: chunk_inv_def ChunkAllocator_def addresses_def)

text \<open>
  C15: In every interleaving of allocations, returns and clearings that runs into no empty
  queue (that case is undefined behaviour, shown below) the counters tell the truth: the free
  counter is the bytes in the cache and on their way back into it, the total counter those and
  the bytes handed out (both modulo \<open>2 ^ 32\<close>), and no block is handed out twice, cached or
  returned while in use, or deleted while cached or in use.
\<close>

theorem chunk_accounting:
  assumes "chunk_reachable e mx s"
  shows "m_sizeFree s = bytes (cached (memBuffer s)) + bytes (returning s)
    \<and> m_sizeTotal s = m_sizeFree s + bytes (handed_out s)
    \<and> distinct (map fst (cached (memBuffer s)) @ map fst (handed_out s) @ map fst (returning s) @ deleted s)"
  using chunk_reachable_inv [OF assms] by (simp add: chunk_inv_def addresses_def)

text \<open>
  Two requests miss the cache, both blocks are handed out, the first is counted and queued,
  and its size is asked for again while the second block is on its way back.
\<close>

theorem chunk_accounting_witness:
  "\<exists>s. chunk_reachable 60 64 s \<and> cached (memBuffer s) = [] \<and> handed_out s = [(7, 1024)]
    \<and> returning s = [(8, 2048)] \<and> m_sizeFree s = 2048 \<and> m_sizeTotal s = 3072"
proof -
  have sz: "block_size 10 1 1000 = 1024" "block_size 10 1 1500 = 2048"
    by (simp_all add: block_size_def minBlockSize_def)
  define s0 where "s0 = ChunkAllocator 60 64"
  define s1 where "s1 = s0\<lparr>missed := [1024]\<rparr>"
  define s2 where "s2 = s1\<lparr>missed := [2048, 1024]\<rparr>"
  define s3 where "s3 = (alloMemory_new 7 1024 s2)\<lparr>missed := remove1 1024 (missed s2)\<rparr>"
  define s4 where "s4 = (alloMemory_new 8 2048 s3)\<lparr>missed := remove1 2048 (missed s3)\<rparr>"
  define s5 where "s5 = deallocate_count 1024 7 s4"
  define s6 where "s6 = deallocate_locked 5 6 0 0 1024 7 s5"
  define s7 where "s7 = deallocate_count 2048 8 s6"
  define s8 where "s8 = s7\<lparr>memBuffer := [(1024, [])], m_sizeFree := 2048, handed_out := [(7, 1024)]\<rparr>"
  note d = s8_def s7_def s6_def s5_def s4_def s3_def s2_def s1_def s0_def ChunkAllocator_def
    alloMemory_new_def deallocate_count_def deallocate_locked_def alloRowMemory_def addresses_def Let_def
  have "chunk_step s0 s1" using chunk_miss [of 10 1 1000 s0 s0] by (simp add: sz [unfolded One_nat_def] d)
  moreover have "chunk_step s1 s2" using chunk_miss [of 10 1 1500 s1 s1] by (simp add: sz [unfolded One_nat_def] d)
  moreover have "chunk_step s2 s3" unfolding s3_def by (rule chunk_new) (simp_all add: d)
  moreover have "chunk_step s3 s4" unfolding s4_def by (rule chunk_new) (simp_all add: d)
  moreover have "chunk_step s4 s5" unfolding s5_def by (rule chunk_count) (simp add: d)
  moreover have "chunk_step s5 s6" unfolding s6_def by (rule chunk_queue) (simp add: d)
  moreover have "chunk_step s6 s7" unfolding s7_def by (rule chunk_count) (simp add: d)
  moreover have "chunk_step s7 s8"
    using chunk_hit [of 10 1 1000 s7 7 "s7\<lparr>memBuffer := [(1024, [])], m_sizeFree := 2048\<rparr>"]
    by (simp add: sz [unfolded One_nat_def] d)
  ultimately have r: "chunk_reachable 60 64 s8"
    unfolding s0_def by (meson chunk_init chunk_next)
  have f: "cached (memBuffer s8) = []" "handed_out s8 = [(7, 1024)]" "returning s8 = [(8, 2048)]"
    by (simp_all add: d)
  show ?thesis using chunk_accounting [OF r] f r by auto
qed

subsection \<open>The size of a block\<close>

lemma minBlockSize_mask: "minBlockSize a = mask a"
  by (simp add: minBlockSize_def mask_eq_exp_minus_1)

lemma and_not_mask_u32: "(x :: u32) AND (- 1 XOR mask a) = x - take_bit a x"
proof -
  have "(x AND NOT (mask a)) AND take_bit a x = 0"
    by (rule bit_word_eqI) (simp add: bit_simps)
  then have "(x AND NOT (mask a)) + take_bit a x = (x AND NOT (mask a)) OR take_bit a x"
    by (rule disjunctive_add_eq_or)
  also have "\<dots> = x" by (rule bit_word_eqI) (auto simp: bit_simps)
  finally show ?thesis by (simp add: eq_diff_eq)
qed

lemma unat_round_down: "unat ((x :: u32) AND (- 1 XOR mask a)) = unat x - unat x mod 2 ^ a"
proof -
  have t: "unat (take_bit a x) = unat x mod 2 ^ a"
    unfolding unsigned_take_bit_eq by (simp add: take_bit_eq_mod)
  then have "take_bit a x \<le> x" by (simp add: word_le_nat_alt)
  then show ?thesis unfolding and_not_mask_u32 by (simp add: unat_sub t)
qed

text \<open>
  \<open>allocate\<close> asks for a block that is a multiple of \<open>2 ^ Align\<close> bytes, holds the elements
  and wastes less than \<open>2 ^ Align\<close> bytes, as long as the element bytes plus the rounding fit
  32 bits. Just below \<open>2 ^ 32\<close> bytes the rounding wraps and the block has no byte at all.
\<close>

theorem block_size_rounds:
  assumes "Align \<le> 16"
  shows "(unat n * sz + 2 ^ Align - 1 < 2 ^ 32 \<longrightarrow>
      2 ^ Align dvd unat (block_size Align sz n) \<and> unat n * sz \<le> unat (block_size Align sz n)
      \<and> unat (block_size Align sz n) < unat n * sz + 2 ^ Align)
    \<and> (unat n * sz < 2 ^ 32 \<and> 2 ^ 32 < unat n * sz + 2 ^ Align \<longrightarrow> block_size Align sz n = 0)"
proof -
  let ?x = "n * word_of_nat sz + minBlockSize Align" and ?p = "(2::nat) ^ Align"
  have p: "?p \<le> 2 ^ 16" using assms by (rule power_increasing) simp
  have m: "unat (minBlockSize Align) = ?p - 1"
  proof -
    have "minBlockSize Align = word_of_nat (?p - 1)" by (simp add: minBlockSize_def of_nat_diff)
    then have "unat (minBlockSize Align) = (?p - 1) mod 2 ^ 32" by (simp only: unat_of_nat) simp
    then show ?thesis using p by simp
  qed
  have e: "unat (n * word_of_nat sz) = unat n * sz mod 2 ^ 32"
  proof -
    have "unat (n * word_of_nat sz) = unat n * (sz mod 2 ^ 32) mod 2 ^ 32"
      by (simp add: unat_word_ariths(2) unat_of_nat)
    then show ?thesis by (simp only: mod_mult_right_eq)
  qed
  have "unat ?x = (unat (n * word_of_nat sz) + unat (minBlockSize Align)) mod 2 ^ 32"
    by (simp add: unat_word_ariths(1))
  then have x: "unat ?x = (unat n * sz + (?p - 1)) mod 2 ^ 32"
    unfolding e m by (simp only: mod_add_left_eq)
  have b: "unat (block_size Align sz n) = unat ?x - unat ?x mod ?p"
    by (simp only: block_size_def minBlockSize_mask unat_round_down)
  show ?thesis
  proof (intro conjI impI)
    assume "unat n * sz + ?p - 1 < 2 ^ 32"
    moreover have "0 < ?p" by simp
    ultimately have u: "unat ?x = unat n * sz + (?p - 1)" unfolding x by (intro mod_less) linarith
    show "?p dvd unat (block_size Align sz n)" unfolding b by (simp add: dvd_minus_mod)
    have lt: "unat ?x mod ?p < ?p" by simp
    then show "unat n * sz \<le> unat (block_size Align sz n)" unfolding b u by linarith
    show "unat (block_size Align sz n) < unat n * sz + ?p" unfolding b u using \<open>0 < ?p\<close> by linarith
  next
    assume a: "unat n * sz < 2 ^ 32 \<and> 2 ^ 32 < unat n * sz + ?p"
    have "unat ?x = unat n * sz + (?p - 1) - 2 ^ 32"
    proof -
      have "2 ^ 32 \<le> unat n * sz + (?p - 1)" "unat n * sz + (?p - 1) - 2 ^ 32 < 2 ^ 32" using conjunct1 [OF a] conjunct2 [OF a] p by simp_all
      then show ?thesis unfolding x by (simp only: le_mod_geq mod_less)
    qed
    then have "unat ?x < ?p" using a by linarith
    then have "unat (block_size Align sz n) = 0" by (simp add: b)
    then show "block_size Align sz n = 0" by (simp only: unat_eq_0)
  qed
qed

theorem block_size_rounds_witness:
  "2 ^ 10 dvd unat (block_size 10 4 300) \<and> 1200 \<le> unat (block_size 10 4 300) \<and> block_size 10 1 0xFFFFFFF0 = 0"
  using block_size_rounds [of 10 300 4] block_size_rounds [of 10 "0xFFFFFFF0" 1] by simp

subsection \<open>The cache limit\<close>

definition nbytes :: "(ptr \<times> u32) list \<Rightarrow> nat" where
  "nbytes bs = sum_list (map (\<lambda>b. unat (snd b)) bs)"

lemma nbytes_simps [simp]:
  "nbytes [] = 0" "nbytes (b # bs) = unat (snd b) + nbytes bs" "nbytes (bs @ cs) = nbytes bs + nbytes cs"
  by (simp_all add: nbytes_def)

lemma nbytes_mset: "mset bs = mset cs \<Longrightarrow> nbytes bs = nbytes cs"
proof -
  assume "mset bs = mset cs"
  then have "mset (map (\<lambda>b. unat (snd b)) bs) = mset (map (\<lambda>b. unat (snd b)) cs)" by simp
  then show ?thesis unfolding nbytes_def by (metis sum_mset_sum_list)
qed

lemma unat_bytes: "nbytes bs < 2 ^ 32 \<Longrightarrow> unat (bytes bs) = nbytes bs"
  by (induction bs) (simp_all add: unat_word_ariths)

lemma expire_queue_mem: "fst (expire_queue now e k q c) = filter (\<lambda>(t, p). \<not> expired now e t) q"
  by (induction now e k q c rule: expire_queue.induct) (simp_all add: Let_def)

lemma expire_mem_mem:
  "fst (expire_mem now e m c)
    = filter (\<lambda>(k, q). q \<noteq> []) (map (\<lambda>(k, q). (k, filter (\<lambda>(t, p). \<not> expired now e t) q)) m)"
proof (induction m arbitrary: c)
  case (Cons x m)
  then show ?case by (cases x) (simp add: Let_def expire_queue_mem)
qed simp

lemma clear_expired_mem:
  "memBuffer (clear_expired now s) = filter (\<lambda>(k, q). q \<noteq> [])
    (map (\<lambda>(k, q). (k, filter (\<lambda>(t, p). \<not> expired now (m_ulExpireTime s) t) q)) (memBuffer s))"
proof -
  obtain m free tot dels where e: "expire_mem now (m_ulExpireTime s) (memBuffer s)
      (m_sizeFree s, m_sizeTotal s, deleted s) = (m, free, tot, dels)"
    by (metis prod_cases4)
  then have "m = fst (expire_mem now (m_ulExpireTime s) (memBuffer s) (m_sizeFree s, m_sizeTotal s, deleted s))"
    by simp
  then show ?thesis unfolding expire_mem_mem by (simp add: clear_expired_def e)
qed

lemma clear_expired_frame [simp]:
  "m_usMaxFreeCacheSize (clear_expired now s) = m_usMaxFreeCacheSize s"
  "returning (clear_expired now s) = returning s"
  by (simp_all add: clear_expired_def split: prod.split)

lemma push_mem: "\<exists>q. (k, q) \<in> set (mem_push k b m) \<and> b \<in> set q"
proof (induction m)
  case (Cons x m)
  obtain k' q where x: "x = (k', q)" by (cases x)
  consider "k < k'" | "k = k'" | "k' < k" by (rule linorder_cases)
  then show ?case
  proof cases
    case 1
    then show ?thesis using x by (intro exI [of _ "[b]"]) simp
  next
    case 2
    then show ?thesis using x by (intro exI [of _ "q @ [b]"]) simp
  next
    case 3
    then show ?thesis using Cons x by auto
  qed
qed simp

lemma last_largest:
  "sorted_wrt (<) (map fst m) \<Longrightarrow> x \<in> set m \<Longrightarrow> fst x \<le> (fst (last m) :: u32)"
  by (induction m rule: rev_induct) (auto simp: sorted_wrt_append less_imp_le)

lemma nbytes_filter: "nbytes (cached (filter P (map (\<lambda>(k, q). (k, filter (Q k) q)) m))) \<le> nbytes (cached m)"
proof (induction m)
  case Nil
  then show ?case by simp
next
  case (Cons x m)
  obtain k q where x: "x = (k, q)" by (cases x)
  have "nbytes (map (\<lambda>(t, p). (p, k)) (filter (Q k) q)) \<le> nbytes (map (\<lambda>(t, p). (p, k)) q)"
    by (induction q) auto
  then show ?case using Cons x by simp
qed

text \<open>
  Returned with no other return under way, a block does not take the cache over its limit: if
  the free bytes were within the limit before (and the byte count does not wrap), they are
  within it afterwards, since clearing the one oldest block of the largest size makes room
  for the block that came in.
\<close>

theorem deallocate_within_limit:
  assumes "chunk_inv s" "returning s = []" "m_sizeFree s \<le> m_usMaxFreeCacheSize s"
    and "(p, k) \<in> set (handed_out s)" "nbytes (cached (memBuffer s)) + unat k < 2 ^ 32"
    and "\<not> expired now (m_ulExpireTime s) t"
  shows "m_sizeFree (deallocate t now k p s) \<le> m_usMaxFreeCacheSize s"
proof -
  let ?s = "s\<lparr>m_sizeFree := m_sizeFree s + k, handed_out := remove1 (p, k) (handed_out s),
    memBuffer := mem_push k (t, p) (memBuffer s), returning := []\<rparr>"
  have e: "(deallocate_count k p s)\<lparr>memBuffer := mem_push k (t, p) (memBuffer s), returning := []\<rparr> = ?s"
    by (simp add: deallocate_count_def)
  let ?c = "clear_expired now ?s" and ?max = "m_usMaxFreeCacheSize s"
  show ?thesis
  proof (cases "?max < m_sizeFree ?s \<and> ?max < m_sizeFree ?c")
    case False
    then show ?thesis
      using assms(2) by (auto simp: deallocate_def deallocate_locked_def deallocate_count_def Let_def not_less)
  next
    case True
    have d: "deallocate t now k p s = drop_largest ?c"
      using True assms(2) by (simp add: deallocate_def deallocate_locked_def deallocate_count_def Let_def)
    have "chunk_inv ?s"
      using chunk_inv_return [OF chunk_inv_count [OF assms(1,4)], of p k t] assms(2)
      by (simp add: deallocate_count_def)
    then have inv: "chunk_inv ?c" by (rule chunk_inv_clear_expired)
    have free: "unat (m_sizeFree s) = nbytes (cached (memBuffer s))"
      using assms(1,2,5) by (simp add: chunk_inv_def unat_bytes)
    have "mset (cached (memBuffer ?s)) = mset ((p, k) # cached (memBuffer s))" by (simp add: mset_cached_push)
    from nbytes_mset [OF this] have "nbytes (cached (memBuffer ?s)) = unat k + nbytes (cached (memBuffer s))" by simp
    then have le: "nbytes (cached (memBuffer ?c)) \<le> unat k + nbytes (cached (memBuffer s))"
      using nbytes_filter [of "\<lambda>(k, q). q \<noteq> []" "\<lambda>_ (t, p). \<not> expired now (m_ulExpireTime s) t" "memBuffer ?s"]
      by (simp add: clear_expired_mem)
    then have cfree: "unat (m_sizeFree ?c) = nbytes (cached (memBuffer ?c))"
      using inv assms(5) unfolding chunk_inv_def by (simp add: unat_bytes)
    obtain q where q: "(k, q) \<in> set (memBuffer ?s)" "(t, p) \<in> set q"
      using push_mem [of k "(t, p)" "memBuffer s"] by auto
    define q' where "q' = filter (\<lambda>(t, p). \<not> expired now (m_ulExpireTime s) t) q"
    have "(t, p) \<in> set q'" using q(2) assms(6) by (simp add: q'_def)
    then have "q' \<noteq> []" by auto
    moreover have "(k, q') \<in> set (map (\<lambda>(k, q). (k, filter (\<lambda>(t, p). \<not> expired now (m_ulExpireTime ?s) t) q)) (memBuffer ?s))"
      unfolding set_map by (rule image_eqI [OF _ q(1)]) (simp add: q'_def)
    ultimately have kin: "(k, q') \<in> set (memBuffer ?c)"
      unfolding clear_expired_mem by (simp only: set_filter mem_Collect_eq prod.case simp_thms)
    have ne: "\<forall>(k, q) \<in> set (memBuffer ?c). q \<noteq> []" by (auto simp: clear_expired_mem)
    show ?thesis
    proof (cases rule: drop_largest_cases [of ?c])
      case same
      have "memBuffer ?c \<noteq> []" using kin by auto
      obtain K q0 where l0: "last (memBuffer ?c) = (K, q0)" by (cases "last (memBuffer ?c)")
      have "(K, q0) \<in> set (memBuffer ?c)" using last_in_set [OF \<open>memBuffer ?c \<noteq> []\<close>] by (simp only: l0)
      then have "q0 \<noteq> []" using ne by blast
      then obtain t r qs where l: "last (memBuffer ?c) = (K, (t, r) # qs)" using l0 by (cases q0) auto
      have "deleted (drop_largest ?c) = r # deleted ?c"
        using \<open>memBuffer ?c \<noteq> []\<close> l by (simp add: drop_largest_def)
      then show ?thesis using same by (metis not_Cons_self2)
    next
      case (dropped K u r qs m)
      have "k \<le> K"
        using last_largest [of "memBuffer ?c", OF _ kin] inv by (simp add: chunk_inv_def dropped(1))
      moreover have "unat K \<le> nbytes (cached (memBuffer ?c))" by (simp add: dropped(1))
      ultimately have "unat (m_sizeFree ?c - K) \<le> unat (m_sizeFree s)"
        using cfree le free by (simp add: unat_sub word_le_nat_alt)
      then show ?thesis using assms(3) by (simp add: d dropped(2) word_le_nat_alt)
    qed
  qed
qed

theorem deallocate_within_limit_witness:
  "m_sizeFree (deallocate 0 0 1024 7 ((ChunkAllocator 60 64)\<lparr>m_sizeTotal := 1024, handed_out := [(7, 1024)]\<rparr>))
    \<le> m_usMaxFreeCacheSize (ChunkAllocator 60 64)"
  using deallocate_within_limit [of "(ChunkAllocator 60 64)\<lparr>m_sizeTotal := 1024, handed_out := [(7, 1024)]\<rparr>" 7 1024 0 0]
  by (simp add: chunk_inv_def ChunkAllocator_def addresses_def expired_def)

subsection \<open>Reusing a size twice\<close>

text \<open>
  Taking the last cached block of a size leaves an empty queue behind under that size, and
  the next allocation of the size calls \<open>back()\<close> on it: two allocations in a row after one
  return are undefined behaviour.
\<close>

theorem second_reuse_undefined:
  assumes "k \<notin> fst ` set pre" "memBuffer s = pre @ (k, [(t, p)]) # suf"
  shows "\<exists>s'. alloMemory f k s = Inr (p, s') \<and> alloMemory f' k s' = Inl Undefined"
proof -
  have pop: "mem_pop k (pre @ (k, [(t, p)]) # suf) = Inr (Some p, pre @ (k, []) # suf)"
    and stuck: "mem_pop k (pre @ (k, []) # suf) = Inl Undefined"
    using assms(1) by (induction pre) auto
  show ?thesis using pop stuck by (simp add: alloMemory_def alloRowMemory_def assms(2))
qed

theorem second_reuse_undefined_witness:
  "\<exists>s'. alloMemory 8 1024 (deallocate 0 0 1024 7 ((ChunkAllocator 60 64)\<lparr>m_sizeTotal := 1024, handed_out := [(7, 1024)]\<rparr>)) = Inr (7, s')
    \<and> alloMemory 9 1024 s' = Inl Undefined"
  using second_reuse_undefined [of 1024 "[]" "deallocate 0 0 1024 7 ((ChunkAllocator 60 64)\<lparr>m_sizeTotal := 1024, handed_out := [(7, 1024)]\<rparr>)" 0 7 "[]" 8 9]
  by (simp add: deallocate_def deallocate_locked_def deallocate_count_def ChunkAllocator_def Let_def)

end
