(* ===== verification/SmallAlloc.thy ===== *)
theory SmallAlloc
  imports Prelude
begin

text \<open>
  \<^verbatim>\<open>common/include/util/SmallAllocator.h\<close> and \<^verbatim>\<open>common/source/util/SmallAllocator.cpp\<close>: the
  pool of small blocks. A chunk is at most 255 blocks of one size whose free blocks form a
  list threaded through their first bytes; the model keeps the first byte of every block
  (\<open>heads\<close>), which the program overwrites while a block is in use. Block addresses are block
  indices; sizes are \<open>size_t\<close> (64 bits) and block counts bytes, as in the code. That \<open>new\<close> may
  throw \<open>bad_alloc\<close> is not modelled. Above the chunks stand \<open>FixedAllocator\<close>, a list of chunks of one block size, and
  \<open>SmallAllocator\<close>, one fixed allocator per multiple of eight bytes.

  The counters and the list head are atomics; the sequential operations come first, then the
  two halves of \<open>allocate\<close> around its compare-and-swap, for interleavings.
\<close>

subsection \<open>The contract of a block pool\<close>

text \<open>
  What the users of a pool rely on: a block they get is not in use, and giving back a block
  in use succeeds. \<open>inv s L\<close> says that in state \<open>s\<close> exactly the blocks of \<open>L\<close> are in use.
\<close>

locale block_pool =
  fixes inv :: "'s \<Rightarrow> 'b set \<Rightarrow> bool"
    and alloc :: "'s \<Rightarrow> ('b option \<times> 's) result"
    and dealloc :: "'b \<Rightarrow> 's \<Rightarrow> 's result"
    and overwrite :: "'b \<Rightarrow> byte \<Rightarrow> 's \<Rightarrow> 's"
  assumes alloc_total: "inv s L \<Longrightarrow> \<exists>r s'. alloc s = Inr (r, s')"
    and alloc_new: "inv s L \<Longrightarrow> alloc s = Inr (Some b, s') \<Longrightarrow> b \<notin> L \<and> inv s' (insert b L)"
    and alloc_none: "inv s L \<Longrightarrow> alloc s = Inr (None, s') \<Longrightarrow> inv s' L"
    and dealloc_used: "inv s L \<Longrightarrow> b \<in> L \<Longrightarrow> \<exists>s'. dealloc b s = Inr s' \<and> inv s' (L - {b})"
    and write_used: "inv s L \<Longrightarrow> b \<in> L \<Longrightarrow> inv (overwrite b v s) L"

text \<open>
  A client takes blocks, writes into the one at some place of its list, and gives it back.
\<close>

datatype pool_op = Take | Give nat | Use nat byte

fun pool_run ::
    "('s \<Rightarrow> ('b option \<times> 's) result) \<Rightarrow> ('b \<Rightarrow> 's \<Rightarrow> 's result) \<Rightarrow> ('b \<Rightarrow> byte \<Rightarrow> 's \<Rightarrow> 's) \<Rightarrow> pool_op list \<Rightarrow> 's \<Rightarrow> 'b list \<Rightarrow>
      ('s \<times> 'b list) result" where
  "pool_run alloc dealloc wr [] s held = Inr (s, held)"
| "pool_run alloc dealloc wr (Take # ops) s held =
     and_then (alloc s) (\<lambda>(r, s').
       pool_run alloc dealloc wr ops s' (case r of None \<Rightarrow> held | Some b \<Rightarrow> b # held))"
| "pool_run alloc dealloc wr (Give n # ops) s held =
     (if n < length held
      then and_then (dealloc (held ! n) s) (\<lambda>s'. pool_run alloc dealloc wr ops s' (remove1 (held ! n) held))
      else pool_run alloc dealloc wr ops s held)"
| "pool_run alloc dealloc wr (Use n v # ops) s held =
     pool_run alloc dealloc wr ops (if n < length held then wr (held ! n) v s else s) held"

context block_pool
begin

lemma pool_run_safe:
  "inv s (set held) \<Longrightarrow> distinct held \<Longrightarrow>
    \<exists>s' held'. pool_run alloc dealloc overwrite ops s held = Inr (s', held') \<and> inv s' (set held') \<and> distinct held'"
proof (induction ops arbitrary: s held)
  case Nil
  then show ?case by simp
next
  case (Cons op ops)
  show ?case
  proof (cases op)
    case Take
    obtain r s' where a: "alloc s = Inr (r, s')" using alloc_total [OF Cons.prems(1)] by blast
    show ?thesis
    proof (cases r)
      case None
      have "inv s' (set held)" using alloc_none [OF Cons.prems(1)] a None by blast
      then show ?thesis using Cons.IH [of s' held] Cons.prems(2) a None Take by simp
    next
      case (Some b)
      have "b \<notin> set held" "inv s' (insert b (set held))" using alloc_new [OF Cons.prems(1)] a Some by blast+
      then show ?thesis using Cons.IH [of s' "b # held"] Cons.prems(2) a Some Take by simp
    qed
  next
    case (Give n)
    show ?thesis
    proof (cases "n < length held")
      case True
      obtain s' where d: "dealloc (held ! n) s = Inr s'" "inv s' (set held - {held ! n})"
        using dealloc_used [OF Cons.prems(1)] True nth_mem by blast
      then have "inv s' (set (remove1 (held ! n) held))" using Cons.prems(2) by simp
      then show ?thesis
        using Cons.IH [of s' "remove1 (held ! n) held"] Cons.prems(2) d(1) True Give by simp
    next
      case False
      then show ?thesis using Cons Give by simp
    qed
  next
    case (Use n v)
    have "inv (if n < length held then overwrite (held ! n) v s else s) (set held)"
      using Cons.prems(1) write_used by simp
    then show ?thesis using Cons.IH Cons.prems(2) Use by simp
  qed
qed

end

subsection \<open>ChunkLockFree\<close>

record chunk =
  heads :: "byte list"
  m_blockSize :: u64
  m_availaBlockCurr :: byte
  m_availaBlockNum :: byte
  m_blockNum :: byte
  m_pData :: bool

definition ChunkLockFree :: chunk where
  "ChunkLockFree = \<lparr>heads = [], m_blockSize = 0, m_availaBlockCurr = 0, m_availaBlockNum = 0,
     m_blockNum = 0, m_pData = False\<rparr>"

text \<open>\<open>m_pData\<close> is whether the chunk owns memory; unreturned blocks are only logged.\<close>

definition release :: "chunk \<Rightarrow> chunk" where
  "release c =
     (if m_pData c then
        c\<lparr>m_availaBlockNum := 0, m_availaBlockCurr := 0, m_blockNum := 0, heads := [], m_pData := False\<rparr>
      else c)"

fun init_loop :: "nat \<Rightarrow> byte \<Rightarrow> byte list" where
  "init_loop 0 i = []"
| "init_loop (Suc n) i = (i + 1) # init_loop n (i + 1)"

definition init :: "u64 \<Rightarrow> byte \<Rightarrow> chunk \<Rightarrow> chunk result" where
  "init blockSize blockNum c =
     (if blockSize = 0 \<or> blockNum = 0 then Inl Aborts
      else if (blockSize * ucast blockNum) div blockSize \<noteq> ucast blockNum then Inl Aborts
      else let c = release c
           in Inr (c\<lparr>m_blockSize := blockSize, m_pData := True, m_availaBlockCurr := 0,
                     m_availaBlockNum := blockNum, m_blockNum := blockNum,
                     heads := init_loop (unat blockNum) 0\<rparr>))"

text \<open>Before the compare-and-swap: the head and, unless it is the end mark, its link.\<close>

definition alloc_read :: "chunk \<Rightarrow> (byte \<times> byte) option result" where
  "alloc_read c =
     (if m_availaBlockCurr c = m_blockNum c then Inr None
      else if unat (m_availaBlockCurr c) < length (heads c)
      then Inr (Some (m_availaBlockCurr c, heads c ! unat (m_availaBlockCurr c)))
      else Inl Undefined)"

text \<open>The compare-and-swap: \<open>None\<close> when the head has changed and the loop turns.\<close>

definition alloc_cas :: "byte \<times> byte \<Rightarrow> chunk \<Rightarrow> (nat \<times> chunk) option" where
  "alloc_cas p c =
     (if m_availaBlockCurr c = fst p
      then Some (unat (fst p), c\<lparr>m_availaBlockCurr := snd p, m_availaBlockNum := m_availaBlockNum c - 1\<rparr>)
      else None)"

definition chunk_allocate :: "chunk \<Rightarrow> (nat option \<times> chunk) result" where
  "chunk_allocate c =
     and_then (alloc_read c) (\<lambda>r. case r of
         None \<Rightarrow> Inr (None, c)
       | Some p \<Rightarrow> (case alloc_cas p c of Some (i, c') \<Rightarrow> Inr (Some i, c') | None \<Rightarrow> Inl Undefined))"

definition chunk_deallocate :: "nat \<Rightarrow> chunk \<Rightarrow> chunk result" where
  "chunk_deallocate i c =
     (if m_blockNum c < word_of_nat i then Inl Aborts
      else if length (heads c) \<le> i then Inl Undefined
      else Inr (c\<lparr>heads := (heads c)[i := m_availaBlockCurr c], m_availaBlockCurr := word_of_nat i,
                 m_availaBlockNum := m_availaBlockNum c + 1\<rparr>))"

text \<open>The owner of a block writes into it.\<close>

definition user_write :: "nat \<Rightarrow> byte \<Rightarrow> chunk \<Rightarrow> chunk" where
  "user_write i b c = c\<lparr>heads := (heads c)[i := b]\<rparr>"

subsection \<open>The free list\<close>

fun chain :: "byte list \<Rightarrow> nat \<Rightarrow> nat \<Rightarrow> nat list \<Rightarrow> bool" where
  "chain hs bn c [] \<longleftrightarrow> c = bn"
| "chain hs bn c (x # xs) \<longleftrightarrow> c = x \<and> x < bn \<and> chain hs bn (unat (hs ! x)) xs"

definition chunk_rep :: "chunk \<Rightarrow> nat list \<Rightarrow> bool" where
  "chunk_rep c fl \<longleftrightarrow>
     length (heads c) = unat (m_blockNum c) \<and> distinct fl \<and>
     chain (heads c) (unat (m_blockNum c)) (unat (m_availaBlockCurr c)) fl \<and>
     unat (m_availaBlockNum c) = length fl"

lemma chain_bound: "chain hs bn c fl \<Longrightarrow> set fl \<subseteq> {..<bn}"
  by (induction hs bn c fl rule: chain.induct) auto

lemma chain_update: "i \<notin> set fl \<Longrightarrow> chain (hs[i := b]) bn c fl = chain hs bn c fl"
  by (induction hs bn c fl rule: chain.induct) auto

lemma length_init_loop [simp]: "length (init_loop n i) = n"
  by (induction n arbitrary: i) simp_all

lemma nth_init_loop: "k < n \<Longrightarrow> init_loop n i ! k = i + word_of_nat k + 1"
proof (induction n arbitrary: i k)
  case 0
  then show ?case by simp
next
  case (Suc n)
  then show ?case by (cases k) (simp_all add: algebra_simps)
qed

lemma chain_init: "j \<le> unat (bn :: byte) \<Longrightarrow> chain (init_loop (unat bn) 0) (unat bn) j [j..<unat bn]"
proof (induction "unat bn - j" arbitrary: j)
  case 0
  then show ?case by simp
next
  case (Suc n)
  then have j: "j < unat bn" by simp
  have "unat bn < 256" by (rule unat_byte)
  then have "unat (init_loop (unat bn) 0 ! j) = Suc j"
    using j by (simp add: nth_init_loop) (simp add: unat_word_ariths unat_of_nat)
  moreover have "chain (init_loop (unat bn) 0) (unat bn) (Suc j) [Suc j..<unat bn]"
    using Suc(2) j by (intro Suc(1)) auto
  ultimately show ?case using j by (simp add: upt_conv_Cons)
qed

lemma init_rep: "init bs bn c = Inr c' \<Longrightarrow> chunk_rep c' [0..<unat bn] \<and> m_blockNum c' = bn"
  using chain_init [of 0 bn] by (auto simp: init_def chunk_rep_def Let_def split: if_splits)

lemma init_ok:
  assumes "bs \<noteq> 0" "bn \<noteq> 0" "unat bs * unat bn < 2 ^ 64"
  shows "\<exists>c. init bs bn c0 = Inr c \<and> m_blockNum c = bn \<and> m_availaBlockNum c = bn"
proof -
  have p: "unat (ucast bn :: u64) = unat bn" "unat bs \<noteq> 0"
    using assms(1) unat_byte [of bn] by (simp_all add: unsigned_ucast_eq take_bit_nat_eq_self unat_eq_0)
  then have "unat (bs * ucast bn) = unat bs * unat bn"
    using assms(3) by (simp add: unat_word_ariths)
  then have "(bs * ucast bn) div bs = ucast bn"
    using p by (simp add: word_unat_eq_iff unat_div_distrib)
  then show ?thesis using assms(1,2) by (simp add: init_def Let_def)
qed

lemma chunk_allocate_rep:
  assumes "chunk_rep c fl"
  shows "case fl of
      [] \<Rightarrow> chunk_allocate c = Inr (None, c)
    | i # fl' \<Rightarrow> \<exists>c'. chunk_allocate c = Inr (Some i, c') \<and> chunk_rep c' fl' \<and> heads c' = heads c
        \<and> m_blockNum c' = m_blockNum c"
proof (cases fl)
  case Nil
  then have "m_availaBlockCurr c = m_blockNum c"
    using assms unfolding chunk_rep_def by (metis chain.simps(1) word_unat_eq_iff)
  then show ?thesis using Nil by (simp add: chunk_allocate_def alloc_read_def)
next
  case (Cons i fl')
  let ?c = "m_availaBlockCurr c"
  have i: "unat ?c = i" "i < unat (m_blockNum c)" "chain (heads c) (unat (m_blockNum c)) (unat (heads c ! i)) fl'"
    "length (heads c) = unat (m_blockNum c)" "unat (m_availaBlockNum c) = Suc (length fl')" "distinct fl'"
    using assms Cons by (auto simp: chunk_rep_def)
  then have "?c \<noteq> m_blockNum c" by auto
  then have "chunk_allocate c = Inr (Some i, c\<lparr>m_availaBlockCurr := heads c ! i, m_availaBlockNum := m_availaBlockNum c - 1\<rparr>)"
    using i by (simp add: chunk_allocate_def alloc_read_def alloc_cas_def)
  moreover have "unat (m_availaBlockNum c - 1) = length fl'"
    using i(5) by (metis diff_Suc_1 nat.simps(3) unat_eq_0 unat_minus_one)
  ultimately show ?thesis using Cons i by (simp add: chunk_rep_def)
qed

lemma chunk_deallocate_rep:
  assumes "chunk_rep c fl" "i < unat (m_blockNum c)" "i \<notin> set fl"
  shows "\<exists>c'. chunk_deallocate i c = Inr c' \<and> chunk_rep c' (i # fl) \<and> m_blockNum c' = m_blockNum c"
proof -
  let ?c = "c\<lparr>heads := (heads c)[i := m_availaBlockCurr c], m_availaBlockCurr := word_of_nat i,
                 m_availaBlockNum := m_availaBlockNum c + 1\<rparr>"
  have l: "length (heads c) = unat (m_blockNum c)" using assms(1) by (simp add: chunk_rep_def)
  have "unat (m_blockNum c) < 256" by (rule unat_byte)
  then have u: "unat (word_of_nat i :: byte) = i" using assms(2) by (simp add: unat_of_nat)
  have d: "chunk_deallocate i c = Inr ?c"
    using assms(2) l u by (simp add: chunk_deallocate_def word_less_nat_alt del: unsigned_of_nat)
  have "set (i # fl) \<subseteq> {..<unat (m_blockNum c)}"
    using assms chain_bound by (fastforce simp: chunk_rep_def)
  moreover have "distinct (i # fl)" using assms by (simp add: chunk_rep_def)
  ultimately have "length (i # fl) \<le> unat (m_blockNum c)"
    using card_mono [of "{..<unat (m_blockNum c)}" "set (i # fl)"] by (simp add: distinct_card del: set_simps)
  then have "unat (m_availaBlockNum c + 1) = Suc (length fl)"
    using assms(1) \<open>unat (m_blockNum c) < 256\<close> by (simp add: chunk_rep_def unat_word_ariths)
  then have "chunk_rep ?c (i # fl)"
    using assms l u by (simp add: chunk_rep_def chain_update)
  then show ?thesis using d by auto
qed

lemma user_write_rep:
  "chunk_rep c fl \<Longrightarrow> i \<notin> set fl \<Longrightarrow> chunk_rep (user_write i b c) fl \<and> m_blockNum (user_write i b c) = m_blockNum c"
  by (simp add: chunk_rep_def user_write_def chain_update)

definition chunk_inv_live :: "chunk \<Rightarrow> nat set \<Rightarrow> bool" where
  "chunk_inv_live c L \<longleftrightarrow> (\<exists>fl. chunk_rep c fl \<and> set fl \<inter> L = {} \<and> set fl \<union> L = {..<unat (m_blockNum c)})"

interpretation chunk_pool: block_pool chunk_inv_live chunk_allocate chunk_deallocate user_write
proof
  fix c c' :: chunk and L b v
  assume "chunk_inv_live c L"
  then obtain fl where fl: "chunk_rep c fl" "set fl \<inter> L = {}" "set fl \<union> L = {..<unat (m_blockNum c)}"
    by (auto simp: chunk_inv_live_def)
  note a = chunk_allocate_rep [OF fl(1)]
  show "\<exists>r s'. chunk_allocate c = Inr (r, s')" using a by (cases fl) auto
  show "b \<notin> L \<and> chunk_inv_live c' (insert b L)" if r: "chunk_allocate c = Inr (Some b, c')"
  proof (cases fl)
    case Nil
    then show ?thesis using a r by simp
  next
    case (Cons i fl')
    then have "b = i" "chunk_rep c' fl'" "m_blockNum c' = m_blockNum c" using a r by auto
    moreover have "i \<notin> set fl'" using fl(1) Cons by (simp add: chunk_rep_def)
    ultimately show ?thesis using fl(2,3) Cons unfolding chunk_inv_live_def by (intro conjI exI [of _ fl']) auto
  qed
  show "chunk_inv_live c' L" if r: "chunk_allocate c = Inr (None, c')"
  proof (cases fl)
    case Nil
    then show ?thesis using a r \<open>chunk_inv_live c L\<close> by simp
  next
    case (Cons i fl')
    then show ?thesis using a r by auto
  qed
  show "\<exists>s'. chunk_deallocate b c = Inr s' \<and> chunk_inv_live s' (L - {b})" if "b \<in> L"
  proof -
    have b: "b < unat (m_blockNum c)" "b \<notin> set fl" using that fl(2,3) by auto
    from chunk_deallocate_rep [OF fl(1) this] obtain d where
      d: "chunk_deallocate b c = Inr d" "chunk_rep d (b # fl)" "m_blockNum d = m_blockNum c" by blast
    have "set (b # fl) \<inter> (L - {b}) = {}" "set (b # fl) \<union> (L - {b}) = {..<unat (m_blockNum d)}"
      using fl(2,3) d(3) that by auto
    then show ?thesis using d unfolding chunk_inv_live_def by blast
  qed
  show "chunk_inv_live (user_write b v c) L" if "b \<in> L"
  proof -
    have "b \<notin> set fl" using that fl(2) by auto
    from user_write_rep [OF fl(1) this, of v] fl(2,3) show ?thesis
      unfolding chunk_inv_live_def by (intro exI [of _ fl]) simp
  qed
qed

lemma chunk_inv_live_count:
  assumes "chunk_inv_live c (set held)" "distinct held"
  shows "set held \<subseteq> {..<unat (m_blockNum c)}
    \<and> unat (m_availaBlockNum c) + length held = unat (m_blockNum c)"
proof -
  obtain fl where fl: "chunk_rep c fl" "set fl \<inter> set held = {}" "set fl \<union> set held = {..<unat (m_blockNum c)}"
    using assms(1) by (auto simp: chunk_inv_live_def)
  have "card (set fl \<union> set held) = card (set fl) + card (set held)"
    using fl(2) by (simp add: card_Un_disjoint)
  then have "length fl + length held = unat (m_blockNum c)"
    using fl(1,3) assms(2) by (simp add: distinct_card chunk_rep_def)
  then show ?thesis using fl by (auto simp: chunk_rep_def)
qed

text \<open>
  C22: Used by one thread at a time, a chunk never hands out a block that is in use. Its
  initialisation succeeds for every non-zero block size and count whose product fits a
  \<open>size_t\<close>; from then on every sequence of allocations, returns and writes of the holders into
  their blocks, in any order, runs without a failed assertion or an access outside the chunk,
  the blocks held are distinct blocks of the chunk, and none is lost: those held and those
  counted as free make up the chunk.
\<close>

theorem chunk_blocks_distinct:
  assumes "bs \<noteq> 0" "bn \<noteq> 0" "unat bs * unat bn < 2 ^ 64"
  shows "\<exists>c c' held. init bs bn c0 = Inr c \<and> m_blockNum c = bn
    \<and> pool_run chunk_allocate chunk_deallocate user_write ops c [] = Inr (c', held)
    \<and> distinct held \<and> set held \<subseteq> {..<unat (m_blockNum c')}
    \<and> unat (m_availaBlockNum c') + length held = unat (m_blockNum c')"
proof -
  obtain c where c: "init bs bn c0 = Inr c" "m_blockNum c = bn" using init_ok [OF assms] by blast
  then have "chunk_inv_live c (set [])"
    using init_rep unfolding chunk_inv_live_def by (intro exI [of _ "[0..<unat bn]"]) auto
  from chunk_pool.pool_run_safe [OF this, of ops] obtain c' held where
    r: "pool_run chunk_allocate chunk_deallocate user_write ops c [] = Inr (c', held)"
      "chunk_inv_live c' (set held)" "distinct held"
    by auto
  then show ?thesis using c chunk_inv_live_count by blast
qed

theorem chunk_blocks_distinct_witness:
  "\<exists>c c' held. init 16 3 ChunkLockFree = Inr c
    \<and> pool_run chunk_allocate chunk_deallocate user_write
        [Take, Use 0 7, Take, Use 1 9, Give 1, Use 0 200, Take, Take] c [] = Inr (c', held)
    \<and> distinct held"
  using chunk_blocks_distinct [of 16 3 ChunkLockFree
      "[Take, Use 0 7, Take, Use 1 9, Give 1, Use 0 200, Take, Take]"]
  by (simp del: pool_run.simps) blast

subsection \<open>Two threads\<close>

text \<open>
  The compare-and-swap of \<open>allocate\<close> compares the head only, so a head that was taken and
  given back in between is not noticed: one thread reads head 0 and link 1 and pauses; another
  takes 0 and 1 and returns 0; the first one's swap succeeds, gives it block 0 and makes 1,
  which is in use, the head. The next allocation hands block 1 out a second time.
\<close>

theorem allocate_aba:
  assumes "init bs bn c0 = Inr c" "3 \<le> bn"
  shows "\<exists>snap c1 c2 c3 c4 c5. alloc_read c = Inr (Some snap)
    \<and> chunk_allocate c = Inr (Some 0, c1) \<and> chunk_allocate c1 = Inr (Some 1, c2) \<and> chunk_deallocate 0 c2 = Inr c3
    \<and> alloc_cas snap c3 = Some (0, c4) \<and> chunk_allocate c4 = Inr (Some 1, c5)"
proof -
  have bn: "3 \<le> unat bn" using assms(2) by (simp add: word_le_nat_alt)
  then have ne: "bn \<noteq> 0" "bn \<noteq> 1" by auto
  define hs where "hs = init_loop (unat bn) 0"
  have h: "length hs = unat bn" "hs ! 0 = 1" "hs ! 1 = 2"
    using bn by (simp_all add: hs_def nth_init_loop)
  have "c = release c0\<lparr>m_blockSize := bs, m_pData := True, m_availaBlockCurr := 0,
      m_availaBlockNum := bn, m_blockNum := bn, heads := hs\<rparr>"
    using assms(1) by (auto simp: init_def Let_def hs_def split: if_splits)
  then have c: "m_availaBlockCurr c = 0" "m_blockNum c = bn" "heads c = hs" by simp_all
  let ?c1 = "c\<lparr>m_availaBlockCurr := 1, m_availaBlockNum := m_availaBlockNum c - 1\<rparr>"
  have r: "alloc_read c = Inr (Some (0, 1))" using c h ne bn by (simp add: alloc_read_def)
  then have 1: "chunk_allocate c = Inr (Some 0, ?c1)" using c by (simp add: chunk_allocate_def alloc_cas_def)
  let ?c2 = "?c1\<lparr>m_availaBlockCurr := 2, m_availaBlockNum := m_availaBlockNum ?c1 - 1\<rparr>"
  have 2: "chunk_allocate ?c1 = Inr (Some 1, ?c2)"
    using c h ne bn by (simp add: chunk_allocate_def alloc_read_def alloc_cas_def)
  let ?c3 = "?c2\<lparr>heads := hs[0 := 2], m_availaBlockCurr := 0, m_availaBlockNum := m_availaBlockNum ?c2 + 1\<rparr>"
  have 3: "chunk_deallocate 0 ?c2 = Inr ?c3" using c h bn by (simp add: chunk_deallocate_def)
  let ?c4 = "?c3\<lparr>m_availaBlockCurr := 1, m_availaBlockNum := m_availaBlockNum ?c3 - 1\<rparr>"
  have 4: "alloc_cas (0, 1) ?c3 = Some (0, ?c4)" by (simp add: alloc_cas_def)
  have "\<exists>c5. chunk_allocate ?c4 = Inr (Some 1, c5)"
    using c h ne bn by (simp add: chunk_allocate_def alloc_read_def alloc_cas_def)
  then show ?thesis using r 1 2 3 4 by blast
qed

theorem allocate_aba_witness:
  "\<exists>c snap c1 c2 c3 c4 c5. init 16 255 ChunkLockFree = Inr c \<and> alloc_read c = Inr (Some snap)
    \<and> chunk_allocate c = Inr (Some 0, c1) \<and> chunk_allocate c1 = Inr (Some 1, c2) \<and> chunk_deallocate 0 c2 = Inr c3
    \<and> alloc_cas snap c3 = Some (0, c4) \<and> chunk_allocate c4 = Inr (Some 1, c5)"
proof -
  obtain c where c: "init 16 255 ChunkLockFree = Inr c" using init_ok [of 16 255] by fastforce
  have "(3 :: byte) \<le> 255" by simp
  then show ?thesis using allocate_aba [OF c] c by blast
qed

subsection \<open>FixedAllocator\<close>

text \<open>
  Chunks are kept with their heap addresses; \<open>fa_heap\<close> is the next address \<open>make_unique\<close>
  returns. A block is its chunk and index, as in the pair \<open>allocate\<close> returns. \<open>allocate\<close> turns
  until a chunk gives a block; \<open>fuel\<close> bounds the turns (\<open>None\<close> when they run out).
\<close>

definition ALLOC_CHUNK_SIZE :: u64 where "ALLOC_CHUNK_SIZE = 8192"

record fixed_allocator =
  fa_blockSize :: u64
  m_numBlocks :: byte
  m_ptrAllocChunk :: "nat option"
  m_listChunks :: "(nat \<times> chunk) list"
  fa_heap :: nat

definition FixedAllocator :: "u64 \<Rightarrow> fixed_allocator result" where
  "FixedAllocator blockSize =
     (if blockSize = 0 then Inl Aborts
      else
        let numBlocks = ALLOC_CHUNK_SIZE div blockSize;
            numBlocks = (if numBlocks > 255 then 255 else if numBlocks = 0 then 8 * blockSize else numBlocks);
            m = ucast numBlocks :: byte
        in if ucast m \<noteq> numBlocks then Inl Aborts
           else Inr \<lparr>fa_blockSize = blockSize, m_numBlocks = m, m_ptrAllocChunk = None, m_listChunks = [], fa_heap = 0\<rparr>)"

definition chunk_at :: "nat \<Rightarrow> fixed_allocator \<Rightarrow> chunk option" where
  "chunk_at a fa = map_of (m_listChunks fa) a"

definition chunk_put :: "nat \<Rightarrow> chunk \<Rightarrow> fixed_allocator \<Rightarrow> fixed_allocator" where
  "chunk_put a ch fa = fa\<lparr>m_listChunks := map (\<lambda>(a', ch'). if a' = a then (a', ch) else (a', ch')) (m_listChunks fa)\<rparr>"

text \<open>The search of \<open>allocate\<close>: the first chunk with a free block, or a new one at the end.\<close>

definition pick_chunk :: "fixed_allocator \<Rightarrow> fixed_allocator result" where
  "pick_chunk fa =
     (case find (\<lambda>(a, ch). m_availaBlockNum ch \<noteq> 0) (m_listChunks fa) of
        Some (a, ch) \<Rightarrow> Inr (fa\<lparr>m_ptrAllocChunk := Some a\<rparr>)
      | None \<Rightarrow>
          and_then (init (fa_blockSize fa) (m_numBlocks fa) ChunkLockFree) (\<lambda>ch.
            Inr (fa\<lparr>m_listChunks := m_listChunks fa @ [(fa_heap fa, ch)], m_ptrAllocChunk := Some (fa_heap fa),
                    fa_heap := fa_heap fa + 1\<rparr>)))"

definition current_chunk :: "fixed_allocator \<Rightarrow> fixed_allocator result" where
  "current_chunk fa =
     (case m_ptrAllocChunk fa of
        None \<Rightarrow> pick_chunk fa
      | Some a \<Rightarrow> (case chunk_at a fa of
            None \<Rightarrow> Inl Undefined
          | Some ch \<Rightarrow> if m_availaBlockNum ch = 0 then pick_chunk fa else Inr fa))"

definition allocate_turn :: "fixed_allocator \<Rightarrow> ((nat \<times> nat) option \<times> fixed_allocator) result" where
  "allocate_turn fa =
     and_then (current_chunk fa) (\<lambda>fa.
       case m_ptrAllocChunk fa of
         None \<Rightarrow> Inl Undefined
       | Some a \<Rightarrow> (case chunk_at a fa of
             None \<Rightarrow> Inl Undefined
           | Some ch \<Rightarrow> and_then (chunk_allocate ch) (\<lambda>(r, ch').
               Inr (map_option (Pair a) r, chunk_put a ch' fa))))"

fun fixed_allocate :: "nat \<Rightarrow> fixed_allocator \<Rightarrow> ((nat \<times> nat) \<times> fixed_allocator) result option" where
  "fixed_allocate 0 fa = None"
| "fixed_allocate (Suc fuel) fa =
     (case allocate_turn fa of
        Inl e \<Rightarrow> Some (Inl e)
      | Inr (Some b, fa') \<Rightarrow> Some (Inr (b, fa'))
      | Inr (None, fa') \<Rightarrow> fixed_allocate fuel fa')"

definition fixed_deallocate :: "nat \<times> nat \<Rightarrow> fixed_allocator \<Rightarrow> fixed_allocator result" where
  "fixed_deallocate b fa =
     (case chunk_at (fst b) fa of
        None \<Rightarrow> Inl Undefined
      | Some ch \<Rightarrow> and_then (chunk_deallocate (snd b) ch) (\<lambda>ch'. Inr (chunk_put (fst b) ch' fa)))"

text \<open>\<open>Make_Shared\<close> and \<open>Make_Unique\<close> up to the constructor call; the deleter is \<open>fixed_deallocate\<close>.\<close>

definition Make_Shared :: "nat \<Rightarrow> nat \<Rightarrow> fixed_allocator \<Rightarrow> ((nat \<times> nat) \<times> fixed_allocator) result option" where
  "Make_Shared fuel sizeofType fa =
     (if sizeofType \<le> unat (fa_blockSize fa) then fixed_allocate fuel fa else Some (Inl Aborts))"

definition getTotleMemorySize :: "fixed_allocator \<Rightarrow> u64" where
  "getTotleMemorySize fa =
     word_of_nat (length (m_listChunks fa)) * fa_blockSize fa * ucast (m_numBlocks fa)"

definition getAvailableMemorySize :: "fixed_allocator \<Rightarrow> u64" where
  "getAvailableMemorySize fa =
     sum_list (map (\<lambda>(a, ch). fa_blockSize fa * ucast (m_availaBlockNum ch)) (m_listChunks fa))"

definition fixed_releaseFreeMemory :: "fixed_allocator \<Rightarrow> fixed_allocator" where
  "fixed_releaseFreeMemory fa =
     fa\<lparr>m_listChunks := filter (\<lambda>(a, ch).
       \<not> (m_availaBlockNum ch = m_numBlocks fa \<and> Some a \<noteq> m_ptrAllocChunk fa)) (m_listChunks fa)\<rparr>"

definition fixed_inv :: "fixed_allocator \<Rightarrow> (nat \<times> nat) set \<Rightarrow> bool" where
  "fixed_inv fa L \<longleftrightarrow>
     fa_blockSize fa \<noteq> 0 \<and> m_numBlocks fa \<noteq> 0 \<and>
     unat (fa_blockSize fa) * unat (m_numBlocks fa) \<le> 8192 \<and>
     distinct (map fst (m_listChunks fa)) \<and>
     (\<forall>(a, ch) \<in> set (m_listChunks fa). a < fa_heap fa \<and> m_blockNum ch = m_numBlocks fa \<and>
        chunk_inv_live ch {i. (a, i) \<in> L}) \<and>
     (\<forall>a. m_ptrAllocChunk fa = Some a \<longrightarrow> a \<in> fst ` set (m_listChunks fa)) \<and>
     (\<forall>(a, i) \<in> L. a \<in> fst ` set (m_listChunks fa))"

lemma unat_u64: "n < 2 ^ 64 \<Longrightarrow> unat (word_of_nat n :: u64) = n"
  by (simp add: unat_of_nat)

lemma FixedAllocator_ok:
  assumes "unat bs < 2 ^ 61"
  shows "(\<exists>fa. FixedAllocator bs = Inr fa) \<longleftrightarrow> 0 < unat bs \<and> unat bs \<le> 8192"
proof -
  have n: "ucast (ucast n :: byte) = n \<longleftrightarrow> unat n < 256" for n :: u64
    using unat_byte [of "ucast n"]
    by (auto simp: word_unat_eq_iff unsigned_ucast_eq unsigned_take_bit_eq take_bit_nat_eq_self_iff
        take_bit_nat_eq_self)
  have d: "unat (ALLOC_CHUNK_SIZE div bs) = 8192 div unat bs"
    by (simp add: ALLOC_CHUNK_SIZE_def unat_div_distrib)
  have m: "unat (8 * bs) = 8 * unat bs" using assms by (simp add: unat_word_ariths)
  have "ALLOC_CHUNK_SIZE div bs = 0 \<longleftrightarrow> unat bs = 0 \<or> 8192 < unat bs"
    using d by (auto simp: word_unat_eq_iff div_eq_0_iff)
  moreover have "ALLOC_CHUNK_SIZE div bs > 255 \<longleftrightarrow> 8192 div unat bs > 255"
    using d by (simp add: word_less_nat_alt)
  ultimately show ?thesis
    using m d by (auto simp: FixedAllocator_def Let_def n not_le unat_eq_zero simp del: word_unat_eq_iff)
qed

lemma FixedAllocator_numBlocks:
  assumes "FixedAllocator bs = Inr fa" "unat bs < 2 ^ 61"
  shows "fa_blockSize fa = bs \<and> m_numBlocks fa \<noteq> 0 \<and> unat bs * unat (m_numBlocks fa) \<le> 8192
    \<and> fixed_inv fa {}"
proof -
  have b: "0 < unat bs" "unat bs \<le> 8192" using FixedAllocator_ok [OF assms(2)] assms(1) by blast+
  define n where "n = (if ALLOC_CHUNK_SIZE div bs > 255 then 255 else ALLOC_CHUNK_SIZE div bs)"
  have d: "unat (ALLOC_CHUNK_SIZE div bs) = 8192 div unat bs"
    by (simp add: ALLOC_CHUNK_SIZE_def unat_div_distrib)
  then have nz: "ALLOC_CHUNK_SIZE div bs \<noteq> 0" using b by (auto simp: word_unat_eq_iff div_eq_0_iff)
  have le: "unat n \<le> 8192 div unat bs" "0 < unat n" "unat n < 256"
    using d nz by (auto simp: n_def word_less_nat_alt unat_gt_0)
  have fa: "fa = \<lparr>fa_blockSize = bs, m_numBlocks = ucast n, m_ptrAllocChunk = None, m_listChunks = [], fa_heap = 0\<rparr>"
    using assms(1) nz by (auto simp: FixedAllocator_def Let_def n_def split: if_splits)
  have u: "unat (ucast n :: byte) = unat n"
    using le(3) by (simp add: unsigned_ucast_eq take_bit_nat_eq_self)
  have "unat bs * unat n \<le> unat bs * (8192 div unat bs)" using le(1) by simp
  also have "\<dots> \<le> 8192" by simp
  finally have "unat bs * unat n \<le> 8192" .
  moreover have "(ucast n :: byte) \<noteq> 0" using u le(2) by (metis less_irrefl unat_0)
  ultimately show ?thesis using b u by (auto simp: fa fixed_inv_def)
qed

lemma fst_imageD: "a \<in> fst ` S \<Longrightarrow> \<exists>b. (a, b) \<in> S"
  by force

lemma fst_imageI: "(a, b) \<in> S \<Longrightarrow> a \<in> fst ` S"
  by force

lemma pick_chunk_spec:
  assumes "fixed_inv fa L"
  shows "\<exists>fa' a ch. pick_chunk fa = Inr fa' \<and> fixed_inv fa' L \<and> m_ptrAllocChunk fa' = Some a
    \<and> chunk_at a fa' = Some ch \<and> m_availaBlockNum ch \<noteq> 0"
proof (cases "find (\<lambda>(a, ch). m_availaBlockNum ch \<noteq> 0) (m_listChunks fa)")
  case (Some x)
  obtain a ch where x: "x = (a, ch)" by (cases x)
  then obtain i where "i < length (m_listChunks fa)" "(a, ch) = m_listChunks fa ! i" "m_availaBlockNum ch \<noteq> 0"
    using Some unfolding x find_Some_iff by auto
  then have m: "(a, ch) \<in> set (m_listChunks fa)" "m_availaBlockNum ch \<noteq> 0" by simp_all
  let ?fa = "fa\<lparr>m_ptrAllocChunk := Some a\<rparr>"
  have "pick_chunk fa = Inr ?fa" using Some x by (simp add: pick_chunk_def)
  moreover have "fixed_inv ?fa L" using assms fst_imageI [OF m(1)] by (simp add: fixed_inv_def)
  moreover have "chunk_at a ?fa = Some ch"
    using assms m(1) by (simp add: chunk_at_def fixed_inv_def)
  ultimately show ?thesis using m(2) by (intro exI [of _ ?fa] exI [of _ a] exI [of _ ch]) simp
next
  case None
  obtain ch where ch: "init (fa_blockSize fa) (m_numBlocks fa) ChunkLockFree = Inr ch"
    "m_blockNum ch = m_numBlocks fa" "m_availaBlockNum ch = m_numBlocks fa"
    using assms init_ok [of "fa_blockSize fa" "m_numBlocks fa" ChunkLockFree] by (auto simp: fixed_inv_def)
  let ?fa = "fa\<lparr>m_listChunks := m_listChunks fa @ [(fa_heap fa, ch)], m_ptrAllocChunk := Some (fa_heap fa),
    fa_heap := fa_heap fa + 1\<rparr>"
  have fresh: "fa_heap fa \<notin> fst ` set (m_listChunks fa)" using assms by (force simp: fixed_inv_def)
  then have "{i. (fa_heap fa, i) \<in> L} = {}" using assms by (force simp: fixed_inv_def)
  then have "chunk_inv_live ch {i. (fa_heap fa, i) \<in> L}"
    using init_rep [OF ch(1)] ch(2) unfolding chunk_inv_live_def
    by (intro exI [of _ "[0..<unat (m_numBlocks fa)]"]) auto
  then have "fixed_inv ?fa L"
    using assms fresh ch(2) unfolding fixed_inv_def by (fastforce simp: less_Suc_eq)
  moreover have "pick_chunk fa = Inr ?fa" using None ch(1) by (simp add: pick_chunk_def)
  moreover have "chunk_at (fa_heap fa) ?fa = Some ch"
    using map_of_eq_None_iff [THEN iffD2, OF fresh] by (simp add: chunk_at_def map_add_def)
  ultimately show ?thesis
    using ch(3) assms by (intro exI [of _ ?fa] exI [of _ "fa_heap fa"] exI [of _ ch]) (simp add: fixed_inv_def)
qed

lemma current_chunk_spec:
  assumes "fixed_inv fa L"
  shows "\<exists>fa' a ch. current_chunk fa = Inr fa' \<and> fixed_inv fa' L \<and> m_ptrAllocChunk fa' = Some a
    \<and> chunk_at a fa' = Some ch \<and> m_availaBlockNum ch \<noteq> 0"
proof (cases "m_ptrAllocChunk fa")
  case None
  then show ?thesis using pick_chunk_spec [OF assms] by (simp add: current_chunk_def)
next
  case (Some a)
  then have "a \<in> fst ` set (m_listChunks fa)" using assms by (simp add: fixed_inv_def)
  then obtain ch where ch: "chunk_at a fa = Some ch"
    unfolding chunk_at_def by (metis map_of_eq_None_iff not_None_eq)
  show ?thesis
  proof (cases "m_availaBlockNum ch = 0")
    case True
    then show ?thesis using pick_chunk_spec [OF assms] Some ch by (simp add: current_chunk_def)
  next
    case False
    then show ?thesis using assms Some ch by (simp add: current_chunk_def)
  qed
qed

lemma chunk_put_inv:
  assumes "fixed_inv fa L" "chunk_at a fa = Some ch" "m_blockNum ch' = m_blockNum ch"
    and "chunk_inv_live ch' {i. (a, i) \<in> L'}" "\<forall>b. fst b \<noteq> a \<longrightarrow> (b \<in> L') = (b \<in> L)"
  shows "fixed_inv (chunk_put a ch' fa) L'"
proof -
  define m where "m = map (\<lambda>(a', c). if a' = a then (a', ch') else (a', c)) (m_listChunks fa)"
  have a: "(a, ch) \<in> set (m_listChunks fa)" using assms(2) by (simp add: chunk_at_def map_of_SomeD)
  have k: "map fst m = map fst (m_listChunks fa)" unfolding m_def by (induction "m_listChunks fa") auto
  have ks: "fst ` set m = fst ` set (m_listChunks fa)" using k by (metis list.set_map)
  have "a' < fa_heap fa \<and> m_blockNum c = m_numBlocks fa \<and> chunk_inv_live c {i. (a', i) \<in> L'}"
    if "(a', c) \<in> set m" for a' c
  proof (cases "a' = a")
    case True
    then have "c = ch'" using that by (auto simp: m_def split: if_splits)
    then show ?thesis using assms(1,3,4) a True by (auto simp: fixed_inv_def)
  next
    case False
    then have "(a', c) \<in> set (m_listChunks fa)" using that by (auto simp: m_def split: if_splits)
    moreover have "{i. (a', i) \<in> L'} = {i. (a', i) \<in> L}" using assms(5) False by auto
    ultimately show ?thesis using assms(1) by (auto simp: fixed_inv_def)
  qed
  moreover have "b \<in> fst ` set (m_listChunks fa)" if "(b, i) \<in> L'" for b i
  proof (cases "b = a")
    case True
    then show ?thesis using a by force
  next
    case False
    then have "(b, i) \<in> L" using assms(5) that by (metis fst_conv)
    then show ?thesis using assms(1) by (auto simp: fixed_inv_def)
  qed
  ultimately show ?thesis
    using assms(1) k ks unfolding fixed_inv_def by (simp add: chunk_put_def m_def [symmetric]) blast
qed

lemma fixed_allocate_spec:
  assumes "fixed_inv fa L"
  shows "\<exists>b fa'. fixed_allocate (Suc fuel) fa = Some (Inr (b, fa')) \<and> b \<notin> L \<and> fixed_inv fa' (insert b L)"
proof -
  obtain fa1 a ch where 1: "current_chunk fa = Inr fa1" "fixed_inv fa1 L" "m_ptrAllocChunk fa1 = Some a"
    "chunk_at a fa1 = Some ch" "m_availaBlockNum ch \<noteq> 0"
    using current_chunk_spec [OF assms] by blast
  have "(a, ch) \<in> set (m_listChunks fa1)" using 1(4) by (simp add: chunk_at_def map_of_SomeD)
  then have l: "chunk_inv_live ch {i. (a, i) \<in> L}" using 1(2) by (auto simp: fixed_inv_def)
  then obtain fl where fl: "chunk_rep ch fl" by (auto simp: chunk_inv_live_def)
  have "fl \<noteq> []" using fl 1(5) by (auto simp: chunk_rep_def unat_eq_0)
  then obtain i ch' where al: "chunk_allocate ch = Inr (Some i, ch')" "m_blockNum ch' = m_blockNum ch"
    using chunk_allocate_rep [OF fl] by (cases fl) auto
  have n: "i \<notin> {i. (a, i) \<in> L}" "chunk_inv_live ch' (insert i {i. (a, i) \<in> L})"
    using chunk_pool.alloc_new [OF l al(1)] by simp_all
  have "{j. (a, j) \<in> insert (a, i) L} = insert i {i. (a, i) \<in> L}" by auto
  then have "fixed_inv (chunk_put a ch' fa1) (insert (a, i) L)"
    using n(2) by (intro chunk_put_inv [OF 1(2,4) al(2)]) auto
  moreover have "allocate_turn fa = Inr (Some (a, i), chunk_put a ch' fa1)"
    using 1 al(1) by (simp add: allocate_turn_def)
  ultimately show ?thesis using n(1) by (intro exI [of _ "(a, i)"] exI [of _ "chunk_put a ch' fa1"]) simp
qed

lemma fixed_deallocate_spec:
  assumes "fixed_inv fa L" "b \<in> L"
  shows "\<exists>fa'. fixed_deallocate b fa = Inr fa' \<and> fixed_inv fa' (L - {b})"
proof -
  obtain a i where b: "b = (a, i)" by (cases b)
  have "a \<in> fst ` set (m_listChunks fa)" using assms b by (auto simp: fixed_inv_def)
  then obtain ch where ch: "chunk_at a fa = Some ch"
    unfolding chunk_at_def by (metis map_of_eq_None_iff not_None_eq)
  then have l: "chunk_inv_live ch {i. (a, i) \<in> L}"
    using assms(1) by (auto simp: fixed_inv_def chunk_at_def dest!: map_of_SomeD)
  then obtain fl where fl: "chunk_rep ch fl" "set fl \<inter> {i. (a, i) \<in> L} = {}" "set fl \<union> {i. (a, i) \<in> L} = {..<unat (m_blockNum ch)}"
    by (auto simp: chunk_inv_live_def)
  have i: "i < unat (m_blockNum ch)" "i \<notin> set fl" using fl(2,3) assms(2) b by auto
  obtain ch' where d: "chunk_deallocate i ch = Inr ch'" "m_blockNum ch' = m_blockNum ch"
    using chunk_deallocate_rep [OF fl(1) i] by blast
  have "chunk_inv_live ch' ({i. (a, i) \<in> L} - {i})"
    using chunk_pool.dealloc_used [OF l, of i] d(1) assms(2) b by auto
  moreover have "{j. (a, j) \<in> L - {b}} = {i. (a, i) \<in> L} - {i}" using b by auto
  ultimately have "fixed_inv (chunk_put a ch' fa) (L - {b})"
    using b by (intro chunk_put_inv [OF assms(1) ch d(2)]) auto
  then show ?thesis using b ch d(1) by (simp add: fixed_deallocate_def)
qed

definition fixed_take :: "fixed_allocator \<Rightarrow> ((nat \<times> nat) option \<times> fixed_allocator) result" where
  "fixed_take fa = (case fixed_allocate 1 fa of
     None \<Rightarrow> Inr (None, fa) | Some r \<Rightarrow> and_then r (\<lambda>(b, fa'). Inr (Some b, fa')))"

text \<open>The owner of a block writes into it.\<close>

definition fixed_write :: "nat \<times> nat \<Rightarrow> byte \<Rightarrow> fixed_allocator \<Rightarrow> fixed_allocator" where
  "fixed_write b v fa = (case chunk_at (fst b) fa of
     None \<Rightarrow> fa | Some ch \<Rightarrow> chunk_put (fst b) (user_write (snd b) v ch) fa)"

lemma fixed_write_spec:
  assumes "fixed_inv fa L" "b \<in> L"
  shows "fixed_inv (fixed_write b v fa) L"
proof (cases "chunk_at (fst b) fa")
  case None
  then show ?thesis using assms(1) by (simp add: fixed_write_def)
next
  case (Some ch)
  then have l: "chunk_inv_live ch {i. (fst b, i) \<in> L}"
    using assms(1) by (auto simp: fixed_inv_def chunk_at_def dest!: map_of_SomeD)
  have "snd b \<in> {i. (fst b, i) \<in> L}" using assms(2) by simp
  from chunk_pool.write_used [OF l this, of v] have
    "chunk_inv_live (user_write (snd b) v ch) {i. (fst b, i) \<in> L}" .
  then have "fixed_inv (chunk_put (fst b) (user_write (snd b) v ch) fa) L"
    by (intro chunk_put_inv [OF assms(1) Some]) (simp_all add: user_write_def)
  then show ?thesis using Some by (simp add: fixed_write_def)
qed

interpretation fixed_pool: block_pool fixed_inv fixed_take fixed_deallocate fixed_write
proof
  fix fa fa' :: fixed_allocator and L b v
  assume i: "fixed_inv fa L"
  from fixed_allocate_spec [OF i, of 0] obtain c f where
    a: "fixed_take fa = Inr (Some c, f)" "c \<notin> L" "fixed_inv f (insert c L)"
    by (auto simp: fixed_take_def simp del: fixed_allocate.simps)
  show "\<exists>r s'. fixed_take fa = Inr (r, s')" using a(1) by blast
  show "fixed_take fa = Inr (Some b, fa') \<Longrightarrow> b \<notin> L \<and> fixed_inv fa' (insert b L)" using a by simp
  show "fixed_take fa = Inr (None, fa') \<Longrightarrow> fixed_inv fa' L" using a by simp
  show "b \<in> L \<Longrightarrow> \<exists>s'. fixed_deallocate b fa = Inr s' \<and> fixed_inv s' (L - {b})"
    by (rule fixed_deallocate_spec [OF i])
  show "b \<in> L \<Longrightarrow> fixed_inv (fixed_write b v fa) L" by (rule fixed_write_spec [OF i])
qed

lemma releaseFree_inv:
  assumes "fixed_inv fa L"
  shows "fixed_inv (fixed_releaseFreeMemory fa) L"
proof -
  let ?P = "\<lambda>(a, ch). \<not> (m_availaBlockNum ch = m_numBlocks fa \<and> Some a \<noteq> m_ptrAllocChunk fa)"
  have keep: "a \<in> fst ` set (filter ?P (m_listChunks fa))" if "(a, i) \<in> L" for a i
  proof -
    have "a \<in> fst ` set (m_listChunks fa)" using assms \<open>(a, i) \<in> L\<close> by (auto simp: fixed_inv_def)
    from fst_imageD [OF this] obtain ch where ch: "(a, ch) \<in> set (m_listChunks fa)" ..
    then have bn: "m_blockNum ch = m_numBlocks fa" "chunk_inv_live ch {i. (a, i) \<in> L}"
      using assms by (auto simp: fixed_inv_def)
    then obtain fl where fl: "chunk_rep ch fl" "set fl \<inter> {i. (a, i) \<in> L} = {}" "set fl \<union> {i. (a, i) \<in> L} = {..<unat (m_blockNum ch)}"
      by (auto simp: chunk_inv_live_def)
    have "set fl \<subset> {..<unat (m_blockNum ch)}" using fl(2,3) that by blast
    then have "card (set fl) < unat (m_blockNum ch)" by (metis card_lessThan finite_lessThan psubset_card_mono)
    then have "length fl \<noteq> unat (m_blockNum ch)" using fl(1) by (simp add: chunk_rep_def distinct_card)
    then have "m_availaBlockNum ch \<noteq> m_numBlocks fa" using fl(1) bn(1) by (auto simp: chunk_rep_def)
    then have "(a, ch) \<in> set (filter ?P (m_listChunks fa))" using ch by simp
    then show ?thesis by (rule fst_imageI)
  qed
  have cur: "a \<in> fst ` set (filter ?P (m_listChunks fa))" if "m_ptrAllocChunk fa = Some a" for a
  proof -
    have "a \<in> fst ` set (m_listChunks fa)" using assms that by (simp add: fixed_inv_def)
    from fst_imageD [OF this] obtain ch where "(a, ch) \<in> set (m_listChunks fa)" ..
    then have "(a, ch) \<in> set (filter ?P (m_listChunks fa))" using that by simp
    then show ?thesis by (rule fst_imageI)
  qed
  have "distinct (map fst (filter ?P (m_listChunks fa)))" using assms by (simp add: fixed_inv_def distinct_map_filter)
  moreover define m where "m = filter ?P (m_listChunks fa)"
  have "\<forall>x \<in> set m. x \<in> set (m_listChunks fa)" by (simp add: m_def)
  moreover have "fixed_releaseFreeMemory fa = fa\<lparr>m_listChunks := m\<rparr>" by (simp add: fixed_releaseFreeMemory_def m_def)
  ultimately show ?thesis
    using assms keep cur unfolding fixed_inv_def m_def [symmetric] by (simp, blast)
qed

text \<open>
  A fixed allocator can be built exactly for block sizes from 1 to 8192 bytes (above, the
  narrowing of the block count trips its assertion, until \<open>8 * blockSize\<close> wraps around at
  \<open>2 ^ 61\<close>); its chunks then hold between 1 and 255
  blocks and no more than 8192 bytes. From then on every request is served in the first turn
  of the loop with a block that nobody holds, whatever the holders write, returns succeed,
  and releasing free chunks takes away no block in use.
\<close>

theorem fixed_allocator_serves:
  assumes "unat bs < 2 ^ 61"
  shows "((\<exists>fa. FixedAllocator bs = Inr fa) \<longleftrightarrow> 0 < unat bs \<and> unat bs \<le> 8192) \<and>
    (\<forall>fa. FixedAllocator bs = Inr fa \<longrightarrow>
      unat bs * unat (m_numBlocks fa) \<le> 8192 \<and> 0 < unat (m_numBlocks fa) \<and>
      (\<exists>fa' held. pool_run fixed_take fixed_deallocate fixed_write ops fa [] = Inr (fa', held) \<and> distinct held
        \<and> (\<exists>b fa2. fixed_allocate (Suc fuel) (fixed_releaseFreeMemory fa') = Some (Inr (b, fa2)) \<and> b \<notin> set held)))"
proof (intro conjI allI impI)
  show "(\<exists>fa. FixedAllocator bs = Inr fa) \<longleftrightarrow> 0 < unat bs \<and> unat bs \<le> 8192"
    by (rule FixedAllocator_ok [OF assms])
  fix fa assume "FixedAllocator bs = Inr fa"
  note f = FixedAllocator_numBlocks [OF this assms]
  then show "unat bs * unat (m_numBlocks fa) \<le> 8192" "0 < unat (m_numBlocks fa)"
    by (simp_all add: unat_gt_0)
  have "fixed_inv fa (set [])" using f by simp
  from fixed_pool.pool_run_safe [OF this, of ops] obtain fa' held where
    r: "pool_run fixed_take fixed_deallocate fixed_write ops fa [] = Inr (fa', held)" "fixed_inv fa' (set held)" "distinct held"
    by auto
  with fixed_allocate_spec [OF releaseFree_inv [OF r(2)], of fuel]
  show "\<exists>fa' held. pool_run fixed_take fixed_deallocate fixed_write ops fa [] = Inr (fa', held) \<and> distinct held
        \<and> (\<exists>b fa2. fixed_allocate (Suc fuel) (fixed_releaseFreeMemory fa') = Some (Inr (b, fa2)) \<and> b \<notin> set held)"
    by (auto simp del: fixed_allocate.simps)
qed

theorem fixed_allocator_serves_witness:
  "\<exists>fa fa' held. FixedAllocator 16 = Inr fa
    \<and> pool_run fixed_take fixed_deallocate fixed_write [Take, Take, Use 1 7, Give 0] fa [] = Inr (fa', held)
    \<and> distinct held"
proof -
  have "0 < unat (16::u64) \<and> unat (16::u64) \<le> 8192" "unat (16::u64) < 2 ^ 61" by simp_all
  then show ?thesis using fixed_allocator_serves [of 16 "[Take, Take, Use 1 7, Give 0]"] by blast
qed

subsection \<open>SmallAllocator\<close>

definition MAX_OBJECT_SIZE :: nat where "MAX_OBJECT_SIZE = 1024"
definition StepSize :: nat where "StepSize = 8"
definition MaxIndex :: nat where "MaxIndex = MAX_OBJECT_SIZE div StepSize"

record small_allocator =
  sa_ulExpireTime :: u32
  sa_usMaxFreeCacheSize :: u32
  m_vecPool :: "fixed_allocator list"
  m_mapPool :: "(nat \<times> fixed_allocator) list"
  sa_timeLast :: "int option"

fun build_pool :: "nat list \<Rightarrow> fixed_allocator list result" where
  "build_pool [] = Inr []"
| "build_pool (i # is) =
     and_then (FixedAllocator (word_of_nat (i * StepSize))) (\<lambda>fa. and_then (build_pool is) (\<lambda>fas. Inr (fa # fas)))"

definition SmallAllocator :: "u32 \<Rightarrow> u32 \<Rightarrow> small_allocator result" where
  "SmallAllocator ulExpiredTime ulMaxCache =
     (if MAX_OBJECT_SIZE mod StepSize \<noteq> 0 then Inl Aborts
      else and_then (build_pool [1..<Suc MaxIndex]) (\<lambda>v.
        Inr \<lparr>sa_ulExpireTime = ulExpiredTime, sa_usMaxFreeCacheSize = ulMaxCache * 1024 * 1024, m_vecPool = v,
             m_mapPool = [], sa_timeLast = None\<rparr>))"

definition allocIndex :: "nat \<Rightarrow> nat" where
  "allocIndex sizeofType = (sizeofType + StepSize - 1) div StepSize - 1"

definition allocSize :: "nat \<Rightarrow> nat" where
  "allocSize sizeofType = (sizeofType + StepSize - 1) div StepSize * StepSize"

text \<open>Where an allocator lives: in the vector, or in the map for big objects.\<close>

definition getBigFixAllocator :: "nat \<Rightarrow> small_allocator \<Rightarrow> (fixed_allocator \<times> small_allocator) result" where
  "getBigFixAllocator n sa =
     (case map_of (m_mapPool sa) n of
        Some fa \<Rightarrow> Inr (fa, sa)
      | None \<Rightarrow> and_then (FixedAllocator (word_of_nat n)) (\<lambda>fa. Inr (fa, sa\<lparr>m_mapPool := (n, fa) # m_mapPool sa\<rparr>)))"

definition small_Make_Shared ::
    "nat \<Rightarrow> nat \<Rightarrow> small_allocator \<Rightarrow> ((nat \<times> nat) \<times> small_allocator) result option" where
  "small_Make_Shared fuel sizeofType sa =
     (if sizeofType \<le> MAX_OBJECT_SIZE then
        (let k = allocIndex sizeofType
         in if k < length (m_vecPool sa) then
              map_option (\<lambda>r. and_then r (\<lambda>(b, fa'). Inr (b, sa\<lparr>m_vecPool := (m_vecPool sa)[k := fa']\<rparr>)))
                (Make_Shared fuel sizeofType (m_vecPool sa ! k))
            else Some (Inl Undefined))
      else
        (case getBigFixAllocator (allocSize sizeofType) sa of
           Inl e \<Rightarrow> Some (Inl e)
         | Inr (fa, sa') \<Rightarrow>
             map_option (\<lambda>r. and_then r (\<lambda>(b, fa').
               Inr (b, sa'\<lparr>m_mapPool := map (\<lambda>(n, f). if n = allocSize sizeofType then (n, fa') else (n, f)) (m_mapPool sa')\<rparr>)))
             (Make_Shared fuel sizeofType fa)))"

definition small_getAvailableMemoryInfo :: "small_allocator \<Rightarrow> u64 \<times> u64" where
  "small_getAvailableMemoryInfo sa =
     (let fas = m_vecPool sa @ map snd (m_mapPool sa)
      in (sum_list (map getAvailableMemorySize fas), sum_list (map getTotleMemorySize fas)))"

definition small_releaseFreeMemory :: "small_allocator \<Rightarrow> small_allocator" where
  "small_releaseFreeMemory sa =
     sa\<lparr>m_vecPool := map fixed_releaseFreeMemory (m_vecPool sa),
        m_mapPool := map (\<lambda>(n, fa). (n, fixed_releaseFreeMemory fa)) (m_mapPool sa)\<rparr>"

definition small_onTimer :: "int \<Rightarrow> small_allocator \<Rightarrow> small_allocator" where
  "small_onTimer framTime sa =
     (let lst = (case sa_timeLast sa of None \<Rightarrow> framTime | Some t \<Rightarrow> t);
          sa = sa\<lparr>sa_timeLast := Some lst\<rparr>
      in if framTime - lst \<ge> uint (sa_ulExpireTime sa * 60)
         then (if unat (fst (small_getAvailableMemoryInfo sa)) > unat (sa_usMaxFreeCacheSize sa)
               then small_releaseFreeMemory sa else sa)\<lparr>sa_timeLast := Some framTime\<rparr>
         else sa)"

lemma build_pool_ok:
  "\<forall>i \<in> set is. 0 < i \<and> i * StepSize \<le> 8192 \<Longrightarrow>
    \<exists>fas. build_pool is = Inr fas \<and> length fas = length is
      \<and> (\<forall>k < length is. FixedAllocator (word_of_nat (is ! k * StepSize)) = Inr (fas ! k))"
proof (induction "is")
  case Nil
  then show ?case by simp
next
  case (Cons i "is")
  obtain fa where fa: "FixedAllocator (word_of_nat (i * StepSize)) = Inr fa"
    using FixedAllocator_ok [of "word_of_nat (i * StepSize)"] Cons.prems unat_u64 [of "i * StepSize"]
    by (auto simp: StepSize_def simp del: of_nat_mult)
  obtain fas where "build_pool is = Inr fas" "length fas = length is"
    "\<forall>k < length is. FixedAllocator (word_of_nat (is ! k * StepSize)) = Inr (fas ! k)"
    using Cons by auto
  then show ?case using fa by (intro exI [of _ "fa # fas"]) (auto simp: nth_Cons split: nat.split)
qed

text \<open>
  The small allocator builds all of its 128 pools, and an object of any size from 1 to 1024
  bytes is served by the pool whose blocks hold it with less than eight bytes to spare, in a
  block nobody else has; a big object's pool size holds it in the same way.
\<close>

theorem small_allocator_fits:
  assumes "0 < sz" "sz \<le> 1024" "SmallAllocator e mx = Inr sa"
  shows "\<exists>fa. allocIndex sz < length (m_vecPool sa) \<and> m_vecPool sa ! allocIndex sz = fa
    \<and> sz \<le> unat (fa_blockSize fa) \<and> unat (fa_blockSize fa) < sz + 8 \<and> fixed_inv fa {}
    \<and> (\<exists>b sa'. small_Make_Shared (Suc fuel) sz sa = Some (Inr (b, sa')))"
proof -
  have "\<forall>i \<in> set [1..<Suc MaxIndex]. 0 < i \<and> i * StepSize \<le> 8192"
    by (auto simp: MaxIndex_def MAX_OBJECT_SIZE_def StepSize_def)
  from build_pool_ok [OF this] obtain fas where fas: "build_pool [1..<Suc MaxIndex] = Inr fas"
    "length fas = MaxIndex" "\<forall>k < MaxIndex. FixedAllocator (word_of_nat ([1..<Suc MaxIndex] ! k * StepSize)) = Inr (fas ! k)"
    by (auto simp del: upt_Suc)
  have v: "m_vecPool sa = fas" using assms(3) fas(1) by (auto simp: SmallAllocator_def split: if_splits simp del: upt_Suc)
  let ?k = "allocIndex sz"
  have k: "?k < MaxIndex" "(?k + 1) * StepSize < sz + 8" "sz \<le> (?k + 1) * StepSize"
    using assms(1,2) by (simp_all add: allocIndex_def MaxIndex_def MAX_OBJECT_SIZE_def StepSize_def)
  have "[1..<Suc MaxIndex] ! ?k = ?k + 1" using k(1) by (simp del: upt_Suc)
  then have fa: "FixedAllocator (word_of_nat ((?k + 1) * StepSize)) = Inr (fas ! ?k)" using fas(3) k(1) by fastforce
  have u: "unat (word_of_nat ((?k + 1) * StepSize) :: u64) = (?k + 1) * StepSize"
    using k(2) assms(2) by (intro unat_u64) simp
  note f = FixedAllocator_numBlocks [OF fa]
  have f: "fa_blockSize (fas ! ?k) = word_of_nat ((?k + 1) * StepSize)" "fixed_inv (fas ! ?k) {}"
    using f u k(2) assms(2) by (simp_all del: of_nat_mult of_nat_add)
  have "\<exists>b fa'. fixed_allocate (Suc fuel) (fas ! ?k) = Some (Inr (b, fa'))"
    using fixed_allocate_spec f by blast
  then have "\<exists>b sa'. small_Make_Shared (Suc fuel) sz sa = Some (Inr (b, sa'))"
    using assms(2) k f u v fas(2)
    by (auto simp: small_Make_Shared_def MAX_OBJECT_SIZE_def Make_Shared_def Let_def
        simp del: fixed_allocate.simps of_nat_mult of_nat_add)
  then show ?thesis using k f u v fas(2) by (auto simp del: of_nat_mult of_nat_add)
qed

theorem small_allocator_fits_witness:
  "\<exists>sa fa. SmallAllocator 60 512 = Inr sa \<and> m_vecPool sa ! allocIndex 20 = fa \<and> 20 \<le> unat (fa_blockSize fa)"
proof -
  have "\<forall>i \<in> set [1..<Suc MaxIndex]. 0 < i \<and> i * StepSize \<le> 8192"
    by (auto simp: MaxIndex_def MAX_OBJECT_SIZE_def StepSize_def)
  from build_pool_ok [OF this] obtain sa where sa: "SmallAllocator 60 512 = Inr sa"
    by (auto simp: SmallAllocator_def MAX_OBJECT_SIZE_def StepSize_def simp del: upt_Suc)
  then show ?thesis using small_allocator_fits [of 20 60 512 sa] by auto
qed

end
