(* ===== verification/ThreadPool.thy ===== *)
theory ThreadPool
  imports Prelude "HOL-Library.Multiset"
begin

text \<open>
  The thread pool (src/code/common/include/util/CThreadpool.h,
  src/code/common/source/util/CThreadpool.cpp) as a transition system. The pool's mutex protects
  the queue and the thread map, so each critical section is one step; a worker's program counter
  says where between them it is. Waiting on the condition variable is a location that a
  notification, the end of the time limit or a spurious wakeup leaves. Which worker moves, why a
  wait ends and whether the idle time has passed are choices of the environment.
\<close>

subsection \<open>State\<close>

datatype emPoolMode = MODE_FIXED | MODE_CACHED

text \<open>
  Where a worker is: before the test of the running flag; about to take the mutex; in the
  one-second wait of the cached mode; notified there but without the mutex; in the five-second
  wait; running a task; past the loop; between the decrements of the two counters; out of the
  counters but still in the map; out of the map but before its last \<open>notify_all\<close>; gone.
\<close>

datatype 't loc =
  L_top | L_lock | L_wait1 | L_woken1 | L_wait2 | L_run 't | L_exit | L_sub
  | L_erase | L_notify | L_gone

text \<open>
  Where the destructor is: not called; past the store of \<open>stop\<close>; waiting for the map to empty;
  done, with the pool's members, the condition variable among them, destroyed.
\<close>

datatype stop_loc = S_none | S_flag | S_wait | S_destroyed

record 't thread_pool =
  m_poolMode :: emPoolMode
  m_usThreadSize :: u16
  m_ulTaskqueMaxSize :: u32
  m_usMaxTreadSize :: u16
  m_usCurThreadSize :: u16
  m_usIdleThreadSize :: u16
  m_queueTask :: "'t list"
  m_mapThreads :: "nat set"
  m_isPoolRunning :: bool
  locs :: "'t loc list"
  accepted :: "'t list"
  started :: "'t list"
  finished :: "'t list"
  stop_at :: stop_loc

text \<open>
  A new worker's id is the number of threads created before it. Its counters are incremented
  after its thread starts; the caller holds the mutex, or is the constructor with an empty queue,
  so no step of the worker can tell.
\<close>

definition createThreadInner :: "'t thread_pool \<Rightarrow> 't thread_pool" where
  "createThreadInner s =
     s\<lparr>m_mapThreads := insert (length (locs s)) (m_mapThreads s), locs := locs s @ [L_top],
       m_usCurThreadSize := m_usCurThreadSize s + 1, m_usIdleThreadSize := m_usIdleThreadSize s + 1\<rparr>"

definition start :: "'t thread_pool \<Rightarrow> 't thread_pool" where
  "start s = (createThreadInner ^^ unat (m_usThreadSize s)) (s\<lparr>m_isPoolRunning := True\<rparr>)"

text \<open>The constructor; \<open>hw\<close> is \<open>hardware_concurrency()\<close>, taken when the size given is zero.\<close>

definition ThreadPool :: "u16 \<Rightarrow> emPoolMode \<Rightarrow> u16 \<Rightarrow> u32 \<Rightarrow> u16 \<Rightarrow> 't thread_pool" where
  "ThreadPool hw mode treadSize ulMaxTaskSize usMaxThreadSize =
     start \<lparr>m_poolMode = mode, m_usThreadSize = (if treadSize = 0 then hw else treadSize),
       m_ulTaskqueMaxSize = ulMaxTaskSize, m_usMaxTreadSize = usMaxThreadSize,
       m_usCurThreadSize = 0, m_usIdleThreadSize = 0, m_queueTask = [], m_mapThreads = {},
       m_isPoolRunning = False, locs = [], accepted = [], started = [], finished = [],
       stop_at = S_none\<rparr>"

subsection \<open>Steps\<close>

text \<open>
  \<open>notify_all\<close>: a worker in the five-second wait goes back to the loop. One in the one-second
  wait of the cached mode is awake but without the mutex; its time limit may have ended before the
  notification, so the end of the wait is again a choice of the environment.
\<close>

fun notified :: "'t loc \<Rightarrow> 't loc" where
  "notified L_wait1 = L_woken1"
| "notified L_wait2 = L_top"
| "notified l = l"

definition notify_all :: "'t thread_pool \<Rightarrow> 't thread_pool" where
  "notify_all s = s\<lparr>locs := map notified (locs s)\<rparr>"

text \<open>
  \<open>submit\<close>, past its wait for room of at most a second: \<open>None\<close> in the result is the
  \<open>runtime_error\<close> of a queue that stayed full.
\<close>

definition submit :: "'t \<Rightarrow> 't thread_pool \<Rightarrow> 't thread_pool result" where
  "submit t s =
     (if \<not> length (m_queueTask s) < unat (m_ulTaskqueMaxSize s)
      then Inl (Throws (Std_runtime_error ''task queue is full!''))
      else
        let s = s\<lparr>m_queueTask := m_queueTask s @ [t], accepted := accepted s @ [t]\<rparr>;
            s = (if m_poolMode s = MODE_CACHED \<and>
                    unat (m_usIdleThreadSize s) < length (m_queueTask s) \<and>
                    m_usCurThreadSize s < m_usMaxTreadSize s
                 then createThreadInner s else s)
        in Inr (notify_all s))"

definition goto :: "nat \<Rightarrow> 't loc \<Rightarrow> 't thread_pool \<Rightarrow> 't thread_pool" where
  "goto i l s = s\<lparr>locs := (locs s)[i := l]\<rparr>"

text \<open>
  A step of worker \<open>i\<close>. \<open>timeout\<close> says that the time limit of the one-second wait has ended,
  where a wait may also end with a spurious wakeup; \<open>expired\<close> that the worker has been idle for
  \<open>m_usMaxIdleTime\<close>.
\<close>

definition after_wait1 :: "bool \<Rightarrow> bool \<Rightarrow> 't thread_pool \<Rightarrow> 't loc" where
  "after_wait1 timeout expired s =
     (if timeout \<and> m_usThreadSize s < m_usCurThreadSize s then if expired then L_exit else L_top
      else L_wait2)"

definition threadFunc :: "bool \<Rightarrow> bool \<Rightarrow> nat \<Rightarrow> 't thread_pool \<Rightarrow> 't thread_pool option" where
  "threadFunc timeout expired i s =
     (if length (locs s) \<le> i then None else
      case locs s ! i of
        L_top \<Rightarrow> Some (goto i (if m_isPoolRunning s then L_lock else L_exit) s)
      | L_lock \<Rightarrow>
          (case m_queueTask s of
             [] \<Rightarrow> Some (goto i (if m_poolMode s = MODE_CACHED then L_wait1 else L_wait2) s)
           | t # q \<Rightarrow> Some (goto i (L_run t) (s\<lparr>m_usIdleThreadSize := m_usIdleThreadSize s - 1,
                 m_queueTask := q, started := started s @ [t]\<rparr>)))
      | L_wait1 \<Rightarrow> Some (goto i (after_wait1 timeout expired s) s)
      | L_woken1 \<Rightarrow> Some (goto i (after_wait1 timeout expired s) s)
      | L_wait2 \<Rightarrow> Some (goto i L_top s)
      | L_run t \<Rightarrow> Some (goto i L_top (s\<lparr>finished := finished s @ [t],
            m_usIdleThreadSize := m_usIdleThreadSize s + 1\<rparr>))
      | L_exit \<Rightarrow> Some (goto i L_sub (s\<lparr>m_usCurThreadSize := m_usCurThreadSize s - 1\<rparr>))
      | L_sub \<Rightarrow> Some (goto i L_erase (s\<lparr>m_usIdleThreadSize := m_usIdleThreadSize s - 1\<rparr>))
      | L_erase \<Rightarrow> Some (goto i L_notify (s\<lparr>m_mapThreads := m_mapThreads s - {i}\<rparr>))
      | L_notify \<Rightarrow> Some (goto i L_gone (notify_all s))
      | L_gone \<Rightarrow> None)"

text \<open>
  \<open>stop\<close>, called by the destructor, in the order of its three effects: it clears the flag,
  takes the mutex and notifies, and returns once the map is empty.
\<close>

definition stop_store :: "'t thread_pool \<Rightarrow> 't thread_pool" where
  "stop_store s = s\<lparr>m_isPoolRunning := False, stop_at := S_flag\<rparr>"

definition stop_notify :: "'t thread_pool \<Rightarrow> 't thread_pool" where
  "stop_notify s = notify_all (s\<lparr>stop_at := S_wait\<rparr>)"

definition stop_return :: "'t thread_pool \<Rightarrow> 't thread_pool option" where
  "stop_return s =
     (if stop_at s = S_wait \<and> m_mapThreads s = {} then Some (s\<lparr>stop_at := S_destroyed\<rparr>) else None)"

text \<open>No client calls \<open>submit\<close> on a pool being destroyed.\<close>

inductive pool_step :: "'t thread_pool \<Rightarrow> 't thread_pool \<Rightarrow> bool" where
  p_submit: "submit t s = Inr s' \<Longrightarrow> stop_at s = S_none \<Longrightarrow> pool_step s s'"
| p_worker: "threadFunc timeout expired i s = Some s' \<Longrightarrow> pool_step s s'"
| p_stop: "stop_at s = S_none \<Longrightarrow> pool_step s (stop_store s)"
| p_notify: "stop_at s = S_flag \<Longrightarrow> pool_step s (stop_notify s)"
| p_stopped: "stop_return s = Some s' \<Longrightarrow> pool_step s s'"

inductive pool_steps :: "'t thread_pool \<Rightarrow> 't thread_pool \<Rightarrow> bool" where
  ps_refl: "pool_steps s s"
| ps_step: "pool_steps s s' \<Longrightarrow> pool_step s' s'' \<Longrightarrow> pool_steps s s''"

inductive_cases pool_stepE: "pool_step s s'"

definition pool_reachable :: "'t thread_pool \<Rightarrow> bool" where
  "pool_reachable s \<longleftrightarrow>
     (\<exists>hw mode n q m. pool_steps (ThreadPool hw mode n q m) s)"

subsection \<open>Invariant\<close>

fun live :: "'t loc \<Rightarrow> nat" where
  "live L_sub = 0" | "live L_erase = 0" | "live L_notify = 0" | "live L_gone = 0" | "live _ = 1"

fun idle :: "'t loc \<Rightarrow> nat" where
  "idle (L_run _) = 0" | "idle L_sub = 1" | "idle l = live l"

fun task_of :: "'t loc \<Rightarrow> 't multiset" where
  "task_of (L_run t) = {#t#}" | "task_of _ = {#}"

fun in_map :: "'t loc \<Rightarrow> bool" where
  "in_map L_notify = False" | "in_map L_gone = False" | "in_map _ = True"

definition total_over :: "('t loc \<Rightarrow> 'a::comm_monoid_add) \<Rightarrow> 't thread_pool \<Rightarrow> 'a" where
  "total_over w s = sum_list (map w (locs s))"

definition pool_inv :: "'t thread_pool \<Rightarrow> bool" where
  "pool_inv s \<longleftrightarrow>
     accepted s = started s @ m_queueTask s \<and>
     length (m_queueTask s) \<le> unat (m_ulTaskqueMaxSize s) \<and>
     m_mapThreads s = {i. i < length (locs s) \<and> in_map (locs s ! i)} \<and>
     unat (m_usCurThreadSize s) = total_over live s \<and>
     m_usIdleThreadSize s = of_nat (total_over idle s) \<and>
     mset (started s) = mset (finished s) + total_over task_of s \<and>
     unat (m_usCurThreadSize s) \<le> max (unat (m_usThreadSize s)) (unat (m_usMaxTreadSize s)) \<and>
     (m_isPoolRunning s \<longleftrightarrow> stop_at s = S_none) \<and>
     (stop_at s = S_destroyed \<longrightarrow> m_mapThreads s = {})"

lemma pool_invI:
  assumes "accepted s = started s @ m_queueTask s"
    and "length (m_queueTask s) \<le> unat (m_ulTaskqueMaxSize s)"
    and "m_mapThreads s = {i. i < length (locs s) \<and> in_map (locs s ! i)}"
    and "unat (m_usCurThreadSize s) = total_over live s"
    and "m_usIdleThreadSize s = of_nat (total_over idle s)"
    and "mset (started s) = mset (finished s) + total_over task_of s"
    and "unat (m_usCurThreadSize s) \<le> max (unat (m_usThreadSize s)) (unat (m_usMaxTreadSize s))"
    and "m_isPoolRunning s \<longleftrightarrow> stop_at s = S_none"
    and "stop_at s = S_destroyed \<Longrightarrow> m_mapThreads s = {}"
  shows "pool_inv s"
  using assms unfolding pool_inv_def by blast

lemma pool_invD:
  assumes "pool_inv s"
  shows "accepted s = started s @ m_queueTask s"
    and "length (m_queueTask s) \<le> unat (m_ulTaskqueMaxSize s)"
    and "m_mapThreads s = {i. i < length (locs s) \<and> in_map (locs s ! i)}"
    and "unat (m_usCurThreadSize s) = total_over live s"
    and "m_usIdleThreadSize s = of_nat (total_over idle s)"
    and "mset (started s) = mset (finished s) + total_over task_of s"
    and "unat (m_usCurThreadSize s) \<le> max (unat (m_usThreadSize s)) (unat (m_usMaxTreadSize s))"
    and "m_isPoolRunning s \<longleftrightarrow> stop_at s = S_none"
    and "stop_at s = S_destroyed \<Longrightarrow> m_mapThreads s = {}"
  using assms unfolding pool_inv_def by blast+

lemmas pool_inv_map = pool_invD(3)

lemma notified_keeps [simp]:
  "live (notified l) = live l" "idle (notified l) = idle l" "task_of (notified l) = task_of l"
  "in_map (notified l) = in_map l"
  by (cases l; simp)+

lemma notify_all_simps [simp]:
  "locs (notify_all s) = map notified (locs s)" "m_queueTask (notify_all s) = m_queueTask s"
  "m_mapThreads (notify_all s) = m_mapThreads s" "accepted (notify_all s) = accepted s"
  "started (notify_all s) = started s" "finished (notify_all s) = finished s"
  "m_usCurThreadSize (notify_all s) = m_usCurThreadSize s"
  "m_usIdleThreadSize (notify_all s) = m_usIdleThreadSize s"
  "m_ulTaskqueMaxSize (notify_all s) = m_ulTaskqueMaxSize s"
  "m_usThreadSize (notify_all s) = m_usThreadSize s"
  "m_usMaxTreadSize (notify_all s) = m_usMaxTreadSize s"
  "m_isPoolRunning (notify_all s) = m_isPoolRunning s" "stop_at (notify_all s) = stop_at s"
  "m_poolMode (notify_all s) = m_poolMode s"
  by (simp_all add: notify_all_def)

lemma total_over_notify_all [simp]:
  assumes "\<And>l. w (notified l) = w l"
  shows "total_over w (notify_all s) = total_over w s"
  using assms by (simp add: total_over_def comp_def)

lemma pool_inv_notify:
  assumes inv: "pool_inv s"
  shows "pool_inv (notify_all s)"
proof (rule pool_invI)
  note D = pool_invD [OF inv]
  show "m_mapThreads (notify_all s) =
      {i. i < length (locs (notify_all s)) \<and> in_map (locs (notify_all s) ! i)}"
    unfolding notify_all_simps D(3) by auto
  show "accepted (notify_all s) = started (notify_all s) @ m_queueTask (notify_all s)"
    using D(1) by simp
qed (use pool_invD(2,4-9) [OF inv] in simp_all)

lemma goto_simps [simp]:
  "locs (goto i l s) = (locs s)[i := l]" "m_queueTask (goto i l s) = m_queueTask s"
  "m_mapThreads (goto i l s) = m_mapThreads s" "accepted (goto i l s) = accepted s"
  "started (goto i l s) = started s" "finished (goto i l s) = finished s"
  "m_usCurThreadSize (goto i l s) = m_usCurThreadSize s"
  "m_usIdleThreadSize (goto i l s) = m_usIdleThreadSize s"
  "m_ulTaskqueMaxSize (goto i l s) = m_ulTaskqueMaxSize s"
  "m_usThreadSize (goto i l s) = m_usThreadSize s"
  "m_usMaxTreadSize (goto i l s) = m_usMaxTreadSize s"
  "m_isPoolRunning (goto i l s) = m_isPoolRunning s" "stop_at (goto i l s) = stop_at s"
  "m_poolMode (goto i l s) = m_poolMode s"
  by (simp_all add: goto_def)

lemma total_over_le:
  fixes w :: "'t loc \<Rightarrow> nat"
  assumes "i < length (locs s)"
  shows "w (locs s ! i) \<le> total_over w s"
  using assms by (auto simp: total_over_def intro!: member_le_sum_list)

lemma unat_u16: "unat (w :: u16) < 65536"
  using unsigned_less [of w] by simp

lemma unat_inc: "unat (w :: u16) < 2 ^ 16 - 1 \<Longrightarrow> unat (w + 1) = unat w + 1"
  by (simp add: unat_word_ariths(1))

lemma unat_dec: "0 < unat (w :: u16) \<Longrightarrow> unat (w - 1) = unat w - 1"
  by (rule unat_minus_one) auto

lemma createThreadInner_simps [simp]:
  "locs (createThreadInner s) = locs s @ [L_top]"
  "m_queueTask (createThreadInner s) = m_queueTask s"
  "accepted (createThreadInner s) = accepted s" "started (createThreadInner s) = started s"
  "finished (createThreadInner s) = finished s"
  "m_mapThreads (createThreadInner s) = insert (length (locs s)) (m_mapThreads s)"
  "m_usCurThreadSize (createThreadInner s) = m_usCurThreadSize s + 1"
  "m_usIdleThreadSize (createThreadInner s) = m_usIdleThreadSize s + 1"
  "m_ulTaskqueMaxSize (createThreadInner s) = m_ulTaskqueMaxSize s"
  "m_usThreadSize (createThreadInner s) = m_usThreadSize s"
  "m_usMaxTreadSize (createThreadInner s) = m_usMaxTreadSize s"
  "m_isPoolRunning (createThreadInner s) = m_isPoolRunning s"
  "stop_at (createThreadInner s) = stop_at s" "m_poolMode (createThreadInner s) = m_poolMode s"
  by (simp_all add: createThreadInner_def)

lemma total_over_new [simp]: "total_over w (createThreadInner s) = total_over w s + w L_top"
  by (simp add: total_over_def)

lemma createThreadInner_inv:
  assumes inv: "pool_inv s" and run: "stop_at s = S_none"
    and room: "m_usCurThreadSize s < m_usMaxTreadSize s \<or> m_usCurThreadSize s < m_usThreadSize s"
  shows "pool_inv (createThreadInner s)"
proof -
  note D = pool_invD [OF inv]
  have c: "unat (m_usCurThreadSize s) < max (unat (m_usThreadSize s)) (unat (m_usMaxTreadSize s))"
    using room by (auto simp: word_less_nat_alt)
  also have "\<dots> \<le> 2 ^ 16 - 1"
    using unat_u16 [of "m_usThreadSize s"] unat_u16 [of "m_usMaxTreadSize s"] by simp
  finally have "unat (m_usCurThreadSize s + 1) = unat (m_usCurThreadSize s) + 1" by (rule unat_inc)
  moreover have "m_mapThreads (createThreadInner s) =
      {i. i < length (locs (createThreadInner s)) \<and> in_map (locs (createThreadInner s) ! i)}"
    unfolding createThreadInner_simps D(3) by (auto simp: nth_append less_Suc_eq)
  ultimately show ?thesis using D(1,2,4-8) c run by (intro pool_invI) simp_all
qed

lemma submit_inv:
  assumes inv: "pool_inv s" and s: "submit t s = Inr s'" and run: "stop_at s = S_none"
  shows "pool_inv s'"
proof -
  let ?s = "s\<lparr>m_queueTask := m_queueTask s @ [t], accepted := accepted s @ [t]\<rparr>"
  note D = pool_invD [OF inv]
  have room: "length (m_queueTask s) < unat (m_ulTaskqueMaxSize s)"
    using s by (simp add: submit_def split: if_splits)
  have a: "pool_inv ?s"
    by (rule pool_invI) (use D room run in \<open>simp_all add: total_over_def\<close>)
  show ?thesis
    using s room run pool_inv_notify [OF a] pool_inv_notify [OF createThreadInner_inv [OF a]]
    by (auto simp: submit_def Let_def split: if_splits)
qed

text \<open>One worker moves, and the counters, the map and the task lists follow it.\<close>

lemma move_inv:
  assumes inv: "pool_inv s" and i: "i < length (locs s)"
    and l: "locs s' = (locs s)[i := l]" "in_map l \<Longrightarrow> in_map (locs s ! i)"
    and m: "m_mapThreads s' = (if in_map l then m_mapThreads s else m_mapThreads s - {i})"
    and q: "accepted s' = started s' @ m_queueTask s'" "length (m_queueTask s') \<le> length (m_queueTask s)"
    and sz: "m_ulTaskqueMaxSize s' = m_ulTaskqueMaxSize s" "m_usThreadSize s' = m_usThreadSize s"
      "m_usMaxTreadSize s' = m_usMaxTreadSize s" "m_isPoolRunning s' = m_isPoolRunning s"
      "stop_at s' = stop_at s"
    and c: "unat (m_usCurThreadSize s') + live (locs s ! i) = unat (m_usCurThreadSize s) + live l"
      "live l \<le> live (locs s ! i)"
    and d: "m_usIdleThreadSize s' + of_nat (idle (locs s ! i)) = m_usIdleThreadSize s + of_nat (idle l)"
    and t: "started s' = started s @ st" "finished s' = finished s @ fi"
      "mset st + task_of (locs s ! i) = mset fi + task_of l"
  shows "pool_inv s'"
proof (rule pool_invI)
  note D = pool_invD [OF inv]
  have up: "total_over w s' + w (locs s ! i) = total_over w s + w l"
    for w :: "'a loc \<Rightarrow> 'b::comm_monoid_add"
    using sum_list_map_update [OF i] by (simp add: total_over_def l(1))
  show "m_mapThreads s' = {j. j < length (locs s') \<and> in_map (locs s' ! j)}"
    unfolding m D(3) l(1) using i l(2) by (auto simp: nth_list_update)
  show cur: "unat (m_usCurThreadSize s') = total_over live s'" using D(4) c(1) up [of live] by linarith
  have "m_usIdleThreadSize s' + of_nat (idle (locs s ! i)) = of_nat (total_over idle s + idle l)"
    using d by (simp add: D(5))
  also have "\<dots> = of_nat (total_over idle s') + of_nat (idle (locs s ! i))"
    unfolding up [symmetric] by simp
  finally show "m_usIdleThreadSize s' = of_nat (total_over idle s')" by simp
  have "unat (m_usCurThreadSize s') \<le> unat (m_usCurThreadSize s)" using c by linarith
  then show "unat (m_usCurThreadSize s') \<le> max (unat (m_usThreadSize s')) (unat (m_usMaxTreadSize s'))"
    using D(7) unfolding sz by linarith
  have "mset (started s') + task_of (locs s ! i) =
      mset (finished s) + total_over task_of s + (mset fi + task_of l)"
    by (simp add: t(1) add.assoc t(3) D(6))
  also have "\<dots> = mset (finished s') + (total_over task_of s + task_of l)"
    by (simp add: t(2) ac_simps)
  also have "total_over task_of s + task_of l = total_over task_of s' + task_of (locs s ! i)"
    by (simp add: up)
  finally show "mset (started s') = mset (finished s') + total_over task_of s'"
    by (simp add: add.assoc [symmetric])
  show "length (m_queueTask s') \<le> unat (m_ulTaskqueMaxSize s')" using D(2) q(2) sz(1) by simp
  show "m_isPoolRunning s' \<longleftrightarrow> stop_at s' = S_none" using D(8) sz by simp
  show "stop_at s' = S_destroyed \<Longrightarrow> m_mapThreads s' = {}" using D(9) sz m by simp
qed (rule q(1))

lemma goto_inv:
  assumes inv: "pool_inv s" and i: "i < length (locs s)"
    and "live l = live (locs s ! i)" "idle l = idle (locs s ! i)" "task_of l = task_of (locs s ! i)"
      "in_map l = in_map (locs s ! i)"
  shows "pool_inv (goto i l s)"
proof (rule move_inv [OF inv i, where l = l and st = "[]" and fi = "[]"])
  show "m_mapThreads (goto i l s) = (if in_map l then m_mapThreads s else m_mapThreads s - {i})"
    unfolding goto_simps pool_inv_map [OF inv] using i assms(6) by auto
qed (use assms pool_invD(1) [OF inv] in simp_all)

lemma threadFunc_inv:
  assumes inv: "pool_inv s" and s: "threadFunc timeout expired i s = Some s'"
  shows "pool_inv s'"
proof -
  have i: "i < length (locs s)" using s by (simp add: threadFunc_def split: if_splits)
  note acc = pool_invD(1) [OF inv]
  show ?thesis
  proof (cases "locs s ! i")
    case L_lock
    show ?thesis
    proof (cases "m_queueTask s")
      case Nil
      then show ?thesis using s i L_lock goto_inv [OF inv i] by (auto simp: threadFunc_def)
    next
      case (Cons t q)
      have s': "s' = goto i (L_run t) (s\<lparr>m_usIdleThreadSize := m_usIdleThreadSize s - 1,
          m_queueTask := q, started := started s @ [t]\<rparr>)"
        using s i L_lock Cons by (simp add: threadFunc_def)
      show ?thesis
        by (rule move_inv [OF inv i, where l = "L_run t" and st = "[t]" and fi = "[]"])
          (use acc Cons L_lock in \<open>simp_all add: s'\<close>)
    qed
  next
    case (L_run t)
    have s': "s' = goto i L_top (s\<lparr>finished := finished s @ [t],
        m_usIdleThreadSize := m_usIdleThreadSize s + 1\<rparr>)"
      using s i L_run by (simp add: threadFunc_def)
    show ?thesis
      by (rule move_inv [OF inv i, where l = L_top and st = "[]" and fi = "[t]"])
        (use acc L_run in \<open>simp_all add: s'\<close>)
  next
    case L_exit
    have s': "s' = goto i L_sub (s\<lparr>m_usCurThreadSize := m_usCurThreadSize s - 1\<rparr>)"
      using s i L_exit by (simp add: threadFunc_def)
    have p: "0 < unat (m_usCurThreadSize s)"
      using pool_invD(4) [OF inv] total_over_le [OF i, of live] L_exit by simp
    show ?thesis
      by (rule move_inv [OF inv i, where l = L_sub and st = "[]" and fi = "[]"])
        (use p unat_dec [OF p] acc L_exit in \<open>simp_all add: s'\<close>)
  next
    case L_sub
    have s': "s' = goto i L_erase (s\<lparr>m_usIdleThreadSize := m_usIdleThreadSize s - 1\<rparr>)"
      using s i L_sub by (simp add: threadFunc_def)
    show ?thesis
      by (rule move_inv [OF inv i, where l = L_erase and st = "[]" and fi = "[]"])
        (use acc L_sub in \<open>simp_all add: s'\<close>)
  next
    case L_erase
    have s': "s' = goto i L_notify (s\<lparr>m_mapThreads := m_mapThreads s - {i}\<rparr>)"
      using s i L_erase by (simp add: threadFunc_def)
    show ?thesis
      by (rule move_inv [OF inv i, where l = L_notify and st = "[]" and fi = "[]"])
        (use acc L_erase in \<open>simp_all add: s'\<close>)
  next
    case L_notify
    have "pool_inv (goto i L_gone (notify_all s))"
      by (rule goto_inv [OF pool_inv_notify [OF inv]]) (use i L_notify in simp_all)
    then show ?thesis using s i L_notify by (auto simp: threadFunc_def)
  qed (use s i goto_inv [OF inv i] in \<open>auto simp: threadFunc_def after_wait1_def split: if_splits\<close>)
qed

text \<open>The constructor: the threads it makes stay below the fixed size it counts to.\<close>

definition empty_pool :: "emPoolMode \<Rightarrow> u16 \<Rightarrow> u32 \<Rightarrow> u16 \<Rightarrow> 't thread_pool" where
  "empty_pool mode n q m =
     \<lparr>m_poolMode = mode, m_usThreadSize = n, m_ulTaskqueMaxSize = q, m_usMaxTreadSize = m,
       m_usCurThreadSize = 0, m_usIdleThreadSize = 0, m_queueTask = [], m_mapThreads = {},
       m_isPoolRunning = True, locs = [], accepted = [], started = [], finished = [],
       stop_at = S_none\<rparr>"

lemma ThreadPool_eq:
  "ThreadPool hw mode n q m =
     (let n' = if n = 0 then hw else n
      in (createThreadInner ^^ unat n') (empty_pool mode n' q m))"
  by (simp add: ThreadPool_def start_def empty_pool_def Let_def)

lemma threads_created:
  "k \<le> unat n \<Longrightarrow> s = (createThreadInner ^^ k) (empty_pool mode n q m) \<Longrightarrow>
     pool_inv s \<and> unat (m_usCurThreadSize s) = k \<and> m_usThreadSize s = n \<and> stop_at s = S_none"
proof (induction k arbitrary: s)
  case 0
  have "pool_inv s"
    by (rule pool_invI) (simp_all add: 0 empty_pool_def total_over_def)
  then show ?case by (simp add: 0 empty_pool_def)
next
  case (Suc k)
  then obtain r where r: "r = (createThreadInner ^^ k) (empty_pool mode n q m)"
    and s: "s = createThreadInner r" by simp
  have IH: "pool_inv r" "unat (m_usCurThreadSize r) = k" "m_usThreadSize r = n" "stop_at r = S_none"
    using Suc.IH r Suc.prems by simp_all
  have "m_usCurThreadSize r < m_usThreadSize r" using Suc.prems IH by (simp add: word_less_nat_alt)
  then have "pool_inv (createThreadInner r)" using createThreadInner_inv [OF IH(1,4)] by simp
  moreover have "unat (m_usCurThreadSize r + 1) = Suc k"
    using unat_inc [of "m_usCurThreadSize r"] IH(2) Suc.prems unat_u16 [of n] by simp
  ultimately show ?case using IH by (simp add: s)
qed

lemma ThreadPool_inv: "pool_inv (ThreadPool hw mode n q m)"
  using threads_created [OF order_refl refl] unfolding ThreadPool_eq Let_def by blast

lemma stop_steps_inv:
  assumes inv: "pool_inv s"
  shows "stop_at s = S_none \<Longrightarrow> pool_inv (stop_store s)"
    and "stop_at s = S_flag \<Longrightarrow> pool_inv (stop_notify s)"
    and "stop_return s = Some s' \<Longrightarrow> pool_inv s'"
proof -
  note D = pool_invD [OF inv]
  show "pool_inv (stop_store s)" if "stop_at s = S_none"
    by (rule pool_invI) (use D(1,2,4-7) D(3) that in \<open>simp_all add: stop_store_def total_over_def\<close>)
  show "pool_inv (stop_notify s)" if "stop_at s = S_flag"
    unfolding stop_notify_def
    by (rule pool_inv_notify, rule pool_invI)
      (use D that in \<open>simp_all add: total_over_def\<close>)
  assume r: "stop_return s = Some s'"
  then have s': "s' = s\<lparr>stop_at := S_destroyed\<rparr>" and m: "m_mapThreads s = {}" "stop_at s = S_wait"
    by (auto simp: stop_return_def split: if_splits)
  show "pool_inv s'"
    by (rule pool_invI) (use D m in \<open>simp_all add: s' total_over_def\<close>)
qed

lemma pool_step_inv: "pool_step s s' \<Longrightarrow> pool_inv s \<Longrightarrow> pool_inv s'"
  by (induction rule: pool_step.induct) (auto intro: submit_inv threadFunc_inv stop_steps_inv)

lemma pool_steps_inv: "pool_steps s s' \<Longrightarrow> pool_inv s \<Longrightarrow> pool_inv s'"
  by (induction rule: pool_steps.induct) (auto intro: pool_step_inv)

lemma reachable_inv: "pool_reachable s \<Longrightarrow> pool_inv s"
  unfolding pool_reachable_def using pool_steps_inv ThreadPool_inv by blast

subsection \<open>Stopping\<close>

text \<open>
  How many steps a worker has left once the running flag is clear. Every step of a worker lowers
  the sum, so \<open>stop\<close> returns after at most nine steps of each worker, whatever order they take.
\<close>

fun rank :: "'t loc \<Rightarrow> nat" where
  "rank L_gone = 0" | "rank L_notify = 1" | "rank L_erase = 2" | "rank L_sub = 3"
| "rank L_exit = 4" | "rank L_top = 5" | "rank (L_run t) = 6" | "rank L_wait2 = 6"
| "rank L_woken1 = 7" | "rank L_wait1 = 8" | "rank L_lock = 9"

definition work_left :: "'t thread_pool \<Rightarrow> nat" where
  "work_left s = total_over rank s"

text \<open>A run of \<open>n\<close> steps of the workers alone.\<close>

inductive worker_run :: "nat \<Rightarrow> 't thread_pool \<Rightarrow> 't thread_pool \<Rightarrow> bool" where
  wr_refl: "worker_run 0 s s"
| wr_step: "worker_run n s s' \<Longrightarrow> threadFunc timeout expired i s' = Some s'' \<Longrightarrow>
    worker_run (Suc n) s s''"

lemma rank_notified: "rank (notified l) \<le> rank l"
  by (cases l) simp_all

lemma work_left_bound: "work_left s \<le> 9 * length (locs s)"
proof -
  have "rank l \<le> 9" for l :: "'a loc" by (cases l) simp_all
  then have "sum_list (map rank xs) \<le> 9 * length xs" for xs :: "'a loc list"
    by (induction xs) (auto intro: add_mono)
  then show ?thesis by (simp add: work_left_def total_over_def)
qed

lemma work_left_goto:
  assumes "i < length (locs s)" "rank l < rank (locs s ! i)"
  shows "work_left (goto i l s) < work_left s"
  using sum_list_map_update [OF assms(1), of rank l] assms(2)
  by (simp add: work_left_def total_over_def)

lemma work_left_locs: "locs s = locs s' \<Longrightarrow> work_left s = work_left s'"
  by (simp add: work_left_def total_over_def)

lemma work_left_notify: "work_left (notify_all s) \<le> work_left s"
  unfolding work_left_def total_over_def
  by (simp add: comp_def) (rule sum_list_mono, rule rank_notified)

lemma worker_moves_on:
  assumes s: "threadFunc timeout expired i s = Some s'" and stop: "\<not> m_isPoolRunning s"
  shows "work_left s' < work_left s" "stop_at s' = stop_at s" "m_isPoolRunning s' = m_isPoolRunning s"
proof -
  have i: "i < length (locs s)" using s by (simp add: threadFunc_def split: if_splits)
  have "\<exists>r l. s' = goto i l r \<and> rank l < rank (locs r ! i) \<and> length (locs r) = length (locs s) \<and>
      work_left r \<le> work_left s \<and> stop_at r = stop_at s \<and> m_isPoolRunning r = m_isPoolRunning s"
    using s i stop work_left_notify [of s]
    by (cases "locs s ! i")
      (fastforce simp: threadFunc_def after_wait1_def work_left_def total_over_def
        split: list.splits if_splits)+
  then obtain r l where r: "s' = goto i l r" "rank l < rank (locs r ! i)"
      "length (locs r) = length (locs s)" "work_left r \<le> work_left s" "stop_at r = stop_at s"
      "m_isPoolRunning r = m_isPoolRunning s" by blast
  then show "work_left s' < work_left s"
    using work_left_goto [of i r l] i by simp
  show "stop_at s' = stop_at s" "m_isPoolRunning s' = m_isPoolRunning s" using r by simp_all
qed

lemma worker_can_move:
  assumes "i < length (locs s)" "locs s ! i \<noteq> L_gone"
  shows "\<exists>timeout expired s'. threadFunc timeout expired i s = Some s'"
  using assms by (cases "locs s ! i") (auto simp: threadFunc_def split: list.splits)

lemma worker_run_measure:
  "worker_run n s s' \<Longrightarrow> pool_inv s \<Longrightarrow> stop_at s = S_wait \<Longrightarrow>
     n + work_left s' \<le> work_left s \<and> pool_inv s' \<and> stop_at s' = S_wait"
proof (induction rule: worker_run.induct)
  case (wr_step n s s' timeout expired i s'')
  then have *: "n + work_left s' \<le> work_left s" "pool_inv s'" "stop_at s' = S_wait" by simp_all
  have "\<not> m_isPoolRunning s'" using pool_invD(8) [OF *(2)] *(3) by simp
  from worker_moves_on [OF wr_step.hyps(2) this] show ?case
    using * threadFunc_inv [OF *(2) wr_step.hyps(2)] by simp
qed simp

text \<open>Once the flag is clear only the workers already past its test take another task.\<close>

fun at_lock :: "'t loc \<Rightarrow> nat" where
  "at_lock L_lock = 1" | "at_lock _ = 0"

lemma at_lock_notified [simp]: "at_lock (notified l) = at_lock l"
  by (cases l) simp_all

lemma at_lock_bound: "total_over at_lock s \<le> length (locs s)"
proof -
  have "at_lock l \<le> 1" for l :: "'a loc" by (cases l) simp_all
  then have "sum_list (map at_lock xs) \<le> length xs" for xs :: "'a loc list"
    using add_mono [of "at_lock _" 1] by (induction xs) fastforce+
  then show ?thesis by (simp add: total_over_def)
qed

lemma worker_takes_last:
  assumes s: "threadFunc timeout expired i s = Some s'" and stop: "\<not> m_isPoolRunning s"
  shows "length (started s') + total_over at_lock s' \<le> length (started s) + total_over at_lock s"
proof -
  have i: "i < length (locs s)" using s by (simp add: threadFunc_def split: if_splits)
  have g: "total_over at_lock (goto i l r) + at_lock (locs r ! i) = total_over at_lock r + at_lock l"
    if "i < length (locs r)" for l r
    using sum_list_map_update [OF that, of at_lock l] by (simp add: total_over_def)
  have "\<exists>r l. s' = goto i l r \<and> locs r = locs s \<and> length (started r) + at_lock l \<le> length (started s) + at_lock (locs s ! i)
      \<or> s' = goto i l (notify_all s) \<and> at_lock l = 0"
    using s i stop
    by (cases "locs s ! i") (fastforce simp: threadFunc_def after_wait1_def split: list.splits if_splits)+
  then consider (plain) r l where "s' = goto i l r" "locs r = locs s"
      "length (started r) + at_lock l \<le> length (started s) + at_lock (locs s ! i)"
    | (notify) l where "s' = goto i l (notify_all s)" "at_lock l = 0" by blast
  then show ?thesis
  proof cases
    case plain
    moreover from this have "total_over at_lock r = total_over at_lock s" by (simp add: total_over_def)
    ultimately show ?thesis using g [of r l] i by simp
  next
    case notify
    then show ?thesis using g [of "notify_all s" l] i by simp
  qed
qed

lemma worker_run_takes_last:
  "worker_run n s s' \<Longrightarrow> pool_inv s \<Longrightarrow> stop_at s = S_wait \<Longrightarrow>
     length (started s') + total_over at_lock s' \<le> length (started s) + total_over at_lock s"
proof (induction rule: worker_run.induct)
  case (wr_step n s s' timeout expired i s'')
  have "pool_inv s'" "stop_at s' = S_wait"
    using worker_run_measure [OF wr_step.hyps(1) wr_step.prems] by simp_all
  then have "\<not> m_isPoolRunning s'" using pool_invD(8) [of s'] by simp
  from worker_takes_last [OF wr_step.hyps(2) this] show ?case using wr_step by simp
qed simp

lemma stop_enabled:
  assumes inv: "pool_inv s" and w: "stop_at s = S_wait" and g: "\<forall>l \<in> set (locs s). l = L_gone"
  shows "\<exists>s'. stop_return s = Some s'"
proof -
  have "m_mapThreads s = {}" unfolding pool_inv_map [OF inv] using g by (auto simp: all_set_conv_all_nth)
  then show ?thesis using w by (simp add: stop_return_def)
qed

subsection \<open>Serving the queue\<close>

text \<open>
  While the pool runs and a task is queued, each step of a worker lowers three times the length of
  the queue plus the sum of these weights, in both modes. A worker about to take the mutex finds
  the task, so no step leads into a wait.
\<close>

fun weight :: "'t loc \<Rightarrow> nat" where
  "weight L_gone = 0" | "weight L_notify = 1" | "weight L_erase = 2" | "weight L_sub = 3"
| "weight L_exit = 4" | "weight L_top = 1" | "weight (L_run t) = 2" | "weight L_wait2 = 2"
| "weight L_woken1 = 5" | "weight L_wait1 = 6" | "weight L_lock = 0"

definition queue_left :: "'t thread_pool \<Rightarrow> nat" where
  "queue_left s = 3 * length (m_queueTask s) + total_over weight s"

lemma weight_notified: "weight (notified l) \<le> weight l"
  by (cases l) simp_all

lemma queue_left_bound: "queue_left s \<le> 3 * length (m_queueTask s) + 6 * length (locs s)"
proof -
  have "weight l \<le> 6" for l :: "'a loc" by (cases l) simp_all
  then have "sum_list (map weight xs) \<le> 6 * length xs" for xs :: "'a loc list"
    by (induction xs) (auto intro: add_mono)
  then show ?thesis by (simp add: queue_left_def total_over_def)
qed

lemma queue_left_notify: "queue_left (notify_all s) \<le> queue_left s"
  unfolding queue_left_def total_over_def
  by (simp add: comp_def) (rule sum_list_mono, rule weight_notified)

lemma total_over_goto:
  fixes w :: "'t loc \<Rightarrow> nat"
  assumes "i < length (locs s)"
  shows "total_over w (goto i l s) + w (locs s ! i) = total_over w s + w l"
  using sum_list_map_update [OF assms, of w l] by (simp add: total_over_def)

lemma worker_serves:
  assumes s: "threadFunc timeout expired i s = Some s'" and run: "m_isPoolRunning s"
  shows "m_isPoolRunning s'" "m_poolMode s' = m_poolMode s"
    "length (m_queueTask s') \<le> length (m_queueTask s)"
    "length (locs s') = length (locs s)" "m_usThreadSize s' = m_usThreadSize s"
    "m_queueTask s \<noteq> [] \<Longrightarrow> queue_left s' < queue_left s"
proof -
  have i: "i < length (locs s)" using s by (simp add: threadFunc_def split: if_splits)
  obtain r l where r: "s' = goto i l r" "length (locs r) = length (locs s)"
      "m_isPoolRunning r" "m_poolMode r = m_poolMode s" "m_usThreadSize r = m_usThreadSize s"
      "length (m_queueTask r) \<le> length (m_queueTask s)"
    and w: "m_queueTask s \<noteq> [] \<Longrightarrow> queue_left r + weight l < queue_left s + weight (locs r ! i)"
  proof -
    have "\<exists>r l. s' = goto i l r \<and> length (locs r) = length (locs s) \<and>
        m_isPoolRunning r \<and> m_poolMode r = m_poolMode s \<and> m_usThreadSize r = m_usThreadSize s \<and>
        length (m_queueTask r) \<le> length (m_queueTask s) \<and>
        (m_queueTask s \<noteq> [] \<longrightarrow> queue_left r + weight l < queue_left s + weight (locs r ! i))"
    proof (cases "locs s ! i = L_notify")
      case True
      then have "s' = goto i L_gone (notify_all s)" using s i by (simp add: threadFunc_def)
      moreover have "queue_left (notify_all s) < queue_left s + weight (locs (notify_all s) ! i)"
        using queue_left_notify [of s] True i by simp
      ultimately show ?thesis using run by (intro exI [of _ "notify_all s"] exI [of _ L_gone]) simp
    next
      case False
      show ?thesis
        using s i run False
        by (cases "locs s ! i")
          (fastforce simp: threadFunc_def after_wait1_def queue_left_def total_over_def
            split: list.splits if_splits)+
    qed
    then show thesis using that by blast
  qed
  show "m_isPoolRunning s'" "m_poolMode s' = m_poolMode s" "m_usThreadSize s' = m_usThreadSize s"
    "length (m_queueTask s') \<le> length (m_queueTask s)" "length (locs s') = length (locs s)"
    using r by simp_all
  assume "m_queueTask s \<noteq> []"
  then show "queue_left s' < queue_left s"
    using w total_over_goto [of i r weight l] i r(1,2) by (simp add: queue_left_def)
qed

lemma worker_run_serves:
  "worker_run n s s' \<Longrightarrow> m_isPoolRunning s \<Longrightarrow>
     m_isPoolRunning s' \<and> m_poolMode s' = m_poolMode s \<and> length (locs s') = length (locs s) \<and>
     m_usThreadSize s' = m_usThreadSize s \<and>
     (m_queueTask s' \<noteq> [] \<longrightarrow> n + queue_left s' \<le> queue_left s)"
proof (induction rule: worker_run.induct)
  case (wr_step n s s' timeout expired i s'')
  have run: "m_isPoolRunning s'" using wr_step by blast
  note S = worker_serves [OF wr_step.hyps(2) run]
  show ?case using wr_step.IH wr_step.prems S by force
qed simp

lemma worker_run_steps: "worker_run n s s' \<Longrightarrow> pool_steps r s \<Longrightarrow> pool_steps r s'"
  by (induction rule: worker_run.induct) (auto intro: ps_step p_worker)

lemma worker_run_reachable: "worker_run n s s' \<Longrightarrow> pool_reachable s \<Longrightarrow> pool_reachable s'"
  unfolding pool_reachable_def using worker_run_steps by blast

text \<open>In the fixed mode no worker leaves a running pool.\<close>

fun serving :: "'t loc \<Rightarrow> bool" where
  "serving L_top = True" | "serving L_lock = True" | "serving L_wait2 = True"
| "serving (L_run t) = True" | "serving _ = False"

definition fixed_staffed :: "'t thread_pool \<Rightarrow> bool" where
  "fixed_staffed s \<longleftrightarrow> (m_poolMode s = MODE_FIXED \<and> m_isPoolRunning s \<longrightarrow>
     length (locs s) = unat (m_usThreadSize s) \<and> (\<forall>l \<in> set (locs s). serving l))"

lemma serving_notified: "serving l \<Longrightarrow> serving (notified l)"
  by (cases l) simp_all

lemma fixed_staffed_notify: "fixed_staffed s \<Longrightarrow> fixed_staffed (notify_all s)"
  by (auto simp: fixed_staffed_def serving_notified)

lemma fixed_staffed_worker:
  assumes "threadFunc timeout expired i s = Some s'" "fixed_staffed s"
  shows "fixed_staffed s'"
proof (cases "m_poolMode s = MODE_FIXED \<and> m_isPoolRunning s")
  case True
  have i: "i < length (locs s)" using assms(1) by (simp add: threadFunc_def split: if_splits)
  have *: "length (locs s) = unat (m_usThreadSize s)" "\<forall>l \<in> set (locs s). serving l"
    using assms(2) True by (simp_all add: fixed_staffed_def)
  then have "serving (locs s ! i)" using i by simp
  then have "\<exists>l r. s' = goto i l r \<and> serving l \<and> locs r = locs s \<and> m_usThreadSize r = m_usThreadSize s"
    using assms(1) i True
    by (cases "locs s ! i") (fastforce simp: threadFunc_def split: list.splits if_splits)+
  then show ?thesis
    using * by (auto simp: fixed_staffed_def dest!: subsetD [OF set_update_subset_insert])
next
  case False
  then show ?thesis
    using worker_serves(2) [OF assms(1)] assms(1)
    by (auto simp: fixed_staffed_def threadFunc_def split: loc.splits list.splits if_splits)
qed

lemma fixed_staffed_step: "pool_step s s' \<Longrightarrow> fixed_staffed s \<Longrightarrow> fixed_staffed s'"
proof (induction rule: pool_step.induct)
  case (p_submit t s s')
  then show ?case
    by (auto simp: submit_def Let_def fixed_staffed_def serving_notified split: if_splits)
next
  case (p_notify s)
  then show ?case by (auto simp: stop_notify_def fixed_staffed_def serving_notified)
next
  case (p_worker timeout expired i s s')
  then show ?case using fixed_staffed_worker by blast
qed (auto simp: stop_store_def stop_return_def fixed_staffed_def split: if_splits)

lemma fixed_staffed_start:
  "length (locs ((createThreadInner ^^ k) (empty_pool mode n q m))) = k \<and>
   m_usThreadSize ((createThreadInner ^^ k) (empty_pool mode n q m)) = n \<and>
   (\<forall>l \<in> set (locs ((createThreadInner ^^ k) (empty_pool mode n q m))). serving l)"
  by (induction k) (simp_all add: empty_pool_def)

lemma fixed_staffed_ThreadPool: "fixed_staffed (ThreadPool hw mode n q m)"
  unfolding ThreadPool_eq Let_def fixed_staffed_def using fixed_staffed_start by metis

lemma reachable_staffed: "pool_reachable s \<Longrightarrow> fixed_staffed s"
proof -
  have "pool_steps r s \<Longrightarrow> fixed_staffed r \<Longrightarrow> fixed_staffed s" for r
    by (induction rule: pool_steps.induct) (auto intro: fixed_staffed_step)
  then show "pool_reachable s \<Longrightarrow> fixed_staffed s"
    unfolding pool_reachable_def using fixed_staffed_ThreadPool by blast
qed

lemma fixed_worker_can_move:
  assumes "pool_reachable s" "m_poolMode s = MODE_FIXED" "m_isPoolRunning s"
    "i < unat (m_usThreadSize s)"
  shows "\<exists>timeout expired s'. threadFunc timeout expired i s = Some s'"
proof -
  have i: "i < length (locs s)" and "\<forall>l \<in> set (locs s). serving l"
    using reachable_staffed [OF assms(1)] assms(2-4) by (simp_all add: fixed_staffed_def)
  then have "serving (locs s ! i)" by simp
  then show ?thesis using worker_can_move [OF i] by force
qed

subsection \<open>Properties\<close>

text \<open>
  C16: in every state the pool can reach, the accepted tasks are, in the order they were accepted,
  the started ones followed by the queued ones; each started task has been run to its end or is
  run by exactly one worker at this moment; and the queue never exceeds its limit. So no task is
  lost, duplicated or reordered while the pool lives.
\<close>

theorem pool_tasks_once:
  assumes "pool_reachable s"
  shows "accepted s = started s @ m_queueTask s \<and>
    mset (started s) = mset (finished s) + total_over task_of s \<and>
    length (m_queueTask s) \<le> unat (m_ulTaskqueMaxSize s)"
  using pool_invD(1,2,6) [OF reachable_inv [OF assms]] by blast

text \<open>
  the counters are right whatever the interleaving: the thread counter is the number of
  workers that have not left their loop's counters, it never exceeds the larger of the fixed and
  the maximal size, the idle counter is the number of those that are not running a task, modulo
  \<open>2 ^ 16\<close>, and the thread map holds exactly the workers that have not erased themselves.
\<close>

theorem pool_counters:
  assumes "pool_reachable s"
  shows "unat (m_usCurThreadSize s) = total_over live s \<and>
    unat (m_usCurThreadSize s) \<le> max (unat (m_usThreadSize s)) (unat (m_usMaxTreadSize s)) \<and>
    m_usIdleThreadSize s = of_nat (total_over idle s) \<and>
    m_mapThreads s = {i. i < length (locs s) \<and> in_map (locs s ! i)}"
  using pool_invD(3,4,5,7) [OF reachable_inv [OF assms]] by blast

text \<open>
  C32: \<open>stop\<close> returns. Once it has notified the workers, any run of the workers has at most
  nine steps for each worker, and whenever no worker can take a further
  step the wait of \<open>stop\<close> is satisfied. It does not wait for the queued tasks, against the comment
  at the loop of \<open>threadFunc\<close>, which wants all of them executed: each worker takes at most one more,
  and what then remains in the queue is never started.
\<close>

theorem pool_stop_returns:
  assumes "pool_reachable s" "stop_at s = S_wait" "worker_run n s s'"
  shows "n \<le> 9 * length (locs s) \<and> length (started s') \<le> length (started s) + length (locs s) \<and>
    ((\<exists>timeout expired i s''. threadFunc timeout expired i s' = Some s'') \<or>
     (\<exists>s''. stop_return s' = Some s''))"
proof -
  have *: "n + work_left s' \<le> work_left s" "pool_inv s'" "stop_at s' = S_wait"
    using worker_run_measure [OF assms(3) reachable_inv [OF assms(1)] assms(2)] by simp_all
  have "n \<le> 9 * length (locs s)" using *(1) work_left_bound [of s] by linarith
  moreover have "length (started s') \<le> length (started s) + length (locs s)"
    using worker_run_takes_last [OF assms(3) reachable_inv [OF assms(1)] assms(2)] at_lock_bound [of s] by linarith
  ultimately show ?thesis
    using stop_enabled [OF *(2,3)] worker_can_move [of _ s'] unfolding all_set_conv_all_nth by blast
qed

text \<open>
  C34: a running pool of the fixed mode serves its queue. However the workers interleave and whatever ends
  their waits, within three steps for each queued task and six for each worker the queue is empty and
  every accepted task has been started; and every one of the workers the pool
  was made with can always take its next step, so nothing but an unfair scheduler keeps a task
  waiting. The cached mode promises no such thing (\<open>cached_pool_abandons_task\<close>).
\<close>

theorem pool_starts_every_task:
  assumes "pool_reachable s" "m_isPoolRunning s" "m_poolMode s = MODE_FIXED" "worker_run n s s'"
  shows "(3 * length (m_queueTask s) + 6 * length (locs s) < n \<longrightarrow>
      m_queueTask s' = [] \<and> started s' = accepted s') \<and>
    (\<forall>i < unat (m_usThreadSize s). \<exists>timeout expired s''. threadFunc timeout expired i s' = Some s'')"
proof (intro conjI impI allI)
  note W = worker_run_serves [OF assms(4,2)]
  have r: "pool_reachable s'" by (rule worker_run_reachable [OF assms(4,1)])
  show empty: "m_queueTask s' = []" if "3 * length (m_queueTask s) + 6 * length (locs s) < n"
    using W that queue_left_bound [of s] by fastforce
  show "started s' = accepted s'" if "3 * length (m_queueTask s) + 6 * length (locs s) < n"
    using pool_invD(1) [OF reachable_inv [OF r]] empty [OF that] by simp
  show "\<exists>timeout expired s''. threadFunc timeout expired i s' = Some s''"
    if "i < unat (m_usThreadSize s)" for i
    by (rule fixed_worker_can_move [OF r]) (use W assms(3) that in simp_all)
qed

text \<open>A run given by the choices of the environment, for runs on concrete states.\<close>

datatype 't pool_event =
  E_submit 't | E_worker bool bool nat | E_stop_store | E_stop_notify | E_stop_return

fun pool_do :: "'t pool_event \<Rightarrow> 't thread_pool \<Rightarrow> 't thread_pool option" where
  "pool_do (E_submit t) s =
     (if stop_at s = S_none then case submit t s of Inl _ \<Rightarrow> None | Inr s' \<Rightarrow> Some s' else None)"
| "pool_do (E_worker timeout expired i) s = threadFunc timeout expired i s"
| "pool_do E_stop_store s = (if stop_at s = S_none then Some (stop_store s) else None)"
| "pool_do E_stop_notify s = (if stop_at s = S_flag then Some (stop_notify s) else None)"
| "pool_do E_stop_return s = stop_return s"

fun pool_run :: "'t pool_event list \<Rightarrow> 't thread_pool \<Rightarrow> 't thread_pool option" where
  "pool_run [] s = Some s"
| "pool_run (e # es) s = (case pool_do e s of None \<Rightarrow> None | Some s' \<Rightarrow> pool_run es s')"

lemma pool_do_step: "pool_do e s = Some s' \<Longrightarrow> pool_step s s'"
  by (cases e) (auto split: if_splits sum.splits intro: pool_step.intros)

lemma pool_run_steps: "pool_run es s' = Some s'' \<Longrightarrow> pool_steps s s' \<Longrightarrow> pool_steps s s''"
proof (induction es arbitrary: s')
  case (Cons e es)
  then obtain r where "pool_do e s' = Some r" "pool_run es r = Some s''"
    by (auto split: option.splits)
  then show ?case using Cons.IH [of r] ps_step [OF Cons.prems(2) pool_do_step] by blast
qed simp

lemma pool_run_reachable:
  "pool_run es (ThreadPool hw mode n q m) = Some s \<Longrightarrow> pool_reachable s"
  unfolding pool_reachable_def using pool_run_steps [OF _ ps_refl] by blast

lemmas run_simps =
  ThreadPool_def start_def createThreadInner_def submit_def Let_def notify_all_def goto_def
  threadFunc_def after_wait1_def stop_store_def stop_notify_def stop_return_def

text \<open>
  the destructor drops tasks and leaves before its workers do, although a comment of
  \<open>threadFunc\<close> says every task has to be run before the threads are reclaimed. One worker and one
  task are enough: the flag is cleared before the worker looks at the queue, the worker leaves its
  loop and erases itself from the map, \<open>stop\<close> returns and the members are destroyed with the task
  still queued, and the worker's last \<open>notify_all\<close>, on the destroyed condition variable, is yet
  to come.
\<close>

theorem stop_drops_queued_tasks:
  "\<exists>s. pool_reachable s \<and> stop_at s = S_destroyed \<and> accepted s = [t] \<and> m_queueTask s = [t] \<and>
     finished s = [] \<and> locs s = [L_notify]"
proof -
  let ?es = "[E_submit t, E_stop_store, E_stop_notify, E_worker False False 0, E_worker False False 0,
      E_worker False False 0, E_worker False False 0, E_stop_return]"
  obtain s where s: "pool_run ?es (ThreadPool 1 MODE_FIXED 1 10 1) = Some s"
    and p: "stop_at s = S_destroyed" "accepted s = [t]" "m_queueTask s = [t]" "finished s = []"
      "locs s = [L_notify]"
    by (simp add: run_simps)
  show ?thesis using pool_run_reachable [OF s] p by blast
qed

text \<open>
  in the cached mode a submitted task can find every worker asleep and wake none of them: a
  worker notified during its one-second wait takes the \<open>else\<close> branch and starts the five-second
  wait without looking at the queue, and no thread is added because the worker counts as idle.
\<close>

theorem cached_wakeup_swallowed:
  "\<exists>s. pool_reachable s \<and> m_poolMode s = MODE_CACHED \<and> m_isPoolRunning s \<and>
     m_queueTask s = [t] \<and> locs s = [L_wait2] \<and> m_usCurThreadSize s < m_usMaxTreadSize s"
proof -
  let ?es = "[E_worker False False 0, E_worker False False 0, E_submit t, E_worker False False 0]"
  obtain s where s: "pool_run ?es (ThreadPool 1 MODE_CACHED 1 10 2) = Some s"
    and p: "m_poolMode s = MODE_CACHED" "m_isPoolRunning s" "m_queueTask s = [t]"
      "locs s = [L_wait2]" "m_usCurThreadSize s < m_usMaxTreadSize s"
    by (simp add: run_simps)
  show ?thesis using pool_run_reachable [OF s] p by blast
qed

text \<open>
  in the cached mode the pool can end up running with a task queued and no worker at all. Two
  workers whose time has expired both see more workers than the fixed size, since each lowers the
  counter only after it has left the loop and released the mutex; a task submitted before they
  lower the idle counter finds them idle, so no worker is added for it, and both leave. From there
  on no step of a worker is possible.
\<close>

theorem cached_pool_abandons_task:
  "\<exists>s. pool_reachable s \<and> m_poolMode s = MODE_CACHED \<and> m_isPoolRunning s \<and>
     m_queueTask s = [t] \<and> m_usCurThreadSize s = 0 \<and> m_usThreadSize s = 1 \<and>
     m_usCurThreadSize s < m_usMaxTreadSize s \<and> (\<forall>n s'. worker_run n s s' \<longrightarrow> s' = s)"
proof -
  let ?w = "E_worker True True"
  let ?es = "[E_submit a, ?w 0, ?w 0, E_submit b, ?w 0, ?w 0, ?w 1, ?w 1, ?w 1,
      ?w 0, ?w 1, ?w 1, ?w 0, ?w 1, E_submit t, ?w 0, ?w 0, ?w 0, ?w 0, ?w 1, ?w 1, ?w 1, ?w 1]"
  obtain s where s: "pool_run ?es (ThreadPool 1 MODE_CACHED 1 10 2) = Some s"
    and p: "m_poolMode s = MODE_CACHED" "m_isPoolRunning s" "m_queueTask s = [t]"
      "m_usCurThreadSize s = 0" "m_usThreadSize s = 1" "m_usCurThreadSize s < m_usMaxTreadSize s"
      "locs s = [L_gone, L_gone]"
    by (simp add: run_simps)
  have none: "threadFunc timeout expired i s = None" for timeout expired i
    using p(7) by (auto simp: threadFunc_def nth_Cons' less_Suc_eq)
  have "s' = s" if "worker_run n s s'" for n s'
    using that none by (induction n s s' rule: worker_run.induct) auto
  then show ?thesis using pool_run_reachable [OF s] p by blast
qed

definition sample_pool :: "nat thread_pool" where
  "sample_pool =
     the (pool_run [E_submit 7, E_submit 8, E_worker False False 0, E_worker False False 0]
       (ThreadPool 0 MODE_FIXED 1 10 1))"

lemma sample_pool_eq:
  "pool_run [E_submit 7, E_submit 8, E_worker False False 0, E_worker False False 0]
     (ThreadPool 0 MODE_FIXED 1 10 1) = Some sample_pool"
  by (simp add: run_simps sample_pool_def)

lemma sample_pool_reachable: "pool_reachable sample_pool"
  by (rule pool_run_reachable [OF sample_pool_eq])

lemma sample_pool_fields:
  "accepted sample_pool = [7, 8]" "locs sample_pool = [L_run 7]" "started sample_pool = [7]"
  "m_usIdleThreadSize sample_pool = 0" "m_usCurThreadSize sample_pool = 1"
  "m_queueTask sample_pool = [8]"
  by (simp_all add: run_simps sample_pool_def)

theorem pool_tasks_once_witness:
  "mset (started sample_pool) = mset (finished sample_pool) + total_over task_of sample_pool \<and>
   accepted sample_pool = [7, 8] \<and> m_queueTask sample_pool = [8]"
  using pool_tasks_once [OF sample_pool_reachable] sample_pool_fields by simp

theorem pool_counters_witness:
  "m_mapThreads sample_pool = {0} \<and> unat (m_usCurThreadSize sample_pool) = total_over live sample_pool"
proof -
  have m: "m_mapThreads sample_pool =
      {i. i < length (locs sample_pool) \<and> in_map (locs sample_pool ! i)}"
    and c: "unat (m_usCurThreadSize sample_pool) = total_over live sample_pool"
    using pool_counters [OF sample_pool_reachable] by blast+
  show ?thesis using c unfolding m sample_pool_fields by auto
qed

definition stopping_pool :: "nat thread_pool" where
  "stopping_pool =
     the (pool_run [E_submit 7, E_submit 8, E_worker False False 0, E_worker False False 0,
       E_stop_store, E_stop_notify] (ThreadPool 0 MODE_FIXED 1 10 1))"

lemma stopping_pool_eq:
  "pool_run [E_submit 7, E_submit 8, E_worker False False 0, E_worker False False 0,
     E_stop_store, E_stop_notify] (ThreadPool 0 MODE_FIXED 1 10 1) = Some stopping_pool"
  by (simp add: run_simps stopping_pool_def)

lemma stopping_pool_fields:
  "stop_at stopping_pool = S_wait" "locs stopping_pool = [L_run 7]"
  by (simp_all add: run_simps stopping_pool_def)

lemma stopping_pool_step:
  "\<exists>s'. threadFunc False False 0 stopping_pool = Some s'"
  by (simp add: threadFunc_def stopping_pool_fields)

theorem pool_stop_returns_witness:
  "stop_at stopping_pool = S_wait \<and>
   (\<exists>s'. worker_run 1 stopping_pool s' \<and> 1 \<le> 9 * length (locs stopping_pool) \<and>
     ((\<exists>timeout expired i s''. threadFunc timeout expired i s' = Some s'') \<or>
      (\<exists>s''. stop_return s' = Some s'')))"
proof -
  obtain s' where "threadFunc False False 0 stopping_pool = Some s'"
    using stopping_pool_step by blast
  then have run: "worker_run (Suc 0) stopping_pool s'" by (rule wr_step [OF wr_refl])
  have "pool_reachable stopping_pool" by (rule pool_run_reachable [OF stopping_pool_eq])
  from pool_stop_returns [OF this stopping_pool_fields(1) run] show ?thesis
    using run stopping_pool_fields(1) unfolding One_nat_def by blast
qed

theorem pool_starts_every_task_witness:
  "\<exists>s'. worker_run (3 * length (m_queueTask sample_pool) + 7) sample_pool s' \<and> m_queueTask s' = [] \<and>
     started s' = accepted s' \<and> (\<exists>timeout expired s''. threadFunc timeout expired 0 s' = Some s'')"
proof -
  have f: "m_isPoolRunning sample_pool" "m_poolMode sample_pool = MODE_FIXED"
    "unat (m_usThreadSize sample_pool) = 1" "length (locs sample_pool) = 1"
    by (simp_all add: run_simps sample_pool_def)
  note serves = pool_starts_every_task [OF sample_pool_reachable f(1,2)]
  have runs: "\<exists>s'. worker_run n sample_pool s'" for n
  proof (induction n)
    case 0
    show ?case by (intro exI) (rule wr_refl)
  next
    case (Suc n)
    then obtain s' where s': "worker_run n sample_pool s'" by blast
    then obtain timeout expired s'' where "threadFunc timeout expired 0 s' = Some s''" using serves f(3) by fastforce
    then show ?case using wr_step [OF s'] by blast
  qed
  then obtain s' where s': "worker_run (3 * length (m_queueTask sample_pool) + 7) sample_pool s'" by blast
  from serves [OF s'] f(3,4) s' show ?thesis by (intro exI [of _ s']) simp
qed

end
