(* ===== verification/LogBuffer.thy ===== *)
theory LogBuffer
  imports Prelude
begin

text \<open>
  The logger's text buffer and the writing of one log line into it
  (\<open>CBigBuff\<close> and the common tail of the log functions in
  src/code/common/source/util/Clogger.cpp). The buffer is a block of memory whose content before
  the first write is arbitrary; lengths and positions are kept in 32 bits as the class does, and
  every write is checked against the block, so leaving it is the result \<open>Undefined\<close>.
\<close>

subsection \<open>The buffer\<close>

record big_buff =
  m_buf :: string
  m_ulLen :: u32
  m_ulPos :: u32
  m_usTryIncrease :: u32

text \<open>The constructor; \<open>block\<close> is what \<open>new char[ulLen]\<close> returns.\<close>

definition CBigBuff :: "string \<Rightarrow> big_buff" where
  "CBigBuff block = \<lparr>m_buf = block, m_ulLen = word_of_nat (length block) - 1, m_ulPos = 0, m_usTryIncrease = 0\<rparr>"

definition put_at :: "nat \<Rightarrow> string \<Rightarrow> big_buff \<Rightarrow> big_buff result" where
  "put_at i cs b =
     (if i + length cs \<le> length (m_buf b) then Inr (b\<lparr>m_buf := splice_at i cs (m_buf b)\<rparr>)
      else Inl Undefined)"

definition tryWrite :: "string \<Rightarrow> big_buff \<Rightarrow> big_buff result" where
  "tryWrite cs b =
     and_then (put_at (unat (m_ulPos b)) cs b)
       (\<lambda>b. Inr (b\<lparr>m_usTryIncrease := m_usTryIncrease b + word_of_nat (length cs)\<rparr>))"

definition doneTry :: "big_buff \<Rightarrow> big_buff result" where
  "doneTry b =
     (let b = b\<lparr>m_ulPos := m_ulPos b + m_usTryIncrease b\<rparr>
      in and_then (put_at (unat (m_ulPos b)) [CHR 0x0A] b)
           (\<lambda>b. Inr (b\<lparr>m_ulPos := m_ulPos b + 1, m_usTryIncrease := 0\<rparr>)))"

definition zeroEnd :: "big_buff \<Rightarrow> big_buff result" where
  "zeroEnd b = put_at (unat (m_ulPos b)) [CHR 0x00] b"

definition clearTry :: "big_buff \<Rightarrow> big_buff result" where
  "clearTry b = put_at (unat (m_ulPos b)) [CHR 0x00] (b\<lparr>m_usTryIncrease := 0\<rparr>)"

definition getTryAvailid :: "big_buff \<Rightarrow> u32" where
  "getTryAvailid b = m_ulLen b - m_ulPos b - m_usTryIncrease b"

definition getTryCurrent :: "big_buff \<Rightarrow> nat" where
  "getTryCurrent b = unat (m_ulPos b) + unat (m_usTryIncrease b)"

definition addTryIncrease :: "u16 \<Rightarrow> big_buff \<Rightarrow> big_buff" where
  "addTryIncrease weakLen b = b\<lparr>m_usTryIncrease := m_usTryIncrease b + ucast weakLen\<rparr>"

definition clear :: "big_buff \<Rightarrow> big_buff" where
  "clear b = b\<lparr>m_ulPos := 0, m_usTryIncrease := 0\<rparr>"

definition getMaxLen :: "big_buff \<Rightarrow> u32" where
  "getMaxLen b = m_ulLen b"

definition getSize :: "big_buff \<Rightarrow> u32" where
  "getSize b = m_ulPos b"

text \<open>What \<open>write(getBuf(), getSize())\<close> puts out.\<close>

definition buf_text :: "big_buff \<Rightarrow> string" where
  "buf_text b = take (unat (m_ulPos b)) (m_buf b)"

text \<open>What \<open>stream << getBuf()\<close> puts out: the block up to its first NUL.\<close>

definition c_str_text :: "big_buff \<Rightarrow> string result" where
  "c_str_text b =
     (if CHR 0x00 \<in> set (m_buf b) then Inr (takeWhile (\<lambda>c. c \<noteq> CHR 0x00) (m_buf b)) else Inl Undefined)"

subsection \<open>One line\<close>

text \<open>
  \<open>snprintf\<close> and \<open>vsnprintf\<close>: of the text they format at most \<open>sz - 1\<close> characters and a NUL are
  stored. They return the length of the whole text, or \<open>-1\<close> after an error (\<open>ok\<close> false).
\<close>

definition c_snprintf :: "nat \<Rightarrow> nat \<Rightarrow> string \<Rightarrow> big_buff \<Rightarrow> big_buff result" where
  "c_snprintf dst sz txt b =
     (if sz = 0 then Inr b else put_at dst (take (sz - 1) txt @ [CHR 0x00]) b)"

definition c_snprintf_ret :: "bool \<Rightarrow> string \<Rightarrow> u32" where
  "c_snprintf_ret ok txt = (if ok then word_of_nat (length txt) else - 1)"

text \<open>
  The part every log function shares: the time stamp, the text, and the end of the line. The
  length returned is an \<open>int\<close>; the comparison with the unsigned limit converts it.
\<close>

definition append_line :: "u32 \<Rightarrow> string \<Rightarrow> bool \<Rightarrow> string \<Rightarrow> big_buff \<Rightarrow> big_buff result" where
  "append_line maxLen stamp ok msg b =
     and_then (c_snprintf (getTryCurrent b) 25 stamp b) (\<lambda>b.
       let b = addTryIncrease 24 b
       in and_then (c_snprintf (getTryCurrent b) (unat (getTryAvailid b)) msg b) (\<lambda>b.
         let strLen = c_snprintf_ret ok msg;
             strLen = (if strLen <s 0 then getTryAvailid b else strLen);
             strLen = (if maxLen < strLen then maxLen else strLen)
         in doneTry (addTryIncrease (ucast strLen) b)))"

subsection \<open>What a line does to the text\<close>

text \<open>
  A buffer between two lines: one byte more than its length is allocated, the position lies
  within, nothing is half written. The sizes used are far below \<open>2 ^ 31\<close>.
\<close>

definition wf_buf :: "big_buff \<Rightarrow> bool" where
  "wf_buf b \<longleftrightarrow> length (m_buf b) = unat (m_ulLen b) + 1 \<and> length (m_buf b) < 2 ^ 31 \<and>
     unat (m_ulPos b) \<le> unat (m_ulLen b) \<and> m_usTryIncrease b = 0"

definition room :: "big_buff \<Rightarrow> nat" where
  "room b = unat (m_ulLen b) - unat (m_ulPos b)"

lemma wf_CBigBuff:
  "block \<noteq> [] \<Longrightarrow> length block < 2 ^ 31 \<Longrightarrow> wf_buf (CBigBuff block) \<and> room (CBigBuff block) = length block - 1"
proof -
  assume b: "block \<noteq> []" "length block < 2 ^ 31"
  then have "unat (word_of_nat (length block) - 1 :: u32) = length block - 1"
    by (subst unat_minus_one) (simp_all add: unat_of_nat word_of_nat_eq_0_iff nat_dvd_not_less)
  then show ?thesis using b by (simp add: wf_buf_def CBigBuff_def room_def Suc_diff_1)
qed

lemma unat_sub_le: "unat (y :: 'a::len word) \<le> unat x \<Longrightarrow> unat (x - y) = unat x - unat y"
  by (simp add: unat_sub word_le_nat_alt)

lemma avail_room: "wf_buf b \<Longrightarrow> unat (getTryAvailid b) = room b"
  by (simp add: wf_buf_def getTryAvailid_def room_def unat_sub_le)

lemma wf_clear: "wf_buf b \<Longrightarrow> wf_buf (clear b) \<and> buf_text (clear b) = [] \<and> room (clear b) = unat (m_ulLen b)"
  by (simp add: wf_buf_def clear_def buf_text_def room_def)

lemma wf_zeroEnd:
  assumes "wf_buf b"
  shows "\<exists>b'. zeroEnd b = Inr b' \<and> wf_buf b' \<and> buf_text b' = buf_text b \<and> m_ulLen b' = m_ulLen b"
  using assms by (auto simp: zeroEnd_def put_at_def wf_buf_def buf_text_def splice_at_def)

lemma unat_add_small:
  "unat (x :: u32) + n < 2 ^ 32 \<Longrightarrow> unat (x + word_of_nat n) = unat x + n"
  by (simp add: unat_word_ariths unat_of_nat)

text \<open>The number of characters counted for a message.\<close>

definition counted :: "u32 \<Rightarrow> string \<Rightarrow> nat" where
  "counted maxLen msg = min (length msg) (unat maxLen)"

lemma ret_length:
  assumes "length msg < 2 ^ 31"
  shows "\<not> c_snprintf_ret True msg <s 0" "unat (c_snprintf_ret True msg) = length msg"
proof -
  show l: "unat (c_snprintf_ret True msg) = length msg"
    using assms by (simp add: c_snprintf_ret_def unat_of_nat)
  have "sint (c_snprintf_ret True msg) = int (length msg)"
    using sint_eq_unat [of "c_snprintf_ret True msg"] assms l by simp
  then show "\<not> c_snprintf_ret True msg <s 0" by (simp add: word_sless_alt)
qed

lemma word_of_nat_unat_u32: "word_of_nat (unat (w :: u32)) = w"
  by simp

lemma u16_value: "unat (w :: u32) < 2 ^ 16 \<Longrightarrow> unat (ucast w :: u16) = unat w"
  by (simp add: unsigned_ucast_eq take_bit_nat_eq_self)

lemma u32_of_u16: "unat (ucast (w :: u16) :: u32) = unat w"
proof -
  have "unat w < 2 ^ LENGTH(16)" by (rule unsigned_less)
  then have "unat w < 2 ^ 32" by simp
  then show ?thesis by (simp add: unsigned_ucast_eq take_bit_nat_eq_self)
qed

lemma counted_u16:
  assumes "length msg < 2 ^ 31" "unat maxLen < 2 ^ 16"
  shows "(ucast (ucast (if maxLen < c_snprintf_ret True msg then maxLen else c_snprintf_ret True msg) :: u16) :: u32) =
    word_of_nat (counted maxLen msg)"
proof -
  let ?w = "if maxLen < c_snprintf_ret True msg then maxLen else c_snprintf_ret True msg"
  have u: "unat ?w = counted maxLen msg"
    using ret_length [OF assms(1)] by (simp add: counted_def word_less_nat_alt)
  then have "counted maxLen msg < 2 ^ 16" using assms(2) by (simp add: counted_def)
  then have "unat (ucast (ucast ?w :: u16) :: u32) = counted maxLen msg"
    by (simp only: u32_of_u16) (simp add: u16_value u del: if_split)
  then show ?thesis by (metis word_of_nat_unat_u32)
qed

lemma splice_at_snoc:
  assumes "ys \<noteq> []" "i + length xs < length zs"
  shows "splice_at (i + length xs) ys (splice_at i (xs @ [c]) zs) = splice_at i (xs @ ys) zs"
proof -
  obtain n where n: "length ys = Suc n" using assms(1) by (cases ys) auto
  have "drop (i + length xs + length ys) (take i zs @ xs @ c # drop (Suc (i + length xs)) zs) =
      drop (i + length xs + length ys) zs"
    using assms(2) by (simp add: n ac_simps)
  then show ?thesis using assms(2) by (simp add: splice_at_def add.assoc)
qed

lemma append_line_split:
  assumes wf: "wf_buf b" and stamp: "length stamp = 24" and msg: "length msg < 2 ^ 31"
    and max: "unat maxLen < 2 ^ 16" and space: "25 \<le> room b"
  shows "append_line maxLen stamp True msg b =
    doneTry (b\<lparr>m_buf := splice_at (unat (m_ulPos b)) (stamp @ take (room b - 25) msg @ [CHR 0x00]) (m_buf b),
      m_usTryIncrease := word_of_nat (24 + counted maxLen msg)\<rparr>)"
proof -
  let ?p = "unat (m_ulPos b)"
  let ?b1 = "b\<lparr>m_buf := splice_at ?p (stamp @ [CHR 0x00]) (m_buf b)\<rparr>"
  let ?b2 = "addTryIncrease 24 ?b1"
  let ?m = "take (room b - 25) msg @ [CHR 0x00]"
  have L: "length (m_buf b) = unat (m_ulLen b) + 1" "?p + room b = unat (m_ulLen b)"
    "m_usTryIncrease b = 0" "length (m_buf b) < 2 ^ 31"
    using wf by (simp_all add: wf_buf_def room_def)
  have c: "getTryCurrent b = ?p" using L by (simp add: getTryCurrent_def)
  have one: "c_snprintf (getTryCurrent b) 25 stamp b = Inr ?b1"
    using L stamp space unfolding c by (simp add: c_snprintf_def put_at_def)
  have t: "m_usTryIncrease ?b2 = 24" using L by (simp add: addTryIncrease_def)
  then have c2: "getTryCurrent ?b2 = ?p + length stamp" by (simp add: getTryCurrent_def addTryIncrease_def stamp)
  have "unat (m_ulLen b - m_ulPos b) = room b" using L by (simp add: room_def unat_sub_le)
  then have a: "unat (getTryAvailid ?b2) = room b - 24"
    using t space by (simp add: getTryAvailid_def addTryIncrease_def unat_sub_le)
  have two: "c_snprintf (getTryCurrent ?b2) (unat (getTryAvailid ?b2)) msg ?b2 =
      Inr (?b2\<lparr>m_buf := splice_at ?p (stamp @ ?m) (m_buf b)\<rparr>)"
    using L space splice_at_snoc [of ?m ?p stamp "m_buf b" "CHR 0x00"] stamp unfolding c2 a
    by (simp add: c_snprintf_def put_at_def addTryIncrease_def)
  have neg: "(c_snprintf_ret True msg <s 0) = False" using ret_length(1) [OF msg] by simp
  have key: "addTryIncrease (ucast w) (?b2\<lparr>m_buf := splice_at ?p (stamp @ ?m) (m_buf b)\<rparr>) =
      b\<lparr>m_buf := splice_at ?p (stamp @ ?m) (m_buf b), m_usTryIncrease := word_of_nat (24 + n)\<rparr>"
    if "(ucast (ucast w :: u16) :: u32) = word_of_nat n" for w :: u32 and n
    using that L by (simp add: addTryIncrease_def)
  show ?thesis
    unfolding append_line_def one and_then_simps Let_def two neg if_False
      key [OF counted_u16 [OF msg max]] by simp
qed

text \<open>The whole block after a message within the limit: nothing past the newline changes.\<close>

lemma append_line_memory:
  assumes wf: "wf_buf b" and stamp: "length stamp = 24" and msg: "length msg \<le> unat maxLen"
    and max: "unat maxLen < 2 ^ 16" and fits: "24 + length msg < room b"
  shows "\<exists>b'. append_line maxLen stamp True msg b = Inr b' \<and>
    m_buf b' = splice_at (unat (m_ulPos b)) (stamp @ msg @ [CHR 0x0A]) (m_buf b)"
proof -
  have L: "length (m_buf b) = unat (m_ulLen b) + 1" "unat (m_ulPos b) + room b = unat (m_ulLen b)"
    "length (m_buf b) < 2 ^ 31"
    using wf by (simp_all add: wf_buf_def room_def)
  have c: "counted maxLen msg = length msg" using msg by (simp add: counted_def)
  have pos: "unat (m_ulPos b + word_of_nat (24 + length msg)) = unat (m_ulPos b) + length (stamp @ msg)"
    using L msg max stamp unat_add_small [of "m_ulPos b" "24 + length msg"] by simp
  have "splice_at (unat (m_ulPos b) + length (stamp @ msg)) [CHR 0x0A]
      (splice_at (unat (m_ulPos b)) ((stamp @ msg) @ [CHR 0x00]) (m_buf b)) =
      splice_at (unat (m_ulPos b)) ((stamp @ msg) @ [CHR 0x0A]) (m_buf b)"
    using L fits stamp by (intro splice_at_snoc) simp_all
  then show ?thesis
    using append_line_split [OF wf stamp _ max, of msg] fits msg max L c pos stamp
    by (simp add: doneTry_def put_at_def Let_def del: of_nat_add)
qed

text \<open>What stays of the message: all that is counted, or, when it ends at the limit, a NUL last.\<close>

definition kept :: "nat \<Rightarrow> u32 \<Rightarrow> string \<Rightarrow> string" where
  "kept r maxLen msg =
     (let n = counted maxLen msg
      in if 24 + n < r then take n msg else take (n - 1) msg @ [CHR 0x00])"

lemma take_splice_at:
  assumes "i \<le> length zs" "k \<le> length ys"
  shows "take (i + k) (splice_at i ys zs) = take i zs @ take k ys"
  using assms by (simp add: splice_at_def)

lemma append_line_overflow:
  assumes wf: "wf_buf b" and stamp: "length stamp = 24" and msg: "length msg < 2 ^ 31"
    and max: "unat maxLen < 2 ^ 16" and space: "25 \<le> room b" and over: "room b < 24 + counted maxLen msg"
  shows "append_line maxLen stamp True msg b = Inl Undefined"
proof -
  have L: "length (m_buf b) = unat (m_ulLen b) + 1" "unat (m_ulPos b) + room b = unat (m_ulLen b)"
    "length (m_buf b) < 2 ^ 31"
    using wf by (simp_all add: wf_buf_def room_def)
  have "counted maxLen msg < 2 ^ 16" using max by (simp add: counted_def)
  then have "unat (m_ulPos b + word_of_nat (24 + counted maxLen msg)) = unat (m_ulPos b) + (24 + counted maxLen msg)"
    using L by (intro unat_add_small) simp
  then show ?thesis
    unfolding append_line_split [OF wf stamp msg max space] using L over stamp space
    by (simp add: doneTry_def put_at_def Let_def)
qed

lemma append_line_text:
  assumes wf: "wf_buf b" and stamp: "length stamp = 24" and msg: "length msg < 2 ^ 31"
    and max: "unat maxLen < 2 ^ 16" and space: "25 \<le> room b" and fits: "24 + counted maxLen msg \<le> room b"
  shows "\<exists>b'. append_line maxLen stamp True msg b = Inr b' \<and>
    buf_text b' = buf_text b @ stamp @ kept (room b) maxLen msg @ [CHR 0x0A] \<and>
    m_ulLen b' = m_ulLen b \<and> length (m_buf b') = length (m_buf b) \<and> m_usTryIncrease b' = 0 \<and>
    unat (m_ulPos b') = unat (m_ulPos b) + 25 + counted maxLen msg"
proof -
  let ?p = "unat (m_ulPos b)" and ?n = "counted maxLen msg"
  let ?line = "stamp @ take (room b - 25) msg @ [CHR 0x00]"
  let ?m = "splice_at ?p ?line (m_buf b)"
  have L: "length (m_buf b) = unat (m_ulLen b) + 1" "?p + room b = unat (m_ulLen b)"
    "length (m_buf b) < 2 ^ 31"
    using wf by (simp_all add: wf_buf_def room_def)
  have n: "?n < 2 ^ 16" "?n \<le> length msg" using max by (simp_all add: counted_def)
  have pos: "unat (m_ulPos b + word_of_nat (24 + ?n)) = ?p + (24 + ?n)"
    using L n by (intro unat_add_small) simp
  have pos1: "unat (m_ulPos b + word_of_nat (24 + ?n) + 1) = ?p + 25 + ?n"
    using unat_add_small [of "m_ulPos b + word_of_nat (24 + ?n)" 1] L n pos by simp
  have lm: "length ?m = length (m_buf b)" using L stamp space by (intro length_splice_at) simp
  have edge: "24 + ?n = room b \<Longrightarrow> room b - 25 = ?n - Suc 0" by simp
  have short: "24 + ?n \<le> length ?line" using stamp fits n by simp
  have "take (?p + (24 + ?n)) ?m = take ?p (m_buf b) @ take (24 + ?n) ?line"
    using L short by (intro take_splice_at) simp_all
  also have "take (24 + ?n) ?line = stamp @ kept (room b) maxLen msg"
    using stamp fits n space edge by (auto simp: kept_def Let_def min_def)
  finally have t: "take (?p + (24 + ?n)) ?m = take ?p (m_buf b) @ stamp @ kept (room b) maxLen msg" .
  obtain q where q: "q = ?p + (24 + ?n)" by simp
  have ql: "q < length ?m" "q < length (m_buf b)" using L fits lm by (simp_all add: q)
  have take1: "take (Suc q) (splice_at q [CHR 0x0A] ?m) = take q ?m @ [CHR 0x0A]"
    using take_splice_at [of q ?m 1 "[CHR 0x0A]"] ql by simp
  have posq: "unat (m_ulPos b + word_of_nat (24 + ?n)) = q"
    "unat (m_ulPos b + word_of_nat (24 + ?n) + 1) = Suc q"
    using pos pos1 by (simp_all add: q)
  show ?thesis
    unfolding append_line_split [OF wf stamp msg max space]
    using posq take1 t [folded q] lm ql q
    by (simp add: doneTry_def put_at_def Let_def buf_text_def del: of_nat_add)
qed

text \<open>A line that leaves space for itself.\<close>

lemma append_line_wf:
  assumes wf: "wf_buf b" and stamp: "length stamp = 24" and msg: "length msg < 2 ^ 31"
    and max: "unat maxLen < 2 ^ 16" and fits: "24 + counted maxLen msg < room b"
  shows "\<exists>b'. append_line maxLen stamp True msg b = Inr b' \<and> wf_buf b' \<and> m_ulLen b' = m_ulLen b \<and>
    buf_text b' = buf_text b @ stamp @ take (unat maxLen) msg @ [CHR 0x0A]"
proof -
  have "25 \<le> room b" "24 + counted maxLen msg \<le> room b" using fits by simp_all
  from append_line_text [OF wf stamp msg max this] obtain b' where
    b': "append_line maxLen stamp True msg b = Inr b'"
      "buf_text b' = buf_text b @ stamp @ kept (room b) maxLen msg @ [CHR 0x0A]"
      "m_ulLen b' = m_ulLen b" "length (m_buf b') = length (m_buf b)" "m_usTryIncrease b' = 0"
      "unat (m_ulPos b') = unat (m_ulPos b) + 25 + counted maxLen msg" by blast
  have "wf_buf b'" using wf fits b'(3-6) by (simp add: wf_buf_def room_def)
  moreover have "kept (room b) maxLen msg = take (unat maxLen) msg"
    using fits by (simp add: kept_def Let_def counted_def min_def)
  ultimately show ?thesis using b' by auto
qed

text \<open>
  C29: the text of a line is stored exactly when it leaves a byte of room: then the time stamp,
  the first \<open>maxLen\<close> characters of the message and a newline follow what the buffer held. A line
  that ends at the limit has its last character replaced by a NUL, and a longer one is counted in
  full although \<open>vsnprintf\<close> cut it, so that its newline is written past the end of the block.
\<close>

theorem log_line_room:
  assumes "wf_buf b" "length stamp = 24" "length msg < 2 ^ 31" "unat maxLen < 2 ^ 16" "25 \<le> room b"
  shows "if room b < 24 + counted maxLen msg then append_line maxLen stamp True msg b = Inl Undefined
    else \<exists>b'. append_line maxLen stamp True msg b = Inr b' \<and>
      buf_text b' = buf_text b @ stamp @
        (if 24 + counted maxLen msg < room b then take (unat maxLen) msg
         else take (counted maxLen msg - 1) msg @ [CHR 0x00]) @ [CHR 0x0A]"
proof (cases "room b < 24 + counted maxLen msg")
  case True
  then show ?thesis using append_line_overflow [OF assms] by simp
next
  case False
  then have "24 + counted maxLen msg \<le> room b" by simp
  moreover have "kept (room b) maxLen msg =
      (if 24 + counted maxLen msg < room b then take (unat maxLen) msg
       else take (counted maxLen msg - 1) msg @ [CHR 0x00])"
    by (simp add: kept_def Let_def counted_def min_def)
  ultimately show ?thesis using append_line_text [OF assms] False by auto
qed

theorem log_line_room_witness:
  "append_line 2048 (replicate 24 CHR ''s'') True (replicate 20 CHR ''m'')
     (CBigBuff (replicate 40 CHR ''?'')) = Inl Undefined \<and>
   (\<exists>b'. append_line 2048 (replicate 24 CHR ''s'') True ''m''
     (CBigBuff (replicate 40 CHR ''?'')) = Inr b' \<and>
     buf_text b' = replicate 24 CHR ''s'' @ ''m'' @ [CHR 0x0A])"
proof -
  let ?b = "CBigBuff (replicate 40 CHR ''?'')"
  have b: "wf_buf ?b" "room ?b = 39" using wf_CBigBuff [of "replicate 40 CHR ''?''"] by simp_all
  then have r: "25 \<le> room ?b" by simp
  have t: "buf_text ?b = []" by (simp add: buf_text_def CBigBuff_def)
  show ?thesis
    using log_line_room [OF b(1) _ _ _ r, of "replicate 24 CHR ''s''" "replicate 20 CHR ''m''" 2048]
      log_line_room [OF b(1) _ _ _ r, of "replicate 24 CHR ''s''" "''m''" 2048] b(2)
      t by (simp add: counted_def)
qed

end
