(* ===== verification/Logger.thy ===== *)
theory Logger
  imports LogBuffer "HOL-Library.Sublist"
begin

text \<open>
  The logger (src/code/common/include/util/Clogger.h, src/code/common/source/util/Clogger.cpp):
  the log functions, the hand-over of full buffers to the writing thread, start and stop, and the
  rotation of the log files. The file system is a map from paths to contents. Each critical
  section of the logger's mutex is one step, but for the moment of a hand-over in a log call at
  which the write buffer is moved out and \<open>m_pBufWrite\<close> is null: the writing thread's tests,
  which do not take the mutex, may fall there. The message a call formats, the clock, and whether
  a file can be opened are arguments.
\<close>

subsection \<open>Levels, time and file names\<close>

datatype emLogLevel = Log_Off | Log_Forece | Log_Fatal | Log_Error | Log_Warn | Log_Info | Log_Debug

fun level_value :: "emLogLevel \<Rightarrow> int" where
  "level_value Log_Off = -1" | "level_value Log_Forece = 0" | "level_value Log_Fatal = 1"
| "level_value Log_Error = 2" | "level_value Log_Warn = 3" | "level_value Log_Info = 4"
| "level_value Log_Debug = 5"

lemma level_value_inj: "level_value a = level_value b \<Longrightarrow> a = b"
  by (cases a; cases b) simp_all

instantiation emLogLevel :: linorder
begin

definition less_eq_emLogLevel :: "emLogLevel \<Rightarrow> emLogLevel \<Rightarrow> bool" where
  "less_eq_emLogLevel a b \<longleftrightarrow> level_value a \<le> level_value b"

definition less_emLogLevel :: "emLogLevel \<Rightarrow> emLogLevel \<Rightarrow> bool" where
  "less_emLogLevel a b \<longleftrightarrow> level_value a < level_value b"

instance
  by standard (auto simp: less_eq_emLogLevel_def less_emLogLevel_def intro: level_value_inj)

end

text \<open>The fields of \<open>localtime\<close> the logger reads; the year and the month are as printed.\<close>

record tm =
  tm_year :: nat
  tm_mon :: nat
  tm_mday :: nat
  tm_hour :: nat
  tm_min :: nat
  tm_sec :: nat

definition zero_pad :: "nat \<Rightarrow> nat \<Rightarrow> string" where
  "zero_pad k n = replicate (k - length (dec_nat n)) (CHR ''0'') @ dec_nat n"

text \<open>\<open>"%04d-%02d-%02d %02d:%02d:%02d"\<close>, cut to the 31 characters \<open>m_szLastTime\<close> holds.\<close>

definition format_time :: "tm \<Rightarrow> string" where
  "format_time t = take 31
     (zero_pad 4 (tm_year t) @ ''-'' @ zero_pad 2 (tm_mon t) @ ''-'' @ zero_pad 2 (tm_mday t) @ '' '' @
      zero_pad 2 (tm_hour t) @ '':'' @ zero_pad 2 (tm_min t) @ '':'' @ zero_pad 2 (tm_sec t))"

definition to_string_int :: "int \<Rightarrow> string" where
  "to_string_int i = (if i < 0 then CHR ''-'' # dec_nat (nat (- i)) else dec_nat (nat i))"

type_synonym files = "string \<rightharpoonup> string"

text \<open>\<open>rename\<close> replaces a file at the new name; without a file at the old one it does nothing.\<close>

definition rename_file :: "string \<Rightarrow> string \<Rightarrow> files \<Rightarrow> files" where
  "rename_file a b fs = (case fs a of None \<Rightarrow> fs | Some t \<Rightarrow> fs(a := None, b := Some t))"

definition log_name :: "string \<Rightarrow> int \<Rightarrow> string" where
  "log_name path i = path @ ''.'' @ to_string_int i"

subsection \<open>State\<close>

text \<open>Where the writing thread is; \<open>D_none\<close> when there is none.\<close>

datatype deal_loc = D_none | D_test | D_wait | D_check | D_swap | D_loop | D_recycle | D_exit

record logger =
  m_LogLevel :: emLogLevel
  m_fileNum :: u32
  m_fileSize :: u64
  m_bAsynLog :: bool
  m_logStream :: bool
  m_bRunning :: bool
  m_lastTime :: tm
  m_szLastTime :: string
  m_lMaxStrLen :: u32
  m_ulBigBufSize :: u32
  m_strLogDir :: string
  m_strLogName :: string
  m_strFilePath :: string
  m_pBufWrite :: big_buff
  m_pBufDeal :: "big_buff option"
  m_queBufsWrite :: "big_buff list"
  m_queBufsDeal :: "big_buff list"
  m_queBufsEmpty :: "big_buff list"
  handing :: bool
  files :: files
  deal_at :: deal_loc
  logged :: string
  flushed :: string
  dropped :: "string list"

text \<open>
  The constructor before \<open>start\<close>. The members it leaves without a value (the running flag and
  the last time with its text) and the four blocks \<open>new\<close> returns are arguments. \<open>handing\<close> says
  that a log call holds the mutex and has moved the write buffer out. \<open>logged\<close> is the text of all
  lines so far, \<open>flushed\<close> what was handed to the stream and \<open>dropped\<close> the contents of the oldest
  file at each rotation; these only observe.
\<close>

definition CLogger ::
    "bool \<Rightarrow> tm \<Rightarrow> string \<Rightarrow> string list \<Rightarrow> files \<Rightarrow> u32 \<Rightarrow> u64 \<Rightarrow> bool \<Rightarrow> logger" where
  "CLogger running time szTime blocks fs ulFileNum ullFileSize bAsyn =
     \<lparr>m_LogLevel = Log_Debug, m_fileNum = ulFileNum, m_fileSize = ullFileSize * 1024 * 1024,
       m_bAsynLog = bAsyn, m_logStream = False, m_bRunning = running, m_lastTime = time,
       m_szLastTime = szTime, m_lMaxStrLen = 2048, m_ulBigBufSize = 1024 * 1024,
       m_strLogDir = [], m_strLogName = [], m_strFilePath = [],
       m_pBufWrite = CBigBuff (blocks ! 0), m_pBufDeal = None, m_queBufsWrite = [],
       m_queBufsDeal = [], m_queBufsEmpty = map CBigBuff (take 3 (drop 1 blocks)),
       handing = False, files = fs, deal_at = D_none, logged = [], flushed = [], dropped = []\<rparr>"

subsection \<open>Writing\<close>

text \<open>A stream that is not open drops the text.\<close>

definition stream_write :: "string \<Rightarrow> logger \<Rightarrow> logger" where
  "stream_write txt s =
     (let s = s\<lparr>flushed := flushed s @ txt\<rparr>
      in if m_logStream s
         then s\<lparr>files := (files s)(m_strFilePath s \<mapsto>
             (case files s (m_strFilePath s) of None \<Rightarrow> [] | Some t \<Rightarrow> t) @ txt)\<rparr>
         else s)"

text \<open>\<open>tellp\<close> is \<open>-1\<close> for a stream that is not open, and the comparison with the limit unsigned.\<close>

definition tellp :: "logger \<Rightarrow> u64" where
  "tellp s = (if m_logStream s
     then word_of_nat (length (case files s (m_strFilePath s) of None \<Rightarrow> [] | Some t \<Rightarrow> t)) else - 1)"

text \<open>The loop of \<open>fileSizeCheck\<close>, at index \<open>k\<close>.\<close>

fun shift_logs :: "string \<Rightarrow> nat \<Rightarrow> files \<Rightarrow> files" where
  "shift_logs path 0 fs = fs"
| "shift_logs path (Suc k) fs =
     shift_logs path k (rename_file (log_name path (int (Suc k))) (log_name path (int (Suc (Suc k)))) fs)"

definition rotate_logs :: "string \<Rightarrow> int \<Rightarrow> files \<Rightarrow> files" where
  "rotate_logs path n fs =
     (let fs = fs(log_name path n := None);
          fs = shift_logs path (nat (n - 1)) fs
      in rename_file path (log_name path (if 1 < n then 1 else n)) fs)"

text \<open>Opening for appending makes the file when there is none.\<close>

definition opened :: "string \<Rightarrow> files \<Rightarrow> files" where
  "opened path fs = fs(path \<mapsto> (case fs path of None \<Rightarrow> [] | Some t \<Rightarrow> t))"

definition open_log :: "bool \<Rightarrow> logger \<Rightarrow> logger" where
  "open_log can_open s =
     (if can_open then s\<lparr>m_logStream := True, files := opened (m_strFilePath s) (files s)\<rparr>
      else s\<lparr>m_logStream := False\<rparr>)"

definition content :: "string option \<Rightarrow> string" where
  "content f = (case f of None \<Rightarrow> [] | Some t \<Rightarrow> t)"

text \<open>The file number is converted to \<open>int32_t\<close>, whose least value cannot be decremented.\<close>

definition fileSizeCheck :: "bool \<Rightarrow> logger \<Rightarrow> logger result" where
  "fileSizeCheck can_open s =
     (if m_fileSize s < tellp s
      then if sint (m_fileNum s) = - (2 ^ 31) then Inl Undefined
           else Inr (open_log can_open (s\<lparr>
             files := rotate_logs (m_strFilePath s) (sint (m_fileNum s)) (files s),
             dropped := dropped s @ [content (files s (log_name (m_strFilePath s) (sint (m_fileNum s))))]\<rparr>))
      else Inr s)"

definition updateBufWrite :: "string \<Rightarrow> logger \<Rightarrow> logger result" where
  "updateBufWrite block s =
     and_then (zeroEnd (m_pBufWrite s)) (\<lambda>b.
       let s = s\<lparr>m_queBufsWrite := m_queBufsWrite s @ [b], handing := False\<rparr>
       in Inr (case m_queBufsEmpty s of
            e # es \<Rightarrow> s\<lparr>m_pBufWrite := e, m_queBufsEmpty := es\<rparr>
          | [] \<Rightarrow> s\<lparr>m_pBufWrite := CBigBuff block\<rparr>))"

subsection \<open>The log functions\<close>

definition refresh_time :: "tm \<Rightarrow> logger \<Rightarrow> logger" where
  "refresh_time now s =
     (if now \<noteq> m_lastTime s then s\<lparr>m_lastTime := now, m_szLastTime := format_time now\<rparr> else s)"

definition stamp :: "logger \<Rightarrow> nat \<Rightarrow> string" where
  "stamp s now_ms = m_szLastTime s @ ''.'' @ zero_pad 3 now_ms @ '' ''"

text \<open>
  What every log function does first: refresh the cached time, hand the buffer over when it has
  at most 1024 bytes left, append the line.
\<close>

definition log_line :: "tm \<Rightarrow> nat \<Rightarrow> bool \<Rightarrow> string \<Rightarrow> string \<Rightarrow> logger \<Rightarrow> logger result" where
  "log_line now now_ms ok msg block s =
     (let s = refresh_time now s
      in and_then (if m_bAsynLog s \<and> getTryAvailid (m_pBufWrite s) \<le> 1024
                   then updateBufWrite block s else Inr s) (\<lambda>s.
           and_then (append_line (m_lMaxStrLen s) (stamp s now_ms) ok msg (m_pBufWrite s)) (\<lambda>b.
             Inr (s\<lparr>m_pBufWrite := b,
               logged := logged s @ stamp s now_ms @ take (unat (m_lMaxStrLen s)) msg @ [CHR 0x0A]\<rparr>))))"

definition logWrite ::
    "bool \<Rightarrow> tm \<Rightarrow> nat \<Rightarrow> bool \<Rightarrow> string \<Rightarrow> string \<Rightarrow> logger \<Rightarrow> logger result" where
  "logWrite can_open now now_ms ok msg block s =
     and_then (log_line now now_ms ok msg block s) (\<lambda>s.
       if m_bAsynLog s then Inr s
       else let s = stream_write (buf_text (m_pBufWrite s)) s
            in fileSizeCheck can_open (s\<lparr>m_pBufWrite := clear (m_pBufWrite s)\<rparr>))"

text \<open>
  \<open>LOG_BY_LEVEL\<close>, the body of \<open>logForce\<close> to \<open>logDebug\<close>: without the thread it writes the block
  as a C string, where \<open>logWrite\<close> writes the text.
\<close>

definition LOG_BY_LEVEL ::
    "emLogLevel \<Rightarrow> bool \<Rightarrow> tm \<Rightarrow> nat \<Rightarrow> bool \<Rightarrow> string \<Rightarrow> string \<Rightarrow> logger \<Rightarrow> logger result" where
  "LOG_BY_LEVEL logLevel can_open now now_ms ok msg block s =
     (if m_LogLevel s < logLevel then Inr s
      else and_then (log_line now now_ms ok msg block s) (\<lambda>s.
        if m_bAsynLog s then Inr s
        else and_then (c_str_text (m_pBufWrite s)) (\<lambda>txt.
          let s = stream_write txt s
          in fileSizeCheck can_open (s\<lparr>m_pBufWrite := clear (m_pBufWrite s)\<rparr>))))"

definition logForce :: "bool \<Rightarrow> tm \<Rightarrow> nat \<Rightarrow> bool \<Rightarrow> string \<Rightarrow> string \<Rightarrow> logger \<Rightarrow> logger result" where
  "logForce = LOG_BY_LEVEL Log_Forece"

definition logFatal :: "bool \<Rightarrow> tm \<Rightarrow> nat \<Rightarrow> bool \<Rightarrow> string \<Rightarrow> string \<Rightarrow> logger \<Rightarrow> logger result" where
  "logFatal = LOG_BY_LEVEL Log_Fatal"

definition logError :: "bool \<Rightarrow> tm \<Rightarrow> nat \<Rightarrow> bool \<Rightarrow> string \<Rightarrow> string \<Rightarrow> logger \<Rightarrow> logger result" where
  "logError = LOG_BY_LEVEL Log_Error"

definition logWarn :: "bool \<Rightarrow> tm \<Rightarrow> nat \<Rightarrow> bool \<Rightarrow> string \<Rightarrow> string \<Rightarrow> logger \<Rightarrow> logger result" where
  "logWarn = LOG_BY_LEVEL Log_Warn"

definition logInfo :: "bool \<Rightarrow> tm \<Rightarrow> nat \<Rightarrow> bool \<Rightarrow> string \<Rightarrow> string \<Rightarrow> logger \<Rightarrow> logger result" where
  "logInfo = LOG_BY_LEVEL Log_Info"

definition logDebug :: "bool \<Rightarrow> tm \<Rightarrow> nat \<Rightarrow> bool \<Rightarrow> string \<Rightarrow> string \<Rightarrow> logger \<Rightarrow> logger result" where
  "logDebug = LOG_BY_LEVEL Log_Debug"

subsection \<open>Starting, stopping and the writing thread\<close>

text \<open>\<open>dir_ok\<close>: the directory exists or could be made.\<close>

definition init :: "bool \<Rightarrow> string \<Rightarrow> string \<Rightarrow> logger \<Rightarrow> bool \<times> logger" where
  "init dir_ok strPath strName s =
     (let s = s\<lparr>m_strLogDir := strPath, m_strLogName := strName,
                m_strFilePath := strPath @ strName @ ''.log''\<rparr>
      in if dir_ok then (True, s) else (False, s\<lparr>m_LogLevel := Log_Off\<rparr>))"

definition start_stream :: "bool \<Rightarrow> logger \<Rightarrow> bool \<times> logger" where
  "start_stream open_ok s =
     (if m_logStream s then (True, s) else (open_ok, open_log open_ok s))"

text \<open>\<open>appPath\<close> and \<open>appName\<close> are what \<open>getAppPathAndName\<close> finds.\<close>

definition start ::
    "bool \<Rightarrow> bool \<Rightarrow> string \<Rightarrow> string \<Rightarrow> bool \<Rightarrow> tm \<Rightarrow> nat \<Rightarrow> string \<Rightarrow> string \<Rightarrow> logger \<Rightarrow>
      (bool \<times> logger) result" where
  "start dir_ok open_ok appPath appName can_open now now_ms msg block s =
     (case (if m_strLogDir s = [] \<or> m_strLogName s = []
            then init dir_ok (appPath @ ''log/'') appName s else (True, s)) of
        (False, s) \<Rightarrow> Inr (False, s)
      | (True, s) \<Rightarrow>
          (case start_stream open_ok s of
             (False, s) \<Rightarrow> Inr (False, s)
           | (True, s) \<Rightarrow>
               and_then (logWrite can_open now now_ms True msg block
                  (if m_bAsynLog s then s\<lparr>m_bRunning := True, deal_at := D_test\<rparr> else s))
                 (\<lambda>s. Inr (True, s))))"

text \<open>
  \<open>stop\<close> on a running logger, after its last line: the flag, then the join and the closing of
  the stream.
\<close>

definition stop_store :: "logger \<Rightarrow> logger" where
  "stop_store s = s\<lparr>m_bRunning := False\<rparr>"

definition stop_join :: "logger \<Rightarrow> logger option" where
  "stop_join s =
     (if \<not> m_bRunning s \<and> deal_at s \<in> {D_none, D_exit} then Some (s\<lparr>m_logStream := False\<rparr>) else None)"

text \<open>
  A step of \<open>dealThread\<close>. The tests of the loop and of the buffers read without the mutex and are
  steps of their own; in the middle of a hand-over they dereference the null pointer, unless the
  run flag ends the test before. Where the thread needs the mutex it is blocked then. A wait ends
  by a notification, the time limit or a spurious wakeup.
\<close>

definition dealThread :: "bool \<Rightarrow> string \<Rightarrow> logger \<Rightarrow> logger result option" where
  "dealThread can_open block s =
     (case deal_at s of
        D_none \<Rightarrow> None
      | D_test \<Rightarrow> if \<not> m_bRunning s \<and> handing s then Some (Inl Undefined)
            else Some (Inr (s\<lparr>deal_at :=
            if m_bRunning s \<or> getSize (m_pBufWrite s) \<noteq> 0 \<or> m_queBufsWrite s \<noteq> [] then D_wait else D_exit\<rparr>))
      | D_wait \<Rightarrow> if handing s then None else Some (Inr (s\<lparr>deal_at := D_check\<rparr>))
      | D_check \<Rightarrow> if handing s then Some (Inl Undefined) else Some (Inr (s\<lparr>deal_at :=
            if 0 < getSize (m_pBufWrite s) \<or> m_queBufsWrite s \<noteq> [] then D_swap else D_test\<rparr>))
      | D_swap \<Rightarrow> if handing s then None else Some (and_then (updateBufWrite block s) (\<lambda>s.
            Inr (s\<lparr>m_queBufsDeal := m_queBufsWrite s, m_queBufsWrite := [], deal_at := D_loop\<rparr>)))
      | D_loop \<Rightarrow> (case m_queBufsDeal s of
            [] \<Rightarrow> Some (Inr (s\<lparr>deal_at := D_test\<rparr>))
          | b # bs \<Rightarrow> Some (and_then
                (fileSizeCheck can_open (stream_write (buf_text b)
                  (s\<lparr>m_queBufsDeal := bs, m_pBufDeal := Some (clear b)\<rparr>)))
                (\<lambda>s. Inr (s\<lparr>deal_at := D_recycle\<rparr>))))
      | D_recycle \<Rightarrow> if handing s then None else (case m_pBufDeal s of
            None \<Rightarrow> Some (Inl Undefined)
          | Some b \<Rightarrow> Some (Inr (s\<lparr>m_queBufsEmpty := m_queBufsEmpty s @ [b], m_pBufDeal := None, deal_at := D_loop\<rparr>)))
      | D_exit \<Rightarrow> None)"

subsection \<open>Runs of the asynchronous logger\<close>

text \<open>
  What callers have to keep to: a year of four digits, a message of at most a thousand
  characters. \<open>reopens\<close> says that the log file can always be opened again. A log call that will
  hand its buffer over may pause with the buffer moved out (\<open>l_handover\<close>); it then goes on with
  \<open>l_write\<close> or \<open>l_level\<close>, as the only holder of the mutex.
\<close>

definition line_ok :: "tm \<Rightarrow> nat \<Rightarrow> string \<Rightarrow> bool" where
  "line_ok now now_ms msg \<longleftrightarrow> length (format_time now) = 19 \<and> now_ms < 1000 \<and> length msg \<le> 1000"

definition block_ok :: "string \<Rightarrow> bool" where
  "block_ok block \<longleftrightarrow> length block = 1024 * 1024"

inductive logger_step :: "bool \<Rightarrow> logger \<Rightarrow> logger \<Rightarrow> bool" for reopens where
  l_handover: "m_bAsynLog s \<Longrightarrow> getTryAvailid (m_pBufWrite s) \<le> 1024 \<Longrightarrow>
    logger_step reopens s (s\<lparr>handing := True\<rparr>)"
|  l_write: "logWrite can_open now now_ms True msg block s = Inr s' \<Longrightarrow> line_ok now now_ms msg \<Longrightarrow>
    block_ok block \<Longrightarrow> logger_step reopens s s'"
| l_level: "LOG_BY_LEVEL lvl can_open now now_ms True msg block s = Inr s' \<Longrightarrow> line_ok now now_ms msg \<Longrightarrow>
    block_ok block \<Longrightarrow> logger_step reopens s s'"
| l_deal: "dealThread can_open block s = Some (Inr s') \<Longrightarrow> block_ok block \<Longrightarrow>
    reopens \<longrightarrow> can_open \<Longrightarrow> logger_step reopens s s'"
| l_stop: "logger_step reopens s (stop_store s)"

inductive logger_steps :: "bool \<Rightarrow> logger \<Rightarrow> logger \<Rightarrow> bool" for reopens where
  ls_refl: "logger_steps reopens s s"
| ls_step: "logger_steps reopens s s' \<Longrightarrow> logger_step reopens s' s'' \<Longrightarrow> logger_steps reopens s s''"

text \<open>
  The asynchronous logger after its constructor, whose \<open>start\<close> succeeded. The cached time has no
  value at first; here it differs from the time of the first line.
\<close>

definition started_logger :: "files \<Rightarrow> u32 \<Rightarrow> u64 \<Rightarrow> logger \<Rightarrow> bool" where
  "started_logger fs n sz s \<longleftrightarrow>
     (\<exists>running time szTime blocks path name can_open now now_ms msg block.
        length blocks = 4 \<and> (\<forall>b \<in> set blocks. block_ok b) \<and> block_ok block \<and>
        line_ok now now_ms msg \<and> now \<noteq> time \<and>
        start True True path name can_open now now_ms msg block
          (CLogger running time szTime blocks fs n sz True) = Inr (True, s))"

definition logger_reachable :: "bool \<Rightarrow> files \<Rightarrow> u32 \<Rightarrow> u64 \<Rightarrow> logger \<Rightarrow> bool" where
  "logger_reachable reopens fs n sz s \<longleftrightarrow>
     (\<exists>s0. started_logger fs n sz s0 \<and> logger_steps reopens s0 s)"

subsection \<open>Invariant\<close>

definition pending :: "logger \<Rightarrow> string" where
  "pending s = concat (map buf_text (m_queBufsDeal s)) @ concat (map buf_text (m_queBufsWrite s)) @
     buf_text (m_pBufWrite s)"

definition sound_buf :: "big_buff \<Rightarrow> bool" where
  "sound_buf b \<longleftrightarrow> wf_buf b \<and> unat (m_ulLen b) = 1024 * 1024 - 1"

definition logger_inv :: "logger \<Rightarrow> bool" where
  "logger_inv s \<longleftrightarrow> m_bAsynLog s \<and> m_lMaxStrLen s = 2048 \<and>
     m_szLastTime s = format_time (m_lastTime s) \<and>
     logged s = flushed s @ pending s \<and>
     sound_buf (m_pBufWrite s) \<and> list_all sound_buf (m_queBufsWrite s) \<and>
     list_all sound_buf (m_queBufsDeal s) \<and>
     list_all (\<lambda>b. sound_buf b \<and> m_ulPos b = 0) (m_queBufsEmpty s) \<and>
     (\<forall>b. m_pBufDeal s = Some b \<longrightarrow> sound_buf b \<and> m_ulPos b = 0) \<and>
     (deal_at s = D_recycle \<longleftrightarrow> m_pBufDeal s \<noteq> None) \<and>
     (deal_at s \<notin> {D_loop, D_recycle} \<longrightarrow> m_queBufsDeal s = []) \<and> deal_at s \<noteq> D_none"

lemma logger_invD:
  assumes "logger_inv s"
  shows "m_bAsynLog s" "m_lMaxStrLen s = 2048" "m_szLastTime s = format_time (m_lastTime s)"
    "logged s = flushed s @ pending s" "sound_buf (m_pBufWrite s)"
    "list_all sound_buf (m_queBufsWrite s)" "list_all sound_buf (m_queBufsDeal s)"
    "list_all (\<lambda>b. sound_buf b \<and> m_ulPos b = 0) (m_queBufsEmpty s)"
    "\<forall>b. m_pBufDeal s = Some b \<longrightarrow> sound_buf b \<and> m_ulPos b = 0"
    "deal_at s = D_recycle \<longleftrightarrow> m_pBufDeal s \<noteq> None"
    "deal_at s \<notin> {D_loop, D_recycle} \<longrightarrow> m_queBufsDeal s = []" "deal_at s \<noteq> D_none"
  using assms by (simp_all add: logger_inv_def)

lemma length_dec_nat_3: "n < 1000 \<Longrightarrow> length (dec_nat n) \<le> 3"
  by (simp add: dec_nat.simps [of n] dec_nat.simps [of "n div 10"] dec_nat.simps [of "n div 100"]
      div_mult2_eq [symmetric] less_mult_imp_div_less)

lemma length_zero_pad: "length (dec_nat n) \<le> k \<Longrightarrow> length (zero_pad k n) = k"
  by (simp add: zero_pad_def)

lemma length_stamp: "length (m_szLastTime s) = 19 \<Longrightarrow> ms < 1000 \<Longrightarrow> length (stamp s ms) = 24"
  using length_zero_pad [OF length_dec_nat_3] by (simp add: stamp_def)

lemma sound_CBigBuff: "block_ok block \<Longrightarrow> sound_buf (CBigBuff block) \<and> m_ulPos (CBigBuff block) = 0"
proof -
  assume "block_ok block"
  then have l: "length block = 1024 * 1024" by (simp add: block_ok_def)
  have "block \<noteq> []" using l by auto
  then have "wf_buf (CBigBuff block)" using wf_CBigBuff [of block] l by simp
  then show ?thesis using l by (simp add: sound_buf_def CBigBuff_def)
qed

lemma sound_clear: "sound_buf b \<Longrightarrow> sound_buf (clear b) \<and> m_ulPos (clear b) = 0"
  using wf_clear [of b] by (simp add: sound_buf_def) (simp add: clear_def)

lemma empty_text: "m_ulPos b = 0 \<Longrightarrow> buf_text b = []"
  by (simp add: buf_text_def)

lemma empty_room: "sound_buf b \<Longrightarrow> m_ulPos b = 0 \<Longrightarrow> room b = 1024 * 1024 - 1"
  by (simp add: sound_buf_def room_def)

lemma refresh_time_inv:
  "logger_inv s \<Longrightarrow> logger_inv (refresh_time now s) \<and> m_szLastTime (refresh_time now s) = format_time now"
  by (auto simp: logger_inv_def refresh_time_def pending_def)

lemma updateBufWrite_inv:
  assumes inv: "logger_inv s" and block: "block_ok block"
  shows "\<exists>s'. updateBufWrite block s = Inr s' \<and> logger_inv s' \<and> m_ulPos (m_pBufWrite s') = 0 \<and>
    m_szLastTime s' = m_szLastTime s \<and> flushed s' = flushed s \<and> logged s' = logged s \<and> deal_at s' = deal_at s \<and>
    m_queBufsDeal s' = m_queBufsDeal s"
proof -
  note D = logger_invD [OF inv]
  obtain b where b: "zeroEnd (m_pBufWrite s) = Inr b" "wf_buf b" "buf_text b = buf_text (m_pBufWrite s)"
    "m_ulLen b = m_ulLen (m_pBufWrite s)"
    using wf_zeroEnd D(5) unfolding sound_buf_def by blast
  have sb: "sound_buf b" using b D(5) by (simp add: sound_buf_def)
  note new = sound_CBigBuff [OF block]
  show ?thesis
  proof (cases "m_queBufsEmpty s")
    case Nil
    then show ?thesis
      using inv b(1,3) sb new empty_text [of "CBigBuff block"]
      by (auto simp: updateBufWrite_def Let_def logger_inv_def pending_def)
  next
    case (Cons e es)
    then show ?thesis
      using inv b(1,3) sb empty_text [of e]
      by (auto simp: updateBufWrite_def Let_def logger_inv_def pending_def)
  qed
qed

lemma append_inv:
  assumes inv: "logger_inv s" and stamp: "length (stamp s ms) = 24" and msg: "length msg \<le> 1000"
    and room: "1024 < room (m_pBufWrite s)"
  shows "\<exists>b. append_line (m_lMaxStrLen s) (stamp s ms) True msg (m_pBufWrite s) = Inr b \<and>
    logger_inv (s\<lparr>m_pBufWrite := b,
      logged := logged s @ stamp s ms @ take (unat (m_lMaxStrLen s)) msg @ [CHR 0x0A]\<rparr>)"
proof -
  note D = logger_invD [OF inv]
  have "24 + counted (m_lMaxStrLen s) msg < room (m_pBufWrite s)"
    using msg room by (simp add: counted_def D(2))
  then obtain b where b: "append_line (m_lMaxStrLen s) (stamp s ms) True msg (m_pBufWrite s) = Inr b"
    "wf_buf b" "m_ulLen b = m_ulLen (m_pBufWrite s)"
    "buf_text b = buf_text (m_pBufWrite s) @ stamp s ms @ take (unat (m_lMaxStrLen s)) msg @ [CHR 0x0A]"
    using append_line_wf [of "m_pBufWrite s" "stamp s ms" msg "m_lMaxStrLen s"] stamp msg D(2,5)
    by (auto simp: sound_buf_def)
  then show ?thesis using inv by (auto simp: logger_inv_def pending_def sound_buf_def)
qed

lemma log_line_inv:
  assumes inv: "logger_inv s" and ok: "line_ok now ms msg" and block: "block_ok block"
  shows "\<exists>s'. log_line now ms True msg block s = Inr s' \<and> logger_inv s'"
proof -
  let ?r = "refresh_time now s"
  have r: "logger_inv ?r" "m_szLastTime ?r = format_time now"
    using refresh_time_inv [OF inv] by simp_all
  have "\<exists>u. (if m_bAsynLog ?r \<and> getTryAvailid (m_pBufWrite ?r) \<le> 1024 then updateBufWrite block ?r else Inr ?r) =
      Inr u \<and> logger_inv u \<and> 1024 < room (m_pBufWrite u) \<and> m_szLastTime u = format_time now"
  proof (cases "getTryAvailid (m_pBufWrite ?r) \<le> 1024")
    case True
    obtain u where u: "updateBufWrite block ?r = Inr u" "logger_inv u" "m_ulPos (m_pBufWrite u) = 0"
      "m_szLastTime u = format_time now"
      using updateBufWrite_inv [OF r(1) block] r(2) by auto
    then have "room (m_pBufWrite u) = 1024 * 1024 - 1" using empty_room logger_invD(5) by blast
    then show ?thesis using u True logger_invD(1) [OF r(1)] by simp
  next
    case False
    have "wf_buf (m_pBufWrite ?r)" using logger_invD(5) [OF r(1)] by (simp add: sound_buf_def)
    then show ?thesis using False r avail_room [of "m_pBufWrite ?r"] by (auto simp: word_le_nat_alt)
  qed
  then obtain u where u: "(if m_bAsynLog ?r \<and> getTryAvailid (m_pBufWrite ?r) \<le> 1024
      then updateBufWrite block ?r else Inr ?r) = Inr u"
    "logger_inv u" "1024 < room (m_pBufWrite u)" "m_szLastTime u = format_time now" by blast
  have "length (stamp u ms) = 24" using ok u(4) by (intro length_stamp) (simp_all add: line_ok_def)
  from append_inv [OF u(2) this _ u(3), of msg] ok show ?thesis
    unfolding log_line_def Let_def u(1) by (auto simp: line_ok_def)
qed

lemma logWrite_inv:
  assumes "logger_inv s" "line_ok now ms msg" "block_ok block"
  shows "\<exists>s'. logWrite can_open now ms True msg block s = Inr s' \<and> logger_inv s'"
    and "\<exists>s'. LOG_BY_LEVEL lvl can_open now ms True msg block s = Inr s' \<and> logger_inv s'"
  using log_line_inv [OF assms] assms(1) by (auto simp: logWrite_def LOG_BY_LEVEL_def dest: logger_invD(1))

lemma stream_frame: "\<exists>fs. stream_write txt s = s\<lparr>flushed := flushed s @ txt, files := fs\<rparr>"
  by (cases s) (simp add: stream_write_def Let_def)

lemma fileSizeCheck_frame:
  "fileSizeCheck can_open s = Inr s' \<Longrightarrow> \<exists>fs b d. s' = s\<lparr>files := fs, m_logStream := b, dropped := d\<rparr>"
  by (cases s) (auto simp: fileSizeCheck_def open_log_def split: if_splits)

lemma logger_inv_frame [simp]:
  "logger_inv (s\<lparr>files := fs\<rparr>) = logger_inv s" "logger_inv (s\<lparr>m_logStream := b\<rparr>) = logger_inv s"
  "logger_inv (s\<lparr>m_bRunning := b\<rparr>) = logger_inv s" "logger_inv (s\<lparr>handing := b\<rparr>) = logger_inv s"
  "logger_inv (s\<lparr>files := fs, dropped := d\<rparr>) = logger_inv s"
  by (simp_all add: logger_inv_def pending_def)

lemma deal_loop_inv:
  assumes inv: "logger_inv s" and at: "deal_at s = D_loop" and q: "m_queBufsDeal s = b # bs"
    and c: "fileSizeCheck can_open (stream_write (buf_text b)
      (s\<lparr>m_queBufsDeal := bs, m_pBufDeal := Some (clear b)\<rparr>)) = Inr s'"
  shows "logger_inv (s'\<lparr>deal_at := D_recycle\<rparr>)"
proof -
  let ?r = "s\<lparr>m_queBufsDeal := bs, m_pBufDeal := Some (clear b)\<rparr>"
  obtain fs where w: "stream_write (buf_text b) ?r = ?r\<lparr>flushed := flushed ?r @ buf_text b, files := fs\<rparr>"
    using stream_frame [of "buf_text b" ?r] by blast
  obtain fs' o' d where "s' = stream_write (buf_text b) ?r\<lparr>files := fs', m_logStream := o', dropped := d\<rparr>"
    using fileSizeCheck_frame [OF c] by blast
  then have s': "s' = ?r\<lparr>flushed := flushed ?r @ buf_text b, files := fs', m_logStream := o', dropped := d\<rparr>"
    unfolding w by simp
  show ?thesis
    using inv q sound_clear [of b] unfolding s' by (simp add: logger_inv_def pending_def)
qed

lemma dealThread_inv:
  assumes inv: "logger_inv s" and d: "dealThread can_open block s = Some (Inr s')" and block: "block_ok block"
  shows "logger_inv s'"
proof (cases "deal_at s")
  case D_swap
  obtain u where u: "updateBufWrite block s = Inr u" "logger_inv u" "deal_at u = deal_at s"
    "m_queBufsDeal u = m_queBufsDeal s"
    using updateBufWrite_inv [OF inv block] by blast
  moreover have "m_queBufsDeal s = []" using logger_invD(11) [OF inv] D_swap by simp
  ultimately show ?thesis using d D_swap
    by (auto simp: dealThread_def logger_inv_def pending_def split: if_splits)
next
  case D_loop
  show ?thesis
  proof (cases "m_queBufsDeal s")
    case Nil
    then show ?thesis using d D_loop inv by (auto simp: dealThread_def logger_inv_def pending_def)
  next
    case (Cons b bs)
    then show ?thesis using d D_loop deal_loop_inv [OF inv D_loop Cons]
      by (auto simp: dealThread_def and_then_eq_Inr)
  qed
next
  case D_recycle
  then show ?thesis using d inv
    by (auto simp: dealThread_def logger_inv_def pending_def split: option.splits if_splits)
qed (use d inv in \<open>auto simp: dealThread_def logger_inv_def pending_def split: if_splits\<close>)

lemma logger_step_inv: "logger_step r s s' \<Longrightarrow> logger_inv s \<Longrightarrow> logger_inv s'"
proof (induction rule: logger_step.induct)
  case (l_write can_open now now_ms msg block s s')
  then show ?case using logWrite_inv(1) [of s now now_ms msg block can_open] by auto
next
  case (l_level lvl can_open now now_ms msg block s s')
  then show ?case using logWrite_inv(2) [of s now now_ms msg block lvl can_open] by auto
next
  case (l_deal can_open block s s')
  then show ?case using dealThread_inv by blast
qed (simp_all add: stop_store_def)

lemma logger_steps_trans: "logger_steps r s' s'' \<Longrightarrow> logger_steps r s s' \<Longrightarrow> logger_steps r s s''"
  by (induction rule: logger_steps.induct) (auto intro: ls_step)

lemma logger_steps_inv: "logger_steps r s s' \<Longrightarrow> logger_inv s \<Longrightarrow> logger_inv s'"
  by (induction rule: logger_steps.induct) (auto intro: logger_step_inv)

text \<open>The first line gives the cached time its value.\<close>

lemma refresh_time_idem [simp]: "refresh_time now (refresh_time now s) = refresh_time now s"
  by (simp add: refresh_time_def)

lemma logWrite_refreshed: "logWrite can_open now ms ok msg block s =
    logWrite can_open now ms ok msg block (refresh_time now s)"
  by (simp add: logWrite_def log_line_def)

lemma fresh_inv:
  assumes blocks: "length blocks = 4" "\<forall>b \<in> set blocks. block_ok b" and t: "now \<noteq> time"
    and s: "s = CLogger running time szTime blocks fs n sz True\<lparr>m_strLogDir := d, m_strLogName := m,
      m_strFilePath := p, m_logStream := True, files := fs', m_bRunning := True, deal_at := D_test\<rparr>"
  shows "logger_inv (refresh_time now s)"
proof -
  have b0: "block_ok (blocks ! 0)" using blocks by auto
  have "set (take 3 (drop 1 blocks)) \<subseteq> set blocks" by (meson set_drop_subset set_take_subset subset_trans)
  then have e: "list_all (\<lambda>b. sound_buf b \<and> m_ulPos b = 0) (map CBigBuff (take 3 (drop 1 blocks)))"
    using blocks(2) sound_CBigBuff by (auto simp: list_all_iff)
  show ?thesis
    using sound_CBigBuff [OF b0] e t empty_text [of "CBigBuff (blocks ! 0)"]
    by (simp add: s CLogger_def refresh_time_def logger_inv_def pending_def)
qed

lemma start_shape:
  "start True True path name can_open now ms msg block (CLogger running time szTime blocks fs n sz True) =
    and_then (logWrite can_open now ms True msg block
      (CLogger running time szTime blocks fs n sz True\<lparr>m_strLogDir := path @ ''log/'', m_strLogName := name,
        m_strFilePath := (path @ ''log/'') @ name @ ''.log'', m_logStream := True,
        files := opened ((path @ ''log/'') @ name @ ''.log'') fs,
        m_bRunning := True, deal_at := D_test\<rparr>)) (\<lambda>s. Inr (True, s))"
  by (simp add: start_def init_def start_stream_def open_log_def CLogger_def)

lemma started_inv:
  assumes "started_logger fs n sz s"
  shows "logger_inv s"
proof -
  obtain running time szTime blocks path name can_open now ms msg block where
    b: "length blocks = 4" "\<forall>b \<in> set blocks. block_ok b" "block_ok block"
    and ok: "line_ok now ms msg" and t: "now \<noteq> time"
    and st: "start True True path name can_open now ms msg block
      (CLogger running time szTime blocks fs n sz True) = Inr (True, s)"
    using assms unfolding started_logger_def by blast
  obtain s1 where s1: "s1 = CLogger running time szTime blocks fs n sz True\<lparr>m_strLogDir := path @ ''log/'',
        m_strLogName := name, m_strFilePath := (path @ ''log/'') @ name @ ''.log'', m_logStream := True,
        files := opened ((path @ ''log/'') @ name @ ''.log'') fs, m_bRunning := True, deal_at := D_test\<rparr>"
      "logWrite can_open now ms True msg block s1 = Inr s"
    using st unfolding start_shape by (auto simp: and_then_eq_Inr)
  have "logger_inv (refresh_time now s1)" by (rule fresh_inv [OF b(1,2) t s1(1)])
  from logWrite_inv(1) [OF this ok b(3)] s1(2) show ?thesis
    unfolding logWrite_refreshed [of _ _ _ _ _ _ s1] by (metis sum.inject(2))
qed

lemma log_line_frame:
  "log_line now ms ok msg block s = Inr s' \<Longrightarrow> m_bAsynLog s \<Longrightarrow>
   m_strFilePath s' = m_strFilePath s \<and> m_fileNum s' = m_fileNum s \<and> m_bAsynLog s' \<and>
   m_logStream s' = m_logStream s \<and> files s' = files s \<and> flushed s' = flushed s \<and> dropped s' = dropped s"
  by (auto simp: log_line_def Let_def updateBufWrite_def refresh_time_def and_then_eq_Inr
      split: if_splits list.splits)

lemma log_line_deal_at: "log_line now ms ok msg block s = Inr s' \<Longrightarrow>
    deal_at s' = deal_at s \<and> m_bRunning s' = m_bRunning s \<and> (handing s' \<longrightarrow> handing s)"
  by (auto simp: log_line_def Let_def updateBufWrite_def refresh_time_def and_then_eq_Inr
      split: if_splits list.splits)

lemma started_shape:
  assumes "started_logger fs n sz s"
  shows "deal_at s = D_test \<and> m_bRunning s \<and> \<not> handing s"
proof -
  obtain running time szTime blocks path name can_open now ms msg block where
    st: "start True True path name can_open now ms msg block
      (CLogger running time szTime blocks fs n sz True) = Inr (True, s)"
    using assms unfolding started_logger_def by blast
  obtain s1 where e: "s1 = CLogger running time szTime blocks fs n sz True\<lparr>m_strLogDir := path @ ''log/'',
        m_strLogName := name, m_strFilePath := (path @ ''log/'') @ name @ ''.log'', m_logStream := True,
        files := opened ((path @ ''log/'') @ name @ ''.log'') fs, m_bRunning := True, deal_at := D_test\<rparr>"
      and w: "logWrite can_open now ms True msg block s1 = Inr s"
    using st unfolding start_shape by (auto simp: and_then_eq_Inr)
  have s1: "deal_at s1 = D_test" "m_bRunning s1" "m_bAsynLog s1" "\<not> handing s1" unfolding e by (simp_all add: CLogger_def)
  obtain s2 where s2: "log_line now ms True msg block s1 = Inr s2" "m_bAsynLog s2 \<longrightarrow> s = s2"
    using w by (auto simp: logWrite_def and_then_eq_Inr split: if_splits)
  then show ?thesis using log_line_deal_at [OF s2(1)] log_line_frame [OF s2(1) s1(3)] s1 by simp
qed

lemma reachable_logger_inv: "logger_reachable r fs n sz s \<Longrightarrow> logger_inv s"
  unfolding logger_reachable_def using logger_steps_inv started_inv by blast

subsection \<open>Rotation\<close>

lemma log_name_inj [simp]: "0 \<le> i \<Longrightarrow> 0 \<le> j \<Longrightarrow> log_name path i = log_name path j \<longleftrightarrow> i = j"
  by (auto simp: log_name_def to_string_int_def dest: dec_nat_inj)

lemma log_name_path [simp]: "log_name path i \<noteq> path" "path \<noteq> log_name path i"
  by (simp_all add: log_name_def)

lemma rename_file_apply:
  "a \<noteq> b \<Longrightarrow> fs b = None \<Longrightarrow> rename_file a b fs q = (if q = a then None else if q = b then fs a else fs q)"
  by (simp add: rename_file_def split: option.splits)

lemma shift_logs_other:
  "(\<And>i. 1 \<le> i \<Longrightarrow> i \<le> Suc k \<Longrightarrow> q \<noteq> log_name path (int i)) \<Longrightarrow> shift_logs path k fs q = fs q"
proof (induction k arbitrary: fs)
  case (Suc k)
  have q: "q \<noteq> log_name path (int (Suc k))" "q \<noteq> log_name path (int (Suc (Suc k)))"
    using Suc.prems [of "Suc k"] Suc.prems [of "Suc (Suc k)"] by simp_all
  have "shift_logs path (Suc k) fs q = rename_file (log_name path (int (Suc k))) (log_name path (int (Suc (Suc k)))) fs q"
    unfolding shift_logs.simps by (rule Suc.IH) (use Suc.prems in auto)
  then show ?case using q by (simp add: rename_file_def split: option.splits)
qed simp

lemma shift_logs_first: "fs (log_name path (int (Suc k))) = None \<Longrightarrow> shift_logs path k fs (log_name path 1) = None"
proof (induction k arbitrary: fs)
  case (Suc k)
  show ?case unfolding shift_logs.simps by (rule Suc.IH) (use Suc.prems in \<open>simp add: rename_file_apply\<close>)
qed simp

lemma shift_logs_shift:
  "fs (log_name path (int (Suc k))) = None \<Longrightarrow> 1 \<le> i \<Longrightarrow> i \<le> k \<Longrightarrow>
   shift_logs path k fs (log_name path (int (Suc i))) = fs (log_name path (int i))"
proof (induction k arbitrary: fs)
  case (Suc k)
  let ?r = "rename_file (log_name path (int (Suc k))) (log_name path (int (Suc (Suc k)))) fs"
  have r: "?r q = (if q = log_name path (int (Suc k)) then None
      else if q = log_name path (int (Suc (Suc k))) then fs (log_name path (int (Suc k))) else fs q)" for q
    by (rule rename_file_apply) (use Suc.prems in simp_all)
  show ?case
  proof (cases "i = Suc k")
    case True
    have "shift_logs path k ?r (log_name path (int (Suc (Suc k)))) = ?r (log_name path (int (Suc (Suc k))))"
      by (rule shift_logs_other) (simp del: of_nat_Suc)
    then show ?thesis using r True by (simp del: of_nat_Suc)
  next
    case False
    then have "shift_logs path k ?r (log_name path (int (Suc i))) = ?r (log_name path (int i))"
      using Suc.prems r by (intro Suc.IH) (simp_all del: of_nat_Suc)
    then show ?thesis using r False Suc.prems(2,3) by (simp del: of_nat_Suc)
  qed
qed simp

text \<open>The text the \<open>n\<close> old files and the current one hold, oldest first.\<close>

definition retained :: "string \<Rightarrow> nat \<Rightarrow> files \<Rightarrow> string" where
  "retained path n fs =
     concat (map (\<lambda>i. content (fs (log_name path (int i)))) (rev [1..<Suc n])) @ content (fs path)"

lemma rotate_logs_apply:
  assumes n: "1 \<le> n"
  shows "rotate_logs path (int n) fs path = None"
    and "rotate_logs path (int n) fs (log_name path 1) = fs path"
    and "1 \<le> i \<Longrightarrow> i < n \<Longrightarrow> rotate_logs path (int n) fs (log_name path (int (Suc i))) = fs (log_name path (int i))"
    and "q \<noteq> path \<Longrightarrow> (\<And>i. 1 \<le> i \<Longrightarrow> i \<le> n \<Longrightarrow> q \<noteq> log_name path (int i)) \<Longrightarrow> rotate_logs path (int n) fs q = fs q"
proof -
  let ?f = "fs(log_name path (int n) := None)"
  obtain k where k: "n = Suc k" using n by (cases n) auto
  let ?g = "shift_logs path k ?f"
  have top: "log_name path (if 1 < int n then 1 else int n) = log_name path 1" using n by auto
  have g1: "?g (log_name path 1) = None" by (rule shift_logs_first) (simp add: k)
  have gp: "?g path = fs path" by (subst shift_logs_other) simp_all
  have "rotate_logs path (int n) fs = rename_file path (log_name path 1) ?g"
    unfolding rotate_logs_def Let_def top by (simp add: k)
  then have r: "rotate_logs path (int n) fs q =
      (if q = path then None else if q = log_name path 1 then fs path else ?g q)" for q
    using g1 gp by (simp add: rename_file_apply)
  show "rotate_logs path (int n) fs path = None" "rotate_logs path (int n) fs (log_name path 1) = fs path"
    by (simp_all add: r)
  show "rotate_logs path (int n) fs (log_name path (int (Suc i))) = fs (log_name path (int i))" if "1 \<le> i" "i < n"
    using that shift_logs_shift [of ?f path k i] unfolding r by (simp add: k)
  show "rotate_logs path (int n) fs q = fs q" if "q \<noteq> path" "\<And>i. 1 \<le> i \<Longrightarrow> i \<le> n \<Longrightarrow> q \<noteq> log_name path (int i)"
    using that(1) that(2) [of 1] that(2) [of n] shift_logs_other [of k q path ?f] that(2) n
    unfolding r by (auto simp: k)
qed

lemma retained_rotate:
  assumes n: "1 \<le> n"
  shows "retained path n fs = content (fs (log_name path (int n))) @ retained path n (rotate_logs path (int n) fs)"
proof -
  let ?r = "rotate_logs path (int n) fs"
  have up: "rev [1..<Suc n] = map Suc (rev [1..<n]) @ [1]"
    using n by (simp add: upt_conv_Cons rev_map [symmetric] map_Suc_upt del: upt_Suc)
  have down: "rev [1..<Suc n] = n # rev [1..<n]" using n by simp
  have m: "map (\<lambda>i. content (?r (log_name path (int i)))) (map Suc (rev [1..<n])) =
      map (\<lambda>i. content (fs (log_name path (int i)))) (rev [1..<n])"
    using rotate_logs_apply(3) [OF n, of _ path fs] by (simp del: of_nat_Suc)
  have "retained path n ?r =
      concat (map (\<lambda>i. content (fs (log_name path (int i)))) (rev [1..<n])) @ content (fs path)"
    unfolding retained_def up map_append m using rotate_logs_apply(1,2) [OF n, of path fs] by (simp add: content_def)
  then show ?thesis unfolding retained_def down by simp
qed

text \<open>
  While the file can be reopened, what the files held before and everything flushed since is the
  text of the oldest files that rotations dropped followed by what the files hold.
\<close>

definition files_inv :: "string \<Rightarrow> u32 \<Rightarrow> string \<Rightarrow> logger \<Rightarrow> bool" where
  "files_inv earlier n path s \<longleftrightarrow> m_strFilePath s = path \<and> m_fileNum s = n \<and> m_bAsynLog s \<and> m_logStream s \<and>
     earlier @ flushed s = concat (dropped s) @ retained path (nat (sint n)) (files s)"

lemma retained_opened [simp]: "retained path k (opened path fs) = retained path k fs"
  by (simp add: retained_def opened_def content_def split: option.split)

lemma retained_write: "retained path k (fs(path \<mapsto> content (fs path) @ t)) = retained path k fs @ t"
  by (simp add: retained_def content_def)

lemma log_files_inv:
  assumes "files_inv e n path s"
  shows "logWrite can_open now ms ok msg block s = Inr s' \<Longrightarrow> files_inv e n path s'"
    and "LOG_BY_LEVEL lvl can_open now ms ok msg block s = Inr s' \<Longrightarrow> files_inv e n path s'"
  using assms log_line_frame [of now ms ok msg block s]
  by (auto simp: files_inv_def logWrite_def LOG_BY_LEVEL_def and_then_eq_Inr split: if_splits)

lemma fileSizeCheck_files_inv:
  assumes inv: "files_inv e n path s" and n: "1 \<le> sint n" and c: "fileSizeCheck True s = Inr s'"
  shows "files_inv e n path s'"
proof (cases "m_fileSize s < tellp s")
  case True
  then have s': "s' = open_log True (s\<lparr>files := rotate_logs path (sint n) (files s),
      dropped := dropped s @ [content (files s (log_name path (sint n)))]\<rparr>)"
    using c inv by (simp add: fileSizeCheck_def files_inv_def split: if_splits)
  have k: "1 \<le> nat (sint n)" "int (nat (sint n)) = sint n" using n by simp_all
  show ?thesis
    using inv retained_rotate [OF k(1), of path "files s"] unfolding k(2)
    by (simp add: s' open_log_def files_inv_def)
qed (use assms in \<open>simp add: fileSizeCheck_def\<close>)

lemma stream_write_files_inv:
  "files_inv e n path s \<Longrightarrow> files_inv e n path (stream_write txt s)"
  using retained_write [of path "nat (sint n)" "files s" "txt"]
  by (auto simp: stream_write_def Let_def files_inv_def content_def)

lemma deal_files_inv:
  assumes inv: "files_inv e n path s" and n: "1 \<le> sint n" and d: "dealThread True block s = Some (Inr s')"
  shows "files_inv e n path s'"
proof (cases "deal_at s")
  case D_loop
  show ?thesis
  proof (cases "m_queBufsDeal s")
    case (Cons b bs)
    let ?r = "s\<lparr>m_queBufsDeal := bs, m_pBufDeal := Some (clear b)\<rparr>"
    obtain u where u: "fileSizeCheck True (stream_write (buf_text b) ?r) = Inr u" "s' = u\<lparr>deal_at := D_recycle\<rparr>"
      using d D_loop Cons by (auto simp: dealThread_def and_then_eq_Inr)
    have "files_inv e n path ?r" using inv by (simp add: files_inv_def)
    from fileSizeCheck_files_inv [OF stream_write_files_inv [OF this] n u(1)]
    show ?thesis by (simp add: u(2) files_inv_def)
  qed (use d D_loop inv in \<open>auto simp: dealThread_def files_inv_def\<close>)
next
  case D_swap
  then show ?thesis using d inv
    by (cases "m_queBufsEmpty s")
      (auto simp: dealThread_def files_inv_def updateBufWrite_def Let_def and_then_eq_Inr
        split: if_splits)
qed (use d inv in \<open>auto simp: dealThread_def files_inv_def split: option.splits if_splits\<close>)

lemma step_files_inv:
  "logger_step True s s' \<Longrightarrow> files_inv e n path s \<Longrightarrow> 1 \<le> sint n \<Longrightarrow> files_inv e n path s'"
proof (induction rule: logger_step.induct)
  case (l_write can_open now now_ms msg block s s')
  then show ?case using log_files_inv(1) by blast
next
  case (l_level lvl can_open now now_ms msg block s s')
  then show ?case using log_files_inv(2) by blast
next
  case (l_deal can_open block s s')
  then show ?case using deal_files_inv by (cases can_open) auto
qed (simp_all add: stop_store_def files_inv_def)

lemma steps_files_inv:
  "logger_steps True s s' \<Longrightarrow> files_inv e n path s \<Longrightarrow> 1 \<le> sint n \<Longrightarrow> files_inv e n path s'"
  by (induction rule: logger_steps.induct) (auto intro: step_files_inv)

lemma started_files_inv:
  assumes "started_logger fs n sz s"
  shows "files_inv (retained (m_strFilePath s) (nat (sint n)) fs) n (m_strFilePath s) s"
proof -
  obtain running time szTime blocks path name can_open now ms msg block where
    st: "start True True path name can_open now ms msg block
      (CLogger running time szTime blocks fs n sz True) = Inr (True, s)"
    using assms unfolding started_logger_def by blast
  obtain s1 where s1: "s1 = CLogger running time szTime blocks fs n sz True\<lparr>m_strLogDir := path @ ''log/'',
        m_strLogName := name, m_strFilePath := (path @ ''log/'') @ name @ ''.log'', m_logStream := True,
        files := opened ((path @ ''log/'') @ name @ ''.log'') fs, m_bRunning := True, deal_at := D_test\<rparr>"
      "logWrite can_open now ms True msg block s1 = Inr s"
    using st unfolding start_shape by (auto simp: and_then_eq_Inr)
  let ?p = "(path @ ''log/'') @ name @ ''.log''"
  have "files_inv (retained ?p (nat (sint n)) fs) n ?p s1"
    unfolding s1(1) by (simp add: files_inv_def CLogger_def)
  from log_files_inv(1) [OF this s1(2)] show ?thesis by (simp add: files_inv_def)
qed

subsection \<open>The end of the writing thread\<close>

text \<open>What the thread has left to do once the flag is clear and no line is added.\<close>

definition buffered :: "logger \<Rightarrow> bool" where
  "buffered s \<longleftrightarrow> getSize (m_pBufWrite s) \<noteq> 0 \<or> m_queBufsWrite s \<noteq> []"

definition deal_work :: "logger \<Rightarrow> nat" where
  "deal_work s =
     (let w = 2 * (length (m_queBufsWrite s) + 1);
          q = 2 * length (m_queBufsDeal s);
          f = (if buffered s then w + 5 else 0)
      in case deal_at s of
           D_none \<Rightarrow> 0 | D_exit \<Rightarrow> 0 | D_test \<Rightarrow> f + 1
         | D_wait \<Rightarrow> (if buffered s then f else 3) | D_check \<Rightarrow> (if buffered s then w + 4 else 2)
         | D_swap \<Rightarrow> w + 3 | D_loop \<Rightarrow> q + f + 2 | D_recycle \<Rightarrow> q + f + 3)"

lemma fileSizeCheck_defined:
  "sint (m_fileNum s) \<noteq> - (2 ^ 31) \<Longrightarrow> \<exists>u. fileSizeCheck can_open s = Inr u"
  by (simp add: fileSizeCheck_def)

text \<open>What a step of the thread leaves as it is while no log call is under way.\<close>

definition alone_frame :: "logger \<Rightarrow> logger \<Rightarrow> bool" where
  "alone_frame s s' \<longleftrightarrow> m_bRunning s' = m_bRunning s \<and> m_fileNum s' = m_fileNum s \<and> \<not> handing s' \<and>
     logged s' = logged s"

lemma swap_step:
  assumes inv: "logger_inv s" and block: "block_ok block" and at: "deal_at s = D_swap" "\<not> handing s"
  shows "\<exists>s'. dealThread can_open block s = Some (Inr s') \<and> deal_work s' < deal_work s \<and> alone_frame s s'"
proof -
  obtain b where b: "zeroEnd (m_pBufWrite s) = Inr b"
    using wf_zeroEnd logger_invD(5) [OF inv] unfolding sound_buf_def by blast
  have e: "list_all (\<lambda>b. m_ulPos b = 0) (m_queBufsEmpty s)"
    using logger_invD(8) [OF inv] by (auto simp: list_all_iff)
  have "m_ulPos (CBigBuff block) = 0" using sound_CBigBuff [OF block] by simp
  then show ?thesis
    using at b e by (cases "m_queBufsEmpty s")
      (auto simp: dealThread_def updateBufWrite_def Let_def deal_work_def buffered_def getSize_def
        alone_frame_def)
qed

lemma loop_step:
  assumes at: "deal_at s = D_loop" "\<not> handing s" and n: "sint (m_fileNum s) \<noteq> - (2 ^ 31)"
  shows "\<exists>s'. dealThread can_open block s = Some (Inr s') \<and> deal_work s' < deal_work s \<and> alone_frame s s'"
proof (cases "m_queBufsDeal s")
  case Nil
  then show ?thesis using at by (auto simp: dealThread_def deal_work_def buffered_def Let_def alone_frame_def)
next
  case (Cons b bs)
  let ?r = "s\<lparr>m_queBufsDeal := bs, m_pBufDeal := Some (clear b)\<rparr>"
  obtain fs where w: "stream_write (buf_text b) ?r = ?r\<lparr>flushed := flushed ?r @ buf_text b, files := fs\<rparr>"
    using stream_frame [of "buf_text b" ?r] by blast
  obtain u where u: "fileSizeCheck can_open (stream_write (buf_text b) ?r) = Inr u"
    using fileSizeCheck_defined [of "stream_write (buf_text b) ?r"] n unfolding w by auto
  obtain fs' o' d where "u = stream_write (buf_text b) ?r\<lparr>files := fs', m_logStream := o', dropped := d\<rparr>"
    using fileSizeCheck_frame [OF u] by blast
  then show ?thesis using at Cons u
    by (simp add: dealThread_def w deal_work_def buffered_def Let_def alone_frame_def)
qed

lemma deal_step:
  assumes inv: "logger_inv s" and stop: "\<not> m_bRunning s" and block: "block_ok block"
    and n: "sint (m_fileNum s) \<noteq> - (2 ^ 31)" and at: "deal_at s \<noteq> D_exit" and h: "\<not> handing s"
  shows "\<exists>s'. dealThread can_open block s = Some (Inr s') \<and> deal_work s' < deal_work s \<and> alone_frame s s'"
proof (cases "deal_at s")
  case D_swap
  then show ?thesis using swap_step [OF inv block _ h] by blast
next
  case D_loop
  then show ?thesis using loop_step [OF _ h n] by blast
next
  case D_recycle
  then obtain b where "m_pBufDeal s = Some b" using logger_invD(10) [OF inv] by auto
  then show ?thesis using D_recycle h
    by (simp add: dealThread_def deal_work_def buffered_def Let_def alone_frame_def)
next
  case D_none
  then show ?thesis using logger_invD(12) [OF inv] by simp
qed (use stop at h in \<open>auto simp: dealThread_def deal_work_def buffered_def getSize_def Let_def
  word_neq_0_conv alone_frame_def\<close>)

lemma deal_can_exit:
  "logger_inv s \<Longrightarrow> \<not> m_bRunning s \<Longrightarrow> sint (m_fileNum s) \<noteq> - (2 ^ 31) \<Longrightarrow> deal_at s \<noteq> D_exit \<Longrightarrow>
   block_ok block \<Longrightarrow> \<not> handing s \<Longrightarrow>
   \<exists>u u'. logger_steps r s u \<and> dealThread True block u = Some (Inr u') \<and> deal_at u' = D_exit"
proof (induction "deal_work s" arbitrary: s rule: less_induct)
  case less
  obtain s' where s': "dealThread True block s = Some (Inr s')" "deal_work s' < deal_work s"
    "m_bRunning s' = m_bRunning s" "m_fileNum s' = m_fileNum s" "\<not> handing s'"
    using deal_step [OF less.prems(1,2,5,3,4,6)] unfolding alone_frame_def by blast
  show ?case
  proof (cases "deal_at s' = D_exit")
    case True
    then show ?thesis using s'(1) ls_refl by blast
  next
    case False
    have "logger_inv s'" by (rule dealThread_inv [OF less.prems(1) s'(1) less.prems(5)])
    then obtain u u' where u: "logger_steps r s' u" "dealThread True block u = Some (Inr u')" "deal_at u' = D_exit"
      using less.hyps [OF s'(2)] s'(3-5) less.prems False by auto
    have "logger_step r s s'" by (rule l_deal [OF s'(1) less.prems(5)]) simp
    then have "logger_steps r s u" using u(1) logger_steps_trans ls_step [OF ls_refl] by blast
    then show ?thesis using u by blast
  qed
qed

text \<open>
  A run of the thread alone. Each step is given whether the log file can be reopened and the block
  a new buffer would get.
\<close>

fun deal_alone :: "(bool \<times> string) list \<Rightarrow> logger \<Rightarrow> logger result" where
  "deal_alone [] s = Inr s"
| "deal_alone ((can_open, block) # xs) s =
     (case dealThread can_open block s of None \<Rightarrow> Inr s | Some r \<Rightarrow> and_then r (deal_alone xs))"

lemma exit_drained:
  assumes "logger_inv s" "dealThread can_open block s = Some (Inr s')" "deal_at s' = D_exit"
  shows "\<not> m_bRunning s \<and> flushed s' = logged s'"
proof -
  note D = logger_invD [OF assms(1)]
  have "deal_at s = D_test"
    using assms(2,3) by (auto simp: dealThread_def and_then_eq_Inr
        split: deal_loc.splits list.splits option.splits if_splits)
  then show ?thesis
    using assms(2,3) D(4,11) empty_text [of "m_pBufWrite s"]
    by (auto simp: dealThread_def getSize_def pending_def split: if_splits)
qed

lemma deal_alone_exit: "deal_at s = D_exit \<Longrightarrow> deal_alone xs s = Inr s"
  by (cases xs) (auto simp: dealThread_def)

lemma deal_alone_ends:
  assumes "logger_inv s" "\<not> m_bRunning s" "\<not> handing s" "sint (m_fileNum s) \<noteq> - (2 ^ 31)"
    "list_all (\<lambda>x. block_ok (snd x)) xs" "deal_work s \<le> length xs"
  shows "\<exists>s'. deal_alone xs s = Inr s' \<and> deal_at s' = D_exit \<and> \<not> m_bRunning s' \<and> logged s' = logged s \<and>
    (deal_at s \<noteq> D_exit \<longrightarrow> flushed s' = logged s')"
  using assms
proof (induction xs arbitrary: s)
  case Nil
  then have "deal_at s = D_exit"
    by (auto simp: deal_work_def Let_def dest: logger_invD(12) split: deal_loc.splits if_splits)
  then show ?case using Nil by simp
next
  case (Cons x xs)
  obtain c b where x: "x = (c, b)" by (cases x)
  then have b: "block_ok b" "list_all (\<lambda>x. block_ok (snd x)) xs" using Cons.prems(5) by simp_all
  show ?case
  proof (cases "deal_at s = D_exit")
    case True
    then show ?thesis using Cons.prems deal_alone_exit by auto
  next
    case False
    obtain s' where s': "dealThread c b s = Some (Inr s')" "deal_work s' < deal_work s" "alone_frame s s'"
      using deal_step [OF Cons.prems(1,2) b(1) Cons.prems(4) False Cons.prems(3)] by blast
    have inv: "logger_inv s'" by (rule dealThread_inv [OF Cons.prems(1) s'(1) b(1)])
    have "deal_work s' \<le> length xs" using s'(2) Cons.prems(6) by simp
    from Cons.IH [OF inv _ _ _ b(2) this] s'(3) Cons.prems(2,4)
    obtain t where t: "deal_alone xs s' = Inr t" "deal_at t = D_exit" "\<not> m_bRunning t" "logged t = logged s'"
      "deal_at s' \<noteq> D_exit \<longrightarrow> flushed t = logged t" unfolding alone_frame_def by auto
    have "deal_at s' = D_exit \<longrightarrow> flushed t = logged t"
      using exit_drained [OF Cons.prems(1) s'(1)] t(1) deal_alone_exit [of s' xs] by auto
    then show ?thesis using s' t by (auto simp: x alone_frame_def)
  qed
qed

subsection \<open>Properties\<close>

text \<open>
  C19: in every interleaving of log calls on the asynchronous logger, the writing thread and
  \<open>stop\<close>, the text of all lines logged so far is what was handed to the stream followed by what
  the buffers hold, in the order the calls took the mutex: no line is lost, doubled, torn or
  overtaken between the callers and the stream. The lines have four-digit years and messages of
  at most a thousand characters (\<open>line_ok\<close>), and the runs are those in which the writing thread does
  not read \<open>m_pBufWrite\<close> in the middle of a hand-over, which is undefined (\<open>handover_races_deal\<close>).
\<close>

theorem log_lines_in_order:
  assumes "logger_reachable reopens fs n sz s"
  shows "logged s = flushed s @ concat (map buf_text (m_queBufsDeal s)) @
    concat (map buf_text (m_queBufsWrite s)) @ buf_text (m_pBufWrite s)"
  using logger_invD(4) [OF reachable_logger_inv [OF assms]] by (simp add: pending_def)

text \<open>
  C30: a log call with a message of at most a thousand characters never leaves its buffer: in every
  reachable state it returns, through \<open>logWrite\<close> as through the level functions, and appends its
  whole line.
\<close>

theorem log_call_safe:
  assumes "logger_reachable reopens fs n sz s" "line_ok now ms msg" "block_ok block"
  shows "(\<exists>s'. logWrite can_open now ms True msg block s = Inr s') \<and>
    (\<exists>s'. LOG_BY_LEVEL lvl can_open now ms True msg block s = Inr s')"
  using logWrite_inv [OF reachable_logger_inv [OF assms(1)] assms(2,3)] by blast

text \<open>
  The tests of the writing thread do not take the mutex. When a log call is about to hand a full
  buffer over, they can fall between the move of \<open>m_pBufWrite\<close> and its replacement and then read
  through the null pointer.
\<close>

theorem handover_races_deal:
  assumes "m_bAsynLog s" "getTryAvailid (m_pBufWrite s) \<le> 1024"
    and "deal_at s = D_check \<or> deal_at s = D_test \<and> \<not> m_bRunning s"
  shows "\<exists>s'. logger_step reopens s s' \<and> dealThread can_open block s' = Some (Inl Undefined)"
proof -
  have "dealThread can_open block (s\<lparr>handing := True\<rparr>) = Some (Inl Undefined)"
    using assms(3) by (auto simp: dealThread_def)
  then show ?thesis using l_handover [OF assms(1,2)] by blast
qed

text \<open>
  the writing thread ends only after everything logged so far has been handed to the stream,
  so \<open>stop\<close>, which joins it, loses none of the lines logged before.
\<close>

theorem deal_thread_drains:
  assumes "logger_reachable reopens fs n sz s"
    and "dealThread can_open block s = Some (Inr s')" and "deal_at s' = D_exit"
  shows "\<not> m_bRunning s \<and> flushed s' = logged s'"
  by (rule exit_drained [OF reachable_logger_inv [OF assms(1)] assms(2,3)])

text \<open>
  C33: \<open>stop\<close> terminates and loses no line. Once the flag is clear and no log call runs any more,
  the writing thread, from wherever it is, has ended after at most \<open>deal_work\<close> steps, whatever the
  waits and the files do, and none of them is undefined; then the join returns, and every line
  logged before has been handed to the stream, unless the thread had ended already. The file
  number is not the one the rotation cannot count down from.
\<close>

theorem deal_thread_stops:
  assumes "logger_reachable reopens fs n sz s" and "\<not> m_bRunning s" and "\<not> handing s"
    and "sint (m_fileNum s) \<noteq> - (2 ^ 31)" and "list_all (\<lambda>x. block_ok (snd x)) xs"
    and "deal_work s \<le> length xs"
  shows "\<exists>s'. deal_alone xs s = Inr s' \<and> deal_at s' = D_exit \<and>
    stop_join s' = Some (s'\<lparr>m_logStream := False\<rparr>) \<and> (deal_at s \<noteq> D_exit \<longrightarrow> flushed s' = logged s)"
  using deal_alone_ends [OF reachable_logger_inv [OF assms(1)] assms(2-6)] by (auto simp: stop_join_def)

text \<open>
  C25: as long as the log file can be reopened, what the log files held before the start followed
  by everything flushed since is, to the character, what the rotations dropped followed by what
  the files hold now, from the oldest to the current one; and what a rotation drops is the
  content of the file numbered \<open>n\<close>, the oldest. The file number is at least one as an \<open>int32_t\<close>.
\<close>

theorem log_files_hold_end:
  assumes "logger_reachable True fs n sz s" and "1 \<le> sint n"
  shows "retained (m_strFilePath s) (nat (sint n)) fs @ flushed s =
    concat (dropped s) @ retained (m_strFilePath s) (nat (sint n)) (files s)"
proof -
  obtain s0 where s0: "started_logger fs n sz s0" "logger_steps True s0 s"
    using assms(1) unfolding logger_reachable_def by blast
  have i: "files_inv (retained (m_strFilePath s0) (nat (sint n)) fs) n (m_strFilePath s0) s"
    by (rule steps_files_inv [OF s0(2) started_files_inv [OF s0(1)] assms(2)])
  then have "m_strFilePath s = m_strFilePath s0" by (simp add: files_inv_def)
  then show ?thesis using i by (simp add: files_inv_def)
qed

text \<open>
  rotation drops the oldest file and renames every other: the file numbered \<open>i\<close> becomes
  \<open>i + 1\<close>, the current one becomes number one, the current name is free, and no other file is
  touched, whichever of the numbered files are missing.
\<close>

theorem log_rotation:
  assumes "1 \<le> n"
  shows "rotate_logs path (int n) fs path = None \<and>
    rotate_logs path (int n) fs (log_name path 1) = fs path \<and>
    (\<forall>i. 1 \<le> i \<and> i < n \<longrightarrow>
       rotate_logs path (int n) fs (log_name path (int (Suc i))) = fs (log_name path (int i))) \<and>
    (\<forall>q. q \<noteq> path \<and> (\<forall>i. 1 \<le> i \<and> i \<le> n \<longrightarrow> q \<noteq> log_name path (int i)) \<longrightarrow>
       rotate_logs path (int n) fs q = fs q)"
  using rotate_logs_apply [OF assms] by blast

lemma dec_nat_no_nul: "CHR 0x00 \<notin> set (dec_nat n)"
proof (induction n rule: dec_nat.induct)
  case (1 n)
  have "char_of (48 + i mod 10) \<noteq> CHR 0x00" for i :: nat
  proof
    assume "char_of (48 + i mod 10) = CHR 0x00"
    then have "(of_char (char_of (48 + i mod 10) :: char) :: nat) = of_char (CHR 0x00)" by (rule arg_cong)
    then show False by (simp only: of_char_of) (simp add: mod_eq_0_iff_dvd)
  qed
  from this [symmetric] this [of n, symmetric] show ?case using 1 by (cases "n < 10") (auto simp: dec_nat.simps [of n])
qed

lemma takeWhile_nul: "c \<notin> set xs \<Longrightarrow> takeWhile (\<lambda>x. x \<noteq> c) (xs @ c # ys) = xs"
  by (induction xs) auto

lemma stamp_no_nul: "m_szLastTime s = format_time now \<Longrightarrow> CHR 0x00 \<notin> set (stamp s ms)"
  by (auto simp: stamp_def format_time_def zero_pad_def dec_nat_no_nul dest!: in_set_takeD)

text \<open>
  without the writing thread the level functions write the buffer up to its first NUL instead
  of up to its end, so a line shorter than one before it is followed by the rest of the earlier
  text, where \<open>logWrite\<close> writes the line alone. \<open>old\<close> is what the block holds up to the NUL.
\<close>

theorem sync_level_repeats_tail:
  assumes sync: "\<not> m_bAsynLog s" and lvl: "\<not> m_LogLevel s < lvl" and max: "m_lMaxStrLen s = 2048"
    and time: "now \<noteq> m_lastTime s \<or> m_szLastTime s = format_time now" and ok: "line_ok now ms msg"
    and buf: "wf_buf (m_pBufWrite s)" "m_ulPos (m_pBufWrite s) = 0"
    and old: "m_buf (m_pBufWrite s) = old @ CHR 0x00 # rest" "CHR 0x00 \<notin> set old"
    and msg: "CHR 0x00 \<notin> set msg" "25 + length msg < length old"
  shows "\<exists>line. length line = 25 + length msg \<and>
    (\<exists>u. LOG_BY_LEVEL lvl can_open now ms True msg block s = fileSizeCheck can_open u \<and>
         flushed u = flushed s @ line @ drop (length line) old) \<and>
    (\<exists>u. logWrite can_open now ms True msg block s = fileSizeCheck can_open u \<and>
         flushed u = flushed s @ line)"
proof -
  let ?r = "refresh_time now s"
  let ?line = "stamp ?r ms @ msg @ [CHR 0x0A]"
  have r: "m_szLastTime ?r = format_time now" "m_pBufWrite ?r = m_pBufWrite s" "m_lMaxStrLen ?r = 2048"
    "flushed ?r = flushed s" "\<not> m_bAsynLog ?r"
    using time max sync by (auto simp: refresh_time_def)
  have st: "length (stamp ?r ms) = 24" using ok r(1) by (intro length_stamp) (simp_all add: line_ok_def)
  have len: "length msg \<le> 1000" using ok by (simp add: line_ok_def)
  have room: "24 + length msg < room (m_pBufWrite s)"
    using buf old(1) msg(2) by (simp add: wf_buf_def room_def)
  obtain b where b: "append_line 2048 (stamp ?r ms) True msg (m_pBufWrite s) = Inr b"
      "m_buf b = splice_at 0 ?line (m_buf (m_pBufWrite s))"
    using append_line_memory [OF buf(1) st _ _ room, of 2048] len buf(2) by auto
  obtain b' where b': "append_line 2048 (stamp ?r ms) True msg (m_pBufWrite s) = Inr b'"
      "buf_text b' = buf_text (m_pBufWrite s) @ stamp ?r ms @ take 2048 msg @ [CHR 0x0A]"
    using append_line_wf [OF buf(1) st, of msg 2048] len room by (auto simp: counted_def)
  have bt: "buf_text b = ?line" using b(1) b' len buf(2) by (simp add: empty_text)
  have l: "length ?line = 25 + length msg" using st by simp
  have mem: "m_buf b = (?line @ drop (length ?line) old) @ CHR 0x00 # rest"
    using b(2) old(1) msg(2) l by (simp add: splice_at_def)
  have nn: "CHR 0x00 \<notin> set (?line @ drop (length ?line) old)"
    using stamp_no_nul [OF r(1)] msg(1) old(2) by (auto dest: in_set_dropD)
  have c: "c_str_text b = Inr (?line @ drop (length ?line) old)"
    unfolding c_str_text_def mem takeWhile_nul [OF nn] by simp
  let ?u = "?r\<lparr>m_pBufWrite := b, logged := logged ?r @ stamp ?r ms @ take 2048 msg @ [CHR 0x0A]\<rparr>"
  have line: "log_line now ms True msg block s = Inr ?u"
    using r b(1) by (simp add: log_line_def Let_def)
  have fl: "flushed (stream_write t ?u\<lparr>m_pBufWrite := x\<rparr>) = flushed s @ t" for t x
    using r(4) by (simp add: stream_write_def Let_def)
  show ?thesis
    using line r(5) c bt lvl l fl
    by (intro exI [of _ ?line]) (auto simp: LOG_BY_LEVEL_def logWrite_def Let_def)
qed

subsection \<open>Concrete loggers\<close>

definition noon :: tm where
  "noon = \<lparr>tm_year = 2024, tm_mon = 5, tm_mday = 17, tm_hour = 12, tm_min = 0, tm_sec = 7\<rparr>"

definition midnight :: tm where
  "midnight = noon\<lparr>tm_hour := 0, tm_sec := 0\<rparr>"

definition blank_block :: string where
  "blank_block = replicate (1024 * 1024) (CHR 0x00)"

lemma blank_block_ok: "block_ok blank_block"
  by (simp only: block_ok_def blank_block_def length_replicate)

lemma format_noon: "format_time noon = ''2024-05-17 12:00:07''"
  by (simp add: format_time_def noon_def zero_pad_def dec_nat.simps) code_simp

lemma line_ok_noon: "length msg \<le> 1000 \<Longrightarrow> line_ok noon 42 msg"
  by (simp add: line_ok_def format_noon)

lemma started_logger_exists: "\<exists>s. started_logger fs n sz s"
proof -
  let ?c = "CLogger False midnight [] (replicate 4 blank_block) fs n sz True"
  let ?s1 = "?c\<lparr>m_strLogDir := ''/'' @ ''log/'', m_strLogName := ''app'',
        m_strFilePath := (''/'' @ ''log/'') @ ''app'' @ ''.log'', m_logStream := True,
        files := opened ((''/'' @ ''log/'') @ ''app'' @ ''.log'') fs, m_bRunning := True, deal_at := D_test\<rparr>"
  have t: "noon \<noteq> midnight" by (simp add: midnight_def noon_def)
  have ok: "line_ok noon 42 ''start''" by (rule line_ok_noon) simp
  have "logger_inv (refresh_time noon ?s1)"
    by (rule fresh_inv [OF _ _ t refl]) (use blank_block_ok in \<open>simp_all add: eval_nat_numeral\<close>)
  from logWrite_inv(1) [OF this ok blank_block_ok, of False] obtain s where
    "logWrite False noon 42 True ''start'' blank_block ?s1 = Inr s"
    unfolding logWrite_refreshed [of _ _ _ _ _ _ ?s1] by blast
  then have st: "start True True ''/'' ''app'' False noon 42 ''start'' blank_block ?c = Inr (True, s)"
    unfolding start_shape by simp
  have "length (replicate 4 blank_block) = 4 \<and> (\<forall>b \<in> set (replicate 4 blank_block). block_ok b)"
    using blank_block_ok by simp
  then show ?thesis unfolding started_logger_def using blank_block_ok ok t st by blast
qed


lemma exiting_logger_exists:
  "\<exists>s s'. logger_reachable True Map.empty 10 16 s \<and> dealThread True blank_block s = Some (Inr s') \<and>
     deal_at s' = D_exit"
proof -
  obtain s0 where s0: "started_logger Map.empty 10 16 s0" using started_logger_exists by blast
  let ?s = "stop_store s0"
  have r: "logger_steps True s0 ?s" by (rule ls_step [OF ls_refl l_stop])
  have inv: "logger_inv ?s" by (rule logger_steps_inv [OF r started_inv [OF s0]])
  have d: "deal_at ?s \<noteq> D_exit" "sint (m_fileNum ?s) \<noteq> - (2 ^ 31)" "\<not> m_bRunning ?s"
    using started_files_inv [OF s0] started_shape [OF s0]
    by (simp_all add: stop_store_def files_inv_def)
  have h: "\<not> handing ?s" using started_shape [OF s0] by (simp add: stop_store_def)
  obtain u u' where "logger_steps True ?s u" "dealThread True blank_block u = Some (Inr u')" "deal_at u' = D_exit"
    using deal_can_exit [OF inv d(3,2,1) blank_block_ok h] by blast
  then show ?thesis using s0 logger_steps_trans [OF _ r] unfolding logger_reachable_def by blast
qed

lemma deal_alone_steps:
  "deal_alone xs s = Inr s' \<Longrightarrow> list_all (\<lambda>x. fst x \<and> block_ok (snd x)) xs \<Longrightarrow> logger_steps r s s'"
proof (induction xs arbitrary: s)
  case (Cons x xs)
  obtain c b where x: "x = (c, b)" by (cases x)
  show ?case
  proof (cases "dealThread c b s")
    case (Some d)
    then obtain u where u: "dealThread c b s = Some (Inr u)" "deal_alone xs u = Inr s'"
      using Cons.prems(1) x by (cases d) auto
    have "logger_step r s u" by (rule l_deal [OF u(1)]) (use Cons.prems(2) x in simp_all)
    then show ?thesis using Cons.IH [OF u(2)] Cons.prems(2) logger_steps_trans ls_step [OF ls_refl] by fastforce
  qed (use Cons.prems x ls_refl in auto)
qed (simp add: ls_refl)

lemma started_logged:
  assumes "started_logger fs n sz s"
  shows "logged s \<noteq> []"
proof -
  obtain running time szTime blocks path name can_open now ms msg block where
    st: "start True True path name can_open now ms msg block
      (CLogger running time szTime blocks fs n sz True) = Inr (True, s)"
    using assms unfolding started_logger_def by blast
  then show ?thesis unfolding start_shape
    by (auto simp: and_then_eq_Inr logWrite_def log_line_def Let_def CLogger_def refresh_time_def updateBufWrite_def
        split: if_splits list.splits)
qed

lemma drained_logger_exists:
  "\<exists>s. logger_reachable True Map.empty 10 16 s \<and> flushed s = logged s \<and> logged s \<noteq> []"
proof -
  obtain s0 where s0: "started_logger Map.empty 10 16 s0" using started_logger_exists by blast
  let ?s = "stop_store s0"
  let ?xs = "replicate (deal_work ?s) (True, blank_block)"
  have d: "\<not> m_bRunning ?s" "\<not> handing ?s" "sint (m_fileNum ?s) \<noteq> - (2 ^ 31)" "deal_at ?s \<noteq> D_exit"
    "logged ?s \<noteq> []"
    using started_files_inv [OF s0] started_shape [OF s0] started_logged [OF s0]
    by (simp_all add: stop_store_def files_inv_def)
  have xs: "list_all (\<lambda>x. block_ok (snd x)) ?xs" "list_all (\<lambda>x. fst x \<and> block_ok (snd x)) ?xs"
    using blank_block_ok by (simp_all add: list_all_iff)
  have st: "logger_steps True s0 ?s" by (rule ls_step [OF ls_refl l_stop])
  have inv: "logger_inv ?s" by (rule logger_steps_inv [OF st started_inv [OF s0]])
  obtain t where t: "deal_alone ?xs ?s = Inr t" "logged t = logged ?s" "flushed t = logged t"
    using deal_alone_ends [OF inv d(1-3) xs(1)] d(4) by auto
  have "logger_steps True s0 t" by (rule logger_steps_trans [OF deal_alone_steps [OF t(1) xs(2)] st])
  then have "logger_reachable True Map.empty 10 16 t" unfolding logger_reachable_def using s0 by blast
  then show ?thesis using t d(5) by auto
qed

lemma running_logger_exists: "\<exists>s. logger_reachable True Map.empty 10 16 s"
  unfolding logger_reachable_def using started_logger_exists ls_refl by blast

theorem log_lines_in_order_witness:
  "\<exists>s. logger_reachable True Map.empty 10 16 s \<and> logged s \<noteq> [] \<and>
     logged s = flushed s @ concat (map buf_text (m_queBufsDeal s)) @
       concat (map buf_text (m_queBufsWrite s)) @ buf_text (m_pBufWrite s)"
  using drained_logger_exists log_lines_in_order by blast

theorem log_call_safe_witness:
  "\<exists>s. logger_reachable True Map.empty 10 16 s \<and>
     (\<exists>s'. LOG_BY_LEVEL Log_Warn False noon 42 True ''disk full'' blank_block s = Inr s')"
proof -
  have "line_ok noon 42 ''disk full''" by (rule line_ok_noon) simp
  then show ?thesis using running_logger_exists log_call_safe blank_block_ok by blast
qed

theorem deal_thread_drains_witness:
  "\<exists>s s'. dealThread True blank_block s = Some (Inr s') \<and> deal_at s' = D_exit \<and> flushed s' = logged s'"
  using exiting_logger_exists deal_thread_drains by blast

theorem deal_thread_stops_witness:
  "\<exists>s xs s'. logger_reachable True Map.empty 10 16 s \<and> \<not> m_bRunning s \<and> deal_at s = D_test \<and>
     deal_alone xs s = Inr s' \<and> deal_at s' = D_exit \<and> flushed s' = logged s"
proof -
  obtain s0 where s0: "started_logger Map.empty 10 16 s0" using started_logger_exists by blast
  let ?s = "stop_store s0"
  let ?xs = "replicate (deal_work ?s) (True, blank_block)"
  have r: "logger_reachable True Map.empty 10 16 ?s"
    unfolding logger_reachable_def using s0 ls_step [OF ls_refl l_stop] by blast
  have d: "\<not> m_bRunning ?s" "\<not> handing ?s" "sint (m_fileNum ?s) \<noteq> - (2 ^ 31)" "deal_at ?s = D_test"
    using started_files_inv [OF s0] started_shape [OF s0] by (simp_all add: stop_store_def files_inv_def)
  have "list_all (\<lambda>x. block_ok (snd x)) ?xs" using blank_block_ok by (simp add: list_all_iff)
  from deal_thread_stops [OF r d(1-3) this] show ?thesis using r d(1,4) by fastforce
qed

theorem log_files_hold_end_witness:
  "\<exists>s. logger_reachable True Map.empty 10 16 s \<and> flushed s = logged s \<and> flushed s \<noteq> [] \<and>
     flushed s = concat (dropped s) @ retained (m_strFilePath s) 10 (files s)"
proof -
  obtain s where s: "logger_reachable True Map.empty 10 16 s" "flushed s = logged s" "logged s \<noteq> []"
    using drained_logger_exists by blast
  have n: "1 \<le> sint (10 :: u32)" "nat (sint (10 :: u32)) = 10" by simp_all
  have "retained p k Map.empty = []" for p k by (simp add: retained_def content_def)
  then show ?thesis using s log_files_hold_end [OF s(1) n(1)] unfolding n(2) by auto
qed

definition old_logs :: files where
  "old_logs = [''a.log'' \<mapsto> ''new'', ''a.log.1'' \<mapsto> ''mid'', ''a.log.2'' \<mapsto> ''old'']"

theorem log_rotation_witness:
  "rotate_logs ''a.log'' (int 2) old_logs ''a.log'' = None \<and>
   rotate_logs ''a.log'' (int 2) old_logs (log_name ''a.log'' 1) = Some ''new'' \<and>
   rotate_logs ''a.log'' (int 2) old_logs (log_name ''a.log'' 2) = Some ''mid''"
proof -
  have "log_name ''a.log'' (int 1) = ''a.log.1''"
    by (simp add: log_name_def to_string_int_def dec_nat.simps) code_simp
  then have o: "old_logs ''a.log'' = Some ''new''" "old_logs (log_name ''a.log'' (int 1)) = Some ''mid''"
    by (simp_all add: old_logs_def)
  have h: "\<forall>i. 1 \<le> i \<and> i < 2 \<longrightarrow> rotate_logs ''a.log'' (int 2) old_logs (log_name ''a.log'' (int (Suc i))) =
      old_logs (log_name ''a.log'' (int i))"
    using log_rotation [of 2 "''a.log''" old_logs] by simp
  have "rotate_logs ''a.log'' (int 2) old_logs (log_name ''a.log'' (int (Suc 1))) =
      old_logs (log_name ''a.log'' (int 1))" by (rule h [rule_format]) simp
  then show ?thesis using log_rotation [of 2 "''a.log''" old_logs] o by simp
qed

definition tail_logger :: logger where
  "tail_logger = CLogger False midnight [] [] Map.empty 10 16 False\<lparr>m_pBufWrite :=
     CBigBuff (replicate 40 (CHR ''x'') @ [CHR 0x00])\<rparr>"

theorem sync_level_repeats_tail_witness:
  "\<exists>line. length line = 27 \<and>
     (\<exists>u. LOG_BY_LEVEL Log_Info True noon 42 True ''hi'' [] tail_logger = fileSizeCheck True u \<and>
        flushed u = line @ replicate 13 (CHR ''x'')) \<and>
     (\<exists>u. logWrite True noon 42 True ''hi'' [] tail_logger = fileSizeCheck True u \<and> flushed u = line)"
proof -
  have s: "\<not> m_bAsynLog tail_logger" "\<not> m_LogLevel tail_logger < Log_Info" "m_lMaxStrLen tail_logger = 2048"
    "noon \<noteq> m_lastTime tail_logger \<or> m_szLastTime tail_logger = format_time noon"
    "m_ulPos (m_pBufWrite tail_logger) = 0" "flushed tail_logger = []"
    "m_buf (m_pBufWrite tail_logger) = replicate 40 (CHR ''x'') @ CHR 0x00 # []"
    by (simp_all add: tail_logger_def CLogger_def CBigBuff_def less_emLogLevel_def midnight_def noon_def)
  have w: "wf_buf (m_pBufWrite tail_logger)"
    using wf_CBigBuff [of "replicate 40 (CHR ''x'') @ [CHR 0x00]"] by (simp add: tail_logger_def)
  have ok: "line_ok noon 42 ''hi''" by (rule line_ok_noon) simp
  from sync_level_repeats_tail [OF s(1-4) ok w s(5) s(7), of True "[]"] obtain line u v where
    "length line = 25 + length ''hi''"
    "LOG_BY_LEVEL Log_Info True noon 42 True ''hi'' [] tail_logger = fileSizeCheck True u"
    "flushed u = flushed tail_logger @ line @ drop (length line) (replicate 40 (CHR ''x''))"
    "logWrite True noon 42 True ''hi'' [] tail_logger = fileSizeCheck True v"
    "flushed v = flushed tail_logger @ line"
    by auto
  moreover from this(1,3,5) have "length line = 27" "flushed u = line @ replicate 13 (CHR ''x'')" "flushed v = line"
    using s(6) by simp_all
  ultimately show ?thesis by blast
qed

text \<open>
  A stream that is not open reports the position \<open>-1\<close>, which compares above any limit: every
  check then renames the log files, down to dropping the oldest.
\<close>

theorem closed_stream_rotates:
  assumes "\<not> m_logStream s" "m_fileSize s \<noteq> - 1" "sint (m_fileNum s) \<noteq> - (2 ^ 31)"
  shows "fileSizeCheck can_open s =
    Inr (open_log can_open (s\<lparr>files := rotate_logs (m_strFilePath s) (sint (m_fileNum s)) (files s),
      dropped := dropped s @ [content (files s (log_name (m_strFilePath s) (sint (m_fileNum s))))]\<rparr>))"
proof -
  have "m_fileSize s < - 1" using assms(2) by (simp add: word_order.not_eq_extremum)
  then show ?thesis using assms(1,3) by (simp add: fileSizeCheck_def tellp_def)
qed

end
