(* ===== verification/Framework.thy ===== *)
theory Framework
  imports JsonText ThreadPool Logger
begin

text \<open>
  The component framework (src/code/service/core/include/CCompFramework.h,
  src/code/service/core/suorce/CCompFramework.cpp): start from a configuration file, the loading,
  initialisation and start of the components, events, timers, stop. The effects on other parts
  (singletons, event bus, libraries, components) are recorded in order in a trace. The file
  system, the loader and what a component's own functions return are arguments.
\<close>

subsection \<open>State\<close>

text \<open>
  A component: its name and what \<open>initialise\<close> and \<open>start\<close> return or throw. What they call back
  on the framework is not part of the trace.
\<close>

record 'f component =
  getName :: string
  comp_initialise :: "'f json \<Rightarrow> bool result"
  comp_start :: "bool result"

datatype 'f action =
    A_logger "(u32 \<times> u64 \<times> bool) option"
  | A_chunk_allocator "(u32 \<times> u32) option"
  | A_small_allocator "(u32 \<times> u32) option"
  | A_thread_pool "(emPoolMode \<times> u16 \<times> u32 \<times> u16 \<times> u16) option"
  | A_event_start
  | A_open string
  | A_init string "'f json"
  | A_start string
  | A_subscribe string
  | A_license string string
  | A_cmd_thread
  | A_event_stop
  | A_stop string
  | A_services_clear
  | A_close string
  | A_destroy_pool
  | A_destroy_small
  | A_destroy_chunk
  | A_destroy_logger

text \<open>
  The map of commands is sorted by name; a function is a number. The map of components is
  unordered and the set of library handles is ordered by address: \<open>env_order\<close> and \<open>env_handles\<close>
  of the environment give the order a loop visits them in.
\<close>

record 'f framework =
  m_mapComponents :: "'f component list"
  m_libHandl :: "string list"
  bRunflag :: bool
  ptrLicenseCtrl :: bool
  m_funcTimer :: "nat list"
  m_wkFuncTimer :: "nat list"
  m_mapCmdFunc :: "(string \<times> string \<times> nat) list"
  acts :: "'f action list"

record 'f environment =
  env_files :: "string \<Rightarrow> string option"
  env_path :: string
  env_name :: string
  env_dlopen :: "string \<Rightarrow> 'f component list option"
  env_order :: "'f component list \<Rightarrow> 'f component list"
  env_handles :: "string list \<Rightarrow> string list"
  env_server :: bool

definition act :: "'f action \<Rightarrow> 'f framework \<Rightarrow> 'f framework" where
  "act a s = s\<lparr>acts := acts s @ [a]\<rparr>"

definition CCompFramework :: "'f framework" where
  "CCompFramework = \<lparr>m_mapComponents = [], m_libHandl = [], bRunflag = False, ptrLicenseCtrl = False,
     m_funcTimer = [], m_wkFuncTimer = [], m_mapCmdFunc = [], acts = []\<rparr>"

definition addComponent :: "'f component \<Rightarrow> 'f framework \<Rightarrow> bool \<times> 'f framework" where
  "addComponent c s =
     (if getName c \<in> getName ` set (m_mapComponents s) then (False, s)
      else (True, s\<lparr>m_mapComponents := m_mapComponents s @ [c]\<rparr>))"

definition addTimerCallback :: "nat \<Rightarrow> 'f framework \<Rightarrow> 'f framework" where
  "addTimerCallback f s = s\<lparr>m_funcTimer := m_funcTimer s @ [f]\<rparr>"

definition addTimerCallbackWk :: "nat \<Rightarrow> 'f framework \<Rightarrow> 'f framework" where
  "addTimerCallbackWk f s = s\<lparr>m_wkFuncTimer := m_wkFuncTimer s @ [f]\<rparr>"

text \<open>A command given again replaces the one before.\<close>

definition addCmdCallback :: "string \<Rightarrow> string \<Rightarrow> nat \<Rightarrow> 'f framework \<Rightarrow> 'f framework" where
  "addCmdCallback strCmd strDesc f s = s\<lparr>m_mapCmdFunc := map_insert strCmd (strDesc, f) (m_mapCmdFunc s)\<rparr>"

subsection \<open>Reading the configuration\<close>

definition int_at :: "string \<Rightarrow> 'f json \<Rightarrow> u64 result" where
  "int_at k v = and_then (at_key k v) (\<lambda>x. Inr (fst (ToInt x)))"

definition bool_at :: "string \<Rightarrow> 'f json \<Rightarrow> bool result" where
  "bool_at k v = and_then (at_key k v) (\<lambda>x. Inr (fst (ToBool x)))"

text \<open>A section is used when it has every key it must have.\<close>

definition section_at :: "'f float_lib \<Rightarrow> string \<Rightarrow> string list \<Rightarrow> 'f json \<Rightarrow> 'f json option" where
  "section_at fl name keys root =
     (if hasKey name root
      then let v = fst (get_key fl name root)
           in if list_all (\<lambda>k. hasKey k v) keys then Some v else None
      else None)"

text \<open>\<open>None\<close> is the default construction; a \<open>long\<close> is narrowed to the constructor's types.\<close>

definition logger_config :: "'f float_lib \<Rightarrow> 'f json \<Rightarrow> (u32 \<times> u64 \<times> bool) option result" where
  "logger_config fl root =
     (case section_at fl ''Logger'' [''LogFileNum'', ''LogFileSize'', ''LogAsyn''] root of
        None \<Rightarrow> Inr None
      | Some v \<Rightarrow>
          and_then (int_at ''LogFileNum'' v) (\<lambda>n.
          and_then (int_at ''LogFileSize'' v) (\<lambda>sz.
          and_then (bool_at ''LogAsyn'' v) (\<lambda>b. Inr (Some (ucast n, sz, b))))))"

definition cache_config :: "'f float_lib \<Rightarrow> string \<Rightarrow> 'f json \<Rightarrow> (u32 \<times> u32) option result" where
  "cache_config fl name root =
     (case section_at fl name [''CacheExpiredTime'', ''CacheMaxSize''] root of
        None \<Rightarrow> Inr None
      | Some v \<Rightarrow>
          and_then (int_at ''CacheExpiredTime'' v) (\<lambda>t.
          and_then (int_at ''CacheMaxSize'' v) (\<lambda>m. Inr (Some (ucast t, ucast m)))))"

text \<open>The mode is a cast to an enumeration of one byte; every value but one behaves as fixed.\<close>

definition pool_mode :: "u64 \<Rightarrow> emPoolMode" where
  "pool_mode i = (if (ucast i :: byte) = 1 then MODE_CACHED else MODE_FIXED)"

definition pool_config :: "'f float_lib \<Rightarrow> 'f json \<Rightarrow> (emPoolMode \<times> u16 \<times> u32 \<times> u16 \<times> u16) option result" where
  "pool_config fl root =
     (case section_at fl ''ThreadPool'' [''Mode'', ''FixThreadSize'', ''TaskQueueMaxSize''] root of
        None \<Rightarrow> Inr None
      | Some v \<Rightarrow>
          and_then (if hasKey ''MaxThreadSize'' v then int_at ''MaxThreadSize'' v else Inr 1024) (\<lambda>m.
          and_then (if hasKey ''ThreadIdleTime'' v then int_at ''ThreadIdleTime'' v else Inr 120) (\<lambda>idle.
          and_then (int_at ''Mode'' v) (\<lambda>mode.
          and_then (int_at ''FixThreadSize'' v) (\<lambda>n.
          and_then (int_at ''TaskQueueMaxSize'' v) (\<lambda>q.
            Inr (Some (pool_mode mode, ucast n, ucast q, ucast m, ucast idle))))))))"

definition init_singletons :: "'f float_lib \<Rightarrow> 'f json \<Rightarrow> 'f framework \<Rightarrow> 'f framework result" where
  "init_singletons fl root s =
     and_then (logger_config fl root) (\<lambda>l.
     and_then (cache_config fl ''ChunkAllocator'' root) (\<lambda>c.
     and_then (cache_config fl ''SmallAllocator'' root) (\<lambda>m.
     and_then (pool_config fl root) (\<lambda>p.
       Inr (act (A_thread_pool p) (act (A_small_allocator m) (act (A_chunk_allocator c) (act (A_logger l) s))))))))"

subsection \<open>Starting\<close>

text \<open>The members of an object, in the order of the map; other values have none.\<close>

definition ObjectRange :: "'f json \<Rightarrow> (string \<times> 'f json) list" where
  "ObjectRange v = (case v of JObject m \<Rightarrow> m | _ \<Rightarrow> [])"

text \<open>
  A library's global objects register its components while \<open>dlopen\<close> runs. A component is loaded
  when its entry says so; an entry without the key or whose library does not load is passed over.
\<close>

definition open_component :: "'f environment \<Rightarrow> string \<times> 'f json \<Rightarrow> 'f framework \<Rightarrow> 'f framework" where
  "open_component env p s =
     (if hasKey ''Enable'' (snd p) \<and> bool_at ''Enable'' (snd p) = Inr True
      then let path = env_path env @ ''component/lib'' @ fst p @ ''.so''
           in case env_dlopen env path of
                None \<Rightarrow> act (A_open path) s
              | Some cs \<Rightarrow>
                  let s = foldl (\<lambda>s c. snd (addComponent c s)) (act (A_open path) s) cs
                  in s\<lparr>m_libHandl := (if path \<in> set (m_libHandl s) then m_libHandl s else m_libHandl s @ [path])\<rparr>
      else s)"

text \<open>
  The two loops over the components; the second component of the result is a fault that ends
  the loop. A component without an entry or whose initialisation fails is only reported.
\<close>

fun init_loop :: "'f float_lib \<Rightarrow> 'f json \<Rightarrow> 'f component list \<Rightarrow> 'f framework \<Rightarrow> 'f framework \<times> fault option" where
  "init_loop fl comps [] s = (s, None)"
| "init_loop fl comps (c # cs) s =
     (if hasKey (getName c) comps
      then let v = fst (get_key fl (getName c) comps);
               s = act (A_init (getName c) v) s
           in case comp_initialise c v of
                Inl e \<Rightarrow> (s, Some e)
              | Inr _ \<Rightarrow> init_loop fl comps cs s
      else init_loop fl comps cs s)"

fun start_loop :: "'f component list \<Rightarrow> 'f framework \<Rightarrow> 'f framework \<times> fault option" where
  "start_loop [] s = (s, None)"
| "start_loop (c # cs) s =
     (let s = act (A_start (getName c)) s
      in case comp_start c of
           Inl e \<Rightarrow> (s, Some e)
         | Inr _ \<Rightarrow> start_loop cs s)"

text \<open>The last part of \<open>start\<close> on a server, once: the license, the commands, the console thread.\<close>

definition start_server :: "'f environment \<Rightarrow> 'f framework \<Rightarrow> 'f framework" where
  "start_server env s =
     (if env_server env \<and> \<not> ptrLicenseCtrl s
      then let s = act (A_license (env_path env @ ''config/'') (env_name env)) (s\<lparr>ptrLicenseCtrl := True\<rparr>);
               s = addCmdCallback ''-lg'' ''--log, component logger settings and viewing'' 0 s;
               s = addCmdCallback ''-lc'' ''--license, license info setting and viewing'' 1 s;
               s = addCmdCallback ''-sa'' ''--small allocator, small allocator control and viewing'' 2 s;
               s = addCmdCallback ''-ca'' ''--chunk allocator, chunck allocator control and viewing'' 3 s;
               s = addCmdCallback ''-tp'' ''--thread pool, thread pool control and viewing'' 4 s
           in act A_cmd_thread (s\<lparr>bRunflag := True\<rparr>)
      else s)"

text \<open>
  From the event bus on. A thrown exception is caught and makes the result false; what was done
  before it stays done.
\<close>

definition start_components :: "'f float_lib \<Rightarrow> 'f environment \<Rightarrow> 'f json \<Rightarrow> 'f framework \<Rightarrow>
    (bool \<times> 'f framework) result" where
  "start_components fl env root s =
     (let s = act A_event_start s;
          components = fst (get_key fl ''Components'' root)
      in if components = JNull then Inr (False, s)
         else
           let s = foldl (\<lambda>s p. open_component env p s) s (ObjectRange components);
               cs = env_order env (m_mapComponents s)
           in case init_loop fl components cs s of
                (s, Some (Throws _)) \<Rightarrow> Inr (False, s)
              | (s, Some e) \<Rightarrow> Inl e
              | (s, None) \<Rightarrow>
                  (case start_loop cs s of
                     (s, Some (Throws _)) \<Rightarrow> Inr (False, s)
                   | (s, Some e) \<Rightarrow> Inl e
                   | (s, None) \<Rightarrow> Inr (True, start_server env (act (A_subscribe ''stop'') s))))"

definition framework_start :: "'f float_lib \<Rightarrow> 'f environment \<Rightarrow> string \<Rightarrow> 'f framework \<Rightarrow>
    (bool \<times> 'f framework) result" where
  "framework_start fl env strCfg s =
     and_then (load_from_file fl (env_files env) (env_path env @ ''config/'' @ strCfg @ ''.json'') JNull)
       (\<lambda>(strErr, root).
          if root = JNull \<or> strErr \<noteq> [] then Inr (False, s)
          else and_then (init_singletons fl root s) (start_components fl env root))"

subsection \<open>Events, stop and run\<close>

text \<open>
  The handler of the framework. \<open>msg\<close> is the outcome of reading the message of the event. Without
  the run flag, which only \<open>start_server\<close> sets, the process is terminated.
\<close>

definition handleEvent :: "string \<Rightarrow> string result \<Rightarrow> 'f framework \<Rightarrow> 'f framework result" where
  "handleEvent name msg s =
     (if name = ''stop''
      then if \<not> bRunflag s then Inl Aborts
           else and_then msg (\<lambda>_. Inr (s\<lparr>bRunflag := False\<rparr>))
      else Inr s)"

definition DataFrame_clear :: "'f framework \<Rightarrow> 'f framework" where
  "DataFrame_clear s = s\<lparr>m_funcTimer := [], m_wkFuncTimer := [], m_mapCmdFunc := []\<rparr>"

definition framework_stop :: "'f environment \<Rightarrow> 'f framework \<Rightarrow> 'f framework" where
  "framework_stop env s =
     (let s = act A_event_stop s;
          s = foldl (\<lambda>s c. act (A_stop (getName c)) s) s (env_order env (m_mapComponents s));
          s = act A_services_clear (s\<lparr>m_mapComponents := []\<rparr>);
          s = DataFrame_clear s;
          s = foldl (\<lambda>s h. act (A_close h) s) s (env_handles env (m_libHandl s));
          s = s\<lparr>m_libHandl := []\<rparr>
      in act A_destroy_logger (act A_destroy_chunk (act A_destroy_small (act A_destroy_pool s))))"

text \<open>
  One turn of the timer loop: the callbacks held weakly that are still alive, then the others; a
  weak one that has expired is removed. The result lists the calls.
\<close>

definition timer_tick :: "(nat \<Rightarrow> bool) \<Rightarrow> int \<Rightarrow> 'f framework \<Rightarrow> (nat \<times> int) list \<times> 'f framework" where
  "timer_tick alive currTime s =
     (map (\<lambda>f. (f, currTime)) (filter alive (m_wkFuncTimer s)) @ map (\<lambda>f. (f, currTime)) (m_funcTimer s),
      s\<lparr>m_wkFuncTimer := filter alive (m_wkFuncTimer s)\<rparr>)"

text \<open>
  The loop: each element of the list is what a turn finds, the run flag, the weak callbacks alive
  and the time. It ends at the first turn that finds the flag clear.
\<close>

fun timer_loop :: "(bool \<times> (nat \<Rightarrow> bool) \<times> int) list \<Rightarrow> 'f framework \<Rightarrow>
    ((nat \<times> int) list \<times> 'f framework) option" where
  "timer_loop [] s = None"
| "timer_loop ((run, alive, t) # ts) s =
     (if \<not> run then Some ([], s)
      else let (calls, s) = timer_tick alive t s
           in case timer_loop ts s of None \<Rightarrow> None | Some (calls', s) \<Rightarrow> Some (calls @ calls', s))"

definition waitAndDealTimer :: "(bool \<times> (nat \<Rightarrow> bool) \<times> int) list \<Rightarrow> 'f framework \<Rightarrow>
    ((nat \<times> int) list \<times> 'f framework) option" where
  "waitAndDealTimer turns s = timer_loop turns (addTimerCallback 101 (addTimerCallback 100 s))"

text \<open>\<open>run\<close>; \<open>None\<close> is a timer loop that goes on. It ends with the run flag clear.\<close>

definition run :: "'f float_lib \<Rightarrow> 'f environment \<Rightarrow> string \<Rightarrow> (bool \<times> (nat \<Rightarrow> bool) \<times> int) list \<Rightarrow>
    'f framework \<Rightarrow> 'f framework option result" where
  "run fl env strCfg turns s =
     and_then (framework_start fl env strCfg s) (\<lambda>(ok, s).
       if \<not> ok then Inr (Some s)
       else case waitAndDealTimer turns s of
              None \<Rightarrow> Inr None
            | Some (_, s) \<Rightarrow> Inr (Some (framework_stop env (s\<lparr>bRunflag := False\<rparr>))))"

subsection \<open>The console\<close>

text \<open>
  \<open>dealCmd\<close> reads lines from the standard input, \<open>lines i\<close> being the line \<open>getline\<close> leaves at
  its call number \<open>i\<close>; at the end of the input it leaves the empty line each time. A command's
  function may read lines and change the flag: \<open>cmd f i run\<close> is the next line number and the
  flag; \<open>others i\<close> says that another thread has cleared the flag before line \<open>i\<close>. The result is
  the number of lines read; \<open>None\<close> means the turns did not suffice.
\<close>

fun dealCmd :: "nat \<Rightarrow> (nat \<Rightarrow> string) \<Rightarrow> (nat \<Rightarrow> nat \<Rightarrow> bool \<Rightarrow> nat \<times> bool) \<Rightarrow> (nat \<Rightarrow> bool) \<Rightarrow> nat \<Rightarrow>
    'f framework \<Rightarrow> (nat \<times> 'f framework) option" where
  "dealCmd 0 lines cmd others i s = None"
| "dealCmd (Suc turns) lines cmd others i s =
     (if \<not> bRunflag s \<or> others i then Some (i, s\<lparr>bRunflag := False\<rparr>)
      else let strCmd = lines i in
           case map_of (m_mapCmdFunc s) strCmd of
             Some (_, f) \<Rightarrow> (let (i, run) = cmd f (i + 1) (bRunflag s)
                            in dealCmd turns lines cmd others i (s\<lparr>bRunflag := run\<rparr>))
           | None \<Rightarrow>
               if strCmd = ''-h'' then dealCmd turns lines cmd others (i + 1) s
               else if strCmd = ''-q'' then
                 if lines (i + 1) = ''Y'' \<or> lines (i + 1) = ''y''
                 then Some (i + 2, s\<lparr>bRunflag := False\<rparr>)
                 else dealCmd turns lines cmd others (i + 2) s
               else dealCmd turns lines cmd others (i + 1) s)"

subsection \<open>What a start does\<close>

lemma acts_act [simp]: "acts (act a s) = acts s @ [a]" "m_mapComponents (act a s) = m_mapComponents s"
  "m_libHandl (act a s) = m_libHandl s"
  by (simp_all add: act_def)

lemma addComponents_acts: "acts (foldl (\<lambda>s c. snd (addComponent c s)) s cs) = acts s"
  by (induction cs arbitrary: s) (simp_all add: addComponent_def)

definition enabled :: "string \<times> 'f json \<Rightarrow> bool" where
  "enabled p \<longleftrightarrow> hasKey ''Enable'' (snd p) \<and> bool_at ''Enable'' (snd p) = Inr True"

definition lib_path :: "'f environment \<Rightarrow> string \<Rightarrow> string" where
  "lib_path env name = env_path env @ ''component/lib'' @ name @ ''.so''"

lemma open_component_acts:
  "acts (open_component env p s) = acts s @ (if enabled p then [A_open (lib_path env (fst p))] else [])"
  by (simp add: open_component_def enabled_def lib_path_def Let_def addComponents_acts split: option.split)

lemma open_components_acts:
  "acts (foldl (\<lambda>s p. open_component env p s) s ps) =
     acts s @ map (\<lambda>p. A_open (lib_path env (fst p))) (filter enabled ps)"
  by (induction ps arbitrary: s) (simp_all add: open_component_acts)

lemma init_loop_acts:
  "init_loop fl comps cs s = (s', None) \<Longrightarrow>
   acts s' = acts s @ map (\<lambda>c. A_init (getName c) (fst (get_key fl (getName c) comps)))
     (filter (\<lambda>c. hasKey (getName c) comps) cs) \<and> m_mapComponents s' = m_mapComponents s"
  by (induction cs arbitrary: s) (auto simp: Let_def split: if_splits sum.splits)

lemma start_loop_acts:
  "start_loop cs s = (s', None) \<Longrightarrow>
   acts s' = acts s @ map (\<lambda>c. A_start (getName c)) cs \<and> m_mapComponents s' = m_mapComponents s"
  by (induction cs arbitrary: s) (auto simp: Let_def split: sum.splits)

text \<open>
  The libraries opened, the components they register (a name that is there already is refused)
  and the handles kept.
\<close>

definition libraries :: "'f environment \<Rightarrow> 'f json \<Rightarrow> string list" where
  "libraries env comps = map (\<lambda>p. lib_path env (fst p)) (filter enabled (ObjectRange comps))"

definition add_new :: "'f component list \<Rightarrow> 'f component \<Rightarrow> 'f component list" where
  "add_new cs c = (if getName c \<in> getName ` set cs then cs else cs @ [c])"

definition loaded :: "'f environment \<Rightarrow> 'f json \<Rightarrow> 'f component list \<Rightarrow> 'f component list" where
  "loaded env comps cs = foldl add_new cs (concat (map (\<lambda>l. case env_dlopen env l of None \<Rightarrow> [] | Some cs \<Rightarrow> cs)
     (libraries env comps)))"

definition handles :: "'f environment \<Rightarrow> 'f json \<Rightarrow> string list \<Rightarrow> string list" where
  "handles env comps hs = foldl (\<lambda>hs h. if h \<in> set hs then hs else hs @ [h]) hs
     (filter (\<lambda>l. env_dlopen env l \<noteq> None) (libraries env comps))"

definition server_commands :: "(string \<times> string \<times> nat) list" where
  "server_commands =
     [(''-lg'', ''--log, component logger settings and viewing'', 0),
      (''-lc'', ''--license, license info setting and viewing'', 1),
      (''-sa'', ''--small allocator, small allocator control and viewing'', 2),
      (''-ca'', ''--chunk allocator, chunck allocator control and viewing'', 3),
      (''-tp'', ''--thread pool, thread pool control and viewing'', 4)]"

text \<open>What the loading and the two loops leave alone.\<close>

definition console_part :: "'f framework \<Rightarrow> bool \<times> bool \<times> nat list \<times> nat list \<times> (string \<times> string \<times> nat) list" where
  "console_part s = (bRunflag s, ptrLicenseCtrl s, m_funcTimer s, m_wkFuncTimer s, m_mapCmdFunc s)"

lemma console_part_act [simp]: "console_part (act a s) = console_part s"
  "console_part (s\<lparr>m_libHandl := hs\<rparr>) = console_part s"
  by (simp_all add: console_part_def act_def)

lemma addComponents_state:
  "m_mapComponents (foldl (\<lambda>s c. snd (addComponent c s)) s cs) = foldl add_new (m_mapComponents s) cs"
  "m_libHandl (foldl (\<lambda>s c. snd (addComponent c s)) s cs) = m_libHandl s"
  "console_part (foldl (\<lambda>s c. snd (addComponent c s)) s cs) = console_part s"
  by (induction cs arbitrary: s) (simp_all add: addComponent_def add_new_def console_part_def)

lemma open_components_state:
  fixes s :: "'f framework" and ps :: "(string \<times> 'f json) list" and env :: "'f environment"
  defines "libs \<equiv> map (\<lambda>p. lib_path env (fst p)) (filter enabled ps)"
    and "s' \<equiv> foldl (\<lambda>s p. open_component env p s) s ps"
  shows "m_mapComponents s' = foldl add_new (m_mapComponents s)
      (concat (map (\<lambda>l. case env_dlopen env l of None \<Rightarrow> [] | Some cs \<Rightarrow> cs) libs))"
    "m_libHandl s' = foldl (\<lambda>hs h. if h \<in> set hs then hs else hs @ [h]) (m_libHandl s)
      (filter (\<lambda>l. env_dlopen env l \<noteq> None) libs)"
    "console_part s' = console_part s"
proof -
  have one: "m_mapComponents (open_component env p s) = (if enabled p then foldl add_new (m_mapComponents s)
      (case env_dlopen env (lib_path env (fst p)) of None \<Rightarrow> [] | Some cs \<Rightarrow> cs) else m_mapComponents s)"
    "m_libHandl (open_component env p s) = (if enabled p \<and> env_dlopen env (lib_path env (fst p)) \<noteq> None
        \<and> lib_path env (fst p) \<notin> set (m_libHandl s) then m_libHandl s @ [lib_path env (fst p)] else m_libHandl s)"
    "console_part (open_component env p s) = console_part s" for p and s :: "'f framework"
    unfolding open_component_def enabled_def [symmetric] Let_def lib_path_def [symmetric]
    using addComponents_state(1,2) [of "act (A_open (lib_path env (fst p))) s"]
      addComponents_state(3) [of "act (A_open (lib_path env (fst p))) s"]
    by (auto split: option.splits)
  show "m_mapComponents s' = foldl add_new (m_mapComponents s)
      (concat (map (\<lambda>l. case env_dlopen env l of None \<Rightarrow> [] | Some cs \<Rightarrow> cs) libs))"
    "m_libHandl s' = foldl (\<lambda>hs h. if h \<in> set hs then hs else hs @ [h]) (m_libHandl s)
      (filter (\<lambda>l. env_dlopen env l \<noteq> None) libs)"
    "console_part s' = console_part s"
    unfolding libs_def s'_def by (induction ps arbitrary: s) (simp_all add: one)
qed

lemma init_loop_frame:
  "init_loop fl comps cs s = (s', e) \<Longrightarrow>
   m_mapComponents s' = m_mapComponents s \<and> m_libHandl s' = m_libHandl s \<and> console_part s' = console_part s"
  by (induction cs arbitrary: s) (auto simp: Let_def split: if_splits sum.splits)

lemma start_loop_frame:
  "start_loop cs s = (s', e) \<Longrightarrow>
   m_mapComponents s' = m_mapComponents s \<and> m_libHandl s' = m_libHandl s \<and> console_part s' = console_part s"
  by (induction cs arbitrary: s) (auto simp: Let_def split: sum.splits)

lemma addCmdCallback_frame [simp]:
  "acts (addCmdCallback n d f s) = acts s" "m_mapComponents (addCmdCallback n d f s) = m_mapComponents s"
  "m_libHandl (addCmdCallback n d f s) = m_libHandl s" "bRunflag (addCmdCallback n d f s) = bRunflag s"
  "ptrLicenseCtrl (addCmdCallback n d f s) = ptrLicenseCtrl s"
  "m_funcTimer (addCmdCallback n d f s) = m_funcTimer s" "m_wkFuncTimer (addCmdCallback n d f s) = m_wkFuncTimer s"
  "m_mapCmdFunc (addCmdCallback n d f s) = map_insert n (d, f) (m_mapCmdFunc s)"
  by (simp_all add: addCmdCallback_def)

lemma start_server_state:
  "acts (start_server env s) = acts s @
     (if env_server env \<and> \<not> ptrLicenseCtrl s
      then [A_license (env_path env @ ''config/'') (env_name env), A_cmd_thread] else [])"
  "m_mapComponents (start_server env s) = m_mapComponents s" "m_libHandl (start_server env s) = m_libHandl s"
  "m_funcTimer (start_server env s) = m_funcTimer s" "m_wkFuncTimer (start_server env s) = m_wkFuncTimer s"
  "bRunflag (start_server env s) = (bRunflag s \<or> env_server env \<and> \<not> ptrLicenseCtrl s)"
  "ptrLicenseCtrl (start_server env s) = (ptrLicenseCtrl s \<or> env_server env)"
  "m_mapCmdFunc (start_server env s) =
     (if env_server env \<and> \<not> ptrLicenseCtrl s
      then foldl (\<lambda>m (k, v). map_insert k v m) (m_mapCmdFunc s) server_commands else m_mapCmdFunc s)"
  by (auto simp: start_server_def Let_def act_def server_commands_def)

lemma start_components_cases:
  assumes "start_components fl env root s = Inr (True, s')"
  obtains s2 s3 where
    "init_loop fl (fst (get_key fl ''Components'' root))
      (env_order env (loaded env (fst (get_key fl ''Components'' root)) (m_mapComponents s)))
      (foldl (\<lambda>s p. open_component env p s) (act A_event_start s) (ObjectRange (fst (get_key fl ''Components'' root)))) = (s2, None)"
    "start_loop (env_order env (loaded env (fst (get_key fl ''Components'' root)) (m_mapComponents s))) s2 = (s3, None)"
    "s' = start_server env (act (A_subscribe ''stop'') s3)"
proof -
  let ?c = "fst (get_key fl ''Components'' root)"
  let ?s1 = "foldl (\<lambda>s p. open_component env p s) (act A_event_start s) (ObjectRange ?c)"
  let ?cs = "env_order env (m_mapComponents ?s1)"
  have cs: "m_mapComponents ?s1 = loaded env ?c (m_mapComponents s)"
    using open_components_state(1) [where env = env and ps = "ObjectRange ?c" and s = "act A_event_start s"]
    by (simp add: loaded_def libraries_def)
  obtain s2 where i: "init_loop fl ?c ?cs ?s1 = (s2, None)"
    and rest: "(case start_loop ?cs s2 of
        (s, Some (Throws _)) \<Rightarrow> Inr (False, s) | (s, Some e) \<Rightarrow> Inl e
      | (s, None) \<Rightarrow> Inr (True, start_server env (act (A_subscribe ''stop'') s))) = Inr (True, s')"
    using assms unfolding start_components_def Let_def
    by (auto split: if_splits prod.splits option.splits fault.splits)
  obtain s3 where "start_loop ?cs s2 = (s3, None)" "s' = start_server env (act (A_subscribe ''stop'') s3)"
    using rest by (auto split: prod.splits option.splits fault.splits)
  then show ?thesis using that i unfolding cs by blast
qed

lemma start_components_state:
  assumes "start_components fl env root s = Inr (True, s')"
  defines "comps \<equiv> fst (get_key fl ''Components'' root)"
  shows "acts s' = acts s @ [A_event_start] @ map A_open (libraries env comps) @
      map (\<lambda>c. A_init (getName c) (fst (get_key fl (getName c) comps)))
        (filter (\<lambda>c. hasKey (getName c) comps) (env_order env (loaded env comps (m_mapComponents s)))) @
      map (\<lambda>c. A_start (getName c)) (env_order env (loaded env comps (m_mapComponents s))) @ [A_subscribe ''stop''] @
      (if env_server env \<and> \<not> ptrLicenseCtrl s
       then [A_license (env_path env @ ''config/'') (env_name env), A_cmd_thread] else [])"
    and "m_mapComponents s' = loaded env comps (m_mapComponents s)"
    and "m_libHandl s' = handles env comps (m_libHandl s)"
    and "bRunflag s' = (bRunflag s \<or> env_server env \<and> \<not> ptrLicenseCtrl s)"
    and "ptrLicenseCtrl s' = (ptrLicenseCtrl s \<or> env_server env)"
    and "m_mapCmdFunc s' = (if env_server env \<and> \<not> ptrLicenseCtrl s
      then foldl (\<lambda>m (k, v). map_insert k v m) (m_mapCmdFunc s) server_commands else m_mapCmdFunc s)"
    and "m_funcTimer s' = m_funcTimer s" and "m_wkFuncTimer s' = m_wkFuncTimer s"
proof -
  obtain s2 s3 where i: "init_loop fl comps (env_order env (loaded env comps (m_mapComponents s)))
      (foldl (\<lambda>s p. open_component env p s) (act A_event_start s) (ObjectRange comps)) = (s2, None)"
    and st: "start_loop (env_order env (loaded env comps (m_mapComponents s))) s2 = (s3, None)"
    and s': "s' = start_server env (act (A_subscribe ''stop'') s3)"
    using start_components_cases [OF assms(1)] unfolding comps_def by blast
  note o = open_components_state [where env = env and ps = "ObjectRange comps" and s = "act A_event_start s"]
  have p: "console_part s3 = console_part s" "m_mapComponents s3 = loaded env comps (m_mapComponents s)"
    "m_libHandl s3 = handles env comps (m_libHandl s)"
    using start_loop_frame [OF st] init_loop_frame [OF i] o
    by (simp_all add: loaded_def libraries_def handles_def)
  then have q: "ptrLicenseCtrl (act (A_subscribe ''stop'') s3) = ptrLicenseCtrl s" "bRunflag (act (A_subscribe ''stop'') s3) = bRunflag s"
    "m_mapCmdFunc (act (A_subscribe ''stop'') s3) = m_mapCmdFunc s" "m_funcTimer (act (A_subscribe ''stop'') s3) = m_funcTimer s"
    "m_wkFuncTimer (act (A_subscribe ''stop'') s3) = m_wkFuncTimer s"
    by (simp_all add: console_part_def act_def)
  show "acts s' = acts s @ [A_event_start] @ map A_open (libraries env comps) @
      map (\<lambda>c. A_init (getName c) (fst (get_key fl (getName c) comps)))
        (filter (\<lambda>c. hasKey (getName c) comps) (env_order env (loaded env comps (m_mapComponents s)))) @
      map (\<lambda>c. A_start (getName c)) (env_order env (loaded env comps (m_mapComponents s))) @ [A_subscribe ''stop''] @
      (if env_server env \<and> \<not> ptrLicenseCtrl s
       then [A_license (env_path env @ ''config/'') (env_name env), A_cmd_thread] else [])"
    unfolding s' start_server_state(1) q
    using init_loop_acts [OF i] start_loop_acts [OF st] by (simp add: open_components_acts libraries_def comp_def)
  show "m_mapComponents s' = loaded env comps (m_mapComponents s)" "m_libHandl s' = handles env comps (m_libHandl s)"
    using p by (simp_all add: s' start_server_state)
  show "bRunflag s' = (bRunflag s \<or> env_server env \<and> \<not> ptrLicenseCtrl s)"
    "ptrLicenseCtrl s' = (ptrLicenseCtrl s \<or> env_server env)"
    "m_mapCmdFunc s' = (if env_server env \<and> \<not> ptrLicenseCtrl s
      then foldl (\<lambda>m (k, v). map_insert k v m) (m_mapCmdFunc s) server_commands else m_mapCmdFunc s)"
    "m_funcTimer s' = m_funcTimer s" "m_wkFuncTimer s' = m_wkFuncTimer s"
    unfolding s' start_server_state q by simp_all
qed

lemma framework_start_cases:
  assumes "framework_start fl env strCfg s = Inr (True, s')"
  obtains root l c m p where
    "load_from_file fl (env_files env) (env_path env @ ''config/'' @ strCfg @ ''.json'') JNull = Inr ([], root)"
    "logger_config fl root = Inr l" "cache_config fl ''ChunkAllocator'' root = Inr c"
    "cache_config fl ''SmallAllocator'' root = Inr m" "pool_config fl root = Inr p"
    "start_components fl env root (act (A_thread_pool p) (act (A_small_allocator m) (act (A_chunk_allocator c)
       (act (A_logger l) s)))) = Inr (True, s')"
proof -
  obtain e root where l: "load_from_file fl (env_files env) (env_path env @ ''config/'' @ strCfg @ ''.json'') JNull = Inr (e, root)"
    and r: "(if root = JNull \<or> e \<noteq> [] then Inr (False, s)
      else and_then (init_singletons fl root s) (start_components fl env root)) = Inr (True, s')"
    using assms by (auto simp: framework_start_def and_then_eq_Inr)
  have "e = []" using r by (cases "e = []") auto
  then show ?thesis
    using r l that by (auto simp: init_singletons_def and_then_eq_Inr split: if_splits)
qed

subsection \<open>Properties\<close>

text \<open>
  C27: the complete effect of a successful start. In order, it reads the configuration, makes the
  logger, the two allocators and the thread pool from their sections (by default where a section
  lacks a key), starts the event bus, opens the libraries of the enabled entries, initialises the
  loaded components that have an entry with that entry, starts every loaded component, whatever
  its initialisation returned, and subscribes to \<open>stop\<close>. Exactly on a server that has no license
  control yet it then creates it, installs the five console commands, sets the run flag and
  starts the console thread. The components are those there before and those the libraries
  registered under new names, the handles those of the libraries that opened; the timer
  callbacks stay. The components come in the order of the unordered map (\<open>env_order\<close>), and none
  is started before all are initialised.
\<close>

theorem framework_start_sequence:
  assumes "framework_start fl env strCfg s = Inr (True, s')"
  shows "\<exists>root l c m p.
    load_from_file fl (env_files env) (env_path env @ ''config/'' @ strCfg @ ''.json'') JNull = Inr ([], root) \<and>
    logger_config fl root = Inr l \<and> cache_config fl ''ChunkAllocator'' root = Inr c \<and>
    cache_config fl ''SmallAllocator'' root = Inr m \<and> pool_config fl root = Inr p \<and>
    (let comps = fst (get_key fl ''Components'' root);
         cs = env_order env (loaded env comps (m_mapComponents s));
         first = env_server env \<and> \<not> ptrLicenseCtrl s
     in acts s' = acts s @
          [A_logger l, A_chunk_allocator c, A_small_allocator m, A_thread_pool p, A_event_start] @
          map A_open (libraries env comps) @
          map (\<lambda>c. A_init (getName c) (fst (get_key fl (getName c) comps)))
            (filter (\<lambda>c. hasKey (getName c) comps) cs) @
          map (\<lambda>c. A_start (getName c)) cs @ [A_subscribe ''stop''] @
          (if first then [A_license (env_path env @ ''config/'') (env_name env), A_cmd_thread] else []) \<and>
        m_mapComponents s' = loaded env comps (m_mapComponents s) \<and>
        m_libHandl s' = handles env comps (m_libHandl s) \<and>
        bRunflag s' = (bRunflag s \<or> first) \<and> ptrLicenseCtrl s' = (ptrLicenseCtrl s \<or> first) \<and>
        m_mapCmdFunc s' = (if first then foldl (\<lambda>m (k, v). map_insert k v m) (m_mapCmdFunc s) server_commands
          else m_mapCmdFunc s) \<and>
        m_funcTimer s' = m_funcTimer s \<and> m_wkFuncTimer s' = m_wkFuncTimer s)"
proof -
  obtain root l c m p where load: "load_from_file fl (env_files env) (env_path env @ ''config/'' @ strCfg @ ''.json'') JNull = Inr ([], root)"
    and cfg: "logger_config fl root = Inr l" "cache_config fl ''ChunkAllocator'' root = Inr c"
      "cache_config fl ''SmallAllocator'' root = Inr m" "pool_config fl root = Inr p"
    and st: "start_components fl env root (act (A_thread_pool p) (act (A_small_allocator m) (act (A_chunk_allocator c)
      (act (A_logger l) s)))) = Inr (True, s')"
    using framework_start_cases [OF assms] by blast
  show ?thesis
    by (rule exI [of _ root], rule exI [of _ l], rule exI [of _ c], rule exI [of _ m], rule exI [of _ p])
      (use start_components_state [OF st] load cfg in \<open>auto simp: act_def Let_def\<close>)
qed

lemma env_files_irrelevant [simp]:
  "open_component (env\<lparr>env_files := x\<rparr>) p s = open_component env p s"
  "start_server (env\<lparr>env_files := x\<rparr>) s = start_server env s"
  by (simp_all add: open_component_def start_server_def)

lemma start_components_files: "start_components fl (env\<lparr>env_files := x\<rparr>) root = start_components fl env root"
  by (rule ext) (simp add: start_components_def Let_def cong: option.case_cong)

text \<open>
  only the value of the configuration matters: two files that are layouts of the same document,
  with any blanks and comments, start the framework in the same way.
\<close>

theorem any_layout_starts_alike:
  fixes v :: "'f json" and fl :: "'f float_lib"
  assumes "jtext v t1" "jtext v t2" "\<not> is_number v"
  shows "framework_start fl (env\<lparr>env_files := (env_files env)(env_path env @ ''config/'' @ strCfg @ ''.json'' \<mapsto> t1)\<rparr>) strCfg s =
    framework_start fl (env\<lparr>env_files := (env_files env)(env_path env @ ''config/'' @ strCfg @ ''.json'' \<mapsto> t2)\<rparr>) strCfg s"
  using load_text [OF assms(1,3)] load_text [OF assms(2,3)]
  by (simp add: framework_start_def load_from_file_def start_components_files)

text \<open>
  A stop stops the event bus before the components, stops every component before anything is
  cleared, closes each library only after the components it made are gone, and destroys the pool,
  the allocators and the logger last. Nothing of the components, libraries, callbacks and commands
  remains.
\<close>

theorem framework_stop_sequence:
  "acts (framework_stop env s) = acts s @ [A_event_stop] @
     map (\<lambda>c. A_stop (getName c)) (env_order env (m_mapComponents s)) @ [A_services_clear] @
     map A_close (env_handles env (m_libHandl s)) @ [A_destroy_pool, A_destroy_small, A_destroy_chunk, A_destroy_logger] \<and>
   m_mapComponents (framework_stop env s) = [] \<and> m_libHandl (framework_stop env s) = [] \<and>
   m_funcTimer (framework_stop env s) = [] \<and> m_mapCmdFunc (framework_stop env s) = []"
proof -
  have c: "foldl (\<lambda>s c. act (A_stop (getName c)) s) r cs = r\<lparr>acts := acts r @ map (\<lambda>c. A_stop (getName c)) cs\<rparr>" for r cs
    by (induction cs arbitrary: r) (simp_all add: act_def)
  have h: "foldl (\<lambda>s h. act (A_close h) s) r hs = r\<lparr>acts := acts r @ map A_close hs\<rparr>" for r hs
    by (induction hs arbitrary: r) (simp_all add: act_def)
  show ?thesis unfolding framework_stop_def Let_def c h by (simp add: DataFrame_clear_def act_def)
qed

text \<open>
  A start that finds no components has already started the event bus, and \<open>run\<close> does not stop it.
\<close>

theorem failed_start_leaves_bus:
  assumes "load_from_file fl (env_files env) (env_path env @ ''config/'' @ strCfg @ ''.json'') JNull = Inr ([], root)"
    and "root \<noteq> JNull" and "fst (get_key fl ''Components'' root) = JNull"
    and "init_singletons fl root s = Inr s1"
  shows "run fl env strCfg turns s = Inr (Some (act A_event_start s1))"
  using assms by (simp add: run_def framework_start_def start_components_def Let_def)

text \<open>At the end of the input the console never returns: it reads the empty line for ever.\<close>

theorem console_spins_at_eof:
  assumes "bRunflag s" and "\<And>j. i \<le> j \<Longrightarrow> lines j = []" and "\<And>j. \<not> others j"
    and "map_of (m_mapCmdFunc s) [] = None"
  shows "dealCmd turns lines cmd others i s = None"
  using assms(2)
proof (induction turns arbitrary: i)
  case (Suc turns)
  then show ?case using assms(1,3,4) by (simp add: Let_def)
qed simp

subsection \<open>A server with one component\<close>

text \<open>The component's initialisation reports a failure; it is started all the same.\<close>

definition demo_config :: "unit json" where
  "demo_config = JObject [(''Components'', JObject [(''Demo'', JObject [(''Enable'', JBoolean True)])])]"

definition demo_component :: "unit component" where
  "demo_component = \<lparr>getName = ''Demo'', comp_initialise = (\<lambda>_. Inr False), comp_start = Inr True\<rparr>"

definition demo_env :: "string \<Rightarrow> unit environment" where
  "demo_env t = \<lparr>env_files = [''/config/app.json'' \<mapsto> t], env_path = ''/'', env_name = ''app'',
     env_dlopen = (\<lambda>p. if p = ''/component/libDemo.so'' then Some [demo_component] else None),
     env_order = (\<lambda>cs. cs), env_handles = (\<lambda>hs. hs), env_server = True\<rparr>"

lemma demo_loadable: "loadable demo_config"
  using plain_key [of "''Components''"] plain_key [of "''Demo''"] plain_key [of "''Enable''"]
  by (simp add: demo_config_def json_escape_def escape_char_def chr_defs)

lemma demo_text: "jtext demo_config (dumpFast no_floats demo_config)"
  by (rule dumpFast_jtext [OF demo_loadable])

lemma demo_start:
  "\<exists>s'. framework_start no_floats (demo_env (dumpFast no_floats demo_config)) ''app'' CCompFramework = Inr (True, s')"
proof -
  have "load no_floats (dumpFast no_floats demo_config) JNull = Inr ([], demo_config)"
    by (rule load_text [OF demo_text]) (simp add: demo_config_def)
  then have l: "load_from_file no_floats (env_files (demo_env (dumpFast no_floats demo_config)))
      ''/config/app.json'' JNull = Inr ([], demo_config)"
    by (simp add: load_from_file_def demo_env_def)
  have p: "env_path (demo_env t) @ ''config/'' @ ''app'' @ ''.json'' = ''/config/app.json''" for t
    by (simp add: demo_env_def)
  show ?thesis unfolding framework_start_def p l
    by (simp add: demo_env_def demo_config_def demo_component_def CCompFramework_def init_singletons_def
      logger_config_def cache_config_def pool_config_def section_at_def hasKey_def start_components_def
      get_key_def SetType_def ObjectRange_def open_component_def bool_at_def at_key_def ToBool_def
      addComponent_def Let_def act_def)
qed

theorem framework_start_sequence_witness:
  "\<exists>s'. framework_start no_floats (demo_env (dumpFast no_floats demo_config)) ''app'' CCompFramework = Inr (True, s') \<and>
     bRunflag s' \<and> ptrLicenseCtrl s' \<and> map fst (m_mapCmdFunc s') = [''-ca'', ''-lc'', ''-lg'', ''-sa'', ''-tp''] \<and>
     last (acts s') = A_cmd_thread"
proof -
  obtain s' where s': "framework_start no_floats (demo_env (dumpFast no_floats demo_config)) ''app'' CCompFramework = Inr (True, s')"
    using demo_start by blast
  from framework_start_sequence [OF s'] s' show ?thesis
    by (auto simp: Let_def demo_env_def CCompFramework_def server_commands_def)
qed

theorem any_layout_starts_alike_witness:
  "framework_start no_floats (demo_env []\<lparr>env_files := (env_files (demo_env []))
      (env_path (demo_env []) @ ''config/'' @ ''app'' @ ''.json'' \<mapsto> dumpFast no_floats demo_config)\<rparr>) ''app'' CCompFramework =
   framework_start no_floats (demo_env []\<lparr>env_files := (env_files (demo_env []))
      (env_path (demo_env []) @ ''config/'' @ ''app'' @ ''.json'' \<mapsto> dumpStyle no_floats 0 [CHR 0x09] demo_config)\<rparr>) ''app'' CCompFramework"
proof -
  have b: "blank [CHR 0x09]" by (simp add: isspace_def)
  have "jtext demo_config (dumpStyle no_floats 0 [CHR 0x09] demo_config)"
    by (rule dumpStyle_jtext [OF b demo_loadable])
  then show ?thesis
    by (rule any_layout_starts_alike [OF demo_text]) (simp add: demo_config_def)
qed

end
