(* ===== verification/Console.thy ===== *)
theory Console
  imports Framework "HOL-Library.AList"
begin

text \<open>
  What the console of a server works on: the log levels of the components
  (src/code/service/core/suorce/CLoggerCtrl.cpp) and the license
  (src/code/service/core/suorce/CLiceseCtrl.cpp, src/code/common/source/util/CLicenseObj.cpp, whose
  checks are stubs in this repository). A line read from the standard input is an argument, as in
  \<open>dealCmd\<close>; printing is left out.
\<close>

subsection \<open>Log levels\<close>

text \<open>
  The entries by their 16-bit number: the component's name and its level, none once the component
  has dropped its wrapper.
\<close>

type_synonym comp_loggers = "(u16 \<times> string \<times> int option) list"

definition addComponetLogWrapper :: "string \<Rightarrow> int option \<Rightarrow> comp_loggers \<Rightarrow> comp_loggers" where
  "addComponetLogWrapper strCompName logWrap m =
     AList.update (word_of_nat (length m) + 1) (strCompName, logWrap) m"

text \<open>\<open>find\<close> of a character: the position, or \<open>npos\<close>, all ones.\<close>

definition find_char :: "char \<Rightarrow> string \<Rightarrow> u64" where
  "find_char c s = (if c \<in> set s then word_of_nat (length (takeWhile (\<lambda>x. x \<noteq> c) s)) else - 1)"

text \<open>\<open>atoi\<close>: a number out of the range of \<open>int\<close> has no defined result.\<close>

definition atoi :: "string \<Rightarrow> int result" where
  "atoi s =
     (let s = dropWhile isspace s;
          neg = (s \<noteq> [] \<and> hd s = CHR ''-'');
          s = (if s \<noteq> [] \<and> hd s \<in> {CHR ''-'', CHR ''+''} then tl s else s);
          n = int (digits_value (takeWhile is_digit s));
          n = (if neg then - n else n)
      in if - (2 ^ 31) \<le> n \<and> n < 2 ^ 31 then Inr n else Inl Undefined)"

text \<open>\<open>static_cast<int8_t>(c) - 0x30\<close>.\<close>

definition level_of_char :: "char \<Rightarrow> int" where
  "level_of_char c = sint (word_of_nat (of_char c) :: byte) - 48"

text \<open>
  The answer to the prompt of \<open>-sl\<close>, \<open>index:level\<close>. The size and the position are unsigned; the
  iterator range of the index must lie within the line. The result says whether a level was set.
\<close>

definition set_level :: "string \<Rightarrow> comp_loggers \<Rightarrow> (bool \<times> comp_loggers) result" where
  "set_level strCmd m =
     (let pos = find_char (CHR '':'') strCmd
      in if 0 < pos \<and> pos = word_of_nat (length strCmd) - 2
         then if length strCmd < unat pos then Inl Undefined
              else and_then (atoi (take (unat pos) strCmd)) (\<lambda>i.
                let sIndex = word_of_int i :: u16
                in case map_of m sIndex of
                     Some (name, Some old) \<Rightarrow>
                       let level = level_of_char (strCmd ! unat (pos + 1))
                       in if - 1 \<le> level \<and> level \<le> 5
                          then Inr (True, AList.update sIndex (name, Some level) m)
                          else Inr (False, m)
                   | _ \<Rightarrow> Inr (False, m))
         else Inr (False, m))"

definition starts_with :: "string \<Rightarrow> string \<Rightarrow> bool" where
  "starts_with p s \<longleftrightarrow> take (length p) s = p"

text \<open>The loop; \<open>None\<close> means the turns did not suffice.\<close>

fun logger_loop :: "nat \<Rightarrow> (nat \<Rightarrow> string) \<Rightarrow> (nat \<Rightarrow> bool) \<Rightarrow> nat \<Rightarrow> comp_loggers \<Rightarrow>
    (nat \<times> comp_loggers) result option" where
  "logger_loop 0 lines others i m = None"
| "logger_loop (Suc turns) lines others i m =
     (if others i then Some (Inr (i, m))
      else let strCmd = lines i in
           if starts_with ''-vl'' strCmd then logger_loop turns lines others (i + 1) m
           else if starts_with ''-sl'' strCmd then
             (case set_level (lines (i + 1)) m of
                Inl e \<Rightarrow> Some (Inl e)
              | Inr (_, m) \<Rightarrow> logger_loop turns lines others (i + 2) m)
           else if strCmd = ''-q'' then Some (Inr (i + 1, m))
           else logger_loop turns lines others (i + 1) m)"

subsection \<open>License\<close>

datatype emLicenseState = LICENSE_OK | LICENSE_NONE | LICENSE_UPDATE | LICENSE_OVERDUE

fun license_number :: "emLicenseState \<Rightarrow> nat" where
  "license_number LICENSE_OK = 0" | "license_number LICENSE_NONE = 1"
| "license_number LICENSE_UPDATE = 2" | "license_number LICENSE_OVERDUE = 3"

record 'f license_obj =
  m_licState :: emLicenseState
  m_strFile :: string
  m_strModule :: string
  m_jvLicData :: "'f json"

definition CLicenseObj :: "string \<Rightarrow> string \<Rightarrow> 'f license_obj" where
  "CLicenseObj strFilePath strModule = \<lparr>m_licState = LICENSE_NONE, m_strFile = strFilePath @ ''license.lic'',
     m_strModule = strModule, m_jvLicData = JNull\<rparr>"

text \<open>The file is parsed and the result not used.\<close>

definition parseLicenFile :: "'f float_lib \<Rightarrow> (string \<Rightarrow> string option) \<Rightarrow> string \<Rightarrow> 'f license_obj \<Rightarrow> bool result" where
  "parseLicenFile fl fs strFilePath x =
     and_then (load_from_file fl fs (if strFilePath = [] then m_strFile x else strFilePath) JNull) (\<lambda>_. Inr False)"

definition checkLicense :: "'f license_obj \<Rightarrow> bool" where
  "checkLicense x = False"

definition parseLicenseCode :: "string \<Rightarrow> 'f license_obj \<Rightarrow> bool" where
  "parseLicenseCode strLicCode x = (let strBuf = [] :: string in if length strBuf < 32 then False else False)"

definition generateJsonCode :: "'f license_obj \<Rightarrow> 'f license_obj" where
  "generateJsonCode x = x\<lparr>m_jvLicData := json_clear (m_jvLicData x)\<rparr>"

definition generateLicenseCode :: "'f license_obj \<Rightarrow> string" where
  "generateLicenseCode x = []"

text \<open>The new file content, when the file could be opened.\<close>

definition updateLicense :: "'f float_lib \<Rightarrow> bool \<Rightarrow> 'f license_obj \<Rightarrow> bool \<times> string option \<times> 'f license_obj" where
  "updateLicense fl can_open x =
     (if m_jvLicData x = JNull then (False, None, x)
      else let (sub, data) = get_key fl (m_strModule x) (m_jvLicData x);
               data = set_key fl (m_strModule x)
                 (set_key fl ''LicenseCode'' (JString (generateLicenseCode x)) sub) data
           in (True, if can_open then Some (dumpStyle fl 0 [CHR 0x09] data @ [CHR 0x0A]) else None,
               x\<lparr>m_jvLicData := data\<rparr>))"

definition reloadLicense :: "'f float_lib \<Rightarrow> (string \<Rightarrow> string option) \<Rightarrow> string \<Rightarrow> 'f license_obj \<Rightarrow> bool result" where
  "reloadLicense fl fs strFilePath x =
     and_then (parseLicenFile fl fs strFilePath x) (\<lambda>b. Inr (b \<and> checkLicense x))"

text \<open>
  The thread, over how its waits end, \<open>True\<close> for the time limit. The result is the event it sends
  when it ends, and \<open>None\<close> while it waits.
\<close>

fun licenseThread :: "bool list \<Rightarrow> 'f license_obj \<Rightarrow> (string \<times> string) option option" where
  "licenseThread [] x = None"
| "licenseThread (timeout # ws) x =
     (if timeout \<and> m_licState x = LICENSE_OK \<and> checkLicense x then licenseThread ws x
      else Some (if m_licState x = LICENSE_OK then None
        else Some (''stop'', ''invalid license! license state '' @ dec_nat (license_number (m_licState x)))))"

text \<open>The loop of the console command.\<close>

fun license_loop :: "'f float_lib \<Rightarrow> (string \<Rightarrow> string option) \<Rightarrow> nat \<Rightarrow> (nat \<Rightarrow> string) \<Rightarrow> (nat \<Rightarrow> bool) \<Rightarrow> nat \<Rightarrow>
    'f license_obj \<Rightarrow> nat result option" where
  "license_loop fl fs 0 lines others i x = None"
| "license_loop fl fs (Suc turns) lines others i x =
     (if others i then Some (Inr i)
      else let strCmd = lines i in
           if starts_with ''-vl'' strCmd then license_loop fl fs turns lines others (i + 1) x
           else if starts_with ''-rs'' strCmd then
             (case reloadLicense fl fs (lines (i + 1)) x of
                Inl e \<Rightarrow> Some (Inl e)
              | Inr _ \<Rightarrow> license_loop fl fs turns lines others (i + 2) x)
           else if strCmd = ''-q'' then Some (Inr (i + 1))
           else license_loop fl fs turns lines others (i + 1) x)"

subsection \<open>Properties\<close>

lemma find_char_length:
  "c \<notin> set s \<Longrightarrow> find_char c (s @ c # t) = word_of_nat (length s)"
proof -
  assume "c \<notin> set s"
  then have "takeWhile (\<lambda>x. x \<noteq> c) (s @ c # t) = s" by (rule takeWhile_nul)
  then show ?thesis by (simp add: find_char_def)
qed

lemma digit_facts:
  assumes "is_digit c"
  shows "\<not> isspace c" "c \<noteq> CHR ''-''" "c \<noteq> CHR ''+''" "c \<noteq> CHR '':''"
  using assms by (auto simp: is_digit_def isspace_def)

lemma atoi_dec_nat: "n < 2 ^ 31 \<Longrightarrow> atoi (dec_nat n) = Inr (int n)"
proof -
  assume n: "n < 2 ^ 31"
  obtain c cs where c: "dec_nat n = c # cs" using dec_nat_not_Nil [of n] by (cases "dec_nat n") auto
  have d: "is_digit c" using dec_nat_digits [of c n] c by simp
  have "takeWhile is_digit (dec_nat n) = dec_nat n" by (rule takeWhile_digits) (rule dec_nat_digits)
  then show ?thesis
    using c digit_facts [OF d] n digits_value_dec_nat [of n] by (simp add: atoi_def Let_def)
qed

lemma level_of_digit: "k \<le> 5 \<Longrightarrow> level_of_char (char_of (48 + k)) = int k"
proof -
  assume k: "k \<le> 5"
  then have "unat (word_of_nat (48 + k) :: byte) = 48 + k" by (simp only: unat_of_nat) simp
  then have "sint (word_of_nat (48 + k) :: byte) = 48 + int k" using k by (subst sint_eq_unat) simp_all
  then show ?thesis using k by (simp add: level_of_char_def)
qed

text \<open>An index, a colon and a level digit set the level of that component and of no other.\<close>

theorem set_level_sets:
  assumes "n < 2 ^ 15" "length (dec_nat n) < 2 ^ 62" "map_of m (word_of_nat n) = Some (name, Some old)" "k \<le> 5"
  shows "set_level (dec_nat n @ [CHR '':'', char_of (48 + k)]) m =
    Inr (True, AList.update (word_of_nat n) (name, Some (int k)) m)"
proof -
  let ?d = "dec_nat n"
  have nc: "CHR '':'' \<notin> set ?d" using dec_nat_digits digit_facts(4) by blast
  have pos: "find_char CHR '':'' (?d @ [CHR '':'', char_of (48 + k)]) = word_of_nat (length ?d)"
    using find_char_length [OF nc, of "[char_of (48 + k)]"] by simp
  have u: "unat (word_of_nat (length ?d) :: u64) = length ?d" "unat (word_of_nat (length ?d) + 1 :: u64) = Suc (length ?d)"
    using assms(2) by (simp_all add: unat_of_nat unat_word_ariths)
  have gt: "0 < (word_of_nat (length ?d) :: u64)"
    using u(1) dec_nat_not_Nil [of n] by (simp add: word_less_nat_alt)
  have two: "(word_of_nat (length (?d @ [CHR '':'', char_of (48 + k)])) - 2 :: u64) = word_of_nat (length ?d)"
    by simp
  have at: "atoi ?d = Inr (int n)" using assms(1) by (intro atoi_dec_nat) simp
  show ?thesis
    unfolding set_level_def pos two Let_def u
    using gt at assms(3,4) level_of_digit [OF assms(4)] by (simp add: nth_append)
qed

text \<open>
  a single character other than the colon typed at the prompt for a log level ends the console
  thread with an invalid iterator range: the position is \<open>npos\<close>, and so is the size less two.
\<close>

theorem level_prompt_single_char:
  assumes "\<not> others i" "starts_with ''-sl'' (lines i)" "lines (i + 1) = [c]" "c \<noteq> CHR '':''"
  shows "logger_loop (Suc turns) lines others i m = Some (Inl Undefined)"
proof -
  have "find_char CHR '':'' [c] = - 1" using assms(4) by (simp add: find_char_def)
  moreover have "unat (- 1 :: u64) = 2 ^ 64 - 1"
    by (simp add: unsigned_minus_1_eq_mask mask_eq_exp_minus_1)
  moreover from this have "0 < (- 1 :: u64)" by (simp only: word_less_nat_alt) simp
  ultimately have "set_level [c] m = Inl Undefined" by (simp add: set_level_def Let_def)
  moreover have "\<not> starts_with ''-vl'' (lines i)" using assms(2) by (auto simp: starts_with_def)
  ultimately show ?thesis using assms(1-3) by (simp add: Let_def)
qed

theorem level_prompt_single_char_witness:
  "logger_loop 1 (\<lambda>i. if i = 0 then ''-sl'' else ''3'') (\<lambda>_. False) 0 [(1, ''Demo'', Some 5)] = Some (Inl Undefined)"
  using level_prompt_single_char [of "\<lambda>_. False" 0 "\<lambda>i. if i = 0 then ''-sl'' else ''3''" "CHR ''3''" 0]
  by (simp add: starts_with_def)

text \<open>
  Without a license the thread's first wait to end, for whatever reason, sends the stop event,
  and the framework's handler clears the run flag.
\<close>

theorem unlicensed_server_stops:
  "\<exists>msg. licenseThread (w # ws) (CLicenseObj f n) = Some (Some (''stop'', msg)) \<and>
     (bRunflag s \<longrightarrow> handleEvent ''stop'' (Inr msg) s = Inr (s\<lparr>bRunflag := False\<rparr>))"
  by (simp add: CLicenseObj_def handleEvent_def)

end
