(* ===== verification/Matrix.thy ===== *)
theory Matrix
  imports ChunkAlloc
begin

text \<open>
  The matrix over one block of memory (src/code/common/include/util/Matrix.h,
  src/code/common/source/util/Matrix.cpp). The block comes from the chunk allocator; an element
  takes \<open>sz\<close> bytes and the elements of a new block, \<open>junk\<close>, are arbitrary. Sizes and indices are
  computed in 32 bits as in the code; the byte counts of \<open>memcpy\<close> and \<open>memset\<close> are not, since
  they begin with a \<open>size_t\<close>. Blocks are never shared: copies copy and moves move.
\<close>

subsection \<open>The provider of memory\<close>

text \<open>
  What the matrix relies on: a block that is provided has at least the bytes asked for, as long
  as these stay below a limit.
\<close>

locale block_provider =
  fixes get :: "ptr \<Rightarrow> u32 \<Rightarrow> 's \<Rightarrow> ((u32 \<times> ptr) \<times> 's) result"
    and limit :: nat
  assumes enough: "get fresh n s = Inr ((m, p), s') \<Longrightarrow> unat n < limit \<Longrightarrow> unat n \<le> unat m"

subsection \<open>The class\<close>

record 'a matrix =
  m_ulRowCount :: u32
  m_ulColCount :: u32
  m_ptrBegin :: "ptr option"
  m_ulCapacity :: u32
  cells :: "'a list"

type_synonym 's provider = "ptr \<Rightarrow> u32 \<Rightarrow> 's \<Rightarrow> ((u32 \<times> ptr) \<times> 's) result"

definition empty_matrix :: "'a matrix" where
  "empty_matrix = \<lparr>m_ulRowCount = 0, m_ulColCount = 0, m_ptrBegin = None, m_ulCapacity = 0, cells = []\<rparr>"

text \<open>\<open>junk\<close> gives the content of a new block by position.\<close>

definition allocateMemory :: "'s provider \<Rightarrow> nat \<Rightarrow> ptr \<Rightarrow> (nat \<Rightarrow> 'a) \<Rightarrow> 'a matrix \<times> 's \<Rightarrow> ('a matrix \<times> 's) result" where
  "allocateMemory get sz fresh junk = (\<lambda>(m, a).
     let ulSize = m_ulRowCount m * m_ulColCount m * word_of_nat sz
     in if m_ulCapacity m < ulSize
        then and_then (get fresh ulSize a) (\<lambda>((n, p), a).
          Inr (m\<lparr>m_ulCapacity := n, m_ptrBegin := Some p, cells := map junk [0..<unat n div sz]\<rparr>, a))
        else Inr (m, a))"

definition matrix_new :: "'s provider \<Rightarrow> nat \<Rightarrow> ptr \<Rightarrow> (nat \<Rightarrow> 'a) \<Rightarrow> u32 \<Rightarrow> u32 \<Rightarrow> 's \<Rightarrow> ('a matrix \<times> 's) result" where
  "matrix_new get sz fresh junk nRow nCol a =
     allocateMemory get sz fresh junk (empty_matrix\<lparr>m_ulRowCount := nRow, m_ulColCount := nCol\<rparr>, a)"

text \<open>\<open>memcpy\<close> of the rows and columns of the target.\<close>

definition elements :: "'a matrix \<Rightarrow> nat" where
  "elements m = unat (m_ulRowCount m) * unat (m_ulColCount m)"

definition copy_cells :: "'a matrix \<Rightarrow> 'a matrix \<Rightarrow> 'a matrix result" where
  "copy_cells rhs m =
     (let n = elements m
      in if length (cells m) < n \<or> length (cells rhs) < n then Inl Undefined
         else Inr (m\<lparr>cells := take n (cells rhs) @ drop n (cells m)\<rparr>))"

definition matrix_copy :: "'s provider \<Rightarrow> nat \<Rightarrow> ptr \<Rightarrow> (nat \<Rightarrow> 'a) \<Rightarrow> 'a matrix \<Rightarrow> 's \<Rightarrow> ('a matrix \<times> 's) result" where
  "matrix_copy get sz fresh junk rhs a =
     and_then (matrix_new get sz fresh junk (m_ulRowCount rhs) (m_ulColCount rhs) a) (\<lambda>(m, a).
       and_then (copy_cells rhs m) (\<lambda>m. Inr (m, a)))"

text \<open>The moves, between distinct objects: the new one and what is left of the old.\<close>

definition matrix_move :: "'a matrix \<Rightarrow> 'a matrix \<times> 'a matrix" where
  "matrix_move rhs = (rhs, rhs\<lparr>m_ulRowCount := 0, m_ulColCount := 0, m_ptrBegin := None, m_ulCapacity := 0, cells := []\<rparr>)"

definition index_of :: "u32 \<Rightarrow> u32 \<Rightarrow> 'a matrix \<Rightarrow> nat" where
  "index_of ulRowIndex ulColIndex m = unat (ulRowIndex * m_ulColCount m + ulColIndex)"

text \<open>\<open>operator()\<close> reads here and writes in \<open>element_assign\<close>; both check with \<open>assert\<close>.\<close>

definition element :: "u32 \<Rightarrow> u32 \<Rightarrow> 'a matrix \<Rightarrow> 'a result" where
  "element r c m =
     (if \<not> (r < m_ulRowCount m \<and> c < m_ulColCount m) then Inl Aborts
      else if index_of r c m < length (cells m) then Inr (cells m ! index_of r c m) else Inl Undefined)"

definition element_assign :: "u32 \<Rightarrow> u32 \<Rightarrow> 'a \<Rightarrow> 'a matrix \<Rightarrow> 'a matrix result" where
  "element_assign r c v m =
     (if \<not> (r < m_ulRowCount m \<and> c < m_ulColCount m) then Inl Aborts
      else if index_of r c m < length (cells m) then Inr (m\<lparr>cells := (cells m)[index_of r c m := v]\<rparr>)
      else Inl Undefined)"

definition setValue :: "u32 \<Rightarrow> u32 \<Rightarrow> 'a \<Rightarrow> 'a matrix \<Rightarrow> (bool \<times> 'a matrix) result" where
  "setValue r c v m =
     (if m_ulRowCount m < r \<or> m_ulColCount m < c then Inr (False, m)
      else if index_of r c m < length (cells m) then Inr (True, m\<lparr>cells := (cells m)[index_of r c m := v]\<rparr>)
      else Inl Undefined)"

definition matrix_assign :: "'s provider \<Rightarrow> nat \<Rightarrow> ptr \<Rightarrow> (nat \<Rightarrow> 'a) \<Rightarrow> 'a matrix \<Rightarrow> 'a matrix \<Rightarrow> 's \<Rightarrow> ('a matrix \<times> 's) result" where
  "matrix_assign get sz fresh junk rhs m a =
     and_then (allocateMemory get sz fresh junk
        (m\<lparr>m_ulRowCount := m_ulRowCount rhs, m_ulColCount := m_ulColCount rhs\<rparr>, a)) (\<lambda>(m, a).
       and_then (copy_cells rhs m) (\<lambda>m. Inr (m, a)))"

definition matrix_resize :: "'s provider \<Rightarrow> nat \<Rightarrow> ptr \<Rightarrow> (nat \<Rightarrow> 'a) \<Rightarrow> u32 \<Rightarrow> u32 \<Rightarrow> 'a matrix \<times> 's \<Rightarrow> ('a matrix \<times> 's) result" where
  "matrix_resize get sz fresh junk nRow nCol = (\<lambda>(m, a).
     allocateMemory get sz fresh junk (m\<lparr>m_ulRowCount := nRow, m_ulColCount := nCol\<rparr>, a))"

definition matrix_zero :: "'a::zero matrix \<Rightarrow> 'a matrix result" where
  "matrix_zero m =
     (if length (cells m) < elements m then Inl Undefined
      else Inr (m\<lparr>cells := replicate (elements m) 0 @ drop (elements m) (cells m)\<rparr>))"

subsection \<open>Matrices whose size fits\<close>

text \<open>
  The size in bytes does not wrap and the block is large enough. \<open>fits\<close> asks it of a size to be
  allocated, below the provider's limit.
\<close>

definition matrix_inv :: "nat \<Rightarrow> 'a matrix \<Rightarrow> bool" where
  "matrix_inv sz m \<longleftrightarrow> 0 < sz \<and> length (cells m) = unat (m_ulCapacity m) div sz \<and>
     elements m * sz \<le> unat (m_ulCapacity m)"

definition fits :: "nat \<Rightarrow> nat \<Rightarrow> u32 \<Rightarrow> u32 \<Rightarrow> bool" where
  "fits limit sz r c \<longleftrightarrow> 0 < sz \<and> limit \<le> 2 ^ 32 \<and> unat r * unat c * sz < limit"

lemma size_fits:
  assumes "fits limit sz (m_ulRowCount m) (m_ulColCount m)"
  shows "unat (m_ulRowCount m * m_ulColCount m * word_of_nat sz) = elements m * sz"
proof -
  have l: "elements m * sz < 2 ^ 32" using assms by (simp add: fits_def elements_def)
  have "m_ulRowCount m * m_ulColCount m * word_of_nat sz = word_of_nat (elements m * sz)"
    by (simp add: elements_def)
  then show ?thesis using l by (simp only: unat_of_nat) simp
qed

lemma elements_cells: "matrix_inv sz m \<Longrightarrow> elements m \<le> length (cells m)"
proof -
  assume i: "matrix_inv sz m"
  then have "elements m * sz div sz \<le> unat (m_ulCapacity m) div sz"
    by (intro div_le_mono) (simp add: matrix_inv_def)
  then show ?thesis using i by (simp add: matrix_inv_def)
qed

context block_provider
begin

lemma allocateMemory_inv:
  assumes "allocateMemory get sz fresh junk (m, a) = Inr (m', a')"
    and "fits limit sz (m_ulRowCount m) (m_ulColCount m)"
    and "length (cells m) = unat (m_ulCapacity m) div sz"
  shows "matrix_inv sz m' \<and> m_ulRowCount m' = m_ulRowCount m \<and> m_ulColCount m' = m_ulColCount m"
proof -
  let ?n = "m_ulRowCount m * m_ulColCount m * word_of_nat sz"
  note u = size_fits [OF assms(2)]
  show ?thesis
  proof (cases "m_ulCapacity m < ?n")
    case True
    then obtain n p where g: "get fresh ?n a = Inr ((n, p), a')"
      and m': "m' = m\<lparr>m_ulCapacity := n, m_ptrBegin := Some p, cells := map junk [0..<unat n div sz]\<rparr>"
      using assms(1) by (auto simp: allocateMemory_def Let_def and_then_eq_Inr)
    have "unat ?n < limit" using assms(2) u by (simp add: fits_def elements_def)
    from enough [OF g this] show ?thesis using u assms(2) by (simp add: m' matrix_inv_def elements_def fits_def)
  next
    case False
    then have "m' = m" "elements m * sz \<le> unat (m_ulCapacity m)"
      using assms(1) u by (auto simp: allocateMemory_def Let_def word_less_nat_alt)
    then show ?thesis using assms(2,3) by (simp add: matrix_inv_def fits_def)
  qed
qed

lemma new_inv:
  assumes "matrix_new get sz fresh junk r c a = Inr (m, a')" "fits limit sz r c"
  shows "matrix_inv sz m \<and> m_ulRowCount m = r \<and> m_ulColCount m = c"
  using allocateMemory_inv [of sz fresh junk "empty_matrix\<lparr>m_ulRowCount := r, m_ulColCount := c\<rparr>" a m a'] assms
  by (simp add: matrix_new_def empty_matrix_def)

lemma assign_copies:
  assumes "matrix_assign get sz fresh junk rhs m a = Inr (m', a')"
    and "matrix_inv sz m" "matrix_inv sz rhs" "fits limit sz (m_ulRowCount rhs) (m_ulColCount rhs)"
  shows "matrix_inv sz m' \<and> m_ulRowCount m' = m_ulRowCount rhs \<and> m_ulColCount m' = m_ulColCount rhs \<and>
    take (elements rhs) (cells m') = take (elements rhs) (cells rhs)"
proof -
  let ?m = "m\<lparr>m_ulRowCount := m_ulRowCount rhs, m_ulColCount := m_ulColCount rhs\<rparr>"
  obtain m1 where m1: "allocateMemory get sz fresh junk (?m, a) = Inr (m1, a')" "copy_cells rhs m1 = Inr m'"
    using assms(1) by (auto simp: matrix_assign_def and_then_eq_Inr)
  have i: "matrix_inv sz m1 \<and> m_ulRowCount m1 = m_ulRowCount rhs \<and> m_ulColCount m1 = m_ulColCount rhs"
    using allocateMemory_inv [OF m1(1)] assms(2,4) by (simp add: matrix_inv_def)
  then show ?thesis
    using m1(2) elements_cells [of sz m1] by (auto simp: copy_cells_def Let_def matrix_inv_def elements_def split: if_splits)
qed

end

text \<open>The chunk allocator provides such blocks; a size just below \<open>2 ^ 32\<close> is beyond its limit.\<close>

interpretation chunk_blocks: block_provider "allocate 10 1" "2 ^ 32 - 2 ^ 10 + 1"
proof
  fix fresh n s m p s'
  assume a: "allocate 10 1 fresh n s = Inr ((m, p), s')" and n: "unat (n :: u32) < 2 ^ 32 - 2 ^ 10 + 1"
  have "m = block_size 10 1 n" using a by (auto simp: allocate_def Let_def and_then_eq_Inr)
  then show "unat n \<le> unat m" using block_size_rounds [of 10 n 1] n by simp
qed

subsection \<open>Elements\<close>

lemma index_value:
  assumes "matrix_inv sz m" "r < m_ulRowCount m" "c < m_ulColCount m"
  shows "index_of r c m = unat r * unat (m_ulColCount m) + unat c" "index_of r c m < elements m"
proof -
  let ?R = "unat (m_ulRowCount m)" and ?C = "unat (m_ulColCount m)"
  have rc: "unat r < ?R" "unat c < ?C" using assms(2,3) by (simp_all add: word_less_nat_alt)
  have "unat r * ?C + unat c < unat r * ?C + ?C" using rc by simp
  also have "\<dots> = Suc (unat r) * ?C" by simp
  also have "\<dots> \<le> ?R * ?C" using rc by (intro mult_le_mono1) simp
  finally have lt: "unat r * ?C + unat c < elements m" by (simp add: elements_def)
  have "elements m \<le> elements m * sz" using assms(1) by (simp add: matrix_inv_def)
  also have "\<dots> \<le> unat (m_ulCapacity m)" using assms(1) by (simp add: matrix_inv_def)
  also have "\<dots> < 2 ^ 32" using unsigned_less [of "m_ulCapacity m"] by simp
  finally have "unat r * ?C + unat c < 2 ^ 32" using lt by simp
  moreover have "r * m_ulColCount m + c = word_of_nat (unat r * ?C + unat c)" by simp
  ultimately show "index_of r c m = unat r * ?C + unat c"
    unfolding index_of_def by (simp only: unat_of_nat) simp
  then show "index_of r c m < elements m" using lt by simp
qed

lemma index_inj:
  assumes "matrix_inv sz m" "r < m_ulRowCount m" "c < m_ulColCount m" "r' < m_ulRowCount m" "c' < m_ulColCount m"
  shows "index_of r c m = index_of r' c' m \<longleftrightarrow> r = r' \<and> c = c'"
proof
  let ?C = "unat (m_ulColCount m)"
  assume e: "index_of r c m = index_of r' c' m"
  have b: "unat c < ?C" "unat c' < ?C" using assms(3,5) by (simp_all add: word_less_nat_alt)
  have e': "unat r * ?C + unat c = unat r' * ?C + unat c'"
    using e index_value(1) [OF assms(1-3)] index_value(1) [OF assms(1,4,5)] by simp
  then have "(unat r * ?C + unat c) div ?C = (unat r' * ?C + unat c') div ?C"
    "(unat r * ?C + unat c) mod ?C = (unat r' * ?C + unat c') mod ?C" by simp_all
  then have "unat r = unat r'" "unat c = unat c'" using b by simp_all
  then show "r = r' \<and> c = c'" by (simp add: word_unat_eq_iff)
qed simp

lemma element_in:
  assumes "matrix_inv sz m" "r < m_ulRowCount m" "c < m_ulColCount m"
  shows "element r c m = Inr (cells m ! index_of r c m)" "index_of r c m < length (cells m)"
proof -
  show "index_of r c m < length (cells m)"
    using index_value(2) [OF assms] elements_cells [OF assms(1)] by simp
  then show "element r c m = Inr (cells m ! index_of r c m)" using assms by (simp add: element_def)
qed

text \<open>
  a matrix made by the chunk allocator whose size fits 32 bits is an array of its rows and
  columns: every element can be read, assigning one changes that one and no other, and assigning
  the whole matrix to another gives it the same size and elements.
\<close>

theorem matrix_is_array:
  assumes new: "matrix_new (allocate 10 1) sz fresh junk r c a = Inr (m, a')"
    and fit: "fits (2 ^ 32 - 2 ^ 10 + 1) sz r c" and i: "i < r" "j < c"
  shows "\<exists>m'. element_assign i j v m = Inr m' \<and>
    (\<forall>i' < r. \<forall>j' < c. (\<exists>x. element i' j' m = Inr x) \<and>
      element i' j' m' = (if i' = i \<and> j' = j then Inr v else element i' j' m)) \<and>
    (\<forall>t a1 u a2. matrix_inv sz t \<longrightarrow> matrix_assign (allocate 10 1) sz fresh junk m' t a1 = Inr (u, a2) \<longrightarrow>
      m_ulRowCount u = r \<and> m_ulColCount u = c \<and> (\<forall>i' < r. \<forall>j' < c. element i' j' u = element i' j' m'))"
proof -
  have inv: "matrix_inv sz m" and rc: "m_ulRowCount m = r" "m_ulColCount m = c"
    using chunk_blocks.new_inv [OF new fit] by simp_all
  let ?m = "m\<lparr>cells := (cells m)[index_of i j m := v]\<rparr>"
  have inv': "matrix_inv sz ?m" using inv by (simp add: matrix_inv_def elements_def)
  have asg: "element_assign i j v m = Inr ?m"
    using element_in [OF inv] i rc by (simp add: element_assign_def)
  have read: "(\<exists>x. element i' j' m = Inr x) \<and>
      element i' j' ?m = (if i' = i \<and> j' = j then Inr v else element i' j' m)" if "i' < r" "j' < c" for i' j'
    using element_in [OF inv, of i' j'] element_in [OF inv', of i' j'] index_inj [OF inv, of i j i' j'] i rc that
    by (auto simp: index_of_def nth_list_update)
  have copy: "m_ulRowCount u = r \<and> m_ulColCount u = c \<and> (\<forall>i' < r. \<forall>j' < c. element i' j' u = element i' j' ?m)"
    if t: "matrix_inv sz t" "matrix_assign (allocate 10 1) sz fresh junk ?m t a1 = Inr (u, a2)" for t a1 u a2
  proof -
    have U: "matrix_inv sz u" "m_ulRowCount u = r" "m_ulColCount u = c"
      "take (elements ?m) (cells u) = take (elements ?m) (cells ?m)"
      using chunk_blocks.assign_copies [OF t(2,1) inv'] fit rc by simp_all
    have "element i' j' u = element i' j' ?m" if "i' < r" "j' < c" for i' j'
    proof -
      have e: "index_of i' j' u = index_of i' j' ?m" using U rc by (simp add: index_of_def)
      have "index_of i' j' ?m < elements ?m" using index_value(2) [OF inv', of i' j'] that rc by simp
      then have "cells u ! index_of i' j' ?m = cells ?m ! index_of i' j' ?m"
        using U(4) by (metis nth_take)
      then show ?thesis
        using element_in(1) [OF U(1), of i' j'] element_in(1) [OF inv', of i' j'] U(2,3) rc that e by simp
    qed
    then show ?thesis using U by simp
  qed
  show ?thesis using asg read copy by blast
qed

text \<open>
  The size is computed in 32 bits: a matrix of \<open>2 ^ 16\<close> rows and columns of bytes gets no block,
  and reading its first element passes the check of the indices and follows a null pointer.
\<close>

theorem matrix_size_wraps:
  "\<exists>m. matrix_new get 1 fresh junk 65536 65536 a = Inr (m, a) \<and> m_ptrBegin m = None \<and>
     element 0 0 m = Inl Undefined"
  by (simp add: matrix_new_def allocateMemory_def empty_matrix_def element_def index_of_def)

text \<open>
  \<open>setValue\<close> accepts a column equal to the number of columns: the value goes to the first element
  of the next row.
\<close>

theorem setValue_next_row:
  assumes "matrix_inv sz m" "r + 1 < m_ulRowCount m" "r < r + 1" "0 < m_ulColCount m"
  shows "\<exists>m'. setValue r (m_ulColCount m) v m = Inr (True, m') \<and> element (r + 1) 0 m' = Inr v"
proof -
  have e: "index_of r (m_ulColCount m) m = index_of (r + 1) 0 m"
    by (simp add: index_of_def algebra_simps)
  let ?m = "m\<lparr>cells := (cells m)[index_of (r + 1) 0 m := v]\<rparr>"
  have inv': "matrix_inv sz ?m" using assms(1) by (simp add: matrix_inv_def elements_def)
  have l: "index_of (r + 1) 0 m < length (cells m)" by (rule element_in(2) [OF assms(1,2,4)])
  have "r < m_ulRowCount m" by (rule less_trans [OF assms(3,2)])
  then have "setValue r (m_ulColCount m) v m = Inr (True, ?m)"
    using l unfolding setValue_def e by simp
  moreover have "element (r + 1) 0 ?m = Inr v"
    using element_in(1) [OF inv', of "r + 1" 0] assms(2,4) l by (simp add: index_of_def)
  ultimately show ?thesis by blast
qed

theorem matrix_is_array_witness:
  "\<exists>m a'. matrix_new (allocate 10 1) 4 7 (\<lambda>_. 0 :: nat) 3 2 (ChunkAllocator 60 64) = Inr (m, a') \<and>
     (\<exists>m'. element_assign 2 1 5 m = Inr m' \<and> element 2 1 m' = Inr 5)"
proof -
  have "\<exists>m a'. matrix_new (allocate 10 1) 4 7 (\<lambda>_. 0 :: nat) 3 2 (ChunkAllocator 60 64) = Inr (m, a')"
    by (simp add: matrix_new_def allocateMemory_def empty_matrix_def allocate_def alloMemory_def
      alloRowMemory_def ChunkAllocator_def Let_def)
  then obtain m a' where m: "matrix_new (allocate 10 1) 4 7 (\<lambda>_. 0 :: nat) 3 2 (ChunkAllocator 60 64) = Inr (m, a')"
    by blast
  have "fits (2 ^ 32 - 2 ^ 10 + 1) 4 3 2" by (simp add: fits_def)
  from matrix_is_array [OF m this, of 2 1 5] m show ?thesis by auto
qed

end
