(* ===== verification/LockFreeStack.thy ===== *)
theory LockFreeStack
  imports Prelude
begin

text \<open>
  The lock-free stack (src/code/common/include/util/CLockFreeStack.hpp): a linked list whose head
  carries, next to the pointer, the number of threads that ever took hold of the first node. A pop
  first raises that count, so that no other thread frees the node it looks at, and the thread that
  lets go of a removed node last frees it. Each access to shared memory is one step of a thread;
  atomic accesses are sequentially consistent. The steps append to the log where an operation takes
  effect.
\<close>

subsection \<open>State\<close>

text \<open>\<open>counted_node_ptr\<close>: the external count and the pointer, \<open>None\<close> for null.\<close>

type_synonym counted = "int \<times> nat option"

record 'a node =
  node_data :: "'a option"
  internal_count :: int
  next_node :: counted

datatype 'a stack_event = Pushed nat 'a | Popped nat "'a option"

text \<open>
  Where a thread is: in \<open>push\<close>, before the load of the head into the new node and before the
  exchange; in \<open>pop\<close>, before the exchange that raises the count, with the node held, before the
  exchange that removes it, then with the node removed before the swap of the data and before the
  addition to the internal count; without the node before the decrement; or about to free a node,
  after which it returns or starts again with the head it has read.
\<close>

datatype 'a after_free = Return_data "'a option" | Retry counted

datatype 'a local =
    Idle
  | Push_load nat | Push_exchange nat
  | Pop_raise counted | Pop_test counted | Pop_exchange int nat counted
  | Pop_swap int nat | Pop_add int nat "'a option" | Pop_release nat counted
  | Pop_free nat "'a after_free"

record 'a lf_stack =
  head :: counted
  heap :: "nat \<rightharpoonup> 'a node"
  threads :: "'a local list"
  log :: "'a stack_event list"
  returned :: "(nat \<times> 'a option) list"
  raised :: nat

text \<open>
  The constructor leaves the head uninitialised; the model starts from storage that was zero.
\<close>

definition CLockFreeStack :: "nat \<Rightarrow> 'a lf_stack" where
  "CLockFreeStack n = \<lparr>head = (0, None), heap = Map.empty, threads = replicate n Idle, log = [], returned = [], raised = 0\<rparr>"

definition goto :: "nat \<Rightarrow> 'a local \<Rightarrow> 'a lf_stack \<Rightarrow> 'a lf_stack" where
  "goto i l s = s\<lparr>threads := (threads s)[i := l]\<rparr>"

definition return_data :: "nat \<Rightarrow> 'a option \<Rightarrow> 'a lf_stack \<Rightarrow> 'a lf_stack" where
  "return_data i d s = goto i Idle (s\<lparr>returned := returned s @ [(i, d)]\<rparr>)"

text \<open>Access to the node at an address; a freed or unknown address is undefined.\<close>

definition at_node :: "nat \<Rightarrow> 'a lf_stack \<Rightarrow> ('a node \<Rightarrow> 'b result) \<Rightarrow> 'b result" where
  "at_node a s f = (case heap s a of None \<Rightarrow> Inl Undefined | Some nd \<Rightarrow> f nd)"

definition set_node :: "nat \<Rightarrow> 'a node \<Rightarrow> 'a lf_stack \<Rightarrow> 'a lf_stack" where
  "set_node a nd s = s\<lparr>heap := (heap s)(a \<mapsto> nd)\<rparr>"

subsection \<open>push\<close>

text \<open>\<open>a\<close> is the address \<open>new node(data)\<close> returns: one not in use.\<close>

definition push_new :: "nat \<Rightarrow> 'a \<Rightarrow> nat \<Rightarrow> 'a lf_stack \<Rightarrow> 'a lf_stack" where
  "push_new a d i s =
     goto i (Push_load a) (set_node a \<lparr>node_data = Some d, internal_count = 0, next_node = (0, None)\<rparr> s)"

definition push_load :: "nat \<Rightarrow> nat \<Rightarrow> 'a lf_stack \<Rightarrow> 'a lf_stack result" where
  "push_load a i s = at_node a s (\<lambda>nd. Inr (goto i (Push_exchange a) (set_node a (nd\<lparr>next_node := head s\<rparr>) s)))"

text \<open>The weak exchange may fail although the values agree; failing, it loads the head.\<close>

definition push_exchange :: "bool \<Rightarrow> nat \<Rightarrow> nat \<Rightarrow> 'a lf_stack \<Rightarrow> 'a lf_stack result" where
  "push_exchange spurious a i s = at_node a s (\<lambda>nd.
     if head s = next_node nd \<and> \<not> spurious
     then Inr (goto i Idle (s\<lparr>head := (1, Some a), log := log s @ (case node_data nd of Some d \<Rightarrow> [Pushed i d] | None \<Rightarrow> [])\<rparr>))
     else Inr (goto i (Push_load a) (set_node a (nd\<lparr>next_node := head s\<rparr>) s)))"

subsection \<open>pop\<close>

definition pop_load :: "nat \<Rightarrow> 'a lf_stack \<Rightarrow> 'a lf_stack" where
  "pop_load i s = goto i (Pop_raise (head s)) s"

text \<open>One turn of \<open>increase_head_count\<close>; a pop that meets the null head takes effect here.\<close>

definition increase_head_count :: "counted \<Rightarrow> nat \<Rightarrow> 'a lf_stack \<Rightarrow> 'a lf_stack result" where
  "increase_head_count old i s =
     (if fst old = 2 ^ 31 - 1 then Inl Undefined
      else
        let new = (fst old + 1, snd old)
        in if head s = old
           then Inr (goto i (Pop_test new) (s\<lparr>head := new, raised := Suc (raised s),
                  log := log s @ (if snd old = None then [Popped i None] else [])\<rparr>))
           else Inr (goto i (Pop_raise (head s)) s))"

definition pop_test :: "counted \<Rightarrow> nat \<Rightarrow> 'a lf_stack \<Rightarrow> 'a lf_stack result" where
  "pop_test old i s =
     (case snd old of
        None \<Rightarrow> Inr (return_data i None s)
      | Some a \<Rightarrow> at_node a s (\<lambda>nd. Inr (goto i (Pop_exchange (fst old) a (next_node nd)) s)))"

definition pop_exchange :: "int \<Rightarrow> nat \<Rightarrow> counted \<Rightarrow> nat \<Rightarrow> 'a lf_stack \<Rightarrow> 'a lf_stack result" where
  "pop_exchange e a nx i s =
     (if head s = (e, Some a)
      then at_node a s (\<lambda>nd. Inr (goto i (Pop_swap e a) (s\<lparr>head := nx, log := log s @ [Popped i (node_data nd)]\<rparr>)))
      else Inr (goto i (Pop_release a (head s)) s))"

definition pop_swap :: "int \<Rightarrow> nat \<Rightarrow> nat \<Rightarrow> 'a lf_stack \<Rightarrow> 'a lf_stack result" where
  "pop_swap e a i s = at_node a s (\<lambda>nd.
     Inr (goto i (Pop_add e a (node_data nd)) (set_node a (nd\<lparr>node_data := None\<rparr>) s)))"

definition pop_add :: "int \<Rightarrow> nat \<Rightarrow> 'a option \<Rightarrow> nat \<Rightarrow> 'a lf_stack \<Rightarrow> 'a lf_stack result" where
  "pop_add e a d i s = at_node a s (\<lambda>nd.
     let s' = set_node a (nd\<lparr>internal_count := internal_count nd + (e - 2)\<rparr>) s
     in if internal_count nd = - (e - 2) then Inr (goto i (Pop_free a (Return_data d)) s')
        else Inr (return_data i d s'))"

definition pop_release :: "nat \<Rightarrow> counted \<Rightarrow> nat \<Rightarrow> 'a lf_stack \<Rightarrow> 'a lf_stack result" where
  "pop_release a old i s = at_node a s (\<lambda>nd.
     let s' = set_node a (nd\<lparr>internal_count := internal_count nd - 1\<rparr>) s
     in if internal_count nd = 1 then Inr (goto i (Pop_free a (Retry old)) s')
        else Inr (goto i (Pop_raise old) s'))"

definition pop_free :: "nat \<Rightarrow> 'a after_free \<Rightarrow> nat \<Rightarrow> 'a lf_stack \<Rightarrow> 'a lf_stack result" where
  "pop_free a k i s = at_node a s (\<lambda>_.
     let s' = s\<lparr>heap := (heap s)(a := None)\<rparr>
     in Inr (case k of Return_data d \<Rightarrow> return_data i d s' | Retry old \<Rightarrow> goto i (Pop_raise old) s'))"

subsection \<open>Threads\<close>

text \<open>One step of thread \<open>i\<close> inside an operation.\<close>

definition stack_act :: "bool \<Rightarrow> nat \<Rightarrow> 'a lf_stack \<Rightarrow> 'a lf_stack result option" where
  "stack_act spurious i s =
     (if length (threads s) \<le> i then None
      else case threads s ! i of
        Idle \<Rightarrow> None
      | Push_load a \<Rightarrow> Some (push_load a i s)
      | Push_exchange a \<Rightarrow> Some (push_exchange spurious a i s)
      | Pop_raise old \<Rightarrow> Some (increase_head_count old i s)
      | Pop_test old \<Rightarrow> Some (pop_test old i s)
      | Pop_exchange e a nx \<Rightarrow> Some (pop_exchange e a nx i s)
      | Pop_swap e a \<Rightarrow> Some (pop_swap e a i s)
      | Pop_add e a d \<Rightarrow> Some (pop_add e a d i s)
      | Pop_release a old \<Rightarrow> Some (pop_release a old i s)
      | Pop_free a k \<Rightarrow> Some (pop_free a k i s))"

inductive stack_step :: "'a lf_stack \<Rightarrow> 'a lf_stack \<Rightarrow> bool" where
  st_push: "i < length (threads s) \<Longrightarrow> threads s ! i = Idle \<Longrightarrow> heap s a = None \<Longrightarrow> stack_step s (push_new a d i s)"
| st_pop: "i < length (threads s) \<Longrightarrow> threads s ! i = Idle \<Longrightarrow> stack_step s (pop_load i s)"
| st_act: "stack_act spurious i s = Some (Inr s') \<Longrightarrow> stack_step s s'"

inductive stack_reachable :: "nat \<Rightarrow> 'a lf_stack \<Rightarrow> bool" for n where
  sr_init: "stack_reachable n (CLockFreeStack n)"
| sr_step: "stack_reachable n s \<Longrightarrow> stack_step s s' \<Longrightarrow> stack_reachable n s'"

subsection \<open>Who has a node\<close>

fun making :: "nat \<Rightarrow> 'a local \<Rightarrow> nat" where
  "making a (Push_load b) = of_bool (b = a)" | "making a (Push_exchange b) = of_bool (b = a)" | "making a _ = 0"

fun holding :: "nat \<Rightarrow> 'a local \<Rightarrow> nat" where
  "holding a (Pop_test c) = of_bool (snd c = Some a)" | "holding a (Pop_exchange e b nx) = of_bool (b = a)"
| "holding a (Pop_release b c) = of_bool (b = a)" | "holding a _ = 0"

fun swapping :: "nat \<Rightarrow> 'a local \<Rightarrow> nat" where
  "swapping a (Pop_swap e b) = of_bool (b = a)" | "swapping a _ = 0"

fun taking :: "nat \<Rightarrow> 'a local \<Rightarrow> nat" where
  "taking a (Pop_swap e b) = of_bool (b = a)" | "taking a (Pop_add e b d) = of_bool (b = a)" | "taking a _ = 0"

fun freeing :: "nat \<Rightarrow> 'a local \<Rightarrow> nat" where
  "freeing a (Pop_free b k) = of_bool (b = a)" | "freeing a _ = 0"

text \<open>The external count with which the node was taken.\<close>

fun taken :: "nat \<Rightarrow> 'a local \<Rightarrow> int" where
  "taken a (Pop_swap e b) = (if b = a then e else 0)" | "taken a (Pop_add e b d) = (if b = a then e else 0)" | "taken a _ = 0"

definition over :: "('a local \<Rightarrow> 'b::comm_monoid_add) \<Rightarrow> 'a lf_stack \<Rightarrow> 'b" where
  "over w s = sum_list (map w (threads s))"

text \<open>
  A node is being made, or on the stack with its external count \<open>e\<close>, or taken, or held only, or about
  to be freed. In each case the internal count is the one that makes the last to let go see it.
\<close>

definition node_ok :: "'a node \<Rightarrow> int option \<Rightarrow> nat \<Rightarrow> nat \<Rightarrow> nat \<Rightarrow> nat \<Rightarrow> nat \<Rightarrow> int \<Rightarrow> bool" where
  "node_ok nd x m h w t f e \<longleftrightarrow>
     (case x of
        Some k \<Rightarrow> m = 0 \<and> w = 0 \<and> t = 0 \<and> f = 0 \<and> e = 0 \<and> internal_count nd = int h + 1 - k \<and> int h + 1 \<le> k \<and> node_data nd \<noteq> None
      | None \<Rightarrow>
          m = 1 \<and> h = 0 \<and> w = 0 \<and> t = 0 \<and> f = 0 \<and> e = 0 \<and> internal_count nd = 0 \<and> node_data nd \<noteq> None \<or>
          m = 0 \<and> t = 1 \<and> w \<le> 1 \<and> f = 0 \<and> internal_count nd = int h + 2 - e \<and> int h + 2 \<le> e \<and> (w = 1 \<longrightarrow> node_data nd \<noteq> None) \<or>
          m = 0 \<and> w = 0 \<and> t = 0 \<and> f = 0 \<and> e = 0 \<and> 1 \<le> h \<and> internal_count nd = int h \<or>
          m = 0 \<and> h = 0 \<and> w = 0 \<and> t = 0 \<and> f = 1 \<and> e = 0)"

definition address_ok :: "'a lf_stack \<Rightarrow> int option \<Rightarrow> nat \<Rightarrow> bool" where
  "address_ok s x a \<longleftrightarrow>
     (case heap s a of
        None \<Rightarrow> x = None \<and> over (making a) s = 0 \<and> over (holding a) s = 0 \<and> over (swapping a) s = 0 \<and>
          over (taking a) s = 0 \<and> over (freeing a) s = 0 \<and> over (taken a) s = 0
      | Some nd \<Rightarrow> node_ok nd x (over (making a) s) (over (holding a) s) (over (swapping a) s) (over (taking a) s)
          (over (freeing a) s) (over (taken a) s))"

text \<open>The list of nodes with their external counts, read off the heap from the head.\<close>

fun chain :: "(nat \<rightharpoonup> 'a node) \<Rightarrow> counted \<Rightarrow> (nat \<times> int) list \<Rightarrow> bool" where
  "chain hp c [] \<longleftrightarrow> snd c = None"
| "chain hp c ((a, k) # xs) \<longleftrightarrow> c = (k, Some a) \<and> (\<exists>nd. hp a = Some nd \<and> chain hp (next_node nd) xs)"

definition next_ok :: "'a lf_stack \<Rightarrow> bool" where
  "next_ok s \<longleftrightarrow> (\<forall>i e a nx. i < length (threads s) \<longrightarrow> threads s ! i = Pop_exchange e a nx \<longrightarrow>
     (\<forall>nd. heap s a = Some nd \<longrightarrow> next_node nd = nx))"

text \<open>External counts stay within the number of times a count was raised.\<close>

fun counts_of :: "'a local \<Rightarrow> counted set" where
  "counts_of (Pop_raise c) = {c}" | "counts_of (Pop_test c) = {c}" | "counts_of (Pop_exchange e a nx) = {(e, Some a), nx}"
| "counts_of (Pop_release a c) = {c}" | "counts_of (Pop_free a (Retry c)) = {c}" | "counts_of _ = {}"

definition counts :: "'a lf_stack \<Rightarrow> counted set" where
  "counts s = insert (head s) (next_node ` ran (heap s) \<union> (\<Union>l \<in> set (threads s). counts_of l))"

definition bounded :: "'a lf_stack \<Rightarrow> bool" where
  "bounded s \<longleftrightarrow> (\<forall>c \<in> counts s. 0 \<le> fst c \<and> fst c \<le> 1 + int (raised s))"

definition value_at :: "(nat \<rightharpoonup> 'a node) \<Rightarrow> nat \<times> int \<Rightarrow> 'a option" where
  "value_at hp x = Option.bind (hp (fst x)) node_data"

subsection \<open>The stack as a list\<close>

fun spec_step :: "'a stack_event \<Rightarrow> 'a list \<Rightarrow> 'a list option" where
  "spec_step (Pushed i d) st = Some (d # st)"
| "spec_step (Popped i None) st = (if st = [] then Some [] else None)"
| "spec_step (Popped i (Some d)) st = (case st of [] \<Rightarrow> None | x # st' \<Rightarrow> if x = d then Some st' else None)"

fun spec_run :: "'a stack_event list \<Rightarrow> 'a list \<Rightarrow> 'a list option" where
  "spec_run [] st = Some st"
| "spec_run (e # es) st = Option.bind (spec_step e st) (spec_run es)"

text \<open>What the pops of thread \<open>i\<close> took, by the log, and what such a pop still has to return.\<close>

fun popped_by :: "nat \<Rightarrow> 'a stack_event list \<Rightarrow> 'a option list" where
  "popped_by i [] = []"
| "popped_by i (Pushed j d # es) = popped_by i es"
| "popped_by i (Popped j d # es) = (if j = i then d # popped_by i es else popped_by i es)"

fun owed :: "(nat \<rightharpoonup> 'a node) \<Rightarrow> 'a local \<Rightarrow> 'a option list" where
  "owed hp (Pop_test c) = (if snd c = None then [None] else [])"
| "owed hp (Pop_swap e a) = [value_at hp (a, e)]"
| "owed hp (Pop_add e a d) = [d]"
| "owed hp (Pop_free a (Return_data d)) = [d]"
| "owed hp _ = []"

definition returned_by :: "nat \<Rightarrow> 'a lf_stack \<Rightarrow> 'a option list" where
  "returned_by i s = map snd (filter (\<lambda>x. fst x = i) (returned s))"

definition results_ok :: "'a lf_stack \<Rightarrow> bool" where
  "results_ok s \<longleftrightarrow> (\<forall>i < length (threads s). popped_by i (log s) = returned_by i s @ owed (heap s) (threads s ! i))"

definition stack_inv :: "'a lf_stack \<Rightarrow> (nat \<times> int) list \<Rightarrow> bool" where
  "stack_inv s xs \<longleftrightarrow> chain (heap s) (head s) xs \<and> distinct (map fst xs) \<and>
     (\<forall>a. address_ok s (map_of xs a) a) \<and> next_ok s \<and> bounded s \<and> results_ok s \<and>
     (\<exists>st. spec_run (log s) [] = Some st \<and> map (value_at (heap s)) xs = map Some st)"

subsection \<open>Sums over the threads\<close>

text \<open>Thread \<open>i\<close> moves from \<open>l\<close> to \<open>l'\<close>.\<close>

definition moves :: "nat \<Rightarrow> 'a local \<Rightarrow> 'a local \<Rightarrow> 'a lf_stack \<Rightarrow> 'a lf_stack \<Rightarrow> bool" where
  "moves i l l' s s' \<longleftrightarrow> i < length (threads s) \<and> threads s ! i = l \<and> threads s' = (threads s)[i := l']"

lemma over_moves: "moves i l l' s s' \<Longrightarrow> over w s' + w l = over w s + w l'"
  using sum_list_map_update [of i "threads s" w l'] by (simp add: moves_def over_def)

lemma over_ge:
  fixes w :: "'a local \<Rightarrow> nat"
  assumes "i < length (threads s)"
  shows "w (threads s ! i) \<le> over w s"
  using assms by (auto simp: over_def intro!: member_le_sum_list)

lemma over_ge2:
  fixes w :: "'a local \<Rightarrow> nat"
  assumes "moves i l l' s s'" "j < length (threads s)" "j \<noteq> i"
  shows "w l + w (threads s ! j) \<le> over w s"
proof -
  have "over w s = (\<Sum>k < length (threads s). w (threads s ! k))"
    by (simp add: over_def sum_list_sum_nth atLeast0LessThan)
  moreover have "(\<Sum>k \<in> {i, j}. w (threads s ! k)) \<le> (\<Sum>k < length (threads s). w (threads s ! k))"
    using assms by (intro sum_mono2) (auto simp: moves_def)
  ultimately show ?thesis using assms by (simp add: moves_def)
qed

text \<open>A single taker knows the external count.\<close>

lemma taken_zero:
  "sum_list (map (taking a) ls) = 0 \<Longrightarrow> sum_list (map (taken a) ls) = 0 \<and> sum_list (map (swapping a) ls) = 0"
proof (induction ls)
  case (Cons l ls)
  then show ?case by (cases l) auto
qed simp

lemma taken_single:
  assumes "moves i l l' s s'" "over (taking a) s = 1" "taking a l = 1"
  shows "over (taken a) s = taken a l" "over (swapping a) s = swapping a l"
proof -
  let ?s = "s\<lparr>threads := (threads s)[i := Idle]\<rparr>"
  have m: "moves i l Idle s ?s" using assms(1) by (simp add: moves_def)
  have "over (taking a) ?s = 0" using over_moves [OF m, of "taking a"] assms(2,3) by simp
  then have "over (taken a) ?s = 0" "over (swapping a) ?s = 0" using taken_zero by (auto simp: over_def)
  then show "over (taken a) s = taken a l" "over (swapping a) s = swapping a l"
    using over_moves [OF m, of "taken a"] over_moves [OF m, of "swapping a"] by simp_all
qed

lemmas six_moves = over_moves [where w = "making a" for a] over_moves [where w = "holding a" for a]
  over_moves [where w = "swapping a" for a] over_moves [where w = "taking a" for a]
  over_moves [where w = "freeing a" for a] over_moves [where w = "taken a" for a]

definition same_weights :: "'a local \<Rightarrow> 'a local \<Rightarrow> nat \<Rightarrow> bool" where
  "same_weights l l' c \<longleftrightarrow> making c l = making c l' \<and> holding c l = holding c l' \<and> swapping c l = swapping c l' \<and>
     taking c l = taking c l' \<and> freeing c l = freeing c l' \<and> taken c l = taken c l'"

lemma over_same:
  assumes "moves i l l' s s'" "same_weights l l' c"
  shows "over (making c) s' = over (making c) s" "over (holding c) s' = over (holding c) s"
    "over (swapping c) s' = over (swapping c) s" "over (taking c) s' = over (taking c) s"
    "over (freeing c) s' = over (freeing c) s" "over (taken c) s' = over (taken c) s"
  using six_moves [OF assms(1), of c] assms(2) by (simp_all add: same_weights_def)

lemma address_frame:
  assumes "moves i l l' s s'" "same_weights l l' c" "heap s' c = heap s c"
  shows "address_ok s' x c = address_ok s x c"
  unfolding address_ok_def over_same [OF assms(1,2)] assms(3) ..

lemma addresses_step:
  assumes "moves i l l' s s'" "\<forall>a. address_ok s (map_of xs a) a" "address_ok s' (map_of xs' a) a"
    and "\<And>c. c \<noteq> a \<Longrightarrow> same_weights l l' c \<and> heap s' c = heap s c \<and> map_of xs' c = map_of xs c"
  shows "\<forall>c. address_ok s' (map_of xs' c) c"
  using address_frame [OF assms(1)] assms(2-4) by metis

lemma chain_cong:
  assumes "\<And>a. a \<in> fst ` set xs \<Longrightarrow> map_option next_node (hp' a) = map_option next_node (hp a)"
  shows "chain hp' c xs = chain hp c xs"
  using assms
proof (induction xs arbitrary: c)
  case (Cons x xs)
  obtain a k where x: "x = (a, k)" by fastforce
  have "map_option next_node (hp' a) = map_option next_node (hp a)" using Cons.prems by (simp add: x)
  then show ?case using Cons by (cases "hp a"; cases "hp' a") (auto simp: x)
qed simp

lemma not_in_chain: "map_of xs a = None \<Longrightarrow> a \<notin> fst ` set xs"
  by (simp add: map_of_eq_None_iff)

subsection \<open>Each step keeps the invariant\<close>

lemma stack_invD:
  assumes "stack_inv s xs"
  shows "chain (heap s) (head s) xs" "distinct (map fst xs)" "\<forall>a. address_ok s (map_of xs a) a" "next_ok s" "bounded s"
    "results_ok s" "\<exists>st. spec_run (log s) [] = Some st \<and> map (value_at (heap s)) xs = map Some st"
  using assms by (simp_all add: stack_inv_def)

lemma stack_invI:
  assumes "chain (heap s) (head s) xs" "distinct (map fst xs)" "\<forall>a. address_ok s (map_of xs a) a" "next_ok s" "bounded s"
    "results_ok s" "\<exists>st. spec_run (log s) [] = Some st \<and> map (value_at (heap s)) xs = map Some st"
  shows "stack_inv s xs"
  using assms by (simp add: stack_inv_def)

lemma next_ok_step:
  assumes "moves i l l' s s'" "next_ok s"
    and "\<And>e a nx nd. l' = Pop_exchange e a nx \<Longrightarrow> heap s' a = Some nd \<Longrightarrow> next_node nd = nx"
    and "\<And>a nd'. 0 < over (holding a) s \<Longrightarrow> heap s' a = Some nd' \<Longrightarrow> \<exists>nd. heap s a = Some nd \<and> next_node nd = next_node nd'"
  shows "next_ok s'"
  unfolding next_ok_def
proof (intro allI impI)
  fix j e a nx nd
  assume j: "j < length (threads s')" "threads s' ! j = Pop_exchange e a nx" and nd: "heap s' a = Some nd"
  show "next_node nd = nx"
  proof (cases "j = i")
    case True
    then show ?thesis using assms(1,3) j nd by (simp add: moves_def)
  next
    case False
    then have t: "j < length (threads s)" "threads s ! j = Pop_exchange e a nx" using assms(1) j by (simp_all add: moves_def)
    then have "0 < over (holding a) s" using over_ge [of j s "holding a"] by simp
    from assms(4) [OF this nd] show ?thesis using assms(2) t unfolding next_ok_def by metis
  qed
qed

lemma results_step:
  assumes "moves i l l' s s'" "results_ok s"
    and "popped_by i (log s') = returned_by i s' @ owed (heap s') l'"
    and "\<And>j. j \<noteq> i \<Longrightarrow> popped_by j (log s') = popped_by j (log s) \<and> returned_by j s' = returned_by j s"
    and "\<And>j. j \<noteq> i \<Longrightarrow> j < length (threads s) \<Longrightarrow> owed (heap s') (threads s ! j) = owed (heap s) (threads s ! j)"
  shows "results_ok s'"
  unfolding results_ok_def
proof (intro allI impI)
  fix j
  assume j: "j < length (threads s')"
  show "popped_by j (log s') = returned_by j s' @ owed (heap s') (threads s' ! j)"
  proof (cases "j = i")
    case True
    then show ?thesis using assms(1,3) j by (simp add: moves_def)
  next
    case False
    then show ?thesis using assms(1,2,4,5) j by (simp add: moves_def results_ok_def)
  qed
qed

text \<open>Others' debts depend only on the data of the nodes they are about to swap.\<close>

lemma owed_cong:
  assumes "\<And>a. swapping a l = 1 \<Longrightarrow> Option.bind (hp' a) node_data = Option.bind (hp a) node_data"
  shows "owed hp' l = owed hp l"
proof (cases l)
  case (Pop_free a k)
  then show ?thesis by (cases k) simp_all
qed (use assms in \<open>simp_all add: value_at_def\<close>)

lemma popped_by_append [simp]: "popped_by i (es @ es') = popped_by i es @ popped_by i es'"
  by (induction i es rule: popped_by.induct) simp_all

lemma spec_run_append: "spec_run (es @ es') st = Option.bind (spec_run es st) (spec_run es')"
  by (induction es arbitrary: st) (simp_all add: bind_eq_Some_conv split: bind_split)

lemma countsI:
  "head s \<in> counts s" "heap s a = Some nd \<Longrightarrow> next_node nd \<in> counts s"
  "i < length (threads s) \<Longrightarrow> c \<in> counts_of (threads s ! i) \<Longrightarrow> c \<in> counts s"
  by (auto simp: counts_def ran_def)

lemma bounded_step:
  assumes "moves i l l' s s'" "bounded s" "raised s \<le> raised s'"
    and P: "\<And>c. P c \<longleftrightarrow> c \<in> counts s \<or> (0 \<le> fst c \<and> fst c \<le> 1 + int (raised s'))"
    and "P (head s')" "\<And>a nd. heap s' a = Some nd \<Longrightarrow> P (next_node nd)" "\<And>c. c \<in> counts_of l' \<Longrightarrow> P c"
  shows "bounded s'"
proof -
  have "P c" if c: "c \<in> counts s'" for c
  proof -
    consider "c = head s'" | a nd where "heap s' a = Some nd" "c = next_node nd"
      | j where "j < length (threads s')" "c \<in> counts_of (threads s' ! j)"
      using c by (auto simp: counts_def ran_def in_set_conv_nth)
    then show ?thesis
    proof cases
      case 3
      then show ?thesis using assms(1,7) P countsI(3) [of j s c] by (cases "j = i") (auto simp: moves_def)
    qed (use assms in auto)
  qed
  then show ?thesis using assms(2,3) P unfolding bounded_def by fastforce
qed

text \<open>
  A step that leaves head and log alone and touches at most the node at \<open>a\<close>, which is not on the
  stack when it does.
\<close>

lemma quiet_step:
  assumes inv: "stack_inv s xs" and m: "moves i l l' s s'"
    and frame: "head s' = head s" "log s' = log s" "raised s' = raised s" "\<And>c. c \<noteq> a \<Longrightarrow> heap s' c = heap s c"
      "map_of xs a = None \<or> heap s' = heap s" "\<And>c. c \<noteq> a \<Longrightarrow> same_weights l l' c"
    and ok: "address_ok s' (map_of xs a) a"
    and nx: "\<And>e b nx nd. l' = Pop_exchange e b nx \<Longrightarrow> heap s' b = Some nd \<Longrightarrow> next_node nd = nx"
      "\<And>nd'. 0 < over (holding a) s \<Longrightarrow> heap s' a = Some nd' \<Longrightarrow> \<exists>nd. heap s a = Some nd \<and> next_node nd = next_node nd'"
    and bd: "\<And>nd. heap s' a = Some nd \<Longrightarrow> next_node nd \<in> counts s \<or> next_node nd = (0, None)"
      "counts_of l' \<subseteq> counts s"
    and res: "returned_by i s' @ owed (heap s') l' = returned_by i s @ owed (heap s) l"
      "\<And>j. j \<noteq> i \<Longrightarrow> returned_by j s' = returned_by j s"
      "\<And>j. j \<noteq> i \<Longrightarrow> j < length (threads s) \<Longrightarrow> owed (heap s') (threads s ! j) = owed (heap s) (threads s ! j)"
  shows "stack_inv s' xs"
proof (rule stack_invI)
  note D = stack_invD [OF inv]
  have h: "heap s' c = heap s c" if "c \<in> fst ` set xs" for c
    using frame(4,5) not_in_chain that by metis
  then show "chain (heap s') (head s') xs" using D(1) chain_cong [of xs "heap s'" "heap s"] frame(1) by simp
  show "distinct (map fst xs)" by (rule D(2))
  show "\<forall>c. address_ok s' (map_of xs c) c"
    using addresses_step [OF m D(3) ok] frame(4,6) by blast
  show "next_ok s'"
  proof (rule next_ok_step [OF m D(4) nx(1)])
    fix c nd' assume "0 < over (holding c) s" "heap s' c = Some nd'"
    then show "\<exists>nd. heap s c = Some nd \<and> next_node nd = next_node nd'"
      using nx(2) frame(4) by (cases "c = a") auto
  qed
  show "bounded s'"
  proof (rule bounded_step [OF m D(5) _ refl])
    fix c nd assume "heap s' c = Some nd"
    then show "next_node nd \<in> counts s \<or> (0 \<le> fst (next_node nd) \<and> fst (next_node nd) \<le> 1 + int (raised s'))"
      using bd(1) countsI(2) frame(4) by (cases "c = a") auto
  qed (use frame(1,3) bd(2) countsI(1) in auto)
  show "results_ok s'"
    using m D(6) res frame(2) by (intro results_step [OF m D(6)]) (auto simp: moves_def results_ok_def)
  have "map (value_at (heap s')) xs = map (value_at (heap s)) xs"
    using h by (simp add: value_at_def)
  then show "\<exists>st. spec_run (log s') [] = Some st \<and> map (value_at (heap s')) xs = map Some st"
    unfolding frame(2) by (simp only: D(7))
qed

lemma node_simps [simp]:
  "threads (goto i l s) = (threads s)[i := l]" "head (goto i l s) = head s" "heap (goto i l s) = heap s"
  "log (goto i l s) = log s" "raised (goto i l s) = raised s" "returned (goto i l s) = returned s"
  "threads (set_node a nd s) = threads s" "head (set_node a nd s) = head s" "heap (set_node a nd s) = (heap s)(a \<mapsto> nd)"
  "log (set_node a nd s) = log s" "raised (set_node a nd s) = raised s" "returned (set_node a nd s) = returned s"
  "threads (return_data i d s) = (threads s)[i := Idle]" "head (return_data i d s) = head s"
  "heap (return_data i d s) = heap s" "log (return_data i d s) = log s" "raised (return_data i d s) = raised s"
  "returned (return_data i d s) = returned s @ [(i, d)]"
  by (simp_all add: goto_def set_node_def return_data_def)

lemma returned_by_simps [simp]:
  "returned_by j (goto i l s) = returned_by j s" "returned_by j (set_node a nd s) = returned_by j s"
  "returned_by j (return_data i d s) = (if j = i then returned_by j s @ [d] else returned_by j s)"
  "returned_by j (s\<lparr>head := c\<rparr>) = returned_by j s" "returned_by j (s\<lparr>log := lg\<rparr>) = returned_by j s"
  "returned_by j (s\<lparr>raised := r\<rparr>) = returned_by j s" "returned_by j (s\<lparr>heap := hp\<rparr>) = returned_by j s"
  by (simp_all add: returned_by_def)

text \<open>What the invariant says of a node one of the threads has.\<close>

lemma address_cases:
  assumes "stack_inv s xs"
  shows "heap s a = None \<Longrightarrow> map_of xs a = None \<and> over (making a) s = 0 \<and> over (holding a) s = 0 \<and> over (swapping a) s = 0 \<and>
      over (taking a) s = 0 \<and> over (freeing a) s = 0 \<and> over (taken a) s = 0"
    and "heap s a = Some nd \<Longrightarrow> node_ok nd (map_of xs a) (over (making a) s) (over (holding a) s) (over (swapping a) s)
      (over (taking a) s) (over (freeing a) s) (over (taken a) s)"
  using stack_invD(3) [OF assms] by (auto simp: address_ok_def dest!: spec [of _ a])

lemma others_zero:
  fixes w :: "'a local \<Rightarrow> nat"
  assumes "moves i l l' s s'" "over w s \<le> w l" "j \<noteq> i" "j < length (threads s)"
  shows "w (threads s ! j) = 0"
  using over_ge2 [OF assms(1,4,3), of w] assms(2) by simp

lemma weight_le: "moves i l l' s s' \<Longrightarrow> w l \<le> over w s" for w :: "'a local \<Rightarrow> nat"
  using over_ge [of i s w] by (auto simp: moves_def)

lemma node_making:
  assumes "node_ok nd x m h w t f e" "1 \<le> m"
  shows "x = None \<and> m = 1 \<and> h = 0 \<and> w = 0 \<and> t = 0 \<and> f = 0 \<and> e = 0 \<and> internal_count nd = 0 \<and> node_data nd \<noteq> None"
  using assms by (cases x) (auto simp: node_ok_def)

lemma node_taking:
  assumes "node_ok nd x m h w t f e" "1 \<le> t"
  shows "x = None \<and> m = 0 \<and> t = 1 \<and> w \<le> 1 \<and> f = 0 \<and> internal_count nd = int h + 2 - e \<and> int h + 2 \<le> e \<and>
    (w = 1 \<longrightarrow> node_data nd \<noteq> None)"
  using assms by (cases x) (auto simp: node_ok_def)

lemma node_freeing:
  assumes "node_ok nd x m h w t f e" "1 \<le> f"
  shows "x = None \<and> m = 0 \<and> h = 0 \<and> w = 0 \<and> t = 0 \<and> f = 1 \<and> e = 0"
  using assms by (cases x) (auto simp: node_ok_def)

lemma node_on_stack:
  assumes "node_ok nd (Some k) m h w t f e"
  shows "m = 0 \<and> w = 0 \<and> t = 0 \<and> f = 0 \<and> e = 0 \<and> internal_count nd = int h + 1 - k \<and> int h + 1 \<le> k \<and> node_data nd \<noteq> None"
  using assms by (simp add: node_ok_def)

lemma node_let_go:
  assumes "node_ok nd x m (Suc h) w t f e"
  shows "node_ok (nd\<lparr>internal_count := internal_count nd - 1\<rparr>) x m h w t (if internal_count nd = 1 then Suc f else f) e"
  using assms by (cases x) (auto simp: node_ok_def)

lemma inv_push_new:
  assumes inv: "stack_inv s xs" and i: "i < length (threads s)" "threads s ! i = Idle" and a: "heap s a = None"
  shows "stack_inv (push_new a d i s) xs"
proof -
  define s' where "s' = push_new a d i s"
  let ?nd = "\<lparr>node_data = Some d, internal_count = 0, next_node = (0, None)\<rparr>"
  have s': "heap s' = (heap s)(a \<mapsto> ?nd)" "head s' = head s" "log s' = log s" "raised s' = raised s"
    "threads s' = (threads s)[i := Push_load a]" "\<And>j. returned_by j s' = returned_by j s"
    by (simp_all add: s'_def push_new_def)
  have m: "moves i Idle (Push_load a) s s'" using i s' by (simp add: moves_def)
  note z = address_cases(1) [OF inv a]
  have "address_ok s' (map_of xs a) a"
    using six_moves [OF m, of a] z by (simp add: address_ok_def s' node_ok_def)
  moreover have "owed (heap s') (threads s ! j) = owed (heap s) (threads s ! j)" if "j < length (threads s)" for j
    using over_ge [OF that, of "swapping a"] z by (intro owed_cong) (auto simp: s')
  ultimately have "stack_inv s' xs"
    using z by (intro quiet_step [OF inv m, where a = a]) (auto simp: s' same_weights_def)
  then show ?thesis by (simp add: s'_def)
qed

lemma inv_push_relink:
  assumes inv: "stack_inv s xs" and i: "i < length (threads s)" "threads s ! i = l" and l: "making a l = 1"
    and s': "heap s' = (heap s)(a \<mapsto> nd\<lparr>next_node := head s\<rparr>)" "head s' = head s" "log s' = log s" "raised s' = raised s"
      "threads s' = (threads s)[i := l']" "\<And>j. returned_by j s' = returned_by j s"
    and l': "l' = Push_exchange a \<or> l' = Push_load a" and nd: "heap s a = Some nd"
  shows "stack_inv s' xs"
proof -
  have m: "moves i l l' s s'" using i s' by (simp add: moves_def)
  have ll: "l = Push_load a \<or> l = Push_exchange a" using l by (cases l) (auto simp: of_bool_def split: if_splits)
  have "1 \<le> over (making a) s" using weight_le [OF m, of "making a"] l by simp
  note z = node_making [OF address_cases(2) [OF inv nd] this]
  have "same_weights l l' a" using ll l' by (auto simp: same_weights_def)
  then have "address_ok s' (map_of xs a) a" using z over_same [OF m] by (simp add: address_ok_def s' node_ok_def)
  moreover have "owed (heap s') (threads s ! j) = owed (heap s) (threads s ! j)" if "j < length (threads s)" for j
    using over_ge [OF that, of "swapping a"] z by (intro owed_cong) (auto simp: s')
  moreover have "same_weights l l' c" if "c \<noteq> a" for c using that ll l' by (auto simp: same_weights_def)
  moreover have "owed (heap s') l' = []" "owed (heap s) l = []" "counts_of l' = {}" "\<And>e b nx. l' \<noteq> Pop_exchange e b nx"
    using ll l' by auto
  ultimately show ?thesis
    using z by (intro quiet_step [OF inv m, where a = a]) (auto simp: s' countsI(1) nd)
qed

text \<open>A move that changes no node.\<close>

lemma inv_move:
  assumes inv: "stack_inv s xs" and m: "moves i l l' s s'" and w: "\<And>c. same_weights l l' c"
    and s': "heap s' = heap s" "head s' = head s" "log s' = log s" "raised s' = raised s"
    and nx: "\<And>e b nx nd. l' = Pop_exchange e b nx \<Longrightarrow> heap s b = Some nd \<Longrightarrow> next_node nd = nx"
    and bd: "counts_of l' \<subseteq> counts s"
    and res: "returned_by i s' @ owed (heap s) l' = returned_by i s @ owed (heap s) l"
      "\<And>j. j \<noteq> i \<Longrightarrow> returned_by j s' = returned_by j s"
  shows "stack_inv s' xs"
proof (rule quiet_step [OF inv m, where a = 0])
  show "address_ok s' (map_of xs 0) 0"
    using address_frame [OF m w, of 0] s'(1) stack_invD(3) [OF inv] by simp
qed (use s' nx bd res w in \<open>auto intro: countsI(2)\<close>)

lemma inv_pop_load:
  assumes "stack_inv s xs" "i < length (threads s)" "threads s ! i = Idle"
  shows "stack_inv (pop_load i s) xs"
  unfolding pop_load_def
  by (rule inv_move [OF assms(1), where i = i and l = Idle and l' = "Pop_raise (head s)"])
    (use assms in \<open>auto simp: moves_def same_weights_def countsI(1)\<close>)

lemma inv_pop_test:
  assumes inv: "stack_inv s xs" and i: "i < length (threads s)" "threads s ! i = Pop_test old"
    and step: "pop_test old i s = Inr s'"
  shows "stack_inv s' xs"
proof (cases "snd old")
  case None
  then have s': "s' = return_data i None s" using step by (simp add: pop_test_def)
  show ?thesis unfolding s'
    by (rule inv_move [OF inv, where i = i and l = "Pop_test old" and l' = Idle])
      (use i None in \<open>auto simp: moves_def same_weights_def\<close>)
next
  case (Some a)
  then obtain nd where nd: "heap s a = Some nd" and s': "s' = goto i (Pop_exchange (fst old) a (next_node nd)) s"
    using step by (auto simp: pop_test_def at_node_def split: option.splits)
  have "old = (fst old, Some a)" using Some by (metis prod.collapse)
  then have c: "(fst old, Some a) \<in> counts s" using countsI(3) [of i s old] i by simp
  show ?thesis unfolding s'
    by (rule inv_move [OF inv, where i = i and l = "Pop_test old" and l' = "Pop_exchange (fst old) a (next_node nd)"])
      (use i Some nd c countsI(2) [OF nd] in \<open>auto simp: moves_def same_weights_def\<close>)
qed

lemma counts_bounded: "stack_inv s xs \<Longrightarrow> c \<in> counts s \<Longrightarrow> 0 \<le> fst c \<and> fst c \<le> 1 + int (raised s)"
  by (simp add: stack_inv_def bounded_def)

lemma inv_raise_null:
  assumes inv: "stack_inv s xs" and i: "i < length (threads s)" "threads s ! i = Pop_raise old"
    and h: "head s = old" "snd old = None"
    and s': "s' = goto i (Pop_test (fst old + 1, None)) (s\<lparr>head := (fst old + 1, None), raised := Suc (raised s), log := log s @ [Popped i None]\<rparr>)"
  shows "stack_inv s' xs"
proof (rule stack_invI)
  note D = stack_invD [OF inv]
  have xs: "xs = []" using D(1) h by (cases xs) auto
  have m: "moves i (Pop_raise old) (Pop_test (fst old + 1, None)) s s'" using i by (simp add: moves_def s')
  have w: "same_weights (Pop_raise old) (Pop_test (fst old + 1, None)) c" for c by (simp add: same_weights_def)
  have hp: "heap s' = heap s" by (simp add: s')
  show "chain (heap s') (head s') xs" by (simp add: s' xs)
  show "distinct (map fst xs)" by (rule D(2))
  show "\<forall>c. address_ok s' (map_of xs c) c" using address_frame [OF m w] D(3) hp by simp
  show "next_ok s'" by (rule next_ok_step [OF m D(4)]) (simp_all add: hp)
  have "0 \<le> fst old \<and> fst old \<le> 1 + int (raised s)" using counts_bounded [OF inv countsI(1)] h by simp
  then show "bounded s'"
    by (intro bounded_step [OF m D(5) _ refl]) (auto simp: s' countsI(2))
  show "results_ok s'"
    by (rule results_step [OF m D(6)]) (use i D(6) in \<open>auto simp: s' results_ok_def\<close>)
  show "\<exists>st. spec_run (log s') [] = Some st \<and> map (value_at (heap s')) xs = map Some st"
    using D(7) by (auto simp: s' xs spec_run_append)
qed

lemma inv_raise_node:
  assumes inv: "stack_inv s xs" and i: "i < length (threads s)" "threads s ! i = Pop_raise old"
    and h: "head s = old" "snd old = Some a"
    and s': "s' = goto i (Pop_test (fst old + 1, Some a)) (s\<lparr>head := (fst old + 1, Some a), raised := Suc (raised s)\<rparr>)"
  shows "\<exists>xs'. stack_inv s' xs'"
proof -
  note D = stack_invD [OF inv]
  obtain ys nd where xs: "xs = (a, fst old) # ys" and nd: "heap s a = Some nd" "chain (heap s) (next_node nd) ys"
    using D(1) h by (cases xs) auto
  let ?xs = "(a, fst old + 1) # ys"
  have m: "moves i (Pop_raise old) (Pop_test (fst old + 1, Some a)) s s'" using i by (simp add: moves_def s')
  have hp: "heap s' = heap s" by (simp add: s')
  have "stack_inv s' ?xs"
  proof (rule stack_invI)
    show "chain (heap s') (head s') ?xs" using nd by (simp add: s')
    show "distinct (map fst ?xs)" using D(2) by (simp add: xs)
    have k: "node_ok nd (Some (fst old)) (over (making a) s) (over (holding a) s) (over (swapping a) s)
        (over (taking a) s) (over (freeing a) s) (over (taken a) s)"
      using address_cases(2) [OF inv nd(1)] by (simp add: xs)
    have "address_ok s' (Some (fst old + 1)) a"
      using six_moves [OF m, of a] node_on_stack [OF k] by (simp add: address_ok_def hp nd(1)) (simp add: node_ok_def)
    then show "\<forall>c. address_ok s' (map_of ?xs c) c"
      by (intro addresses_step [OF m D(3), of _ a]) (auto simp: hp same_weights_def xs)
    show "next_ok s'" by (rule next_ok_step [OF m D(4)]) (simp_all add: hp)
    have "0 \<le> fst old \<and> fst old \<le> 1 + int (raised s)" using counts_bounded [OF inv countsI(1)] h by simp
    then show "bounded s'"
      by (intro bounded_step [OF m D(5) _ refl]) (auto simp: s' countsI(2))
    show "results_ok s'"
      by (rule results_step [OF m D(6)]) (use i D(6) in \<open>auto simp: s' results_ok_def\<close>)
    show "\<exists>st. spec_run (log s') [] = Some st \<and> map (value_at (heap s')) ?xs = map Some st"
      using D(7) by (simp add: s' xs value_at_def)
  qed
  then show ?thesis by blast
qed

lemma inv_increase:
  assumes inv: "stack_inv s xs" and i: "i < length (threads s)" "threads s ! i = Pop_raise old"
    and step: "increase_head_count old i s = Inr s'"
  shows "\<exists>xs'. stack_inv s' xs'"
proof (cases "head s = old")
  case True
  have o: "old = (fst old, snd old)" by simp
  show ?thesis
  proof (cases "snd old")
    case None
    then have "s' = goto i (Pop_test (fst old + 1, None))
        (s\<lparr>head := (fst old + 1, None), raised := Suc (raised s), log := log s @ [Popped i None]\<rparr>)"
      using step True by (simp add: increase_head_count_def Let_def split: if_splits)
    then show ?thesis using inv_raise_null [OF inv i True None] by blast
  next
    case (Some a)
    then have "s' = goto i (Pop_test (fst old + 1, Some a)) (s\<lparr>head := (fst old + 1, Some a), raised := Suc (raised s)\<rparr>)"
      using step True by (simp add: increase_head_count_def Let_def split: if_splits)
    then show ?thesis using inv_raise_node [OF inv i True Some] by blast
  qed
next
  case False
  then have s': "s' = goto i (Pop_raise (head s)) s"
    using step by (simp add: increase_head_count_def Let_def split: if_splits)
  have "stack_inv s' xs" unfolding s'
    by (rule inv_move [OF inv, where i = i and l = "Pop_raise old" and l' = "Pop_raise (head s)"])
      (use i in \<open>auto simp: moves_def same_weights_def countsI(1)\<close>)
  then show ?thesis by blast
qed

lemma inv_push_exchange:
  assumes inv: "stack_inv s xs" and i: "i < length (threads s)" "threads s ! i = Push_exchange a"
    and step: "push_exchange spurious a i s = Inr s'"
  shows "\<exists>xs'. stack_inv s' xs'"
proof -
  note D = stack_invD [OF inv]
  obtain nd where nd: "heap s a = Some nd"
    using step by (auto simp: push_exchange_def at_node_def split: option.splits)
  have "1 \<le> over (making a) s" using over_ge [OF i(1), of "making a"] i by simp
  note z = node_making [OF address_cases(2) [OF inv nd] this]
  then obtain d where d: "node_data nd = Some d" by blast
  show ?thesis
  proof (cases "head s = next_node nd \<and> \<not> spurious")
    case True
    let ?xs = "(a, 1) # xs"
    have s': "s' = goto i Idle (s\<lparr>head := (1, Some a), log := log s @ [Pushed i d]\<rparr>)"
      using step nd d True by (simp add: push_exchange_def at_node_def)
    have m: "moves i (Push_exchange a) Idle s s'" using i by (simp add: moves_def s')
    have hp: "heap s' = heap s" by (simp add: s')
    have "stack_inv s' ?xs"
    proof (rule stack_invI)
      show "chain (heap s') (head s') ?xs" using nd D(1) True by (simp add: s')
      show "distinct (map fst ?xs)" using D(2) z not_in_chain [of xs a] by simp
      have "address_ok s' (Some 1) a"
        using six_moves [OF m, of a] z by (simp add: address_ok_def hp nd) (simp add: node_ok_def)
      then show "\<forall>c. address_ok s' (map_of ?xs c) c"
        by (intro addresses_step [OF m D(3), of _ a]) (auto simp: hp same_weights_def)
      show "next_ok s'" by (rule next_ok_step [OF m D(4)]) (simp_all add: hp)
      show "bounded s'" by (rule bounded_step [OF m D(5) _ refl]) (auto simp: s' countsI(2))
      show "results_ok s'"
        by (rule results_step [OF m D(6)]) (use i D(6) in \<open>auto simp: s' results_ok_def\<close>)
      show "\<exists>st. spec_run (log s') [] = Some st \<and> map (value_at (heap s')) ?xs = map Some st"
        using D(7) d nd by (auto simp: s' spec_run_append value_at_def)
    qed
    then show ?thesis by blast
  next
    case False
    then have s': "s' = goto i (Push_load a) (set_node a (nd\<lparr>next_node := head s\<rparr>) s)"
      using step nd by (auto simp: push_exchange_def at_node_def split: if_splits)
    have "stack_inv s' xs"
      by (rule inv_push_relink [OF inv i, where a = a and nd = nd and l' = "Push_load a"])
        (use nd in \<open>simp_all add: s'\<close>)
    then show ?thesis by blast
  qed
qed

lemma inv_pop_exchange:
  assumes inv: "stack_inv s xs" and i: "i < length (threads s)" "threads s ! i = Pop_exchange e a nx"
    and step: "pop_exchange e a nx i s = Inr s'"
  shows "\<exists>xs'. stack_inv s' xs'"
proof (cases "head s = (e, Some a)")
  case True
  note D = stack_invD [OF inv]
  obtain ys nd where xs: "xs = (a, e) # ys" and nd: "heap s a = Some nd" "chain (heap s) (next_node nd) ys"
    using D(1) True by (cases xs) auto
  have nx: "next_node nd = nx" using D(4) i nd(1) unfolding next_ok_def by blast
  have s': "s' = goto i (Pop_swap e a) (s\<lparr>head := nx, log := log s @ [Popped i (node_data nd)]\<rparr>)"
    using step nd(1) True by (simp add: pop_exchange_def at_node_def)
  have m: "moves i (Pop_exchange e a nx) (Pop_swap e a) s s'" using i by (simp add: moves_def s')
  have hp: "heap s' = heap s" by (simp add: s')
  have "node_ok nd (Some e) (over (making a) s) (over (holding a) s) (over (swapping a) s)
      (over (taking a) s) (over (freeing a) s) (over (taken a) s)"
    using address_cases(2) [OF inv nd(1)] by (simp add: xs)
  note k = node_on_stack [OF this]
  then obtain d where d: "node_data nd = Some d" by blast
  have "stack_inv s' ys"
  proof (rule stack_invI)
    show "chain (heap s') (head s') ys" using nd nx by (simp add: s')
    show "distinct (map fst ys)" using D(2) by (simp add: xs)
    have y: "map_of ys a = None" using D(2) by (simp add: xs map_of_eq_None_iff)
    have "address_ok s' None a"
      using six_moves [OF m, of a] k by (simp add: address_ok_def hp nd(1)) (simp add: node_ok_def)
    then show "\<forall>c. address_ok s' (map_of ys c) c"
      using y by (intro addresses_step [OF m D(3), of _ a]) (auto simp: hp same_weights_def xs)
    show "next_ok s'" by (rule next_ok_step [OF m D(4)]) (simp_all add: hp)
    show "bounded s'"
      by (rule bounded_step [OF m D(5) _ refl]) (use countsI(2) [OF nd(1)] nx in \<open>auto simp: s' countsI(2)\<close>)
    show "results_ok s'"
      by (rule results_step [OF m D(6)]) (use i D(6) nd(1) in \<open>auto simp: s' results_ok_def value_at_def\<close>)
    show "\<exists>st. spec_run (log s') [] = Some st \<and> map (value_at (heap s')) ys = map Some st"
      using D(7) d nd(1) by (auto simp: s' xs spec_run_append value_at_def Cons_eq_map_conv)
  qed
  then show ?thesis by blast
next
  case False
  then have s': "s' = goto i (Pop_release a (head s)) s" using step by (simp add: pop_exchange_def)
  have "stack_inv s' xs" unfolding s'
    by (rule inv_move [OF inv, where i = i and l = "Pop_exchange e a nx" and l' = "Pop_release a (head s)"])
      (use i in \<open>auto simp: moves_def same_weights_def countsI(1)\<close>)
  then show ?thesis by blast
qed

lemma inv_pop_swap:
  assumes inv: "stack_inv s xs" and i: "i < length (threads s)" "threads s ! i = Pop_swap e a"
    and step: "pop_swap e a i s = Inr s'"
  shows "stack_inv s' xs"
proof -
  obtain nd where nd: "heap s a = Some nd"
    and s': "s' = goto i (Pop_add e a (node_data nd)) (set_node a (nd\<lparr>node_data := None\<rparr>) s)"
    using step by (auto simp: pop_swap_def at_node_def split: option.splits)
  have m: "moves i (Pop_swap e a) (Pop_add e a (node_data nd)) s s'" using i by (simp add: moves_def s')
  have "1 \<le> over (taking a) s" using weight_le [OF m, of "taking a"] by simp
  note z = node_taking [OF address_cases(2) [OF inv nd] this]
  have "address_ok s' (map_of xs a) a"
    using six_moves [OF m, of a] z by (simp add: address_ok_def s') (simp add: node_ok_def)
  moreover have "owed (heap s') (threads s ! j) = owed (heap s) (threads s ! j)" if "j \<noteq> i" "j < length (threads s)" for j
    using others_zero [OF m _ that, of "swapping a"] z by (intro owed_cong) (auto simp: s')
  ultimately show ?thesis
    by (intro quiet_step [OF inv m, where a = a])
      (use z nd countsI(2) [OF nd] in \<open>auto simp: s' same_weights_def value_at_def\<close>)
qed

lemma inv_pop_add:
  assumes inv: "stack_inv s xs" and i: "i < length (threads s)" "threads s ! i = Pop_add e a d"
    and step: "pop_add e a d i s = Inr s'"
  shows "stack_inv s' xs"
proof -
  obtain nd where nd: "heap s a = Some nd" using step by (auto simp: pop_add_def at_node_def split: option.splits)
  let ?nd = "nd\<lparr>internal_count := internal_count nd + (e - 2)\<rparr>"
  define l' where "l' = (if internal_count nd = - (e - 2) then Pop_free a (Return_data d) else Idle)"
  have s': "heap s' = (heap s)(a \<mapsto> ?nd)" "threads s' = (threads s)[i := l']" "head s' = head s" "log s' = log s"
    "raised s' = raised s" "\<And>j. j \<noteq> i \<Longrightarrow> returned_by j s' = returned_by j s"
    "returned_by i s' @ owed hp l' = returned_by i s @ [d]" for hp
    using step nd by (auto simp: pop_add_def at_node_def Let_def l'_def split: if_splits)
  have m: "moves i (Pop_add e a d) l' s s'" using i by (simp add: moves_def s')
  have "1 \<le> over (taking a) s" using weight_le [OF m, of "taking a"] by simp
  note z = node_taking [OF address_cases(2) [OF inv nd] this]
  have t: "over (taken a) s = e" and sw: "over (swapping a) s = 0" using taken_single [OF m, of a] z by simp_all
  have "address_ok s' (map_of xs a) a"
    using six_moves [OF m, of a] z t sw by (simp add: address_ok_def s') (auto simp: node_ok_def l'_def)
  moreover have "owed (heap s') (threads s ! j) = owed (heap s) (threads s ! j)" for j
    by (intro owed_cong) (auto simp: s' nd)
  moreover have "same_weights (Pop_add e a d) l' c" if "c \<noteq> a" for c using that by (simp add: same_weights_def l'_def)
  moreover have "\<And>e b nx. l' \<noteq> Pop_exchange e b nx" "counts_of l' = {}" by (simp_all add: l'_def)
  ultimately show ?thesis
    using s'(6) s'(7) [of "heap s'"] z countsI(2) [OF nd]
    by (intro quiet_step [OF inv m, where a = a]) (auto simp: s'(1-5) nd)
qed

lemma inv_pop_release:
  assumes inv: "stack_inv s xs" and i: "i < length (threads s)" "threads s ! i = Pop_release a old"
    and step: "pop_release a old i s = Inr s'"
  shows "\<exists>xs'. stack_inv s' xs'"
proof -
  note D = stack_invD [OF inv]
  obtain nd where nd: "heap s a = Some nd" using step by (auto simp: pop_release_def at_node_def split: option.splits)
  let ?nd = "nd\<lparr>internal_count := internal_count nd - 1\<rparr>"
  define l' :: "'a local" where "l' = (if internal_count nd = 1 then Pop_free a (Retry old) else Pop_raise old)"
  have s': "heap s' = (heap s)(a \<mapsto> ?nd)" "threads s' = (threads s)[i := l']" "head s' = head s" "log s' = log s"
    "raised s' = raised s" "returned_by j s' = returned_by j s" "owed hp l' = []" "counts_of l' = {old}" for j hp
    using step nd by (auto simp: pop_release_def at_node_def Let_def l'_def split: if_splits)
  have m: "moves i (Pop_release a old) l' s s'" using i by (simp add: moves_def s')
  define h where "h = over (holding a) s'"
  have h: "over (holding a) s = Suc h" using six_moves(2) [OF m, of a] by (simp add: h_def l'_def split: if_splits)
  have old: "old \<in> counts s" using countsI(3) [of i s old] i by simp
  have hp: "Option.bind (heap s' c) node_data = Option.bind (heap s c) node_data"
    "map_option next_node (heap s' c) = map_option next_node (heap s c)" for c
    by (simp_all add: s' nd)
  have "over (making a) s' = over (making a) s" "over (swapping a) s' = over (swapping a) s" "over (taking a) s' = over (taking a) s"
    "over (freeing a) s' = (if internal_count nd = 1 then Suc (over (freeing a) s) else over (freeing a) s)"
    "over (taken a) s' = over (taken a) s"
    using six_moves [OF m, of a] by (simp_all add: l'_def split: if_splits)
  then have "address_ok s' (map_of xs a) a"
    using node_let_go [of nd] address_cases(2) [OF inv nd, unfolded h] by (simp add: address_ok_def s' h_def)
  then have ad: "\<forall>c. address_ok s' (map_of xs c) c"
    by (intro addresses_step [OF m D(3)]) (auto simp: s' same_weights_def l'_def)
  have "stack_inv s' xs"
  proof (rule stack_invI)
    show "chain (heap s') (head s') xs" using D(1) chain_cong [of xs "heap s'" "heap s"] hp(2) s'(3) by simp
    show "distinct (map fst xs)" by (rule D(2))
    show "\<forall>c. address_ok s' (map_of xs c) c" by (rule ad)
    show "next_ok s'" by (rule next_ok_step [OF m D(4)]) (auto simp: l'_def s' nd split: if_splits)
    show "bounded s'"
      by (rule bounded_step [OF m D(5) _ refl]) (use old countsI(2) [OF nd] in \<open>auto simp: s' countsI(1) countsI(2) split: if_splits\<close>)
    have "owed (heap s') l = owed (heap s) l" for l by (intro owed_cong hp(1))
    then show "results_ok s'"
      by (intro results_step [OF m D(6)]) (use i D(6) s' in \<open>auto simp: results_ok_def\<close>)
    have "map (value_at (heap s')) xs = map (value_at (heap s)) xs" by (simp add: value_at_def hp(1))
    then show "\<exists>st. spec_run (log s') [] = Some st \<and> map (value_at (heap s')) xs = map Some st"
      unfolding s'(4) by (simp only: D(7))
  qed
  then show ?thesis by blast
qed

lemma inv_pop_free:
  assumes inv: "stack_inv s xs" and i: "i < length (threads s)" "threads s ! i = Pop_free a k"
    and step: "pop_free a k i s = Inr s'"
  shows "stack_inv s' xs"
proof -
  obtain nd where nd: "heap s a = Some nd" using step by (auto simp: pop_free_def at_node_def split: option.splits)
  define l' :: "'a local" where "l' = (case k of Return_data d \<Rightarrow> Idle | Retry old \<Rightarrow> Pop_raise old)"
  have s': "heap s' = (heap s)(a := None)" "threads s' = (threads s)[i := l']" "head s' = head s" "log s' = log s"
    "raised s' = raised s" "\<And>j. j \<noteq> i \<Longrightarrow> returned_by j s' = returned_by j s"
    "returned_by i s' @ owed hp l' = returned_by i s @ owed hp (Pop_free a k)" for hp
    using step nd by (auto simp: pop_free_def at_node_def Let_def l'_def split: after_free.splits)
  have m: "moves i (Pop_free a k) l' s s'" using i by (simp add: moves_def s')
  have "1 \<le> over (freeing a) s" using weight_le [OF m, of "freeing a"] by simp
  note z = node_freeing [OF address_cases(2) [OF inv nd] this]
  have "address_ok s' (map_of xs a) a"
    using six_moves [OF m, of a] z by (simp add: address_ok_def s' l'_def split: after_free.splits)
  moreover have "owed (heap s') (threads s ! j) = owed (heap s) (threads s ! j)" if "j < length (threads s)" for j
    using over_ge [OF that, of "swapping a"] z by (intro owed_cong) (auto simp: s')
  moreover have "counts_of l' \<subseteq> counts s"
    using countsI(3) [OF i(1)] i(2) by (auto simp: l'_def split: after_free.splits)
  moreover have "same_weights (Pop_free a k) l' c" if "c \<noteq> a" for c
    using that by (simp add: same_weights_def l'_def split: after_free.splits)
  moreover have "l' = Idle \<or> (\<exists>c. l' = Pop_raise c)" by (simp add: l'_def split: after_free.splits)
  moreover have "owed (heap s') (Pop_free a k) = owed (heap s) (Pop_free a k)" by (cases k) simp_all
  ultimately show ?thesis
    using s'(6) s'(7) [of "heap s'"] z by (intro quiet_step [OF inv m, where a = a]) (auto simp: s'(1-5))
qed

subsection \<open>Reachable states\<close>

lemma inv_push_load:
  assumes inv: "stack_inv s xs" and i: "i < length (threads s)" "threads s ! i = Push_load a"
    and step: "push_load a i s = Inr s'"
  shows "stack_inv s' xs"
proof -
  obtain nd where nd: "heap s a = Some nd" and s': "s' = goto i (Push_exchange a) (set_node a (nd\<lparr>next_node := head s\<rparr>) s)"
    using step by (auto simp: push_load_def at_node_def split: option.splits)
  show ?thesis
    by (rule inv_push_relink [OF inv i, where a = a and nd = nd and l' = "Push_exchange a"]) (use nd in \<open>simp_all add: s'\<close>)
qed

lemmas inv_acts = inv_push_load inv_push_exchange inv_increase inv_pop_test inv_pop_exchange inv_pop_swap inv_pop_add
  inv_pop_release inv_pop_free

lemma inv_act:
  assumes inv: "stack_inv s xs" and act: "stack_act spurious i s = Some (Inr s')"
  shows "\<exists>xs'. stack_inv s' xs'"
proof -
  have i: "i < length (threads s)" using act by (simp add: stack_act_def split: if_splits)
  show ?thesis
  proof (cases "threads s ! i")
    case Idle
    then show ?thesis using act i by (simp add: stack_act_def)
  next
    case (Push_load a)
    then have "push_load a i s = Inr s'" using act i by (simp add: stack_act_def)
    then show ?thesis using inv_push_load [OF inv i Push_load] by blast
  next
    case (Push_exchange a)
    then have "push_exchange spurious a i s = Inr s'" using act i by (simp add: stack_act_def)
    then show ?thesis using inv_push_exchange [OF inv i Push_exchange] by blast
  next
    case (Pop_raise old)
    then have "increase_head_count old i s = Inr s'" using act i by (simp add: stack_act_def)
    then show ?thesis using inv_increase [OF inv i Pop_raise] by blast
  next
    case (Pop_test old)
    then have "pop_test old i s = Inr s'" using act i by (simp add: stack_act_def)
    then show ?thesis using inv_pop_test [OF inv i Pop_test] by blast
  next
    case (Pop_exchange e a nx)
    then have "pop_exchange e a nx i s = Inr s'" using act i by (simp add: stack_act_def)
    then show ?thesis using inv_pop_exchange [OF inv i Pop_exchange] by blast
  next
    case (Pop_swap e a)
    then have "pop_swap e a i s = Inr s'" using act i by (simp add: stack_act_def)
    then show ?thesis using inv_pop_swap [OF inv i Pop_swap] by blast
  next
    case (Pop_add e a d)
    then have "pop_add e a d i s = Inr s'" using act i by (simp add: stack_act_def)
    then show ?thesis using inv_pop_add [OF inv i Pop_add] by blast
  next
    case (Pop_release a old)
    then have "pop_release a old i s = Inr s'" using act i by (simp add: stack_act_def)
    then show ?thesis using inv_pop_release [OF inv i Pop_release] by blast
  next
    case (Pop_free a k)
    then have "pop_free a k i s = Inr s'" using act i by (simp add: stack_act_def)
    then show ?thesis using inv_pop_free [OF inv i Pop_free] by blast
  qed
qed

lemma over_idle:
  assumes "\<And>l. l \<in> set (threads s) \<Longrightarrow> w l = 0"
  shows "over w s = 0"
  using assms unfolding over_def by (metis (no_types, lifting) map_cong sum_list_0)

lemma inv_new: "stack_inv (CLockFreeStack n) []"
proof (rule stack_invI)
  show "\<forall>a. address_ok (CLockFreeStack n) (map_of [] a) a"
    by (simp add: address_ok_def CLockFreeStack_def over_def sum_list_replicate)
qed (auto simp: CLockFreeStack_def next_ok_def bounded_def counts_def results_ok_def returned_by_def)

lemma stack_reachable_inv: "stack_reachable n s \<Longrightarrow> \<exists>xs. stack_inv s xs"
proof (induction rule: stack_reachable.induct)
  case sr_init
  show ?case using inv_new by blast
next
  case (sr_step s s')
  then obtain xs where xs: "stack_inv s xs" by blast
  from sr_step(2) show ?case
  proof cases
    case (st_push i a d)
    then show ?thesis using inv_push_new [OF xs st_push(2-4)] by blast
  next
    case (st_pop i)
    then show ?thesis using inv_pop_load [OF xs st_pop(2,3)] by blast
  next
    case (st_act spurious i)
    then show ?thesis using inv_act [OF xs] by blast
  qed
qed

lemma stack_act_length: "stack_act spurious i s = Some (Inr s') \<Longrightarrow> length (threads s') = length (threads s)"
  by (auto simp: stack_act_def push_load_def push_exchange_def increase_head_count_def pop_test_def pop_exchange_def
      pop_swap_def pop_add_def pop_release_def pop_free_def at_node_def Let_def
      split: if_splits local.splits option.splits after_free.splits)

lemma reachable_length: "stack_reachable n s \<Longrightarrow> length (threads s) = n"
  by (induction rule: stack_reachable.induct)
    (auto simp: CLockFreeStack_def push_new_def pop_load_def stack_act_length elim!: stack_step.cases)

text \<open>Runs in which the threads are named in turn.\<close>

fun stack_acts :: "nat list \<Rightarrow> 'a lf_stack \<Rightarrow> 'a lf_stack option" where
  "stack_acts [] s = Some s"
| "stack_acts (i # is) s = (case stack_act False i s of Some (Inr s') \<Rightarrow> stack_acts is s' | _ \<Rightarrow> None)"

lemma stack_acts_reachable: "stack_acts is s = Some s' \<Longrightarrow> stack_reachable n s \<Longrightarrow> stack_reachable n s'"
  by (induction "is" s rule: stack_acts.induct) (auto split: option.splits sum.splits intro: sr_step st_act)

text \<open>
  The destructor, run by one thread when no other uses the stack: pops until one returns null. \<open>n\<close>
  bounds the number of pops.
\<close>

definition pop_alone :: "nat \<Rightarrow> 'a lf_stack \<Rightarrow> 'a lf_stack option" where
  "pop_alone i s = stack_acts (if snd (head s) = None then [i, i] else [i, i, i, i, i, i]) (pop_load i s)"

fun destruct :: "nat \<Rightarrow> nat \<Rightarrow> 'a lf_stack \<Rightarrow> 'a lf_stack option" where
  "destruct 0 i s = None"
| "destruct (Suc n) i s = Option.bind (pop_alone i s) (\<lambda>s'.
     if snd (last (returned s')) = None then Some s' else destruct n i s')"

lemmas stack_defs = push_new_def goto_def set_node_def stack_act_def push_load_def push_exchange_def at_node_def
  pop_load_def increase_head_count_def pop_test_def pop_exchange_def pop_swap_def pop_add_def pop_release_def
  pop_free_def return_data_def Let_def

lemma pop_alone_empty:
  assumes "i < length (threads s)" "threads s ! i = Idle" "head s = (e, None)" "e \<noteq> 2 ^ 31 - 1"
  shows "\<exists>s'. pop_alone i s = Some s' \<and> returned s' = returned s @ [(i, None)] \<and> heap s' = heap s"
  using assms by (simp add: pop_alone_def stack_defs)

lemma pop_alone_node:
  assumes "i < length (threads s)" "threads s ! i = Idle" "head s = (e, Some a)" "e \<noteq> 2 ^ 31 - 1"
    and "heap s a = Some nd" "internal_count nd = 1 - e"
  shows "\<exists>s'. pop_alone i s = Some s' \<and> returned s' = returned s @ [(i, node_data nd)] \<and> threads s' = threads s \<and>
    heap s' = (heap s)(a := None) \<and> head s' = next_node nd"
proof -
  have "(threads s)[i := Idle] = threads s" using assms(2) list_update_id [of "threads s" i] by simp
  then show ?thesis using assms by (simp add: pop_alone_def stack_defs)
qed

subsection \<open>Properties\<close>

text \<open>A thread that is about to look at a node has it, and what a thread has is allocated.\<close>

lemma thread_has_node:
  assumes "stack_inv s xs" "i < length (threads s)"
    and "0 < making a (threads s ! i) + holding a (threads s ! i) + taking a (threads s ! i) + freeing a (threads s ! i)"
  shows "\<exists>nd. heap s a = Some nd"
proof (rule ccontr)
  assume "\<nexists>nd. heap s a = Some nd"
  then have "heap s a = None" by simp
  from address_cases(1) [OF assms(1) this] show False
    using over_ge [OF assms(2), of "making a"] over_ge [OF assms(2), of "holding a"]
      over_ge [OF assms(2), of "taking a"] over_ge [OF assms(2), of "freeing a"] assms(3) by simp
qed

text \<open>
  C20: Whatever the threads do, no step of a push or a pop touches a node that was freed, and none is
  freed twice, as long as counts were raised fewer than \<open>2 ^ 31 - 2\<close> times.
\<close>

theorem stack_memory_safe:
  assumes "stack_reachable n s" "raised s < 2 ^ 31 - 2"
  shows "stack_act spurious i s \<noteq> Some (Inl f)"
proof (cases "i < length (threads s)")
  case True
  obtain xs where inv: "stack_inv s xs" using stack_reachable_inv [OF assms(1)] by blast
  note own = thread_has_node [OF inv True]
  have nd: "\<exists>nd. heap s a = Some nd" if "threads s ! i \<in> {Push_load a, Push_exchange a, Pop_test (e, Some a),
      Pop_exchange e a nx, Pop_swap e a, Pop_add e a d, Pop_release a nx, Pop_free a k}" for a e nx d k
    using own [of a] that by auto
  have small: "fst old \<noteq> 2 ^ 31 - 1" if "threads s ! i = Pop_raise old" for old
    using counts_bounded [OF inv countsI(3) [OF True, of old]] that assms(2) by auto
  show ?thesis
    using True nd small
    by (cases "threads s ! i")
      (auto simp: stack_act_def push_load_def push_exchange_def increase_head_count_def pop_test_def pop_exchange_def
        pop_swap_def pop_add_def pop_release_def pop_free_def at_node_def Let_def split: option.splits)
qed (simp add: stack_act_def)

text \<open>
  C17: The stack is a stack: the log, in which every push and pop appears between its start and its
  end, runs on a list; that list is what the heap holds from the head on; and what the pops of a
  thread took by the log is what they returned, in order, but for a pop under way.
\<close>

theorem stack_linearizable:
  assumes "stack_reachable n s"
  shows "\<exists>xs st. chain (heap s) (head s) xs \<and> map (value_at (heap s)) xs = map Some st \<and> spec_run (log s) [] = Some st \<and>
    (\<forall>i < n. popped_by i (log s) = returned_by i s @ owed (heap s) (threads s ! i))"
proof -
  obtain xs where inv: "stack_inv s xs" using stack_reachable_inv [OF assms] by blast
  then show ?thesis
    using stack_invD(1,6,7) [OF inv] reachable_length [OF assms] by (auto simp: results_ok_def)
qed

lemma idle_nodes:
  assumes inv: "stack_inv s xs" and idle: "\<forall>l \<in> set (threads s). l = Idle"
  shows "dom (heap s) = fst ` set xs"
proof -
  have z: "over (making a) s = 0" "over (holding a) s = 0" "over (taking a) s = 0" "over (freeing a) s = 0" for a
    by (rule over_idle, use idle in auto)+
  have "heap s a = None \<longleftrightarrow> map_of xs a = None" for a
  proof (cases "heap s a")
    case None
    then show ?thesis using address_cases(1) [OF inv None] by simp
  next
    case (Some nd)
    from address_cases(2) [OF inv Some] show ?thesis using Some z [of a] by (cases "map_of xs a") (auto simp: node_ok_def)
  qed
  then have "dom (heap s) = dom (map_of xs)" by (auto simp: dom_def)
  then show ?thesis by (simp add: dom_map_of_conv_image_fst)
qed

text \<open>
  No node is lost: once all threads are outside push and pop, the nodes allocated are those on the
  stack.
\<close>

theorem stack_frees_nodes:
  assumes "stack_reachable n s" "\<forall>i < n. threads s ! i = Idle"
  shows "\<exists>xs. chain (heap s) (head s) xs \<and> dom (heap s) = fst ` set xs"
proof -
  obtain xs where inv: "stack_inv s xs" using stack_reachable_inv [OF assms(1)] by blast
  have "\<forall>l \<in> set (threads s). l = Idle"
    using assms(2) reachable_length [OF assms(1)] by (auto simp: in_set_conv_nth)
  from idle_nodes [OF inv this] show ?thesis using stack_invD(1) [OF inv] by blast
qed

lemma destruct_chain:
  assumes "i < length (threads s)" "threads s ! i = Idle" "chain (heap s) (head s) xs" "distinct (map fst xs)"
    and "fst (head s) < 2 ^ 31 - 1"
    and "\<And>a k nd. (a, k) \<in> set xs \<Longrightarrow> heap s a = Some nd \<Longrightarrow>
      internal_count nd = 1 - k \<and> node_data nd \<noteq> None \<and> fst (next_node nd) < 2 ^ 31 - 1"
  shows "\<exists>s'. destruct (Suc (length xs)) i s = Some s' \<and> heap s' = heap s |` (- (fst ` set xs))"
  using assms
proof (induction xs arbitrary: s)
  case Nil
  obtain e where "head s = (e, None)" "e \<noteq> 2 ^ 31 - 1" using Nil.prems(3,5) by (cases "head s") auto
  from pop_alone_empty [OF Nil.prems(1,2) this] show ?case by auto
next
  case (Cons x xs)
  obtain a k nd where x: "x = (a, k)" "head s = (k, Some a)" and nd: "heap s a = Some nd" "chain (heap s) (next_node nd) xs"
    using Cons.prems(3) by (cases x) auto
  have k: "k \<noteq> 2 ^ 31 - 1" "internal_count nd = 1 - k" "node_data nd \<noteq> None" "fst (next_node nd) < 2 ^ 31 - 1"
    using Cons.prems(5) Cons.prems(6) [of a k nd] x nd by auto
  from pop_alone_node [OF Cons.prems(1,2) x(2) k(1) nd(1) k(2)] obtain s1 where
    s1: "pop_alone i s = Some s1" "returned s1 = returned s @ [(i, node_data nd)]" "threads s1 = threads s"
      "heap s1 = (heap s)(a := None)" "head s1 = next_node nd" by blast
  have a: "a \<notin> fst ` set xs" using Cons.prems(4) by (simp add: x)
  have "chain (heap s1) (next_node nd) xs = chain (heap s) (next_node nd) xs"
    by (rule chain_cong) (use a in \<open>auto simp: s1\<close>)
  then have c: "chain (heap s1) (head s1) xs" using nd(2) by (simp add: s1(5))
  have ok: "internal_count n = 1 - j \<and> node_data n \<noteq> None \<and> fst (next_node n) < 2 ^ 31 - 1"
    if "(b, j) \<in> set xs" "heap s1 b = Some n" for b j n
    using Cons.prems(6) [of b j n] that by (auto simp: s1 split: if_splits)
  have "i < length (threads s1)" "threads s1 ! i = Idle" "distinct (map fst xs)" "fst (head s1) < 2 ^ 31 - 1"
    using Cons.prems(1,2,4) k(4) by (simp_all only: s1 list.map distinct.simps)
  then obtain s' where "destruct (Suc (length xs)) i s1 = Some s'" "heap s' = heap s1 |` (- (fst ` set xs))"
    using Cons.IH [of s1] c ok by metis
  moreover have "heap s1 |` (- (fst ` set xs)) = heap s |` (- (fst ` set (x # xs)))"
    by (auto simp: s1 x restrict_map_def)
  ultimately show ?case using s1(1,2) k(3) by (cases "node_data nd") auto
qed

text \<open>
  C38: The destructor ends and frees every node: when no thread is inside an operation, its loop
  makes one pop for each element the log of pushes and pops leaves on the stack and one that finds
  it empty, and then no node is left on the heap. Fewer than \<open>2 ^ 31 - 2\<close> pops raised a count.
\<close>

theorem destructor_frees_all:
  assumes "stack_reachable n s" "\<forall>i < n. threads s ! i = Idle" "0 < n" "raised s < 2 ^ 31 - 2" "spec_run (log s) [] = Some st"
  shows "\<exists>s'. destruct (Suc (length st)) 0 s = Some s' \<and> heap s' = Map.empty"
proof -
  obtain xs where inv: "stack_inv s xs" using stack_reachable_inv [OF assms(1)] by blast
  note D = stack_invD [OF inv]
  have idle: "\<forall>l \<in> set (threads s). l = Idle"
    using assms(2) reachable_length [OF assms(1)] by (auto simp: in_set_conv_nth)
  have small: "fst c < 2 ^ 31 - 1" if "c \<in> counts s" for c
    using counts_bounded [OF inv that] assms(4) by simp
  have ok: "internal_count nd = 1 - k \<and> node_data nd \<noteq> None \<and> fst (next_node nd) < 2 ^ 31 - 1"
    if "(a, k) \<in> set xs" "heap s a = Some nd" for a k nd
  proof -
    have "map_of xs a = Some k" using that(1) D(2) by simp
    moreover have "over (holding a) s = 0" by (rule over_idle) (use idle in auto)
    ultimately show ?thesis
      using address_cases(2) [OF inv that(2)] node_on_stack small [OF countsI(2) [OF that(2)]] by fastforce
  qed
  have t: "0 < length (threads s)" "threads s ! 0 = Idle" using assms(2,3) reachable_length [OF assms(1)] by simp_all
  obtain s' where s': "destruct (Suc (length xs)) 0 s = Some s'" "heap s' = heap s |` (- (fst ` set xs))"
    using destruct_chain [OF t D(1,2) small [OF countsI(1)]] ok by metis
  have "length xs = length st" using D(7) assms(5) by (metis length_map option.inject)
  moreover have "dom (heap s) = fst ` set xs" using idle_nodes [OF inv idle] by simp
  ultimately show ?thesis using s' by (intro exI [of _ s']) (auto simp: restrict_map_def fun_eq_iff dom_def)
qed

theorem destructor_frees_all_witness:
  "\<exists>s s'. stack_acts [0, 0] (push_new 3 (7 :: nat) 0 (CLockFreeStack 1)) = Some s \<and> heap s \<noteq> Map.empty \<and>
     destruct 2 0 s = Some s' \<and> heap s' = Map.empty"
proof -
  let ?p = "push_new 3 7 0 (CLockFreeStack 1) :: nat lf_stack"
  obtain s where s: "stack_acts [0, 0] ?p = Some s" "threads s = [Idle]" "raised s = 0" "log s = [Pushed 0 7]" "heap s 3 \<noteq> None"
    by (simp add: CLockFreeStack_def stack_defs)
  have "stack_reachable 1 ?p" by (rule sr_step [OF sr_init st_push]) (simp_all add: CLockFreeStack_def)
  then have r: "stack_reachable 1 s" by (rule stack_acts_reachable [OF s(1)])
  have "spec_run (log s) [] = Some [7]" by (simp add: s)
  moreover have "\<forall>i < 1. threads s ! i = Idle" "raised s < 2 ^ 31 - 2" by (simp_all add: s)
  moreover have "Suc (length [7 :: nat]) = 2" by simp
  ultimately obtain s' where "destruct 2 0 s = Some s'" "heap s' = Map.empty"
    using destructor_frees_all [OF r] by (metis less_one)
  then show ?thesis using s(1,5) by auto
qed

text \<open>
  Thread 0 pushes; both threads take hold of the node; thread 1 removes it, thread 0 fails and lets go,
  and meets the empty stack; thread 1, last to let go, frees the node.
\<close>

definition demo_run :: "nat \<Rightarrow> nat lf_stack option" where
  "demo_run k = Option.bind (stack_acts [0, 0] (push_new 3 7 0 (CLockFreeStack 2))) (\<lambda>s.
     stack_acts (take k [0, 1, 1, 0, 1, 1, 0, 0, 0, 1, 1, 0, 1]) (pop_load 1 (pop_load 0 s)))"

lemma replicate2: "replicate 2 x = [x, x]"
  by (simp add: numeral_2_eq_2)

lemma demo_reachable: "demo_run k = Some s \<Longrightarrow> stack_reachable 2 s"
proof -
  assume r: "demo_run k = Some s"
  have p: "stack_reachable 2 (push_new 3 7 0 (CLockFreeStack 2) :: nat lf_stack)"
    by (rule sr_step [OF sr_init st_push]) (simp_all add: CLockFreeStack_def)
  obtain s1 where s1: "stack_acts [0, 0] (push_new 3 7 0 (CLockFreeStack 2)) = Some (s1 :: nat lf_stack)"
    "threads s1 = [Idle, Idle]" "stack_acts (take k [0, 1, 1, 0, 1, 1, 0, 0, 0, 1, 1, 0, 1]) (pop_load 1 (pop_load 0 s1)) = Some s"
    using r by (simp add: demo_run_def CLockFreeStack_def push_new_def goto_def set_node_def stack_act_def push_load_def
      push_exchange_def at_node_def replicate2)
  have "stack_reachable 2 (pop_load 1 (pop_load 0 s1))"
    using stack_acts_reachable [OF s1(1) p] s1(2)
    by (intro sr_step [OF sr_step st_pop, OF _ st_pop]) (simp_all add: pop_load_def)
  then show ?thesis using stack_acts_reachable [OF s1(3)] by blast
qed

lemmas demo_defs = replicate2 demo_run_def CLockFreeStack_def stack_defs

lemma demo_end:
  "\<exists>s. demo_run 13 = Some s \<and> threads s = [Idle, Idle] \<and> heap s = Map.empty \<and> returned s = [(0, None), (1, Some 7)] \<and>
     log s = [Pushed 0 7, Popped 1 (Some 7), Popped 0 None]"
  by (simp add: demo_defs fun_eq_iff)

theorem stack_memory_safe_witness:
  "\<exists>s. demo_run 11 = Some s \<and> threads s ! 1 = Pop_free 3 (Return_data (Some 7)) \<and> stack_act False 1 s \<noteq> Some (Inl Undefined)"
proof -
  obtain s where s: "demo_run 11 = Some s" "raised s = 3" "threads s ! 1 = Pop_free 3 (Return_data (Some 7))"
    by (simp add: demo_defs)
  then show ?thesis using stack_memory_safe [OF demo_reachable [OF s(1)]] by auto
qed

theorem stack_linearizable_witness:
  "\<exists>s xs st. demo_run 13 = Some s \<and> chain (heap s) (head s) xs \<and> map (value_at (heap s)) xs = map Some st \<and>
     spec_run (log s) [] = Some st \<and> popped_by 1 (log s) = [Some 7] \<and> returned_by 1 s = [Some 7]"
proof -
  obtain s where s: "demo_run 13 = Some s" "threads s = [Idle, Idle]" "returned s = [(0, None), (1, Some 7)]"
    using demo_end by blast
  then show ?thesis
    using stack_linearizable [OF demo_reachable [OF s(1)]] by (fastforce simp: returned_by_def)
qed

theorem stack_frees_nodes_witness:
  "\<exists>s xs. demo_run 13 = Some s \<and> chain (heap s) (head s) xs \<and> dom (heap s) = fst ` set xs \<and> xs = []"
proof -
  obtain s where s: "demo_run 13 = Some s" "threads s = [Idle, Idle]" "heap s = Map.empty" using demo_end by blast
  have "\<forall>i < 2. threads s ! i = Idle" by (simp add: s(2) less_2_cases_iff)
  from stack_frees_nodes [OF demo_reachable [OF s(1)] this] s(1,3) show ?thesis by auto
qed

end
