(* ===== verification/Components.thy ===== *)
theory Components
  imports Console Services EventCtrl RpcSystem
begin

text \<open>
  The components of the service (src/code/service/compnets): what their \<open>initialise\<close>, \<open>start\<close> and
  \<open>stop\<close> do to the registry, the event bus, the log levels and the RPC server. The framework's
  trace of a start, stop or run is performed on this state. Each component is a shared library with
  globals of its own; sockets and the database are arguments or left out.
\<close>

subsection \<open>State\<close>

text \<open>
  The objects behind the services. The servers made are numbered; the registry and the component
  hold a number each, so that the registry keeps the server when the component lets go of it.
\<close>

datatype service_object = Cmd_service | Hello_service | Rpc_service nat

record ('m, 'w) rpc_server =
  serv_host :: string
  serv_port :: u16
  serv_threads :: u32
  serv_running :: bool
  m_mapCallbacks :: "('m, 'w) callbacks"

record ('m, 'w, 'd) world =
  services :: "service_object vec_registry"
  log_levels :: comp_loggers
  event_bus :: "'d event_ctrl"
  rpc_servers :: "('m, 'w) rpc_server list"
  g_rpcServer :: "nat option"
  g_althorProcesser :: bool
  m_pDemoHandler :: "cb option"
  next_cb :: cb

definition new_world :: "('m, 'w, 'd) world" where
  "new_world = \<lparr>services = VecServByIndex, log_levels = [], event_bus = CEventDealWithLock, rpc_servers = [],
     g_rpcServer = None, g_althorProcesser = False, m_pDemoHandler = None, next_cb = 0\<rparr>"

definition rpc_update :: "nat \<Rightarrow> (('m, 'w) rpc_server \<Rightarrow> ('m, 'w) rpc_server) \<Rightarrow> ('m, 'w, 'd) world \<Rightarrow> ('m, 'w, 'd) world" where
  "rpc_update n f x = x\<lparr>rpc_servers := (rpc_servers x)[n := f (rpc_servers x ! n)]\<rparr>"

text \<open>
  The part each \<open>initialise\<close> begins with. A level is cast to an enumeration of \<open>int\<close> unchecked; 5 is
  the level a logger is made with.
\<close>

definition config_level :: "'f json \<Rightarrow> int result" where
  "config_level jsonConfig =
     (if hasKey ''LogLevel'' jsonConfig
      then and_then (int_at ''LogLevel'' jsonConfig) (\<lambda>i. Inr (sint (ucast i :: u32))) else Inr 5)"

definition init_log :: "string \<Rightarrow> 'f json \<Rightarrow> ('m, 'w, 'd) world \<Rightarrow> ('m, 'w, 'd) world result" where
  "init_log name jsonConfig x =
     and_then (config_level jsonConfig) (\<lambda>level.
       Inr (x\<lparr>log_levels := addComponetLogWrapper name (Some level) (log_levels x)\<rparr>))"

subsection \<open>The RPC server component\<close>

definition CProtoServer :: "('m, 'w) rpc_server" where
  "CProtoServer = \<lparr>serv_host = [], serv_port = 0, serv_threads = 0, serv_running = False, m_mapCallbacks = []\<rparr>"

definition setConnectInfo :: "string \<Rightarrow> u16 \<Rightarrow> ('m, 'w) rpc_server \<Rightarrow> ('m, 'w) rpc_server" where
  "setConnectInfo strIP usPort sv = sv\<lparr>serv_host := strIP, serv_port := usPort\<rparr>"

text \<open>
  The number of threads in the configuration, compared as a \<open>long\<close> with the hardware's; it is only
  logged, the server gets \<open>hw\<close>.
\<close>

definition logged_threads :: "u32 \<Rightarrow> 'f json \<Rightarrow> u32 result" where
  "logged_threads hw jsonConfig =
     (if hasKey ''ServThreadNum'' jsonConfig
      then and_then (int_at ''ServThreadNum'' jsonConfig) (\<lambda>i. Inr (if i \<le>s ucast hw then ucast i else hw))
      else Inr hw)"

definition config_port :: "'f json \<Rightarrow> u16 result" where
  "config_port jsonConfig =
     (if hasKey ''ServPort'' jsonConfig
      then and_then (int_at ''ServPort'' jsonConfig) (\<lambda>i. Inr (ucast i)) else Inr 30020)"

definition rpc_initialise :: "u32 \<Rightarrow> 'f json \<Rightarrow> ('m, 'w, 'd) world \<Rightarrow> ('m, 'w, 'd) world result" where
  "rpc_initialise hw jsonConfig x =
     and_then (init_log ''ProtoRpcServer'' jsonConfig x) (\<lambda>x.
     and_then (config_port jsonConfig) (\<lambda>usPort.
     and_then (logged_threads hw jsonConfig) (\<lambda>_.
       let sv = (setConnectInfo ''0.0.0.0'' usPort CProtoServer)\<lparr>serv_threads := hw\<rparr>;
           n = length (rpc_servers x)
       in Inr (x\<lparr>rpc_servers := rpc_servers x @ [sv], g_rpcServer := Some n,
            services := Vec_registService IProtoRpcServer (Rpc_service n) (services x)\<rparr>))))"

text \<open>\<open>fd\<close> is the descriptor \<open>createSocket\<close> returns. Before \<open>initialise\<close> the pointer is null.\<close>

definition rpc_start :: "int \<Rightarrow> ('m, 'w, 'd) world \<Rightarrow> (bool \<times> ('m, 'w, 'd) world) result" where
  "rpc_start fd x =
     (case g_rpcServer x of
        None \<Rightarrow> Inl Undefined
      | Some n \<Rightarrow>
          if fd < 0 then Inr (False, x) else Inr (True, rpc_update n (\<lambda>sv. sv\<lparr>serv_running := True\<rparr>) x))"

definition rpc_stop :: "('m, 'w, 'd) world \<Rightarrow> ('m, 'w, 'd) world" where
  "rpc_stop x = x\<lparr>g_rpcServer := None\<rparr>"

subsection \<open>The authority component\<close>

text \<open>\<open>onLogin\<close> answers every request with the same response.\<close>

definition onLogin :: "'m \<Rightarrow> ('m, 'w) callback" where
  "onLogin response request w = (Some response, w)"

definition auth_initialise :: "'f json \<Rightarrow> ('m, 'w, 'd) world \<Rightarrow> ('m, 'w, 'd) world result" where
  "auth_initialise jsonConfig x = init_log ''AuthorityManager'' jsonConfig x"

definition auth_start :: "'m \<Rightarrow> ('m, 'w, 'd) world \<Rightarrow> (bool \<times> ('m, 'w, 'd) world) result" where
  "auth_start response x =
     (let x = x\<lparr>g_althorProcesser := True\<rparr>
      in and_then (Vec_getService IProtoRpcServer (services x)) (\<lambda>rpcDispatcher.
           case rpcDispatcher of
             Some (Rpc_service n) \<Rightarrow>
               Inr (True, rpc_update n (\<lambda>sv. sv\<lparr>m_mapCallbacks :=
                 registerMessageCallback login_type (onLogin response) (m_mapCallbacks sv)\<rparr>) x)
           | Some _ \<Rightarrow> Inl Undefined
           | None \<Rightarrow> Inr (False, x)))"

definition auth_stop :: "('m, 'w, 'd) world \<Rightarrow> ('m, 'w, 'd) world" where
  "auth_stop x = x\<lparr>g_althorProcesser := False\<rparr>"

subsection \<open>The demonstration and the controller\<close>

text \<open>
  The handler subscribes two functions to one topic and keeps the first; the pointer to the second
  is dropped at the end of the constructor, its place in the list taken by the moved-from first.
  \<open>f1\<close> and \<open>f2\<close> number the two functions; \<open>None\<close> waits for a bus at work.
\<close>

definition CHandlerDemo :: "cb \<Rightarrow> cb \<Rightarrow> 'd event_ctrl \<Rightarrow> 'd event_ctrl option" where
  "CHandlerDemo f1 f2 bus =
     Option.bind (addFunc ''info1'' f1 bus) (\<lambda>bus. map_option (release_callback f2) (addFunc ''info1'' f2 bus))"

text \<open>
  \<open>initialise\<close> makes a handler in place of one from an earlier call, then another that is destroyed
  at its end.
\<close>

definition demo_initialise :: "'f json \<Rightarrow> ('m, 'w, 'd) world \<Rightarrow> ('m, 'w, 'd) world option result" where
  "demo_initialise jsonConfig x =
     and_then (init_log ''ComponentDemo'' jsonConfig x) (\<lambda>x.
       let x = x\<lparr>services := Vec_registService IHelloService Hello_service (services x)\<rparr>; f = next_cb x
       in Inr (Option.bind (CHandlerDemo f (f + 1) (event_bus x)) (\<lambda>bus.
            let bus = (case m_pDemoHandler x of None \<Rightarrow> bus | Some g \<Rightarrow> release_callback g bus)
            in map_option (\<lambda>bus. x\<lparr>event_bus := release_callback (f + 2) bus, m_pDemoHandler := Some f, next_cb := f + 4\<rparr>)
              (CHandlerDemo (f + 2) (f + 3) bus))))"

definition ctrl_initialise :: "'f json \<Rightarrow> ('m, 'w, 'd) world \<Rightarrow> ('m, 'w, 'd) world result" where
  "ctrl_initialise jsonConfig x =
     and_then (init_log ''AppController'' jsonConfig x) (\<lambda>x.
       Inr (x\<lparr>services := Vec_registService ICmdService Cmd_service (services x)\<rparr>))"

subsection \<open>Performing a trace\<close>

text \<open>
  What the framework's calls do, by the component's name; components not known here change none
  of this state. What \<open>start\<close> returns is ignored, as the framework does. \<open>Inr None\<close> waits for the
  event bus.
\<close>

definition comp_init :: "u32 \<Rightarrow> string \<Rightarrow> 'f json \<Rightarrow> ('m, 'w, 'd) world \<Rightarrow> ('m, 'w, 'd) world option result" where
  "comp_init hw name v x =
     (if name = ''ProtoRpcServer'' then and_then (rpc_initialise hw v x) (\<lambda>x. Inr (Some x))
      else if name = ''AuthorityManager'' then and_then (auth_initialise v x) (\<lambda>x. Inr (Some x))
      else if name = ''ComponentDemo'' then demo_initialise v x
      else if name = ''AppController'' then and_then (ctrl_initialise v x) (\<lambda>x. Inr (Some x))
      else Inr (Some x))"

definition comp_begin :: "int \<Rightarrow> 'm \<Rightarrow> string \<Rightarrow> ('m, 'w, 'd) world \<Rightarrow> ('m, 'w, 'd) world result" where
  "comp_begin fd response name x =
     (if name = ''ProtoRpcServer'' then and_then (rpc_start fd x) (\<lambda>(_, x). Inr x)
      else if name = ''AuthorityManager'' then and_then (auth_start response x) (\<lambda>(_, x). Inr x)
      else Inr x)"

definition comp_stop :: "string \<Rightarrow> ('m, 'w, 'd) world \<Rightarrow> ('m, 'w, 'd) world" where
  "comp_stop name x =
     (if name = ''ProtoRpcServer'' then rpc_stop x
      else if name = ''AuthorityManager'' then auth_stop x
      else x)"

text \<open>
  The effects on the singletons and the bus's own start and stop belong to other theories. Clearing
  the services drops the registry's references; the server and the processor objects that this
  ends keep their last state in the lists here, where no operation reaches them any more.
\<close>

fun perform :: "u32 \<Rightarrow> int \<Rightarrow> 'm \<Rightarrow> 'f action list \<Rightarrow> ('m, 'w, 'd) world \<Rightarrow> ('m, 'w, 'd) world option result" where
  "perform hw fd response [] x = Inr (Some x)"
| "perform hw fd response (a # as) x =
     and_then
       (case a of
          A_init name v \<Rightarrow> comp_init hw name v x
        | A_start name \<Rightarrow> and_then (comp_begin fd response name x) (\<lambda>x. Inr (Some x))
        | A_stop name \<Rightarrow> Inr (Some (comp_stop name x))
        | A_services_clear \<Rightarrow> Inr (Some (x\<lparr>services := Vec_clear (services x)\<rparr>))
        | _ \<Rightarrow> Inr (Some x))
       (\<lambda>r. case r of None \<Rightarrow> Inr None | Some x \<Rightarrow> perform hw fd response as x)"

subsection \<open>What the components establish\<close>

definition ready_world :: "('m, 'w, 'd) world \<Rightarrow> bool" where
  "ready_world x \<longleftrightarrow> Vec_inv (services x) \<and> \<not> holds_mutexFunc (worker_at (event_bus x))"

text \<open>The server found in the registry is the component's own; what has been done to it.\<close>

definition serves :: "'m \<Rightarrow> bool \<Rightarrow> bool \<Rightarrow> nat \<Rightarrow> ('m, 'w, 'd) world \<Rightarrow> bool" where
  "serves response running login n x \<longleftrightarrow>
     n < length (rpc_servers x) \<and> g_rpcServer x = Some n \<and>
     Vec_getService IProtoRpcServer (services x) = Inr (Some (Rpc_service n)) \<and>
     serv_running (rpc_servers x ! n) = running \<and>
     m_mapCallbacks (rpc_servers x ! n) = (if login then [(login_type, onLogin response)] else [])"

lemma perform_append:
  "perform hw fd response (as @ bs) x =
     and_then (perform hw fd response as x) (\<lambda>r. case r of None \<Rightarrow> Inr None | Some x \<Rightarrow> perform hw fd response bs x)"
  by (induction as arbitrary: x) (auto simp: and_then_def split: sum.splits option.splits)

lemma perform_then:
  "perform hw fd response as x = Inr (Some x') \<Longrightarrow> perform hw fd response (as @ bs) x = perform hw fd response bs x'"
  by (simp add: perform_append)

lemmas vec_facts = by_index.inv_regist by_index.get_regist by_index.get_other

lemma addFunc_free: "\<not> holds_mutexFunc (worker_at bus) \<Longrightarrow>
  \<exists>bus'. addFunc topic f bus = Some bus' \<and> worker_at bus' = worker_at bus \<and> alive bus' = insert f (alive bus)"
  by (simp add: addFunc_def)

lemma CHandlerDemo_free:
  assumes "\<not> holds_mutexFunc (worker_at bus)"
  shows "\<exists>bus'. CHandlerDemo f1 f2 bus = Some bus' \<and> worker_at bus' = worker_at bus"
  using assms by (simp add: CHandlerDemo_def addFunc_def release_callback_def)

text \<open>The settings are read only after a test of their keys, so no reading throws.\<close>

lemma int_at_present: "hasKey k v \<Longrightarrow> \<exists>i. int_at k v = Inr i"
  by (auto simp: int_at_def at_key_def hasKey_def of_option_def split: json.splits option.splits)

lemma settings_total: "\<exists>l. config_level v = Inr l" "\<exists>p. config_port v = Inr p" "\<exists>n. logged_threads hw v = Inr n"
  using int_at_present [of "''LogLevel''" v] int_at_present [of "''ServPort''" v] int_at_present [of "''ServThreadNum''" v]
  by (auto simp: config_level_def config_port_def logged_threads_def)

lemma init_log_total: "\<exists>l. init_log name v x = Inr (x\<lparr>log_levels := addComponetLogWrapper name (Some l) (log_levels x)\<rparr>)"
  using settings_total(1) [of v] by (auto simp: init_log_def)

lemma rpc_initialise_ready:
  assumes "ready_world x"
  shows "\<exists>x'. rpc_initialise hw v x = Inr x' \<and> ready_world x' \<and> serves response False False (length (rpc_servers x)) x'"
proof -
  obtain level port t where "config_level v = Inr level" "config_port v = Inr port" "logged_threads hw v = Inr t"
    using settings_total by blast
  then show ?thesis
    using assms by (simp add: rpc_initialise_def init_log_def Let_def ready_world_def serves_def vec_facts
      CProtoServer_def setConnectInfo_def nth_append)
qed

text \<open>The configured number of threads has no effect.\<close>

lemma rpc_threads: "rpc_initialise hw v x = Inr x' \<Longrightarrow> serv_threads (last (rpc_servers x')) = hw"
  by (auto simp: rpc_initialise_def init_log_def and_then_eq_Inr Let_def)

text \<open>The other components leave the server alone.\<close>

definition leaves_server :: "('m, 'w, 'd) world \<Rightarrow> ('m, 'w, 'd) world \<Rightarrow> bool" where
  "leaves_server x x' \<longleftrightarrow> ready_world x' \<and> rpc_servers x' = rpc_servers x \<and> g_rpcServer x' = g_rpcServer x \<and>
     Vec_getService IProtoRpcServer (services x') = Vec_getService IProtoRpcServer (services x)"

lemma leaves_serves: "leaves_server x x' \<Longrightarrow> serves response a b n x' = serves response a b n x"
  by (simp add: leaves_server_def serves_def)

lemma auth_initialise_ready:
  "ready_world x \<Longrightarrow> \<exists>x'. auth_initialise v x = Inr x' \<and> leaves_server x x'"
  using init_log_total [of "''AuthorityManager''" v x] by (auto simp: auth_initialise_def leaves_server_def ready_world_def)

lemma ctrl_initialise_ready:
  "ready_world x \<Longrightarrow> \<exists>x'. ctrl_initialise v x = Inr x' \<and> leaves_server x x'"
  using init_log_total [of "''AppController''" v x]
  by (auto simp: ctrl_initialise_def leaves_server_def ready_world_def vec_facts)

lemma demo_initialise_ready:
  assumes x: "ready_world x"
  shows "\<exists>x'. demo_initialise v x = Inr (Some x') \<and> leaves_server x x'"
proof -
  obtain level where l: "config_level v = Inr level" using settings_total(1) by blast
  let ?f = "next_cb x"
  obtain bus where b: "CHandlerDemo ?f (?f + 1) (event_bus x) = Some bus" "worker_at bus = worker_at (event_bus x)"
    using CHandlerDemo_free x unfolding ready_world_def by blast
  let ?bus = "case m_pDemoHandler x of None \<Rightarrow> bus | Some g \<Rightarrow> release_callback g bus"
  have w: "worker_at ?bus = worker_at bus" by (simp add: release_callback_def split: option.split)
  obtain bus' where b': "CHandlerDemo (?f + 2) (?f + 3) ?bus = Some bus'" "worker_at bus' = worker_at ?bus"
    using CHandlerDemo_free x b(2) w unfolding ready_world_def by metis
  show ?thesis
    using x b' b w by (simp add: demo_initialise_def init_log_def l Let_def leaves_server_def ready_world_def vec_facts
      release_callback_def)
qed

lemma comp_init_ready:
  assumes x: "ready_world x"
  shows "\<exists>x'. comp_init hw name v x = Inr (Some x') \<and> ready_world x' \<and>
    (if name = ''ProtoRpcServer'' then \<exists>n. serves response False False n x' else leaves_server x x')"
proof -
  consider "name = ''ProtoRpcServer''" | "name = ''AuthorityManager''" | "name = ''ComponentDemo''"
    | "name = ''AppController''" | "name \<notin> {''ProtoRpcServer'', ''AuthorityManager'', ''ComponentDemo'', ''AppController''}"
    by blast
  then show ?thesis
  proof cases
    case 1
    with rpc_initialise_ready [OF x, of hw v response] show ?thesis by (auto simp: comp_init_def)
  next
    case 2
    with auth_initialise_ready [OF x, of v] show ?thesis by (auto simp: comp_init_def leaves_server_def)
  next
    case 3
    with demo_initialise_ready [OF x, of v] show ?thesis by (auto simp: comp_init_def leaves_server_def)
  next
    case 4
    with ctrl_initialise_ready [OF x, of v] show ?thesis by (auto simp: comp_init_def leaves_server_def)
  next
    case 5
    then show ?thesis using x by (simp add: comp_init_def leaves_server_def)
  qed
qed

lemma perform_inits:
  fixes x :: "('m, 'w, 'd) world" and ps :: "(string \<times> 'f json) list"
  assumes "ready_world x" "''ProtoRpcServer'' \<in> fst ` set ps \<or> (\<exists>n. serves response False False n x)"
  shows "\<exists>x' n. perform hw fd response (map (\<lambda>(name, v). A_init name v) ps) x = Inr (Some x') \<and> ready_world x' \<and>
    serves response False False n x'"
  using assms
proof (induction ps arbitrary: x)
  case Nil
  then show ?case by simp
next
  case (Cons p ps)
  obtain name v where p: "p = (name, v)" by (cases p)
  obtain x1 where x1: "comp_init hw name v x = Inr (Some x1)" "ready_world x1"
    "if name = ''ProtoRpcServer'' then \<exists>n. serves response False False n x1 else leaves_server x x1"
    using comp_init_ready [OF Cons.prems(1)] by blast
  have "''ProtoRpcServer'' \<in> fst ` set ps \<or> (\<exists>n. serves response False False n x1)"
    using Cons.prems(2) x1(3) leaves_serves [of x x1] p by (cases "name = ''ProtoRpcServer''") auto
  then show ?case using Cons.IH [OF x1(2)] x1(1) p by simp
qed

lemma comp_begin_serves:
  assumes "ready_world x" "serves response a b n x" "0 \<le> fd"
  shows "\<exists>x'. comp_begin fd response name x = Inr x' \<and> ready_world x' \<and>
    serves response (a \<or> name = ''ProtoRpcServer'') (b \<or> name = ''AuthorityManager'') n x'"
proof -
  consider "name = ''ProtoRpcServer''" | "name = ''AuthorityManager''"
    | "name \<notin> {''ProtoRpcServer'', ''AuthorityManager''}" by blast
  then show ?thesis
    using assms by cases (auto simp: comp_begin_def rpc_start_def auth_start_def serves_def ready_world_def rpc_update_def
      registerMessageCallback_def Let_def)
qed

lemma perform_starts:
  assumes "ready_world x" "serves response a b n x" "0 \<le> fd"
  shows "\<exists>x'. perform hw fd response (map A_start names :: 'f action list) x = Inr (Some x') \<and>
    serves response (a \<or> ''ProtoRpcServer'' \<in> set names) (b \<or> ''AuthorityManager'' \<in> set names) n x'"
  using assms
proof (induction names arbitrary: x a b)
  case Nil
  then show ?case by simp
next
  case (Cons name names)
  obtain x1 where x1: "comp_begin fd response name x = Inr x1" "ready_world x1"
    "serves response (a \<or> name = ''ProtoRpcServer'') (b \<or> name = ''AuthorityManager'') n x1"
    using comp_begin_serves [OF Cons.prems] by blast
  from Cons.IH [OF x1(2,3) Cons.prems(3)] x1(1) show ?case by (auto simp: disj_assoc eq_commute [of name])
qed

subsection \<open>What a start achieves\<close>

definition untouching :: "'f action \<Rightarrow> bool" where
  "untouching a \<longleftrightarrow> (case a of A_init _ _ \<Rightarrow> False | A_start _ \<Rightarrow> False | A_stop _ \<Rightarrow> False | A_services_clear \<Rightarrow> False | _ \<Rightarrow> True)"

lemma perform_untouching: "list_all untouching as \<Longrightarrow> perform hw fd response as x = Inr (Some x)"
proof (induction as)
  case (Cons a as)
  then show ?case by (cases a) (simp_all add: untouching_def)
qed simp

lemma perform_start:
  fixes s' :: "'f framework"
  assumes start: "framework_start fl env strCfg CCompFramework = Inr (True, s')"
    and order: "set (env_order env (m_mapComponents s')) = set (m_mapComponents s')"
    and loaded: "{''ProtoRpcServer'', ''AuthorityManager''} \<subseteq> getName ` set (m_mapComponents s')"
    and conf: "\<forall>root. load_from_file fl (env_files env) (env_path env @ ''config/'' @ strCfg @ ''.json'') JNull = Inr ([], root)
      \<longrightarrow> hasKey ''ProtoRpcServer'' (fst (get_key fl ''Components'' root))"
    and fd: "0 \<le> fd"
  shows "\<exists>(x :: ('m, 'w, 'd) world) n. perform hw fd response (acts s') new_world = Inr (Some x) \<and> serves response True True n x"
proof -
  obtain root l c m p where load: "load_from_file fl (env_files env) (env_path env @ ''config/'' @ strCfg @ ''.json'') JNull = Inr ([], root)"
    and "logger_config fl root = Inr l" "cache_config fl ''ChunkAllocator'' root = Inr c"
      "cache_config fl ''SmallAllocator'' root = Inr m" "pool_config fl root = Inr p"
    and st: "start_components fl env root (act (A_thread_pool p) (act (A_small_allocator m) (act (A_chunk_allocator c)
      (act (A_logger l) (CCompFramework :: 'f framework))))) = Inr (True, s')"
    by (rule framework_start_cases [OF start])
  let ?c = "fst (get_key fl ''Components'' root)"
  define cs where "cs = env_order env (m_mapComponents s')"
  define ps where "ps = map (\<lambda>c. (getName c, fst (get_key fl (getName c) ?c))) (filter (\<lambda>c. hasKey (getName c) ?c) cs)"
  define opens :: "'f action list" where "opens = map A_open (libraries env ?c)"
  define s0 :: "'f framework" where "s0 = act (A_thread_pool p) (act (A_small_allocator m) (act (A_chunk_allocator c) (act (A_logger l) CCompFramework)))"
  have acts0: "acts s0 = [A_logger l, A_chunk_allocator c, A_small_allocator m, A_thread_pool p]"
    by (simp add: s0_def CCompFramework_def)
  note st' = st [folded s0_def]
  define server :: "'f action list" where "server = (if env_server env \<and> \<not> ptrLicenseCtrl s0
    then [A_license (env_path env @ ''config/'') (env_name env), A_cmd_thread] else [])"
  have tr: "acts s' = (acts s0 @ A_event_start # opens) @ map (\<lambda>(name, v). A_init name v) ps @
      map A_start (map getName cs) @ A_subscribe ''stop'' # server"
    using start_components_state(1,2) [OF st'] unfolding cs_def opens_def server_def
    by (simp add: ps_def cs_def comp_def)
  have quiet: "list_all untouching (acts s0 @ A_event_start # opens)"
    "list_all untouching (A_subscribe ''stop'' # server)"
    by (auto simp: untouching_def opens_def list_all_iff acts0 server_def)
  have "''ProtoRpcServer'' \<in> fst ` set ps"
  proof -
    obtain c where "c \<in> set cs" "getName c = ''ProtoRpcServer''" using loaded order unfolding cs_def by auto
    then show ?thesis using conf load unfolding ps_def by (force simp: image_iff)
  qed
  moreover have "ready_world (new_world :: ('m, 'w, 'd) world)"
    by (simp add: ready_world_def new_world_def by_index.inv_empty CEventDealWithLock_def holds_mutexFunc_def)
  ultimately obtain x1 :: "('m, 'w, 'd) world" and n where x1: "perform hw fd response (map (\<lambda>(name, v). A_init name v) ps) new_world = Inr (Some x1)"
    "ready_world x1" "serves response False False n x1"
    using perform_inits [of new_world ps response hw fd] by blast
  have names: "{''ProtoRpcServer'', ''AuthorityManager''} \<subseteq> set (map getName cs)"
    using loaded order by (simp add: cs_def)
  obtain x2 :: "('m, 'w, 'd) world" where x2: "perform hw fd response (map A_start (map getName cs) :: 'f action list) x1 = Inr (Some x2)"
    "serves response True True n x2"
    using perform_starts [OF x1(2,3) fd, of hw "map getName cs"] names by auto
  show ?thesis
    unfolding tr perform_then [OF perform_untouching [OF quiet(1)]] perform_then [OF x1(1)] perform_then [OF x2(1)]
      perform_untouching [OF quiet(2)] using x2(2) by blast
qed

subsection \<open>Properties\<close>

text \<open>
  C11: A start of the framework makes logins work: when the configuration names the RPC server and the
  server's and the authority component's libraries were loaded, then after a successful start the
  registered server runs and any login request it receives is answered under its number, the
  connection being logged in from then on. That is every login, whatever its content: \<open>onLogin\<close>
  never fails, although the comment at \<^verbatim>\<open>CAlthorityProcessor.cpp:17\<close> says that a failed login
  returns a null pointer; the authority component checks nothing. The order in which the
  framework visits the components, which is that of an unordered map, does not matter.
\<close>

theorem start_enables_login:
  fixes s' :: "'f framework" and response :: 'm
  assumes "framework_start fl env strCfg CCompFramework = Inr (True, s')"
    and "set (env_order env (m_mapComponents s')) = set (m_mapComponents s')"
    and "{''ProtoRpcServer'', ''AuthorityManager''} \<subseteq> getName ` set (m_mapComponents s')"
    and "\<forall>root. load_from_file fl (env_files env) (env_path env @ ''config/'' @ strCfg @ ''.json'') JNull = Inr ([], root)
      \<longrightarrow> hasKey ''ProtoRpcServer'' (fst (get_key fl ''Components'' root))"
    and "0 \<le> fd" "pb_wire_ok pb response"
  shows "\<exists>(x :: ('m, 'w, 'd) world) n. perform hw fd response (acts s') new_world = Inr (Some x) \<and>
    Vec_getService IProtoRpcServer (services x) = Inr (Some (Rpc_service n)) \<and> serv_running (rpc_servers x ! n) \<and>
    (\<forall>b seq req ch w. rpc_decode host pb b = Inr (seq, req) \<and> pb_type_name pb req = login_type \<longrightarrow>
      (\<exists>out. onDealMessage host pb (m_mapCallbacks (rpc_servers x ! n)) b ch w
          = Inr (channel_write out (ch\<lparr>clientState := True\<rparr>), w) \<and>
        rpc_decode host pb out = Inr (seq, response)))"
proof -
  obtain x :: "('m, 'w, 'd) world" and n where x: "perform hw fd response (acts s') new_world = Inr (Some x)"
    "serves response True True n x"
    using perform_start [OF assms(1-5), of hw response] by blast
  have "\<exists>out. onDealMessage host pb (m_mapCallbacks (rpc_servers x ! n)) b ch w
      = Inr (channel_write out (ch\<lparr>clientState := True\<rparr>), w) \<and> rpc_decode host pb out = Inr (seq, response)"
    if "rpc_decode host pb b = Inr (seq, req)" "pb_type_name pb req = login_type" for b seq req ch w
  proof -
    have "dealProtobufMessage pb (m_mapCallbacks (rpc_servers x ! n)) req w = (Some response, w)"
      using x(2) that(2) by (simp add: serves_def dealProtobufMessage_def onLogin_def)
    from server_answers [OF that(1) this assms(6), of ch] that(2) show ?thesis by metis
  qed
  then show ?thesis using x by (auto simp: serves_def)
qed

lemma perform_stops:
  "\<exists>x'. perform hw fd response (map A_stop names :: 'f action list) x = Inr (Some x') \<and>
     (''ProtoRpcServer'' \<in> set names \<or> g_rpcServer x = None \<longrightarrow> g_rpcServer x' = None) \<and>
     (''AuthorityManager'' \<in> set names \<or> \<not> g_althorProcesser x \<longrightarrow> \<not> g_althorProcesser x') \<and> rpc_servers x' = rpc_servers x"
proof (induction names arbitrary: x)
  case Nil
  then show ?case by simp
next
  case (Cons name names)
  from Cons.IH [of "comp_stop name x"] show ?case
    by (auto simp: comp_stop_def rpc_stop_def auth_stop_def split: if_splits)
qed

lemma foldl_act: "acts (foldl (\<lambda>s c. act (f c) s) s cs) = acts s @ map f cs"
  by (induction cs arbitrary: s) simp_all

lemma framework_stop_acts:
  "\<exists>rest. acts (framework_stop env s) = acts s @ A_event_stop # map A_stop (map getName (env_order env (m_mapComponents s))) @
     A_services_clear # rest \<and> list_all untouching rest"
  by (simp add: framework_stop_def Let_def foldl_act DataFrame_clear_def comp_def untouching_def list_all_iff)

lemma Vec_get_clear: "Vec_getService T (Vec_clear r) = Inr None"
  by (auto simp: Vec_getService_def Vec_clear_def Let_def)

text \<open>
  C36: A stop undoes it: whatever the components did, after the trace of a stop no service is found in
  the registry and the components stopped hold no server and no processor.
\<close>

theorem stop_withdraws_services:
  fixes x :: "('m, 'w, 'd) world" and s :: "'f framework"
  assumes "perform hw fd response (acts s) new_world = Inr (Some x)"
    and "set (env_order env (m_mapComponents s)) = set (m_mapComponents s)"
  shows "\<exists>x' :: ('m, 'w, 'd) world. perform hw fd response (acts (framework_stop env s)) new_world = Inr (Some x') \<and>
    (\<forall>T. Vec_getService T (services x') = Inr None) \<and> rpc_servers x' = rpc_servers x \<and>
    (''ProtoRpcServer'' \<in> getName ` set (m_mapComponents s) \<longrightarrow> g_rpcServer x' = None) \<and>
    (''AuthorityManager'' \<in> getName ` set (m_mapComponents s) \<longrightarrow> \<not> g_althorProcesser x')"
proof -
  let ?names = "map getName (env_order env (m_mapComponents s))"
  obtain rest where r: "acts (framework_stop env s) = acts s @ A_event_stop # map A_stop ?names @ A_services_clear # rest"
    "list_all untouching rest" using framework_stop_acts by blast
  obtain x1 where x1: "perform hw fd response (map A_stop ?names :: 'f action list) x = Inr (Some x1)"
    "''ProtoRpcServer'' \<in> set ?names \<longrightarrow> g_rpcServer x1 = None"
    "''AuthorityManager'' \<in> set ?names \<longrightarrow> \<not> g_althorProcesser x1" "rpc_servers x1 = rpc_servers x"
    using perform_stops [of hw fd response ?names x] by blast
  let ?x = "x1\<lparr>services := Vec_clear (services x1)\<rparr>"
  have "perform hw fd response (acts (framework_stop env s)) new_world = Inr (Some ?x)"
    unfolding r(1) perform_then [OF assms(1)]
    by (simp add: perform_then [OF x1(1)] perform_untouching [OF r(2)] del: map_map)
  moreover have "set ?names = getName ` set (m_mapComponents s)" using assms(2) by simp
  ultimately show ?thesis using x1(2-4) by (rule_tac exI [where x = ?x]) (simp add: Vec_get_clear)
qed

subsection \<open>The demonstration's second function\<close>

text \<open>Steps of the bus in which no new callback gets the number \<open>f\<close>.\<close>

inductive steps_without :: "cb \<Rightarrow> ('d \<Rightarrow> string) \<Rightarrow> 'd event_ctrl \<Rightarrow> 'd event_ctrl \<Rightarrow> bool" for f topicOf where
  sw_refl: "steps_without f topicOf s s"
| sw_step: "steps_without f topicOf s s' \<Longrightarrow> event_step topicOf s' s'' \<Longrightarrow> (f \<in> alive s'' \<longrightarrow> f \<in> alive s') \<Longrightarrow>
    steps_without f topicOf s s''"

lemma worker_calls_alive:
  "dealEventData s = Some s' \<Longrightarrow> f \<notin> alive s \<Longrightarrow> filter (\<lambda>c. fst c = f) (called s') = filter (\<lambda>c. fst c = f) (called s)"
  by (cases "worker_at s") (auto simp: dealEventData_def split: list.splits option.splits if_splits)

lemma expired_not_called:
  assumes "steps_without f topicOf s s'" "f \<notin> alive s"
  shows "f \<notin> alive s' \<and> filter (\<lambda>c. fst c = f) (called s') = filter (\<lambda>c. fst c = f) (called s)"
  using assms
proof (induction rule: steps_without.induct)
  case (sw_step s s' s'')
  then have f: "f \<notin> alive s'" "filter (\<lambda>c. fst c = f) (called s') = filter (\<lambda>c. fst c = f) (called s)" by auto
  from sw_step.hyps(2) show ?case
    using f sw_step.hyps(3) by cases
      (auto simp: worker_calls_alive start_def addFunc_def addEvenVartData_def release_callback_def stop_request_def
        clear_data_def clear_funcs_def Let_def split: if_splits)
qed simp

text \<open>
  The demonstration's second function is never called: its handler subscribes it and drops the only
  owning pointer in the constructor, so that whatever happens on the bus afterwards, events of the
  topic included, the bus finds it expired; only the first function may be called.
\<close>

theorem second_function_silent:
  assumes "CHandlerDemo f1 f2 bus = Some bus'" "steps_without f2 topicOf bus' s" "f1 \<noteq> f2"
  shows "f1 \<in> alive bus' \<and> (''info1'', f2) \<in> set (registered bus') \<and>
    filter (\<lambda>c. fst c = f2) (called s) = filter (\<lambda>c. fst c = f2) (called bus)"
proof -
  have b: "f2 \<notin> alive bus'" "called bus' = called bus" "f1 \<in> alive bus'" "(''info1'', f2) \<in> set (registered bus')"
    using assms(1,3) by (auto simp: CHandlerDemo_def addFunc_def release_callback_def split: if_splits bind_splits)
  from expired_not_called [OF assms(2) b(1)] b show ?thesis by simp
qed

subsection \<open>Witnesses\<close>

definition service_config :: "unit json" where
  "service_config = JObject [(''Components'', JObject [
     (''AuthorityManager'', JObject [(''Enable'', JBoolean True)]),
     (''ProtoRpcServer'', JObject [(''Enable'', JBoolean True), (''ServPort'', JIntegral 30021)])])]"

definition service_component :: "string \<Rightarrow> unit component" where
  "service_component name = \<lparr>getName = name, comp_initialise = (\<lambda>_. Inr True), comp_start = Inr True\<rparr>"

definition service_env :: "string \<Rightarrow> unit environment" where
  "service_env t = \<lparr>env_files = [''/config/app.json'' \<mapsto> t], env_path = ''/'', env_name = ''app'',
     env_dlopen = (\<lambda>p. if p = ''/component/libProtoRpcServer.so'' then Some [service_component ''ProtoRpcServer'']
       else if p = ''/component/libAuthorityManager.so'' then Some [service_component ''AuthorityManager''] else None),
     env_order = rev, env_handles = (\<lambda>hs. hs), env_server = True\<rparr>"

lemma service_loadable: "loadable service_config"
  using plain_key [of "''Components''"] plain_key [of "''AuthorityManager''"] plain_key [of "''ProtoRpcServer''"]
    plain_key [of "''Enable''"] plain_key [of "''ServPort''"]
  by (simp add: service_config_def json_escape_def escape_char_def chr_defs)


lemma service_start:
  assumes "t = dumpFast no_floats service_config"
  shows "\<exists>s'. framework_start no_floats (service_env t) ''app'' CCompFramework = Inr (True, s') \<and>
    m_mapComponents s' = [service_component ''AuthorityManager'', service_component ''ProtoRpcServer''] \<and>
    load_from_file no_floats (env_files (service_env t)) (env_path (service_env t) @ ''config/'' @ ''app'' @ ''.json'') JNull
      = Inr ([], service_config)"
proof -
  have "JsonParse.load no_floats t JNull = Inr ([], service_config)"
    unfolding assms by (rule load_text [OF dumpFast_jtext [OF service_loadable]]) (simp add: service_config_def)
  then have l: "load_from_file no_floats (env_files (service_env t)) ''/config/app.json'' JNull = Inr ([], service_config)"
    by (simp add: load_from_file_def service_env_def)
  have p: "env_path (service_env t) @ ''config/'' @ ''app'' @ ''.json'' = ''/config/app.json''"
    by (simp add: service_env_def)
  show ?thesis unfolding framework_start_def p l
    by (simp add: service_env_def service_config_def service_component_def CCompFramework_def init_singletons_def
      logger_config_def cache_config_def pool_config_def section_at_def hasKey_def start_components_def
      get_key_def SetType_def ObjectRange_def open_component_def bool_at_def at_key_def ToBool_def
      addComponent_def start_server_state Let_def act_def)
qed

theorem start_enables_login_witness:
  "\<exists>s' (x :: (byte list, nat, unit) world) n b out.
     framework_start no_floats (service_env (dumpFast no_floats service_config)) ''app'' CCompFramework = Inr (True, s') \<and>
     perform 8 3 [8] (acts s') new_world = Inr (Some x) \<and> serv_running (rpc_servers x ! n) \<and>
     rpc_encode LITTLE login_pb (1, [7]) = Inr b \<and>
     onDealMessage LITTLE login_pb (m_mapCallbacks (rpc_servers x ! n)) b new_channel 0 =
       Inr (channel_write out (new_channel\<lparr>clientState := True\<rparr>), 0) \<and>
     rpc_decode LITTLE login_pb out = Inr (1, [8])"
proof -
  let ?t = "dumpFast no_floats service_config"
  obtain s' where s': "framework_start no_floats (service_env ?t) ''app'' CCompFramework = Inr (True, s')"
    "m_mapComponents s' = [service_component ''AuthorityManager'', service_component ''ProtoRpcServer'']"
    and load: "load_from_file no_floats (env_files (service_env ?t)) (env_path (service_env ?t) @ ''config/'' @ ''app'' @ ''.json'') JNull
      = Inr ([], service_config)"
    using service_start [of ?t] by blast
  obtain b where b: "rpc_encode LITTLE login_pb (1, [7]) = Inr b"
    using rpc.enc_total [of login_pb "(1, [7])" LITTLE] login_pb_ok [of "[7]"] by auto
  have d: "rpc_decode LITTLE login_pb b = Inr (1, [7])"
    using rpc.dec_enc [of login_pb "(1, [7])" LITTLE b] login_pb_ok [of "[7]"] b by simp
  have "set (env_order (service_env ?t) (m_mapComponents s')) = set (m_mapComponents s')"
    "{''ProtoRpcServer'', ''AuthorityManager''} \<subseteq> getName ` set (m_mapComponents s')"
    by (simp_all add: service_env_def service_component_def s'(2) insert_commute)
  moreover have "\<forall>root. load_from_file no_floats (env_files (service_env ?t)) (env_path (service_env ?t) @ ''config/'' @ ''app'' @ ''.json'') JNull
      = Inr ([], root) \<longrightarrow> hasKey ''ProtoRpcServer'' (fst (get_key no_floats ''Components'' root))"
    using load by (simp add: service_config_def get_key_def SetType_def hasKey_def)
  moreover have "pb_wire_ok login_pb [8]" using login_pb_ok [of "[8]"] by simp
  ultimately obtain x :: "(byte list, nat, unit) world" and n where
    "perform 8 3 [8] (acts s') new_world = Inr (Some x)" "serv_running (rpc_servers x ! n)"
    "\<forall>b seq req ch w. rpc_decode LITTLE login_pb b = Inr (seq, req) \<and> pb_type_name login_pb req = login_type \<longrightarrow>
      (\<exists>out. onDealMessage LITTLE login_pb (m_mapCallbacks (rpc_servers x ! n)) b ch w
          = Inr (channel_write out (ch\<lparr>clientState := True\<rparr>), w) \<and> rpc_decode LITTLE login_pb out = Inr (seq, [8]))"
    using start_enables_login [OF s'(1), of 3 login_pb "[8]" 8 LITTLE] by auto
  moreover have "pb_type_name login_pb [7] = login_type" by (simp add: login_pb_def)
  ultimately show ?thesis using s'(1) b d by metis
qed

theorem stop_withdraws_services_witness:
  "\<exists>s' (x :: (byte list, nat, unit) world).
     framework_start no_floats (service_env (dumpFast no_floats service_config)) ''app'' CCompFramework = Inr (True, s') \<and>
     perform 8 3 [8] (acts (framework_stop (service_env (dumpFast no_floats service_config)) s')) new_world = Inr (Some x) \<and>
     Vec_getService IProtoRpcServer (services x) = Inr None \<and> g_rpcServer x = None"
proof -
  let ?t = "dumpFast no_floats service_config"
  obtain s' where s': "framework_start no_floats (service_env ?t) ''app'' CCompFramework = Inr (True, s')"
    "m_mapComponents s' = [service_component ''AuthorityManager'', service_component ''ProtoRpcServer'']"
    and load: "load_from_file no_floats (env_files (service_env ?t)) (env_path (service_env ?t) @ ''config/'' @ ''app'' @ ''.json'') JNull
      = Inr ([], service_config)"
    using service_start [of ?t] by blast
  have order: "set (env_order (service_env ?t) (m_mapComponents s')) = set (m_mapComponents s')"
    and names: "{''ProtoRpcServer'', ''AuthorityManager''} \<subseteq> getName ` set (m_mapComponents s')"
    by (simp_all add: service_env_def service_component_def s'(2) insert_commute)
  have conf: "\<forall>root. load_from_file no_floats (env_files (service_env ?t)) (env_path (service_env ?t) @ ''config/'' @ ''app'' @ ''.json'') JNull
      = Inr ([], root) \<longrightarrow> hasKey ''ProtoRpcServer'' (fst (get_key no_floats ''Components'' root))"
    using load by (simp add: service_config_def get_key_def SetType_def hasKey_def)
  obtain x :: "(byte list, nat, unit) world" where "perform 8 3 [8] (acts s') new_world = Inr (Some x)"
    using perform_start [OF s'(1) order names conf, of 3 8 "[8]"] by auto
  from stop_withdraws_services [OF this order] names s'(1) show ?thesis by auto
qed

theorem second_function_silent_witness:
  "\<exists>bus s. CHandlerDemo 0 (Suc 0) CEventDealWithLock = Some bus \<and> steps_without (Suc 0) id bus s \<and>
     m_queueAddData s = [(''info1'', ''info1'')] \<and> filter (\<lambda>c. fst c = Suc 0) (called s) = []"
proof -
  obtain bus where bus: "CHandlerDemo 0 (Suc 0) (CEventDealWithLock :: string event_ctrl) = Some bus"
    "m_queueAddData bus = []"
    by (simp add: CHandlerDemo_def addFunc_def CEventDealWithLock_def holds_mutexFunc_def release_callback_def)
  let ?s = "addEvenVartData id ''info1'' bus"
  have s: "steps_without (Suc 0) id bus ?s"
    by (rule sw_step [OF sw_refl ev_addEvent]) (simp add: addEvenVartData_def Let_def)
  from second_function_silent [OF bus(1) s] bus s show ?thesis
    by (intro exI [of _ bus] exI [of _ ?s]) (simp add: addEvenVartData_def Let_def CEventDealWithLock_def)
qed

end
