(* ===== verification/UtilFunc.thy ===== *)
theory UtilFunc
  imports Prelude
begin

text \<open>
  The utility functions (src/code/common/source/util/UtilFunc.cpp, FileOperator.cpp), as built for
  Linux. What the operating system answers is an argument: the target of the link of the process,
  the result of \<open>iconv\<close>, of \<open>cpuid\<close>, of \<open>localtime\<close>, the text of a file. A C string is a string
  without NUL.
\<close>

subsection \<open>Paths\<close>

text \<open>\<open>getFileName\<close>: a pointer walks back from the end to the last separator.\<close>

fun back_to_separator :: "string \<Rightarrow> nat \<Rightarrow> string" where
  "back_to_separator szFullPath 0 = szFullPath"
| "back_to_separator szFullPath (Suc p) =
     (if szFullPath ! p = CHR ''/'' then drop (Suc p) szFullPath else back_to_separator szFullPath p)"

definition getFileName :: "string \<Rightarrow> string" where
  "getFileName szFullPath = back_to_separator szFullPath (length szFullPath)"

text \<open>
  A \<open>char\<close> array of \<open>MAX_STR_LEN\<close>: storing a C string needs room for its NUL. \<open>readlink\<close> is given
  one byte less and cuts what is longer.
\<close>

definition MAX_STR_LEN :: nat where "MAX_STR_LEN = 1024"

definition store_str :: "string \<Rightarrow> string result" where
  "store_str s = (if length s < MAX_STR_LEN then Inr s else Inl Undefined)"

definition strrchr :: "char \<Rightarrow> string \<Rightarrow> nat option" where
  "strrchr c s = (if c \<in> set s then Some (length s - 1 - length (takeWhile (\<lambda>x. x \<noteq> c) (rev s))) else None)"

text \<open>\<open>link\<close> is the target of \<open>/proc/<pid>/exe\<close>, \<open>None\<close> when it cannot be read.\<close>

definition getAppPathAndName :: "string option \<Rightarrow> (string \<times> string) option result" where
  "getAppPathAndName link =
     (case map_option (take (MAX_STR_LEN - 1)) link of
        None \<Rightarrow> Inr None
      | Some tmp \<Rightarrow>
          if tmp = [] then Inr None
          else and_then (store_str tmp) (\<lambda>tmpPath.
            case strrchr (CHR ''/'') tmpPath of
              None \<Rightarrow> Inr None
            | Some p \<Rightarrow>
                and_then (store_str (drop (Suc p) tmpPath)) (\<lambda>tmpName. Inr (Some (take (Suc p) tmpPath, tmpName)))))"

definition getAppPath :: "string option \<Rightarrow> string result" where
  "getAppPath link =
     (case map_option (take (MAX_STR_LEN - 1)) link of
        None \<Rightarrow> Inr []
      | Some tmp \<Rightarrow>
          if tmp = [] then Inr []
          else and_then (store_str tmp) (\<lambda>tmpPath.
            case strrchr (CHR ''/'') tmpPath of
              None \<Rightarrow> Inr []
            | Some p \<Rightarrow> and_then (store_str (drop (Suc p) tmpPath)) (\<lambda>_. Inr (take (Suc p) tmpPath))))"

subsection \<open>Character sets\<close>

definition str_resize :: "nat \<Rightarrow> string \<Rightarrow> string" where
  "str_resize n s = take n s @ replicate (n - length s) (CHR 0x00)"

text \<open>
  \<open>iconv s n\<close> is whether all of \<open>s\<close> was converted and the bytes it stored, at most \<open>n\<close>; \<open>None\<close> when
  no converter opens. They overwrite the front of the resized output.
\<close>

definition convert :: "nat \<Rightarrow> (string \<Rightarrow> nat \<Rightarrow> (bool \<times> string) option) \<Rightarrow> string \<Rightarrow> string \<Rightarrow> bool \<times> string" where
  "convert factor iconv strIn strOut =
     (let outputSize = factor * length strIn
      in case iconv strIn outputSize of
           None \<Rightarrow> (False, strOut)
         | Some (ok, bytes) \<Rightarrow>
             let strOut = str_resize outputSize strOut in (ok, take outputSize bytes @ drop (length bytes) strOut))"

definition utf8ToLocalString :: "(string \<Rightarrow> nat \<Rightarrow> (bool \<times> string) option) \<Rightarrow> string \<Rightarrow> string \<Rightarrow> bool \<times> string" where
  "utf8ToLocalString = convert 2"

definition localStringToUtf8 :: "(string \<Rightarrow> nat \<Rightarrow> (bool \<times> string) option) \<Rightarrow> string \<Rightarrow> string \<Rightarrow> bool \<times> string" where
  "localStringToUtf8 = convert 4"

subsection \<open>Identifiers\<close>

definition hex_upper :: "nat \<Rightarrow> char" where
  "hex_upper d = (if d < 10 then char_of (48 + d) else char_of (55 + d))"

text \<open>\<open>%08X\<close>.\<close>

definition hex8 :: "u32 \<Rightarrow> string" where
  "hex8 w = map (\<lambda>i. hex_upper (unat (drop_bit (4 * i) w) mod 16)) [7, 6, 5, 4, 3, 2, 1, 0]"

text \<open>A processor without the leaf leaves the four registers zero; the buffer has 32 bytes.\<close>

definition getComputerID :: "(u32 \<times> u32) option \<Rightarrow> string" where
  "getComputerID cpuid = (let (eax, edx) = (case cpuid of None \<Rightarrow> (0, 0) | Some r \<Rightarrow> r) in take 31 (hex8 edx @ hex8 eax))"

text \<open>\<open>toupper\<close> of a \<open>char\<close> widened with its sign: a negative argument has no defined result.\<close>

definition toupper :: "char \<Rightarrow> char result" where
  "toupper c = (if 128 \<le> (of_char c :: nat) then Inl Undefined
     else Inr (if (of_char c :: nat) \<in> {97..122} then char_of (of_char c - 32 :: nat) else c))"

fun toupper_all :: "string \<Rightarrow> string result" where
  "toupper_all [] = Inr []"
| "toupper_all (c # s) = and_then (toupper c) (\<lambda>d. and_then (toupper_all s) (\<lambda>t. Inr (d # t)))"

text \<open>\<open>uuid\<close> is the first line of the kernel's file, \<open>None\<close> when it does not open.\<close>

definition generateGUID :: "string option \<Rightarrow> string result" where
  "generateGUID uuid = toupper_all (case uuid of None \<Rightarrow> [] | Some line \<Rightarrow> line)"

subsection \<open>Times and sizes\<close>

text \<open>\<open>%0kd\<close>: padded with zeros after the sign to a width of at least \<open>k\<close>.\<close>

definition pad_int :: "nat \<Rightarrow> int \<Rightarrow> string" where
  "pad_int k i =
     (let digits = dec_nat (nat \<bar>i\<bar>); sign = (if i < 0 then ''-'' else '''')
      in sign @ replicate (k - length sign - length digits) (CHR ''0'') @ digits)"

record time_info =
  ti_year :: int
  ti_mon :: int
  ti_mday :: int
  ti_hour :: int
  ti_min :: int
  ti_sec :: int

definition TIME_STR_LEN :: nat where "TIME_STR_LEN = 19"

text \<open>
  \<open>localtime\<close> is null for a year out of the range of \<open>int\<close>. The string is made of NULs and the text
  printed over it, cut to its length.
\<close>

definition timeInt64ToString :: "(u64 \<Rightarrow> time_info option) \<Rightarrow> u64 \<Rightarrow> string result" where
  "timeInt64ToString localtime llTime =
     (case localtime llTime of
        None \<Rightarrow> Inl Undefined
      | Some t \<Rightarrow>
          let text = pad_int 4 (ti_year t + 1900) @ ''-'' @ pad_int 2 (ti_mon t + 1) @ ''-'' @ pad_int 2 (ti_mday t) @ '' '' @
                pad_int 2 (ti_hour t) @ '':'' @ pad_int 2 (ti_min t) @ '':'' @ pad_int 2 (ti_sec t)
          in Inr (take TIME_STR_LEN text @ replicate (TIME_STR_LEN - length text) (CHR 0x00)))"

text \<open>The two loops that cut zeros and the point at the end; \<open>back()\<close> of an empty string is undefined.\<close>

function strip_zeros :: "string \<Rightarrow> string result" where
  "strip_zeros s =
     (if s = [] then Inl Undefined else if last s = CHR ''0'' then strip_zeros (butlast s) else Inr s)"
  by auto
termination by (relation "measure length") auto

definition strip_number :: "string \<Rightarrow> string result" where
  "strip_number s =
     (if CHR ''.'' \<in> set s
      then and_then (strip_zeros s) (\<lambda>s. Inr (if last s = CHR ''.'' then butlast s else s))
      else Inr s)"

text \<open>\<open>fixed3 b u\<close> is the quotient of two integers, as \<open>double\<close>, printed with three decimals.\<close>

definition formatMemorySize :: "(int \<Rightarrow> int \<Rightarrow> string) \<Rightarrow> u64 \<Rightarrow> string result" where
  "formatMemorySize fixed3 bytes =
     (let b = sint bytes; KB = 1024; MB = KB * 1024; GB = MB * 1024
      in strip_number
           (if GB \<le> b then fixed3 b GB @ '' GB''
            else if MB \<le> b then fixed3 b MB @ '' MB''
            else if KB \<le> b then fixed3 b KB @ '' KB''
            else (if b < 0 then ''-'' else '''') @ dec_nat (nat \<bar>b\<bar>) @ '' B''))"

subsection \<open>Directories\<close>

text \<open>
  The paths that exist and the permission bits of each; \<open>creatable\<close> says where the parent allows a new
  directory. \<open>mkdir\<close> takes the bits of the process's mask away.
\<close>

type_synonym dirs = "string \<rightharpoonup> u32"

definition S_IRWXU :: u32 where "S_IRWXU = 448"
definition S_IRWXO :: u32 where "S_IRWXO = 7"

definition mkdir :: "(string \<Rightarrow> bool) \<Rightarrow> u32 \<Rightarrow> string \<Rightarrow> u32 \<Rightarrow> dirs \<Rightarrow> dirs" where
  "mkdir creatable umask path mode fs =
     (if creatable path \<and> fs path = None then fs(path \<mapsto> mode AND NOT umask) else fs)"

definition creatDirIfNotExist :: "(string \<Rightarrow> bool) \<Rightarrow> u32 \<Rightarrow> string \<Rightarrow> dirs \<Rightarrow> bool \<times> dirs" where
  "creatDirIfNotExist creatable umask szPath fs =
     (if fs szPath = None
      then let fs = mkdir creatable umask szPath S_IRWXO fs in (fs szPath \<noteq> None, fs)
      else (True, fs))"

subsection \<open>Paths are split at the last separator\<close>

lemma back_to_separator_spec:
  "p \<le> length s \<Longrightarrow> CHR ''/'' \<notin> set (drop p s) \<Longrightarrow>
   back_to_separator s p = rev (takeWhile (\<lambda>c. c \<noteq> CHR ''/'') (rev s))"
proof (induction p)
  case 0
  then have "takeWhile (\<lambda>c. c \<noteq> CHR ''/'') (rev s) = rev s" by (auto simp: takeWhile_eq_all_conv)
  then show ?case by (metis back_to_separator.simps(1) rev_rev_ident)
next
  case (Suc p)
  have d: "drop p s = s ! p # drop (Suc p) s" using Suc.prems(1) by (simp add: Cons_nth_drop_Suc)
  show ?case
  proof (cases "s ! p = CHR ''/''")
    case True
    have "rev s = rev (drop (Suc p) s) @ CHR ''/'' # rev (take p s)"
      using d True by (metis append.assoc append_Cons append_Nil append_take_drop_id rev.simps(2) rev_append)
    moreover have "takeWhile (\<lambda>c. c \<noteq> CHR ''/'') (rev (drop (Suc p) s) @ CHR ''/'' # rev (take p s)) = rev (drop (Suc p) s)"
      using Suc.prems(2) by (subst takeWhile_append2) auto
    ultimately show ?thesis using True by simp
  next
    case False
    then show ?thesis using Suc d by simp
  qed
qed

lemma getFileName_spec: "getFileName s = rev (takeWhile (\<lambda>c. c \<noteq> CHR ''/'') (rev s))"
  by (simp add: getFileName_def back_to_separator_spec)

text \<open>The end of a string from the last separator on.\<close>

lemma getFileName_split:
  assumes "CHR ''/'' \<in> set s"
  obtains d where "s = d @ CHR ''/'' # getFileName s" "strrchr (CHR ''/'') s = Some (length d)"
    "CHR ''/'' \<notin> set (getFileName s)"
proof -
  obtain d n where s: "s = d @ CHR ''/'' # n" "CHR ''/'' \<notin> set n" using assms by (meson split_list_last)
  have t: "takeWhile (\<lambda>c. c \<noteq> CHR ''/'') (rev n @ CHR ''/'' # rev d) = rev n"
    using s(2) by (subst takeWhile_append2) auto
  then have "getFileName s = n" by (simp add: getFileName_spec s(1))
  moreover have "strrchr (CHR ''/'') s = Some (length d)" using t by (simp add: strrchr_def s(1))
  ultimately show ?thesis using that s by simp
qed

text \<open>
  The path and the name of the program: no buffer is overrun, and the target of the link, cut to
  1023 bytes, is split after its last separator; \<open>getAppPath\<close> gives the same path.
\<close>

theorem app_path_split:
  "\<exists>r. getAppPathAndName link = Inr r \<and>
    getAppPath link = Inr (case r of None \<Rightarrow> [] | Some (filePath, exeName) \<Rightarrow> filePath) \<and>
    (case r of
       None \<Rightarrow> link = None \<or> CHR ''/'' \<notin> set (take 1023 (the link))
     | Some (filePath, exeName) \<Rightarrow>
         filePath @ exeName = take 1023 (the link) \<and> filePath \<noteq> [] \<and> last filePath = CHR ''/'' \<and>
         exeName = getFileName (take 1023 (the link)))"
proof (cases link)
  case None
  then show ?thesis by (simp add: getAppPathAndName_def getAppPath_def)
next
  case (Some l)
  let ?t = "take 1023 l"
  show ?thesis
  proof (cases "CHR ''/'' \<in> set ?t")
    case True
    obtain d where d: "?t = d @ CHR ''/'' # getFileName ?t" "strrchr (CHR ''/'') ?t = Some (length d)"
      by (rule getFileName_split [OF True])
    have l: "length ?t < 1024" "length (getFileName ?t) < 1024" using arg_cong [OF d(1), of length] by auto
    have parts: "take (Suc (length d)) ?t = d @ [CHR ''/'']" "drop (Suc (length d)) ?t = getFileName ?t" "?t \<noteq> []"
      by (subst d(1), simp)+
    then show ?thesis
      using l d True unfolding Some by (simp add: getAppPathAndName_def getAppPath_def store_str_def MAX_STR_LEN_def)
  next
    case False
    then show ?thesis by (simp add: getAppPathAndName_def getAppPath_def store_str_def MAX_STR_LEN_def Some strrchr_def min_less_iff_disj)
  qed
qed

subsection \<open>Conversions keep their padding\<close>

lemma length_str_resize [simp]: "length (str_resize n s) = n"
  by (simp add: str_resize_def)

text \<open>
  A conversion that succeeds returns a string of exactly twice (or four times) the length of its
  input: the bytes stored, then what was in the output before, or NULs. It is the converted text only
  when that has exactly this length; ASCII text comes back with as many characters appended.
\<close>

theorem conversion_not_trimmed:
  assumes "iconv strIn (factor * length strIn) = Some (ok, bytes)" "length bytes \<le> factor * length strIn"
  shows "length (snd (convert factor iconv strIn strOut)) = factor * length strIn"
    and "take (length bytes) (snd (convert factor iconv strIn strOut)) = bytes"
    and "snd (convert factor iconv strIn strOut) = bytes \<longleftrightarrow> length bytes = factor * length strIn"
    and "length strOut \<le> length bytes \<Longrightarrow>
      snd (convert factor iconv strIn strOut) = bytes @ replicate (factor * length strIn - length bytes) (CHR 0x00)"
proof -
  let ?n = "factor * length strIn"
  have c: "snd (convert factor iconv strIn strOut) = bytes @ drop (length bytes) (str_resize ?n strOut)"
    using assms by (simp add: convert_def Let_def)
  show len: "length (snd (convert factor iconv strIn strOut)) = ?n" using assms(2) by (simp add: c)
  show "take (length bytes) (snd (convert factor iconv strIn strOut)) = bytes" by (simp add: c)
  show "snd (convert factor iconv strIn strOut) = bytes \<longleftrightarrow> length bytes = ?n"
    using assms(2) by (auto simp: c)
  show "snd (convert factor iconv strIn strOut) = bytes @ replicate (?n - length bytes) (CHR 0x00)"
    if "length strOut \<le> length bytes"
    using that assms(2) by (simp add: c str_resize_def)
qed

subsection \<open>Identifiers\<close>

lemma hex_upper_inj: "a < 16 \<Longrightarrow> b < 16 \<Longrightarrow> hex_upper a = hex_upper b \<Longrightarrow> a = b"
  by (auto simp: hex_upper_def char_of_eq_iff take_bit_eq_mod split: if_splits)

lemma hex8_inj:
  assumes "hex8 v = hex8 w"
  shows "v = w"
proof -
  have d: "unat (drop_bit (4 * i) v) mod 16 = unat (drop_bit (4 * i) w) mod 16" if "i < 8" for i
  proof -
    have "i \<in> set [7, 6, 5, 4, 3, 2, 1, 0 :: nat]" using that by auto
    then have "hex_upper (unat (drop_bit (4 * i) v) mod 16) = hex_upper (unat (drop_bit (4 * i) w) mod 16)"
      using assms unfolding hex8_def map_eq_conv by blast
    then show ?thesis by (rule hex_upper_inj [rotated -1]) simp_all
  qed
  have "bit v n = bit w n" if "n < 32" for n
  proof -
    have b: "bit (unat (drop_bit (4 * (n div 4)) x) mod 16) (n mod 4) = bit x n" for x :: u32
    proof -
      have "bit (unat (drop_bit (4 * (n div 4)) x) mod 2 ^ 4) (n mod 4) = bit (drop_bit (4 * (n div 4)) x) (n mod 4)"
        unfolding take_bit_eq_mod [symmetric] by (simp add: bit_take_bit_iff bit_unsigned_iff)
      then show ?thesis by (simp add: bit_drop_bit_eq)
    qed
    show ?thesis using d [of "n div 4"] that b [of v] b [of w] by auto
  qed
  then show ?thesis by (intro bit_word_eqI) simp
qed

text \<open>The identifier of a computer is 16 characters long and determines the two registers.\<close>

theorem computer_id_injective:
  "length (getComputerID c) = 16"
  "getComputerID (Some (a, d)) = getComputerID (Some (a', d')) \<longleftrightarrow> a = a' \<and> d = d'"
proof -
  have l: "length (hex8 w) = 8" for w by (simp add: hex8_def)
  then show "length (getComputerID c) = 16" by (simp add: getComputerID_def split: prod.split)
  have "getComputerID (Some (a, d)) = hex8 d @ hex8 a" for a d using l by (simp add: getComputerID_def)
  then show "getComputerID (Some (a, d)) = getComputerID (Some (a', d')) \<longleftrightarrow> a = a' \<and> d = d'"
    using l by (auto dest: hex8_inj)
qed


lemma toupper_all_ascii:
  "list_all (\<lambda>c. (of_char c :: nat) < 128) s \<Longrightarrow>
   toupper_all s = Inr (map (\<lambda>c. if (of_char c :: nat) \<in> {97..122} then char_of (of_char c - 32 :: nat) else c) s)"
  by (induction s) (simp_all add: toupper_def)

text \<open>A GUID keeps its length and has no small letter.\<close>

theorem guid_upper:
  assumes "list_all (\<lambda>c. (of_char c :: nat) < 128) line"
  shows "\<exists>s. generateGUID (Some line) = Inr s \<and> length s = length line \<and> list_all (\<lambda>c. (of_char c :: nat) \<notin> {97..122}) s"
  using toupper_all_ascii [OF assms] by (auto simp: generateGUID_def list_all_iff take_bit_eq_mod)

subsection \<open>Times and sizes\<close>

lemma length_pad_int: "0 \<le> i \<Longrightarrow> length (dec_nat (nat i)) \<le> k \<Longrightarrow> length (pad_int k i) = k"
  by (simp add: pad_int_def Let_def)

lemma length_dec_nat_le: "n < 10 ^ k \<Longrightarrow> 0 < k \<Longrightarrow> length (dec_nat n) \<le> k"
proof (induction k arbitrary: n)
  case (Suc k)
  show ?case
  proof (cases "n < 10")
    case True
    then show ?thesis by (simp add: dec_nat.simps [of n])
  next
    case False
    then have "0 < k" using Suc.prems(1) by (cases k) auto
    moreover have "n div 10 < 10 ^ k" using Suc.prems(1) by (simp add: less_mult_imp_div_less mult.commute)
    ultimately show ?thesis using Suc.IH [of "n div 10"] False by (simp add: dec_nat.simps [of n])
  qed
qed simp

lemma length_pad: "0 \<le> i \<Longrightarrow> i < 10 ^ k \<Longrightarrow> 0 < k \<Longrightarrow> length (pad_int k i) = k"
  by (intro length_pad_int length_dec_nat_le) (simp_all add: nat_less_iff)

text \<open>
  A time is always 19 characters: the whole text for the years 0 to 9999; from year 10000 on the
  last digit of the seconds is cut off.
\<close>

definition plain_time :: "time_info \<Rightarrow> bool" where
  "plain_time t \<longleftrightarrow> 0 \<le> ti_mon t \<and> ti_mon t < 12 \<and> 0 \<le> ti_mday t \<and> ti_mday t \<le> 31 \<and> 0 \<le> ti_hour t \<and> ti_hour t < 24 \<and>
     0 \<le> ti_min t \<and> ti_min t < 60 \<and> 0 \<le> ti_sec t \<and> ti_sec t \<le> 60"

lemma plain_time_lengths:
  assumes "plain_time t"
  shows "length (pad_int 2 (ti_mon t + 1)) = 2" "length (pad_int 2 (ti_mday t)) = 2" "length (pad_int 2 (ti_hour t)) = 2"
    "length (pad_int 2 (ti_min t)) = 2" "length (pad_int 2 (ti_sec t)) = 2"
  using assms by (auto intro!: length_pad simp: plain_time_def)

theorem time_string:
  assumes "localtime llTime = Some t" "plain_time t" "0 \<le> ti_year t + 1900" "ti_year t < 8100"
  shows "timeInt64ToString localtime llTime = Inr (pad_int 4 (ti_year t + 1900) @ ''-'' @ pad_int 2 (ti_mon t + 1) @ ''-'' @
    pad_int 2 (ti_mday t) @ '' '' @ pad_int 2 (ti_hour t) @ '':'' @ pad_int 2 (ti_min t) @ '':'' @ pad_int 2 (ti_sec t))"
  using assms(1) plain_time_lengths [OF assms(2)] length_pad [of "ti_year t + 1900" 4] assms(3,4)
  by (simp add: timeInt64ToString_def TIME_STR_LEN_def Let_def)

lemma strip_zeros_stop: "s \<noteq> [] \<Longrightarrow> last s \<noteq> CHR ''0'' \<Longrightarrow> strip_zeros s = Inr s"
  by (simp add: strip_zeros.simps [of s])

lemma strip_number_unit: "s \<noteq> [] \<Longrightarrow> last s = CHR ''B'' \<Longrightarrow> strip_number s = Inr s"
  by (simp add: strip_number_def strip_zeros_stop)

text \<open>
  The loops that shall remove the zeros at the end of the number never remove any: they start at the end of
  the text, which is the unit.
\<close>

theorem memory_size_keeps_zeros:
  "formatMemorySize fixed3 bytes = Inr
     (let b = sint bytes
      in if 1073741824 \<le> b then fixed3 b 1073741824 @ '' GB''
         else if 1048576 \<le> b then fixed3 b 1048576 @ '' MB''
         else if 1024 \<le> b then fixed3 b 1024 @ '' KB''
         else (if b < 0 then ''-'' else '''') @ dec_nat (nat \<bar>b\<bar>) @ '' B'')"
  by (simp add: formatMemorySize_def Let_def strip_number_unit)

subsection \<open>The user database\<close>

text \<open>
  \<open>CUserDatabase\<close> (src/code/service/compnets/AuthorityManager/CUserDatabase.cpp).
  \<open>sqlite_open dir file fs\<close> is what the library answers when asked to open or make the file of the
  directory: whether it succeeded, and the connection it has stored, which it may do in either case.
  The calls made to the library are recorded.
\<close>

datatype sqlite_call = Sqlite_opened nat | Sqlite_closed nat | Sqlite_prepared nat | Sqlite_finalized "nat option"

record user_db =
  m_db :: "nat option"
  sqlite_calls :: "sqlite_call list"

type_synonym sqlite_open = "string \<Rightarrow> string \<Rightarrow> dirs \<Rightarrow> bool \<times> nat option"

definition CUserDatabase_new :: user_db where
  "CUserDatabase_new = \<lparr>m_db = None, sqlite_calls = []\<rparr>"

definition CUserDatabase_init :: "string option \<Rightarrow> (string \<Rightarrow> bool) \<Rightarrow> u32 \<Rightarrow> sqlite_open \<Rightarrow> user_db \<Rightarrow> dirs \<Rightarrow>
    (bool \<times> user_db \<times> dirs) result" where
  "CUserDatabase_init link creatable umask sqlite_open db fs =
     and_then (getAppPathAndName link) (\<lambda>r.
       let strFilePath = (case r of None \<Rightarrow> [] | Some (filePath, _) \<Rightarrow> filePath) @ ''data/'';
           (made, fs) = creatDirIfNotExist creatable umask strFilePath fs
       in if made
          then let (ok, p) = sqlite_open strFilePath ''service_usr_info.db'' fs
               in Inr (ok, db\<lparr>m_db := p, sqlite_calls := sqlite_calls db @
                    (case p of None \<Rightarrow> [] | Some p \<Rightarrow> [Sqlite_opened p])\<rparr>, fs)
          else Inr (False, db, fs))"

definition CUserDatabase_destroy :: "user_db \<Rightarrow> user_db" where
  "CUserDatabase_destroy db = (case m_db db of
     None \<Rightarrow> db
   | Some p \<Rightarrow> db\<lparr>sqlite_calls := sqlite_calls db @ [Sqlite_closed p]\<rparr>)"

lemma init_connection:
  assumes "CUserDatabase_init link creatable umask sqlite_open db fs = Inr (ok, db', fs')"
  shows "db' = db \<or> (\<exists>p. db' = db\<lparr>m_db := p, sqlite_calls := sqlite_calls db @
    (case p of None \<Rightarrow> [] | Some p \<Rightarrow> [Sqlite_opened p])\<rparr>)"
proof -
  obtain r where "getAppPathAndName link = Inr r"
    using assms by (cases "getAppPathAndName link") (simp_all add: CUserDatabase_init_def)
  then show ?thesis
    using assms unfolding CUserDatabase_init_def Let_def
    by (auto split: prod.split_asm if_split_asm)
qed

text \<open>
  One initialisation and the destructor close the connection that was opened, also when opening it
  reported a failure; a second initialisation forgets the first connection, which stays open.
\<close>

lemma database_closed:
  assumes "CUserDatabase_init link creatable umask sqlite_open CUserDatabase_new fs = Inr (ok, db, fs')"
  shows "sqlite_calls (CUserDatabase_destroy db) = [] \<or>
    (\<exists>p. sqlite_calls (CUserDatabase_destroy db) = [Sqlite_opened p, Sqlite_closed p])"
  using init_connection [OF assms]
proof (elim disjE exE)
  fix p assume "db = CUserDatabase_new\<lparr>m_db := p, sqlite_calls := sqlite_calls CUserDatabase_new @
    (case p of None \<Rightarrow> [] | Some p \<Rightarrow> [Sqlite_opened p])\<rparr>"
  then show ?thesis by (cases p) (simp_all add: CUserDatabase_new_def CUserDatabase_destroy_def)
qed (simp add: CUserDatabase_new_def CUserDatabase_destroy_def)

lemma second_init_leaks:
  assumes "CUserDatabase_init link creatable umask sqlite_open db fs = Inr (ok, db', fs')"
    and "m_db db = Some p" "m_db db' = Some q" "p \<noteq> q" "Sqlite_closed p \<notin> set (sqlite_calls db)"
  shows "Sqlite_closed p \<notin> set (sqlite_calls (CUserDatabase_destroy db'))"
  using init_connection [OF assms(1)]
proof (elim disjE exE)
  fix r assume "db' = db\<lparr>m_db := r, sqlite_calls := sqlite_calls db @
    (case r of None \<Rightarrow> [] | Some p \<Rightarrow> [Sqlite_opened p])\<rparr>"
  then show ?thesis using assms(2-) by (cases r) (simp_all add: CUserDatabase_destroy_def)
qed (use assms(2-) in simp)

text \<open>
  \<open>StmLocker\<close> (src/code/common/include/general/SqliteCom.h) refers to the variable of a statement: at the end
  of its scope it finalises the statement the variable holds then, and no other prepared in it.
\<close>

definition StmLocker_scope :: "(nat option \<times> sqlite_call list \<Rightarrow> nat option \<times> sqlite_call list) \<Rightarrow>
    nat option \<times> sqlite_call list \<Rightarrow> nat option \<times> sqlite_call list" where
  "StmLocker_scope body s = (let (m_stmt, calls) = body s in (m_stmt, calls @ [Sqlite_finalized m_stmt]))"

fun prepares :: "nat list \<Rightarrow> nat option \<times> sqlite_call list \<Rightarrow> nat option \<times> sqlite_call list" where
  "prepares [] s = s"
| "prepares (p # ps) (stmt, calls) = prepares ps (Some p, calls @ [Sqlite_prepared p])"

lemma prepares_last: "prepares ps (stmt, calls) =
    (if ps = [] then stmt else Some (last ps), calls @ map Sqlite_prepared ps)"
  by (induction ps arbitrary: stmt calls) simp_all

lemma last_statement_finalised:
  assumes "p \<in> set ps"
  shows "Sqlite_finalized (Some p) \<in> set (snd (StmLocker_scope (prepares ps) (stmt, []))) \<longleftrightarrow> p = last ps"
  using assms by (auto simp: StmLocker_scope_def prepares_last)

lemma made_directory_mode:
  "fs p = None \<Longrightarrow> snd (creatDirIfNotExist creatable umask p fs) p = Some m \<Longrightarrow> m AND S_IRWXU = 0"
  "snd (creatDirIfNotExist creatable umask p fs) q = None \<Longrightarrow> fs q = None"
  "fs q = Some m' \<Longrightarrow> snd (creatDirIfNotExist creatable umask p fs) q = Some m'"
proof -
  have "S_IRWXO AND S_IRWXU = 0" by (simp add: S_IRWXO_def S_IRWXU_def)
  then have z: "(S_IRWXO AND NOT umask) AND S_IRWXU = 0" by (metis and.commute and.left_commute and_zero_eq)
  then show "fs p = None \<Longrightarrow> snd (creatDirIfNotExist creatable umask p fs) p = Some m \<Longrightarrow> m AND S_IRWXU = 0"
    by (auto simp: creatDirIfNotExist_def mkdir_def Let_def split: if_splits)
qed (auto simp: creatDirIfNotExist_def mkdir_def Let_def split: if_splits)

text \<open>
  On a new installation the database is never opened by a process that is bound by the rights of the owner: the
  first start makes the directory without any right for its owner, and that start and every later one fail.
\<close>

theorem user_database_never_opens:
  assumes bound: "\<And>dir file fs m. fst (sqlite_open dir file fs) \<Longrightarrow> fs dir = Some m \<Longrightarrow> m AND S_IRWXU \<noteq> 0"
    and fresh: "\<And>r. getAppPathAndName link = Inr r \<Longrightarrow>
      fs ((case r of None \<Rightarrow> [] | Some (filePath, _) \<Rightarrow> filePath) @ ''data/'') = None"
  shows "\<exists>db1 fs1 db2 fs2. CUserDatabase_init link creatable umask sqlite_open db fs = Inr (False, db1, fs1) \<and>
    CUserDatabase_init link creatable umask sqlite_open db' fs1 = Inr (False, db2, fs2)"
proof -
  obtain r where r: "getAppPathAndName link = Inr r" using app_path_split by blast
  let ?p = "(case r of None \<Rightarrow> [] | Some (filePath, _) \<Rightarrow> filePath) @ ''data/''"
  let ?mk = "creatDirIfNotExist creatable umask ?p"
  have init: "\<exists>db2. CUserDatabase_init link creatable umask sqlite_open db1 f =
      Inr (fst (?mk f) \<and> fst (sqlite_open ?p ''service_usr_info.db'' (snd (?mk f))), db2, snd (?mk f))" for f db1
    by (simp add: CUserDatabase_init_def r Let_def split: prod.split)
  have no: "\<not> (fst (?mk f) \<and> fst (sqlite_open ?p ''service_usr_info.db'' (snd (?mk f))))"
    if "\<And>m. snd (?mk f) ?p = Some m \<Longrightarrow> m AND S_IRWXU = 0" for f
  proof
    assume a: "fst (?mk f) \<and> fst (sqlite_open ?p ''service_usr_info.db'' (snd (?mk f)))"
    then obtain m where "snd (?mk f) ?p = Some m"
      by (auto simp: creatDirIfNotExist_def Let_def split: if_splits)
    then show False using a that bound by blast
  qed
  have m1: "m AND S_IRWXU = 0" if "snd (?mk fs) ?p = Some m" for m
    using made_directory_mode(1) fresh [OF r] that by blast
  have m2: "m AND S_IRWXU = 0" if "snd (?mk (snd (?mk fs))) ?p = Some m" for m
  proof (cases "snd (?mk fs) ?p")
    case None
    then show ?thesis using made_directory_mode(1) that by blast
  next
    case (Some k)
    then have "snd (?mk (snd (?mk fs))) ?p = Some k" by (rule made_directory_mode(3))
    then show ?thesis using m1 [OF Some] that by simp
  qed
  show ?thesis using init [of db fs] init [of db' "snd (?mk fs)"] no [OF m1] no [OF m2] by auto
qed

end
