(* ===== verification/Holders.thy ===== *)
theory Holders
  imports Prelude
begin

text \<open>
  The classes that hold an object of another class in storage of their own: \<open>std::optional\<close>
  (src/code/common/include/util/StdOptional.hpp), \<open>std::variant\<close> (StdVariant.hpp) and \<open>Variant\<close>
  (Variant.hpp) for compilers before C++17. A cell of storage holds a live object or none: to
  construct in a cell with a live object loses that object, its destructor never runs, and so
  does the end of a holder whose cell still has one; to read or destroy where no object lives is
  undefined.

  The held class is a parameter: \<open>cp\<close> is its copy constructor, which may throw, \<open>mv\<close> what a move,
  which does not throw, leaves behind. The objects of a program are numbered; an operand that is a
  reference into an object is given by the number, so that an operation on one object only is
  covered.
\<close>

subsection \<open>Objects and what was lost\<close>

record ('h, 'v) store =
  objects :: "nat \<rightharpoonup> 'h"
  lost :: "'v list"

definition no_objects :: "('h, 'v) store" where
  "no_objects = \<lparr>objects = Map.empty, lost = []\<rparr>"

definition obj :: "nat \<Rightarrow> ('h, 'v) store \<Rightarrow> 'h result" where
  "obj i s = of_option Undefined (objects s i)"

definition set_obj :: "nat \<Rightarrow> 'h \<Rightarrow> ('h, 'v) store \<Rightarrow> ('h, 'v) store" where
  "set_obj i h s = s\<lparr>objects := (objects s)(i \<mapsto> h)\<rparr>"

text \<open>The storage of a holder ends; what is live in its \<open>cell\<close> is lost.\<close>

definition del_obj :: "('h \<Rightarrow> 'v option) \<Rightarrow> nat \<Rightarrow> ('h, 'v) store \<Rightarrow> ('h, 'v) store" where
  "del_obj cell i s = s\<lparr>objects := (objects s)(i := None),
     lost := lost s @ (case objects s i of None \<Rightarrow> []
       | Some x \<Rightarrow> (case cell x of None \<Rightarrow> [] | Some w \<Rightarrow> [w]))\<rparr>"

text \<open>An exception that is thrown leaves the state it was thrown in.\<close>

type_synonym ('h, 'v) outcome = "(exn option \<times> ('h, 'v) store) result"

subsection \<open>optional\<close>

record 'v optional =
  hasValue :: bool
  value_cell :: "'v option"

type_synonym 'v opt_store = "('v optional, 'v) store"

text \<open>The argument of an \<open>emplace\<close>: an object elsewhere, or the one inside another or the same optional.\<close>

datatype 'v operand = Outside 'v | Inside nat

definition operand_value :: "'v operand \<Rightarrow> 'v opt_store \<Rightarrow> 'v result" where
  "operand_value a s =
     (case a of Outside v \<Rightarrow> Inr v | Inside j \<Rightarrow> and_then (obj j s) (\<lambda>x. of_option Undefined (value_cell x)))"

definition opt_reset :: "nat \<Rightarrow> 'v opt_store \<Rightarrow> 'v opt_store result" where
  "opt_reset i s =
     and_then (obj i s) (\<lambda>x.
       if hasValue x
       then and_then (of_option Undefined (value_cell x)) (\<lambda>_. Inr (set_obj i (x\<lparr>hasValue := False, value_cell := None\<rparr>) s))
       else Inr s)"

text \<open>A failed test stops a debug build; with \<open>NDEBUG\<close> the exception is thrown.\<close>

definition opt_value :: "bool \<Rightarrow> nat \<Rightarrow> 'v opt_store \<Rightarrow> 'v result" where
  "opt_value ndebug i s =
     and_then (obj i s) (\<lambda>x.
       if hasValue x then of_option Undefined (value_cell x)
       else Inl (if ndebug then Throws (Std_exception ''no value'') else Aborts))"

definition opt_put :: "nat \<Rightarrow> 'v \<Rightarrow> 'v opt_store \<Rightarrow> 'v opt_store" where
  "opt_put i v s =
     (case objects s i of
        None \<Rightarrow> s
      | Some x \<Rightarrow> set_obj i (x\<lparr>hasValue := True, value_cell := Some v\<rparr>)
                   (s\<lparr>lost := lost s @ (case value_cell x of None \<Rightarrow> [] | Some w \<Rightarrow> [w])\<rparr>))"

definition emplace_copy :: "('v \<Rightarrow> exn + 'v) \<Rightarrow> nat \<Rightarrow> 'v operand \<Rightarrow> 'v opt_store \<Rightarrow> ('v optional, 'v) outcome" where
  "emplace_copy cp i a s =
     and_then (opt_reset i s) (\<lambda>s. and_then (operand_value a s) (\<lambda>v.
       case cp v of Inl e \<Rightarrow> Inr (Some e, s) | Inr w \<Rightarrow> Inr (None, opt_put i w s)))"

definition emplace_move :: "('v \<Rightarrow> 'v) \<Rightarrow> nat \<Rightarrow> 'v operand \<Rightarrow> 'v opt_store \<Rightarrow> 'v opt_store result" where
  "emplace_move mv i a s =
     and_then (opt_reset i s) (\<lambda>s. and_then (operand_value a s) (\<lambda>v.
       Inr (opt_put i v (case a of Outside _ \<Rightarrow> s
         | Inside j \<Rightarrow> set_obj j ((the (objects s j))\<lparr>value_cell := Some (mv v)\<rparr>) s))))"

definition optional_new :: "nat \<Rightarrow> 'v opt_store \<Rightarrow> 'v opt_store" where
  "optional_new i s = set_obj i \<lparr>hasValue = False, value_cell = None\<rparr> s"

text \<open>A constructor that throws leaves no object.\<close>

definition constructed :: "('h \<Rightarrow> 'v option) \<Rightarrow> nat \<Rightarrow> ('h, 'v) outcome \<Rightarrow> ('h, 'v) outcome" where
  "constructed cell i r = and_then r (\<lambda>(e, s). Inr (e, if e = None then s else del_obj cell i s))"

definition optional_of :: "('v \<Rightarrow> exn + 'v) \<Rightarrow> nat \<Rightarrow> 'v \<Rightarrow> 'v opt_store \<Rightarrow> ('v optional, 'v) outcome" where
  "optional_of cp i v s = constructed value_cell i (emplace_copy cp i (Outside v) (optional_new i s))"

definition optional_copy :: "('v \<Rightarrow> exn + 'v) \<Rightarrow> nat \<Rightarrow> nat \<Rightarrow> 'v opt_store \<Rightarrow> ('v optional, 'v) outcome" where
  "optional_copy cp i j s =
     (let s = optional_new i s
      in and_then (obj j s) (\<lambda>x.
           if hasValue x then constructed value_cell i (emplace_copy cp i (Inside j) s) else Inr (None, s)))"

definition optional_move :: "('v \<Rightarrow> 'v) \<Rightarrow> nat \<Rightarrow> nat \<Rightarrow> 'v opt_store \<Rightarrow> 'v opt_store result" where
  "optional_move mv i j s =
     (let s = optional_new i s
      in and_then (obj j s) (\<lambda>x.
           if hasValue x then and_then (emplace_move mv i (Inside j) s) (opt_reset j) else Inr s))"

definition optional_assign :: "('v \<Rightarrow> exn + 'v) \<Rightarrow> nat \<Rightarrow> nat \<Rightarrow> 'v opt_store \<Rightarrow> ('v optional, 'v) outcome" where
  "optional_assign cp i j s =
     and_then (obj j s) (\<lambda>x.
       if hasValue x then emplace_copy cp i (Inside j) s
       else and_then (opt_reset i s) (\<lambda>s. Inr (None, s)))"

definition optional_move_assign :: "('v \<Rightarrow> 'v) \<Rightarrow> nat \<Rightarrow> nat \<Rightarrow> 'v opt_store \<Rightarrow> 'v opt_store result" where
  "optional_move_assign mv i j s =
     and_then (obj j s) (\<lambda>x.
       if hasValue x then and_then (emplace_move mv i (Inside j) s) (opt_reset j)
       else opt_reset i s)"

definition optional_assign_value :: "('v \<Rightarrow> exn + 'v) \<Rightarrow> nat \<Rightarrow> 'v \<Rightarrow> 'v opt_store \<Rightarrow> ('v optional, 'v) outcome" where
  "optional_assign_value cp i v s = emplace_copy cp i (Outside v) s"

definition optional_destroy :: "nat \<Rightarrow> 'v opt_store \<Rightarrow> 'v opt_store result" where
  "optional_destroy i s = and_then (opt_reset i s) (\<lambda>s. Inr (del_obj value_cell i s))"

subsection \<open>variant\<close>

text \<open>The object in the cell with the number of its type; \<open>index\<close> is a \<open>size_t\<close>, all ones at first.\<close>

record 'v variant =
  index :: u64
  data :: "(nat \<times> 'v) option"

type_synonym 'v var_store = "('v variant, nat \<times> 'v) store"

text \<open>
  \<open>tuple_index\<close> goes through the types to the end: \<open>p\<close> says for each type whether it matches.
\<close>

fun tuple_index :: "bool list \<Rightarrow> u64" where
  "tuple_index [] = - 1"
| "tuple_index (b # p) =
     (let tail_value = tuple_index p
      in if b then (if tail_value = - 1 then 0 else tail_value + 1)
         else (if tail_value = - 1 then - 1 else tail_value + 1))"

definition actual_index :: "bool list \<Rightarrow> bool list \<Rightarrow> u64" where
  "actual_index is_same is_constructible =
     (let direct_index = tuple_index is_same
      in if direct_index = - 1 then tuple_index is_constructible else direct_index)"

text \<open>
  The three recursions over the \<open>n\<close> types: at an index beyond them nothing is done, else the cell is
  taken to hold an object of the type with this index.
\<close>

definition object_at :: "nat \<Rightarrow> (nat \<times> 'v) option \<Rightarrow> 'v result" where
  "object_at k c = (case c of Some (k', v) \<Rightarrow> if k' = k then Inr v else Inl Undefined | None \<Rightarrow> Inl Undefined)"

definition var_construct :: "nat \<Rightarrow> nat \<times> 'v \<Rightarrow> 'v var_store \<Rightarrow> 'v var_store" where
  "var_construct i kv s =
     (case objects s i of
        None \<Rightarrow> s
      | Some x \<Rightarrow> set_obj i (x\<lparr>data := Some kv\<rparr>) (s\<lparr>lost := lost s @ (case data x of None \<Rightarrow> [] | Some w \<Rightarrow> [w])\<rparr>))"

definition copy_construct :: "nat \<Rightarrow> ('v \<Rightarrow> exn + 'v) \<Rightarrow> nat \<Rightarrow> u64 \<Rightarrow> nat \<Rightarrow> 'v var_store \<Rightarrow> ('v variant, nat \<times> 'v) outcome" where
  "copy_construct n cp i k j s =
     (if unat k < n
      then and_then (obj j s) (\<lambda>y. and_then (object_at (unat k) (data y)) (\<lambda>v.
             case cp v of Inl e \<Rightarrow> Inr (Some e, s) | Inr w \<Rightarrow> Inr (None, var_construct i (unat k, w) s)))
      else Inr (None, s))"

definition move_construct :: "nat \<Rightarrow> ('v \<Rightarrow> 'v) \<Rightarrow> nat \<Rightarrow> u64 \<Rightarrow> nat \<Rightarrow> 'v var_store \<Rightarrow> 'v var_store result" where
  "move_construct n mv i k j s =
     (if unat k < n
      then and_then (obj j s) (\<lambda>y. and_then (object_at (unat k) (data y)) (\<lambda>v.
             Inr (var_construct i (unat k, v) (set_obj j (y\<lparr>data := Some (unat k, mv v)\<rparr>) s))))
      else Inr s)"

definition destruct :: "nat \<Rightarrow> nat \<Rightarrow> u64 \<Rightarrow> 'v var_store \<Rightarrow> 'v var_store result" where
  "destruct n i k s =
     (if unat k < n
      then and_then (obj i s) (\<lambda>x. and_then (object_at (unat k) (data x)) (\<lambda>_. Inr (set_obj i (x\<lparr>data := None\<rparr>) s)))
      else Inr s)"

definition set_index :: "nat \<Rightarrow> u64 \<Rightarrow> 'v var_store \<Rightarrow> 'v var_store" where
  "set_index i k s = (case objects s i of None \<Rightarrow> s | Some x \<Rightarrow> set_obj i (x\<lparr>index := k\<rparr>) s)"

definition variant_raw :: "nat \<Rightarrow> 'v var_store \<Rightarrow> 'v var_store" where
  "variant_raw i s = set_obj i \<lparr>index = - 1, data = None\<rparr> s"

text \<open>\<open>k\<close> is the \<open>actual_index\<close> of the argument's type, \<open>v\<close> the object made from it.\<close>

definition variant_of :: "nat \<Rightarrow> u64 \<Rightarrow> exn + 'v \<Rightarrow> 'v var_store \<Rightarrow> ('v variant, nat \<times> 'v) outcome" where
  "variant_of i k v s =
     constructed data i (case v of
       Inl e \<Rightarrow> Inr (Some e, variant_raw i s)
     | Inr v \<Rightarrow> Inr (None, set_index i k (var_construct i (unat k, v) (variant_raw i s))))"

definition variant_copy :: "nat \<Rightarrow> ('v \<Rightarrow> exn + 'v) \<Rightarrow> nat \<Rightarrow> nat \<Rightarrow> 'v var_store \<Rightarrow> ('v variant, nat \<times> 'v) outcome" where
  "variant_copy n cp i j s =
     and_then (obj j s) (\<lambda>y.
       constructed data i (and_then (copy_construct n cp i (index y) j (variant_raw i s)) (\<lambda>(e, s).
         Inr (e, if e = None then set_index i (index y) s else s))))"

definition variant_move :: "nat \<Rightarrow> ('v \<Rightarrow> 'v) \<Rightarrow> nat \<Rightarrow> nat \<Rightarrow> 'v var_store \<Rightarrow> 'v var_store result" where
  "variant_move n mv i j s =
     and_then (obj j s) (\<lambda>y.
       and_then (move_construct n mv i (index y) j (variant_raw i s)) (\<lambda>s. Inr (set_index i (index y) s)))"

text \<open>The assignments set the index first, then destroy the old object, then construct the new one.\<close>

definition variant_assign :: "nat \<Rightarrow> ('v \<Rightarrow> exn + 'v) \<Rightarrow> nat \<Rightarrow> nat \<Rightarrow> 'v var_store \<Rightarrow> ('v variant, nat \<times> 'v) outcome" where
  "variant_assign n cp i j s =
     and_then (obj i s) (\<lambda>x. and_then (obj j s) (\<lambda>y.
       and_then (destruct n i (index x) (set_index i (index y) s)) (copy_construct n cp i (index y) j)))"

definition variant_move_assign :: "nat \<Rightarrow> ('v \<Rightarrow> 'v) \<Rightarrow> nat \<Rightarrow> nat \<Rightarrow> 'v var_store \<Rightarrow> 'v var_store result" where
  "variant_move_assign n mv i j s =
     and_then (obj i s) (\<lambda>x. and_then (obj j s) (\<lambda>y.
       and_then (destruct n i (index x) (set_index i (index y) s)) (move_construct n mv i (index y) j)))"

definition variant_destroy :: "nat \<Rightarrow> nat \<Rightarrow> 'v var_store \<Rightarrow> 'v var_store result" where
  "variant_destroy n i s =
     and_then (obj i s) (\<lambda>x. and_then (destruct n i (index x) s) (\<lambda>s. Inr (del_obj data i s)))"

text \<open>\<open>get\<close> tests the index by an assertion, \<open>get_if\<close> returns null.\<close>

definition variant_get :: "u64 \<Rightarrow> nat \<Rightarrow> 'v var_store \<Rightarrow> 'v result" where
  "variant_get k i s =
     and_then (obj i s) (\<lambda>x. if index x = k then object_at (unat k) (data x) else Inl Aborts)"

definition variant_get_if :: "u64 \<Rightarrow> nat \<Rightarrow> 'v var_store \<Rightarrow> 'v option result" where
  "variant_get_if k i s =
     and_then (obj i s) (\<lambda>x.
       if index x = k then and_then (object_at (unat k) (data x)) (\<lambda>v. Inr (Some v)) else Inr None)"

subsection \<open>Variant\<close>

text \<open>
  \<open>type_index\<close> is a type or \<open>void\<close>. The copy functions for several types do not compile: the step of
  their recursion bears another name (\<open>move0\<close>), so only a \<open>Variant\<close> of one type can be copied.
\<close>

record 'v mmr_variant =
  type_index :: "nat option"
  mmr_data :: "(nat \<times> 'v) option"

type_synonym 'v mmr_store = "('v mmr_variant, nat \<times> 'v) store"

definition mmr_construct :: "nat \<Rightarrow> nat \<times> 'v \<Rightarrow> 'v mmr_store \<Rightarrow> 'v mmr_store" where
  "mmr_construct i kv s =
     (case objects s i of
        None \<Rightarrow> s
      | Some x \<Rightarrow> set_obj i (x\<lparr>mmr_data := Some kv\<rparr>) (s\<lparr>lost := lost s @ (case mmr_data x of None \<Rightarrow> [] | Some w \<Rightarrow> [w])\<rparr>))"

definition Variant_new :: "nat \<Rightarrow> 'v mmr_store \<Rightarrow> 'v mmr_store" where
  "Variant_new i s = set_obj i \<lparr>type_index = None, mmr_data = None\<rparr> s"

definition set_type :: "nat \<Rightarrow> nat option \<Rightarrow> 'v mmr_store \<Rightarrow> 'v mmr_store" where
  "set_type i t s = (case objects s i of None \<Rightarrow> s | Some x \<Rightarrow> set_obj i (x\<lparr>type_index := t\<rparr>) s)"

text \<open>
  A move onto itself constructs an object in its own storage, whose life that ends before it is read.
\<close>

definition moveInner :: "('v \<Rightarrow> 'v) \<Rightarrow> nat \<Rightarrow> nat option \<Rightarrow> nat \<Rightarrow> 'v mmr_store \<Rightarrow> 'v mmr_store result" where
  "moveInner mv i old_t j s =
     (case old_t of
        None \<Rightarrow> Inr s
      | Some t \<Rightarrow>
          if i = j then Inl Undefined
          else and_then (obj j s) (\<lambda>y. and_then (object_at t (mmr_data y)) (\<lambda>v.
            Inr (mmr_construct i (t, v) (set_obj j (y\<lparr>mmr_data := Some (t, mv v)\<rparr>) s)))))"

definition destroyInner :: "nat \<Rightarrow> 'v mmr_store \<Rightarrow> 'v mmr_store result" where
  "destroyInner i s =
     and_then (obj i s) (\<lambda>x.
       case type_index x of
         None \<Rightarrow> Inr s
       | Some t \<Rightarrow> and_then (object_at t (mmr_data x)) (\<lambda>_. Inr (set_obj i (x\<lparr>mmr_data := None\<rparr>) s)))"

definition Variant_of :: "nat \<Rightarrow> nat \<Rightarrow> 'v \<Rightarrow> 'v mmr_store \<Rightarrow> 'v mmr_store" where
  "Variant_of i t v s = set_type i (Some t) (mmr_construct i (t, v) (Variant_new i s))"

definition Variant_move :: "('v \<Rightarrow> 'v) \<Rightarrow> nat \<Rightarrow> nat \<Rightarrow> 'v mmr_store \<Rightarrow> 'v mmr_store result" where
  "Variant_move mv i j s =
     and_then (obj j s) (\<lambda>y. moveInner mv i (type_index y) j (set_type i (type_index y) (Variant_new i s)))"

definition Variant_move_assign :: "('v \<Rightarrow> 'v) \<Rightarrow> nat \<Rightarrow> nat \<Rightarrow> 'v mmr_store \<Rightarrow> 'v mmr_store result" where
  "Variant_move_assign mv i j s =
     and_then (obj j s) (\<lambda>y.
       and_then (moveInner mv i (type_index y) j s) (\<lambda>s. Inr (set_type i (type_index y) s)))"

definition Variant_destroy :: "nat \<Rightarrow> 'v mmr_store \<Rightarrow> 'v mmr_store result" where
  "Variant_destroy i s =
     and_then (destroyInner i s) (\<lambda>s. and_then (obj i s) (\<lambda>x. Inr (del_obj mmr_data i s)))"

definition Variant_get :: "nat \<Rightarrow> nat \<Rightarrow> 'v mmr_store \<Rightarrow> 'v result" where
  "Variant_get t i s =
     and_then (obj i s) (\<lambda>x.
       if type_index x = Some t then object_at t (mmr_data x) else Inl (Throws (Std_exception ''std::bad_cast'')))"

subsection \<open>A holder by its contents\<close>

text \<open>
  What a client of these classes relies on: a move assignment between two objects gives the target the
  contents of the source, leaves in the source what \<open>spent\<close> says, and loses nothing.
\<close>

locale holder =
  fixes inv :: "('h, 'v) store \<Rightarrow> bool"
    and contents :: "'h \<Rightarrow> 'c"
    and spent :: "'c \<Rightarrow> 'c"
    and move_assign :: "nat \<Rightarrow> nat \<Rightarrow> ('h, 'v) store \<Rightarrow> ('h, 'v) store result"
  assumes move_assign_law: "inv s \<Longrightarrow> i \<noteq> j \<Longrightarrow> objects s i = Some x \<Longrightarrow> objects s j = Some y \<Longrightarrow>
    \<exists>s' x' y'. move_assign i j s = Inr s' \<and> inv s' \<and> lost s' = lost s \<and> objects s' = (objects s)(i \<mapsto> x', j \<mapsto> y') \<and>
      contents x' = contents y \<and> contents y' = spent (contents y)"
begin

text \<open>Three moves swap two objects.\<close>

lemma swap:
  assumes "inv s" "distinct [i, j, t]" "objects s i = Some x" "objects s j = Some y" "objects s t = Some z"
  shows "\<exists>s' x' y' z'. and_then (move_assign t i s) (\<lambda>s. and_then (move_assign i j s) (move_assign j t)) = Inr s' \<and>
    inv s' \<and> lost s' = lost s \<and> objects s' = (objects s)(i \<mapsto> x', j \<mapsto> y', t \<mapsto> z') \<and>
    contents x' = contents y \<and> contents y' = contents x \<and> contents z' = spent (contents x)"
proof -
  obtain s1 z1 x1 where 1: "move_assign t i s = Inr s1" "inv s1" "lost s1 = lost s" "objects s1 = (objects s)(t \<mapsto> z1, i \<mapsto> x1)"
    "contents z1 = contents x"
    using move_assign_law [of s t i z x] assms by auto
  then have "objects s1 i = Some x1" "objects s1 j = Some y" using assms by simp_all
  then obtain s2 x2 y2 where 2: "move_assign i j s1 = Inr s2" "inv s2" "lost s2 = lost s1"
    "objects s2 = (objects s1)(i \<mapsto> x2, j \<mapsto> y2)" "contents x2 = contents y"
    using move_assign_law [of s1 i j x1 y] 1(2) assms(2) by auto
  then have "objects s2 j = Some y2" "objects s2 t = Some z1" using 1(4) assms(2) by simp_all
  then obtain s3 y3 z3 where 3: "move_assign j t s2 = Inr s3" "inv s3" "lost s3 = lost s2"
    "objects s3 = (objects s2)(j \<mapsto> y3, t \<mapsto> z3)" "contents y3 = contents z1" "contents z3 = spent (contents z1)"
    using move_assign_law [of s2 j t y2 z1] 2(2) assms(2) by auto
  have "objects s3 = (objects s)(i \<mapsto> x2, j \<mapsto> y3, t \<mapsto> z3)"
    using 1(4) 2(4) 3(4) assms(2) by (auto simp: fun_eq_iff)
  then show ?thesis using 1 2 3 by auto
qed

end

subsection \<open>optional holds its value\<close>

definition opt_inv :: "'v opt_store \<Rightarrow> bool" where
  "opt_inv s \<longleftrightarrow> (\<forall>i x. objects s i = Some x \<longrightarrow> (hasValue x \<longleftrightarrow> value_cell x \<noteq> None))"

lemmas store_defs = obj_def set_obj_def del_obj_def

lemma set_obj_simps [simp]:
  "lost (set_obj i x s) = lost s" "set_obj i x (set_obj i y s) = set_obj i x s"
  "objects (set_obj i x s) = (objects s)(i \<mapsto> x)"
  "objects (del_obj c i s) = (objects s)(i := None)"
  by (simp_all add: store_defs)

lemma lost_del_obj [simp]: "c x = None \<Longrightarrow> lost (del_obj c i (set_obj i x s)) = lost s"
  by (simp add: store_defs)

lemma del_obj_new: "objects s i = None \<Longrightarrow> c x = None \<Longrightarrow> del_obj c i (set_obj i x s) = s"
  by (simp add: store_defs fun_upd_idem)

lemma opt_reset_ok:
  assumes "opt_inv s" "objects s i = Some x"
  shows "opt_reset i s = Inr (set_obj i \<lparr>hasValue = False, value_cell = None\<rparr> s)"
proof -
  have "hasValue x \<longleftrightarrow> value_cell x \<noteq> None" using assms by (auto simp: opt_inv_def)
  then show ?thesis using assms(2) by (cases x) (auto simp: opt_reset_def store_defs fun_upd_idem)
qed

lemma opt_inv_set: "opt_inv s \<Longrightarrow> (hasValue x \<longleftrightarrow> value_cell x \<noteq> None) \<Longrightarrow> opt_inv (set_obj i x s)"
  by (simp add: opt_inv_def set_obj_def)

definition opt_abs :: "'v opt_store \<Rightarrow> nat \<rightharpoonup> 'v option" where
  "opt_abs s i = map_option value_cell (objects s i)"

lemma opt_put_set: "opt_put i v (set_obj i \<lparr>hasValue = b, value_cell = None\<rparr> s) = set_obj i \<lparr>hasValue = True, value_cell = Some v\<rparr> s"
  by (simp add: opt_put_def store_defs)

text \<open>The argument of an \<open>emplace\<close> that lives outside its target.\<close>

definition operand_abs :: "nat \<Rightarrow> 'v operand \<Rightarrow> 'v \<Rightarrow> 'v opt_store \<Rightarrow> bool" where
  "operand_abs i a v s \<longleftrightarrow> (case a of Outside w \<Rightarrow> w = v | Inside j \<Rightarrow> j \<noteq> i \<and> opt_abs s j = Some (Some v))"

lemma operand_value_ok: "operand_abs i a v s \<Longrightarrow> operand_value a (set_obj i x s) = Inr v"
  by (auto simp: operand_abs_def operand_value_def opt_abs_def store_defs split: operand.splits)

lemma emplace_copy_ok:
  assumes "opt_inv s" "objects s i = Some x" "operand_abs i a v s"
  shows "emplace_copy cp i a s = Inr (case cp v of
      Inl e \<Rightarrow> (Some e, set_obj i \<lparr>hasValue = False, value_cell = None\<rparr> s)
    | Inr w \<Rightarrow> (None, set_obj i \<lparr>hasValue = True, value_cell = Some w\<rparr> s))"
  by (simp add: emplace_copy_def opt_reset_ok [OF assms(1,2)] operand_value_ok [OF assms(3)] opt_put_set split: sum.split)

lemma emplace_move_reset:
  assumes "opt_inv s" "objects s i = Some x" "objects s j = Some y" "value_cell y = Some v" "i \<noteq> j"
  shows "and_then (emplace_move mv i (Inside j) s) (opt_reset j) =
    Inr (set_obj i \<lparr>hasValue = True, value_cell = Some v\<rparr> (set_obj j \<lparr>hasValue = False, value_cell = None\<rparr> s))"
proof -
  have "hasValue y" using assms(1,3,4) by (auto simp: opt_inv_def)
  then have y: "y = \<lparr>hasValue = True, value_cell = Some v\<rparr>" using assms(4) by (cases y) simp
  have o: "operand_value (Inside j) (set_obj i \<lparr>hasValue = False, value_cell = None\<rparr> s) = Inr v"
    using assms(3-5) by (simp add: operand_value_def obj_def)
  have "emplace_move mv i (Inside j) s =
      Inr (set_obj i \<lparr>hasValue = True, value_cell = Some v\<rparr> (set_obj j \<lparr>hasValue = True, value_cell = Some (mv v)\<rparr> s))"
    using assms(3,5) y
    by (simp add: emplace_move_def opt_reset_ok [OF assms(1,2)] o [unfolded set_obj_def] opt_put_def set_obj_def fun_upd_twist)
  then show ?thesis using assms(5) by (simp add: opt_reset_def obj_def set_obj_def fun_upd_twist)
qed

interpretation optional_holder: holder opt_inv value_cell "\<lambda>_. None" "optional_move_assign mv"
  for mv :: "'v \<Rightarrow> 'v"
proof
  fix s :: "'v opt_store" and i j x y
  assume s: "opt_inv s" "i \<noteq> j" "objects s i = Some x" "objects s j = Some y"
  then have h: "hasValue y \<longleftrightarrow> value_cell y \<noteq> None" by (auto simp: opt_inv_def)
  show "\<exists>s' x' y'. optional_move_assign mv i j s = Inr s' \<and> opt_inv s' \<and> lost s' = lost s \<and>
    objects s' = (objects s)(i \<mapsto> x', j \<mapsto> y') \<and> value_cell x' = value_cell y \<and> value_cell y' = None"
  proof (cases "value_cell y")
    case None
    let ?x = "\<lparr>hasValue = False, value_cell = None\<rparr>"
    have "optional_move_assign mv i j s = Inr (set_obj i ?x s)"
      using None s(4) h opt_reset_ok [OF s(1,3)] by (simp add: optional_move_assign_def obj_def)
    moreover have "objects (set_obj i ?x s) = (objects s)(i \<mapsto> ?x, j \<mapsto> y)" using s(2,4) by (simp add: fun_eq_iff)
    ultimately show ?thesis
      using None opt_inv_set [OF s(1), of ?x i] by (intro exI [of _ "set_obj i ?x s"] exI [of _ ?x] exI [of _ y]) simp
  next
    case (Some v)
    let ?x = "\<lparr>hasValue = True, value_cell = Some v\<rparr>" and ?y = "\<lparr>hasValue = False, value_cell = None\<rparr>"
    let ?s = "set_obj i ?x (set_obj j ?y s)"
    have "optional_move_assign mv i j s = Inr ?s"
      using Some s(4) h emplace_move_reset [OF s(1,3,4) Some s(2)] by (simp add: optional_move_assign_def obj_def)
    moreover have "objects ?s = (objects s)(i \<mapsto> ?x, j \<mapsto> ?y)" using s(2) by (simp add: fun_upd_twist)
    ultimately show ?thesis
      using Some by (intro exI [of _ ?s] exI [of _ ?x] exI [of _ ?y]) (simp add: opt_inv_set s(1))
  qed
qed

datatype 'v opt_op =
    O_new nat
  | O_of nat 'v
  | O_copy nat nat
  | O_move nat nat
  | O_assign nat nat
  | O_move_assign nat nat
  | O_assign_value nat 'v
  | O_reset nat
  | O_destroy nat

definition quiet :: "'s result \<Rightarrow> (exn option \<times> 's) result" where
  "quiet r = and_then r (\<lambda>s. Inr (None, s))"

fun opt_do :: "('v \<Rightarrow> exn + 'v) \<Rightarrow> ('v \<Rightarrow> 'v) \<Rightarrow> 'v opt_op \<Rightarrow> 'v opt_store \<Rightarrow> ('v optional, 'v) outcome" where
  "opt_do cp mv (O_new i) s = Inr (None, optional_new i s)"
| "opt_do cp mv (O_of i v) s = optional_of cp i v s"
| "opt_do cp mv (O_copy i j) s = optional_copy cp i j s"
| "opt_do cp mv (O_move i j) s = quiet (optional_move mv i j s)"
| "opt_do cp mv (O_assign i j) s = optional_assign cp i j s"
| "opt_do cp mv (O_move_assign i j) s = quiet (optional_move_assign mv i j s)"
| "opt_do cp mv (O_assign_value i v) s = optional_assign_value cp i v s"
| "opt_do cp mv (O_reset i) s = quiet (opt_reset i s)"
| "opt_do cp mv (O_destroy i) s = quiet (optional_destroy i s)"

text \<open>What the operations mean: each object is an optional value.\<close>

definition copied :: "('v \<Rightarrow> exn + 'v) \<Rightarrow> 'v \<Rightarrow> nat \<Rightarrow> (nat \<rightharpoonup> 'v option) \<Rightarrow> (nat \<rightharpoonup> 'v option) \<Rightarrow> exn option \<times> (nat \<rightharpoonup> 'v option)" where
  "copied cp v i fail a = (case cp v of Inl e \<Rightarrow> (Some e, fail) | Inr w \<Rightarrow> (None, a(i \<mapsto> Some w)))"

fun opt_spec :: "('v \<Rightarrow> exn + 'v) \<Rightarrow> 'v opt_op \<Rightarrow> (nat \<rightharpoonup> 'v option) \<Rightarrow> exn option \<times> (nat \<rightharpoonup> 'v option)" where
  "opt_spec cp (O_new i) a = (None, a(i \<mapsto> None))"
| "opt_spec cp (O_of i v) a = copied cp v i a a"
| "opt_spec cp (O_copy i j) a = (case the (a j) of None \<Rightarrow> (None, a(i \<mapsto> None)) | Some v \<Rightarrow> copied cp v i a a)"
| "opt_spec cp (O_move i j) a = (None, a(i \<mapsto> the (a j), j \<mapsto> None))"
| "opt_spec cp (O_assign i j) a =
     (case the (a j) of None \<Rightarrow> (None, a(i \<mapsto> None)) | Some v \<Rightarrow> copied cp v i (a(i \<mapsto> None)) a)"
| "opt_spec cp (O_move_assign i j) a = (None, a(i \<mapsto> the (a j), j \<mapsto> None))"
| "opt_spec cp (O_assign_value i v) a = copied cp v i (a(i \<mapsto> None)) a"
| "opt_spec cp (O_reset i) a = (None, a(i \<mapsto> None))"
| "opt_spec cp (O_destroy i) a = (None, a(i := None))"

fun opt_legal :: "'v opt_op \<Rightarrow> (nat \<rightharpoonup> 'v option) \<Rightarrow> bool" where
  "opt_legal (O_new i) a \<longleftrightarrow> a i = None"
| "opt_legal (O_of i v) a \<longleftrightarrow> a i = None"
| "opt_legal (O_copy i j) a \<longleftrightarrow> a i = None \<and> a j \<noteq> None"
| "opt_legal (O_move i j) a \<longleftrightarrow> a i = None \<and> a j \<noteq> None"
| "opt_legal (O_assign i j) a \<longleftrightarrow> a i \<noteq> None \<and> a j \<noteq> None \<and> i \<noteq> j"
| "opt_legal (O_move_assign i j) a \<longleftrightarrow> a i \<noteq> None \<and> a j \<noteq> None \<and> i \<noteq> j"
| "opt_legal (O_assign_value i v) a \<longleftrightarrow> a i \<noteq> None"
| "opt_legal (O_reset i) a \<longleftrightarrow> a i \<noteq> None"
| "opt_legal (O_destroy i) a \<longleftrightarrow> a i \<noteq> None"

lemma opt_abs_set: "opt_abs (set_obj i x s) = (opt_abs s)(i \<mapsto> value_cell x)"
  by (simp add: opt_abs_def set_obj_def fun_eq_iff)

lemma opt_abs_del: "opt_abs (del_obj c i s) = (opt_abs s)(i := None)"
  by (simp add: opt_abs_def del_obj_def fun_eq_iff)

lemma opt_inv_del: "opt_inv s \<Longrightarrow> opt_inv (del_obj c i s)"
  by (simp add: opt_inv_def del_obj_def)

lemma optional_move_ok:
  assumes "opt_inv s" "objects s i = None" "objects s j = Some y"
  shows "optional_move mv i j s = Inr (set_obj i y (set_obj j \<lparr>hasValue = False, value_cell = None\<rparr> s))"
proof -
  have ij: "i \<noteq> j" using assms(2,3) by auto
  have n: "opt_inv (optional_new i s)" "objects (optional_new i s) i = Some \<lparr>hasValue = False, value_cell = None\<rparr>"
    "objects (optional_new i s) j = Some y"
    using assms ij by (simp_all add: optional_new_def opt_inv_set)
  show ?thesis
  proof (cases "value_cell y")
    case None
    then have "\<not> hasValue y" using assms(1,3) by (auto simp: opt_inv_def)
    then have y: "y = \<lparr>hasValue = False, value_cell = None\<rparr>" using None by (cases y) simp
    have "set_obj j y s = s" using assms(3) by (simp add: set_obj_def fun_upd_idem)
    then show ?thesis using n(3) y by (simp add: optional_move_def obj_def optional_new_def)
  next
    case (Some v)
    then have "hasValue y" using assms(1,3) by (auto simp: opt_inv_def)
    then have y: "y = \<lparr>hasValue = True, value_cell = Some v\<rparr>" using Some by (cases y) simp
    show ?thesis
      using emplace_move_reset [OF n Some ij] n(3) y ij
      by (simp add: optional_move_def obj_def optional_new_def set_obj_def fun_upd_twist)
  qed
qed

text \<open>
  optional refines its meaning: as long as no object is assigned to itself, every operation is
  defined, keeps the flag and the storage together, loses no object, and gives the result and the
  exception that the abstract operation gives; a copy that throws in an assignment leaves the target
  empty.
\<close>

theorem optional_refines:
  assumes inv: "opt_inv s" and legal: "opt_legal op (opt_abs s)"
  shows "\<exists>e s'. opt_do cp mv op s = Inr (e, s') \<and> opt_inv s' \<and> lost s' = lost s \<and> (e, opt_abs s') = opt_spec cp op (opt_abs s)"
proof -
  have new: "opt_inv (optional_new i s)" "objects (optional_new i s) i = Some \<lparr>hasValue = False, value_cell = None\<rparr>" for i
    using inv by (simp_all add: optional_new_def opt_inv_set)
  have live: "\<exists>x. objects s i = Some x" if "opt_abs s i \<noteq> None" for i using that by (auto simp: opt_abs_def)
  have dead: "objects s i = None" if "opt_abs s i = None" for i using that by (simp add: opt_abs_def)
  have inner: "hasValue y \<longleftrightarrow> value_cell y \<noteq> None" "opt_abs s j = Some (value_cell y)" if "objects s j = Some y" for j y
    using that inv by (auto simp: opt_inv_def opt_abs_def)
  note sets = opt_inv_set [OF inv] opt_abs_set
  show ?thesis
  proof (cases op)
    case (O_new i)
    then show ?thesis by (simp add: optional_new_def sets)
  next
    case (O_of i v)
    then have d: "objects s i = None" using legal dead by simp
    show ?thesis
      using emplace_copy_ok [OF new, of _ "Outside v" v cp] O_of d
      by (auto simp: optional_of_def constructed_def optional_new_def operand_abs_def sets copied_def opt_abs_del del_obj_new
        inv split: sum.split)
  next
    case (O_copy i j)
    then have d: "objects s i = None" using legal dead by simp
    obtain y where y: "objects s j = Some y" using live [of j] O_copy legal by auto
    have ij: "i \<noteq> j" using d y by auto
    have oy: "obj j (optional_new i s) = Inr y" using y ij by (simp add: obj_def optional_new_def)
    show ?thesis
    proof (cases "value_cell y")
      case None
      then show ?thesis
        using O_copy oy inner [OF y] new(1) by (simp add: optional_copy_def optional_new_def opt_abs_set)
    next
      case (Some v)
      then have "operand_abs i (Inside j) v (optional_new i s)"
        using ij inner(2) [OF y] by (simp add: operand_abs_def optional_new_def opt_abs_set)
      from emplace_copy_ok [OF new this, of cp] show ?thesis
        using O_copy oy inner [OF y] Some d
        by (auto simp: optional_copy_def constructed_def optional_new_def sets copied_def opt_abs_del del_obj_new inv
          split: sum.split)
    qed
  next
    case (O_move i j)
    then have d: "objects s i = None" using legal dead by simp
    obtain y where y: "objects s j = Some y" using live [of j] O_move legal by auto
    have ij: "i \<noteq> j" using d y by auto
    show ?thesis
      using O_move optional_move_ok [OF inv d y] inner [OF y] ij
      by (simp add: quiet_def sets opt_abs_set opt_inv_set fun_upd_twist)
  next
    case (O_assign i j)
    then have ij: "i \<noteq> j" using legal by simp
    obtain x y where xy: "objects s i = Some x" "objects s j = Some y" using live [of i] live [of j] O_assign legal by auto
    show ?thesis
    proof (cases "value_cell y")
      case None
      then show ?thesis
        using O_assign xy inner [OF xy(2)] opt_reset_ok [OF inv xy(1)] by (simp add: optional_assign_def obj_def sets)
    next
      case (Some v)
      then have "operand_abs i (Inside j) v s" using ij inner(2) [OF xy(2)] by (simp add: operand_abs_def)
      from emplace_copy_ok [OF inv xy(1) this, of cp] show ?thesis
        using O_assign xy inner [OF xy(2)] Some
        by (auto simp: optional_assign_def obj_def sets copied_def split: sum.split)
    qed
  next
    case (O_move_assign i j)
    then have ij: "i \<noteq> j" using legal by simp
    obtain x y where xy: "objects s i = Some x" "objects s j = Some y" using live [of i] live [of j] O_move_assign legal by auto
    obtain s' x' y' where s': "optional_move_assign mv i j s = Inr s'" "opt_inv s'" "lost s' = lost s"
      "objects s' = (objects s)(i \<mapsto> x', j \<mapsto> y')" "value_cell x' = value_cell y" "value_cell y' = None"
      using optional_holder.move_assign_law [OF inv ij xy, of mv] by blast
    have "opt_abs s' = (opt_abs s)(i \<mapsto> value_cell y, j \<mapsto> None)"
      using s'(4-6) by (simp add: opt_abs_def fun_eq_iff)
    then show ?thesis using O_move_assign s' inner [OF xy(2)] by (simp add: quiet_def)
  next
    case (O_assign_value i v)
    then obtain x where x: "objects s i = Some x" using live [of i] legal by auto
    show ?thesis
      using emplace_copy_ok [OF inv x, of "Outside v" v cp] O_assign_value
      by (auto simp: optional_assign_value_def operand_abs_def sets copied_def split: sum.split)
  next
    case (O_reset i)
    then obtain x where x: "objects s i = Some x" using live [of i] legal by auto
    show ?thesis using O_reset opt_reset_ok [OF inv x] by (simp add: quiet_def sets)
  next
    case (O_destroy i)
    then obtain x where x: "objects s i = Some x" using live [of i] legal by auto
    show ?thesis
      using O_destroy opt_reset_ok [OF inv x] by (simp add: quiet_def optional_destroy_def opt_abs_del opt_inv_del sets inv)
  qed
qed

text \<open>
  An optional with a value assigned to itself destroys the value before it copies it; a reference to
  the value passed to \<open>emplace\<close> does the same.
\<close>

theorem optional_self_assignment_undefined:
  assumes "opt_inv s" "objects s i = Some x" "hasValue x"
  shows "optional_assign cp i i s = Inl Undefined" "optional_move_assign mv i i s = Inl Undefined"
    "emplace_copy cp i (Inside i) s = Inl Undefined"
  using assms opt_reset_ok [OF assms(1,2)]
  by (simp_all add: optional_assign_def optional_move_assign_def emplace_copy_def emplace_move_def operand_value_def obj_def)

text \<open>A program of operations on optionals, and what it means.\<close>

fun opt_run :: "('v \<Rightarrow> exn + 'v) \<Rightarrow> ('v \<Rightarrow> 'v) \<Rightarrow> 'v opt_op list \<Rightarrow> 'v opt_store \<Rightarrow> (exn option list \<times> 'v opt_store) result" where
  "opt_run cp mv [] s = Inr ([], s)"
| "opt_run cp mv (op # ops) s =
     and_then (opt_do cp mv op s) (\<lambda>(e, s). and_then (opt_run cp mv ops s) (\<lambda>(es, s). Inr (e # es, s)))"

fun opt_spec_run :: "('v \<Rightarrow> exn + 'v) \<Rightarrow> 'v opt_op list \<Rightarrow> (nat \<rightharpoonup> 'v option) \<Rightarrow> (exn option list \<times> (nat \<rightharpoonup> 'v option)) option" where
  "opt_spec_run cp [] a = Some ([], a)"
| "opt_spec_run cp (op # ops) a =
     (if opt_legal op a
      then let (e, a) = opt_spec cp op a in map_option (\<lambda>(es, a). (e # es, a)) (opt_spec_run cp ops a)
      else None)"

lemma opt_run_refines:
  "opt_inv s \<Longrightarrow> opt_spec_run cp ops (opt_abs s) = Some (es, a) \<Longrightarrow>
   \<exists>s'. opt_run cp mv ops s = Inr (es, s') \<and> opt_inv s' \<and> lost s' = lost s \<and> opt_abs s' = a"
proof (induction ops arbitrary: s es)
  case Nil
  then show ?case by simp
next
  case (Cons op ops)
  obtain e s1 where s1: "opt_do cp mv op s = Inr (e, s1)" "opt_inv s1" "lost s1 = lost s"
    "(e, opt_abs s1) = opt_spec cp op (opt_abs s)"
    using optional_refines [OF Cons.prems(1), of op cp mv] Cons.prems(2) by (auto split: if_splits)
  obtain es' where es: "es = e # es'" "opt_spec_run cp ops (opt_abs s1) = Some (es', a)"
    using Cons.prems(2) s1(4) by (auto split: if_splits prod.splits)
  from Cons.IH [OF s1(2) es(2)] s1 es(1) show ?case by auto
qed

text \<open>
  C39: Whatever a program of constructions, copies, moves, assignments, resets and destructions of optionals
  does, self-assignment apart, its results and exceptions are those of optional values, no operation is
  undefined (an object is never destroyed twice or used after its end), and no held object is lost: none
  is constructed over and none is left behind when its optional ends.
\<close>

theorem optional_programs:
  fixes cp :: "'v \<Rightarrow> exn + 'v"
  assumes "opt_spec_run cp ops Map.empty = Some (es, a)"
  shows "\<exists>s. opt_run cp mv ops no_objects = Inr (es, s) \<and> lost s = [] \<and> opt_abs s = a"
proof -
  have "opt_inv (no_objects :: 'v opt_store)" "opt_abs (no_objects :: 'v opt_store) = Map.empty"
    "lost (no_objects :: 'v opt_store) = []"
    by (simp_all add: opt_inv_def no_objects_def opt_abs_def fun_eq_iff)
  then show ?thesis using opt_run_refines [of no_objects cp ops es a mv] assms by auto
qed

theorem optional_programs_witness:
  "\<exists>s. opt_run Inr id [O_new 0, O_of 1 (5 :: nat), O_assign 0 1, O_copy 2 0, O_move 3 2, O_reset 1, O_assign_value 1 7,
      O_move_assign 0 1, O_destroy 3] no_objects = Inr (replicate 9 None, s) \<and> lost s = [] \<and>
    opt_abs s = [0 \<mapsto> Some 7, 1 \<mapsto> None, 2 \<mapsto> None]"
  by (rule optional_programs) (simp add: copied_def numeral_eq_Suc fun_eq_iff)

subsection \<open>variant holds one of its types\<close>

definition var_inv :: "nat \<Rightarrow> 'v var_store \<Rightarrow> bool" where
  "var_inv n s \<longleftrightarrow> (\<forall>i x. objects s i = Some x \<longrightarrow> unat (index x) < n \<and> (\<exists>v. data x = Some (unat (index x), v)))"

lemma var_invD:
  assumes "var_inv n s" "objects s i = Some x"
  obtains v where "unat (index x) < n" "data x = Some (unat (index x), v)"
  using assms unfolding var_inv_def by blast

lemma destruct_ok:
  assumes "objects s i = Some x" "data x = Some (unat k, v)" "unat k < n"
  shows "destruct n i k s = Inr (set_obj i (x\<lparr>data := None\<rparr>) s)"
  using assms by (simp add: destruct_def obj_def object_at_def)

interpretation variant_holder: holder "var_inv n" data "map_option (map_prod id mv)" "variant_move_assign n mv"
  for n and mv :: "'v \<Rightarrow> 'v"
proof
  fix s :: "'v var_store" and i j x y
  assume s: "var_inv n s" "i \<noteq> j" "objects s i = Some x" "objects s j = Some y"
  obtain v w where v: "unat (index x) < n" "data x = Some (unat (index x), v)"
    and w: "unat (index y) < n" "data y = Some (unat (index y), w)"
    using s(1,3,4) by (metis var_invD)
  let ?x = "x\<lparr>index := index y, data := Some (unat (index y), w)\<rparr>" and ?y = "y\<lparr>data := Some (unat (index y), mv w)\<rparr>"
  let ?s = "set_obj i ?x (set_obj j ?y s)"
  have "destruct n i (index x) (set_index i (index y) s) = Inr (set_obj i (x\<lparr>index := index y, data := None\<rparr>) s)"
    using s(3) v by (simp add: destruct_def obj_def object_at_def set_index_def)
  then have "variant_move_assign n mv i j s = Inr ?s"
    using s(2-4) w
    by (simp add: variant_move_assign_def move_construct_def obj_def object_at_def var_construct_def
      set_obj_def fun_upd_twist)
  moreover have "objects ?s = (objects s)(i \<mapsto> ?x, j \<mapsto> ?y)" using s(2) by (simp add: fun_upd_twist)
  moreover have "var_inv n ?s" using s(1) w(1) by (simp add: var_inv_def)
  ultimately show "\<exists>s' x' y'. variant_move_assign n mv i j s = Inr s' \<and> var_inv n s' \<and> lost s' = lost s \<and>
      objects s' = (objects s)(i \<mapsto> x', j \<mapsto> y') \<and> data x' = data y \<and> data y' = map_option (map_prod id mv) (data y)"
    using w by (intro exI [of _ ?s] exI [of _ ?x] exI [of _ ?y]) simp
qed

text \<open>\<open>tuple_index\<close> finds the last type that matches, where overload resolution would find the best.\<close>

lemma tuple_index_none: "True \<notin> set p \<Longrightarrow> tuple_index p = - 1"
  by (induction p) (auto simp: Let_def)

theorem tuple_index_last:
  assumes "length q < 2 ^ 64 - 1" "True \<notin> set p"
  shows "tuple_index (q @ True # p) = word_of_nat (length q)"
  using assms(1)
proof (induction q)
  case Nil
  then show ?case by (simp add: tuple_index_none [OF assms(2)])
next
  case (Cons b q)
  have "(word_of_nat (length q) :: u64) \<noteq> - 1"
  proof
    assume "(word_of_nat (length q) :: u64) = - 1"
    then have "unat (word_of_nat (length q) :: u64) = unat (- 1 :: u64)" by simp
    then show False using Cons.prems by (simp add: unat_of_nat take_bit_eq_mod unsigned_minus_1_eq_mask mask_eq_exp_minus_1)
  qed
  then show ?case using Cons by (simp add: Let_def)
qed

text \<open>
  A variant always holds one of its types: two different variants can be assigned; assigned to itself, it
  copies what it has destroyed; and when the copy throws, the index has been set although nothing was
  constructed, so that the destructor, which will run, destroys an object that is not there.
\<close>

theorem variant_assignment:
  assumes inv: "var_inv n s" and x: "objects s i = Some x" and y: "objects s j = Some y"
  shows "(i = j \<longrightarrow> variant_assign n cp i j s = Inl Undefined \<and> variant_move_assign n mv i j s = Inl Undefined) \<and>
    (i \<noteq> j \<longrightarrow> (\<exists>v. data y = Some (unat (index y), v) \<and>
      (case cp v of
         Inr w \<Rightarrow> (\<exists>s'. variant_assign n cp i j s = Inr (None, s') \<and> var_inv n s' \<and> lost s' = lost s \<and>
           objects s' = (objects s)(i \<mapsto> \<lparr>index = index y, data = Some (unat (index y), w)\<rparr>))
       | Inl e \<Rightarrow> (\<exists>s'. variant_assign n cp i j s = Inr (Some e, s') \<and> variant_destroy n i s' = Inl Undefined))))"
proof (cases "i = j")
  case True
  obtain v where v: "unat (index x) < n" "data x = Some (unat (index x), v)" using var_invD [OF inv x] by blast
  have "destruct n i (index x) (set_index i (index x) s) = Inr (set_obj i (x\<lparr>data := None\<rparr>) s)"
    using x v by (simp add: destruct_def obj_def object_at_def set_index_def)
  then have "variant_assign n cp i i s = Inl Undefined" "variant_move_assign n mv i i s = Inl Undefined"
    using x v(1) by (simp_all add: variant_assign_def variant_move_assign_def copy_construct_def move_construct_def
      obj_def object_at_def)
  then show ?thesis using True by simp
next
  case False
  obtain v where v: "unat (index x) < n" "data x = Some (unat (index x), v)" using var_invD [OF inv x] by blast
  obtain w where w: "unat (index y) < n" "data y = Some (unat (index y), w)" using var_invD [OF inv y] by blast
  let ?d = "set_obj i (x\<lparr>index := index y, data := None\<rparr>) s"
  have d: "destruct n i (index x) (set_index i (index y) s) = Inr ?d"
    using x v by (simp add: destruct_def obj_def object_at_def set_index_def)
  have a: "variant_assign n cp i j s =
      Inr (case cp w of Inl e \<Rightarrow> (Some e, ?d) | Inr u \<Rightarrow> (None, var_construct i (unat (index y), u) ?d))"
    using x y w False by (simp add: variant_assign_def d copy_construct_def object_at_def obj_def split: sum.split)
  have gone: "variant_destroy n i ?d = Inl Undefined"
    using w(1) by (simp add: variant_destroy_def destruct_def obj_def object_at_def)
  have put: "var_construct i (unat (index y), u) ?d = set_obj i \<lparr>index = index y, data = Some (unat (index y), u)\<rparr> s" for u
    by (cases x) (simp add: var_construct_def set_obj_def)
  have keep: "var_inv n (set_obj i \<lparr>index = index y, data = Some (unat (index y), u)\<rparr> s)" for u
    using inv w(1) by (simp add: var_inv_def)
  show ?thesis
  proof (cases "cp w")
    case (Inl e)
    then show ?thesis using False w(2) a gone by simp
  next
    case (Inr u)
    then show ?thesis using False w(2) a put keep by simp
  qed
qed

subsection \<open>Variant loses what it held\<close>

text \<open>
  A move assignment to a \<open>Variant\<close> does not destroy what the target holds: that object is lost, and when
  the source is empty it stays in the storage of an object whose type says that there is none.
\<close>

theorem Variant_move_assign_leaks:
  assumes "i \<noteq> j" "objects s i = Some x" "type_index x = Some t" "mmr_data x = Some (t, v)"
    and "objects s j = Some y" "type_index y = map_option fst (mmr_data y)"
  shows "\<exists>s'. Variant_move_assign mv i j s = Inr s' \<and>
    (case mmr_data y of
       Some (u, w) \<Rightarrow> lost s' = lost s @ [(t, v)] \<and> Variant_get u i s' = Inr w
     | None \<Rightarrow> lost s' = lost s \<and>
         (\<exists>x'. objects s' i = Some x' \<and> type_index x' = None \<and> mmr_data x' = Some (t, v)))"
  using assms
  by (auto simp: Variant_move_assign_def moveInner_def obj_def object_at_def mmr_construct_def set_type_def set_obj_def
    Variant_get_def split: option.splits)

end
