(* ===== verification/TypeDict.thy ===== *)
theory TypeDict
  imports Prelude
begin

text \<open>
  The generic part (src/code/common/include/general): the compile-time functions on lists of types, the
  dictionary of values under tags that carries the constructors' parameters, the selection of policies,
  and the singleton. A template that recurses over a pack is a recursive function; \<open>None\<close> says
  that the program does not compile.
\<close>

subsection \<open>Lists of types (TypeOperator.hpp)\<close>

fun IsConvertibleToAny :: "('ty \<Rightarrow> 'ty \<Rightarrow> bool) \<Rightarrow> 'ty \<Rightarrow> 'ty list \<Rightarrow> bool" where
  "IsConvertibleToAny conv T [] \<longleftrightarrow> False"
| "IsConvertibleToAny conv T (U # Args) \<longleftrightarrow> (if conv T U then True else IsConvertibleToAny conv T Args)"

fun IsTypeInList :: "'ty \<Rightarrow> 'ty list \<Rightarrow> bool" where
  "IsTypeInList T [] \<longleftrightarrow> False"
| "IsTypeInList T (U # Args) \<longleftrightarrow> (if T = U then True else IsTypeInList T Args)"

fun HasDuplicateTypes :: "'ty list \<Rightarrow> bool option" where
  "HasDuplicateTypes [] = None"
| "HasDuplicateTypes [T] = Some False"
| "HasDuplicateTypes (T # Args) = (if IsTypeInList T Args then Some True else HasDuplicateTypes Args)"

fun ContainsType :: "'ty \<Rightarrow> 'ty list \<Rightarrow> bool" where
  "ContainsType Target [] \<longleftrightarrow> False"
| "ContainsType Target (First # Rest) \<longleftrightarrow> (if Target = First then True else ContainsType Target Rest)"

fun Tag2ID_rec :: "'ty \<Rightarrow> nat \<Rightarrow> 'ty list \<Rightarrow> nat option" where
  "Tag2ID_rec Find N [] = None"
| "Tag2ID_rec Find N (Cur # Tags) = (if Cur = Find then Some N else Tag2ID_rec Find (N + 1) Tags)"

definition Tag2ID :: "'ty \<Rightarrow> 'ty list \<Rightarrow> nat option" where
  "Tag2ID Find Tags = Tag2ID_rec Find 0 Tags"

fun Pos2Type :: "nat \<Rightarrow> 'ty list \<Rightarrow> 'ty option" where
  "Pos2Type Pos [] = None"
| "Pos2Type Pos (Cur # Tags) = (if Pos = 0 then Some Cur else Pos2Type (Pos - 1) Tags)"

subsection \<open>The dictionary (VarTypeDict.hpp)\<close>

text \<open>
  A value of the dictionary has as its type the list of the types of its entries, \<open>None\<close> for
  \<open>NullParameter\<close>; its array holds pointers to objects, each with the type it was made with.
\<close>

record ('ty, 'v) dict_values =
  TTypes :: "'ty option list"
  m_tuple :: "('ty \<times> 'v) option list"

fun Create_rec :: "nat \<Rightarrow> 'ty option list \<Rightarrow> 'ty option list" where
  "Create_rec 0 T = T"
| "Create_rec (Suc N) T = Create_rec N (None # T)"

definition Create :: "'tag list \<Rightarrow> ('ty, 'v) dict_values option" where
  "Create TParameters =
     (if HasDuplicateTypes TParameters = Some False
      then Some \<lparr>TTypes = Create_rec (length TParameters) [], m_tuple = replicate (length TParameters) None\<rparr>
      else None)"

fun NewTupleType_rec :: "'ty option \<Rightarrow> nat \<Rightarrow> nat \<Rightarrow> 'ty option list \<Rightarrow> 'ty option list \<Rightarrow> 'ty option list option" where
  "NewTupleType_rec TVal N M Modified [] = None"
| "NewTupleType_rec TVal N M Modified (Cur # Remain) =
     (if N = M then Some (Modified @ TVal # Remain) else NewTupleType_rec TVal N (M + 1) (Modified @ [Cur]) Remain)"

text \<open>\<open>Set\<close> of a value \<open>v\<close> of type \<open>ty\<close> gives a value of the new type with the array moved into it.\<close>

definition Set :: "'tag list \<Rightarrow> 'tag \<Rightarrow> 'ty \<times> 'v \<Rightarrow> ('ty, 'v) dict_values \<Rightarrow> ('ty, 'v) dict_values option" where
  "Set TParameters tag p d =
     (case Tag2ID tag TParameters of
        None \<Rightarrow> None
      | Some TagPos \<Rightarrow>
          map_option (\<lambda>new_type. \<lparr>TTypes = new_type, m_tuple = (m_tuple d)[TagPos := Some p]\<rparr>)
            (NewTupleType_rec (Some (fst p)) TagPos 0 [] (TTypes d)))"

text \<open>\<open>Get\<close> casts the pointer to the type of the entry, with no test, and follows it.\<close>

definition Get :: "'tag list \<Rightarrow> 'tag \<Rightarrow> ('ty, 'v) dict_values \<Rightarrow> 'v result option" where
  "Get TParameters tag d =
     (case Tag2ID tag TParameters of
        None \<Rightarrow> None
      | Some TagPos \<Rightarrow>
          map_option (\<lambda>AimType.
              case m_tuple d ! TagPos of
                None \<Rightarrow> Inl Undefined
              | Some (ty, v) \<Rightarrow> if AimType = Some ty then Inr v else Inl Undefined)
            (Pos2Type TagPos (TTypes d)))"

subsection \<open>Policies (PolicySelector.hpp)\<close>

text \<open>A policy has a major class, a minor class and what it says.\<close>

record ('ma, 'mi, 'x) policy =
  MajorClass :: 'ma
  MinorClass :: 'mi
  Value :: 'x

fun MajorFilter :: "('ma, 'mi, 'x) policy list \<Rightarrow> 'ma \<Rightarrow> ('ma, 'mi, 'x) policy list \<Rightarrow> ('ma, 'mi, 'x) policy list" where
  "MajorFilter Filtered Major [] = Filtered"
| "MajorFilter Filtered Major (Cur # TP) =
     (if MajorClass Cur = Major then MajorFilter (Filtered @ [Cur]) Major TP else MajorFilter Filtered Major TP)"

fun MinorDedup :: "'mi \<Rightarrow> ('ma, 'mi, 'x) policy list \<Rightarrow> bool" where
  "MinorDedup Minor [] \<longleftrightarrow> True"
| "MinorDedup Minor (Cur # TP) \<longleftrightarrow> (if Minor \<noteq> MinorClass Cur then MinorDedup Minor TP else False)"

fun MinorCheck :: "('ma, 'mi, 'x) policy list \<Rightarrow> bool" where
  "MinorCheck [] \<longleftrightarrow> True"
| "MinorCheck (Cur # TP) \<longleftrightarrow> (if MinorDedup (MinorClass Cur) TP then MinorCheck TP else False)"

definition PolicySelect :: "'ma \<Rightarrow> ('ma, 'mi, 'x) policy list \<Rightarrow> ('ma, 'mi, 'x) policy list option" where
  "PolicySelect Major Policies =
     (let TMF = MajorFilter [] Major Policies in if MinorCheck TMF then Some TMF else None)"

text \<open>
  A name in the selected class is that of the one base that redefines it, else that of the major class,
  which is a virtual base of all.
\<close>

definition policy_value :: "('mi \<Rightarrow> 'x) \<Rightarrow> 'mi \<Rightarrow> ('ma, 'mi, 'x) policy list \<Rightarrow> 'x" where
  "policy_value defaults m TMF = (case find (\<lambda>p. MinorClass p = m) TMF of None \<Rightarrow> defaults m | Some p \<Rightarrow> Value p)"

subsection \<open>The singleton (Singleton.hpp)\<close>

text \<open>The static pointer with its object; the first argument of \<open>initInstance\<close> is the object it would make.\<close>

definition initInstance :: "'a \<Rightarrow> 'a option \<Rightarrow> 'a option" where
  "initInstance new m_pInstance = (case m_pInstance of None \<Rightarrow> Some new | Some p \<Rightarrow> Some p)"

definition destroyInstance :: "'a option \<Rightarrow> 'a option" where
  "destroyInstance m_pInstance = None"

subsection \<open>What the functions on types compute\<close>

lemma types_in_list:
  "IsTypeInList T Ts \<longleftrightarrow> T \<in> set Ts" "ContainsType T Ts \<longleftrightarrow> T \<in> set Ts"
  "IsConvertibleToAny conv T Ts \<longleftrightarrow> (\<exists>U \<in> set Ts. conv T U)"
  by (induction Ts) auto

lemma HasDuplicateTypes_distinct: "Ts \<noteq> [] \<Longrightarrow> HasDuplicateTypes Ts = Some (\<not> distinct Ts)"
  by (induction Ts rule: HasDuplicateTypes.induct) (auto simp: types_in_list)

lemma Tag2ID_append: "T \<notin> set As \<Longrightarrow> Tag2ID_rec T N (As @ T # Bs) = Some (N + length As)"
  by (induction As arbitrary: N) auto

lemma Tag2ID_rec_None: "T \<notin> set Ts \<Longrightarrow> Tag2ID_rec T N Ts = None"
  by (induction Ts arbitrary: N) auto

lemma Tag2ID_nth: "distinct Ts \<Longrightarrow> i < length Ts \<Longrightarrow> Tag2ID (Ts ! i) Ts = Some i"
proof -
  assume d: "distinct Ts" "i < length Ts"
  then have s: "Ts = take i Ts @ Ts ! i # drop (Suc i) Ts" by (simp add: id_take_nth_drop)
  have "Ts ! i \<notin> set (take i Ts)" using d by (auto simp: in_set_conv_nth nth_eq_iff_index_eq)
  from Tag2ID_append [OF this, of 0 "drop (Suc i) Ts"] s d(2) show ?thesis by (simp add: Tag2ID_def)
qed

lemma Tag2ID_None: "T \<notin> set Ts \<Longrightarrow> Tag2ID T Ts = None"
  by (simp add: Tag2ID_def Tag2ID_rec_None)

lemma Pos2Type_nth: "Pos2Type i Ts = (if i < length Ts then Some (Ts ! i) else None)"
  by (induction Ts arbitrary: i) (auto simp: nth_Cons')

lemma NewTupleType_update:
  "M \<le> N \<Longrightarrow> N < M + length Ts \<Longrightarrow> NewTupleType_rec T N M As Ts = Some (As @ Ts[N - M := T])"
proof (induction Ts arbitrary: M As)
  case (Cons U Ts)
  show ?case
  proof (cases "N = M")
    case False
    then have "N - M = Suc (N - Suc M)" "Suc M \<le> N" using Cons.prems(1) by simp_all
    then show ?thesis using Cons False by simp
  qed simp
qed simp

lemma Create_replicate: "Create_rec n T = replicate n None @ T"
  by (induction n arbitrary: T) (simp_all add: replicate_app_Cons_same)

subsection \<open>The dictionary is a map with types\<close>

definition dict_inv :: "nat \<Rightarrow> ('ty, 'v) dict_values \<Rightarrow> bool" where
  "dict_inv n d \<longleftrightarrow> length (m_tuple d) = n \<and> TTypes d = map (map_option fst) (m_tuple d)"

lemma Set_ok:
  assumes "dict_inv (length tags) d" "distinct tags" "i < length tags"
  shows "Set tags (tags ! i) p d = Some \<lparr>TTypes = (TTypes d)[i := Some (fst p)], m_tuple = (m_tuple d)[i := Some p]\<rparr>"
  using assms by (simp add: Set_def Tag2ID_nth dict_inv_def NewTupleType_update)

lemma Get_ok:
  assumes "dict_inv (length tags) d" "distinct tags" "i < length tags"
  shows "Get tags (tags ! i) d = Some (case m_tuple d ! i of None \<Rightarrow> Inl Undefined | Some p \<Rightarrow> Inr (snd p))"
  using assms by (auto simp: Get_def Tag2ID_nth dict_inv_def Pos2Type_nth split: option.split)

lemma dict_inv_set: "dict_inv n d \<Longrightarrow> dict_inv n \<lparr>TTypes = (TTypes d)[i := Some (fst p)], m_tuple = (m_tuple d)[i := Some p]\<rparr>"
  by (simp add: dict_inv_def map_update)

text \<open>A chain of \<open>Set\<close>s on a fresh dictionary.\<close>

fun build :: "'tag list \<Rightarrow> ('tag \<times> 'ty \<times> 'v) list \<Rightarrow> ('ty, 'v) dict_values \<Rightarrow> ('ty, 'v) dict_values option" where
  "build tags [] d = Some d"
| "build tags ((tag, p) # ss) d = Option.bind (Set tags tag p d) (build tags ss)"

lemma build_ok:
  assumes "dict_inv (length tags) d" "distinct tags" "fst ` set ss \<subseteq> set tags"
  shows "\<exists>d'. build tags ss d = Some d' \<and> dict_inv (length tags) d' \<and>
    (\<forall>i < length tags. m_tuple d' ! i = (case map_of (rev ss) (tags ! i) of None \<Rightarrow> m_tuple d ! i | Some p \<Rightarrow> Some p))"
  using assms
proof (induction ss arbitrary: d)
  case Nil
  then show ?case by simp
next
  case (Cons x ss)
  obtain tag p where x: "x = (tag, p)" by (cases x)
  have "tag \<in> set tags" and ss: "fst ` set ss \<subseteq> set tags" using Cons.prems(3) x by simp_all
  then obtain k where k: "k < length tags" "tag = tags ! k" by (metis in_set_conv_nth)
  let ?d = "\<lparr>TTypes = (TTypes d)[k := Some (fst p)], m_tuple = (m_tuple d)[k := Some p]\<rparr>"
  have s: "Set tags tag p d = Some ?d" using Set_ok [OF Cons.prems(1,2) k(1)] k(2) by simp
  obtain d' where d': "build tags ss ?d = Some d'" "dict_inv (length tags) d'"
    "\<And>i. i < length tags \<Longrightarrow> m_tuple d' ! i = (case map_of (rev ss) (tags ! i) of None \<Rightarrow> m_tuple ?d ! i | Some q \<Rightarrow> Some q)"
    using Cons.IH [OF dict_inv_set [OF Cons.prems(1)] Cons.prems(2) ss, of k p] by blast
  have "m_tuple d' ! i = (case map_of (rev (x # ss)) (tags ! i) of None \<Rightarrow> m_tuple d ! i | Some q \<Rightarrow> Some q)"
    if i: "i < length tags" for i
  proof -
    have "m_tuple ?d ! i = (if i = k then Some p else m_tuple d ! i)"
      using Cons.prems(1) i by (simp add: dict_inv_def nth_list_update)
    moreover have "tags ! i = tag \<longleftrightarrow> i = k" using i k Cons.prems(2) by (simp add: nth_eq_iff_index_eq)
    ultimately show ?thesis
      using d'(3) [OF i] by (cases "map_of (rev ss) (tags ! i)") (simp_all add: x map_add_def)
  qed
  then show ?case using d'(1,2) s by (simp add: x)
qed

text \<open>
  The dictionary of constructor parameters compiles for distinct tags, and whatever values of whatever types
  are set under them, in any order and again, a tag gives back its last value, read as an object of the
  type it was made with; a tag never set gives a null pointer that is followed.
\<close>

theorem dictionary_is_a_map:
  assumes "tags \<noteq> []" "distinct tags" "fst ` set ss \<subseteq> set tags" "tag \<in> set tags"
  shows "\<exists>d0 d :: ('ty, 'v) dict_values. Create tags = Some d0 \<and> build tags ss d0 = Some d \<and>
    Get tags tag d = Some (case map_of (rev ss) tag of None \<Rightarrow> Inl Undefined | Some (ty, v) \<Rightarrow> Inr v)"
proof -
  let ?d0 = "\<lparr>TTypes = replicate (length tags) None, m_tuple = replicate (length tags) None\<rparr> :: ('ty, 'v) dict_values"
  have c: "Create tags = Some ?d0"
    using assms(1,2) by (simp add: Create_def HasDuplicateTypes_distinct Create_replicate)
  have i0: "dict_inv (length tags) ?d0" by (simp add: dict_inv_def)
  obtain d where d: "build tags ss ?d0 = Some d" "dict_inv (length tags) d"
    "\<And>i. i < length tags \<Longrightarrow> m_tuple d ! i = (case map_of (rev ss) (tags ! i) of None \<Rightarrow> m_tuple ?d0 ! i | Some p \<Rightarrow> Some p)"
    using build_ok [OF i0 assms(2,3)] by blast
  obtain i where i: "i < length tags" "tag = tags ! i" using assms(4) by (auto simp: in_set_conv_nth)
  have "Get tags tag d = Some (case map_of (rev ss) tag of None \<Rightarrow> Inl Undefined | Some (ty, v) \<Rightarrow> Inr v)"
    using Get_ok [OF d(2) assms(2) i(1)] d(3) [OF i(1)] i by (auto split: option.split)
  then show ?thesis using c d(1) by blast
qed

text \<open>The parameters of the logger: a number of files, a size, whether it is asynchronous.\<close>

theorem dictionary_is_a_map_witness:
  "\<exists>d0 d. Create [''TagLogFileNum'', ''TagLogFileSize'', ''TagAsyn''] = Some d0 \<and>
     build [''TagLogFileNum'', ''TagLogFileSize'', ''TagAsyn'']
       [(''TagLogFileNum'', ''long'', 10), (''TagLogFileSize'', ''long'', 16), (''TagAsyn'', ''bool'', 1 :: nat)] d0 = Some d \<and>
     Get [''TagLogFileNum'', ''TagLogFileSize'', ''TagAsyn''] ''TagLogFileSize'' d = Some (Inr 16)"
  using dictionary_is_a_map [of "[''TagLogFileNum'', ''TagLogFileSize'', ''TagAsyn'']"
      "[(''TagLogFileNum'', ''long'', 10), (''TagLogFileSize'', ''long'', 16), (''TagAsyn'', ''bool'', 1 :: nat)]" "''TagLogFileSize''"]
  by simp

subsection \<open>Selection\<close>

lemma MajorFilter_filter: "MajorFilter Fs Ma Ps = Fs @ filter (\<lambda>p. MajorClass p = Ma) Ps"
  by (induction Ps arbitrary: Fs) auto

lemma MinorCheck_distinct: "MinorCheck Ps \<longleftrightarrow> distinct (map MinorClass Ps)"
proof (induction Ps)
  case (Cons P Ps)
  have "MinorDedup m Ps \<longleftrightarrow> m \<notin> MinorClass ` set Ps" for m by (induction Ps) auto
  then show ?case using Cons by auto
qed simp

lemma policy_value_mem:
  assumes "distinct (map MinorClass Ps)" "p \<in> set Ps"
  shows "policy_value defaults (MinorClass p) Ps = Value p"
  using assms by (induction Ps) (auto simp: policy_value_def image_iff)

lemma policy_value_default: "m \<notin> MinorClass ` set Ps \<Longrightarrow> policy_value defaults m Ps = defaults m"
  by (induction Ps) (auto simp: policy_value_def)

text \<open>
  The selection compiles when no two policies of the class say the same thing, and then each thing is said
  by its policy or by the class; the order of the policies and those of other classes do not matter.
\<close>

theorem policies_selected:
  "PolicySelect Ma Ps \<noteq> None \<longleftrightarrow> distinct (map MinorClass (filter (\<lambda>p. MajorClass p = Ma) Ps))"
  "PolicySelect Ma Ps = Some TMF \<Longrightarrow> p \<in> set Ps \<Longrightarrow> MajorClass p = Ma \<Longrightarrow>
    policy_value defaults (MinorClass p) TMF = Value p"
  "PolicySelect Ma Ps = Some TMF \<Longrightarrow> (\<forall>p \<in> set Ps. MajorClass p = Ma \<longrightarrow> MinorClass p \<noteq> m) \<Longrightarrow>
    policy_value defaults m TMF = defaults m"
  by (auto simp: PolicySelect_def MajorFilter_filter MinorCheck_distinct Let_def policy_value_mem intro!: policy_value_default
    split: if_splits)

text \<open>The first instance stays until it is destroyed, whatever later calls would make.\<close>

lemma singleton_first: "initInstance b (initInstance a None) = Some a" "initInstance b (destroyInstance p) = Some b"
  by (simp_all add: initInstance_def destroyInstance_def)

end
