(* ===== verification/RowMatrix.thy ===== *)
theory RowMatrix
  imports Prelude
begin

text \<open>
  The matrix of rows (src/code/common/include/util/CMatrix.h,
  src/code/common/source/util/CMatrix.cpp): a block of pointers to one block for each row, on an
  explicit heap, so that sharing, leaks and double frees are visible. The elements of a new row,
  \<open>junk\<close>, are arbitrary. Sizes are \<open>size_t\<close> values; a size in bytes beyond \<open>2 ^ 63 - 1\<close> makes
  \<open>new[]\<close> throw, so that no product of a size that exists wraps around; that memory runs out is not
  modelled. \<open>delete m_array\<close> does not match the \<open>new[]\<close> of the block, which the language leaves
  undefined: the heap carries the answer of the implementation, \<open>plain_delete\<close>, whether it frees
  such a block (glibc and libstdc++ do, their \<open>operator delete[]\<close> being \<open>operator delete\<close>).
\<close>

subsection \<open>The heap\<close>

record 'a row_heap =
  row_at :: "nat \<rightharpoonup> 'a list"
  array_at :: "nat \<rightharpoonup> nat list"
  top_addr :: nat
  elem_bytes :: nat
  plain_delete :: bool

fun new_rows :: "(nat \<Rightarrow> 'a) \<Rightarrow> nat \<Rightarrow> nat \<Rightarrow> 'a row_heap \<Rightarrow> nat list \<times> 'a row_heap" where
  "new_rows junk 0 c h = ([], h)"
| "new_rows junk (Suc r) c h =
     (let p = top_addr h;
          h = h\<lparr>row_at := (row_at h)(p \<mapsto> map junk [0..<c]), top_addr := Suc p\<rparr>;
          (ps, h) = new_rows junk r c h
      in (p # ps, h))"

text \<open>
  The sizes that \<open>new[]\<close> accepts, in bytes, for the pointers and for the elements of a row (of which
  there may be none); a count is a \<open>size_t\<close>.
\<close>

definition allocatable :: "nat \<Rightarrow> nat \<Rightarrow> nat \<Rightarrow> bool" where
  "allocatable b r c \<longleftrightarrow> 8 * r < 2 ^ 63 \<and> c < 2 ^ 64 \<and> (r = 0 \<or> b * c < 2 ^ 63)"

definition new_array :: "(nat \<Rightarrow> 'a) \<Rightarrow> nat \<Rightarrow> nat \<Rightarrow> 'a row_heap \<Rightarrow> (nat \<times> 'a row_heap) result" where
  "new_array junk r c h =
     (if \<not> allocatable (elem_bytes h) r c then Inl (Throws (Std_exception ''std::bad_array_new_length''))
      else let p = top_addr h; (ps, h) = new_rows junk r c (h\<lparr>top_addr := Suc p\<rparr>)
      in Inr (p, h\<lparr>array_at := (array_at h)(p \<mapsto> ps)\<rparr>))"

fun delete_rows :: "nat list \<Rightarrow> 'a row_heap \<Rightarrow> 'a row_heap result" where
  "delete_rows [] h = Inr h"
| "delete_rows (q # qs) h =
     (if row_at h q = None then Inl Undefined
      else delete_rows qs (h\<lparr>row_at := (row_at h)(q := None)\<rparr>))"

text \<open>Copying \<open>c\<close> elements of each source row over the target row at the same index.\<close>

fun copy_rows :: "nat \<Rightarrow> nat list \<Rightarrow> nat list \<Rightarrow> 'a row_heap \<Rightarrow> 'a row_heap result" where
  "copy_rows c [] ss h = Inr h"
| "copy_rows c (d # ds) [] h = Inl Undefined"
| "copy_rows c (d # ds) (s # ss) h =
     (case (row_at h d, row_at h s) of
        (Some xs, Some ys) \<Rightarrow>
          if length xs < c \<or> length ys < c then Inl Undefined
          else copy_rows c ds ss (h\<lparr>row_at := (row_at h)(d \<mapsto> take c ys @ drop c xs)\<rparr>)
      | _ \<Rightarrow> Inl Undefined)"

text \<open>Writing \<open>c\<close> copies of a value over each row.\<close>

fun fill_rows :: "nat \<Rightarrow> 'a \<Rightarrow> nat list \<Rightarrow> 'a row_heap \<Rightarrow> 'a row_heap result" where
  "fill_rows c v [] h = Inr h"
| "fill_rows c v (d # ds) h =
     (case row_at h d of
        None \<Rightarrow> Inl Undefined
      | Some xs \<Rightarrow> if length xs < c then Inl Undefined
          else fill_rows c v ds (h\<lparr>row_at := (row_at h)(d \<mapsto> replicate c v @ drop c xs)\<rparr>))"

subsection \<open>The class\<close>

record cmatrix =
  m_rows :: nat
  m_cols :: nat
  m_array :: "nat option"

text \<open>The element types the class is instantiated with.\<close>

datatype elem_type =
  T_bool | T_uint8 | T_int8 | T_uint16 | T_int16 | T_uint32 | T_int32 | T_uint64 | T_int64
| T_float | T_double | T_string

definition isBuildInDataType :: "elem_type \<Rightarrow> bool" where
  "isBuildInDataType t \<longleftrightarrow> t \<in> {T_bool, T_uint8, T_int8, T_uint16, T_int16, T_uint32, T_int32,
     T_uint64, T_int64, T_float, T_double}"

text \<open>\<open>sizeof\<close> of the element, on 64-bit Linux with libstdc++.\<close>

definition elem_size :: "elem_type \<Rightarrow> nat" where
  "elem_size t =
     (if t \<in> {T_bool, T_uint8, T_int8} then 1 else if t \<in> {T_uint16, T_int16} then 2
      else if t \<in> {T_uint32, T_int32, T_float} then 4 else if t = T_string then 32 else 8)"

definition CMatrix_empty :: cmatrix where
  "CMatrix_empty = \<lparr>m_rows = 0, m_cols = 0, m_array = None\<rparr>"

definition CMatrix_new :: "(nat \<Rightarrow> 'a) \<Rightarrow> nat \<Rightarrow> nat \<Rightarrow> 'a row_heap \<Rightarrow> (cmatrix \<times> 'a row_heap) result" where
  "CMatrix_new junk nRow nCol h =
     and_then (new_array junk nRow nCol h) (\<lambda>(p, h).
       Inr (\<lparr>m_rows = nRow, m_cols = nCol, m_array = Some p\<rparr>, h))"

text \<open>The pointers of the rows, \<open>m_array[0]\<close> to \<open>m_array[m_rows - 1]\<close>.\<close>

definition row_pointers :: "cmatrix \<Rightarrow> 'a row_heap \<Rightarrow> nat list result" where
  "row_pointers m h =
     (if m_rows m = 0 then Inr []
      else case m_array m of
        None \<Rightarrow> Inl Undefined
      | Some p \<Rightarrow> (case array_at h p of
            None \<Rightarrow> Inl Undefined
          | Some ps \<Rightarrow> if length ps < m_rows m then Inl Undefined else Inr (take (m_rows m) ps)))"

text \<open>The counts are kept; every caller overwrites them or is the destructor.\<close>

definition destroyArray :: "cmatrix \<Rightarrow> 'a row_heap \<Rightarrow> (cmatrix \<times> 'a row_heap) result" where
  "destroyArray m h =
     (if m_rows m = 0 \<and> m_cols m = 0 \<and> m_array m = None then Inr (m, h)
      else and_then (row_pointers m h) (\<lambda>ps. and_then (delete_rows ps h) (\<lambda>h.
        case m_array m of
          None \<Rightarrow> Inr (m, h)
        | Some p \<Rightarrow> if array_at h p = None \<or> \<not> plain_delete h then Inl Undefined
            else Inr (m\<lparr>m_array := None\<rparr>, h\<lparr>array_at := (array_at h)(p := None)\<rparr>))))"

definition reSizeArray :: "(nat \<Rightarrow> 'a) \<Rightarrow> nat \<Rightarrow> nat \<Rightarrow> cmatrix \<Rightarrow> 'a row_heap \<Rightarrow> (cmatrix \<times> 'a row_heap) result" where
  "reSizeArray junk nRow nCol m h =
     (if m_rows m \<noteq> nRow \<or> m_cols m \<noteq> nCol
      then and_then (destroyArray m h) (\<lambda>(m, h). and_then (new_array junk nRow nCol h) (\<lambda>(p, h).
        Inr (m\<lparr>m_rows := nRow, m_cols := nCol, m_array := Some p\<rparr>, h)))
      else Inr (m, h))"

text \<open>\<open>memset\<close> with zero bytes makes the zero of each of the numeric types.\<close>

definition zeroArray :: "elem_type \<Rightarrow> 'a \<Rightarrow> cmatrix \<Rightarrow> 'a row_heap \<Rightarrow> (bool \<times> 'a row_heap) result" where
  "zeroArray t z m h =
     (if isBuildInDataType t
      then and_then (row_pointers m h) (\<lambda>ps. and_then (fill_rows (m_cols m) z ps h) (\<lambda>h. Inr (True, h)))
      else Inr (False, h))"

definition row_ptr :: "nat \<Rightarrow> cmatrix \<Rightarrow> 'a row_heap \<Rightarrow> nat result" where
  "row_ptr i m h =
     (case m_array m of
        None \<Rightarrow> Inl Undefined
      | Some p \<Rightarrow> (case array_at h p of
            None \<Rightarrow> Inl Undefined
          | Some ps \<Rightarrow> if i < length ps then Inr (ps ! i) else Inl Undefined))"

text \<open>Reading and writing \<open>m[i][j]\<close>.\<close>

definition cell :: "nat \<Rightarrow> nat \<Rightarrow> cmatrix \<Rightarrow> 'a row_heap \<Rightarrow> 'a result" where
  "cell i j m h = and_then (row_ptr i m h) (\<lambda>q. case row_at h q of
     None \<Rightarrow> Inl Undefined | Some xs \<Rightarrow> if j < length xs then Inr (xs ! j) else Inl Undefined)"

definition cell_assign :: "nat \<Rightarrow> nat \<Rightarrow> 'a \<Rightarrow> cmatrix \<Rightarrow> 'a row_heap \<Rightarrow> 'a row_heap result" where
  "cell_assign i j v m h = and_then (row_ptr i m h) (\<lambda>q. case row_at h q of
     None \<Rightarrow> Inl Undefined
   | Some xs \<Rightarrow> if j < length xs then Inr (h\<lparr>row_at := (row_at h)(q \<mapsto> xs[j := v])\<rparr>) else Inl Undefined)"

text \<open>
  \<open>operator=\<close> with a value: for a built-in type the first row is filled and copied over the others,
  otherwise each row is filled.
\<close>

definition fill_assign :: "elem_type \<Rightarrow> 'a \<Rightarrow> cmatrix \<Rightarrow> 'a row_heap \<Rightarrow> 'a row_heap result" where
  "fill_assign t v m h =
     and_then (row_pointers m h) (\<lambda>ps.
       if isBuildInDataType t
       then case ps of
           [] \<Rightarrow> Inr h
         | p # ps \<Rightarrow> and_then (fill_rows (m_cols m) v [p] h)
             (copy_rows (m_cols m) ps (replicate (length ps) p))
       else fill_rows (m_cols m) v ps h)"

text \<open>Both branches of the copy, \<open>memcpy\<close> of rows and assignment of elements, leave the same rows.\<close>

definition copy_assign :: "(nat \<Rightarrow> 'a) \<Rightarrow> cmatrix \<Rightarrow> cmatrix \<Rightarrow> 'a row_heap \<Rightarrow> (cmatrix \<times> 'a row_heap) result" where
  "copy_assign junk rhs m h =
     (if m_array m \<noteq> m_array rhs \<or> m_rows m \<noteq> m_rows rhs \<or> m_cols m \<noteq> m_cols rhs
      then and_then
        (if m_rows m \<noteq> m_rows rhs \<or> m_cols m \<noteq> m_cols rhs
         then reSizeArray junk (m_rows rhs) (m_cols rhs) m h else Inr (m, h)) (\<lambda>(m, h).
        and_then (row_pointers m h) (\<lambda>ds. and_then (row_pointers rhs h) (\<lambda>ss.
        and_then (copy_rows (m_cols m) ds ss h) (\<lambda>h. Inr (m, h)))))
      else Inr (m, h))"

definition CMatrix_copy :: "(nat \<Rightarrow> 'a) \<Rightarrow> cmatrix \<Rightarrow> 'a row_heap \<Rightarrow> (cmatrix \<times> 'a row_heap) result" where
  "CMatrix_copy junk rhs h = copy_assign junk rhs CMatrix_empty h"

text \<open>The moves: the target and what is left of the source.\<close>

definition CMatrix_move :: "cmatrix \<Rightarrow> cmatrix \<times> cmatrix" where
  "CMatrix_move rhs = (rhs, CMatrix_empty)"

definition move_assign :: "cmatrix \<Rightarrow> cmatrix \<Rightarrow> 'a row_heap \<Rightarrow> (cmatrix \<times> cmatrix \<times> 'a row_heap) result" where
  "move_assign rhs m h =
     (if m_array m \<noteq> m_array rhs
      then and_then (destroyArray m h) (\<lambda>(m, h). Inr (rhs, CMatrix_empty, h))
      else Inr (m, rhs, h))"

text \<open>
  \<open>operator==\<close>: the loops count with \<open>int\<close>, whose increment at its largest value is undefined. \<open>ne\<close>
  is the \<open>!=\<close> of the elements.
\<close>

function eq_cells :: "('a \<Rightarrow> 'a \<Rightarrow> bool) \<Rightarrow> nat \<Rightarrow> nat \<Rightarrow> 'a list \<Rightarrow> 'a list \<Rightarrow> bool result" where
  "eq_cells ne c j xs ys =
     (if c \<le> j then Inr True
      else if length xs \<le> j \<or> length ys \<le> j then Inl Undefined
      else if ne (xs ! j) (ys ! j) then Inr False
      else if j = 2 ^ 31 - 1 then Inl Undefined
      else eq_cells ne c (Suc j) xs ys)"
  by pat_completeness auto
termination by (relation "measure (\<lambda>(ne, c, j, xs, ys). c - j)") auto

function eq_rows :: "('a \<Rightarrow> 'a \<Rightarrow> bool) \<Rightarrow> nat \<Rightarrow> nat \<Rightarrow> nat \<Rightarrow> nat list \<Rightarrow> nat list \<Rightarrow> 'a row_heap \<Rightarrow> bool result" where
  "eq_rows ne r c i ps qs h =
     (if r \<le> i then Inr True
      else if length ps \<le> i \<or> length qs \<le> i then Inl Undefined
      else case (row_at h (ps ! i), row_at h (qs ! i)) of
        (Some xs, Some ys) \<Rightarrow> and_then (eq_cells ne c 0 xs ys) (\<lambda>e.
           if \<not> e then Inr False
           else if i = 2 ^ 31 - 1 then Inl Undefined
           else eq_rows ne r c (Suc i) ps qs h)
      | _ \<Rightarrow> Inl Undefined)"
  by pat_completeness auto
termination by (relation "measure (\<lambda>(ne, r, c, i, ps, qs, h). r - i)") auto

declare eq_cells.simps [simp del] eq_rows.simps [simp del]

definition matrix_eq :: "('a \<Rightarrow> 'a \<Rightarrow> bool) \<Rightarrow> cmatrix \<Rightarrow> cmatrix \<Rightarrow> 'a row_heap \<Rightarrow> bool result" where
  "matrix_eq ne m rhs h =
     (if m_cols m \<noteq> m_cols rhs \<or> m_rows m \<noteq> m_rows rhs then Inr False
      else and_then (row_pointers m h) (\<lambda>ps. and_then (row_pointers rhs h) (\<lambda>qs.
        eq_rows ne (m_rows m) (m_cols m) 0 ps qs h)))"

definition matrix_ne :: "('a \<Rightarrow> 'a \<Rightarrow> bool) \<Rightarrow> cmatrix \<Rightarrow> cmatrix \<Rightarrow> 'a row_heap \<Rightarrow> bool result" where
  "matrix_ne ne m rhs h = and_then (matrix_eq ne m rhs h) (\<lambda>e. Inr (\<not> e))"

subsection \<open>Ownership\<close>

definition arrays_of :: "cmatrix \<Rightarrow> nat set" where
  "arrays_of m = set_option (m_array m)"

definition pointers :: "'a row_heap \<Rightarrow> cmatrix \<Rightarrow> nat list" where
  "pointers h m = (case m_array m of None \<Rightarrow> [] | Some p \<Rightarrow> the (array_at h p))"

text \<open>The value of a matrix: the number of columns and the rows.\<close>

type_synonym 'a grid = "nat \<times> 'a list list"

definition grid_of :: "'a row_heap \<Rightarrow> cmatrix \<Rightarrow> 'a grid" where
  "grid_of h m = (m_cols m, map (\<lambda>q. the (row_at h q)) (pointers h m))"

definition cm_ok :: "'a row_heap \<Rightarrow> cmatrix \<Rightarrow> bool" where
  "cm_ok h m \<longleftrightarrow>
     (m_array m = None \<longrightarrow> m_rows m = 0 \<and> m_cols m = 0) \<and>
     arrays_of m \<subseteq> dom (array_at h) \<and>
     allocatable (elem_bytes h) (m_rows m) (m_cols m) \<and>
     length (pointers h m) = m_rows m \<and> distinct (pointers h m) \<and>
     (\<forall>q \<in> set (pointers h m). \<exists>xs. row_at h q = Some xs \<and> length xs = m_cols m)"

definition bounded :: "'a row_heap \<Rightarrow> bool" where
  "bounded h \<longleftrightarrow> plain_delete h \<and>
     (\<forall>p ps. array_at h p = Some ps \<longrightarrow> p < top_addr h) \<and>
     (\<forall>q xs. row_at h q = Some xs \<longrightarrow> q < top_addr h)"

text \<open>
  One operation on one matrix, from \<open>m\<close> to \<open>m'\<close>: the new matrix is in order, nothing outside what
  the old one owned is touched, and what the old one owned and the new one does not is freed.
\<close>

definition replaces :: "'a row_heap \<Rightarrow> cmatrix \<Rightarrow> 'a row_heap \<Rightarrow> cmatrix \<Rightarrow> bool" where
  "replaces h m h' m' \<longleftrightarrow>
     cm_ok h' m' \<and> bounded h' \<and> top_addr h \<le> top_addr h' \<and> elem_bytes h' = elem_bytes h \<and>
     dom (array_at h') = dom (array_at h) - arrays_of m \<union> arrays_of m' \<and>
     dom (row_at h') = dom (row_at h) - set (pointers h m) \<union> set (pointers h' m') \<and>
     (\<forall>p \<in> dom (array_at h) - arrays_of m. array_at h' p = array_at h p \<and> p \<notin> arrays_of m') \<and>
     (\<forall>q \<in> dom (row_at h) - set (pointers h m). row_at h' q = row_at h q \<and> q \<notin> set (pointers h' m'))"

lemma cm_ok_pointers: "cm_ok h m \<Longrightarrow> row_pointers m h = Inr (pointers h m)"
  by (cases "m_array m") (auto simp: cm_ok_def row_pointers_def pointers_def arrays_of_def split: option.splits)

lemma empty_ok [simp]: "cm_ok h CMatrix_empty" "arrays_of CMatrix_empty = {}" "pointers h CMatrix_empty = []"
  "grid_of h CMatrix_empty = (0, [])"
  by (simp_all add: cm_ok_def CMatrix_empty_def arrays_of_def pointers_def grid_of_def allocatable_def)

lemma new_rows_result:
  "new_rows junk r c h = (ps, h') \<Longrightarrow>
     length ps = r \<and> distinct ps \<and> set ps = {top_addr h..<top_addr h + r} \<and>
     top_addr h' = top_addr h + r \<and> array_at h' = array_at h \<and> elem_bytes h' = elem_bytes h \<and>
     plain_delete h' = plain_delete h \<and> (\<forall>q. row_at h' q = (if q \<in> set ps then Some (map junk [0..<c]) else row_at h q))"
proof (induction r arbitrary: h ps h')
  case (Suc r)
  let ?p = "top_addr h"
  let ?h = "h\<lparr>row_at := (row_at h)(?p \<mapsto> map junk [0..<c]), top_addr := Suc ?p\<rparr>"
  obtain qs where qs: "new_rows junk r c ?h = (qs, h')" "ps = ?p # qs"
    using Suc.prems by (auto simp: Let_def split: prod.splits)
  from Suc.IH [OF qs(1)] show ?case by (auto simp: qs(2))
qed simp

lemma new_array_ok:
  assumes "allocatable (elem_bytes h) r c"
  obtains p h' where "new_array junk r c h = Inr (p, h')"
proof -
  obtain ps h' where "new_rows junk r c (h\<lparr>top_addr := Suc (top_addr h)\<rparr>) = (ps, h')" by fastforce
  then show thesis using assms that by (simp add: new_array_def Let_def)
qed

lemma new_array_replaces:
  assumes "new_array junk r c h = Inr (p, h')" and b: "bounded h"
  shows "replaces h CMatrix_empty h' \<lparr>m_rows = r, m_cols = c, m_array = Some p\<rparr> \<and>
    grid_of h' \<lparr>m_rows = r, m_cols = c, m_array = Some p\<rparr> = (c, replicate r (map junk [0..<c]))"
proof -
  let ?h = "h\<lparr>top_addr := Suc (top_addr h)\<rparr>"
  obtain ps h1 where n: "new_rows junk r c ?h = (ps, h1)" and p: "p = top_addr h"
    and h': "h' = h1\<lparr>array_at := (array_at h1)(p \<mapsto> ps)\<rparr>" and al: "allocatable (elem_bytes h) r c"
    using assms(1) by (auto simp: new_array_def Let_def split: prod.splits if_splits)
  note R = new_rows_result [OF n]
  have b': "q \<notin> dom (array_at h)" "q \<notin> dom (row_at h)" if "top_addr h \<le> q" for q
    using b that by (force simp: bounded_def)+
  have ptr: "pointers h' \<lparr>m_rows = r, m_cols = c, m_array = Some p\<rparr> = ps"
    by (simp add: pointers_def h')
  have rows: "row_at h' q = (if q \<in> set ps then Some (map junk [0..<c]) else row_at h q)" for q
    using R by (simp add: h')
  have top: "top_addr h' = Suc (top_addr h) + r" using R by (simp add: h')
  have arr: "array_at h' = (array_at h)(p \<mapsto> ps)" using R by (simp add: h')
  have b'': "bounded h'"
    unfolding bounded_def
  proof (intro conjI allI impI)
    show "plain_delete h'" using R b by (simp add: h' bounded_def)
    show "q < top_addr h'" if "array_at h' q = Some x" for q x
      using that b'(1) [of q] top by (cases "q = p") (auto simp: arr p not_le [symmetric])
    show "q < top_addr h'" if "row_at h' q = Some x" for q x
      using that b'(2) [of q] top R by (cases "q \<in> set ps") (auto simp: rows not_le [symmetric])
  qed
  have old: "q \<notin> set ps" if "q \<in> dom (row_at h)" for q
    using R b'(2) [of q] that by auto
  have g: "map (\<lambda>q. the (row_at h' q)) ps = replicate r (map junk [0..<c])"
    using R rows by (intro replicate_eqI) auto
  have "replaces h CMatrix_empty h' \<lparr>m_rows = r, m_cols = c, m_array = Some p\<rparr>"
    unfolding replaces_def cm_ok_def ptr empty_ok
  proof (intro conjI)
    show "bounded h'" by (rule b'')
    show "dom (row_at h') = dom (row_at h) - set [] \<union> set ps"
      unfolding dom_def rows by auto
    show "\<forall>q \<in> dom (row_at h) - set []. row_at h' q = row_at h q \<and> q \<notin> set ps"
      using old rows by auto
    show "dom (array_at h') = dom (array_at h) - {} \<union> arrays_of \<lparr>m_rows = r, m_cols = c, m_array = Some p\<rparr>"
      using R by (auto simp: h' arrays_of_def)
    show "\<forall>q \<in> dom (array_at h) - {}. array_at h' q = array_at h q \<and>
        q \<notin> arrays_of \<lparr>m_rows = r, m_cols = c, m_array = Some p\<rparr>"
      using R b'(1) [of p] p by (auto simp: h' arrays_of_def)
    show "elem_bytes h' = elem_bytes h" using R by (simp add: h')
    show "allocatable (elem_bytes h') (m_rows \<lparr>m_rows = r, m_cols = c, m_array = Some p\<rparr>)
        (m_cols \<lparr>m_rows = r, m_cols = c, m_array = Some p\<rparr>)" using R al by (simp add: h')
  qed (use R rows top in \<open>simp_all add: arr arrays_of_def\<close>)
  then show ?thesis using g by (simp add: grid_of_def ptr)
qed

lemma delete_rows_result:
  "distinct ps \<Longrightarrow> set ps \<subseteq> dom (row_at h) \<Longrightarrow>
     delete_rows ps h = Inr (h\<lparr>row_at := row_at h |` (- set ps)\<rparr>)"
proof (induction ps arbitrary: h)
  case Nil
  have "row_at h |` (- {}) = row_at h" by (rule ext) (simp add: restrict_map_def)
  then show ?case by simp
next
  case (Cons q qs)
  let ?h = "h\<lparr>row_at := (row_at h)(q := None)\<rparr>"
  have e: "((row_at h)(q := None)) |` (- set qs) = row_at h |` (- set (q # qs))"
    by (rule ext) (simp add: restrict_map_def)
  have "delete_rows qs ?h = Inr (?h\<lparr>row_at := row_at ?h |` (- set qs)\<rparr>)"
    by (rule Cons.IH) (use Cons.prems in auto)
  then have "delete_rows qs ?h = Inr (h\<lparr>row_at := row_at h |` (- set (q # qs))\<rparr>)"
    using e by simp
  then show ?case using Cons.prems by auto
qed

lemma destroyArray_replaces:
  assumes ok: "cm_ok h m" and b: "bounded h"
  obtains m' h' where "destroyArray m h = Inr (m', h')" "m' = m\<lparr>m_array := None\<rparr>"
    "replaces h m h' CMatrix_empty"
proof (cases "m_array m")
  case None
  then have "destroyArray m h = Inr (m, h)" using ok by (simp add: destroyArray_def cm_ok_def)
  moreover have "replaces h m h CMatrix_empty"
    using None b by (simp add: replaces_def) (simp add: arrays_of_def pointers_def)
  ultimately show thesis using that None by simp
next
  case (Some p)
  have d: "p \<in> dom (array_at h)" using ok Some by (simp add: cm_ok_def arrays_of_def)
  have s: "set (pointers h m) \<subseteq> dom (row_at h)" "distinct (pointers h m)"
    using ok by (auto simp: cm_ok_def)
  let ?h = "h\<lparr>row_at := row_at h |` (- set (pointers h m)), array_at := (array_at h)(p := None)\<rparr>"
  have "destroyArray m h = Inr (m\<lparr>m_array := None\<rparr>, ?h)"
    using d Some b by (simp add: destroyArray_def cm_ok_pointers [OF ok] delete_rows_result [OF s(2,1)] domIff bounded_def)
  moreover have "replaces h m ?h CMatrix_empty"
    using b Some unfolding replaces_def empty_ok
    by (auto simp: bounded_def arrays_of_def restrict_map_def split: if_splits)
  ultimately show thesis using that by simp
qed

lemma replaces_trans:
  "replaces h m h' CMatrix_empty \<Longrightarrow> replaces h' CMatrix_empty h'' m'' \<Longrightarrow> replaces h m h'' m''"
  by (auto simp: replaces_def)

lemma replaces_refl: "cm_ok h m \<Longrightarrow> bounded h \<Longrightarrow> replaces h m h m"
  by (auto simp: replaces_def cm_ok_def)

lemma reSizeArray_replaces:
  assumes ok: "cm_ok h m" and b: "bounded h" and ne: "m_rows m \<noteq> r \<or> m_cols m \<noteq> c"
    and al: "allocatable (elem_bytes h) r c"
  obtains m' h' where "reSizeArray junk r c m h = Inr (m', h')" "replaces h m h' m'"
    "grid_of h' m' = (c, replicate r (map junk [0..<c]))" "m_rows m' = r" "m_cols m' = c"
proof -
  obtain h1 where d: "destroyArray m h = Inr (m\<lparr>m_array := None\<rparr>, h1)" "replaces h m h1 CMatrix_empty"
    by (rule destroyArray_replaces [OF ok b]) simp
  have "allocatable (elem_bytes h1) r c" using al d(2) by (simp add: replaces_def)
  then obtain p h2 where n: "new_array junk r c h1 = Inr (p, h2)" by (rule new_array_ok)
  let ?m = "\<lparr>m_rows = r, m_cols = c, m_array = Some p\<rparr>"
  have "bounded h1" using d(2) by (simp add: replaces_def)
  from new_array_replaces [OF n this] have
    r: "replaces h1 CMatrix_empty h2 ?m" "grid_of h2 ?m = (c, replicate r (map junk [0..<c]))" by blast+
  have "m\<lparr>m_array := None, m_rows := r, m_cols := c, m_array := Some p\<rparr> = ?m" by simp
  then have "reSizeArray junk r c m h = Inr (?m, h2)" using ne by (simp add: reSizeArray_def d(1) n)
  then show thesis using that replaces_trans [OF d(2) r(1)] r(2) by simp
qed

lemma copy_rows_result:
  assumes "distinct ds" "set ds \<inter> set ss = {}" "length ds = length ss"
    and "\<forall>q \<in> set ds \<union> set ss. \<exists>xs. row_at h q = Some xs \<and> length xs = c"
  shows "\<exists>R. copy_rows c ds ss h = Inr (h\<lparr>row_at := R\<rparr>) \<and> map R ds = map (row_at h) ss \<and>
    (\<forall>q. q \<notin> set ds \<longrightarrow> R q = row_at h q)"
  using assms
proof (induction ds arbitrary: ss h)
  case Nil
  then show ?case by (intro exI [of _ "row_at h"]) simp
next
  case (Cons d ds)
  then obtain s ss' where ss: "ss = s # ss'" by (cases ss) auto
  obtain xs ys where r: "row_at h d = Some xs" "length xs = c" "row_at h s = Some ys" "length ys = c"
    using Cons.prems(4) ss by auto
  let ?h = "h\<lparr>row_at := (row_at h)(d \<mapsto> ys)\<rparr>"
  have "\<exists>R. copy_rows c ds ss' ?h = Inr (?h\<lparr>row_at := R\<rparr>) \<and> map R ds = map (row_at ?h) ss' \<and>
      (\<forall>q. q \<notin> set ds \<longrightarrow> R q = row_at ?h q)"
    by (rule Cons.IH) (use Cons.prems ss r in auto)
  then obtain R where R: "copy_rows c ds ss' ?h = Inr (?h\<lparr>row_at := R\<rparr>)" "map R ds = map (row_at ?h) ss'"
    "\<forall>q. q \<notin> set ds \<longrightarrow> R q = row_at ?h q" by blast
  have "map (row_at ?h) ss' = map (row_at h) ss'" using Cons.prems(2) ss by auto
  moreover have "R d = Some ys" using R(3) Cons.prems(1) by simp
  ultimately show ?case using R r Cons.prems(1) by (intro exI [of _ R]) (simp add: ss)
qed

lemma fill_rows_result:
  assumes "distinct ds" "\<forall>q \<in> set ds. \<exists>xs. row_at h q = Some xs \<and> length xs = c"
  shows "\<exists>R. fill_rows c v ds h = Inr (h\<lparr>row_at := R\<rparr>) \<and> (\<forall>q \<in> set ds. R q = Some (replicate c v)) \<and>
    (\<forall>q. q \<notin> set ds \<longrightarrow> R q = row_at h q)"
  using assms
proof (induction ds arbitrary: h)
  case Nil
  then show ?case by (intro exI [of _ "row_at h"]) simp
next
  case (Cons d ds)
  obtain xs where r: "row_at h d = Some xs" "length xs = c" using Cons.prems(2) by auto
  let ?h = "h\<lparr>row_at := (row_at h)(d \<mapsto> replicate c v)\<rparr>"
  have "\<exists>R. fill_rows c v ds ?h = Inr (?h\<lparr>row_at := R\<rparr>) \<and> (\<forall>q \<in> set ds. R q = Some (replicate c v)) \<and>
      (\<forall>q. q \<notin> set ds \<longrightarrow> R q = row_at ?h q)"
    by (rule Cons.IH) (use Cons.prems in auto)
  then obtain R where R: "fill_rows c v ds ?h = Inr (?h\<lparr>row_at := R\<rparr>)"
    "\<forall>q \<in> set ds. R q = Some (replicate c v)" "\<forall>q. q \<notin> set ds \<longrightarrow> R q = row_at ?h q" by blast
  then show ?case using r Cons.prems(1) by (intro exI [of _ R]) auto
qed

lemma cm_ok_rows: "cm_ok h m \<Longrightarrow> q \<in> set (pointers h m) \<Longrightarrow> \<exists>xs. row_at h q = Some xs \<and> length xs = m_cols m"
  by (simp add: cm_ok_def)

text \<open>Writing over the rows of a matrix, each with as many elements.\<close>

lemma overwrite_replaces:
  assumes ok: "cm_ok h m" and b: "bounded h"
    and out: "\<forall>q. q \<notin> set (pointers h m) \<longrightarrow> R q = row_at h q"
    and ins: "\<forall>q \<in> set (pointers h m). \<exists>xs. R q = Some xs \<and> length xs = m_cols m"
  shows "replaces h m (h\<lparr>row_at := R\<rparr>) m"
    and "grid_of (h\<lparr>row_at := R\<rparr>) m = (m_cols m, map (\<lambda>q. the (R q)) (pointers h m))"
proof -
  let ?h = "h\<lparr>row_at := R\<rparr>"
  have ptr: "pointers ?h m = pointers h m" by (simp add: pointers_def split: option.splits)
  have sub: "set (pointers h m) \<subseteq> dom (row_at h)" using ok by (auto simp: cm_ok_def)
  have d: "dom R = dom (row_at h)"
    using out ins sub by (metis (no_types, lifting) domIff option.distinct(1) subset_eq subsetI subset_antisym)
  have "\<exists>ys. row_at h q = Some ys" if "R q = Some xs" for q xs
    using that d by (metis domD domI)
  then have "bounded ?h" using b by (fastforce simp: bounded_def)
  moreover have "arrays_of m \<subseteq> dom (array_at h)" using ok by (simp add: cm_ok_def)
  ultimately show "replaces h m ?h m"
    using ok ins out d sub unfolding replaces_def cm_ok_def ptr by auto
  show "grid_of ?h m = (m_cols m, map (\<lambda>q. the (R q)) (pointers h m))"
    by (simp add: grid_of_def ptr)
qed

lemma rows_filled:
  assumes ok: "cm_ok h m" and b: "bounded h"
    and out: "\<forall>q. q \<notin> set (pointers h m) \<longrightarrow> R q = row_at h q"
    and ins: "\<forall>q \<in> set (pointers h m). R q = Some (replicate (m_cols m) v)"
  shows "replaces h m (h\<lparr>row_at := R\<rparr>) m"
    and "grid_of (h\<lparr>row_at := R\<rparr>) m = (m_cols m, replicate (m_rows m) (replicate (m_cols m) v))"
proof -
  have len: "length (pointers h m) = m_rows m" using ok by (simp add: cm_ok_def)
  have i: "\<forall>q \<in> set (pointers h m). \<exists>xs. R q = Some xs \<and> length xs = m_cols m" using ins by simp
  show "replaces h m (h\<lparr>row_at := R\<rparr>) m" by (rule overwrite_replaces(1) [OF ok b out i])
  have "map (\<lambda>q. the (R q)) (pointers h m) = replicate (m_rows m) (replicate (m_cols m) v)"
    unfolding len [symmetric] by (rule replicate_eqI) (use ins in auto)
  then show "grid_of (h\<lparr>row_at := R\<rparr>) m = (m_cols m, replicate (m_rows m) (replicate (m_cols m) v))"
    using overwrite_replaces(2) [OF ok b out i] by simp
qed

lemma fill_assign_replaces:
  assumes ok: "cm_ok h m" and b: "bounded h"
  obtains h' where "fill_assign t v m h = Inr h'" "replaces h m h' m"
    "grid_of h' m = (m_cols m, replicate (m_rows m) (replicate (m_cols m) v))"
proof -
  let ?ps = "pointers h m" and ?c = "m_cols m"
  have rows: "\<forall>q \<in> set ?ps. \<exists>xs. row_at h q = Some xs \<and> length xs = ?c" and d: "distinct ?ps"
    using ok by (auto simp: cm_ok_def)
  have "\<exists>R. fill_assign t v m h = Inr (h\<lparr>row_at := R\<rparr>) \<and> (\<forall>q \<in> set ?ps. R q = Some (replicate ?c v)) \<and>
      (\<forall>q. q \<notin> set ?ps \<longrightarrow> R q = row_at h q)"
  proof (cases "isBuildInDataType t")
    case False
    then show ?thesis using fill_rows_result [OF d rows, of v] by (simp add: fill_assign_def cm_ok_pointers [OF ok])
  next
    case True
    show ?thesis
    proof (cases ?ps)
      case Nil
      then show ?thesis
        using True by (intro exI [of _ "row_at h"]) (simp add: fill_assign_def cm_ok_pointers [OF ok])
    next
      case (Cons p ps)
      let ?h = "h\<lparr>row_at := (row_at h)(p \<mapsto> replicate ?c v)\<rparr>"
      obtain xs where p: "row_at h p = Some xs" "length xs = ?c" using rows Cons by auto
      have "\<exists>R. copy_rows ?c ps (replicate (length ps) p) ?h = Inr (?h\<lparr>row_at := R\<rparr>) \<and>
          map R ps = map (row_at ?h) (replicate (length ps) p) \<and> (\<forall>q. q \<notin> set ps \<longrightarrow> R q = row_at ?h q)"
        by (rule copy_rows_result) (use d rows Cons in auto)
      then obtain R where R: "copy_rows ?c ps (replicate (length ps) p) ?h = Inr (?h\<lparr>row_at := R\<rparr>)"
        "map R ps = map (row_at ?h) (replicate (length ps) p)" "\<forall>q. q \<notin> set ps \<longrightarrow> R q = row_at ?h q" by blast
      have "\<forall>q \<in> set ps. R q = Some (replicate ?c v)"
        using R(2) by (auto simp: map_replicate list_eq_iff_nth_eq in_set_conv_nth)
      then show ?thesis
        using True R d p Cons
        by (intro exI [of _ R]) (auto simp: fill_assign_def cm_ok_pointers [OF ok])
    qed
  qed
  then obtain R where R: "fill_assign t v m h = Inr (h\<lparr>row_at := R\<rparr>)"
    "\<forall>q \<in> set ?ps. R q = Some (replicate ?c v)" "\<forall>q. q \<notin> set ?ps \<longrightarrow> R q = row_at h q" by blast
  then show thesis using that [OF R(1)] rows_filled [OF ok b R(3,2)] by blast
qed

lemma zeroArray_replaces:
  assumes ok: "cm_ok h m" and b: "bounded h" and t: "isBuildInDataType t"
  obtains h' where "zeroArray t z m h = Inr (True, h')" "replaces h m h' m"
    "grid_of h' m = (m_cols m, replicate (m_rows m) (replicate (m_cols m) z))"
proof -
  let ?ps = "pointers h m" and ?c = "m_cols m"
  have rows: "\<forall>q \<in> set ?ps. \<exists>xs. row_at h q = Some xs \<and> length xs = ?c" and d: "distinct ?ps"
    using ok by (auto simp: cm_ok_def)
  obtain R where R: "fill_rows ?c z ?ps h = Inr (h\<lparr>row_at := R\<rparr>)"
    "\<forall>q \<in> set ?ps. R q = Some (replicate ?c z)" "\<forall>q. q \<notin> set ?ps \<longrightarrow> R q = row_at h q"
    using fill_rows_result [OF d rows] by blast
  have "zeroArray t z m h = Inr (True, h\<lparr>row_at := R\<rparr>)"
    using R(1) t by (simp add: zeroArray_def cm_ok_pointers [OF ok])
  then show thesis using that rows_filled [OF ok b R(3,2)] by blast
qed

text \<open>Copying the rows of one matrix over those of another of the same shape.\<close>

lemma copy_over:
  assumes ok: "cm_ok h m" "cm_ok h rhs" and b: "bounded h"
    and dims: "m_rows m = m_rows rhs" "m_cols m = m_cols rhs"
    and dis: "set (pointers h m) \<inter> set (pointers h rhs) = {}"
  obtains h' where "copy_rows (m_cols m) (pointers h m) (pointers h rhs) h = Inr h'"
    "replaces h m h' m" "grid_of h' m = grid_of h rhs"
proof -
  let ?ds = "pointers h m" and ?ss = "pointers h rhs"
  have len: "length ?ds = length ?ss" "distinct ?ds" using ok dims by (simp_all add: cm_ok_def)
  have rows: "\<forall>q \<in> set ?ds \<union> set ?ss. \<exists>xs. row_at h q = Some xs \<and> length xs = m_cols m"
    using ok dims by (auto simp: cm_ok_def)
  obtain R where R: "copy_rows (m_cols m) ?ds ?ss h = Inr (h\<lparr>row_at := R\<rparr>)"
    "map R ?ds = map (row_at h) ?ss" "\<forall>q. q \<notin> set ?ds \<longrightarrow> R q = row_at h q"
    using copy_rows_result [OF len(2) dis len(1) rows] by blast
  have ins: "\<forall>q \<in> set ?ds. \<exists>xs. R q = Some xs \<and> length xs = m_cols m"
  proof
    fix q assume "q \<in> set ?ds"
    then have "R q \<in> set (map (row_at h) ?ss)" unfolding R(2) [symmetric] by simp
    then show "\<exists>xs. R q = Some xs \<and> length xs = m_cols m" using rows by auto
  qed
  have "map the (map R ?ds) = map the (map (row_at h) ?ss)" by (simp only: R(2))
  then have "grid_of (h\<lparr>row_at := R\<rparr>) m = grid_of h rhs"
    using overwrite_replaces(2) [OF ok(1) b R(3) ins] dims by (simp add: grid_of_def comp_def)
  then show thesis using that [OF R(1)] overwrite_replaces(1) [OF ok(1) b R(3) ins] by simp
qed

subsection \<open>Programs with matrices\<close>

text \<open>The objects of a program, by name, and the heap behind them.\<close>

type_synonym ('x, 'a) objects = "('x \<rightharpoonup> cmatrix) \<times> 'a row_heap"

definition objects_inv :: "('x, 'a) objects \<Rightarrow> bool" where
  "objects_inv = (\<lambda>(ms, h). bounded h \<and> (\<forall>x m. ms x = Some m \<longrightarrow> cm_ok h m) \<and>
     (\<forall>x y m n. ms x = Some m \<longrightarrow> ms y = Some n \<longrightarrow> x \<noteq> y \<longrightarrow>
        arrays_of m \<inter> arrays_of n = {} \<and> set (pointers h m) \<inter> set (pointers h n) = {}) \<and>
     (\<forall>p \<in> dom (array_at h). \<exists>x m. ms x = Some m \<and> p \<in> arrays_of m) \<and>
     (\<forall>q \<in> dom (row_at h). \<exists>x m. ms x = Some m \<and> q \<in> set (pointers h m)))"

definition grids :: "('x, 'a) objects \<Rightarrow> 'x \<rightharpoonup> 'a grid" where
  "grids = (\<lambda>(ms, h) x. map_option (grid_of h) (ms x))"

lemma objects_invD:
  assumes "objects_inv (ms, h)"
  shows "bounded h" and "ms x = Some m \<Longrightarrow> cm_ok h m"
    and "ms x = Some m \<Longrightarrow> ms y = Some n \<Longrightarrow> x \<noteq> y \<Longrightarrow> arrays_of m \<inter> arrays_of n = {}"
    and "ms x = Some m \<Longrightarrow> ms y = Some n \<Longrightarrow> x \<noteq> y \<Longrightarrow> set (pointers h m) \<inter> set (pointers h n) = {}"
    and "array_at h p \<noteq> None \<Longrightarrow> \<exists>x m. ms x = Some m \<and> p \<in> arrays_of m"
    and "row_at h q \<noteq> None \<Longrightarrow> \<exists>x m. ms x = Some m \<and> q \<in> set (pointers h m)"
  using assms unfolding objects_inv_def by (blast, blast, blast, blast, auto simp: domIff)

text \<open>What an operation on one object does not own, it keeps.\<close>

lemma replaces_keeps:
  assumes r: "replaces h m h' m'" and ok: "cm_ok h n"
    and dis: "arrays_of m \<inter> arrays_of n = {}" "set (pointers h m) \<inter> set (pointers h n) = {}"
  shows "pointers h' n = pointers h n" "grid_of h' n = grid_of h n" "cm_ok h' n"
    "arrays_of m' \<inter> arrays_of n = {}" "set (pointers h' m') \<inter> set (pointers h n) = {}"
proof -
  have a: "array_at h' p = array_at h p \<and> p \<notin> arrays_of m'" if "p \<in> arrays_of n" for p
    using r ok dis(1) that by (auto simp: replaces_def cm_ok_def)
  have q: "row_at h' q = row_at h q \<and> q \<notin> set (pointers h' m')" if "q \<in> set (pointers h n)" for q
  proof -
    have "q \<in> dom (row_at h) - set (pointers h m)" using cm_ok_rows [OF ok that] dis(2) that by auto
    then show ?thesis using r unfolding replaces_def by blast
  qed
  show p: "pointers h' n = pointers h n"
    using a by (auto simp: pointers_def arrays_of_def split: option.splits)
  show "grid_of h' n = grid_of h n" using q by (simp add: grid_of_def p)
  have "arrays_of n \<subseteq> dom (array_at h')" using ok a by (fastforce simp: cm_ok_def)
  moreover have "elem_bytes h' = elem_bytes h" using r by (simp add: replaces_def)
  ultimately show "cm_ok h' n" using ok q unfolding cm_ok_def p by auto
  show "arrays_of m' \<inter> arrays_of n = {}" "set (pointers h' m') \<inter> set (pointers h n) = {}"
    using a q by blast+
qed

lemma objects_replace:
  assumes inv: "objects_inv (ms, h)" and x: "ms x = Some m" and r: "replaces h m h' m'"
  shows "objects_inv (ms(x \<mapsto> m'), h')"
    and "grids (ms(x \<mapsto> m'), h') = (grids (ms, h))(x \<mapsto> grid_of h' m')"
proof -
  note D = objects_invD [OF inv]
  have keep: "pointers h' n = pointers h n" "grid_of h' n = grid_of h n" "cm_ok h' n"
      "arrays_of m' \<inter> arrays_of n = {}" "set (pointers h' m') \<inter> set (pointers h n) = {}"
    if "ms y = Some n" "y \<noteq> x" for y n
    using replaces_keeps [OF r D(2) [OF that(1)]] D(3,4) [OF x that(1) that(2) [symmetric]] by blast+
  have ok: "cm_ok h' m'" and b: "bounded h'" using r by (simp_all add: replaces_def)
  have da: "dom (array_at h') = dom (array_at h) - arrays_of m \<union> arrays_of m'"
    and dr: "dom (row_at h') = dom (row_at h) - set (pointers h m) \<union> set (pointers h' m')"
    using r by (simp_all add: replaces_def)
  show "grids (ms(x \<mapsto> m'), h') = (grids (ms, h))(x \<mapsto> grid_of h' m')"
  proof
    fix y
    show "grids (ms(x \<mapsto> m'), h') y = ((grids (ms, h))(x \<mapsto> grid_of h' m')) y"
      using keep(2) [of y] by (cases "ms y") (auto simp: grids_def)
  qed
  show "objects_inv (ms(x \<mapsto> m'), h')"
    unfolding objects_inv_def split
  proof (intro conjI allI impI ballI)
    show "cm_ok h' n" if "(ms(x \<mapsto> m')) y = Some n" for y n
      using that ok keep(3) by (auto split: if_splits)
    show "arrays_of n1 \<inter> arrays_of n2 = {}"
      if "(ms(x \<mapsto> m')) y = Some n1" "(ms(x \<mapsto> m')) z = Some n2" "y \<noteq> z" for y z n1 n2
      using that keep(4) D(3) [of y n1 z n2] by (auto split: if_splits)
    show "set (pointers h' n1) \<inter> set (pointers h' n2) = {}"
      if "(ms(x \<mapsto> m')) y = Some n1" "(ms(x \<mapsto> m')) z = Some n2" "y \<noteq> z" for y z n1 n2
      using that keep(1,5) [of y n1] keep(1,5) [of z n2] D(4) [of y n1 z n2]
      by (auto split: if_splits)
    show "\<exists>y n. (ms(x \<mapsto> m')) y = Some n \<and> p \<in> arrays_of n" if "p \<in> dom (array_at h')" for p
    proof (cases "p \<in> arrays_of m'")
      case False
      then have "array_at h p \<noteq> None" "p \<notin> arrays_of m" using that unfolding da by auto
      then show ?thesis using D(5) [of p] x by (metis fun_upd_apply option.inject)
    qed (use that in auto)
    show "\<exists>y n. (ms(x \<mapsto> m')) y = Some n \<and> q \<in> set (pointers h' n)" if "q \<in> dom (row_at h')" for q
    proof (cases "q \<in> set (pointers h' m')")
      case False
      then have q: "row_at h q \<noteq> None" "q \<notin> set (pointers h m)" using that unfolding dr by auto
      from D(6) [OF q(1)] obtain y n where "ms y = Some n" "q \<in> set (pointers h n)" by blast
      moreover have "y \<noteq> x" using calculation x q(2) by auto
      ultimately show ?thesis using keep(1) by (intro exI [of _ y] exI [of _ n]) auto
    qed (use that in auto)
  qed (rule b)
qed

text \<open>An object that owns nothing can be added or dropped, and two objects can change places.\<close>

lemma objects_add_empty:
  assumes inv: "objects_inv (ms, h)" and x: "ms x = None"
  shows "objects_inv (ms(x \<mapsto> CMatrix_empty), h)"
proof -
  note D = objects_invD [OF inv]
  show ?thesis
    unfolding objects_inv_def split
  proof (intro conjI allI impI ballI)
    show "\<exists>y n. (ms(x \<mapsto> CMatrix_empty)) y = Some n \<and> p \<in> arrays_of n" if "p \<in> dom (array_at h)" for p
      using D(5) [of p] that x by (metis domIff fun_upd_apply option.distinct(1))
    show "\<exists>y n. (ms(x \<mapsto> CMatrix_empty)) y = Some n \<and> q \<in> set (pointers h n)" if "q \<in> dom (row_at h)" for q
      using D(6) [of q] that x by (metis domIff fun_upd_apply option.distinct(1))
    show "arrays_of m \<inter> arrays_of n = {}" "set (pointers h m) \<inter> set (pointers h n) = {}"
      if "(ms(x \<mapsto> CMatrix_empty)) y = Some m" "(ms(x \<mapsto> CMatrix_empty)) z = Some n" "y \<noteq> z" for y z m n
      using that D(3,4) [of y m z n] by (auto split: if_splits)
    show "cm_ok h m" if "(ms(x \<mapsto> CMatrix_empty)) y = Some m" for y m
      using that D(2) by (auto split: if_splits)
  qed (rule D(1))
qed

lemma objects_drop_empty:
  assumes inv: "objects_inv (ms, h)" and x: "ms x = Some CMatrix_empty"
  shows "objects_inv (ms(x := None), h)"
proof -
  note D = objects_invD [OF inv]
  show ?thesis
    unfolding objects_inv_def split
  proof (intro conjI allI impI ballI)
    show "\<exists>y n. (ms(x := None)) y = Some n \<and> p \<in> arrays_of n" if p: "p \<in> dom (array_at h)" for p
    proof -
      obtain y n where "ms y = Some n" "p \<in> arrays_of n" using D(5) [of p] p by auto
      then show ?thesis using x by (intro exI [of _ y] exI [of _ n]) auto
    qed
    show "\<exists>y n. (ms(x := None)) y = Some n \<and> q \<in> set (pointers h n)" if q: "q \<in> dom (row_at h)" for q
    proof -
      obtain y n where "ms y = Some n" "q \<in> set (pointers h n)" using D(6) [of q] q by auto
      then show ?thesis using x by (intro exI [of _ y] exI [of _ n]) auto
    qed
    show "arrays_of m \<inter> arrays_of n = {}" "set (pointers h m) \<inter> set (pointers h n) = {}"
      if "(ms(x := None)) y = Some m" "(ms(x := None)) z = Some n" "y \<noteq> z" for y z m n
      using that D(3,4) [of y m z n] by (auto split: if_splits)
    show "cm_ok h m" if "(ms(x := None)) y = Some m" for y m
      using that D(2) by (auto split: if_splits)
  qed (rule D(1))
qed

lemma objects_rename:
  assumes inv: "objects_inv (ms, h)"
    and f: "\<And>y z. y \<noteq> z \<Longrightarrow> f y \<noteq> f z" "\<And>y. \<exists>x. f x = y"
  shows "objects_inv (\<lambda>x. ms (f x), h)"
proof -
  note D = objects_invD [OF inv]
  show ?thesis
    unfolding objects_inv_def split
  proof (intro conjI allI impI ballI)
    show "\<exists>y n. ms (f y) = Some n \<and> p \<in> arrays_of n" if "p \<in> dom (array_at h)" for p
      using D(5) [of p] that f(2) by (metis domIff)
    show "\<exists>y n. ms (f y) = Some n \<and> q \<in> set (pointers h n)" if "q \<in> dom (row_at h)" for q
      using D(6) [of q] that f(2) by (metis domIff)
  qed (use D(1-4) f(1) in blast)+
qed

lemma objects_swap:
  assumes "objects_inv (ms, h)" "ms x = Some m" "ms y = Some n"
  shows "objects_inv (ms(x \<mapsto> n, y \<mapsto> m), h)"
proof (cases "x = y")
  case False
  define f where "f = id(x := y, y := x)"
  have "\<exists>a. f a = b" for b
    by (rule exI [of _ "f b"]) (use False in \<open>simp add: f_def\<close>)
  then have "objects_inv (\<lambda>a. ms (f a), h)"
    by (intro objects_rename [OF assms(1)]) (auto simp: f_def split: if_splits)
  moreover have "(\<lambda>a. ms (f a)) = ms(x \<mapsto> n, y \<mapsto> m)"
    using assms(2,3) False by (auto simp: f_def)
  ultimately show ?thesis by simp
qed (use assms in \<open>simp add: fun_upd_idem\<close>)

lemma grids_swap: "grids (ms(x \<mapsto> n, y \<mapsto> m), h) = (grids (ms, h))(x \<mapsto> grid_of h n, y \<mapsto> grid_of h m)"
  by (auto simp: grids_def)

text \<open>
  What a program does with its matrices: an object is made, by default, with a size, as a copy or by
  a move; assigned, moved to, resized, zeroed, filled, written at an index; and destroyed.
\<close>

datatype ('x, 'a) cm_op =
  CM_default 'x | CM_new 'x nat nat | CM_copy 'x 'x | CM_move 'x 'x | CM_assign 'x 'x
| CM_move_assign 'x 'x | CM_resize 'x nat nat | CM_zero 'x | CM_fill 'x 'a
| CM_set 'x nat nat 'a | CM_destroy 'x

text \<open>
  The objects an operation names exist, the one it makes does not, indices are in range, and sizes
  are those that \<open>new[]\<close> accepts for elements of \<open>b\<close> bytes.
\<close>

fun cm_allowed :: "nat \<Rightarrow> ('x, 'a) cm_op \<Rightarrow> ('x \<rightharpoonup> 'a grid) \<Rightarrow> bool" where
  "cm_allowed b (CM_default x) gs \<longleftrightarrow> gs x = None"
| "cm_allowed b (CM_new x r c) gs \<longleftrightarrow> gs x = None \<and> allocatable b r c"
| "cm_allowed b (CM_copy x y) gs \<longleftrightarrow> gs x = None \<and> gs y \<noteq> None"
| "cm_allowed b (CM_move x y) gs \<longleftrightarrow> gs x = None \<and> gs y \<noteq> None"
| "cm_allowed b (CM_assign x y) gs \<longleftrightarrow> gs x \<noteq> None \<and> gs y \<noteq> None"
| "cm_allowed b (CM_move_assign x y) gs \<longleftrightarrow> gs x \<noteq> None \<and> gs y \<noteq> None"
| "cm_allowed b (CM_set x i j v) gs \<longleftrightarrow>
     (case gs x of None \<Rightarrow> False | Some (c, rows) \<Rightarrow> i < length rows \<and> j < c)"
| "cm_allowed b (CM_resize x r c) gs \<longleftrightarrow> gs x \<noteq> None \<and> allocatable b r c"
| "cm_allowed b (CM_zero x) gs \<longleftrightarrow> gs x \<noteq> None"
| "cm_allowed b (CM_fill x v) gs \<longleftrightarrow> gs x \<noteq> None"
| "cm_allowed b (CM_destroy x) gs \<longleftrightarrow> gs x \<noteq> None"

fun cm_do :: "elem_type \<Rightarrow> (nat \<Rightarrow> 'a) \<Rightarrow> 'a \<Rightarrow> ('x, 'a) cm_op \<Rightarrow> ('x, 'a) objects \<Rightarrow> ('x, 'a) objects result" where
  "cm_do t junk z (CM_default x) (ms, h) = Inr (ms(x \<mapsto> CMatrix_empty), h)"
| "cm_do t junk z (CM_new x r c) (ms, h) =
     and_then (CMatrix_new junk r c h) (\<lambda>(m, h). Inr (ms(x \<mapsto> m), h))"
| "cm_do t junk z (CM_copy x y) (ms, h) =
     and_then (CMatrix_copy junk (the (ms y)) h) (\<lambda>(m, h). Inr (ms(x \<mapsto> m), h))"
| "cm_do t junk z (CM_move x y) (ms, h) =
     (let (m, n) = CMatrix_move (the (ms y)) in Inr (ms(y \<mapsto> n, x \<mapsto> m), h))"
| "cm_do t junk z (CM_assign x y) (ms, h) =
     and_then (copy_assign junk (the (ms y)) (the (ms x)) h) (\<lambda>(m, h). Inr (ms(x \<mapsto> m), h))"
| "cm_do t junk z (CM_move_assign x y) (ms, h) =
     and_then (move_assign (the (ms y)) (the (ms x)) h) (\<lambda>(m, n, h). Inr (ms(y \<mapsto> n, x \<mapsto> m), h))"
| "cm_do t junk z (CM_resize x r c) (ms, h) =
     and_then (reSizeArray junk r c (the (ms x)) h) (\<lambda>(m, h). Inr (ms(x \<mapsto> m), h))"
| "cm_do t junk z (CM_zero x) (ms, h) =
     and_then (zeroArray t z (the (ms x)) h) (\<lambda>(_, h). Inr (ms, h))"
| "cm_do t junk z (CM_fill x v) (ms, h) =
     and_then (fill_assign t v (the (ms x)) h) (\<lambda>h. Inr (ms, h))"
| "cm_do t junk z (CM_set x i j v) (ms, h) =
     and_then (cell_assign i j v (the (ms x)) h) (\<lambda>h. Inr (ms, h))"
| "cm_do t junk z (CM_destroy x) (ms, h) =
     and_then (destroyArray (the (ms x)) h) (\<lambda>(_, h). Inr (ms(x := None), h))"

fun cm_run :: "elem_type \<Rightarrow> (nat \<Rightarrow> 'a) \<Rightarrow> 'a \<Rightarrow> ('x, 'a) cm_op list \<Rightarrow> ('x, 'a) objects \<Rightarrow> ('x, 'a) objects result" where
  "cm_run t junk z [] obs = Inr obs"
| "cm_run t junk z (e # es) obs = and_then (cm_do t junk z e obs) (cm_run t junk z es)"

text \<open>The specification: the same operations on values, with no heap.\<close>

fun grid_do :: "elem_type \<Rightarrow> (nat \<Rightarrow> 'a) \<Rightarrow> 'a \<Rightarrow> ('x, 'a) cm_op \<Rightarrow> ('x \<rightharpoonup> 'a grid) \<Rightarrow> 'x \<rightharpoonup> 'a grid" where
  "grid_do t junk z (CM_default x) gs = gs(x \<mapsto> (0, []))"
| "grid_do t junk z (CM_new x r c) gs = gs(x \<mapsto> (c, replicate r (map junk [0..<c])))"
| "grid_do t junk z (CM_copy x y) gs = gs(x := gs y)"
| "grid_do t junk z (CM_move x y) gs = gs(y \<mapsto> (0, []), x := gs y)"
| "grid_do t junk z (CM_assign x y) gs = gs(x := gs y)"
| "grid_do t junk z (CM_move_assign x y) gs = (if x = y then gs else gs(y \<mapsto> (0, []), x := gs y))"
| "grid_do t junk z (CM_resize x r c) gs = (case the (gs x) of (c', rows) \<Rightarrow>
     if length rows = r \<and> c' = c then gs else gs(x \<mapsto> (c, replicate r (map junk [0..<c]))))"
| "grid_do t junk z (CM_zero x) gs = (case the (gs x) of (c, rows) \<Rightarrow>
     if t = T_string then gs else gs(x \<mapsto> (c, replicate (length rows) (replicate c z))))"
| "grid_do t junk z (CM_fill x v) gs = (case the (gs x) of (c, rows) \<Rightarrow>
     gs(x \<mapsto> (c, replicate (length rows) (replicate c v))))"
| "grid_do t junk z (CM_set x i j v) gs = (case the (gs x) of (c, rows) \<Rightarrow>
     gs(x \<mapsto> (c, rows[i := (rows ! i)[j := v]])))"
| "grid_do t junk z (CM_destroy x) gs = gs(x := None)"

fun grid_run :: "elem_type \<Rightarrow> (nat \<Rightarrow> 'a) \<Rightarrow> 'a \<Rightarrow> ('x, 'a) cm_op list \<Rightarrow> ('x \<rightharpoonup> 'a grid) \<Rightarrow> ('x \<rightharpoonup> 'a grid) option" where
  "grid_run t junk z [] gs = Some gs"
| "grid_run t junk z (e # es) gs =
     (if cm_allowed (elem_size t) e gs then grid_run t junk z es (grid_do t junk z e gs) else None)"

text \<open>Each operation as a replacement of the object it acts on.\<close>

lemma CMatrix_new_replaces:
  assumes "bounded h" "allocatable (elem_bytes h) r c"
  obtains m h' where "CMatrix_new junk r c h = Inr (m, h')" "replaces h CMatrix_empty h' m"
    "grid_of h' m = (c, replicate r (map junk [0..<c]))"
proof -
  obtain p h' where n: "new_array junk r c h = Inr (p, h')" by (rule new_array_ok [OF assms(2)])
  then show thesis
    using that new_array_replaces [OF n assms(1)] by (simp add: CMatrix_new_def)
qed

lemma grid_of_dims: "cm_ok h m \<Longrightarrow> length (snd (grid_of h m)) = m_rows m \<and> fst (grid_of h m) = m_cols m"
  by (simp add: grid_of_def cm_ok_def)

lemma copy_assign_replaces:
  assumes ok: "cm_ok h m" "cm_ok h rhs" and b: "bounded h"
    and dis: "m = rhs \<or> arrays_of m \<inter> arrays_of rhs = {} \<and> set (pointers h m) \<inter> set (pointers h rhs) = {}"
  obtains m' h' where "copy_assign junk rhs m h = Inr (m', h')" "replaces h m h' m'"
    "grid_of h' m' = grid_of h rhs"
proof (cases "m_array m = m_array rhs \<and> m_rows m = m_rows rhs \<and> m_cols m = m_cols rhs")
  case True
  then have "copy_assign junk rhs m h = Inr (m, h)" "m = rhs" by (simp_all add: copy_assign_def)
  then show thesis using that replaces_refl [OF ok(1) b] by simp
next
  case False
  then have "m \<noteq> rhs" by auto
  with dis have dis: "arrays_of m \<inter> arrays_of rhs = {}" "set (pointers h m) \<inter> set (pointers h rhs) = {}"
    by blast+
  obtain m1 h1 where m1: "(if m_rows m \<noteq> m_rows rhs \<or> m_cols m \<noteq> m_cols rhs
      then reSizeArray junk (m_rows rhs) (m_cols rhs) m h else Inr (m, h)) = Inr (m1, h1)"
    and r1: "replaces h m h1 m1" and d1: "m_rows m1 = m_rows rhs" "m_cols m1 = m_cols rhs"
  proof (cases "m_rows m \<noteq> m_rows rhs \<or> m_cols m \<noteq> m_cols rhs")
    case True
    obtain m' h' where "reSizeArray junk (m_rows rhs) (m_cols rhs) m h = Inr (m', h')"
      "replaces h m h' m'" "m_rows m' = m_rows rhs" "m_cols m' = m_cols rhs"
      by (rule reSizeArray_replaces [OF ok(1) b True, where junk = junk]) (use ok(2) in \<open>auto simp: cm_ok_def\<close>)
    then show thesis using that True by simp
  next
    case False
    then show thesis using that replaces_refl [OF ok(1) b] by simp
  qed
  note keep = replaces_keeps [OF r1 ok(2) dis]
  have ok1: "cm_ok h1 m1" and b1: "bounded h1" using r1 by (simp_all add: replaces_def)
  have dis1: "set (pointers h1 m1) \<inter> set (pointers h1 rhs) = {}" using keep(1,5) by simp
  obtain h2 where c: "copy_rows (m_cols m1) (pointers h1 m1) (pointers h1 rhs) h1 = Inr h2"
    and r2: "replaces h1 m1 h2 m1" and g: "grid_of h2 m1 = grid_of h1 rhs"
    by (rule copy_over [OF ok1 keep(3) b1 d1 dis1])
  have "copy_assign junk rhs m h = Inr (m1, h2)"
    using False m1 c cm_ok_pointers [OF ok1] cm_ok_pointers [OF keep(3)]
    by (simp add: copy_assign_def)
  moreover have "replaces h m h2 m1" using r1 r2 by (auto simp: replaces_def)
  ultimately show thesis using that g keep(2) by simp
qed

lemma cell_assign_replaces:
  assumes ok: "cm_ok h m" and b: "bounded h" and i: "i < m_rows m" and j: "j < m_cols m"
  obtains h' where "cell_assign i j v m h = Inr h'" "replaces h m h' m"
    "grid_of h' m = (m_cols m, (snd (grid_of h m))[i := (snd (grid_of h m) ! i)[j := v]])"
proof -
  let ?ps = "pointers h m"
  have len: "length ?ps = m_rows m" "distinct ?ps" using ok by (simp_all add: cm_ok_def)
  obtain xs where xs: "row_at h (?ps ! i) = Some xs" "length xs = m_cols m"
    using cm_ok_rows [OF ok, of "?ps ! i"] i len(1) by auto
  let ?R = "(row_at h)(?ps ! i \<mapsto> xs[j := v])"
  obtain p where p: "m_array m = Some p" "array_at h p = Some ?ps"
    using ok i len(1) by (cases "m_array m") (auto simp: cm_ok_def pointers_def arrays_of_def)
  have c: "cell_assign i j v m h = Inr (h\<lparr>row_at := ?R\<rparr>)"
    using p i len(1) xs j by (simp add: cell_assign_def row_ptr_def)
  have out: "\<forall>q. q \<notin> set ?ps \<longrightarrow> ?R q = row_at h q" using i len(1) by auto
  have ins: "\<forall>q \<in> set ?ps. \<exists>ys. ?R q = Some ys \<and> length ys = m_cols m"
    using cm_ok_rows [OF ok] xs by auto
  have e: "map (\<lambda>q. the (?R q)) ?ps = (map (\<lambda>q. the (row_at h q)) ?ps)[i := xs[j := v]]"
    using len i by (intro nth_equalityI) (auto simp: nth_list_update nth_eq_iff_index_eq)
  have "grid_of (h\<lparr>row_at := ?R\<rparr>) m =
      (m_cols m, (snd (grid_of h m))[i := (snd (grid_of h m) ! i)[j := v]])"
    unfolding overwrite_replaces(2) [OF ok b out ins] e using xs i len(1) by (simp add: grid_of_def)
  then show thesis by (rule that [OF c overwrite_replaces(1) [OF ok b out ins]])
qed

text \<open>The simulation, one operation at a time.\<close>

definition simulated :: "nat \<Rightarrow> ('x, 'a) objects result \<Rightarrow> ('x \<rightharpoonup> 'a grid) \<Rightarrow> bool" where
  "simulated b r gs \<longleftrightarrow> (\<exists>ms h. r = Inr (ms, h) \<and> objects_inv (ms, h) \<and> grids (ms, h) = gs \<and> elem_bytes h = b)"

lemma simulated_at:
  assumes "objects_inv (ms, h)" "ms x = Some m" "replaces h m h' m'" "grid_of h' m' = g"
    and "gs = (grids (ms, h))(x \<mapsto> g)"
  shows "simulated (elem_bytes h) (Inr (ms(x \<mapsto> m'), h')) gs"
  using objects_replace [OF assms(1-3)] assms(3-5) by (simp add: simulated_def replaces_def)

lemma simulated_same:
  assumes "objects_inv (ms, h)" "ms x = Some m" "replaces h m h' m" "grid_of h' m = g"
    and "gs = (grids (ms, h))(x \<mapsto> g)"
  shows "simulated (elem_bytes h) (Inr (ms, h')) gs"
  using simulated_at [OF assms] assms(2) by (simp add: fun_upd_idem)

lemma simulated_new:
  assumes "objects_inv (ms, h)" "ms x = None" "replaces h CMatrix_empty h' m'" "grid_of h' m' = g"
    and "gs = (grids (ms, h))(x \<mapsto> g)"
  shows "simulated (elem_bytes h) (Inr (ms(x \<mapsto> m'), h')) gs"
proof -
  have e: "objects_inv (ms(x \<mapsto> CMatrix_empty), h)" by (rule objects_add_empty [OF assms(1,2)])
  have "gs = (grids (ms(x \<mapsto> CMatrix_empty), h))(x \<mapsto> g)"
    using assms(5) by (auto simp: grids_def)
  from simulated_at [OF e _ assms(3,4) this] show ?thesis by simp
qed

lemma grids_eq: "grids (ms, h) x = map_option (grid_of h) (ms x)"
  by (simp add: grids_def)

lemma cm_do_moves:
  assumes inv: "objects_inv (ms, h)" and op: "op \<in> {CM_move x y, CM_move_assign x y, CM_destroy x}"
    and "cm_allowed (elem_bytes h) op (grids (ms, h))"
  shows "simulated (elem_bytes h) (cm_do t junk z op (ms, h)) (grid_do t junk z op (grids (ms, h)))"
  using op
proof (elim insertE emptyE)
  note D = objects_invD [OF inv]
  assume op: "op = CM_move x y"
  then obtain m where m: "ms y = Some m" "ms x = None" using assms(3) by (auto simp: grids_eq)
  then have ne: "x \<noteq> y" by auto
  let ?ms = "ms(x \<mapsto> CMatrix_empty)"
  have "objects_inv (?ms(x \<mapsto> m, y \<mapsto> CMatrix_empty), h)"
    by (rule objects_swap [OF objects_add_empty [OF inv m(2)]]) (use m ne in auto)
  moreover have "?ms(x \<mapsto> m, y \<mapsto> CMatrix_empty) = ms(y \<mapsto> CMatrix_empty, x \<mapsto> m)"
    using ne by (auto simp: fun_upd_def)
  moreover have "grids (ms(y \<mapsto> CMatrix_empty, x \<mapsto> m), h) =
      (grids (ms, h))(y \<mapsto> (0, []), x := grids (ms, h) y)"
    using m by (auto simp: grids_def)
  ultimately show ?thesis using m by (simp add: op CMatrix_move_def simulated_def)
next
  note D = objects_invD [OF inv]
  assume op: "op = CM_destroy x"
  then obtain m where m: "ms x = Some m" using assms(3) by (auto simp: grids_eq)
  obtain h' where d: "destroyArray m h = Inr (m\<lparr>m_array := None\<rparr>, h')" "replaces h m h' CMatrix_empty"
    by (rule destroyArray_replaces [OF D(2) [OF m] D(1)]) simp
  note O = objects_replace [OF inv m d(2)]
  have "objects_inv ((ms(x \<mapsto> CMatrix_empty))(x := None), h')"
    by (rule objects_drop_empty [OF O(1)]) simp
  moreover have "grids ((ms(x \<mapsto> CMatrix_empty))(x := None), h') = (grids (ms, h))(x := None)"
  proof -
    have "grids ((ms(x \<mapsto> CMatrix_empty))(x := None), h') = (grids (ms(x \<mapsto> CMatrix_empty), h'))(x := None)"
      by (auto simp: grids_def)
    then show ?thesis unfolding O(2) by simp
  qed
  ultimately show ?thesis using m d by (simp add: op simulated_def replaces_def)
next
  note D = objects_invD [OF inv]
  assume op: "op = CM_move_assign x y"
  then obtain m n where m: "ms x = Some m" "ms y = Some n" using assms(3) by (auto simp: grids_eq)
  have same: "simulated (elem_bytes h) (Inr (ms, h)) (grids (ms, h))" using inv by (simp add: simulated_def)
  show ?thesis
  proof (cases "m_array m = m_array n")
    case True
    have eq: "x = y \<or> m = CMatrix_empty \<and> n = CMatrix_empty"
    proof (cases "x = y")
      case False
      then have "m_array m = None" using D(3) [OF m(1,2)] True by (auto simp: arrays_of_def)
      then show ?thesis using D(2) [OF m(1)] D(2) [OF m(2)] True
        by (simp add: cm_ok_def CMatrix_empty_def)
    qed simp
    have "cm_do t junk z op (ms, h) = Inr (ms(y \<mapsto> n, x \<mapsto> m), h)"
      using True m by (simp add: op move_assign_def)
    also have "ms(y \<mapsto> n, x \<mapsto> m) = ms" using m by (auto simp: fun_upd_def)
    finally have "cm_do t junk z op (ms, h) = Inr (ms, h)" .
    moreover have "grid_do t junk z op (grids (ms, h)) = grids (ms, h)"
      using eq m by (auto simp: op grids_def)
    ultimately show ?thesis using same by simp
  next
    case False
    then have ne: "x \<noteq> y" using m by auto
    obtain h' where d: "destroyArray m h = Inr (m\<lparr>m_array := None\<rparr>, h')" "replaces h m h' CMatrix_empty"
      by (rule destroyArray_replaces [OF D(2) [OF m(1)] D(1)]) simp
    note O = objects_replace [OF inv m(1) d(2)]
    let ?ms = "ms(x \<mapsto> CMatrix_empty)"
    have "objects_inv (?ms(x \<mapsto> n, y \<mapsto> CMatrix_empty), h')"
      by (rule objects_swap [OF O(1)]) (use m ne in auto)
    moreover have "?ms(x \<mapsto> n, y \<mapsto> CMatrix_empty) = ms(y \<mapsto> CMatrix_empty, x \<mapsto> n)"
      using ne by (auto simp: fun_upd_def)
    moreover have "grids (?ms(x \<mapsto> n, y \<mapsto> CMatrix_empty), h') =
        (grids (ms, h))(y \<mapsto> (0, []), x := grids (ms, h) y)"
    proof -
      have "grid_of h' n = grid_of h n"
        using replaces_keeps(2) [OF d(2) D(2) [OF m(2)]] D(3,4) [OF m ne] by blast
      then show ?thesis unfolding grids_swap O(2) using m ne by (auto simp: grids_def)
    qed
    ultimately show ?thesis using m d False ne by (simp add: op move_assign_def simulated_def replaces_def)
  qed
qed

lemma cm_do_refines:
  assumes inv: "objects_inv (ms, h)" and "cm_allowed (elem_bytes h) op (grids (ms, h))"
  shows "simulated (elem_bytes h) (cm_do t junk z op (ms, h)) (grid_do t junk z op (grids (ms, h)))"
proof (cases op)
  note D = objects_invD [OF inv]
  case (CM_default x)
  then have x: "ms x = None" using assms(2) by (simp add: grids_eq)
  show ?thesis
    using simulated_new [OF inv x replaces_refl [OF empty_ok(1) D(1)] refl refl] by (simp add: CM_default)
next
  note D = objects_invD [OF inv]
  case (CM_new x r c)
  then have x: "ms x = None" using assms(2) by (simp add: grids_eq)
  have al: "allocatable (elem_bytes h) r c" using CM_new assms(2) by simp
  obtain m h' where "CMatrix_new junk r c h = Inr (m, h')" "replaces h CMatrix_empty h' m"
    "grid_of h' m = (c, replicate r (map junk [0..<c]))" by (rule CMatrix_new_replaces [OF D(1) al])
  then show ?thesis using simulated_new [OF inv x] by (simp add: CM_new)
next
  note D = objects_invD [OF inv]
  case (CM_copy x y)
  then obtain n where n: "ms y = Some n" and x: "ms x = None" using assms(2) by (auto simp: grids_eq)
  obtain m' h' where "copy_assign junk n CMatrix_empty h = Inr (m', h')" "replaces h CMatrix_empty h' m'"
    "grid_of h' m' = grid_of h n"
    by (rule copy_assign_replaces [OF empty_ok(1) D(2) [OF n] D(1), where junk = junk]) auto
  then show ?thesis
    using simulated_new [OF inv x] n by (simp add: CM_copy CMatrix_copy_def grids_eq)
next
  note D = objects_invD [OF inv]
  case (CM_assign x y)
  then obtain m n where m: "ms x = Some m" "ms y = Some n" using assms(2) by (auto simp: grids_eq)
  have "m = n \<or> arrays_of m \<inter> arrays_of n = {} \<and> set (pointers h m) \<inter> set (pointers h n) = {}"
    using m D(3,4) [OF m] by (cases "x = y") auto
  then obtain m' h' where "copy_assign junk n m h = Inr (m', h')" "replaces h m h' m'"
    "grid_of h' m' = grid_of h n"
    by (rule copy_assign_replaces [OF D(2) [OF m(1)] D(2) [OF m(2)] D(1), where junk = junk])
  then show ?thesis using simulated_at [OF inv m(1)] m by (simp add: CM_assign grids_eq)
next
  note D = objects_invD [OF inv]
  case (CM_resize x r c)
  then obtain m where m: "ms x = Some m" using assms(2) by (auto simp: grids_eq)
  have dims: "length (snd (grid_of h m)) = m_rows m" "fst (grid_of h m) = m_cols m"
    using grid_of_dims [OF D(2) [OF m]] by blast+
  show ?thesis
  proof (cases "m_rows m \<noteq> r \<or> m_cols m \<noteq> c")
    case True
    obtain m' h' where "reSizeArray junk r c m h = Inr (m', h')" "replaces h m h' m'"
      "grid_of h' m' = (c, replicate r (map junk [0..<c]))"
      by (rule reSizeArray_replaces [OF D(2) [OF m] D(1) True, where junk = junk])
        (use CM_resize assms(2) in auto)
    then show ?thesis
      using simulated_at [OF inv m] m True dims by (auto simp: CM_resize grids_eq split: prod.splits)
  next
    case False
    have "simulated (elem_bytes h) (Inr (ms, h)) (grids (ms, h))" using inv by (simp add: simulated_def)
    then show ?thesis
      using m False dims by (auto simp: CM_resize grids_eq reSizeArray_def fun_upd_idem split: prod.splits)
  qed
next
  note D = objects_invD [OF inv]
  case (CM_zero x)
  then obtain m where m: "ms x = Some m" using assms(2) by (auto simp: grids_eq)
  have dims: "length (snd (grid_of h m)) = m_rows m" "fst (grid_of h m) = m_cols m"
    using grid_of_dims [OF D(2) [OF m]] by blast+
  show ?thesis
  proof (cases "t = T_string")
    case True
    have "simulated (elem_bytes h) (Inr (ms, h)) (grids (ms, h))" using inv by (simp add: simulated_def)
    then show ?thesis
      using m True by (simp add: CM_zero grids_eq zeroArray_def isBuildInDataType_def split: prod.splits)
  next
    case False
    then have b: "isBuildInDataType t" by (cases t) (simp_all add: isBuildInDataType_def)
    obtain h' where f: "zeroArray t z m h = Inr (True, h')" "replaces h m h' m"
      "grid_of h' m = (m_cols m, replicate (m_rows m) (replicate (m_cols m) z))"
      by (rule zeroArray_replaces [OF D(2) [OF m] D(1) b])
    then show ?thesis
      using simulated_same [OF inv m f(2,3)] m False dims
      by (auto simp: CM_zero grids_eq split: prod.splits)
  qed
next
  note D = objects_invD [OF inv]
  case (CM_fill x v)
  then obtain m where m: "ms x = Some m" using assms(2) by (auto simp: grids_eq)
  have dims: "length (snd (grid_of h m)) = m_rows m" "fst (grid_of h m) = m_cols m"
    using grid_of_dims [OF D(2) [OF m]] by blast+
  obtain h' where f: "fill_assign t v m h = Inr h'" "replaces h m h' m"
    "grid_of h' m = (m_cols m, replicate (m_rows m) (replicate (m_cols m) v))"
    by (rule fill_assign_replaces [OF D(2) [OF m] D(1)])
  then show ?thesis
    using simulated_same [OF inv m f(2,3)] m dims by (auto simp: CM_fill grids_eq split: prod.splits)
next
  note D = objects_invD [OF inv]
  case (CM_set x i j v)
  then obtain m where m: "ms x = Some m" using assms(2) by (auto simp: grids_eq split: option.splits)
  have dims: "length (snd (grid_of h m)) = m_rows m" "fst (grid_of h m) = m_cols m"
    using grid_of_dims [OF D(2) [OF m]] by blast+
  have ij: "i < m_rows m" "j < m_cols m" using assms(2) m dims by (auto simp: CM_set grids_eq split: prod.splits)
  obtain h' where f: "cell_assign i j v m h = Inr h'" "replaces h m h' m"
    "grid_of h' m = (m_cols m, (snd (grid_of h m))[i := (snd (grid_of h m) ! i)[j := v]])"
    by (rule cell_assign_replaces [OF D(2) [OF m] D(1) ij])
  then show ?thesis
    using simulated_same [OF inv m f(2,3)] m dims by (auto simp: CM_set grids_eq split: prod.splits)
next
  case (CM_move x y)
  then show ?thesis using cm_do_moves [OF inv _ assms(2), of x y t junk z] by simp
next
  case (CM_move_assign x y)
  then show ?thesis using cm_do_moves [OF inv _ assms(2), of x y t junk z] by simp
next
  case (CM_destroy x)
  then show ?thesis using cm_do_moves [OF inv _ assms(2), of x x t junk z] by simp
qed

definition no_heap :: "nat \<Rightarrow> bool \<Rightarrow> 'a row_heap" where
  "no_heap b pd = \<lparr>row_at = Map.empty, array_at = Map.empty, top_addr = 0, elem_bytes = b, plain_delete = pd\<rparr>"

lemma cm_run_refines:
  "objects_inv obs \<Longrightarrow> elem_bytes (snd obs) = elem_size t \<Longrightarrow> grid_run t junk z es (grids obs) = Some gs \<Longrightarrow>
    simulated (elem_size t) (cm_run t junk z es obs) gs"
proof (induction es arbitrary: obs)
  case Nil
  then show ?case by (cases obs) (simp add: simulated_def)
next
  case (Cons e es)
  obtain ms h where obs: "obs = (ms, h)" by fastforce
  have a: "cm_allowed (elem_size t) e (grids obs)" "grid_run t junk z es (grid_do t junk z e (grids obs)) = Some gs"
    using Cons.prems(3) by (simp_all split: if_splits)
  have "simulated (elem_size t) (cm_do t junk z e obs) (grid_do t junk z e (grids obs))"
    using cm_do_refines [of ms h e t junk z] Cons.prems(1,2) a(1) by (simp add: obs)
  then obtain ms' h' where "cm_do t junk z e obs = Inr (ms', h')" "objects_inv (ms', h')"
    "grids (ms', h') = grid_do t junk z e (grids obs)" "elem_bytes h' = elem_size t"
    unfolding simulated_def by blast
  then show ?case using Cons.IH [of "(ms', h')"] a(2) by simp
qed

text \<open>
  Where a plain \<open>delete\<close> does not free a block of \<open>new[]\<close>, as the language allows, the end of any
  matrix with storage is undefined.
\<close>

theorem delete_mismatch_undefined:
  assumes "cm_ok h m" "m_array m = Some p" "\<not> plain_delete h"
  shows "destroyArray m h = Inl Undefined"
proof -
  have "set (pointers h m) \<subseteq> dom (row_at h)" "distinct (pointers h m)"
    using assms(1) by (auto simp: cm_ok_def)
  then show ?thesis
    using assms(2,3) by (simp add: destroyArray_def cm_ok_pointers [OF assms(1)] delete_rows_result)
qed

text \<open>
  C40: programs with matrices of rows behave as programs with values, on an implementation whose
  plain \<open>delete\<close> frees a block of \<open>new[]\<close> (the language does not promise it, and without it the
  first destruction is undefined, as shown above). Whatever sequence of constructions, copies,
  moves, assignments, resizes, fills, writes in range and destructions a client runs with sizes
  that \<open>new[]\<close> accepts, no other undefined step is reached, every object holds the value the
  same operations compute without a heap, so copies are independent and moves leave an empty
  matrix; and once all objects are destroyed, every block of pointers and every row has been freed.
\<close>

theorem matrix_programs:
  fixes es :: "('x, 'a) cm_op list"
  assumes "grid_run t junk z es Map.empty = Some gs"
  shows "\<exists>ms h. cm_run t junk z es (Map.empty, no_heap (elem_size t) True) = Inr (ms, h) \<and> grids (ms, h) = gs \<and>
    (gs = Map.empty \<longrightarrow> array_at h = Map.empty \<and> row_at h = Map.empty)"
proof -
  let ?obs = "(Map.empty, no_heap (elem_size t) True) :: ('x, 'a) objects"
  have i: "objects_inv ?obs" and "grids ?obs = Map.empty" "elem_bytes (snd ?obs) = elem_size t"
    by (auto simp: objects_inv_def no_heap_def bounded_def grids_def)
  then have "simulated (elem_size t) (cm_run t junk z es ?obs) gs"
    using cm_run_refines [OF i] assms by simp
  then obtain ms h where r: "cm_run t junk z es ?obs = Inr (ms, h)"
    and inv: "objects_inv (ms, h)" and g: "grids (ms, h) = gs"
    unfolding simulated_def by blast
  have "array_at h = Map.empty \<and> row_at h = Map.empty" if "gs = Map.empty"
  proof -
    have "ms x = None" for x using fun_cong [OF g, of x] that by (simp add: grids_eq)
    then show ?thesis using objects_invD(5,6) [OF inv] by (metis option.distinct(1) ext)
  qed
  then show ?thesis using r g by blast
qed

lemma allocatable_small: "r \<le> 9 \<Longrightarrow> c \<le> 9 \<Longrightarrow> allocatable (elem_size T_int32) r c"
  by (simp add: allocatable_def elem_size_def)

theorem matrix_programs_witness:
  "\<exists>ms h. cm_run T_int32 (\<lambda>_. 7) 0
      [CM_new ''a'' 2 3, CM_zero ''a'', CM_set ''a'' 1 2 (5::int), CM_copy ''b'' ''a'', CM_fill ''a'' 9,
       CM_move_assign ''a'' ''b'', CM_resize ''b'' 1 1, CM_destroy ''a'', CM_destroy ''b'']
      (Map.empty, no_heap 4 True) = Inr (ms, h) \<and> array_at h = Map.empty \<and> row_at h = Map.empty"
proof -
  have "grid_run T_int32 (\<lambda>_. 7) 0
      [CM_new ''a'' 2 3, CM_zero ''a'', CM_set ''a'' 1 2 (5::int), CM_copy ''b'' ''a'', CM_fill ''a'' 9,
       CM_move_assign ''a'' ''b'', CM_resize ''b'' 1 1, CM_destroy ''a'', CM_destroy ''b''] Map.empty =
      Some Map.empty"
    by (auto simp: eval_nat_numeral fun_eq_iff allocatable_small)
  from matrix_programs [OF this] show ?thesis by (simp add: elem_size_def) blast
qed

subsection \<open>Comparison\<close>

lemma eq_cells_result:
  assumes "length xs = c" "length ys = c" "c < 2 ^ 31" "j \<le> c"
  shows "eq_cells ne c j xs ys = Inr (\<forall>k. j \<le> k \<and> k < c \<longrightarrow> \<not> ne (xs ! k) (ys ! k))"
  using assms
proof (induction ne c j xs ys rule: eq_cells.induct)
  case (1 ne c j xs ys)
  have s: "(\<forall>k. j \<le> k \<and> k < c \<longrightarrow> \<not> ne (xs ! k) (ys ! k)) \<longleftrightarrow>
      \<not> ne (xs ! j) (ys ! j) \<and> (\<forall>k. Suc j \<le> k \<and> k < c \<longrightarrow> \<not> ne (xs ! k) (ys ! k))" if "j < c"
    using that by (metis Suc_leD Suc_leI le_neq_implies_less order_refl)
  show ?case
  proof (cases "j < c")
    case True
    then show ?thesis using 1 s by (subst eq_cells.simps) (simp add: Suc_le_eq)
  next
    case False
    then show ?thesis by (subst eq_cells.simps) auto
  qed
qed

lemma eq_rows_result:
  assumes "\<And>q. q \<in> set ps \<union> set qs \<Longrightarrow> \<exists>xs. row_at h q = Some xs \<and> length xs = c"
    and "length ps = r" "length qs = r" "r < 2 ^ 31" "c < 2 ^ 31" "i \<le> r"
  shows "eq_rows ne r c i ps qs h = Inr (\<forall>k l. i \<le> k \<and> k < r \<and> l < c \<longrightarrow>
    \<not> ne (the (row_at h (ps ! k)) ! l) (the (row_at h (qs ! k)) ! l))"
  using assms
proof (induction ne r c i ps qs h rule: eq_rows.induct)
  case (1 ne r c i ps qs h)
  let ?d = "\<lambda>k l. \<not> ne (the (row_at h (ps ! k)) ! l) (the (row_at h (qs ! k)) ! l)"
  show ?case
  proof (cases "i < r")
    case True
    obtain xs ys where x: "row_at h (ps ! i) = Some xs" "length xs = c"
        "row_at h (qs ! i) = Some ys" "length ys = c"
      using 1(2) [of "ps ! i"] 1(2) [of "qs ! i"] 1(3,4) True by auto
    have e: "eq_cells ne c 0 xs ys = Inr (\<forall>l < c. ?d i l)"
      using eq_cells_result [OF x(2,4) 1(6), of 0 ne] x by simp
    have s: "(\<forall>k l. i \<le> k \<and> k < r \<and> l < c \<longrightarrow> ?d k l) \<longleftrightarrow>
        (\<forall>l < c. ?d i l) \<and> (\<forall>k l. Suc i \<le> k \<and> k < r \<and> l < c \<longrightarrow> ?d k l)"
      using True by (metis Suc_leD Suc_leI le_neq_implies_less order_refl)
    have "eq_rows ne r c (Suc i) ps qs h = Inr (\<forall>k l. Suc i \<le> k \<and> k < r \<and> l < c \<longrightarrow> ?d k l)"
      if "\<forall>l < c. ?d i l"
      by (rule 1(1) [of "Some xs" "Some ys" xs ys True]) (use 1(2-7) True x e that in auto)
    then show ?thesis unfolding s
      using True x e 1(3-5) by (subst eq_rows.simps) auto
  next
    case False
    then show ?thesis by (subst eq_rows.simps) auto
  qed
qed

text \<open>\<open>operator==\<close> on matrices whose sizes an \<open>int\<close> can count, and \<open>operator!=\<close>.\<close>

theorem matrix_eq_result:
  assumes "cm_ok h m" "cm_ok h n" "m_rows m < 2 ^ 31" "m_cols m < 2 ^ 31"
  shows "matrix_eq ne m n h = Inr (m_rows m = m_rows n \<and> m_cols m = m_cols n \<and>
    (\<forall>i j. i < m_rows m \<and> j < m_cols m \<longrightarrow>
      \<not> ne (snd (grid_of h m) ! i ! j) (snd (grid_of h n) ! i ! j)))"
proof (cases "m_rows m = m_rows n \<and> m_cols m = m_cols n")
  case True
  have len: "length (pointers h m) = m_rows m" "length (pointers h n) = m_rows m"
    using assms(1,2) True by (simp_all add: cm_ok_def)
  have "eq_rows ne (m_rows m) (m_cols m) 0 (pointers h m) (pointers h n) h =
    Inr (\<forall>k l. 0 \<le> k \<and> k < m_rows m \<and> l < m_cols m \<longrightarrow>
      \<not> ne (the (row_at h (pointers h m ! k)) ! l) (the (row_at h (pointers h n ! k)) ! l))"
    by (rule eq_rows_result) (use assms len True in \<open>auto simp: cm_ok_def\<close>)
  then show ?thesis
    using True len by (simp add: matrix_eq_def cm_ok_pointers [OF assms(1)] cm_ok_pointers [OF assms(2)] grid_of_def)
next
  case False
  then show ?thesis by (auto simp: matrix_eq_def)
qed

theorem matrix_ne_is_not_eq: "matrix_eq ne m n h = Inr e \<Longrightarrow> matrix_ne ne m n h = Inr (\<not> e)"
  by (simp add: matrix_ne_def)

end
