(* ===== verification/Sockets.thy ===== *)
theory Sockets
  imports Prelude "HOL-Library.Signed_Division"
begin

text \<open>
  The socket wrapper (src/code/common/include/mmrNet/Socket.hpp), in its Linux build, and the time
  counter (src/code/common/include/util/TimeCounter.hpp). The system is a parameter: a kernel gives
  the value returned by the last call of a history of calls, and the \<open>errno\<close> after it. Every
  operation extends the history by the calls it makes, in their order. What is printed on failure
  is left out.
\<close>

subsection \<open>System calls\<close>

datatype option_name = SO_REUSEADDR | SO_REUSEPORT

text \<open>The address of \<open>bind\<close> and \<open>connect\<close> is the pair of \<open>s_addr\<close> and \<open>sin_port\<close>.\<close>

datatype syscall =
  SC_socket
| SC_bind int "u32 \<times> u16"
| SC_listen int int
| SC_connect int "u32 \<times> u16"
| SC_accept int
| SC_recv int u64 int
| SC_send int "byte list" int
| SC_close int
| SC_setsockopt int option_name
| SC_getfl int
| SC_setfl int int

type_synonym history = "syscall list"

record kernel =
  ret :: "history \<Rightarrow> int"
  errno :: "history \<Rightarrow> int"
  received :: "history \<Rightarrow> byte list"
  inet_addr :: "string \<Rightarrow> u32"

definition EAGAIN :: int where "EAGAIN = 11"
definition EINTR :: int where "EINTR = 4"
definition MSG_DONTWAIT :: int where "MSG_DONTWAIT = 64"
definition O_NONBLOCK :: int where "O_NONBLOCK = 2048"
definition MAX_LISTEN :: int where "MAX_LISTEN = 1024"
definition INVALID_SOCKET :: int where "INVALID_SOCKET = - 1"

text \<open>A \<open>ssize_t\<close> that is stored in an \<open>int\<close> keeps its low 32 bits.\<close>

definition to_int :: "int \<Rightarrow> int" where
  "to_int r = sint (word_of_int r :: u32)"

text \<open>\<open>htons\<close>: the two bytes of a port change their places.\<close>

definition htons :: "u16 \<Rightarrow> u16" where
  "htons p = push_bit 8 p OR drop_bit 8 p"

record socket =
  m_sockfd :: int

type_synonym net = "socket \<times> history"

definition invoke :: "kernel \<Rightarrow> syscall \<Rightarrow> history \<Rightarrow> int \<times> history" where
  "invoke k c h = (ret k (h @ [c]), h @ [c])"

lemma invoke_eq [simp]: "invoke k c h = (ret k (h @ [c]), h @ [c])"
  by (simp add: invoke_def)

subsection \<open>Operations\<close>

definition Socket_new :: socket where
  "Socket_new = \<lparr>m_sockfd = INVALID_SOCKET\<rparr>"

definition Socket_of :: "int \<Rightarrow> socket" where
  "Socket_of fd = \<lparr>m_sockfd = fd\<rparr>"

definition Create :: "kernel \<Rightarrow> net \<Rightarrow> bool \<times> net" where
  "Create k = (\<lambda>(s, h).
     let (r, h) = invoke k SC_socket h; s = s\<lparr>m_sockfd := r\<rparr>
     in (r \<noteq> INVALID_SOCKET, s, h))"

definition Bind :: "kernel \<Rightarrow> string \<Rightarrow> u16 \<Rightarrow> net \<Rightarrow> bool \<times> net" where
  "Bind k ip port = (\<lambda>(s, h).
     let (r, h) = invoke k (SC_bind (m_sockfd s) (inet_addr k ip, htons port)) h
     in (\<not> r < 0, s, h))"

definition Listen :: "kernel \<Rightarrow> int \<Rightarrow> net \<Rightarrow> bool \<times> net" where
  "Listen k backlog = (\<lambda>(s, h).
     let (r, h) = invoke k (SC_listen (m_sockfd s) backlog) h in (\<not> r < 0, s, h))"

definition Connect :: "kernel \<Rightarrow> string \<Rightarrow> u16 \<Rightarrow> net \<Rightarrow> bool \<times> net" where
  "Connect k ip port = (\<lambda>(s, h).
     let (r, h) = invoke k (SC_connect (m_sockfd s) (inet_addr k ip, htons port)) h
     in (\<not> r < 0, s, h))"

text \<open>The failure value is \<open>false\<close>, converted to the \<open>int\<close> zero.\<close>

definition Accept :: "kernel \<Rightarrow> net \<Rightarrow> int \<times> net" where
  "Accept k = (\<lambda>(s, h).
     let (r, h) = invoke k (SC_accept (m_sockfd s)) h in (if r < 0 then 0 else r, s, h))"

text \<open>The bytes received are in the caller's buffer.\<close>

definition Recv :: "kernel \<Rightarrow> u64 \<Rightarrow> int \<Rightarrow> net \<Rightarrow> (int \<times> byte list) \<times> net" where
  "Recv k len flag = (\<lambda>(s, h).
     let (r, h) = invoke k (SC_recv (m_sockfd s) len flag) h; r = to_int r; buf = received k h
     in ((if r \<le> 0 then if errno k h = EAGAIN \<or> errno k h = EINTR then 0 else - 1 else r, buf), s, h))"

definition nonBlockRecv :: "kernel \<Rightarrow> u64 \<Rightarrow> net \<Rightarrow> (int \<times> byte list) \<times> net" where
  "nonBlockRecv k len = Recv k len MSG_DONTWAIT"

definition Send :: "kernel \<Rightarrow> byte list \<Rightarrow> int \<Rightarrow> net \<Rightarrow> int \<times> net" where
  "Send k buf flag = (\<lambda>(s, h).
     let (r, h) = invoke k (SC_send (m_sockfd s) buf flag) h; r = to_int r
     in (if r < 0 then - 1 else r, s, h))"

definition nonBlockSend :: "kernel \<Rightarrow> byte list \<Rightarrow> net \<Rightarrow> int \<times> net" where
  "nonBlockSend k buf = Send k buf MSG_DONTWAIT"

text \<open>Also the destructor.\<close>

definition Close :: "kernel \<Rightarrow> net \<Rightarrow> net" where
  "Close k = (\<lambda>(s, h).
     if m_sockfd s \<noteq> INVALID_SOCKET
     then (s\<lparr>m_sockfd := INVALID_SOCKET\<rparr>, snd (invoke k (SC_close (m_sockfd s)) h))
     else (s, h))"

definition ReuseAddress :: "kernel \<Rightarrow> net \<Rightarrow> net" where
  "ReuseAddress k = (\<lambda>(s, h).
     let (_, h) = invoke k (SC_setsockopt (m_sockfd s) SO_REUSEADDR) h;
         (_, h) = invoke k (SC_setsockopt (m_sockfd s) SO_REUSEPORT) h
     in (s, h))"

definition NonBlock :: "kernel \<Rightarrow> net \<Rightarrow> bool \<times> net" where
  "NonBlock k = (\<lambda>(s, h).
     let (flag, h) = invoke k (SC_getfl (m_sockfd s)) h;
         (_, h) = invoke k (SC_setfl (m_sockfd s) (flag OR O_NONBLOCK)) h
     in (True, s, h))"

definition createServer :: "kernel \<Rightarrow> u16 \<Rightarrow> string \<Rightarrow> bool \<Rightarrow> net \<Rightarrow> bool \<times> net" where
  "createServer k port ip block_flag n =
     (case Create k n of (ok, n) \<Rightarrow>
      if \<not> ok then (False, n)
      else case Bind k ip port n of (ok, n) \<Rightarrow>
      if \<not> ok then (False, n)
      else case Listen k MAX_LISTEN n of (ok, n) \<Rightarrow>
      if \<not> ok then (False, n)
      else let n = if block_flag then snd (NonBlock k n) else n
           in (True, ReuseAddress k n))"

definition createClient :: "kernel \<Rightarrow> u16 \<Rightarrow> string \<Rightarrow> net \<Rightarrow> bool \<times> net" where
  "createClient k port ip n =
     (case Create k n of (ok, n) \<Rightarrow>
      if \<not> ok then (False, n) else Connect k ip port n)"

lemmas socket_defs = Create_def Bind_def Listen_def Connect_def Accept_def Recv_def nonBlockRecv_def
  Send_def nonBlockSend_def Close_def ReuseAddress_def NonBlock_def createServer_def createClient_def

subsection \<open>Setting up\<close>

text \<open>
  What \<open>createServer\<close> did, from its result and the length of the history: the calls are a prefix
  of these, ended by the first that fails.
\<close>

definition server_calls :: "kernel \<Rightarrow> u16 \<Rightarrow> string \<Rightarrow> int \<Rightarrow> syscall list" where
  "server_calls k port ip fd = [SC_socket, SC_bind fd (inet_addr k ip, htons port), SC_listen fd MAX_LISTEN]"

lemma createServer_true:
  assumes "createServer k port ip block_flag (s, h) = (True, s', h')"
  shows "m_sockfd s' \<noteq> INVALID_SOCKET \<and>
    (\<exists>fl. h' = h @ server_calls k port ip (m_sockfd s') @
       (if block_flag then [SC_getfl (m_sockfd s'), SC_setfl (m_sockfd s') (fl OR O_NONBLOCK)] else []) @
       [SC_setsockopt (m_sockfd s') SO_REUSEADDR, SC_setsockopt (m_sockfd s') SO_REUSEPORT])"
  using assms
  by (auto simp: socket_defs server_calls_def Let_def split: if_splits)

lemma createServer_false:
  assumes "createServer k port ip block_flag (s, h) = (False, s', h')"
  shows "\<exists>n. h' = h @ take n (server_calls k port ip (m_sockfd s')) \<and> 0 < n \<and> n \<le> 3 \<and>
    ret k h' < 0 \<or> h' = h @ [SC_socket] \<and> m_sockfd s' = INVALID_SOCKET"
proof -
  have t: "take 1 (server_calls k port ip fd) = [SC_socket]"
    "take 2 (server_calls k port ip fd) = [SC_socket, SC_bind fd (inet_addr k ip, htons port)]"
    "take 3 (server_calls k port ip fd) = server_calls k port ip fd" for fd
    by (simp_all add: server_calls_def)
  show ?thesis
    using assms
    by (auto simp: socket_defs Let_def server_calls_def split: if_splits
        intro: exI [of _ 2] exI [of _ 3])
qed

text \<open>
  The two options that allow an address in use to be bound are set after \<open>bind\<close>, where they no
  longer have an effect on it.
\<close>

definition before :: "'a list \<Rightarrow> 'a \<Rightarrow> 'a \<Rightarrow> bool" where
  "before xs a b \<longleftrightarrow> (\<exists>us vs ws. xs = us @ a # vs @ b # ws)"

theorem reuse_set_after_bind:
  assumes "createServer k port ip block_flag (s, []) = (True, s', h)"
  shows "before h (SC_bind (m_sockfd s') (inet_addr k ip, htons port)) (SC_setsockopt (m_sockfd s') SO_REUSEADDR) \<and>
    \<not> before h (SC_setsockopt (m_sockfd s') SO_REUSEADDR) (SC_bind (m_sockfd s') (inet_addr k ip, htons port))"
proof -
  obtain fl where h: "h = server_calls k port ip (m_sockfd s') @
       (if block_flag then [SC_getfl (m_sockfd s'), SC_setfl (m_sockfd s') (fl OR O_NONBLOCK)] else []) @
       [SC_setsockopt (m_sockfd s') SO_REUSEADDR, SC_setsockopt (m_sockfd s') SO_REUSEPORT]"
    using createServer_true [OF assms] by auto
  have "before h (SC_bind (m_sockfd s') (inet_addr k ip, htons port)) (SC_setsockopt (m_sockfd s') SO_REUSEADDR)"
    unfolding before_def h
    by (rule exI [of _ "[SC_socket]"], rule exI [of _ "SC_listen (m_sockfd s') MAX_LISTEN #
        (if block_flag then [SC_getfl (m_sockfd s'), SC_setfl (m_sockfd s') (fl OR O_NONBLOCK)] else [])"])
      (simp add: server_calls_def)
  moreover have "\<not> before h (SC_setsockopt (m_sockfd s') SO_REUSEADDR) (SC_bind (m_sockfd s') (inet_addr k ip, htons port))"
    unfolding before_def h server_calls_def by (auto simp: Cons_eq_append_conv append_eq_Cons_conv)
  ultimately show ?thesis by blast
qed

subsection \<open>Descriptors\<close>

text \<open>
  How often a descriptor was given by \<open>socket\<close> less how often it was closed, over a history read
  from its end.
\<close>

fun balance_rev :: "kernel \<Rightarrow> history \<Rightarrow> int \<Rightarrow> int" where
  "balance_rev k [] fd = 0"
| "balance_rev k (c # h) fd = balance_rev k h fd +
     (if c = SC_socket \<and> ret k (rev (c # h)) = fd \<and> fd \<noteq> INVALID_SOCKET then 1 else 0) -
     (if c = SC_close fd then 1 else 0)"

definition balance :: "kernel \<Rightarrow> history \<Rightarrow> int \<Rightarrow> int" where
  "balance k h fd = balance_rev k (rev h) fd"

lemma balance_simps [simp]:
  "balance k [] fd = 0"
  "balance k (h @ [SC_socket]) fd = balance k h fd +
     (if ret k (h @ [SC_socket]) = fd \<and> fd \<noteq> INVALID_SOCKET then 1 else 0)"
  "balance k (h @ [SC_close fd']) fd = balance k h fd - (if fd' = fd then 1 else 0)"
  by (simp_all add: balance_def)

lemma balance_other: "c \<noteq> SC_socket \<Longrightarrow> (\<And>fd. c \<noteq> SC_close fd) \<Longrightarrow> balance k (h @ [c]) fd = balance k h fd"
  by (cases c) (simp_all add: balance_def)

lemma balance_others [simp]:
  "balance k (h @ [SC_bind f a]) fd = balance k h fd"
  "balance k (h @ [SC_listen f b]) fd = balance k h fd"
  "balance k (h @ [SC_connect f a]) fd = balance k h fd"
  "balance k (h @ [SC_accept f]) fd = balance k h fd"
  "balance k (h @ [SC_recv f l g]) fd = balance k h fd"
  "balance k (h @ [SC_send f buf g]) fd = balance k h fd"
  "balance k (h @ [SC_setsockopt f p]) fd = balance k h fd"
  "balance k (h @ [SC_getfl f]) fd = balance k h fd"
  "balance k (h @ [SC_setfl f g]) fd = balance k h fd"
  by (simp_all add: balance_other)

text \<open>The descriptor of the socket is open once, and no other is left open by it.\<close>

definition owns_fd :: "kernel \<Rightarrow> net \<Rightarrow> bool" where
  "owns_fd k = (\<lambda>(s, h).
     \<forall>fd. balance k h fd = (if fd = m_sockfd s \<and> fd \<noteq> INVALID_SOCKET then 1 else 0))"

datatype socket_op =
  O_create | O_bind string u16 | O_listen int | O_connect string u16 | O_accept
| O_recv u64 int | O_nonblock_recv u64 | O_send "byte list" int | O_nonblock_send "byte list" | O_close
| O_server u16 string bool | O_client u16 string | O_reuse | O_nonblock

fun socket_do :: "kernel \<Rightarrow> socket_op \<Rightarrow> net \<Rightarrow> net" where
  "socket_do k O_create n = snd (Create k n)"
| "socket_do k (O_bind ip port) n = snd (Bind k ip port n)"
| "socket_do k (O_listen b) n = snd (Listen k b n)"
| "socket_do k (O_connect ip port) n = snd (Connect k ip port n)"
| "socket_do k O_accept n = snd (Accept k n)"
| "socket_do k (O_recv l f) n = snd (Recv k l f n)"
| "socket_do k (O_nonblock_recv l) n = snd (nonBlockRecv k l n)"
| "socket_do k (O_send buf f) n = snd (Send k buf f n)"
| "socket_do k (O_nonblock_send buf) n = snd (nonBlockSend k buf n)"
| "socket_do k O_close n = Close k n"
| "socket_do k (O_server port ip b) n = snd (createServer k port ip b n)"
| "socket_do k (O_client port ip) n = snd (createClient k port ip n)"
| "socket_do k O_reuse n = ReuseAddress k n"
| "socket_do k O_nonblock n = snd (NonBlock k n)"

fun creates :: "socket_op \<Rightarrow> bool" where
  "creates O_create = True" | "creates (O_server _ _ _) = True" | "creates (O_client _ _) = True"
| "creates _ = False"

text \<open>\<open>None\<close> when a socket that holds a descriptor is made to create another.\<close>

fun socket_run :: "kernel \<Rightarrow> socket_op list \<Rightarrow> net \<Rightarrow> net option" where
  "socket_run k [] n = Some n"
| "socket_run k (e # es) n =
     (if creates e \<and> m_sockfd (fst n) \<noteq> INVALID_SOCKET then None
      else socket_run k es (socket_do k e n))"

lemma Create_owns: "owns_fd k (s, h) \<Longrightarrow> m_sockfd s = INVALID_SOCKET \<Longrightarrow> owns_fd k (snd (Create k (s, h)))"
  by (auto simp: owns_fd_def Create_def Let_def)

lemma Close_owns: "owns_fd k n \<Longrightarrow> owns_fd k (Close k n)"
  by (cases n) (auto simp: owns_fd_def Close_def)

text \<open>The calls that neither create nor close keep the descriptor and the balance.\<close>

definition same_fd :: "kernel \<Rightarrow> net \<Rightarrow> net \<Rightarrow> bool" where
  "same_fd k n n' \<longleftrightarrow> fst n' = fst n \<and> balance k (snd n') = balance k (snd n)"

lemma same_fd_owns: "same_fd k n n' \<Longrightarrow> owns_fd k n \<Longrightarrow> owns_fd k n'"
  by (cases n; cases n') (simp add: same_fd_def owns_fd_def)

lemma same_fd_trans: "same_fd k n n' \<Longrightarrow> same_fd k n' n'' \<Longrightarrow> same_fd k n n''"
  by (simp add: same_fd_def)

lemma same_fd_ops:
  "same_fd k n (snd (Bind k ip port n))" "same_fd k n (snd (Listen k b n))"
  "same_fd k n (snd (Connect k ip port n))" "same_fd k n (snd (Accept k n))"
  "same_fd k n (snd (Recv k l f n))" "same_fd k n (snd (Send k buf f n))"
  "same_fd k n (ReuseAddress k n)" "same_fd k n (snd (NonBlock k n))"
proof -
  show "same_fd k n (ReuseAddress k n)"
  proof -
    have "balance k ((snd n @ [SC_setsockopt fd p]) @ [SC_setsockopt fd q]) = balance k (snd n)" for fd p q
      by (rule ext) (simp only: balance_others)
    then show ?thesis by (cases n) (simp add: same_fd_def ReuseAddress_def)
  qed
  show "same_fd k n (snd (NonBlock k n))"
  proof -
    have "balance k ((snd n @ [SC_getfl fd]) @ [SC_setfl fd q]) = balance k (snd n)" for fd q
      by (rule ext) (simp only: balance_others)
    then show ?thesis by (cases n) (simp add: same_fd_def NonBlock_def)
  qed
qed (cases n; auto simp: same_fd_def socket_defs Let_def fun_eq_iff)+

lemma createServer_owns:
  assumes "owns_fd k (s, h)" "m_sockfd s = INVALID_SOCKET"
  shows "owns_fd k (snd (createServer k port ip b (s, h)))"
proof -
  define n1 where "n1 = snd (Create k (s, h))"
  define n2 where "n2 = snd (Bind k ip port n1)"
  define n3 where "n3 = snd (Listen k MAX_LISTEN n2)"
  define n4 where "n4 = (if b then snd (NonBlock k n3) else n3)"
  have o1: "owns_fd k n1" unfolding n1_def by (rule Create_owns [OF assms])
  have o2: "owns_fd k n2" unfolding n2_def by (rule same_fd_owns [OF same_fd_ops(1) o1])
  have o3: "owns_fd k n3" unfolding n3_def by (rule same_fd_owns [OF same_fd_ops(2) o2])
  have o4: "owns_fd k n4" unfolding n4_def using o3 same_fd_owns [OF same_fd_ops(8) o3] by simp
  have o5: "owns_fd k (ReuseAddress k n4)" by (rule same_fd_owns [OF same_fd_ops(7) o4])
  have "snd (createServer k port ip b (s, h)) \<in> {n1, n2, n3, ReuseAddress k n4}"
    by (auto simp: createServer_def n1_def n2_def n3_def n4_def Let_def split: prod.splits)
  then show ?thesis using o1 o2 o3 o5 by auto
qed

lemma createClient_owns:
  assumes "owns_fd k (s, h)" "m_sockfd s = INVALID_SOCKET"
  shows "owns_fd k (snd (createClient k port ip (s, h)))"
proof -
  define n1 where "n1 = snd (Create k (s, h))"
  have o1: "owns_fd k n1" unfolding n1_def by (rule Create_owns [OF assms])
  have o2: "owns_fd k (snd (Connect k ip port n1))" by (rule same_fd_owns [OF same_fd_ops(3) o1])
  have "snd (createClient k port ip (s, h)) \<in> {n1, snd (Connect k ip port n1)}"
    by (auto simp: createClient_def n1_def split: prod.splits)
  then show ?thesis using o1 o2 by auto
qed

lemma same_fd_do:
  "\<not> creates e \<Longrightarrow> e \<noteq> O_close \<Longrightarrow> same_fd k n (socket_do k e n)"
  by (cases e) (simp_all add: same_fd_ops nonBlockRecv_def nonBlockSend_def)

lemma creates_owns:
  "owns_fd k n \<Longrightarrow> m_sockfd (fst n) = INVALID_SOCKET \<Longrightarrow> creates e \<Longrightarrow> owns_fd k (socket_do k e n)"
  by (cases n; cases e) (simp_all add: Create_owns createServer_owns createClient_owns)

lemma socket_do_owns:
  assumes "owns_fd k n" "creates e \<Longrightarrow> m_sockfd (fst n) = INVALID_SOCKET"
  shows "owns_fd k (socket_do k e n)"
proof (cases "creates e \<or> e = O_close")
  case True
  then show ?thesis using creates_owns [OF assms(1)] assms(2) Close_owns [OF assms(1)] by auto
next
  case False
  then show ?thesis using same_fd_owns [OF same_fd_do assms(1)] by blast
qed

lemma socket_run_owns: "socket_run k es n = Some n' \<Longrightarrow> owns_fd k n \<Longrightarrow> owns_fd k n'"
proof (induction es arbitrary: n)
  case (Cons e es)
  then have "creates e \<Longrightarrow> m_sockfd (fst n) = INVALID_SOCKET"
    and r: "socket_run k es (socket_do k e n) = Some n'" by (auto split: if_splits)
  then show ?case using Cons.IH [OF r socket_do_owns [OF Cons.prems(2)]] by blast
qed simp

text \<open>
  a socket closes what it opens: whatever a client does with it, failures of any call
  included, after the destructor each descriptor the system gave it has been closed as often as it
  was given, as long as no client creates on a socket that holds a descriptor.
\<close>

theorem socket_closes_what_it_opens:
  assumes "socket_run k es (Socket_new, []) = Some n"
  shows "balance k (snd (Close k n)) fd = 0 \<and> m_sockfd (fst (Close k n)) = INVALID_SOCKET"
proof -
  have "owns_fd k (Socket_new, [])" by (simp add: owns_fd_def Socket_new_def)
  then have "owns_fd k (Close k n)" using Close_owns socket_run_owns [OF assms] by blast
  then show ?thesis by (cases n) (auto simp: owns_fd_def Close_def split: if_splits)
qed

text \<open>
  the condition is needed: \<open>Create\<close> does not close the descriptor it overwrites, so a second
  attempt to connect, after one that failed, loses the first descriptor.
\<close>

definition refusing_kernel :: kernel where
  "refusing_kernel =
     \<lparr>ret = (\<lambda>h. case last h of SC_socket \<Rightarrow> 2 + int (count_list h SC_socket) | SC_connect _ _ \<Rightarrow> - 1 | _ \<Rightarrow> 0),
      errno = (\<lambda>_. 111), received = (\<lambda>_. []), inet_addr = (\<lambda>_. 0)\<rparr>"

theorem second_connect_leaks:
  "let (ok, n) = createClient refusing_kernel 80 ''10.0.0.1'' (Socket_new, []);
       (ok', n') = createClient refusing_kernel 80 ''10.0.0.1'' n
   in \<not> ok \<and> \<not> ok' \<and> balance refusing_kernel (snd (Close refusing_kernel n')) 3 = 1"
  by (simp add: createClient_def Create_def Connect_def Close_def refusing_kernel_def Socket_new_def
      INVALID_SOCKET_def balance_def Let_def)

subsection \<open>Receiving\<close>

text \<open>
  \<open>Recv\<close> looks at \<open>errno\<close> also when \<open>recv\<close> returned zero, the end of the stream, which does not
  set it: after an earlier call left \<open>EAGAIN\<close> there, a closed connection looks like one without
  data. Otherwise it is an error.
\<close>

theorem Recv_cases:
  assumes "Recv k len flag (s, h) = ((r, buf), s', h')"
  shows "s' = s \<and> h' = h @ [SC_recv (m_sockfd s) len flag] \<and> buf = received k h' \<and>
    r = (let q = to_int (ret k h')
         in if 0 < q then q else if errno k h' \<in> {EAGAIN, EINTR} then 0 else - 1)"
  using assms by (auto simp: Recv_def Let_def split: if_splits)

theorem closed_peer_unnoticed:
  "ret k (h @ [SC_recv (m_sockfd s) len MSG_DONTWAIT]) = 0 \<Longrightarrow>
   errno k (h @ [SC_recv (m_sockfd s) len MSG_DONTWAIT]) = EAGAIN \<Longrightarrow>
   fst (fst (nonBlockRecv k len (s, h))) = 0"
  by (simp add: nonBlockRecv_def Recv_def Let_def to_int_def)

text \<open>
  A caller of \<open>Accept\<close> cannot tell a failure from descriptor zero: the result is never negative.
\<close>

theorem Accept_never_negative: "0 \<le> fst (Accept k n)"
  by (cases n) (simp add: Accept_def)

lemma Accept_failure: "ret k (h @ [SC_accept (m_sockfd s)]) < 0 \<Longrightarrow> fst (Accept k (s, h)) = 0"
  by (simp add: Accept_def)

text \<open>A count that fits is passed on; one of two gigabytes or more is not.\<close>

lemma to_int_small: "0 \<le> r \<Longrightarrow> r < 2 ^ 31 \<Longrightarrow> to_int r = r"
  by (simp add: to_int_def signed_of_int signed_take_bit_int_eq_self)

lemma to_int_large: "to_int (2 ^ 31) = - (2 ^ 31)"
  by (simp add: to_int_def)

lemma htons_swaps: "htons (push_bit 8 (ucast (a :: byte)) OR ucast (b :: byte)) = push_bit 8 (ucast b) OR ucast a"
proof -
  have *: "\<not> bit (c :: byte) (8 + n)" for c n by (rule impossible_bit) simp
  show ?thesis
    unfolding htons_def
    by (intro bit_eqI) (auto simp: bit_or_iff bit_push_bit_iff bit_drop_bit_eq bit_ucast_iff * impossible_bit)
qed

subsection \<open>The time counter\<close>

text \<open>
  Time points are nanoseconds of the clock; a \<open>duration_cast\<close> to a coarser unit truncates towards
  zero, so a reading is never later than the time that passed.
\<close>

record time_counter =
  m_begin :: int

definition TimeCounter :: "int \<Rightarrow> time_counter" where
  "TimeCounter clock_now = \<lparr>m_begin = clock_now\<rparr>"

definition time_reset :: "int \<Rightarrow> time_counter \<Rightarrow> time_counter" where
  "time_reset clock_now t = t\<lparr>m_begin := clock_now\<rparr>"

definition elapsed :: "int \<Rightarrow> int \<Rightarrow> time_counter \<Rightarrow> int" where
  "elapsed unit clock_now t = (clock_now - m_begin t) sdiv unit"

definition elapsed_nano :: "int \<Rightarrow> time_counter \<Rightarrow> int" where "elapsed_nano = elapsed 1"
definition elapsed_micro :: "int \<Rightarrow> time_counter \<Rightarrow> int" where "elapsed_micro = elapsed 1000"
definition elapsed_milli :: "int \<Rightarrow> time_counter \<Rightarrow> int" where "elapsed_milli = elapsed 1000000"
definition elapsed_seconds :: "int \<Rightarrow> time_counter \<Rightarrow> int" where "elapsed_seconds = elapsed 1000000000"
definition elapsed_minutes :: "int \<Rightarrow> time_counter \<Rightarrow> int" where "elapsed_minutes = elapsed 60000000000"
definition elapsed_hours :: "int \<Rightarrow> time_counter \<Rightarrow> int" where "elapsed_hours = elapsed 3600000000000"

lemma elapsed_bounds:
  assumes "m_begin t \<le> clock_now" "0 < unit"
  shows "0 \<le> elapsed unit clock_now t"
    and "unit * elapsed unit clock_now t \<le> clock_now - m_begin t"
    and "clock_now - m_begin t < unit * (elapsed unit clock_now t + 1)"
proof -
  have e: "elapsed unit clock_now t = (clock_now - m_begin t) div unit"
    using assms by (simp add: elapsed_def signed_divide_int_def sgn_if)
  show "0 \<le> elapsed unit clock_now t" using assms by (simp add: e pos_imp_zdiv_nonneg_iff)
  show "unit * elapsed unit clock_now t \<le> clock_now - m_begin t"
    using minus_mod_eq_mult_div [of "clock_now - m_begin t" unit] pos_mod_sign [OF assms(2)]
    unfolding e by (metis diff_add_cancel le_add_same_cancel1)
  show "clock_now - m_begin t < unit * (elapsed unit clock_now t + 1)"
    using pos_mod_bound [OF assms(2), of "clock_now - m_begin t"]
      mult_div_mod_eq [of unit "clock_now - m_begin t"] unfolding e distrib_left by linarith
qed

text \<open>A coarser reading is the truncation of a finer one.\<close>

lemma elapsed_coarser:
  assumes "m_begin t \<le> clock_now" "0 < unit" "0 < q"
  shows "elapsed (unit * q) clock_now t = elapsed unit clock_now t div q"
  using assms by (simp add: elapsed_def signed_divide_int_def sgn_if zdiv_zmult2_eq)

end
