(* ===== verification/JsonHeap.thy ===== *)
theory JsonHeap
  imports Json
begin

text \<open>
  The memory of a JSON value (src/code/common/include/util/json.hpp): the tagged union with its
  pointers to a map, a deque or a string, and the heap these point into. \<open>Json\<close> describes the same
  operations on trees; here copies, moves, assignments, references into a value and destruction are
  followed on the heap, and shown to compute those trees. Destroying and copying recurse into the
  members of a container; the first argument \<open>n\<close> of the recursive operations is how deep the
  stack allows the recursion to go.
\<close>

subsection \<open>Cells\<close>

datatype 'f backing = B_ptr "nat option" | B_float 'f | B_int u64 | B_bool bool

datatype 'f jvalue = Value (v_type: emJsonType) (Internal: "'f backing")

datatype 'f cell = C_map "(string \<times> 'f jvalue) list" | C_list "'f jvalue list" | C_str string

type_synonym 'f cells = "nat \<rightharpoonup> 'f cell"

record 'f jheap =
  cells :: "'f cells"
  limit :: nat

definition alloc :: "'f cell \<Rightarrow> 'f jheap \<Rightarrow> nat \<times> 'f jheap" where
  "alloc c h = (limit h, h\<lparr>cells := (cells h)(limit h \<mapsto> c), limit := Suc (limit h)\<rparr>)"

definition free :: "nat \<Rightarrow> 'f jheap \<Rightarrow> 'f jheap" where
  "free p h = h\<lparr>cells := (cells h)(p := None)\<rparr>"

text \<open>The cell a value of a type with a pointer refers to; a null or dangling pointer has none.\<close>

definition target :: "'f jvalue \<Rightarrow> 'f cells \<Rightarrow> (nat \<times> 'f cell) result" where
  "target v c = (case Internal v of
     B_ptr (Some p) \<Rightarrow> (case c p of Some x \<Rightarrow> Inr (p, x) | None \<Rightarrow> Inl Undefined)
   | _ \<Rightarrow> Inl Undefined)"

fun each :: "('a \<Rightarrow> 's \<Rightarrow> 's result) \<Rightarrow> 'a list \<Rightarrow> 's \<Rightarrow> 's result" where
  "each f [] s = Inr s"
| "each f (x # xs) s = and_then (f x s) (each f xs)"

text \<open>\<open>ClearInternal\<close>, also the destructor. Deleting a null pointer does nothing.\<close>

fun ClearInternal :: "nat \<Rightarrow> 'f jvalue \<Rightarrow> 'f jheap \<Rightarrow> 'f jheap result" where
  "ClearInternal 0 v h = Inl Aborts"
| "ClearInternal (Suc n) v h =
     (if v_type v \<notin> {Object, Array, String} \<or> Internal v = B_ptr None then Inr h
      else and_then (target v (cells h)) (\<lambda>(p, x). case (v_type v, x) of
          (Object, C_map m) \<Rightarrow> and_then (each (ClearInternal n) (map snd m) h) (\<lambda>h. Inr (free p h))
        | (Array, C_list xs) \<Rightarrow> and_then (each (ClearInternal n) xs h) (\<lambda>h. Inr (free p h))
        | (String, C_str s) \<Rightarrow> Inr (free p h)
        | _ \<Rightarrow> Inl Undefined))"

fun copies :: "('f jvalue \<Rightarrow> 'f jheap \<Rightarrow> ('f jvalue \<times> 'f jheap) result) \<Rightarrow> 'f jvalue list \<Rightarrow> 'f jheap \<Rightarrow>
    ('f jvalue list \<times> 'f jheap) result" where
  "copies f [] h = Inr ([], h)"
| "copies f (x # xs) h = and_then (f x h) (\<lambda>(y, h). and_then (copies f xs h) (\<lambda>(ys, h). Inr (y # ys, h)))"

text \<open>The copy constructor.\<close>

fun copy_value :: "nat \<Rightarrow> 'f jvalue \<Rightarrow> 'f jheap \<Rightarrow> ('f jvalue \<times> 'f jheap) result" where
  "copy_value 0 v h = Inl Aborts"
| "copy_value (Suc n) v h =
     (if v_type v \<notin> {Object, Array, String} then Inr (v, h)
      else and_then (target v (cells h)) (\<lambda>(p, x). case (v_type v, x) of
          (Object, C_map m) \<Rightarrow> and_then (copies (copy_value n) (map snd m) h) (\<lambda>(ys, h).
             let (q, h) = alloc (C_map (zip (map fst m) ys)) h in Inr (Value Object (B_ptr (Some q)), h))
        | (Array, C_list xs) \<Rightarrow> and_then (copies (copy_value n) xs h) (\<lambda>(ys, h).
             let (q, h) = alloc (C_list ys) h in Inr (Value Array (B_ptr (Some q)), h))
        | (String, C_str s) \<Rightarrow>
             let (q, h) = alloc (C_str s) h in Inr (Value String (B_ptr (Some q)), h)
        | _ \<Rightarrow> Inl Undefined))"

subsection \<open>The tree a value stands for\<close>

text \<open>\<open>rep c v j F\<close>: on the cells \<open>c\<close> the value \<open>v\<close> is the tree \<open>j\<close> and owns exactly the cells \<open>F\<close>.\<close>

inductive rep :: "'f cells \<Rightarrow> 'f jvalue \<Rightarrow> 'f json \<Rightarrow> nat set \<Rightarrow> bool"
  and reps :: "'f cells \<Rightarrow> 'f jvalue list \<Rightarrow> 'f json list \<Rightarrow> nat set \<Rightarrow> bool" for c where
  rep_null: "rep c (Value Null i) JNull {}"
| rep_float: "rep c (Value Floating (B_float x)) (JFloating x) {}"
| rep_int: "rep c (Value Integral (B_int i)) (JIntegral i) {}"
| rep_bool: "rep c (Value Boolean (B_bool b)) (JBoolean b) {}"
| rep_string: "c p = Some (C_str s) \<Longrightarrow> rep c (Value String (B_ptr (Some p))) (JString s) {p}"
| rep_object: "c p = Some (C_map m) \<Longrightarrow> reps c (map snd m) js F \<Longrightarrow> p \<notin> F \<Longrightarrow>
    rep c (Value Object (B_ptr (Some p))) (JObject (zip (map fst m) js)) (insert p F)"
| rep_array: "c p = Some (C_list vs) \<Longrightarrow> reps c vs js F \<Longrightarrow> p \<notin> F \<Longrightarrow>
    rep c (Value Array (B_ptr (Some p))) (JArray js) (insert p F)"
| reps_nil: "reps c [] [] {}"
| reps_cons: "rep c v j F \<Longrightarrow> reps c vs js G \<Longrightarrow> F \<inter> G = {} \<Longrightarrow> reps c (v # vs) (j # js) (F \<union> G)"

inductive_simps rep_simps:
  "rep c (Value Null i) j F" "rep c (Value Object i) j F" "rep c (Value Array i) j F"
  "rep c (Value String i) j F" "rep c (Value Floating i) j F" "rep c (Value Integral i) j F"
  "rep c (Value Boolean i) j F"

inductive_simps reps_simps: "reps c [] js F" "reps c (v # vs) js F"

inductive_cases rep_JObjectE: "rep c v (JObject m) F"
inductive_cases rep_JArrayE: "rep c v (JArray js) F"

lemma rep_owned:
  shows "rep c v j F \<Longrightarrow> F \<subseteq> dom c"
    and "reps c vs js F \<Longrightarrow> F \<subseteq> dom c \<and> length js = length vs"
  by (induction rule: rep_reps.inducts) auto

lemmas reps_length = conjunct2 [OF rep_owned(2)]

lemma rep_type: "rep c v j F \<Longrightarrow> v_type v = JSONType j"
  by (induction rule: rep_reps.inducts(1) [where ?P2.0 = "\<lambda>_ _ _. True"]) simp_all

text \<open>Cells outside a value do not matter to it.\<close>

lemma rep_frame:
  shows "rep c v j F \<Longrightarrow> \<forall>p \<in> F. c' p = c p \<Longrightarrow> rep c' v j F"
    and "reps c vs js F \<Longrightarrow> \<forall>p \<in> F. c' p = c p \<Longrightarrow> reps c' vs js F"
  by (induction rule: rep_reps.inducts) (auto intro: rep_reps.intros)

lemma rep_unique:
  shows "rep c v j F \<Longrightarrow> rep c v j' F' \<Longrightarrow> j' = j \<and> F' = F"
    and "reps c vs js F \<Longrightarrow> reps c vs js' F' \<Longrightarrow> js' = js \<and> F' = F"
proof (induction arbitrary: j' F' and js' F' rule: rep_reps.inducts)
  case (rep_object p m js F)
  from rep_object.prems rep_object(1) obtain js' G where
    e: "j' = JObject (zip (map fst m) js')" "F' = insert p G" and r: "reps c (map snd m) js' G"
    by (auto simp: rep_simps)
  show ?case using rep_object(3) [OF r] e by simp
next
  case (rep_array p vs js F)
  from rep_array.prems rep_array(1) obtain js' G where
    e: "j' = JArray js'" "F' = insert p G" and r: "reps c vs js' G"
    by (auto simp: rep_simps)
  show ?case using rep_array(3) [OF r] e by simp
next
  case (reps_cons v j F vs js G)
  from reps_cons.prems reps_cons.IH show ?case unfolding reps_simps by blast
qed (simp_all add: rep_simps reps_simps)

text \<open>How deep a tree is nested.\<close>

fun depth :: "'f json \<Rightarrow> nat" where
  "depth (JObject m) = Suc (fold max (map (\<lambda>(_, j). depth j) m) 0)"
| "depth (JArray js) = Suc (fold max (map depth js) 0)"
| "depth _ = 0"

lemma le_fold_max: "x \<in> set xs \<Longrightarrow> x \<le> fold max xs (a :: nat)"
  and fold_max_ge: "a \<le> fold max xs (a :: nat)"
proof -
  show ge: "a \<le> fold max xs (a :: nat)" for a xs
    by (induction xs arbitrary: a) (auto intro: order_trans [OF max.cobounded2])
  show "x \<in> set xs \<Longrightarrow> x \<le> fold max xs (a :: nat)"
  proof (induction xs arbitrary: a)
    case (Cons y ys)
    then show ?case using ge [of "max y a" ys] by auto
  qed simp
qed

lemma depth_array: "j \<in> set js \<Longrightarrow> depth j < depth (JArray js)"
  using le_fold_max [of "depth j" "map depth js" 0] by simp

lemma depth_object: "(k, j) \<in> set m \<Longrightarrow> depth j < depth (JObject m)"
  using le_fold_max [of "depth j" "map (\<lambda>(_, j). depth j) m" 0] by (force simp: less_Suc_eq_le)

lemma depth_members:
  assumes "length js = length m" "j \<in> set js"
  shows "depth j < depth (JObject (zip (map fst m) js))"
proof -
  obtain i where i: "i < length js" "js ! i = j" using assms(2) by (auto simp: in_set_conv_nth)
  then have "zip (map fst m) js ! i \<in> set (zip (map fst m) js)" using assms(1) by (intro nth_mem) simp
  then have "(fst (m ! i), j) \<in> set (zip (map fst m) js)" using i assms(1) by simp
  then show ?thesis by (rule depth_object)
qed

subsection \<open>Destroying and copying\<close>

definition drop_cells :: "nat set \<Rightarrow> 'f jheap \<Rightarrow> 'f jheap" where
  "drop_cells F h = h\<lparr>cells := cells h |` (- F)\<rparr>"

lemma drop_cells_simps [simp]:
  "drop_cells {} h = h" "drop_cells F (drop_cells G h) = drop_cells (F \<union> G) h"
  "free p h = drop_cells {p} h" "limit (drop_cells F h) = limit h"
proof -
  have "cells h |` (- {}) = cells h" by (rule ext) (simp add: restrict_map_def)
  then show "drop_cells {} h = h" by (simp add: drop_cells_def)
  have "cells h |` (- G) |` (- F) = cells h |` (- (F \<union> G))" by (rule ext) (simp add: restrict_map_def)
  then show "drop_cells F (drop_cells G h) = drop_cells (F \<union> G) h" by (simp add: drop_cells_def)
  have "(cells h)(p := None) = cells h |` (- {p})" by (rule ext) (simp add: restrict_map_def)
  then show "free p h = drop_cells {p} h" by (simp add: drop_cells_def free_def)
qed (simp add: drop_cells_def)

lemma cells_drop: "cells (drop_cells F h) p = (if p \<in> F then None else cells h p)"
  by (simp add: drop_cells_def restrict_map_def)

lemma clear_rep_aux:
  fixes c :: "'f cells"
  shows "rep c v j F \<Longrightarrow> \<forall>(h :: 'f jheap) n. (\<forall>p \<in> F. cells h p = c p) \<longrightarrow> depth j < n \<longrightarrow>
      ClearInternal n v h = Inr (drop_cells F h)"
    and "reps c vs js F \<Longrightarrow> \<forall>(h :: 'f jheap) n. (\<forall>p \<in> F. cells h p = c p) \<longrightarrow> (\<forall>j \<in> set js. depth j < n) \<longrightarrow>
      each (ClearInternal n) vs h = Inr (drop_cells F h)"
proof (induction rule: rep_reps.inducts)
  case (rep_object p m js F)
  show ?case
  proof (intro allI impI)
    fix h :: "'f jheap" and n assume h: "\<forall>q \<in> insert p F. cells h q = c q" and d: "depth (JObject (zip (map fst m) js)) < n"
    obtain k where n: "n = Suc k" using d by (cases n) auto
    have len: "length js = length m" using reps_length [OF rep_object(2)] by simp
    have "\<forall>j \<in> set js. depth j < k" using depth_members [OF len] d n by fastforce
    then have "each (ClearInternal k) (map snd m) h = Inr (drop_cells F h)"
      using rep_object(3) h by simp
    then show "ClearInternal n (Value Object (B_ptr (Some p))) h = Inr (drop_cells (insert p F) h)"
      using h rep_object(1) by (simp add: n target_def)
  qed
next
  case (rep_array p vs js F)
  show ?case
  proof (intro allI impI)
    fix h :: "'f jheap" and n assume h: "\<forall>q \<in> insert p F. cells h q = c q" and d: "depth (JArray js) < n"
    obtain k where n: "n = Suc k" using d by (cases n) auto
    have "\<forall>j \<in> set js. depth j < k" using depth_array d n by fastforce
    then have "each (ClearInternal k) vs h = Inr (drop_cells F h)"
      using rep_array(3) h by simp
    then show "ClearInternal n (Value Array (B_ptr (Some p))) h = Inr (drop_cells (insert p F) h)"
      using h rep_array(1) by (simp add: n target_def)
  qed
next
  case (rep_string p s)
  show ?case
  proof (intro allI impI)
    fix h :: "'f jheap" and n assume "\<forall>q \<in> {p}. cells h q = c q" and d: "depth (JString s) < n"
    then show "ClearInternal n (Value String (B_ptr (Some p))) h = Inr (drop_cells {p} h)"
      using rep_string by (cases n) (simp_all add: target_def)
  qed
next
  case (reps_cons v j F vs js G)
  show ?case
  proof (intro allI impI)
    fix h :: "'f jheap" and n assume h: "\<forall>p \<in> F \<union> G. cells h p = c p" and d: "\<forall>i \<in> set (j # js). depth i < n"
    have "ClearInternal n v h = Inr (drop_cells F h)" using reps_cons h d by simp
    moreover have "\<forall>p \<in> G. cells (drop_cells F h) p = c p" using reps_cons h by (auto simp: cells_drop)
    moreover have "\<forall>i \<in> set js. depth i < n" using d by simp
    ultimately have "each (ClearInternal n) (v # vs) h = Inr (drop_cells G (drop_cells F h))"
      using reps_cons by simp
    then show "each (ClearInternal n) (v # vs) h = Inr (drop_cells (F \<union> G) h)" by (simp add: Un_commute)
  qed
next
  case (rep_null i) show ?case by (intro allI impI, rename_tac h n, case_tac n) simp_all
next
  case (rep_float i) show ?case by (intro allI impI, rename_tac h n, case_tac n) simp_all
next
  case (rep_int i) show ?case by (intro allI impI, rename_tac h n, case_tac n) simp_all
next
  case (rep_bool i) show ?case by (intro allI impI, rename_tac h n, case_tac n) simp_all
qed simp

lemma clear_rep: "rep (cells h) v j F \<Longrightarrow> depth j < n \<Longrightarrow> ClearInternal n v h = Inr (drop_cells F h)"
  using clear_rep_aux(1) [of "cells h" v j F] by blast

lemma clears_rep: "reps (cells h) vs js F \<Longrightarrow> \<forall>j \<in> set js. depth j < n \<Longrightarrow>
    each (ClearInternal n) vs h = Inr (drop_cells F h)"
  using clear_rep_aux(2) [of "cells h" vs js F] by blast

definition jbounded :: "'f jheap \<Rightarrow> bool" where
  "jbounded h \<longleftrightarrow> (\<forall>p. limit h \<le> p \<longrightarrow> cells h p = None)"

text \<open>From \<open>h\<close> to \<open>h'\<close> only the cells \<open>G\<close>, all new, have been added.\<close>

definition grown :: "'f jheap \<Rightarrow> 'f jheap \<Rightarrow> nat set \<Rightarrow> bool" where
  "grown h h' G \<longleftrightarrow> jbounded h' \<and> limit h \<le> limit h' \<and> G \<subseteq> {limit h..<limit h'} \<and>
     (\<forall>p. p \<notin> G \<longrightarrow> cells h' p = cells h p)"

lemma grown_refl [simp]: "jbounded h \<Longrightarrow> grown h h {}"
  by (simp add: grown_def)

lemma grown_trans: "grown h h' G \<Longrightarrow> grown h' h'' G' \<Longrightarrow> grown h h'' (G \<union> G')"
  unfolding grown_def by fastforce

lemma grown_alloc:
  assumes "alloc x h = (q, h')" "jbounded h"
  shows "grown h h' {q}" "cells h' q = Some x" "q = limit h"
  using assms by (auto simp: alloc_def grown_def jbounded_def)

lemma grown_old:
  assumes "jbounded h" "grown h h' G" "F \<subseteq> dom (cells h)"
  shows "F \<inter> G = {} \<and> (\<forall>p \<in> F. cells h' p = cells h p)"
proof -
  have "p < limit h" if "p \<in> F" for p
    using assms(1,3) that by (auto simp: jbounded_def not_le [symmetric])
  then have "F \<inter> G = {}" using assms(2) by (fastforce simp: grown_def)
  then show ?thesis using assms(2) by (auto simp: grown_def)
qed

lemma grown_bounded: "grown h h' G \<Longrightarrow> jbounded h'"
  by (simp add: grown_def)

lemma zip_map_fst [simp]: "length ys = length m \<Longrightarrow> map fst (zip (map fst m) ys) = map fst m"
  "length ys = length m \<Longrightarrow> map snd (zip (map fst m) ys) = ys"
  by simp_all

text \<open>Wrapping a list of values into a new container.\<close>

lemma rep_new_object:
  assumes r: "reps (cells h) vs js G" and b: "jbounded h" and a: "alloc (C_map m) h = (q, h')"
    and m: "map snd m = vs"
  shows "rep (cells h') (Value Object (B_ptr (Some q))) (JObject (zip (map fst m) js)) (insert q G)"
proof -
  note A = grown_alloc [OF a b]
  note O = grown_old [OF b A(1) conjunct1 [OF rep_owned(2) [OF r]]]
  show ?thesis
    by (rule rep_object) (use A O rep_frame(2) [OF r, of "cells h'"] m in auto)
qed

lemma rep_new_array:
  assumes r: "reps (cells h) vs js G" and b: "jbounded h" and a: "alloc (C_list vs) h = (q, h')"
  shows "rep (cells h') (Value Array (B_ptr (Some q))) (JArray js) (insert q G)"
proof -
  note A = grown_alloc [OF a b]
  note O = grown_old [OF b A(1) conjunct1 [OF rep_owned(2) [OF r]]]
  show ?thesis
    by (rule rep_array) (use A O rep_frame(2) [OF r, of "cells h'"] in auto)
qed

lemma copy_rep_aux:
  fixes c :: "'f cells"
  shows "rep c v j F \<Longrightarrow> \<forall>(h :: 'f jheap) n. (\<forall>p \<in> F. cells h p = c p) \<longrightarrow> jbounded h \<longrightarrow> depth j < n \<longrightarrow>
      (\<exists>v' h' G. copy_value n v h = Inr (v', h') \<and> rep (cells h') v' j G \<and> grown h h' G)"
    and "reps c vs js F \<Longrightarrow> \<forall>(h :: 'f jheap) n. (\<forall>p \<in> F. cells h p = c p) \<longrightarrow> jbounded h \<longrightarrow>
      (\<forall>j \<in> set js. depth j < n) \<longrightarrow>
      (\<exists>vs' h' G. copies (copy_value n) vs h = Inr (vs', h') \<and> reps (cells h') vs' js G \<and> grown h h' G)"
proof (induction rule: rep_reps.inducts)
  case (rep_object p m js F)
  show ?case
  proof (intro allI impI)
    fix h :: "'f jheap" and n assume h: "\<forall>q \<in> insert p F. cells h q = c q" and b: "jbounded h"
      and d: "depth (JObject (zip (map fst m) js)) < n"
    obtain k where n: "n = Suc k" using d by (cases n) auto
    have len: "length js = length m" using reps_length [OF rep_object(2)] by simp
    have "\<forall>j \<in> set js. depth j < k" using depth_members [OF len] d n by fastforce
    then obtain vs' h1 G where c: "copies (copy_value k) (map snd m) h = Inr (vs', h1)"
      "reps (cells h1) vs' js G" "grown h h1 G" using rep_object(3) h b by (metis insertCI)
    obtain q h2 where a: "alloc (C_map (zip (map fst m) vs')) h1 = (q, h2)" by fastforce
    have len': "length vs' = length m" using reps_length [OF c(2)] len by simp
    have "rep (cells h2) (Value Object (B_ptr (Some q))) (JObject (zip (map fst m) js)) (insert q G)"
      using rep_new_object [OF c(2) grown_bounded [OF c(3)] a] len' by simp
    moreover have "grown h h2 (insert q G)"
      using grown_trans [OF c(3) grown_alloc(1) [OF a grown_bounded [OF c(3)]]] by simp
    moreover have "copy_value n (Value Object (B_ptr (Some p))) h = Inr (Value Object (B_ptr (Some q)), h2)"
      using h rep_object(1) c(1) a by (simp add: n target_def)
    ultimately show "\<exists>v' h' G. copy_value n (Value Object (B_ptr (Some p))) h = Inr (v', h') \<and>
        rep (cells h') v' (JObject (zip (map fst m) js)) G \<and> grown h h' G" by blast
  qed
next
  case (rep_array p vs js F)
  show ?case
  proof (intro allI impI)
    fix h :: "'f jheap" and n assume h: "\<forall>q \<in> insert p F. cells h q = c q" and b: "jbounded h"
      and d: "depth (JArray js) < n"
    obtain k where n: "n = Suc k" using d by (cases n) auto
    have "\<forall>j \<in> set js. depth j < k" using depth_array d n by fastforce
    then obtain vs' h1 G where c: "copies (copy_value k) vs h = Inr (vs', h1)"
      "reps (cells h1) vs' js G" "grown h h1 G" using rep_array(3) h b by (metis insertCI)
    obtain q h2 where a: "alloc (C_list vs') h1 = (q, h2)" by fastforce
    have "rep (cells h2) (Value Array (B_ptr (Some q))) (JArray js) (insert q G)"
      by (rule rep_new_array [OF c(2) grown_bounded [OF c(3)] a])
    moreover have "grown h h2 (insert q G)"
      using grown_trans [OF c(3) grown_alloc(1) [OF a grown_bounded [OF c(3)]]] by simp
    moreover have "copy_value n (Value Array (B_ptr (Some p))) h = Inr (Value Array (B_ptr (Some q)), h2)"
      using h rep_array(1) c(1) a by (simp add: n target_def)
    ultimately show "\<exists>v' h' G. copy_value n (Value Array (B_ptr (Some p))) h = Inr (v', h') \<and>
        rep (cells h') v' (JArray js) G \<and> grown h h' G" by blast
  qed
next
  case (rep_string p s)
  show ?case
  proof (intro allI impI)
    fix h :: "'f jheap" and n assume h: "\<forall>q \<in> {p}. cells h q = c q" and b: "jbounded h"
      and d: "depth (JString s :: 'f json) < n"
    obtain k where n: "n = Suc k" using d by (cases n) auto
    obtain q h2 where a: "alloc (C_str s) h = (q, h2)" by fastforce
    have "rep (cells h2) (Value String (B_ptr (Some q))) (JString s) {q}"
      using grown_alloc(2) [OF a b] by (rule rep_reps.rep_string)
    moreover have "copy_value n (Value String (B_ptr (Some p))) h = Inr (Value String (B_ptr (Some q)), h2)"
      using h rep_string a by (simp add: n target_def)
    ultimately show "\<exists>v' h' G. copy_value n (Value String (B_ptr (Some p))) h = Inr (v', h') \<and>
        rep (cells h') v' (JString s) G \<and> grown h h' G" using grown_alloc(1) [OF a b] by blast
  qed
next
  case (reps_cons v j F vs js G)
  show ?case
  proof (intro allI impI)
    fix h :: "'f jheap" and n assume h: "\<forall>p \<in> F \<union> G. cells h p = c p" and b: "jbounded h"
      and d: "\<forall>i \<in> set (j # js). depth i < n"
    obtain v' h1 F1 where 1: "copy_value n v h = Inr (v', h1)" "rep (cells h1) v' j F1" "grown h h1 F1"
      using reps_cons h b d by (metis UnCI list.set_intros(1))
    have "G \<subseteq> dom (cells h)" using rep_owned(2) [OF reps_cons(3)] h by (auto simp: domIff subset_iff)
    then have "\<forall>p \<in> G. cells h1 p = c p" using grown_old [OF b 1(3)] h by simp
    moreover have "\<forall>i \<in> set js. depth i < n" using d by simp
    ultimately obtain vs' h2 G1 where 2: "copies (copy_value n) vs h1 = Inr (vs', h2)"
      "reps (cells h2) vs' js G1" "grown h1 h2 G1" using reps_cons grown_bounded [OF 1(3)] by meson
    note O = grown_old [OF grown_bounded [OF 1(3)] 2(3) rep_owned(1) [OF 1(2)]]
    have "reps (cells h2) (v' # vs') (j # js) (F1 \<union> G1)"
      by (rule rep_reps.reps_cons [OF rep_frame(1) [OF 1(2)] 2(2)]) (use O in auto)
    then show "\<exists>vs' h' G. copies (copy_value n) (v # vs) h = Inr (vs', h') \<and>
        reps (cells h') vs' (j # js) G \<and> grown h h' G"
      using 1(1) 2(1) grown_trans [OF 1(3) 2(3)] by (intro exI [of _ "v' # vs'"] exI [of _ h2] exI) simp
  qed
next
  case (rep_null i)
  show ?case by (intro allI impI, rename_tac h n, case_tac n)
    (auto intro!: exI [of _ "{}"] rep_reps.intros)
next
  case (rep_float i)
  show ?case by (intro allI impI, rename_tac h n, case_tac n)
    (auto intro!: exI [of _ "{}"] rep_reps.intros)
next
  case (rep_int i)
  show ?case by (intro allI impI, rename_tac h n, case_tac n)
    (auto intro!: exI [of _ "{}"] rep_reps.intros)
next
  case (rep_bool i)
  show ?case by (intro allI impI, rename_tac h n, case_tac n)
    (auto intro!: exI [of _ "{}"] rep_reps.intros)
qed (auto intro!: exI [of _ "{}"] rep_reps.intros)

lemma copy_rep:
  assumes "rep (cells h) v j F" "jbounded h" "depth j < n"
  obtains v' h' G where "copy_value n v h = Inr (v', h')" "rep (cells h') v' j G" "grown h h' G"
  using copy_rep_aux(1) [OF assms(1)] assms(2,3) by blast

subsection \<open>Operations on one value\<close>

text \<open>Each takes the value at a place and returns the value to put there.\<close>

definition default_value :: "'f jvalue" where
  "default_value = Value Null (B_int 0)"

definition v_SetType :: "'f float_lib \<Rightarrow> nat \<Rightarrow> emJsonType \<Rightarrow> 'f jvalue \<Rightarrow> 'f jheap \<Rightarrow> ('f jvalue \<times> 'f jheap) result" where
  "v_SetType fl n t w h =
     (if t = v_type w then Inr (w, h)
      else and_then (ClearInternal n w h) (\<lambda>h.
        Inr (case t of
          Null \<Rightarrow> (Value Null (B_ptr None), h)
        | Object \<Rightarrow> let (q, h) = alloc (C_map []) h in (Value Object (B_ptr (Some q)), h)
        | Array \<Rightarrow> let (q, h) = alloc (C_list []) h in (Value Array (B_ptr (Some q)), h)
        | String \<Rightarrow> let (q, h) = alloc (C_str []) h in (Value String (B_ptr (Some q)), h)
        | Floating \<Rightarrow> (Value Floating (B_float (fl_zero fl)), h)
        | Integral \<Rightarrow> (Value Integral (B_int 0), h)
        | Boolean \<Rightarrow> (Value Boolean (B_bool False), h))))"

definition v_assign_bool :: "'f float_lib \<Rightarrow> nat \<Rightarrow> bool \<Rightarrow> 'f jvalue \<Rightarrow> 'f jheap \<Rightarrow> ('f jvalue \<times> 'f jheap) result" where
  "v_assign_bool fl n b w h =
     and_then (v_SetType fl n Boolean w h) (\<lambda>(w, h). Inr (Value (v_type w) (B_bool b), h))"

definition v_assign_int :: "'f float_lib \<Rightarrow> nat \<Rightarrow> u64 \<Rightarrow> 'f jvalue \<Rightarrow> 'f jheap \<Rightarrow> ('f jvalue \<times> 'f jheap) result" where
  "v_assign_int fl n i w h =
     and_then (v_SetType fl n Integral w h) (\<lambda>(w, h). Inr (Value (v_type w) (B_int i), h))"

definition v_assign_float :: "'f float_lib \<Rightarrow> nat \<Rightarrow> 'f \<Rightarrow> 'f jvalue \<Rightarrow> 'f jheap \<Rightarrow> ('f jvalue \<times> 'f jheap) result" where
  "v_assign_float fl n x w h =
     and_then (v_SetType fl n Floating w h) (\<lambda>(w, h). Inr (Value (v_type w) (B_float x), h))"

definition put_cell :: "nat \<Rightarrow> 'f cell \<Rightarrow> 'f jheap \<Rightarrow> 'f jheap" where
  "put_cell p x h = h\<lparr>cells := (cells h)(p \<mapsto> x)\<rparr>"

definition v_assign_string :: "'f float_lib \<Rightarrow> nat \<Rightarrow> string \<Rightarrow> 'f jvalue \<Rightarrow> 'f jheap \<Rightarrow> ('f jvalue \<times> 'f jheap) result" where
  "v_assign_string fl n s w h =
     and_then (v_SetType fl n String w h) (\<lambda>(w, h). and_then (target w (cells h)) (\<lambda>(p, x).
       case x of C_str _ \<Rightarrow> Inr (w, put_cell p (C_str s) h) | _ \<Rightarrow> Inl Undefined))"

definition v_clear :: "nat \<Rightarrow> 'f jvalue \<Rightarrow> 'f jheap \<Rightarrow> ('f jvalue \<times> 'f jheap) result" where
  "v_clear n w h = and_then (ClearInternal n w h) (\<lambda>h. Inr (Value Null (B_int 0), h))"

text \<open>\<open>operator[]\<close> makes the member it refers to.\<close>

definition v_key :: "'f float_lib \<Rightarrow> nat \<Rightarrow> string \<Rightarrow> 'f jvalue \<Rightarrow> 'f jheap \<Rightarrow> ('f jvalue \<times> 'f jheap) result" where
  "v_key fl n k w h =
     and_then (v_SetType fl n Object w h) (\<lambda>(w, h). and_then (target w (cells h)) (\<lambda>(p, x).
       case x of
         C_map m \<Rightarrow> Inr (w, if map_of m k = None then put_cell p (C_map (map_insert k default_value m)) h else h)
       | _ \<Rightarrow> Inl Undefined))"

definition v_index :: "'f float_lib \<Rightarrow> nat \<Rightarrow> u32 \<Rightarrow> 'f jvalue \<Rightarrow> 'f jheap \<Rightarrow> ('f jvalue \<times> 'f jheap) result" where
  "v_index fl n i w h =
     and_then (v_SetType fl n Array w h) (\<lambda>(w, h). and_then (target w (cells h)) (\<lambda>(p, x).
       case x of
         C_list xs \<Rightarrow>
           (if length xs \<le> unat i
            then let k = unat (i + 1) in
              and_then (each (ClearInternal n) (drop k xs) h) (\<lambda>h.
                if unat i < k
                then Inr (w, put_cell p (C_list (take k xs @ replicate (k - length xs) default_value)) h)
                else Inl Undefined)
            else Inr (w, h))
       | _ \<Rightarrow> Inl Undefined))"

definition v_erase :: "nat \<Rightarrow> string \<Rightarrow> 'f jvalue \<Rightarrow> 'f jheap \<Rightarrow> ('f jvalue \<times> 'f jheap) result" where
  "v_erase n k w h =
     (if v_type w = Object
      then and_then (target w (cells h)) (\<lambda>(p, x).
        case x of
          C_map m \<Rightarrow> and_then (each (ClearInternal n) (map snd (filter (\<lambda>e. fst e = k) m)) h) (\<lambda>h.
            Inr (w, put_cell p (C_map (filter (\<lambda>e. fst e \<noteq> k) m)) h))
        | _ \<Rightarrow> Inl Undefined)
      else Inr (w, h))"

text \<open>
  \<open>append\<close>: the argument is a copy \<open>t\<close> of the caller's value, made before the call and destroyed
  after it; the new element is a copy of it.
\<close>

definition v_append :: "'f float_lib \<Rightarrow> nat \<Rightarrow> 'f jvalue \<Rightarrow> 'f jvalue \<Rightarrow> 'f jheap \<Rightarrow> ('f jvalue \<times> 'f jheap) result" where
  "v_append fl n t w h =
     and_then (v_SetType fl n Array w h) (\<lambda>(w, h). and_then (copy_value n t h) (\<lambda>(u, h).
       and_then (target w (cells h)) (\<lambda>(p, x).
         case x of
           C_list xs \<Rightarrow> and_then (ClearInternal n t (put_cell p (C_list (xs @ [u])) h)) (\<lambda>h. Inr (w, h))
         | _ \<Rightarrow> Inl Undefined)))"

text \<open>
  What such an operation does: the cells \<open>F\<close> of the old value give way to the cells \<open>F'\<close> of the
  new one, which are old ones or new; the others are kept, and what is left over is freed.
\<close>

definition becomes :: "'f jheap \<Rightarrow> nat set \<Rightarrow> 'f jheap \<Rightarrow> 'f jvalue \<Rightarrow> 'f json \<Rightarrow> nat set \<Rightarrow> bool" where
  "becomes h F h' w' j' F' \<longleftrightarrow>
     rep (cells h') w' j' F' \<and> jbounded h' \<and> limit h \<le> limit h' \<and>
     F' \<subseteq> F \<union> {limit h..<limit h'} \<and> (\<forall>p. p \<notin> F \<union> F' \<longrightarrow> cells h' p = cells h p) \<and>
     (\<forall>p \<in> F - F'. cells h' p = None)"

lemma becomes_refl: "rep (cells h) w j F \<Longrightarrow> jbounded h \<Longrightarrow> becomes h F h w j F"
  by (simp add: becomes_def)

lemma becomes_grown:
  assumes "grown h h' G" "rep (cells h') w' j' G"
  shows "becomes h {} h' w' j' G"
  using assms by (simp add: becomes_def grown_def)

lemma drop_bounded [simp]: "jbounded h \<Longrightarrow> jbounded (drop_cells F h)"
  by (simp add: jbounded_def cells_drop)

text \<open>Clearing a value and then building a new one.\<close>

lemma becomes_after_clear:
  assumes "becomes (drop_cells F h) {} h' w' j' G" "F \<subseteq> dom (cells h)" "jbounded h"
  shows "becomes h F h' w' j' G"
proof -
  have lt: "p < limit h" if "p \<in> F" for p
    using assms(2,3) that by (auto simp: jbounded_def not_le [symmetric])
  have G: "G \<subseteq> {limit h..<limit h'}" "\<forall>p. p \<notin> G \<longrightarrow> cells h' p = cells (drop_cells F h) p"
    using assms(1) by (simp_all add: becomes_def)
  have "\<forall>p. p \<notin> F \<union> G \<longrightarrow> cells h' p = cells h p" using G(2) by (simp add: cells_drop)
  moreover have "\<forall>p \<in> F - G. cells h' p = None" using G(2) by (simp add: cells_drop)
  ultimately show ?thesis using assms(1) G(1) by (auto simp: becomes_def)
qed

lemma v_SetType_becomes:
  assumes r: "rep (cells h) w j F" and b: "jbounded h" and d: "depth j < n"
  obtains w' h' F' where "v_SetType fl n t w h = Inr (w', h')" "becomes h F h' w' (SetType fl t j) F'"
proof (cases "t = v_type w")
  case True
  then have "SetType fl t j = j" using rep_type [OF r] by (simp add: SetType_def)
  then show thesis using that True becomes_refl [OF r b] by (simp add: v_SetType_def)
next
  case False
  then have e: "SetType fl t j = empty_of fl t" using rep_type [OF r] by (simp add: SetType_def)
  let ?h = "drop_cells F h"
  have c: "ClearInternal n w h = Inr ?h" by (rule clear_rep [OF r d])
  have b': "jbounded ?h" using b by simp
  have new: "\<exists>q h'. alloc x ?h = (q, h') \<and> cells h' q = Some x \<and> grown ?h h' {q}" for x
    using grown_alloc [OF _ b'] by (metis surj_pair)
  have "\<exists>w' h' F'. v_SetType fl n t w h = Inr (w', h') \<and> becomes ?h {} h' w' (empty_of fl t) F'"
  proof (cases t)
    case Object
    obtain q h' where q: "alloc (C_map []) ?h = (q, h')" "cells h' q = Some (C_map [])" "grown ?h h' {q}"
      using new by blast
    have "rep (cells h') (Value Object (B_ptr (Some q))) (JObject []) {q}"
      using rep_object [of "cells h'" q "[]" "[]" "{}"] q(2) by (simp add: reps_simps)
    then show ?thesis using q False c Object becomes_grown [OF q(3)] by (auto simp: v_SetType_def)
  next
    case Array
    obtain q h' where q: "alloc (C_list []) ?h = (q, h')" "cells h' q = Some (C_list [])" "grown ?h h' {q}"
      using new by blast
    have "rep (cells h') (Value Array (B_ptr (Some q))) (JArray []) {q}"
      using q(2) by (simp add: rep_simps reps_simps)
    then show ?thesis using q False c Array becomes_grown [OF q(3)] by (auto simp: v_SetType_def)
  next
    case String
    obtain q h' where q: "alloc (C_str []) ?h = (q, h')" "cells h' q = Some (C_str [])" "grown ?h h' {q}"
      using new by blast
    have "rep (cells h') (Value String (B_ptr (Some q))) (JString []) {q}"
      using q(2) by (simp add: rep_simps)
    then show ?thesis using q False c String becomes_grown [OF q(3)] by (auto simp: v_SetType_def)
  qed (use False c b' in \<open>auto simp: v_SetType_def intro!: becomes_refl rep_reps.intros\<close>)
  then show thesis
    using that becomes_after_clear [OF _ rep_owned(1) [OF r] b] unfolding e by blast
qed

lemma becomes_trans_with:
  assumes 1: "becomes h F h' w' j' F'" and 2: "becomes h' (F' \<union> G) h'' w'' j'' F''"
    and b: "jbounded h" "F \<subseteq> dom (cells h)"
  shows "becomes h (F \<union> G) h'' w'' j'' F''"
proof -
  have A: "limit h \<le> limit h'" "F' \<subseteq> F \<union> {limit h..<limit h'}" "\<forall>p. p \<notin> F \<union> F' \<longrightarrow> cells h' p = cells h p"
    "\<forall>p \<in> F - F'. cells h' p = None" using 1 by (simp_all add: becomes_def)
  have B: "limit h' \<le> limit h''" "F'' \<subseteq> F' \<union> G \<union> {limit h'..<limit h''}" "jbounded h''" "rep (cells h'') w'' j'' F''"
    "\<forall>p. p \<notin> F' \<union> G \<union> F'' \<longrightarrow> cells h'' p = cells h' p" "\<forall>p \<in> F' \<union> G - F''. cells h'' p = None"
    using 2 by (simp_all add: becomes_def)
  have sub: "F'' \<subseteq> F \<union> G \<union> {limit h..<limit h''}"
    using A(1,2) B(1,2) by fastforce
  have keep: "cells h'' p = cells h p" if "p \<notin> F \<union> G \<union> F''" for p
  proof (cases "p \<in> F'")
    case True
    then have "limit h \<le> p" using A(2) that by auto
    then have "cells h p = None" using b(1) by (simp add: jbounded_def)
    moreover have "cells h'' p = None" using B(6) True that by auto
    ultimately show ?thesis by simp
  next
    case False
    then show ?thesis using A(3) B(5) that by auto
  qed
  have gone: "cells h'' p = None" if "p \<in> F \<union> G - F''" for p
    using A(4) B(5,6) that by (cases "p \<in> F' \<union> G") auto
  show ?thesis using A(1) B(1,3,4) sub keep gone by (simp add: becomes_def)
qed

lemma becomes_trans:
  "becomes h F h' w' j' F' \<Longrightarrow> becomes h' F' h'' w'' j'' F'' \<Longrightarrow> jbounded h \<Longrightarrow> F \<subseteq> dom (cells h) \<Longrightarrow>
   becomes h F h'' w'' j'' F''"
  using becomes_trans_with [of h F h' w' j' F' "{}"] by simp

lemma becomesD:
  assumes "becomes h F h' w' j' F'"
  shows "rep (cells h') w' j' F'" "jbounded h'"
  using assms by (simp_all add: becomes_def)

text \<open>Rewriting a cell of the value's own.\<close>

lemma put_becomes:
  assumes "rep (cells (put_cell p x h)) w j F'" "jbounded h" "p \<in> F" "F' \<subseteq> F" "p < limit h"
    and "\<forall>q \<in> F - F'. cells h q = None" "p \<in> F'"
  shows "becomes h F (put_cell p x h) w j F'"
  using assms by (auto simp: becomes_def put_cell_def jbounded_def)

lemma JSONType_SetType [simp]: "JSONType (SetType fl t j) = t"
  by (cases t) (simp_all add: SetType_def)

text \<open>The three operations on scalars.\<close>

lemma rep_scalar:
  "rep c w j F \<Longrightarrow> v_type w \<in> {Floating, Integral, Boolean} \<Longrightarrow> F = {}"
  by (cases w; cases "v_type w") (auto simp: rep_simps)

lemma v_assign_scalar:
  assumes r: "rep (cells h) w j F" and b: "jbounded h" and d: "depth j < n"
    and t: "t \<in> {Floating, Integral, Boolean}" and new: "\<And>c. rep c (Value t x) j' {}"
  obtains w' h' where "and_then (v_SetType fl n t w h) (\<lambda>(w, h). Inr (Value (v_type w) x, h)) = Inr (w', h')"
    "becomes h F h' w' j' {}"
proof -
  obtain w1 h1 F1 where s: "v_SetType fl n t w h = Inr (w1, h1)" "becomes h F h1 w1 (SetType fl t j) F1"
    by (rule v_SetType_becomes [OF r b d])
  have ty: "v_type w1 = t" using rep_type [OF becomesD(1) [OF s(2)]] by simp
  then have "F1 = {}" using rep_scalar [OF becomesD(1) [OF s(2)]] t by simp
  then have "becomes h F h1 (Value t x) j' {}" using s(2) new by (simp add: becomes_def)
  then show thesis using that s(1) ty by simp
qed

lemma assign_scalars [simp]:
  "assign_bool fl b j = JBoolean b" "assign_int fl i j = JIntegral i" "assign_float fl x j = JFloating x"
  "assign_string fl s j = JString s"
  by (cases j; simp add: assign_bool_def assign_int_def assign_float_def assign_string_def SetType_def)+

lemma v_assign_string_becomes:
  assumes r: "rep (cells h) w j F" and b: "jbounded h" and d: "depth j < n"
  obtains w' h' F' where "v_assign_string fl n s w h = Inr (w', h')"
    "becomes h F h' w' (assign_string fl s j) F'"
proof -
  obtain w1 h1 F1 where t: "v_SetType fl n String w h = Inr (w1, h1)" "becomes h F h1 w1 (SetType fl String j) F1"
    by (rule v_SetType_becomes [OF r b d])
  note D = becomesD [OF t(2)]
  have ty: "v_type w1 = String" using rep_type [OF D(1)] by simp
  then obtain p s0 where p: "w1 = Value String (B_ptr (Some p))" "F1 = {p}" "cells h1 p = Some (C_str s0)"
    using D(1) by (cases w1) (auto simp: rep_simps)
  have "rep (cells (put_cell p (C_str s) h1)) w1 (JString s) {p}"
    by (simp add: p(1) rep_simps put_cell_def)
  moreover have "p < limit h1" using D(2) p(3) by (auto simp: jbounded_def not_le [symmetric])
  ultimately have "becomes h1 F1 (put_cell p (C_str s) h1) w1 (JString s) {p}"
    by (intro put_becomes) (simp_all add: D(2) p(2))
  from becomes_trans [OF t(2) this b rep_owned(1) [OF r]]
  have "becomes h F (put_cell p (C_str s) h1) w1 (JString s) {p}" .
  moreover have "v_assign_string fl n s w h = Inr (w1, put_cell p (C_str s) h1)"
    using t(1) p by (simp add: v_assign_string_def target_def)
  ultimately show thesis using that by simp
qed

text \<open>Adding a member to a map, and taking members out.\<close>

lemma reps_map_insert:
  assumes "reps c (map snd m) js F" "map_of m k = None" "rep c v j G" "F \<inter> G = {}"
  shows "\<exists>js'. reps c (map snd (map_insert k v m)) js' (F \<union> G) \<and>
    zip (map fst (map_insert k v m)) js' = map_insert k j (zip (map fst m) js)"
  using assms
proof (induction m arbitrary: js F)
  case Nil
  then show ?case using reps_cons [OF Nil.prems(3) reps_nil] by (auto simp: reps_simps)
next
  case (Cons e m)
  obtain k' u where e: "e = (k', u)" by fastforce
  obtain i js1 F1 F2 where js: "js = i # js1" "F = F1 \<union> F2" "rep c u i F1" "reps c (map snd m) js1 F2"
    "F1 \<inter> F2 = {}" using Cons.prems(1) by (auto simp: e reps_simps)
  have ne: "k \<noteq> k'" "map_of m k = None" using Cons.prems(2) by (auto simp: e split: if_splits)
  show ?case
  proof (cases "key_less k k'")
    case True
    have "reps c (v # map snd (e # m)) (j # js) (G \<union> F)"
      by (rule reps_cons [OF Cons.prems(3,1)]) (use Cons.prems(4) in auto)
    then show ?thesis using True ne by (intro exI [of _ "j # js"]) (simp add: e js(1) Un_commute)
  next
    case False
    have "F2 \<inter> G = {}" using Cons.prems(4) js(2) by auto
    from Cons.IH [OF js(4) ne(2) Cons.prems(3) this] obtain js' where
      r: "reps c (map snd (map_insert k v m)) js' (F2 \<union> G)"
      and z: "zip (map fst (map_insert k v m)) js' = map_insert k j (zip (map fst m) js1)" by blast
    have "reps c (u # map snd (map_insert k v m)) (i # js') (F1 \<union> (F2 \<union> G))"
      by (rule reps_cons [OF js(3) r]) (use js Cons.prems(4) in auto)
    then show ?thesis
      using False ne z by (intro exI [of _ "i # js'"]) (simp add: e js(1,2) Un_assoc)
  qed
qed

lemma reps_filter:
  "reps c (map snd m) js F \<Longrightarrow>
   \<exists>js1 js2 F1 F2. reps c (map snd (filter (\<lambda>e. P (fst e)) m)) js1 F1 \<and>
     reps c (map snd (filter (\<lambda>e. \<not> P (fst e)) m)) js2 F2 \<and> F = F1 \<union> F2 \<and> F1 \<inter> F2 = {} \<and>
     set js1 \<subseteq> set js \<and>
     zip (map fst (filter (\<lambda>e. \<not> P (fst e)) m)) js2 = filter (\<lambda>e. \<not> P (fst e)) (zip (map fst m) js)"
proof (induction m arbitrary: js F)
  case Nil
  then show ?case by (intro exI [of _ "[]"] exI [of _ "{}"]) (simp add: reps_simps)
next
  case (Cons e m)
  obtain k u where e: "e = (k, u)" by fastforce
  obtain i js' F1 F2 where js: "js = i # js'" "F = F1 \<union> F2" "rep c u i F1" "reps c (map snd m) js' F2"
    "F1 \<inter> F2 = {}" using Cons.prems by (auto simp: e reps_simps)
  from Cons.IH [OF js(4)] obtain js1 js2 G1 G2 where IH:
    "reps c (map snd (filter (\<lambda>e. P (fst e)) m)) js1 G1"
    "reps c (map snd (filter (\<lambda>e. \<not> P (fst e)) m)) js2 G2" "F2 = G1 \<union> G2" "G1 \<inter> G2 = {}" "set js1 \<subseteq> set js'"
    "zip (map fst (filter (\<lambda>e. \<not> P (fst e)) m)) js2 = filter (\<lambda>e. \<not> P (fst e)) (zip (map fst m) js')"
    by blast
  show ?case
  proof (cases "P k")
    case True
    have "reps c (u # map snd (filter (\<lambda>e. P (fst e)) m)) (i # js1) (F1 \<union> G1)"
      by (rule reps_cons [OF js(3) IH(1)]) (use js IH in auto)
    then show ?thesis using True IH js
      by (intro exI [of _ "i # js1"] exI [of _ js2] exI [of _ "F1 \<union> G1"] exI [of _ G2]) (auto simp: e)
  next
    case False
    have "reps c (u # map snd (filter (\<lambda>e. \<not> P (fst e)) m)) (i # js2) (F1 \<union> G2)"
      by (rule reps_cons [OF js(3) IH(2)]) (use js IH in auto)
    then show ?thesis using False IH js
      by (intro exI [of _ js1] exI [of _ "i # js2"] exI [of _ G1] exI [of _ "F1 \<union> G2"]) (auto simp: e)
  qed
qed

lemma reps_append:
  "reps c (xs @ ys) js F \<longleftrightarrow>
   (\<exists>j1 j2 F1 F2. js = j1 @ j2 \<and> reps c xs j1 F1 \<and> reps c ys j2 F2 \<and> F = F1 \<union> F2 \<and> F1 \<inter> F2 = {})"
proof (induction xs arbitrary: js F)
  case Nil
  show ?case by (auto simp: reps_simps)
next
  case (Cons x xs)
  show ?case (is "?l \<longleftrightarrow> ?r")
  proof
    assume ?l
    then obtain i js' F1 F2 where a: "js = i # js'" "F = F1 \<union> F2" "rep c x i F1" "reps c (xs @ ys) js' F2"
      "F1 \<inter> F2 = {}" by (auto simp: reps_simps)
    from a(4) obtain j1 j2 G1 G2 where b: "js' = j1 @ j2" "reps c xs j1 G1" "reps c ys j2 G2" "F2 = G1 \<union> G2"
      "G1 \<inter> G2 = {}" unfolding Cons.IH by blast
    have "reps c (x # xs) (i # j1) (F1 \<union> G1)" by (rule reps_cons [OF a(3) b(2)]) (use a b in auto)
    then show ?r using a b
      by (intro exI [of _ "i # j1"] exI [of _ j2] exI [of _ "F1 \<union> G1"] exI [of _ G2]) auto
  next
    assume ?r
    then obtain j1 j2 F1 F2 where a: "js = j1 @ j2" "reps c (x # xs) j1 F1" "reps c ys j2 F2" "F = F1 \<union> F2"
      "F1 \<inter> F2 = {}" by blast
    from a(2) obtain i j1' G1 G2 where b: "j1 = i # j1'" "F1 = G1 \<union> G2" "rep c x i G1" "reps c xs j1' G2"
      "G1 \<inter> G2 = {}" by (auto simp: reps_simps)
    have "G2 \<inter> F2 = {}" using a(5) b(2) by auto
    then have "reps c (xs @ ys) (j1' @ j2) (G2 \<union> F2)" unfolding Cons.IH using a(3) b(4) by blast
    from reps_cons [OF b(3) this] show ?l using a b by (auto simp: Un_assoc Int_Un_distrib)
  qed
qed

lemma reps_nulls: "reps c (replicate k default_value) (replicate k JNull) {}"
  by (induction k) (auto simp: reps_simps default_value_def rep_simps)

lemma v_clear_becomes:
  assumes r: "rep (cells h) w j F" and b: "jbounded h" and d: "depth j < n"
  obtains w' h' where "v_clear n w h = Inr (w', h')" "becomes h F h' w' (json_clear j) {}"
proof -
  have "becomes (drop_cells F h) {} (drop_cells F h) (Value Null (B_int 0)) JNull {}"
    using b by (intro becomes_refl rep_null) simp
  then show thesis
    using that becomes_after_clear [OF _ rep_owned(1) [OF r] b] clear_rep [OF r d]
    by (simp add: v_clear_def json_clear_def)
qed

text \<open>The cell of an object and of an array.\<close>

lemma object_cell:
  assumes "rep c w (JObject mm) F"
  obtains p m js F0 where "w = Value Object (B_ptr (Some p))" "c p = Some (C_map m)"
    "reps c (map snd m) js F0" "p \<notin> F0" "F = insert p F0" "mm = zip (map fst m) js" "length js = length m"
  using assms
proof (rule rep_JObjectE)
  fix p m js F0
  assume *: "w = Value Object (B_ptr (Some p))" "F = insert p F0" "mm = zip (map fst m) js"
    "c p = Some (C_map m)" "reps c (map snd m) js F0" "p \<notin> F0"
  have "length js = length m" using reps_length [OF *(5)] by simp
  then show thesis using that * by blast
qed

lemma array_cell:
  assumes "rep c w (JArray js) F"
  obtains p vs F0 where "w = Value Array (B_ptr (Some p))" "c p = Some (C_list vs)"
    "reps c vs js F0" "p \<notin> F0" "F = insert p F0"
  using assms by (rule rep_JArrayE) (use that in blast)

lemma map_of_zip_None: "length js = length m \<Longrightarrow> map_of (zip (map fst m) js) k = None \<longleftrightarrow> map_of m k = None"
  by (simp add: map_of_eq_None_iff set_zip_leftD image_iff) (force simp: in_set_conv_nth set_zip)

lemma cells_put: "cells (put_cell p x h) q = (if q = p then Some x else cells h q)"
  by (simp add: put_cell_def)

lemma reps_put: "reps (cells h) vs js F \<Longrightarrow> p \<notin> F \<Longrightarrow> reps (cells (put_cell p x h)) vs js F"
  by (rule rep_frame(2)) (auto simp: cells_put)

lemma own_below:
  assumes "jbounded h" "F \<subseteq> dom (cells h)" "p \<in> F"
  shows "p < limit h"
  using assms by (auto simp: jbounded_def not_le [symmetric])

lemma v_key_becomes:
  assumes r: "rep (cells h) w j F" and b: "jbounded h" and d: "depth j < n"
  obtains w' h' F' where "v_key fl n k w h = Inr (w', h')" "becomes h F h' w' (snd (get_key fl k j)) F'"
proof -
  obtain w1 h1 F1 where t: "v_SetType fl n Object w h = Inr (w1, h1)" "becomes h F h1 w1 (SetType fl Object j) F1"
    by (rule v_SetType_becomes [OF r b d])
  note D = becomesD [OF t(2)]
  obtain mm where mm: "SetType fl Object j = JObject mm"
    using JSONType_SetType [of fl Object j] by (cases "SetType fl Object j") simp_all
  obtain p m js F0 where p: "w1 = Value Object (B_ptr (Some p))" "cells h1 p = Some (C_map m)"
    "reps (cells h1) (map snd m) js F0" "p \<notin> F0" "F1 = insert p F0" "mm = zip (map fst m) js" "length js = length m"
    using D(1) unfolding mm by (rule object_cell)
  show thesis
  proof (cases "map_of m k")
    case (Some x)
    then have "map_of mm k \<noteq> None" using map_of_zip_None [OF p(7)] p(6) by simp
    then have "snd (get_key fl k j) = JObject mm" by (auto simp: get_key_def mm)
    then show thesis using that t p(1,2) Some mm by (simp add: v_key_def target_def)
  next
    case None
    let ?m = "map_insert k default_value m"
    have g: "snd (get_key fl k j) = JObject (map_insert k JNull mm)"
    proof -
      have "map_of mm k = None" using None map_of_zip_None [OF p(7)] p(6) by simp
      then show ?thesis by (simp add: get_key_def mm)
    qed
    have nul: "rep (cells h1) default_value JNull {}" by (simp add: default_value_def rep_simps)
    obtain js' where js': "reps (cells h1) (map snd ?m) js' F0" "zip (map fst ?m) js' = map_insert k JNull mm"
      using reps_map_insert [OF p(3) None nul] p(6) by auto
    have "rep (cells (put_cell p (C_map ?m) h1)) w1 (JObject (zip (map fst ?m) js')) F1"
      unfolding p(1,5) by (rule rep_object) (use reps_put [OF js'(1) p(4)] p(4) in \<open>simp_all add: cells_put\<close>)
    then have "rep (cells (put_cell p (C_map ?m) h1)) w1 (snd (get_key fl k j)) F1"
      unfolding g js'(2) .
    then have "becomes h1 F1 (put_cell p (C_map ?m) h1) w1 (snd (get_key fl k j)) F1"
      by (rule put_becomes) (use D p own_below [OF D(2) rep_owned(1) [OF D(1)]] in auto)
    from becomes_trans [OF t(2) this b rep_owned(1) [OF r]]
    show thesis using that t(1) p(1,2) None by (simp add: v_key_def target_def)
  qed
qed

lemma v_erase_becomes:
  assumes r: "rep (cells h) w j F" and b: "jbounded h" and d: "depth j < n"
  obtains w' h' F' where "v_erase n k w h = Inr (w', h')" "becomes h F h' w' (snd (eraseKey k j)) F'"
proof (cases "v_type w = Object")
  case False
  then have "snd (eraseKey k j) = j" using rep_type [OF r] by (cases j) (simp_all add: eraseKey_def)
  then show thesis using that False becomes_refl [OF r b] by (simp add: v_erase_def)
next
  case True
  then obtain mm where mm: "j = JObject mm" using rep_type [OF r] by (cases j) simp_all
  obtain p m js F0 where p: "w = Value Object (B_ptr (Some p))" "cells h p = Some (C_map m)"
    "reps (cells h) (map snd m) js F0" "p \<notin> F0" "F = insert p F0" "mm = zip (map fst m) js" "length js = length m"
    using r unfolding mm by (rule object_cell)
  obtain js1 js2 F1 F2 where f: "reps (cells h) (map snd (filter (\<lambda>e. fst e = k) m)) js1 F1"
    "reps (cells h) (map snd (filter (\<lambda>e. fst e \<noteq> k) m)) js2 F2" "F0 = F1 \<union> F2" "F1 \<inter> F2 = {}"
    "set js1 \<subseteq> set js" "zip (map fst (filter (\<lambda>e. fst e \<noteq> k) m)) js2 = filter (\<lambda>e. fst e \<noteq> k) (zip (map fst m) js)"
    using reps_filter [OF p(3), of "\<lambda>x. x = k"] by blast
  have "\<forall>i \<in> set js1. depth i < n"
    using f(5) depth_members [OF p(7)] d unfolding mm p(6) by fastforce
  note c = clears_rep [OF f(1) this]
  let ?h = "drop_cells F1 h" and ?m = "filter (\<lambda>e. fst e \<noteq> k) m"
  let ?h' = "put_cell p (C_map ?m) ?h"
  have "reps (cells ?h) (map snd ?m) js2 F2"
    by (rule rep_frame(2) [OF f(2)]) (use f(4) in \<open>auto simp: cells_drop\<close>)
  then have "reps (cells ?h') (map snd ?m) js2 F2" by (rule reps_put) (use p(4) f(3) in auto)
  then have "rep (cells ?h') w (JObject (zip (map fst ?m) js2)) (insert p F2)"
    unfolding p(1) by (rule rep_object [rotated]) (use p(4) f(3) in \<open>simp_all add: cells_put\<close>)
  then have j': "rep (cells ?h') w (snd (eraseKey k j)) (insert p F2)"
    by (simp only: f(6) mm p(6) eraseKey_def json.case snd_conv)
  have lt: "p < limit h" by (rule own_below [OF b rep_owned(1) [OF r]]) (simp add: p(5))
  have "becomes h F ?h' w (snd (eraseKey k j)) (insert p F2)"
    using j' b lt p(4,5) f(3,4) by (auto simp: becomes_def cells_put cells_drop jbounded_def put_cell_def)
  then show thesis using that True p(1,2) c by (simp add: v_erase_def target_def)
qed

lemma v_index_becomes:
  assumes r: "rep (cells h) w j F" and b: "jbounded h" and d: "depth j < n"
    and g: "get_index fl i j = Inr (y, j')"
  obtains w' h' F' where "v_index fl n i w h = Inr (w', h')" "becomes h F h' w' j' F'"
proof -
  obtain w1 h1 F1 where t: "v_SetType fl n Array w h = Inr (w1, h1)" "becomes h F h1 w1 (SetType fl Array j) F1"
    by (rule v_SetType_becomes [OF r b d])
  note D = becomesD [OF t(2)]
  obtain js where js: "SetType fl Array j = JArray js"
    using JSONType_SetType [of fl Array j] by (cases "SetType fl Array j") simp_all
  obtain p vs F0 where p: "w1 = Value Array (B_ptr (Some p))" "cells h1 p = Some (C_list vs)"
    "reps (cells h1) vs js F0" "p \<notin> F0" "F1 = insert p F0"
    using D(1) unfolding js by (rule array_cell)
  have len: "length js = length vs" using reps_length [OF p(3)] .
  have j': "j' = JArray (grow i js)" "unat i < length (grow i js)"
    using g by (auto simp: get_index_def js Let_def split: if_splits)
  show thesis
  proof (cases "length vs \<le> unat i")
    case False
    then have "j' = SetType fl Array j" using j'(1) len by (simp add: grow_def js)
    then show thesis using that t p(1,2) False by (simp add: v_index_def target_def)
  next
    case True
    let ?k = "unat (i + 1)"
    have k: "unat i < ?k" using j'(2) True len by (simp add: grow_def split: if_splits)
    then have dr: "drop ?k vs = []" using True by simp
    let ?vs = "take ?k vs @ replicate (?k - length vs) default_value"
    let ?h = "put_cell p (C_list ?vs) h1"
    have all: "take ?k vs = vs" "take ?k js = js" using dr len by simp_all
    have gr: "grow i js = js @ replicate (?k - length vs) JNull" using True len all by (simp add: grow_def)
    have "reps (cells h1) (vs @ replicate (?k - length vs) default_value) (grow i js) F0"
      unfolding reps_append gr
      by (intro exI [of _ js] exI [of _ "replicate (?k - length vs) JNull"] exI [of _ F0] exI [of _ "{}"])
        (simp add: p(3) reps_nulls)
    then have "reps (cells h1) ?vs (grow i js) F0" using all by simp
    then have "reps (cells ?h) ?vs (grow i js) F0" by (rule reps_put) (rule p(4))
    then have "rep (cells ?h) w1 j' F1"
      unfolding p(1,5) j'(1) by (rule rep_array [rotated]) (use p(4) in \<open>simp_all add: cells_put\<close>)
    then have "becomes h1 F1 ?h w1 j' F1"
      by (rule put_becomes) (use D p own_below [OF D(2) rep_owned(1) [OF D(1)]] in auto)
    from becomes_trans [OF t(2) this b rep_owned(1) [OF r]]
    show thesis using that t(1) p(1,2) True k dr by (simp add: v_index_def target_def Let_def)
  qed
qed

text \<open>A copy of a value \<open>t\<close>, which lies in cells of its own, is added at the end and \<open>t\<close> destroyed.\<close>

lemma push_copy:
  assumes p: "cells h p = Some (C_list vs)" "reps (cells h) vs js F" "p \<notin> F" and b: "jbounded h"
    and t: "rep (cells h) t i G" "insert p F \<inter> G = {}" "depth i < n"
    and w: "w = Value Array (B_ptr (Some p))"
  obtains u h1 h2 F' where "copy_value n t h = Inr (u, h1)" "cells h1 p = Some (C_list vs)"
    "ClearInternal n t (put_cell p (C_list (vs @ [u])) h1) = Inr h2"
    "becomes h (insert p F \<union> G) h2 w (JArray (js @ [i])) F'"
proof -
  obtain u h1 H where c: "copy_value n t h = Inr (u, h1)" "rep (cells h1) u i H" "grown h h1 H"
    by (rule copy_rep [OF t(1) b t(3)])
  have own: "insert p F \<subseteq> dom (cells h)" "G \<subseteq> dom (cells h)"
    using p rep_owned(2) [OF p(2)] rep_owned(1) [OF t(1)] by auto
  note O = grown_old [OF b c(3) own(2)] and P = grown_old [OF b c(3) own(1)]
  have H: "H \<subseteq> {limit h..<limit h1}" "\<forall>q. q \<notin> H \<longrightarrow> cells h1 q = cells h q" "limit h \<le> limit h1" "jbounded h1"
    using c(3) by (simp_all add: grown_def)
  have cp: "cells h1 p = Some (C_list vs)" using P p(1) by simp
  let ?h = "put_cell p (C_list (vs @ [u])) h1" and ?F = "insert p (F \<union> H)"
  have pG: "p \<notin> F \<union> H" "p \<notin> G" using P p(3) t(2) by auto
  have "reps (cells h1) vs js F" by (rule rep_frame(2) [OF p(2)]) (use P in auto)
  moreover have "reps (cells h1) [u] [i] H" using reps_cons [OF c(2) reps_nil] by simp
  moreover have "F \<inter> H = {}" using P by auto
  ultimately have "reps (cells h1) (vs @ [u]) (js @ [i]) (F \<union> H)" unfolding reps_append by blast
  then have "reps (cells ?h) (vs @ [u]) (js @ [i]) (F \<union> H)" by (rule reps_put) (rule pG(1))
  then have v: "rep (cells ?h) w (JArray (js @ [i])) ?F"
    unfolding w by (rule rep_array [rotated]) (use pG in \<open>simp_all add: cells_put\<close>)
  have "rep (cells ?h) t i G"
    by (rule rep_frame(1) [OF t(1)]) (use O pG(2) in \<open>auto simp: cells_put\<close>)
  then have clr: "ClearInternal n t ?h = Inr (drop_cells G ?h)" by (rule clear_rep) (rule t(3))
  have dis: "G \<inter> ?F = {}" using O t(2) by auto
  have "rep (cells (drop_cells G ?h)) w (JArray (js @ [i])) ?F"
    by (rule rep_frame(1) [OF v]) (use dis in \<open>auto simp: cells_drop\<close>)
  moreover have "jbounded (drop_cells G ?h)"
    using H(4) own_below [OF b own(1), of p] H(3) by (auto simp: jbounded_def cells_drop cells_put put_cell_def)
  moreover have "limit (drop_cells G ?h) = limit h1" by (simp add: put_cell_def)
  moreover have "?F \<subseteq> insert p F \<union> G \<union> {limit h..<limit h1}" using H(1) by auto
  moreover have "\<forall>q. q \<notin> insert p F \<union> G \<union> ?F \<longrightarrow> cells (drop_cells G ?h) q = cells h q"
    using H(2) by (auto simp: cells_drop cells_put)
  moreover have "\<forall>q \<in> insert p F \<union> G - ?F. cells (drop_cells G ?h) q = None"
    using dis by (auto simp: cells_drop)
  ultimately have "becomes h (insert p F \<union> G) (drop_cells G ?h) w (JArray (js @ [i])) ?F"
    using H(3) unfolding becomes_def by simp
  then show thesis using that c(1) cp clr by blast
qed

lemma v_append_becomes:
  assumes r: "rep (cells h) w j F" and b: "jbounded h" and d: "depth j < n"
    and t: "rep (cells h) t i G" "F \<inter> G = {}" "depth i < n"
  obtains w' h' F' where "v_append fl n t w h = Inr (w', h')"
    "becomes h (F \<union> G) h' w' (append1 fl i j) F'"
proof -
  obtain w1 h1 F1 where s: "v_SetType fl n Array w h = Inr (w1, h1)" "becomes h F h1 w1 (SetType fl Array j) F1"
    by (rule v_SetType_becomes [OF r b d])
  note D = becomesD [OF s(2)]
  obtain js where js: "SetType fl Array j = JArray js"
    using JSONType_SetType [of fl Array j] by (cases "SetType fl Array j") simp_all
  obtain p vs F0 where p: "w1 = Value Array (B_ptr (Some p))" "cells h1 p = Some (C_list vs)"
    "reps (cells h1) vs js F0" "p \<notin> F0" "F1 = insert p F0"
    using D(1) unfolding js by (rule array_cell)
  have F1: "F1 \<subseteq> F \<union> {limit h..<limit h1}" "\<forall>q. q \<notin> F \<union> F1 \<longrightarrow> cells h1 q = cells h q"
    using s(2) by (simp_all add: becomes_def)
  have "q \<notin> F1" if "q \<in> G" for q
    using own_below [OF b rep_owned(1) [OF t(1)] that] F1(1) t(2) that by auto
  then have GF: "insert p F0 \<inter> G = {}" unfolding p(5) by blast
  have "\<forall>q \<in> G. cells h1 q = cells h q" using F1(2) t(2) GF p(5) by blast
  then have t1: "rep (cells h1) t i G" by (rule rep_frame(1) [OF t(1)])
  obtain u h2 h3 F' where c: "copy_value n t h1 = Inr (u, h2)" "cells h2 p = Some (C_list vs)"
    "ClearInternal n t (put_cell p (C_list (vs @ [u])) h2) = Inr h3"
    "becomes h1 (insert p F0 \<union> G) h3 w1 (JArray (js @ [i])) F'"
    by (rule push_copy [OF p(2-4) D(2) t1 GF t(3) p(1)])
  have "becomes h (F \<union> G) h3 w1 (JArray (js @ [i])) F'"
    by (rule becomes_trans_with [OF s(2) _ b rep_owned(1) [OF r]]) (use c(4) p(5) in simp)
  moreover have "append1 fl i j = JArray (js @ [i])" by (simp add: append1_def js)
  moreover have "v_append fl n t w h = Inr (w1, h3)"
    using s(1) c p(1) by (simp add: v_append_def target_def)
  ultimately show thesis using that by simp
qed

subsection \<open>References into a value\<close>

text \<open>
  A reference obtained by \<open>operator[]\<close> is the way to it from a variable. \<open>lookup\<close> is the value it
  refers to and \<open>store\<close> writes there, both undefined when the way leads through a freed cell; \<open>store\<close>
  is for references into a container.
\<close>

datatype step = K string | I nat

fun member :: "step \<Rightarrow> emJsonType \<Rightarrow> 'f cell \<Rightarrow> 'f jvalue result" where
  "member (K k) t (C_map m) = (if t = Object then of_option Undefined (map_of m k) else Inl Undefined)"
| "member (I i) t (C_list xs) = (if t = Array \<and> i < length xs then Inr (xs ! i) else Inl Undefined)"
| "member e t x = Inl Undefined"

fun map_put :: "string \<Rightarrow> 'a \<Rightarrow> (string \<times> 'a) list \<Rightarrow> (string \<times> 'a) list" where
  "map_put k x [] = []"
| "map_put k x ((k', y) # m) = (if k = k' then (k, x) # m else (k', y) # map_put k x m)"

fun set_member :: "step \<Rightarrow> 'f jvalue \<Rightarrow> 'f cell \<Rightarrow> 'f cell" where
  "set_member (K k) w (C_map m) = C_map (map_put k w m)"
| "set_member (I i) w (C_list xs) = C_list (xs[i := w])"
| "set_member e w x = x"

fun lookup :: "'f cells \<Rightarrow> 'f jvalue \<Rightarrow> step list \<Rightarrow> 'f jvalue result" where
  "lookup c v [] = Inr v"
| "lookup c v (e # es) = and_then (target v c) (\<lambda>(p, x). and_then (member e (v_type v) x) (\<lambda>u. lookup c u es))"

fun store :: "'f cells \<Rightarrow> 'f jvalue \<Rightarrow> step list \<Rightarrow> 'f jvalue \<Rightarrow> 'f cells result" where
  "store c v [] w = Inl Undefined"
| "store c v (e # es) w = and_then (target v c) (\<lambda>(p, x). and_then (member e (v_type v) x) (\<lambda>u.
     if es = [] then Inr (c(p \<mapsto> set_member e w x)) else store c u es w))"

text \<open>The same on trees.\<close>

fun jmember :: "step \<Rightarrow> 'f json \<Rightarrow> 'f json option" where
  "jmember (K k) (JObject m) = map_of m k"
| "jmember (I i) (JArray js) = (if i < length js then Some (js ! i) else None)"
| "jmember e j = None"

fun jset :: "step \<Rightarrow> 'f json \<Rightarrow> 'f json \<Rightarrow> 'f json" where
  "jset (K k) i (JObject m) = JObject (map_put k i m)"
| "jset (I n) i (JArray js) = JArray (js[n := i])"
| "jset e i j = j"

fun jlookup :: "'f json \<Rightarrow> step list \<Rightarrow> 'f json option" where
  "jlookup j [] = Some j"
| "jlookup j (e # es) = (case jmember e j of None \<Rightarrow> None | Some i \<Rightarrow> jlookup i es)"

fun jstore :: "'f json \<Rightarrow> step list \<Rightarrow> 'f json \<Rightarrow> 'f json" where
  "jstore j [] i = i"
| "jstore j (e # es) i = (case jmember e j of None \<Rightarrow> j | Some j' \<Rightarrow> jset e (jstore j' es i) j)"

text \<open>One place in a list of values.\<close>

lemma reps_focus:
  "reps c vs js F \<Longrightarrow> i < length vs \<Longrightarrow>
   \<exists>G. rep c (vs ! i) (js ! i) G \<and> G \<subseteq> F \<and>
     (\<forall>c' u j G'. (\<forall>p \<in> F - G. c' p = c p) \<longrightarrow> rep c' u j G' \<longrightarrow> G' \<inter> (F - G) = {} \<longrightarrow>
        reps c' (vs[i := u]) (js[i := j]) (F - G \<union> G'))"
proof (induction vs arbitrary: js F i)
  case (Cons v vs)
  obtain j1 js1 F1 F2 where a: "js = j1 # js1" "F = F1 \<union> F2" "rep c v j1 F1" "reps c vs js1 F2" "F1 \<inter> F2 = {}"
    using Cons.prems(1) by (auto simp: reps_simps)
  show ?case
  proof (cases i)
    case 0
    have "reps c' (u # vs) (j # js1) (F - F1 \<union> G')"
      if "\<forall>p \<in> F - F1. c' p = c p" "rep c' u j G'" "G' \<inter> (F - F1) = {}" for c' u j G'
    proof -
      have e: "F - F1 = F2" using a by auto
      have "reps c' vs js1 F2" by (rule rep_frame(2) [OF a(4)]) (use that(1) e in simp)
      from reps_cons [OF that(2) this] show ?thesis using that(3) e by (simp add: Un_commute)
    qed
    then show ?thesis using a 0 by (intro exI [of _ F1]) auto
  next
    case (Suc k)
    have k: "k < length vs" using Cons.prems(2) Suc by simp
    obtain G where G: "rep c (vs ! k) (js1 ! k) G" "G \<subseteq> F2"
      "\<And>c' u j G'. \<forall>p \<in> F2 - G. c' p = c p \<Longrightarrow> rep c' u j G' \<Longrightarrow> G' \<inter> (F2 - G) = {} \<Longrightarrow>
         reps c' (vs[k := u]) (js1[k := j]) (F2 - G \<union> G')"
      using Cons.IH [OF a(4) k] by blast
    have "reps c' (v # vs[k := u]) (j1 # js1[k := j]) (F - G \<union> G')"
      if h: "\<forall>p \<in> F - G. c' p = c p" "rep c' u j G'" "G' \<inter> (F - G) = {}" for c' u j G'
    proof -
      have e: "F - G = F1 \<union> (F2 - G)" using a G(2) by auto
      have "reps c' (vs[k := u]) (js1[k := j]) (F2 - G \<union> G')"
        by (rule G(3)) (use h e in auto)
      moreover have "rep c' v j1 F1" by (rule rep_frame(1) [OF a(3)]) (use h e in auto)
      ultimately have "reps c' (v # vs[k := u]) (j1 # js1[k := j]) (F1 \<union> (F2 - G \<union> G'))"
        by (intro reps_cons) (use a h e in auto)
      then show ?thesis by (simp only: e Un_assoc)
    qed
    then show ?thesis using G a Suc by (intro exI [of _ G]) auto
  qed
qed simp

text \<open>The position of a key.\<close>

fun key_pos :: "string \<Rightarrow> (string \<times> 'a) list \<Rightarrow> nat" where
  "key_pos k [] = 0"
| "key_pos k ((k', _) # m) = (if k = k' then 0 else Suc (key_pos k m))"

lemma key_pos:
  "map_of m k = Some x \<Longrightarrow> key_pos k m < length m \<and> snd (m ! key_pos k m) = x \<and>
     (\<forall>y. map_put k y m = zip (map fst m) ((map snd m)[key_pos k m := y]))"
  by (induction m) (auto split: if_splits simp: zip_map_fst_snd)

lemma key_pos_zip: "length js = length m \<Longrightarrow> key_pos k (zip (map fst m) js) = key_pos k m"
proof (induction m arbitrary: js)
  case (Cons e m)
  then show ?case by (cases e; cases js) auto
qed simp

lemma map_of_key_pos: "map_of m k = None \<longleftrightarrow> length m \<le> key_pos k m"
  by (induction m) auto

lemma key_pos_key: "key_pos k m < length m \<Longrightarrow> fst (m ! key_pos k m) = k"
  by (induction m) (auto split: if_splits)

text \<open>One step into a container, as a position in its values.\<close>

fun cell_values :: "'f cell \<Rightarrow> 'f jvalue list" where
  "cell_values (C_map m) = map snd m"
| "cell_values (C_list xs) = xs"
| "cell_values (C_str s) = []"

fun position :: "step \<Rightarrow> 'f cell \<Rightarrow> nat" where
  "position (K k) (C_map m) = key_pos k m"
| "position (I i) x = i"
| "position e x = 0"

lemma target_eq: "target v c = Inr (p, x) \<longleftrightarrow> Internal v = B_ptr (Some p) \<and> c p = Some x"
  by (auto simp: target_def split: backing.splits option.splits)

lemma member_K: "member (K k) t x = Inr u \<longleftrightarrow> t = Object \<and> (\<exists>m. x = C_map m \<and> map_of m k = Some u)"
  by (cases x) (auto simp: of_option_def split: option.splits)

lemma member_I: "member (I i) t x = Inr u \<longleftrightarrow> t = Array \<and> (\<exists>xs. x = C_list xs \<and> i < length xs \<and> xs ! i = u)"
  by (cases x) auto

lemmas member_eq = member_K member_I

declare member.simps [simp del]
lemma position_inj:
  assumes "member e t x = Inr u" "member d t x = Inr w" "position e x = position d x"
  shows "e = d"
proof (cases e)
  case (K k)
  from assms(1) obtain m where m: "t = Object" "x = C_map m" "map_of m k = Some u" unfolding K member_eq by auto
  from assms(2) m(1) obtain l where d: "d = K l" by (cases d) (auto simp: member_eq)
  from assms(2) have l: "map_of m l = Some w" unfolding d member_eq m by simp
  have "fst (m ! key_pos k m) = k" "fst (m ! key_pos l m) = l" 
    by (rule key_pos_key [OF conjunct1 [OF key_pos [OF m(3)]]], rule key_pos_key [OF conjunct1 [OF key_pos [OF l]]])
  then show ?thesis using assms(3) unfolding K d m(2) position.simps by metis
next
  case (I i)
  from assms(1) have t: "t = Array" unfolding I member_eq by blast
  from assms(2) t obtain l where d: "d = I l" by (cases d) (auto simp: member_eq)
  show ?thesis using assms(3) unfolding I d by simp
qed

lemma rep_step:
  assumes r: "rep c v j F" and m: "jmember e j = Some i"
  obtains p x u vs js F0 k where "target v c = Inr (p, x)" "member e (v_type v) x = Inr u"
    "reps c vs js F0" "p \<notin> F0" "F = insert p F0" "k < length vs" "vs ! k = u" "js ! k = i"
    "vs = cell_values x" "k = position e x"
    "\<And>c' u' i' G. c' p = Some (set_member e u' x) \<Longrightarrow> reps c' (vs[k := u']) (js[k := i']) G \<Longrightarrow> p \<notin> G \<Longrightarrow>
       rep c' v (jset e i' j) (insert p G)"
    "set_member e u x = x"
proof (cases e)
  case (K k)
  then obtain mm where j: "j = JObject mm" "map_of mm k = Some i" using m by (cases j) auto
  obtain p m js F0 where p: "v = Value Object (B_ptr (Some p))" "c p = Some (C_map m)"
    "reps c (map snd m) js F0" "p \<notin> F0" "F = insert p F0" "mm = zip (map fst m) js" "length js = length m"
    using r unfolding j(1) by (rule object_cell)
  let ?k = "key_pos k m"
  have kz: "key_pos k mm = ?k" using key_pos_zip [OF p(7)] p(6) by simp
  note Z = key_pos [OF j(2)]
  have lt: "?k < length m" using Z p(6,7) kz by simp
  then have "map_of m k \<noteq> None" by (simp only: map_of_key_pos)
  then obtain u where u: "map_of m k = Some u" by blast
  note M = key_pos [OF u]
  have "snd (mm ! ?k) = i" using Z kz by simp
  then have ji: "js ! ?k = i" using p(6,7) lt by simp
  have new: "rep c' v (jset e i' j) (insert p G)"
    if "c' p = Some (set_member e u' (C_map m))" "reps c' ((map snd m)[?k := u']) (js[?k := i']) G" "p \<notin> G" for c' u' i' G
  proof -
    have l: "length ((map snd m)[?k := u']) = length m" by simp
    have "rep c' v (JObject (zip (map fst (map_put k u' m)) (js[?k := i']))) (insert p G)"
      unfolding p(1) by (rule rep_object) (use that K M l in simp_all)
    moreover have "zip (map fst (map_put k u' m)) (js[?k := i']) = map_put k i' mm"
      using M Z l p(6,7) kz by simp
    ultimately show ?thesis by (simp add: K j(1))
  qed
  have "snd (m ! ?k) = u" using M by blast
  then have "(map snd m)[?k := u] = map snd m" using lt by (simp add: list_update_same_conv)
  then have "map_put k u m = m" using M by (simp add: zip_map_fst_snd)
  then have same: "set_member e u (C_map m) = C_map m" using K by simp
  show thesis
  proof (rule that [of p "C_map m" u "map snd m" js F0 ?k])
    show "target v c = Inr (p, C_map m)" using p(1,2) by (simp add: target_eq)
    show "member e (v_type v) (C_map m) = Inr u" using p(1) u K by (simp add: member_eq)
    show "rep c' v (jset e i' j) (insert p G)"
      if "c' p = Some (set_member e u' (C_map m))" "reps c' ((map snd m)[?k := u']) (js[?k := i']) G" "p \<notin> G"
      for c' u' i' G using new that by blast
  qed (use p(3-5) lt \<open>snd (m ! ?k) = u\<close> ji K same in simp_all)
next
  case (I n)
  then obtain js where j: "j = JArray js" "n < length js" "js ! n = i" using m by (cases j) (auto split: if_splits)
  obtain p vs F0 where p: "v = Value Array (B_ptr (Some p))" "c p = Some (C_list vs)"
    "reps c vs js F0" "p \<notin> F0" "F = insert p F0"
    using r unfolding j(1) by (rule array_cell)
  have len: "length vs = length js" using reps_length [OF p(3)] by simp
  have new: "rep c' v (jset e i' j) (insert p G)"
    if "c' p = Some (set_member e u' (C_list vs))" "reps c' (vs[n := u']) (js[n := i']) G" "p \<notin> G" for c' u' i' G
    unfolding p(1) using that by (auto simp: I j(1) intro: rep_array)
  show thesis
  proof (rule that [of p "C_list vs" "vs ! n" vs js F0 n])
    show "target v c = Inr (p, C_list vs)" using p(1,2) by (simp add: target_eq)
    show "rep c' v (jset e i' j) (insert p G)"
      if "c' p = Some (set_member e u' (C_list vs))" "reps c' (vs[n := u']) (js[n := i']) G" "p \<notin> G"
      for c' u' i' G using new that by blast
  qed (use p j len I in \<open>simp_all add: member_eq\<close>)
qed

text \<open>
  The value at a reference, its cells \<open>G\<close>, and what writing there does: whatever has become of the
  cells \<open>G\<close>, the whole value then has the new part in it.
\<close>

lemma focus:
  assumes "rep c v j F" "jlookup j es = Some i"
  shows "\<exists>w G. lookup c v es = Inr w \<and> rep c w i G \<and> G \<subseteq> F \<and>
    (es \<noteq> [] \<longrightarrow> (\<forall>c' w' i' G'. (\<forall>p \<in> F - G. c' p = c p) \<longrightarrow> rep c' w' i' G' \<longrightarrow> G' \<inter> (F - G) = {} \<longrightarrow>
      (\<exists>c''. store c' v es w' = Inr c'' \<and> rep c'' v (jstore j es i') (F - G \<union> G') \<and>
        (\<forall>p. p \<notin> F - G \<longrightarrow> c'' p = c' p))))"
  using assms
proof (induction es arbitrary: v j F)
  case Nil
  then show ?case by auto
next
  case (Cons e es)
  obtain i0 where i0: "jmember e j = Some i0" "jlookup i0 es = Some i"
    using Cons.prems(2) by (auto split: option.splits)
  obtain p x u vs js F0 k where s: "target v c = Inr (p, x)" "member e (v_type v) x = Inr u"
    "reps c vs js F0" "p \<notin> F0" "F = insert p F0" "k < length vs" "vs ! k = u" "js ! k = i0"
    and new: "\<And>c' u' i' G. c' p = Some (set_member e u' x) \<Longrightarrow> reps c' (vs[k := u']) (js[k := i']) G \<Longrightarrow> p \<notin> G \<Longrightarrow>
       rep c' v (jset e i' j) (insert p G)"
    and same: "set_member e u x = x"
    using rep_step [OF Cons.prems(1) i0(1)] by metis
  obtain H where H: "rep c u i0 H" "H \<subseteq> F0"
    and upd: "\<And>c' u' j' H'. \<forall>q \<in> F0 - H. c' q = c q \<Longrightarrow> rep c' u' j' H' \<Longrightarrow> H' \<inter> (F0 - H) = {} \<Longrightarrow>
       reps c' (vs[k := u']) (js[k := j']) (F0 - H \<union> H')"
    using reps_focus [OF s(3,6)] s(7,8) by metis
  obtain w G where w: "lookup c u es = Inr w" "rep c w i G" "G \<subseteq> H"
    and st: "es \<noteq> [] \<Longrightarrow> \<forall>c' w' i' G'. (\<forall>p \<in> H - G. c' p = c p) \<longrightarrow> rep c' w' i' G' \<longrightarrow> G' \<inter> (H - G) = {} \<longrightarrow>
      (\<exists>c''. store c' u es w' = Inr c'' \<and> rep c'' u (jstore i0 es i') (H - G \<union> G') \<and>
        (\<forall>p. p \<notin> H - G \<longrightarrow> c'' p = c' p))"
    using Cons.IH [OF H(1) i0(2)] by metis
  have t: "Internal v = B_ptr (Some p)" "c p = Some x" using s(1) by (simp_all add: target_eq)
  have pG: "p \<in> F - G" using s(4,5) H(2) w(3) by auto
  have "\<exists>c''. store c' v (e # es) w' = Inr c'' \<and> rep c'' v (jstore j (e # es) i') (F - G \<union> G') \<and>
      (\<forall>q. q \<notin> F - G \<longrightarrow> c'' q = c' q)"
    if h: "\<forall>q \<in> F - G. c' q = c q" "rep c' w' i' G'" "G' \<inter> (F - G) = {}" for c' w' i' G'
  proof -
    have t': "target v c' = Inr (p, x)" using h(1) pG t by (simp add: target_eq)
    show ?thesis
    proof (cases "es = []")
      case True
      then have "H = G" using w(1,2) rep_unique(1) [OF H(1)] by auto
      let ?c = "c'(p \<mapsto> set_member e w' x)"
      have "rep ?c w' i' G'" by (rule rep_frame(1) [OF h(2)]) (use pG h(3) in auto)
      moreover have "\<forall>q \<in> F0 - H. ?c q = c q" using h(1) s(4,5) \<open>H = G\<close> by auto
      moreover have "G' \<inter> (F0 - H) = {}" using h(3) s(5) \<open>H = G\<close> by auto
      ultimately have "reps ?c (vs[k := w']) (js[k := i']) (F0 - H \<union> G')" by (intro upd)
      moreover have "p \<notin> F0 - H \<union> G'" using s(4) pG h(3) by auto
      ultimately have "rep ?c v (jset e i' j) (insert p (F0 - H \<union> G'))" by (intro new) simp_all
      moreover have "insert p (F0 - H \<union> G') = F - G \<union> G'" using s(4,5) \<open>H = G\<close> H(2) by auto
      ultimately show ?thesis using t' s(2) True i0(1) pG by (intro exI [of _ ?c]) auto
    next
      case False
      have "\<forall>q \<in> H - G. c' q = c q" "G' \<inter> (H - G) = {}" using h(1,3) H(2) s(5) by auto
      then obtain c'' where c'': "store c' u es w' = Inr c''" "rep c'' u (jstore i0 es i') (H - G \<union> G')"
        "\<forall>q. q \<notin> H - G \<longrightarrow> c'' q = c' q" using st [OF False] h(2) by blast
      have "\<forall>q \<in> F0 - H. c'' q = c q" using c''(3) h(1) s(5) w(3) by auto
      moreover have "(H - G \<union> G') \<inter> (F0 - H) = {}" using h(3) s(5) w(3) by auto
      ultimately have "reps c'' (vs[k := u]) (js[k := jstore i0 es i']) (F0 - H \<union> (H - G \<union> G'))"
        using upd c''(2) by blast
      moreover have "c'' p = Some (set_member e u x)" using c''(3) h(1) pG t(2) H(2) s(4) same by auto
      moreover have "p \<notin> F0 - H \<union> (H - G \<union> G')" using s(4) H(2) pG h(3) by auto
      ultimately have "rep c'' v (jset e (jstore i0 es i') j) (insert p (F0 - H \<union> (H - G \<union> G')))" by (intro new)
      moreover have "insert p (F0 - H \<union> (H - G \<union> G')) = F - G \<union> G'" using s(4,5) H(2) w(3) by auto
      ultimately show ?thesis using t' s(2,5) False i0(1) c''(1,3) H(2) by (intro exI [of _ c'']) auto
    qed
  qed
  moreover have "lookup c v (e # es) = Inr w" using s(1,2) w(1) by simp
  moreover have "G \<subseteq> F" using w(3) H(2) s(5) by auto
  ultimately show ?case using w(2) by blast
qed

lemma lookup_frame:
  assumes "rep c v j F" "\<forall>p \<in> F. c' p = c p" "jlookup j es = Some i"
  shows "lookup c' v es = lookup c v es"
proof -
  obtain w G where w: "lookup c v es = Inr w" "rep c w i G" using focus [OF assms(1,3)] by blast
  show ?thesis
    using assms w(1)
  proof (induction es arbitrary: v j F)
    case (Cons e es)
    obtain i0 where i0: "jmember e j = Some i0" "jlookup i0 es = Some i"
      using Cons.prems(3) by (auto split: option.splits)
    obtain p x u vs js F0 k where s: "target v c = Inr (p, x)" "member e (v_type v) x = Inr u"
      "reps c vs js F0" "F = insert p F0" "k < length vs" "vs ! k = u" "js ! k = i0"
      using rep_step [OF Cons.prems(1) i0(1)] by metis
    obtain H where H: "rep c u i0 H" "H \<subseteq> F0" using reps_focus [OF s(3,5)] s(6,7) by metis
    have "lookup c' u es = lookup c u es"
      by (rule Cons.IH [OF H(1) _ i0(2)]) (use Cons.prems(2,4) H(2) s in auto)
    moreover have "target v c' = Inr (p, x)" using s(1,4) Cons.prems(2) by (simp add: target_eq)
    ultimately show ?case using s(1,2) by simp
  qed simp
qed

lemma reps_disjoint:
  "reps c vs js F \<Longrightarrow> i < length vs \<Longrightarrow> k < length vs \<Longrightarrow> i \<noteq> k \<Longrightarrow>
   rep c (vs ! i) (js ! i) G \<Longrightarrow> rep c (vs ! k) (js ! k) H \<Longrightarrow> G \<inter> H = {}"
proof (induction vs arbitrary: js F i k)
  case (Cons v vs)
  obtain j1 js1 F1 F2 where a: "js = j1 # js1" "rep c v j1 F1" "reps c vs js1 F2" "F1 \<inter> F2 = {}"
    using Cons.prems(1) by (auto simp: reps_simps)
  have in2: "G' \<subseteq> F2" if "rep c (vs ! l) (js1 ! l) G'" "l < length vs" for l G'
    using reps_focus [OF a(3) that(2)] rep_unique(1) [OF that(1)] by blast
  have in1: "G' = F1" if "rep c v j1 G'" for G' using rep_unique(1) [OF a(2) that] by simp
  show ?case
  proof (cases i)
    case 0
    then obtain l where l: "k = Suc l" using Cons.prems(4) by (cases k) auto
    then show ?thesis using 0 Cons.prems(3,5,6) in1 [of G] in2 [of l H] a(1,4) by auto
  next
    case (Suc l)
    show ?thesis
    proof (cases k)
      case 0
      then show ?thesis using Suc Cons.prems(2,5,6) in1 [of H] in2 [of l G] a(1,4) by auto
    next
      case (Suc n)
      then show ?thesis using \<open>i = Suc l\<close> Cons.IH [OF a(3), of l n] Cons.prems a(1) by auto
    qed
  qed
qed simp

text \<open>Two references neither of which leads through the other.\<close>

fun apart :: "step list \<Rightarrow> step list \<Rightarrow> bool" where
  "apart (e # es) (d # ds) = (if e = d then apart es ds else True)"
| "apart _ _ = False"

lemma rep_step_to:
  assumes "rep c v j F" "jlookup j (e # es) = Some i"
  obtains p x u vs js F0 H i0 where "target v c = Inr (p, x)" "member e (v_type v) x = Inr u"
    "reps c vs js F0" "p \<notin> F0" "F = insert p F0" "position e x < length vs" "vs ! position e x = u"
    "js ! position e x = i0" "vs = cell_values x" "rep c u i0 H" "H \<subseteq> F0" "jmember e j = Some i0"
    "jlookup i0 es = Some i"
proof -
  obtain i0 where i0: "jmember e j = Some i0" "jlookup i0 es = Some i"
    using assms(2) by (auto split: option.splits)
  obtain p x u vs js F0 where s: "target v c = Inr (p, x)" "member e (v_type v) x = Inr u"
    "reps c vs js F0" "p \<notin> F0" "F = insert p F0" "position e x < length vs" "vs ! position e x = u"
    "js ! position e x = i0" "vs = cell_values x"
    using rep_step [OF assms(1) i0(1)] by metis
  obtain H where "rep c u i0 H" "H \<subseteq> F0" using reps_focus [OF s(3,6)] s(7,8) by metis
  then show thesis using that s i0 by blast
qed

lemma away_child:
  assumes r: "rep c v j F" and e: "jlookup j (e # es) = Some i" and d: "jlookup j (d # ds) = Some i'" and ne: "e \<noteq> d"
    and w: "lookup c v (e # es) = Inr w" "rep c w i G"
  shows "\<exists>w' G'. G' \<inter> G = {} \<and> G' \<subseteq> F \<and>
    (\<forall>c'. (\<forall>p \<in> F - G. c' p = c p) \<longrightarrow> lookup c' v (d # ds) = Inr w' \<and> rep c' w' i' G')"
proof -
  obtain p x u vs js F0 H i0 where s: "target v c = Inr (p, x)" "member e (v_type v) x = Inr u"
    "reps c vs js F0" "p \<notin> F0" "F = insert p F0" "position e x < length vs" "vs ! position e x = u"
    "js ! position e x = i0" "vs = cell_values x" "rep c u i0 H" "H \<subseteq> F0" "jlookup i0 es = Some i"
    by (rule rep_step_to [OF r e]) blast
  obtain p' x' u' vs' js' F1 H' i1 where s': "target v c = Inr (p', x')" "member d (v_type v) x' = Inr u'"
    "reps c vs' js' F1" "F = insert p' F1" "p' \<notin> F1" "position d x' < length vs'" "vs' ! position d x' = u'"
    "js' ! position d x' = i1" "vs' = cell_values x'" "rep c u' i1 H'" "H' \<subseteq> F1" "jlookup i1 ds = Some i'"
    by (rule rep_step_to [OF r d]) blast
  have x: "p' = p" "x' = x" "vs' = vs" using s(1,9) s'(1,9) by auto
  have "js' = js" using rep_unique(2) [OF s(3)] s'(3) x(3) by blast
  have pos: "position e x \<noteq> position d x" using position_inj [OF s(2)] s'(2) x(2) ne by blast
  have "rep c (vs ! position e x) (js ! position e x) H" using s(7,8,10) by simp
  moreover have "rep c (vs ! position d x) (js ! position d x) H'" using s'(7,8,10) x \<open>js' = js\<close> by simp
  ultimately have dis: "H \<inter> H' = {}" using reps_disjoint [OF s(3,6) _ pos] s'(6) x by simp
  obtain G0 where "rep c w i G0" "G0 \<subseteq> H" using focus [OF s(10,12)] w(1) s(1,2) by auto
  then have GH: "G \<subseteq> H" using rep_unique(1) [OF w(2)] by blast
  obtain w' G' where w': "lookup c u' ds = Inr w'" "rep c w' i' G'" "G' \<subseteq> H'"
    using focus [OF s'(10,12)] by blast
  have H'F: "H' \<subseteq> F - G" "p \<in> F - G" using dis GH s'(4,11) s(4,5,11) x(1) by auto
  have "lookup c' v (d # ds) = Inr w' \<and> rep c' w' i' G'" if h: "\<forall>q \<in> F - G. c' q = c q" for c'
  proof
    have a: "\<forall>q \<in> H'. c' q = c q" using h H'F(1) by blast
    show "rep c' w' i' G'" by (rule rep_frame(1) [OF w'(2)]) (use a w'(3) in blast)
    have "lookup c' u' ds = Inr w'" using lookup_frame [OF s'(10) a s'(12)] w'(1) by simp
    moreover have "target v c' = Inr (p, x)" using s(1) h H'F(2) by (simp add: target_eq)
    ultimately show "lookup c' v (d # ds) = Inr w'" using s'(2) x(2) by simp
  qed
  moreover have "G' \<inter> G = {}" "G' \<subseteq> F" using dis GH w'(3) H'F by auto
  ultimately show ?thesis by blast
qed

lemma away:
  assumes "rep c v j F" "lookup c v es = Inr w" "rep c w i G" "jlookup j es = Some i" "jlookup j ds = Some i'" "apart es ds"
  shows "\<exists>w' G'. G' \<inter> G = {} \<and> G' \<subseteq> F \<and>
    (\<forall>c'. (\<forall>p \<in> F - G. c' p = c p) \<longrightarrow> lookup c' v ds = Inr w' \<and> rep c' w' i' G')"
  using assms
proof (induction es ds arbitrary: v j F rule: apart.induct)
  case (1 e es d ds)
  note r = "1.prems"(1)
  show ?case
  proof (cases "e = d")
    case True
    obtain p x u F0 H i0 where s: "target v c = Inr (p, x)" "member e (v_type v) x = Inr u"
      "p \<notin> F0" "F = insert p F0" "rep c u i0 H" "H \<subseteq> F0" "jmember e j = Some i0" "jlookup i0 es = Some i"
      by (rule rep_step_to [OF r "1.prems"(4)]) blast
    have wu: "lookup c u es = Inr w" using "1.prems"(2) s(1,2) by simp
    have jd: "jlookup i0 ds = Some i'" using "1.prems"(5) True s(7) by simp
    have ap: "apart es ds" using "1.prems"(6) True by simp
    obtain w' G' where IH: "G' \<inter> G = {}" "G' \<subseteq> H"
      "\<forall>c'. (\<forall>p \<in> H - G. c' p = c p) \<longrightarrow> lookup c' u ds = Inr w' \<and> rep c' w' i' G'"
      using "1.IH" [OF True s(5) wu "1.prems"(3) s(8) jd ap] by blast
    obtain G0 where "rep c w i G0" "G0 \<subseteq> H" using focus [OF s(5,8)] wu by auto
    then have GH: "G \<subseteq> H" using rep_unique(1) [OF "1.prems"(3)] by blast
    have sub: "H - G \<subseteq> F - G" "p \<in> F - G" using s(3,4,6) GH by auto
    have "lookup c' v (d # ds) = Inr w' \<and> rep c' w' i' G'" if h: "\<forall>q \<in> F - G. c' q = c q" for c'
    proof -
      have "target v c' = Inr (p, x)" using s(1) h sub(2) by (simp add: target_eq)
      moreover have "lookup c' u ds = Inr w' \<and> rep c' w' i' G'" using IH(3) h sub(1) by blast
      ultimately show ?thesis using s(2) True by simp
    qed
    moreover have "G' \<subseteq> F" using IH(2) s(4,6) by auto
    ultimately show ?thesis using IH(1) by blast
  next
    case False
    show ?thesis by (rule away_child [OF r "1.prems"(4,5) False "1.prems"(2,3)])
  qed
qed simp_all

end
