(* ===== verification/JsonPrograms.thy ===== *)
theory JsonPrograms
  imports JsonHeap JsonText
begin

text \<open>
  Programs over JSON values (src/code/common/include/util/json.hpp): variables, references into them,
  the constructors, the two assignments and the other operations on the heap of \<open>JsonHeap\<close>.
\<close>

subsection \<open>Programs with values\<close>

text \<open>
  The variables of a program and the heap. A place is a variable and the way from it: the object
  a reference refers to.
\<close>

type_synonym ('x, 'f) jstate = "('x \<rightharpoonup> 'f jvalue) \<times> 'f jheap"

type_synonym 'x place = "'x \<times> step list"

definition get_place :: "'x place \<Rightarrow> ('x, 'f) jstate \<Rightarrow> 'f jvalue result" where
  "get_place = (\<lambda>(x, es) (env, h). case env x of None \<Rightarrow> Inl Undefined | Some v \<Rightarrow> lookup (cells h) v es)"

definition put_place :: "'x place \<Rightarrow> 'f jvalue \<Rightarrow> ('x, 'f) jstate \<Rightarrow> ('x, 'f) jstate result" where
  "put_place = (\<lambda>(x, es) w (env, h).
     if es = [] then Inr (env(x \<mapsto> w), h)
     else case env x of
         None \<Rightarrow> Inl Undefined
       | Some v \<Rightarrow> and_then (store (cells h) v es w) (\<lambda>c. Inr (env, h\<lparr>cells := c\<rparr>)))"

definition at_place :: "('f jvalue \<Rightarrow> 'f jheap \<Rightarrow> ('f jvalue \<times> 'f jheap) result) \<Rightarrow> 'x place \<Rightarrow>
    ('x, 'f) jstate \<Rightarrow> ('x, 'f) jstate result" where
  "at_place f pl = (\<lambda>(env, h). and_then (get_place pl (env, h)) (\<lambda>w.
     and_then (f w h) (\<lambda>(w, h). put_place pl w (env, h))))"

text \<open>
  The two assignments, in the order of the code: the old payload of the target is destroyed before
  the source is looked at.
\<close>

definition copy_assign :: "nat \<Rightarrow> 'x place \<Rightarrow> 'x place \<Rightarrow> ('x, 'f) jstate \<Rightarrow> ('x, 'f) jstate result" where
  "copy_assign n dst src = (\<lambda>(env, h).
     if dst = src then Inr (env, h)
     else and_then (get_place dst (env, h)) (\<lambda>w. and_then (ClearInternal n w h) (\<lambda>h.
       and_then (get_place src (env, h)) (\<lambda>other. and_then (copy_value n other h) (\<lambda>(u, h).
         put_place dst u (env, h))))))"

definition move_assign :: "nat \<Rightarrow> 'x place \<Rightarrow> 'x place \<Rightarrow> ('x, 'f) jstate \<Rightarrow> ('x, 'f) jstate result" where
  "move_assign n dst src = (\<lambda>(env, h).
     if dst = src then Inr (env, h)
     else and_then (get_place dst (env, h)) (\<lambda>w. and_then (ClearInternal n w h) (\<lambda>h.
       and_then (get_place src (env, h)) (\<lambda>other. and_then (put_place dst other (env, h)) (\<lambda>s.
         put_place src (Value Null (B_ptr None)) s)))))"

text \<open>The constructors make a new variable.\<close>

definition copy_new :: "nat \<Rightarrow> 'x \<Rightarrow> 'x place \<Rightarrow> ('x, 'f) jstate \<Rightarrow> ('x, 'f) jstate result" where
  "copy_new n x src = (\<lambda>(env, h). and_then (get_place src (env, h)) (\<lambda>other.
     and_then (copy_value n other h) (\<lambda>(u, h). Inr (env(x \<mapsto> u), h))))"

definition move_new :: "'x \<Rightarrow> 'x place \<Rightarrow> ('x, 'f) jstate \<Rightarrow> ('x, 'f) jstate result" where
  "move_new x src = (\<lambda>(env, h). and_then (get_place src (env, h)) (\<lambda>other.
     put_place src (Value Null (B_ptr None)) (env(x \<mapsto> other), h)))"

definition append_copy :: "'f float_lib \<Rightarrow> nat \<Rightarrow> 'x place \<Rightarrow> 'x place \<Rightarrow> ('x, 'f) jstate \<Rightarrow> ('x, 'f) jstate result" where
  "append_copy fl n dst src = (\<lambda>(env, h). and_then (get_place src (env, h)) (\<lambda>other.
     and_then (copy_value n other h) (\<lambda>(t, h). at_place (v_append fl n t) dst (env, h))))"

subsection \<open>Ownership by the variables\<close>

definition env_rep :: "('x, 'f) jstate \<Rightarrow> ('x \<rightharpoonup> 'f json) \<Rightarrow> ('x \<Rightarrow> nat set) \<Rightarrow> bool" where
  "env_rep = (\<lambda>(env, h) gs Fs. jbounded h \<and>
     (\<forall>x. case env x of None \<Rightarrow> gs x = None \<and> Fs x = {}
        | Some v \<Rightarrow> (\<exists>j. gs x = Some j \<and> rep (cells h) v j (Fs x))) \<and>
     (\<forall>x y. x \<noteq> y \<longrightarrow> Fs x \<inter> Fs y = {}) \<and> dom (cells h) = (\<Union>x. Fs x))"

definition stands_for :: "('x, 'f) jstate \<Rightarrow> ('x \<rightharpoonup> 'f json) \<Rightarrow> bool" where
  "stands_for s gs \<longleftrightarrow> (\<exists>Fs. env_rep s gs Fs)"

lemma env_repD:
  assumes "env_rep (env, h) gs Fs"
  shows "jbounded h" "x \<noteq> y \<Longrightarrow> Fs x \<inter> Fs y = {}" "dom (cells h) = (\<Union>x. Fs x)"
    "gs x = Some j \<Longrightarrow> \<exists>v. env x = Some v \<and> rep (cells h) v j (Fs x)"
    "gs x = None \<Longrightarrow> env x = None \<and> Fs x = {}"
proof -
  have c: "case env x of None \<Rightarrow> gs x = None \<and> Fs x = {}
      | Some v \<Rightarrow> (\<exists>j. gs x = Some j \<and> rep (cells h) v j (Fs x))" for x
    using assms by (simp add: env_rep_def)
  show "gs x = Some j \<Longrightarrow> \<exists>v. env x = Some v \<and> rep (cells h) v j (Fs x)"
    and "gs x = None \<Longrightarrow> env x = None \<and> Fs x = {}"
    using c [of x] by (auto split: option.splits)
qed (use assms in \<open>auto simp: env_rep_def\<close>)

lemma env_update:
  assumes E: "env_rep (env, h) gs Fs" and b: "becomes h (Fs x) h' v' j' F'"
  shows "env_rep (env(x \<mapsto> v'), h') (gs(x \<mapsto> j')) (Fs(x := F'))"
proof -
  note D = env_repD [OF E]
  have B: "rep (cells h') v' j' F'" "jbounded h'" "F' \<subseteq> Fs x \<union> {limit h..<limit h'}"
    "\<forall>p. p \<notin> Fs x \<union> F' \<longrightarrow> cells h' p = cells h p" "\<forall>p \<in> Fs x - F'. cells h' p = None"
    using b by (simp_all add: becomes_def)
  have old: "p < limit h" if "p \<in> Fs y" for p y
    by (rule own_below [OF D(1) _ that]) (use D(3) in blast)
  have out: "Fs y \<inter> F' = {}" "\<forall>p \<in> Fs y. cells h' p = cells h p" if "y \<noteq> x" for y
  proof -
    show e: "Fs y \<inter> F' = {}" using old [of _ y] D(2) [OF that] B(3) by fastforce
    show "\<forall>p \<in> Fs y. cells h' p = cells h p" using e B(4) D(2) [OF that] by auto
  qed
  have "case (env(x \<mapsto> v')) y of None \<Rightarrow> (gs(x \<mapsto> j')) y = None \<and> (Fs(x := F')) y = {}
      | Some v \<Rightarrow> (\<exists>j. (gs(x \<mapsto> j')) y = Some j \<and> rep (cells h') v j ((Fs(x := F')) y))" for y
  proof (cases "y = x")
    case False
    show ?thesis
    proof (cases "gs y")
      case None
      then show ?thesis using D(5) [of y] False by simp
    next
      case (Some j)
      then obtain v where "env y = Some v" "rep (cells h) v j (Fs y)" using D(4) by blast
      moreover have "rep (cells h') v j (Fs y)" by (rule rep_frame(1) [OF calculation(2)]) (rule out(2) [OF False])
      ultimately show ?thesis using False Some by simp
    qed
  qed (use B(1) in simp)
  moreover have "(Fs(x := F')) y \<inter> (Fs(x := F')) z = {}" if "y \<noteq> z" for y z
    using D(2) [OF that] out(1) [of y] out(1) [of z] that by (auto simp: Int_commute)
  moreover have "dom (cells h') = (\<Union>y. (Fs(x := F')) y)"
  proof -
    have "p \<in> dom (cells h') \<longleftrightarrow> p \<in> F' \<or> (\<exists>y. y \<noteq> x \<and> p \<in> Fs y)" for p
    proof (cases "p \<in> F'")
      case True
      then show ?thesis using rep_owned(1) [OF B(1)] by auto
    next
      case False
      show ?thesis
      proof (cases "p \<in> Fs x")
        case True
        then have "cells h' p = None" using B(5) False by simp
        moreover have "\<forall>y. y \<noteq> x \<longrightarrow> p \<notin> Fs y" using D(2) True by (metis disjoint_iff)
        ultimately show ?thesis using False by (auto simp: domIff)
      next
        case Fx: False
        then have "cells h' p = cells h p" using B(4) False by simp
        moreover have "p \<in> dom (cells h) \<longleftrightarrow> (\<exists>y. p \<in> Fs y)" using D(3) by auto
        ultimately show ?thesis using False Fx by (auto simp: domIff)
      qed
    qed
    then show ?thesis by auto
  qed
  ultimately show ?thesis using B(2) unfolding env_rep_def split by blast
qed

lemma lookup_keep:
  "rep c v j F \<Longrightarrow> jlookup j es = Some i \<Longrightarrow> lookup c v es = Inr w \<Longrightarrow> rep c w i G \<Longrightarrow>
   \<forall>p \<in> F - G. c' p = c p \<Longrightarrow> lookup c' v es = Inr w"
proof (induction es arbitrary: v j F)
  case (Cons e es)
  obtain p x u F0 H i0 where s: "target v c = Inr (p, x)" "member e (v_type v) x = Inr u"
    "p \<notin> F0" "F = insert p F0" "rep c u i0 H" "H \<subseteq> F0" "jlookup i0 es = Some i"
    by (rule rep_step_to [OF Cons.prems(1,2)]) blast
  have wu: "lookup c u es = Inr w" using Cons.prems(3) s(1,2) by simp
  obtain G0 where "rep c w i G0" "G0 \<subseteq> H" using focus [OF s(5,7)] wu by auto
  then have GH: "G \<subseteq> H" using rep_unique(1) [OF Cons.prems(4)] by blast
  have "p \<in> F - G" "H - G \<subseteq> F - G" using s(3,4,6) GH by auto
  then have "target v c' = Inr (p, x)" "\<forall>q \<in> H - G. c' q = c q"
    using s(1) Cons.prems(5) by (auto simp: target_eq)
  then show ?case using Cons.IH [OF s(5,7) wu Cons.prems(4)] s(2) by simp
qed simp

text \<open>An operation at a place, from what it does to the value there.\<close>

lemma place_update:
  assumes E: "env_rep (env, h) gs Fs" and x: "gs x = Some j" "jlookup j es = Some i"
  obtains w G where "get_place (x, es) (env, h) = Inr w" "rep (cells h) w i G" "G \<subseteq> Fs x"
    "\<And>h' w' i' G'. becomes h G h' w' i' G' \<Longrightarrow>
       \<exists>s. put_place (x, es) w' (env, h') = Inr s \<and>
         env_rep s (gs(x \<mapsto> jstore j es i')) (Fs(x := Fs x - G \<union> G'))"
proof -
  note D = env_repD [OF E]
  obtain v where v: "env x = Some v" "rep (cells h) v j (Fs x)" using D(4) [OF x(1)] by blast
  obtain w G where w: "lookup (cells h) v es = Inr w" "rep (cells h) w i G" "G \<subseteq> Fs x"
    and st: "es \<noteq> [] \<Longrightarrow> \<forall>c' w' i' G'. (\<forall>p \<in> Fs x - G. c' p = cells h p) \<longrightarrow> rep c' w' i' G' \<longrightarrow>
      G' \<inter> (Fs x - G) = {} \<longrightarrow> (\<exists>c''. store c' v es w' = Inr c'' \<and>
        rep c'' v (jstore j es i') (Fs x - G \<union> G') \<and> (\<forall>p. p \<notin> Fs x - G \<longrightarrow> c'' p = c' p))"
    using focus [OF v(2) x(2)] by metis
  have "\<exists>s. put_place (x, es) w' (env, h') = Inr s \<and>
      env_rep s (gs(x \<mapsto> jstore j es i')) (Fs(x := Fs x - G \<union> G'))"
    if b: "becomes h G h' w' i' G'" for h' w' i' G'
  proof (cases "es = []")
    case True
    then have "G = Fs x" using w(1,2) v(2) x(2) rep_unique(1) by (metis Inr_inject lookup.simps(1) jlookup.simps(1) option.inject)
    then have "Fs x - G \<union> G' = G'" by auto
    then show ?thesis using env_update [OF E, of x h' w' i' G'] b \<open>G = Fs x\<close> True by (simp add: put_place_def)
  next
    case False
    have B: "rep (cells h') w' i' G'" "jbounded h'" "limit h \<le> limit h'" "G' \<subseteq> G \<union> {limit h..<limit h'}"
      "\<forall>p. p \<notin> G \<union> G' \<longrightarrow> cells h' p = cells h p" "\<forall>p \<in> G - G'. cells h' p = None"
      using b by (simp_all add: becomes_def)
    have old: "p < limit h" if "p \<in> Fs x" for p by (rule own_below [OF D(1) rep_owned(1) [OF v(2)] that])
    have dis: "G' \<inter> (Fs x - G) = {}" using B(4) old by fastforce
    then have "\<forall>p \<in> Fs x - G. cells h' p = cells h p" using B(5) by auto
    then obtain c where c: "store (cells h') v es w' = Inr c" "rep c v (jstore j es i') (Fs x - G \<union> G')"
      "\<forall>p. p \<notin> Fs x - G \<longrightarrow> c p = cells h' p" using st [OF False] B(1) dis by blast
    let ?h = "h'\<lparr>cells := c\<rparr>"
    have "becomes h (Fs x) ?h v (jstore j es i') (Fs x - G \<union> G')"
      unfolding becomes_def
    proof (intro conjI)
      show "rep (cells ?h) v (jstore j es i') (Fs x - G \<union> G')" using c(2) by simp
      have "p \<notin> Fs x - G" if "limit h' \<le> p" for p using old [of p] that B(3) by auto
      then show "jbounded ?h" using c(3) B(2) by (simp add: jbounded_def)
      show "Fs x - G \<union> G' \<subseteq> Fs x \<union> {limit h..<limit ?h}" using B(4) w(3) by auto
      show "\<forall>p. p \<notin> Fs x \<union> (Fs x - G \<union> G') \<longrightarrow> cells ?h p = cells h p" using c(3) B(5) w(3) by auto
      show "\<forall>p \<in> Fs x - (Fs x - G \<union> G'). cells ?h p = None" using c(3) B(6) by auto
    qed (use B(3) in simp)
    from env_update [OF E this] show ?thesis
      using c(1) v(1) False by (simp add: put_place_def fun_upd_idem)
  qed
  moreover have "get_place (x, es) (env, h) = Inr w" using v(1) w(1) by (simp add: get_place_def)
  ultimately show thesis using that w(2,3) by blast
qed

text \<open>The constructors from a scalar and from a string.\<close>

datatype 'f literal = L_bool bool | L_int u64 | L_float 'f | L_string string

fun new_value :: "'f literal \<Rightarrow> 'f jheap \<Rightarrow> 'f jvalue \<times> 'f jheap" where
  "new_value (L_bool b) h = (Value Boolean (B_bool b), h)"
| "new_value (L_int i) h = (Value Integral (B_int i), h)"
| "new_value (L_float x) h = (Value Floating (B_float x), h)"
| "new_value (L_string s) h = (let (q, h) = alloc (C_str s) h in (Value String (B_ptr (Some q)), h))"

fun literal_tree :: "'f literal \<Rightarrow> 'f json" where
  "literal_tree (L_bool b) = JBoolean b"
| "literal_tree (L_int i) = JIntegral i"
| "literal_tree (L_float x) = JFloating x"
| "literal_tree (L_string s) = JString s"

text \<open>
  The operations of a program: a variable is made, by default, from a scalar or a string, as a copy or by a move; a place is
  assigned, moved to, given a type, a scalar, a string, cleared, indexed, erased from or appended
  to; a variable is destroyed.
\<close>

datatype ('x, 'f) json_op =
  J_default 'x | J_new 'x "'f literal" | J_copy 'x "'x place" | J_move 'x "'x place"
| J_assign "'x place" "'x place" | J_move_assign "'x place" "'x place"
| J_type "'x place" emJsonType | J_bool "'x place" bool | J_int "'x place" u64 | J_float "'x place" 'f
| J_string "'x place" string | J_clear "'x place" | J_key "'x place" string | J_index "'x place" u32
| J_erase "'x place" string | J_append "'x place" "'x place" | J_destroy 'x

fun heap_do :: "'f float_lib \<Rightarrow> nat \<Rightarrow> ('x, 'f) json_op \<Rightarrow> ('x, 'f) jstate \<Rightarrow> ('x, 'f) jstate result" where
  "heap_do fl n (J_default x) (env, h) = Inr (env(x \<mapsto> default_value), h)"
| "heap_do fl n (J_new x l) (env, h) = (let (v, h) = new_value l h in Inr (env(x \<mapsto> v), h))"
| "heap_do fl n (J_copy x s) st = copy_new n x s st"
| "heap_do fl n (J_move x s) st = move_new x s st"
| "heap_do fl n (J_assign d s) st = copy_assign n d s st"
| "heap_do fl n (J_move_assign d s) st = move_assign n d s st"
| "heap_do fl n (J_type d t) st = at_place (v_SetType fl n t) d st"
| "heap_do fl n (J_bool d b) st = at_place (v_assign_bool fl n b) d st"
| "heap_do fl n (J_int d i) st = at_place (v_assign_int fl n i) d st"
| "heap_do fl n (J_float d x) st = at_place (v_assign_float fl n x) d st"
| "heap_do fl n (J_string d s) st = at_place (v_assign_string fl n s) d st"
| "heap_do fl n (J_clear d) st = at_place (v_clear n) d st"
| "heap_do fl n (J_key d k) st = at_place (v_key fl n k) d st"
| "heap_do fl n (J_index d i) st = at_place (v_index fl n i) d st"
| "heap_do fl n (J_erase d k) st = at_place (v_erase n k) d st"
| "heap_do fl n (J_append d s) st = append_copy fl n d s st"
| "heap_do fl n (J_destroy x) (env, h) =
     and_then (get_place (x, []) (env, h)) (\<lambda>v. and_then (ClearInternal n v h) (\<lambda>h. Inr (env(x := None), h)))"

fun heap_run :: "'f float_lib \<Rightarrow> nat \<Rightarrow> ('x, 'f) json_op list \<Rightarrow> ('x, 'f) jstate \<Rightarrow> ('x, 'f) jstate result" where
  "heap_run fl n [] st = Inr st"
| "heap_run fl n (e # es) st = and_then (heap_do fl n e st) (heap_run fl n es)"

text \<open>The specification: the operations of \<open>Json\<close> on the trees of the variables.\<close>

definition tree_at :: "'x place \<Rightarrow> ('x \<rightharpoonup> 'f json) \<Rightarrow> 'f json option" where
  "tree_at = (\<lambda>(x, es) gs. case gs x of None \<Rightarrow> None | Some j \<Rightarrow> jlookup j es)"

definition tree_put :: "'x place \<Rightarrow> 'f json \<Rightarrow> ('x \<rightharpoonup> 'f json) \<Rightarrow> 'x \<rightharpoonup> 'f json" where
  "tree_put = (\<lambda>(x, es) i gs. case gs x of None \<Rightarrow> gs | Some j \<Rightarrow> gs(x \<mapsto> jstore j es i))"

abbreviation tree_change :: "('f json \<Rightarrow> 'f json) \<Rightarrow> 'x place \<Rightarrow> ('x \<rightharpoonup> 'f json) \<Rightarrow> 'x \<rightharpoonup> 'f json" where
  "tree_change f d gs \<equiv> tree_put d (f (the (tree_at d gs))) gs"

definition index_result :: "'f float_lib \<Rightarrow> u32 \<Rightarrow> 'f json \<Rightarrow> 'f json" where
  "index_result fl i j = (case get_index fl i j of Inr (_, j') \<Rightarrow> j' | Inl _ \<Rightarrow> j)"

fun tree_do :: "'f float_lib \<Rightarrow> ('x, 'f) json_op \<Rightarrow> ('x \<rightharpoonup> 'f json) \<Rightarrow> 'x \<rightharpoonup> 'f json" where
  "tree_do fl (J_default x) gs = gs(x \<mapsto> JNull)"
| "tree_do fl (J_new x l) gs = gs(x \<mapsto> literal_tree l)"
| "tree_do fl (J_copy x s) gs = gs(x := tree_at s gs)"
| "tree_do fl (J_move x s) gs = (tree_put s JNull gs)(x := tree_at s gs)"
| "tree_do fl (J_assign d s) gs = tree_put d (the (tree_at s gs)) gs"
| "tree_do fl (J_move_assign d s) gs =
     (if d = s then gs else tree_put s JNull (tree_put d (the (tree_at s gs)) gs))"
| "tree_do fl (J_type d t) gs = tree_change (SetType fl t) d gs"
| "tree_do fl (J_bool d b) gs = tree_change (assign_bool fl b) d gs"
| "tree_do fl (J_int d i) gs = tree_change (assign_int fl i) d gs"
| "tree_do fl (J_float d x) gs = tree_change (assign_float fl x) d gs"
| "tree_do fl (J_string d s) gs = tree_change (assign_string fl s) d gs"
| "tree_do fl (J_clear d) gs = tree_change json_clear d gs"
| "tree_do fl (J_key d k) gs = tree_change (\<lambda>j. snd (get_key fl k j)) d gs"
| "tree_do fl (J_index d i) gs = tree_change (index_result fl i) d gs"
| "tree_do fl (J_erase d k) gs = tree_change (\<lambda>j. snd (eraseKey k j)) d gs"
| "tree_do fl (J_append d s) gs = tree_change (append1 fl (the (tree_at s gs))) d gs"
| "tree_do fl (J_destroy x) gs = gs(x := None)"

text \<open>
  What a client respects: the variables and places it names exist, a variable it makes does not; an
  index is below the largest; it assigns between places of which neither leads through the other, and
  moves between different variables; and what is copied or destroyed is not nested deeper than
  the stack allows.
\<close>

definition place_ok :: "nat \<Rightarrow> 'x place \<Rightarrow> ('x \<rightharpoonup> 'f json) \<Rightarrow> bool" where
  "place_ok n d gs = (case tree_at d gs of None \<Rightarrow> False | Some j \<Rightarrow> depth j < n)"

definition unrelated :: "'x place \<Rightarrow> 'x place \<Rightarrow> bool" where
  "unrelated d s \<longleftrightarrow> d = s \<or> fst d \<noteq> fst s \<or> apart (snd d) (snd s)"

fun json_allowed :: "'f float_lib \<Rightarrow> nat \<Rightarrow> ('x, 'f) json_op \<Rightarrow> ('x \<rightharpoonup> 'f json) \<Rightarrow> bool" where
  "json_allowed fl n (J_default x) gs \<longleftrightarrow> gs x = None"
| "json_allowed fl n (J_new x l) gs \<longleftrightarrow> gs x = None"
| "json_allowed fl n (J_copy x s) gs \<longleftrightarrow> gs x = None \<and> place_ok n s gs"
| "json_allowed fl n (J_move x s) gs \<longleftrightarrow> gs x = None \<and> place_ok n s gs"
| "json_allowed fl n (J_assign d s) gs \<longleftrightarrow> place_ok n d gs \<and> place_ok n s gs \<and> unrelated d s"
| "json_allowed fl n (J_move_assign d s) gs \<longleftrightarrow>
     place_ok n d gs \<and> place_ok n s gs \<and> (d = s \<or> fst d \<noteq> fst s)"
| "json_allowed fl n (J_append d s) gs \<longleftrightarrow> place_ok n d gs \<and> place_ok n s gs"
| "json_allowed fl n (J_index d i) gs \<longleftrightarrow>
     place_ok n d gs \<and> (case get_index fl i (the (tree_at d gs)) of Inl _ \<Rightarrow> False | Inr _ \<Rightarrow> True)"
| "json_allowed fl n (J_type d t) gs \<longleftrightarrow> place_ok n d gs"
| "json_allowed fl n (J_bool d b) gs \<longleftrightarrow> place_ok n d gs"
| "json_allowed fl n (J_int d i) gs \<longleftrightarrow> place_ok n d gs"
| "json_allowed fl n (J_float d x) gs \<longleftrightarrow> place_ok n d gs"
| "json_allowed fl n (J_string d s) gs \<longleftrightarrow> place_ok n d gs"
| "json_allowed fl n (J_clear d) gs \<longleftrightarrow> place_ok n d gs"
| "json_allowed fl n (J_key d k) gs \<longleftrightarrow> place_ok n d gs"
| "json_allowed fl n (J_erase d k) gs \<longleftrightarrow> place_ok n d gs"
| "json_allowed fl n (J_destroy x) gs \<longleftrightarrow> place_ok n (x, []) gs"

fun tree_run :: "'f float_lib \<Rightarrow> nat \<Rightarrow> ('x, 'f) json_op list \<Rightarrow> ('x \<rightharpoonup> 'f json) \<Rightarrow> ('x \<rightharpoonup> 'f json) option" where
  "tree_run fl n [] gs = Some gs"
| "tree_run fl n (e # es) gs =
     (if json_allowed fl n e gs then tree_run fl n es (tree_do fl e gs) else None)"

text \<open>One operation: the state it leads to stands for the trees it should.\<close>

definition leads :: "('x, 'f) jstate result \<Rightarrow> ('x \<rightharpoonup> 'f json) \<Rightarrow> bool" where
  "leads r gs \<longleftrightarrow> (\<exists>s. r = Inr s \<and> stands_for s gs)"

lemma place_okE:
  assumes "place_ok n (x, es) gs"
  obtains j i where "gs x = Some j" "jlookup j es = Some i" "depth i < n" "tree_at (x, es) gs = Some i"
  using assms that by (auto simp: place_ok_def tree_at_def split: option.splits)

lemma at_place_leads:
  assumes E: "env_rep (env, h) gs Fs" and ok: "place_ok n d gs"
    and op: "\<And>w i G. rep (cells h) w i G \<Longrightarrow> depth i < n \<Longrightarrow> tree_at d gs = Some i \<Longrightarrow>
      \<exists>w' h' G'. f w h = Inr (w', h') \<and> becomes h G h' w' (g i) G'"
  shows "leads (at_place f d (env, h)) (tree_change g d gs)"
proof -
  obtain x es where d: "d = (x, es)" by fastforce
  obtain j i where j: "gs x = Some j" "jlookup j es = Some i" "depth i < n" "tree_at (x, es) gs = Some i"
    by (rule place_okE [OF ok [unfolded d]])
  obtain w G where w: "get_place (x, es) (env, h) = Inr w" "rep (cells h) w i G"
    and put: "\<And>h' w' i' G'. becomes h G h' w' i' G' \<Longrightarrow>
       \<exists>s. put_place (x, es) w' (env, h') = Inr s \<and>
         env_rep s (gs(x \<mapsto> jstore j es i')) (Fs(x := Fs x - G \<union> G'))"
    by (rule place_update [OF E j(1,2)]) blast
  obtain w' h' G' where f: "f w h = Inr (w', h')" "becomes h G h' w' (g i) G'"
    using op [OF w(2) j(3)] j(4) d by blast
  obtain s where "put_place (x, es) w' (env, h') = Inr s" "stands_for s (gs(x \<mapsto> jstore j es (g i)))"
    using put [OF f(2)] unfolding stands_for_def by blast
  then show ?thesis using w(1) f(1) j by (simp add: leads_def at_place_def d tree_put_def)
qed

lemma new_variable:
  assumes E: "env_rep (env, h) gs Fs" and x: "gs x = None" and b: "becomes h {} h' w i G"
  shows "leads (Inr (env(x \<mapsto> w), h')) (gs(x \<mapsto> i))"
proof -
  have "Fs x = {}" using env_repD(5) [OF E x] by simp
  then have "env_rep (env(x \<mapsto> w), h') (gs(x \<mapsto> i)) (Fs(x := G))" using env_update [OF E] b by simp
  then show ?thesis unfolding leads_def stands_for_def by blast
qed

text \<open>Several variables change at once, cells passing from one to the other.\<close>

lemma env_two:
  assumes E: "env_rep (env, h) gs Fs" and xy: "x \<noteq> y"
    and rx: "rep (cells h') vx jx Fx" and ry: "rep (cells h') vy jy Fy" and dis: "Fx \<inter> Fy = {}"
    and sub: "Fx \<union> Fy \<subseteq> Fs x \<union> Fs y" and out: "\<forall>p. p \<notin> Fs x \<union> Fs y \<longrightarrow> cells h' p = cells h p"
    and gone: "\<forall>p \<in> Fs x \<union> Fs y - (Fx \<union> Fy). cells h' p = None" and lim: "limit h' = limit h"
  shows "env_rep (env(x \<mapsto> vx, y \<mapsto> vy), h') (gs(x \<mapsto> jx, y \<mapsto> jy)) (Fs(x := Fx, y := Fy))"
proof -
  note D = env_repD [OF E]
  have other: "Fs z \<inter> (Fx \<union> Fy) = {}" "\<forall>p \<in> Fs z. cells h' p = cells h p" if "z \<noteq> x" "z \<noteq> y" for z
  proof -
    have "Fs z \<inter> (Fs x \<union> Fs y) = {}" using D(2) [of z x] D(2) [of z y] that by auto
    then show "Fs z \<inter> (Fx \<union> Fy) = {}" "\<forall>p \<in> Fs z. cells h' p = cells h p" using sub out by auto
  qed
  have "case (env(x \<mapsto> vx, y \<mapsto> vy)) z of None \<Rightarrow> (gs(x \<mapsto> jx, y \<mapsto> jy)) z = None \<and> (Fs(x := Fx, y := Fy)) z = {}
      | Some v \<Rightarrow> (\<exists>j. (gs(x \<mapsto> jx, y \<mapsto> jy)) z = Some j \<and> rep (cells h') v j ((Fs(x := Fx, y := Fy)) z))" for z
  proof (cases "z = x \<or> z = y")
    case False
    show ?thesis
    proof (cases "gs z")
      case None
      then show ?thesis using D(5) [of z] False by simp
    next
      case (Some j)
      then obtain v where v: "env z = Some v" "rep (cells h) v j (Fs z)" using D(4) by blast
      have "rep (cells h') v j (Fs z)" by (rule rep_frame(1) [OF v(2)]) (use other(2) False in blast)
      then show ?thesis using False Some v(1) by simp
    qed
  qed (use rx ry xy in auto)
  moreover have "(Fs(x := Fx, y := Fy)) a \<inter> (Fs(x := Fx, y := Fy)) b = {}" if "a \<noteq> b" for a b
    using D(2) [OF that] other(1) [of a] other(1) [of b] that dis by auto
  moreover have "dom (cells h') = (\<Union>z. (Fs(x := Fx, y := Fy)) z)"
  proof -
    have "p \<in> dom (cells h') \<longleftrightarrow> p \<in> Fx \<union> Fy \<or> (\<exists>z. z \<noteq> x \<and> z \<noteq> y \<and> p \<in> Fs z)" for p
    proof (cases "p \<in> Fs x \<union> Fs y")
      case True
      then have n: "\<not> (\<exists>z. z \<noteq> x \<and> z \<noteq> y \<and> p \<in> Fs z)" using D(2) [of _ x] D(2) [of _ y] by (metis UnE disjoint_iff)
      show ?thesis
      proof (cases "p \<in> Fx \<union> Fy")
        case True
        then show ?thesis using rep_owned(1) [OF rx] rep_owned(1) [OF ry] by auto
      next
        case False
        then have "cells h' p = None" using gone \<open>p \<in> Fs x \<union> Fs y\<close> by auto
        then show ?thesis using n False by (simp add: domIff)
      qed
    next
      case False
      then have "cells h' p = cells h p" "p \<notin> Fx \<union> Fy" using out sub by auto
      moreover have "p \<in> dom (cells h) \<longleftrightarrow> (\<exists>z. p \<in> Fs z)" using D(3) by auto
      ultimately show ?thesis using False by (auto simp: domIff)
    qed
    then show ?thesis using xy by auto
  qed
  moreover have "jbounded h'"
    unfolding jbounded_def
  proof (intro allI impI)
    fix p assume "limit h' \<le> p"
    then have "cells h p = None" using D(1) lim by (simp add: jbounded_def)
    moreover then have "p \<notin> Fs x \<union> Fs y" using D(3) by (auto simp: domIff)
    ultimately show "cells h' p = None" using out by simp
  qed
  ultimately show ?thesis unfolding env_rep_def split by blast
qed

text \<open>
  Writing at a place of a variable with value \<open>v\<close> when the cells the place had are someone else's and
  only the rest \<open>R\<close> of the variable's is as it was on \<open>c\<close>.
\<close>

definition writes_at :: "'x place \<Rightarrow> 'f jvalue \<Rightarrow> 'f cells \<Rightarrow> nat set \<Rightarrow> 'f json \<Rightarrow> bool" where
  "writes_at = (\<lambda>(x, es) v c R j. \<forall>env (h :: 'f jheap) w i G. env x = Some v \<longrightarrow> (\<forall>p \<in> R. cells h p = c p) \<longrightarrow>
     rep (cells h) w i G \<longrightarrow> G \<inter> R = {} \<longrightarrow>
     (\<exists>v' h'. put_place (x, es) w (env, h) = Inr (env(x \<mapsto> v'), h') \<and> limit h' = limit h \<and>
        rep (cells h') v' (jstore j es i) (R \<union> G) \<and> (\<forall>p. p \<notin> R \<longrightarrow> cells h' p = cells h p)))"

lemma writes_atE:
  fixes h :: "'f jheap"
  assumes "writes_at (x, es) v c R j" "env x = Some v" "\<forall>p \<in> R. cells h p = c p" "rep (cells h) w i G" "G \<inter> R = {}"
  obtains v' h' where "put_place (x, es) w (env, h) = Inr (env(x \<mapsto> v'), h')" "limit h' = limit h"
    "rep (cells h') v' (jstore j es i) (R \<union> G)" "\<forall>p. p \<notin> R \<longrightarrow> cells h' p = cells h p"
  using assms(1) [unfolded writes_at_def split, rule_format, of env h w i G] assms(2-) that by blast

lemma place_focus:
  assumes v: "rep c v j F" "jlookup j es = Some i"
  obtains w G where "lookup c v es = Inr w" "rep c w i G" "G \<subseteq> F" "writes_at (x, es) v c (F - G) j"
proof -
  obtain w G where w: "lookup c v es = Inr w" "rep c w i G" "G \<subseteq> F"
    and st: "es \<noteq> [] \<Longrightarrow> \<forall>c' w' i' G'. (\<forall>p \<in> F - G. c' p = c p) \<longrightarrow> rep c' w' i' G' \<longrightarrow>
      G' \<inter> (F - G) = {} \<longrightarrow> (\<exists>c''. store c' v es w' = Inr c'' \<and>
        rep c'' v (jstore j es i') (F - G \<union> G') \<and> (\<forall>p. p \<notin> F - G \<longrightarrow> c'' p = c' p))"
    using focus [OF v] by metis
  have "\<exists>v' h'. put_place (x, es) w' (env, h) = Inr (env(x \<mapsto> v'), h') \<and> limit h' = limit h \<and>
      rep (cells h') v' (jstore j es i') (F - G \<union> G') \<and> (\<forall>p. p \<notin> F - G \<longrightarrow> cells h' p = cells h p)"
    if a: "env x = Some v" "\<forall>p \<in> F - G. cells h p = c p" "rep (cells h) w' i' G'" "G' \<inter> (F - G) = {}"
    for env and h :: "'a jheap" and w' i' G'
  proof (cases "es = []")
    case True
    then have "w = v" "i = j" using w(1) v(2) by simp_all
    then have "G = F" using rep_unique(1) [OF v(1), of i G] w(2) by simp
    then have "F - G \<union> G' = G'" by simp
    then show ?thesis
      using a(3) True by (intro exI [of _ w'] exI [of _ h]) (simp add: put_place_def)
  next
    case False
    obtain c' where c': "store (cells h) v es w' = Inr c'" "rep c' v (jstore j es i') (F - G \<union> G')"
      "\<forall>p. p \<notin> F - G \<longrightarrow> c' p = cells h p"
      using st [OF False, rule_format, of "cells h" w' i' G'] a(2-4) by blast
    then show ?thesis
      using a(1) False by (intro exI [of _ v] exI [of _ "h\<lparr>cells := c'\<rparr>"]) (simp add: put_place_def fun_upd_idem)
  qed
  then have "writes_at (x, es) v c (F - G) j" unfolding writes_at_def split by blast
  then show thesis using that w by blast
qed

lemma jstore_same: "jlookup j es = Some i \<Longrightarrow> jstore j es i = j"
proof (induction es arbitrary: j)
  case (Cons e es)
  then obtain i0 where i0: "jmember e j = Some i0" "jlookup i0 es = Some i" by (auto split: option.splits)
  have "map_put k x m = m" if "map_of m k = Some x" for k and x :: "'a json" and m
    using that by (induction m) (auto split: if_splits)
  then have "jset e i0 j = j" using i0(1) by (cases e; cases j) (auto split: if_splits)
  then show ?case using i0 Cons.IH [OF i0(2)] by simp
qed simp

lemma env_remove:
  assumes E: "env_rep (env(x \<mapsto> v), h) (gs(x \<mapsto> j)) Fs" and F: "Fs x = {}"
  shows "env_rep (env(x := None), h) (gs(x := None)) Fs"
proof -
  have c: "case (env(x \<mapsto> v)) y of None \<Rightarrow> (gs(x \<mapsto> j)) y = None \<and> Fs y = {}
      | Some v \<Rightarrow> (\<exists>i. (gs(x \<mapsto> j)) y = Some i \<and> rep (cells h) v i (Fs y))" for y
    using E by (simp add: env_rep_def)
  have "case (env(x := None)) y of None \<Rightarrow> (gs(x := None)) y = None \<and> Fs y = {}
      | Some v \<Rightarrow> (\<exists>j. (gs(x := None)) y = Some j \<and> rep (cells h) v j (Fs y))" for y
    using c [of y] F by (cases "y = x") (simp_all split: option.splits)
  then show ?thesis using E by (simp add: env_rep_def)
qed

subsection \<open>Each operation leads to its trees\<close>

lemma copy_new_leads:
  assumes E: "env_rep (env, h) gs Fs" and x: "gs x = None" and ok: "place_ok n s gs"
  shows "leads (copy_new n x s (env, h)) (gs(x := tree_at s gs))"
proof -
  obtain y es where s: "s = (y, es)" by fastforce
  obtain j i where j: "gs y = Some j" "jlookup j es = Some i" "depth i < n" "tree_at (y, es) gs = Some i"
    by (rule place_okE [OF ok [unfolded s]])
  obtain w G where w: "get_place (y, es) (env, h) = Inr w" "rep (cells h) w i G"
    by (rule place_update [OF E j(1,2)]) blast
  obtain u h' H where c: "copy_value n w h = Inr (u, h')" "rep (cells h') u i H" "grown h h' H"
    by (rule copy_rep [OF w(2) env_repD(1) [OF E] j(3)])
  show ?thesis
    using new_variable [OF E x becomes_grown [OF c(3,2)]] w(1) c(1) j(4) by (simp add: copy_new_def s)
qed

text \<open>What a place is, seen from its variable.\<close>

lemma place_value:
  assumes E: "env_rep (env, h) gs Fs" and j: "gs x = Some j" "jlookup j es = Some i"
  obtains v w G where "env x = Some v" "rep (cells h) v j (Fs x)" "lookup (cells h) v es = Inr w"
    "rep (cells h) w i G" "G \<subseteq> Fs x"
proof -
  obtain v where v: "env x = Some v" "rep (cells h) v j (Fs x)" using env_repD(4) [OF E j(1)] by blast
  then show thesis using that focus [OF v(2) j(2)] by blast
qed

lemma source_after_clear:
  assumes E: "env_rep (env, h) gs Fs" and j: "gs x = Some j" "jlookup j es = Some i"
    and j': "gs y = Some j'" "jlookup j' ds = Some i'" and un: "x \<noteq> y \<or> apart es ds"
    and w: "get_place (x, es) (env, h) = Inr w" "rep (cells h) w i G" "G \<subseteq> Fs x"
  shows "\<exists>u H. get_place (y, ds) (env, drop_cells G h) = Inr u \<and> rep (cells (drop_cells G h)) u i' H"
proof (cases "x = y")
  case False
  obtain v u H where v: "env y = Some v" "rep (cells h) v j' (Fs y)" "lookup (cells h) v ds = Inr u"
    "rep (cells h) u i' H" "H \<subseteq> Fs y" by (rule place_value [OF E j'])
  have f: "\<forall>p \<in> Fs y. cells (drop_cells G h) p = cells h p"
    using env_repD(2) [OF E False] w(3) by (auto simp: cells_drop)
  have "lookup (cells (drop_cells G h)) v ds = Inr u" using lookup_frame [OF v(2) f j'(2)] v(3) by simp
  moreover have "rep (cells (drop_cells G h)) u i' H" by (rule rep_frame(1) [OF v(4)]) (use f v(5) in blast)
  ultimately show ?thesis using v(1) by (simp add: get_place_def) blast
next
  case True
  then have ap: "apart es ds" "jlookup j ds = Some i'" using un j j' by simp_all
  obtain v where v: "env x = Some v" "rep (cells h) v j (Fs x)" using env_repD(4) [OF E j(1)] by blast
  have "lookup (cells h) v es = Inr w" using w(1) v(1) by (simp add: get_place_def)
  from away [OF v(2) this w(2) j(2) ap(2,1)] obtain u H where
    u: "\<And>c'. \<forall>p \<in> Fs x - G. c' p = cells h p \<Longrightarrow> lookup c' v ds = Inr u \<and> rep c' u i' H" by blast
  have "\<forall>p \<in> Fs x - G. cells (drop_cells G h) p = cells h p" by (simp add: cells_drop)
  from u [OF this] show ?thesis using v(1) True by (auto simp: get_place_def)
qed

lemma tree_put_same: "tree_at d gs = Some i \<Longrightarrow> tree_put d i gs = gs"
  by (auto simp: tree_at_def tree_put_def jstore_same fun_upd_idem split: option.splits prod.splits)

lemma copy_assign_leads:
  assumes E: "env_rep (env, h) gs Fs" and d: "place_ok n d gs" and s: "place_ok n s gs" and un: "unrelated d s"
  shows "leads (copy_assign n d s (env, h)) (tree_put d (the (tree_at s gs)) gs)"
proof (cases "d = s")
  case True
  obtain i where "tree_at s gs = Some i" using s by (auto simp: place_ok_def split: option.splits)
  then have "tree_put d (the (tree_at s gs)) gs = gs" using tree_put_same True by simp
  then show ?thesis using E True by (auto simp: copy_assign_def leads_def stands_for_def)
next
  case False
  obtain x es y ds where p: "d = (x, es)" "s = (y, ds)" by fastforce
  obtain j i where j: "gs x = Some j" "jlookup j es = Some i" "depth i < n" "tree_at (x, es) gs = Some i"
    by (rule place_okE [OF d [unfolded p(1)]])
  obtain j' i' where j': "gs y = Some j'" "jlookup j' ds = Some i'" "depth i' < n" "tree_at (y, ds) gs = Some i'"
    by (rule place_okE [OF s [unfolded p(2)]])
  obtain w G where w: "get_place (x, es) (env, h) = Inr w" "rep (cells h) w i G" "G \<subseteq> Fs x"
    and put: "\<And>h' w' i' G'. becomes h G h' w' i' G' \<Longrightarrow>
       \<exists>s. put_place (x, es) w' (env, h') = Inr s \<and>
         env_rep s (gs(x \<mapsto> jstore j es i')) (Fs(x := Fs x - G \<union> G'))"
    by (rule place_update [OF E j(1,2)]) blast
  let ?h = "drop_cells G h"
  note b = env_repD(1) [OF E]
  have "x \<noteq> y \<or> apart es ds" using un False p by (auto simp: unrelated_def)
  from source_after_clear [OF E j(1,2) j'(1,2) this w] obtain u H where
    u: "get_place (y, ds) (env, ?h) = Inr u" "rep (cells ?h) u i' H" by blast
  obtain v h' K where c: "copy_value n u ?h = Inr (v, h')" "rep (cells h') v i' K" "grown ?h h' K"
    by (rule copy_rep [OF u(2) drop_bounded [OF b] j'(3)])
  have "becomes h G h' v i' K"
    by (rule becomes_after_clear [OF becomes_grown [OF c(3,2)] rep_owned(1) [OF w(2)] b])
  from put [OF this] obtain st where put_eq: "put_place (x, es) v (env, h') = Inr st"
    and st: "stands_for st (gs(x \<mapsto> jstore j es i'))" unfolding stands_for_def by blast
  from put_eq have "copy_assign n d s (env, h) = Inr st"
    using False w(1) u(1) c(1) clear_rep [OF w(2) j(3)] by (auto simp: copy_assign_def p)
  moreover have "tree_put d (the (tree_at s gs)) gs = gs(x \<mapsto> jstore j es i')"
    using j(1) j'(4) by (simp add: p tree_put_def)
  ultimately show ?thesis using st by (simp add: leads_def)
qed

text \<open>Moving: the cells of the source become the target's, and the source is null.\<close>

lemma move_assign_leads:
  assumes E: "env_rep (env, h) gs Fs" and d: "place_ok n d gs" and s: "place_ok n s gs" and un: "fst d \<noteq> fst s"
  shows "leads (move_assign n d s (env, h)) (tree_put s JNull (tree_put d (the (tree_at s gs)) gs))"
proof -
  obtain x es y ds where p: "d = (x, es)" "s = (y, ds)" by fastforce
  have xy: "x \<noteq> y" using un p by simp
  obtain j i where j: "gs x = Some j" "jlookup j es = Some i" "depth i < n" "tree_at (x, es) gs = Some i"
    by (rule place_okE [OF d [unfolded p(1)]])
  obtain j' i' where j': "gs y = Some j'" "jlookup j' ds = Some i'" "depth i' < n" "tree_at (y, ds) gs = Some i'"
    by (rule place_okE [OF s [unfolded p(2)]])
  obtain v where v: "env x = Some v" "rep (cells h) v j (Fs x)" using env_repD(4) [OF E j(1)] by blast
  obtain u where u: "env y = Some u" "rep (cells h) u j' (Fs y)" using env_repD(4) [OF E j'(1)] by blast
  obtain w G where w: "lookup (cells h) v es = Inr w" "rep (cells h) w i G" "G \<subseteq> Fs x"
    and putx: "writes_at (x, es) v (cells h) (Fs x - G) j" by (rule place_focus [OF v(2) j(2)])
  obtain t H where t: "lookup (cells h) u ds = Inr t" "rep (cells h) t i' H" "H \<subseteq> Fs y"
    and puty: "writes_at (y, ds) u (cells h) (Fs y - H) j'" by (rule place_focus [OF u(2) j'(2)])
  have dis: "Fs x \<inter> Fs y = {}" by (rule env_repD(2) [OF E xy])
  let ?h = "drop_cells G h"
  have y: "\<forall>p \<in> Fs y. cells ?h p = cells h p" using dis w(3) by (auto simp: cells_drop)
  have src: "get_place (y, ds) (env, ?h) = Inr t"
    using lookup_frame [OF u(2) y j'(2)] u(1) t(1) by (simp add: get_place_def)
  have t': "rep (cells ?h) t i' H" by (rule rep_frame(1) [OF t(2)]) (use y t(3) in blast)
  have k0: "\<forall>p \<in> Fs x - G. cells ?h p = cells h p" by (simp add: cells_drop)
  obtain v1 h1 where 1: "put_place (x, es) t (env, ?h) = Inr (env(x \<mapsto> v1), h1)" "limit h1 = limit ?h"
    "rep (cells h1) v1 (jstore j es i') (Fs x - G \<union> H)" "\<forall>p. p \<notin> Fs x - G \<longrightarrow> cells h1 p = cells ?h p"
    by (rule writes_atE [OF putx, where env = env, OF v(1) k0 t']) (use dis t(3) in auto)
  have e1: "(env(x \<mapsto> v1)) y = Some u" using u(1) xy by simp
  have k1: "\<forall>p \<in> Fs y - H. cells h1 p = cells h p" using dis y 1(4) by auto
  obtain v2 h2 where 2: "put_place (y, ds) (Value Null (B_ptr None)) (env(x \<mapsto> v1), h1) =
      Inr (env(x \<mapsto> v1, y \<mapsto> v2), h2)" "limit h2 = limit h1"
    "rep (cells h2) v2 (jstore j' ds JNull) (Fs y - H \<union> {})" "\<forall>p. p \<notin> Fs y - H \<longrightarrow> cells h2 p = cells h1 p"
    by (rule writes_atE [OF puty, where env = "env(x \<mapsto> v1)", OF e1 k1 rep_null]) simp
  have v1: "rep (cells h2) v1 (jstore j es i') (Fs x - G \<union> H)"
    by (rule rep_frame(1) [OF 1(3)]) (use 2(4) dis in auto)
  have "env_rep (env(x \<mapsto> v1, y \<mapsto> v2), h2) (gs(x \<mapsto> jstore j es i', y \<mapsto> jstore j' ds JNull))
      (Fs(x := Fs x - G \<union> H, y := Fs y - H))"
  proof (rule env_two [OF E xy v1])
    show "rep (cells h2) v2 (jstore j' ds JNull) (Fs y - H)" using 2(3) by simp
    show "\<forall>p. p \<notin> Fs x \<union> Fs y \<longrightarrow> cells h2 p = cells h p" using 2(4) 1(4) w(3) by (simp add: cells_drop) blast
    show "\<forall>p \<in> Fs x \<union> Fs y - (Fs x - G \<union> H \<union> (Fs y - H)). cells h2 p = None"
      using 2(4) 1(4) dis w(3) by (auto simp: cells_drop)
    show "(Fs x - G \<union> H) \<inter> (Fs y - H) = {}" "Fs x - G \<union> H \<union> (Fs y - H) \<subseteq> Fs x \<union> Fs y" using dis t(3) by auto
  qed (use 1(2) 2(2) in simp)
  moreover have "move_assign n d s (env, h) = Inr (env(x \<mapsto> v1, y \<mapsto> v2), h2)"
    using xy v(1) w(1) src 1(1) 2(1) clear_rep [OF w(2) j(3)] by (simp add: move_assign_def get_place_def p)
  moreover have "tree_put s JNull (tree_put d (the (tree_at s gs)) gs) =
      gs(x \<mapsto> jstore j es i', y \<mapsto> jstore j' ds JNull)"
    using xy j(1) j'(1,4) by (simp add: tree_put_def p)
  ultimately show ?thesis unfolding leads_def stands_for_def by metis
qed

lemma move_new_leads:
  assumes E: "env_rep (env, h) gs Fs" and x: "gs x = None" and s: "place_ok n s gs"
  shows "leads (move_new x s (env, h)) ((tree_put s JNull gs)(x := tree_at s gs))"
proof -
  obtain y ds where p: "s = (y, ds)" by fastforce
  obtain j' i' where j': "gs y = Some j'" "jlookup j' ds = Some i'" "depth i' < n" "tree_at (y, ds) gs = Some i'"
    by (rule place_okE [OF s [unfolded p]])
  have xy: "x \<noteq> y" using x j'(1) by auto
  have Fx: "Fs x = {}" using env_repD(5) [OF E x] by simp
  obtain u where u: "env y = Some u" "rep (cells h) u j' (Fs y)" using env_repD(4) [OF E j'(1)] by blast
  obtain t H where t: "lookup (cells h) u ds = Inr t" "rep (cells h) t i' H" "H \<subseteq> Fs y"
    and puty: "writes_at (y, ds) u (cells h) (Fs y - H) j'" by (rule place_focus [OF u(2) j'(2)])
  have e1: "(env(x \<mapsto> t)) y = Some u" using u(1) xy by simp
  have k1: "\<forall>p \<in> Fs y - H. cells h p = cells h p" by simp
  obtain v2 h2 where 2: "put_place (y, ds) (Value Null (B_ptr None)) (env(x \<mapsto> t), h) =
      Inr (env(x \<mapsto> t, y \<mapsto> v2), h2)" "limit h2 = limit h"
    "rep (cells h2) v2 (jstore j' ds JNull) (Fs y - H \<union> {})" "\<forall>p. p \<notin> Fs y - H \<longrightarrow> cells h2 p = cells h p"
    by (rule writes_atE [OF puty, where env = "env(x \<mapsto> t)", OF e1 k1 rep_null]) simp
  have t': "rep (cells h2) t i' H" by (rule rep_frame(1) [OF t(2)]) (use 2(4) in auto)
  have "env_rep (env(x \<mapsto> t, y \<mapsto> v2), h2) (gs(x \<mapsto> i', y \<mapsto> jstore j' ds JNull)) (Fs(x := H, y := Fs y - H))"
  proof (rule env_two [OF E xy t'])
    show "rep (cells h2) v2 (jstore j' ds JNull) (Fs y - H)" using 2(3) by simp
    show "\<forall>p \<in> Fs x \<union> Fs y - (H \<union> (Fs y - H)). cells h2 p = None" using Fx by auto
  qed (use 2(2,4) Fx t(3) in auto)
  moreover have "move_new x s (env, h) = Inr (env(x \<mapsto> t, y \<mapsto> v2), h2)"
    using u(1) t(1) 2(1) by (simp add: move_new_def get_place_def p)
  moreover have "(tree_put s JNull gs)(x := tree_at s gs) = gs(x \<mapsto> i', y \<mapsto> jstore j' ds JNull)"
    using xy j'(1,4) by (simp add: tree_put_def p fun_upd_twist)
  ultimately show ?thesis unfolding leads_def stands_for_def by metis
qed

lemma append_copy_leads:
  assumes E: "env_rep (env, h) gs Fs" and d: "place_ok n d gs" and s: "place_ok n s gs"
  shows "leads (append_copy fl n d s (env, h)) (tree_change (append1 fl (the (tree_at s gs))) d gs)"
proof -
  obtain x es y ds where p: "d = (x, es)" "s = (y, ds)" by fastforce
  obtain j i where j: "gs x = Some j" "jlookup j es = Some i" "depth i < n" "tree_at (x, es) gs = Some i"
    by (rule place_okE [OF d [unfolded p(1)]])
  obtain j' i' where j': "gs y = Some j'" "jlookup j' ds = Some i'" "depth i' < n" "tree_at (y, ds) gs = Some i'"
    by (rule place_okE [OF s [unfolded p(2)]])
  note b = env_repD(1) [OF E]
  obtain u K where u: "get_place (y, ds) (env, h) = Inr u" "rep (cells h) u i' K"
    by (rule place_update [OF E j'(1,2)]) blast
  obtain t h1 H where t: "copy_value n u h = Inr (t, h1)" "rep (cells h1) t i' H" "grown h h1 H"
    by (rule copy_rep [OF u(2) b j'(3)])
  obtain v where v: "env x = Some v" "rep (cells h) v j (Fs x)" using env_repD(4) [OF E j(1)] by blast
  obtain w G where w: "get_place (x, es) (env, h) = Inr w" "rep (cells h) w i G" "G \<subseteq> Fs x"
    and put: "\<And>h' w' i' G'. becomes h G h' w' i' G' \<Longrightarrow>
       \<exists>s. put_place (x, es) w' (env, h') = Inr s \<and>
         env_rep s (gs(x \<mapsto> jstore j es i')) (Fs(x := Fs x - G \<union> G'))"
    by (rule place_update [OF E j(1,2)]) blast
  have old: "Fs x \<inter> H = {}" "\<forall>p \<in> Fs x. cells h1 p = cells h p"
    using grown_old [OF b t(3) rep_owned(1) [OF v(2)]] by blast+
  have g1: "get_place (x, es) (env, h1) = Inr w"
    using lookup_frame [OF v(2) old(2) j(2)] w(1) v(1) by (simp add: get_place_def)
  have w1: "rep (cells h1) w i G" by (rule rep_frame(1) [OF w(2)]) (use old(2) w(3) in blast)
  have GH: "G \<inter> H = {}" using old(1) w(3) by blast
  obtain w' h2 G' where a: "v_append fl n t w h1 = Inr (w', h2)"
    "becomes h1 (G \<union> H) h2 w' (append1 fl i' i) G'"
    by (rule v_append_becomes [OF w1 grown_bounded [OF t(3)] j(3) t(2) GH j'(3)])
  have "becomes h ({} \<union> G) h2 w' (append1 fl i' i) G'"
    by (rule becomes_trans_with [OF becomes_grown [OF t(3,2)] _ b]) (use a(2) in \<open>simp_all add: Un_commute\<close>)
  from put [OF this [simplified]] obtain st where st: "put_place (x, es) w' (env, h2) = Inr st"
    "stands_for st (gs(x \<mapsto> jstore j es (append1 fl i' i)))" unfolding stands_for_def by blast
  have "append_copy fl n d s (env, h) = Inr st"
    using u(1) t(1) g1 a(1) st(1) by (simp add: append_copy_def at_place_def p)
  then show ?thesis using st(2) j(1,4) j'(4) by (simp add: leads_def tree_put_def p)
qed

lemma destroy_leads:
  assumes E: "env_rep (env, h) gs Fs" and ok: "place_ok n (x, []) gs"
  shows "leads (heap_do fl n (J_destroy x) (env, h)) (gs(x := None))"
proof -
  obtain j where j: "gs x = Some j" "depth j < n" using place_okE [OF ok] by auto
  obtain v where v: "env x = Some v" "rep (cells h) v j (Fs x)" using env_repD(4) [OF E j(1)] by blast
  let ?h = "drop_cells (Fs x) h"
  have "becomes ?h {} ?h (Value Null (B_int 0)) JNull {}"
    using env_repD(1) [OF E] by (intro becomes_refl rep_null) simp
  then have "becomes h (Fs x) ?h (Value Null (B_int 0)) JNull {}"
    by (rule becomes_after_clear [OF _ rep_owned(1) [OF v(2)] env_repD(1) [OF E]])
  from env_remove [OF env_update [OF E this]] have "env_rep (env(x := None), ?h) (gs(x := None)) (Fs(x := {}))"
    by simp
  moreover have "heap_do fl n (J_destroy x) (env, h) = Inr (env(x := None), ?h)"
    using v(1) clear_rep [OF v(2) j(2)] by (simp add: get_place_def)
  ultimately show ?thesis unfolding leads_def stands_for_def by blast
qed

lemma default_leads:
  assumes E: "env_rep (env, h) gs Fs" and x: "gs x = None"
  shows "leads (heap_do fl n (J_default x) (env, h)) (gs(x \<mapsto> JNull))"
  using new_variable [OF E x becomes_refl [OF rep_null env_repD(1) [OF E]]] by (simp add: default_value_def)

lemma new_leads:
  assumes E: "env_rep (env, h) gs Fs" and x: "gs x = None"
  shows "leads (heap_do fl n (J_new x l) (env, h)) (gs(x \<mapsto> literal_tree l))"
proof -
  note b = env_repD(1) [OF E]
  have "\<exists>v h' G. new_value l h = (v, h') \<and> becomes h {} h' v (literal_tree l) G"
  proof (cases l)
    case (L_string s)
    obtain q h' where q: "alloc (C_str s) h = (q, h')" by fastforce
    have "rep (cells h') (Value String (B_ptr (Some q))) (JString s) {q}"
      by (rule rep_string) (rule grown_alloc(2) [OF q b])
    then show ?thesis using becomes_grown [OF grown_alloc(1) [OF q b]] q L_string by auto
  qed (use b in \<open>auto intro!: exI [of _ "{}"] becomes_refl rep_reps.intros\<close>)
  then show ?thesis using new_variable [OF E x] by (auto split: prod.splits)
qed

text \<open>The operations on one value.\<close>

lemma scalar_leads:
  assumes E: "env_rep (env, h) gs Fs" and ok: "place_ok n d gs"
  shows "leads (at_place (v_assign_bool fl n b) d (env, h)) (tree_change (assign_bool fl b) d gs)"
    and "leads (at_place (v_assign_int fl n i) d (env, h)) (tree_change (assign_int fl i) d gs)"
    and "leads (at_place (v_assign_float fl n x) d (env, h)) (tree_change (assign_float fl x) d gs)"
proof -
  have op: "\<exists>w' h' G'. and_then (v_SetType fl n t w h) (\<lambda>(w, h). Inr (Value (v_type w) y, h)) = Inr (w', h') \<and>
      becomes h G h' w' j' G'"
    if "rep (cells h) w j G" "depth j < n" "t \<in> {Floating, Integral, Boolean}" "\<And>c. rep c (Value t y) j' {}"
    for w j G t y j'
    using v_assign_scalar [OF that(1) env_repD(1) [OF E] that(2-4)] by blast
  show "leads (at_place (v_assign_bool fl n b) d (env, h)) (tree_change (assign_bool fl b) d gs)"
    by (rule at_place_leads [OF E ok]) (unfold v_assign_bool_def assign_scalars, rule op; (simp add: rep_bool)?)
  show "leads (at_place (v_assign_int fl n i) d (env, h)) (tree_change (assign_int fl i) d gs)"
    by (rule at_place_leads [OF E ok]) (unfold v_assign_int_def assign_scalars, rule op; (simp add: rep_int)?)
  show "leads (at_place (v_assign_float fl n x) d (env, h)) (tree_change (assign_float fl x) d gs)"
    by (rule at_place_leads [OF E ok]) (unfold v_assign_float_def assign_scalars, rule op; (simp add: rep_float)?)
qed

lemma value_leads:
  assumes E: "env_rep (env, h) gs Fs" and ok: "place_ok n d gs"
  shows "leads (at_place (v_SetType fl n t) d (env, h)) (tree_change (SetType fl t) d gs)"
    and "leads (at_place (v_assign_string fl n s) d (env, h)) (tree_change (assign_string fl s) d gs)"
    and "leads (at_place (v_clear n) d (env, h)) (tree_change json_clear d gs)"
    and "leads (at_place (v_key fl n k) d (env, h)) (tree_change (\<lambda>j. snd (get_key fl k j)) d gs)"
    and "leads (at_place (v_erase n k) d (env, h)) (tree_change (\<lambda>j. snd (eraseKey k j)) d gs)"
proof -
  note b = env_repD(1) [OF E] and at = at_place_leads [OF E ok]
  show "leads (at_place (v_SetType fl n t) d (env, h)) (tree_change (SetType fl t) d gs)"
    by (rule at) (meson v_SetType_becomes b)
  show "leads (at_place (v_assign_string fl n s) d (env, h)) (tree_change (assign_string fl s) d gs)"
    by (rule at) (meson v_assign_string_becomes b)
  show "leads (at_place (v_clear n) d (env, h)) (tree_change json_clear d gs)"
    by (rule at) (meson v_clear_becomes b)
  show "leads (at_place (v_key fl n k) d (env, h)) (tree_change (\<lambda>j. snd (get_key fl k j)) d gs)"
    by (rule at) (meson v_key_becomes b)
  show "leads (at_place (v_erase n k) d (env, h)) (tree_change (\<lambda>j. snd (eraseKey k j)) d gs)"
    by (rule at) (meson v_erase_becomes b)
qed

lemma index_leads:
  assumes E: "env_rep (env, h) gs Fs" and ok: "json_allowed fl n (J_index d i) gs"
  shows "leads (at_place (v_index fl n i) d (env, h)) (tree_change (index_result fl i) d gs)"
proof (rule at_place_leads [OF E])
  show "place_ok n d gs" using ok by simp
  fix w j G assume a: "rep (cells h) w j G" "depth j < n" "tree_at d gs = Some j"
  obtain y j' where g: "get_index fl i j = Inr (y, j')" using ok a(3) by (auto split: sum.splits)
  then have "index_result fl i j = j'" by (simp add: index_result_def)
  then show "\<exists>w' h' G'. v_index fl n i w h = Inr (w', h') \<and> becomes h G h' w' (index_result fl i j) G'"
    using v_index_becomes [OF a(1) env_repD(1) [OF E] a(2) g] by metis
qed

lemma step_leads:
  assumes "stands_for st gs" "json_allowed fl n e gs"
  shows "leads (heap_do fl n e st) (tree_do fl e gs)"
proof -
  obtain env h Fs where st: "st = (env, h)" and E: "env_rep (env, h) gs Fs"
    using assms(1) by (cases st) (auto simp: stands_for_def)
  note op = copy_new_leads [OF E] copy_assign_leads [OF E] append_copy_leads [OF E]
    scalar_leads [OF E] value_leads [OF E] index_leads [OF E] default_leads [OF E] new_leads [OF E] destroy_leads [OF E]
  show ?thesis
  proof (cases e)
    case (J_move x s)
    then show ?thesis using move_new_leads [OF E, of x n s] assms(2) by (simp add: st)
  next
    case (J_move_assign d s)
    show ?thesis
    proof (cases "d = s")
      case True
      then show ?thesis using E J_move_assign by (auto simp: st leads_def stands_for_def move_assign_def)
    next
      case False
      then show ?thesis using move_assign_leads [OF E] assms(2) J_move_assign by (simp add: st)
    qed
  qed (use op assms(2) in \<open>simp_all add: st del: assign_scalars\<close>)
qed

lemma run_leads:
  "tree_run fl n es gs = Some gs' \<Longrightarrow> stands_for st gs \<Longrightarrow> leads (heap_run fl n es st) gs'"
proof (induction es arbitrary: gs st)
  case Nil
  then show ?case by (simp add: leads_def)
next
  case (Cons e es)
  have ok: "json_allowed fl n e gs" "tree_run fl n es (tree_do fl e gs) = Some gs'"
    using Cons.prems(1) by (simp_all split: if_splits)
  obtain st' where "heap_do fl n e st = Inr st'" "stands_for st' (tree_do fl e gs)"
    using step_leads [OF Cons.prems(2) ok(1)] by (auto simp: leads_def)
  then show ?case using Cons.IH [OF ok(2)] by simp
qed

subsection \<open>Assigning a value its own member\<close>

lemma lookup_append: "lookup c v (es @ ds) = and_then (lookup c v es) (\<lambda>w. lookup c w ds)"
proof (induction es arbitrary: v)
  case (Cons e es)
  show ?case by (cases "target v c") (auto simp: Cons and_then_def split: sum.splits)
qed simp

lemma jlookup_append: "jlookup j (es @ ds) = Option.bind (jlookup j es) (\<lambda>i. jlookup i ds)"
proof (induction es arbitrary: j)
  case (Cons e es)
  show ?case by (cases "jmember e j") (simp_all add: Cons)
qed simp

text \<open>
  \<open>v = v["a"]\<close> and \<open>v = std::move(v["a"])\<close>: the old payload of \<open>v\<close>, and the member with it, is
  destroyed before the source is read.
\<close>

theorem child_assign_undefined:
  assumes "stands_for (env, h) gs" "place_ok n (x, es) gs" "tree_at (x, es @ d # ds) gs \<noteq> None"
  shows "copy_assign n (x, es) (x, es @ d # ds) (env, h) = Inl Undefined"
    and "move_assign n (x, es) (x, es @ d # ds) (env, h) = Inl Undefined"
proof -
  obtain Fs where E: "env_rep (env, h) gs Fs" using assms(1) by (auto simp: stands_for_def)
  obtain j i where j: "gs x = Some j" "jlookup j es = Some i" "depth i < n"
    by (rule place_okE [OF assms(2)])
  obtain v w G where v: "env x = Some v" "rep (cells h) v j (Fs x)" "lookup (cells h) v es = Inr w"
    "rep (cells h) w i G" "G \<subseteq> Fs x" by (rule place_value [OF E j(1,2)])
  obtain i' where i': "jlookup i (d # ds) = Some i'"
    using assms(3) j by (auto simp: tree_at_def jlookup_append split: option.splits)
  obtain p t u F0 where p: "target w (cells h) = Inr (p, t)" "G = insert p F0"
    by (rule rep_step_to [OF v(4) i']) blast
  let ?h = "drop_cells G h"
  have "lookup (cells ?h) v es = Inr w"
    by (rule lookup_keep [OF v(2) j(2) v(3,4)]) (simp add: cells_drop)
  moreover have "target w (cells ?h) = Inl Undefined"
    using p by (simp add: target_eq) (simp add: target_def cells_drop)
  ultimately have "get_place (x, es @ d # ds) (env, ?h) = Inl Undefined"
    using v(1) by (simp add: get_place_def lookup_append)
  then show "copy_assign n (x, es) (x, es @ d # ds) (env, h) = Inl Undefined"
    and "move_assign n (x, es) (x, es @ d # ds) (env, h) = Inl Undefined"
    using v(1,3) clear_rep [OF v(4) j(3)] by (simp_all add: copy_assign_def move_assign_def get_place_def)
qed

subsection \<open>Programs\<close>

definition no_cells :: "'f jheap" where
  "no_cells = \<lparr>cells = Map.empty, limit = 0\<rparr>"

text \<open>
  C31: Values behave like trees. Any program of constructions, copies, moves, assignments between
  places neither of which leads through the other, type changes, scalar and string assignments,
  \<open>clear\<close>, \<open>operator[]\<close>, \<open>eraseKey\<close>, \<open>append\<close> and destructions, run on the heap from nothing,
  touches no freed cell, and leaves the variables with the trees the operations of the value
  semantics give; no cell is shared or lost, and when all variables are gone the heap is empty.
\<close>

theorem json_programs:
  assumes "tree_run fl n es Map.empty = Some gs"
  shows "\<exists>env h. heap_run fl n es (Map.empty, no_cells) = Inr (env, h) \<and> stands_for (env, h) gs \<and>
    (gs = Map.empty \<longrightarrow> cells h = Map.empty)"
proof -
  have "env_rep (Map.empty, no_cells) Map.empty (\<lambda>_. {})"
    by (simp add: env_rep_def jbounded_def no_cells_def)
  then have "stands_for (Map.empty, no_cells) Map.empty" unfolding stands_for_def by blast
  from run_leads [OF assms this] obtain env h where
    r: "heap_run fl n es (Map.empty, no_cells) = Inr (env, h)" "stands_for (env, h) gs"
    by (auto simp: leads_def)
  moreover have "cells h = Map.empty" if "gs = Map.empty"
  proof -
    obtain Fs where E: "env_rep (env, h) gs Fs" using r(2) by (auto simp: stands_for_def)
    have "Fs x = {}" for x using env_repD(5) [OF E, of x] that by simp
    then show ?thesis using env_repD(3) [OF E] by simp
  qed
  ultimately show ?thesis by blast
qed

text \<open>
  \<open>v["a"] = v\<close> for a string \<open>v["a"]\<close>: the member is destroyed first and then copied with its parent.
\<close>

lemma parent_assign_undefined:
  "heap_run fl 3 [J_default (0 :: nat), J_key (0, []) ''a'', J_string (0, [K ''a'']) s, J_assign (0, [K ''a'']) (0, [])]
     (Map.empty, no_cells) = Inl Undefined"
  by (simp add: numeral_3_eq_3 no_cells_def at_place_def get_place_def put_place_def v_key_def v_assign_string_def
      v_SetType_def target_def default_value_def alloc_def put_cell_def copy_assign_def restrict_map_def
      drop_cells_def member.simps)

definition sample_program :: "(nat, unit) json_op list" where
  "sample_program =
     [J_default 0, J_key (0, []) ''a'', J_string (0, [K ''a'']) ''one'', J_key (0, []) ''b'',
      J_append (0, [K ''b'']) (0, [K ''a'']), J_copy 1 (0, []), J_index (0, [K ''b'']) 2,
      J_int (0, [K ''b'', I 2]) 7, J_assign (0, [K ''a'']) (0, [K ''b'', I 2]),
      J_move_assign (1, [K ''a'']) (0, [K ''b'', I 0]), J_erase (0, []) ''a'',
      J_new 2 (L_string ''two''), J_move 3 (2, []), J_append (0, [K ''b'']) (3, []), J_destroy 2, J_destroy 3,
      J_destroy 1, J_destroy 0]"

lemma replicate_two: "replicate 2 a = [a, a]"
  by (simp add: numeral_2_eq_2)

lemma sample_trees: "tree_run no_floats 3 sample_program Map.empty = Some Map.empty"
  by (simp add: sample_program_def place_ok_def tree_at_def tree_put_def unrelated_def get_key_def
      SetType_def append1_def get_index_def index_result_def json_clear_def eraseKey_def no_floats_def
      grow_def Let_def replicate_two)

lemma json_programs_witness:
  "\<exists>env h. heap_run no_floats 3 sample_program (Map.empty, no_cells) = Inr (env, h) \<and> cells h = Map.empty"
  using json_programs [OF sample_trees] by blast

end
