(* ===== verification/Spec2Isabelle.thy ===== *)
theory Spec2Isabelle
  imports Base64 VarData JsonText NetBuffer RpcSystem Services EventCtrl ChunkAlloc SmallAlloc Console Matrix LockFreeStack Components UtilFunc Holders TypeDict RowMatrix Sockets JsonPrograms
begin

text \<open>
  A verification library for MmrService, a C++ component framework with a protobuf RPC server. The
  paths below are under src/code. The model is a shallow embedding: a class is a record, an
  operation a function on it, a failing operation returns \<open>Inl\<close> of a \<open>fault\<close> (an exception that
  leaves it, a failed assertion, undefined behaviour such as an access outside a buffer), and code
  that several threads run is a transition system whose steps are the critical sections of the
  code's mutexes or its single atomic accesses. Two places read without a lock. In \<open>RpcClient\<close> a
  returning call reads its response and then erases itself under the mutex in one step, and a
  beginning call takes its number, registers and writes in one: the races there are not modelled. In
  \<open>Logger\<close> the tests of the writing thread are steps of their own, which are undefined in the moment
  at which a log call has moved the write buffer out. Integers have their width; the target is a
  64-bit Linux build, with the byte order as the argument \<open>host\<close> where the code asks for it.
  Taking the address of element zero or one past the end of a vector (\<open>&v[0]\<close> of an empty one,
  \<open>&v[size]\<close>), as \<open>DataStream.SetStream\<close> and \<open>NetBuffer.ensureWriteSpace\<close> do, counts as defined as
  long as nothing is read or written there.

  \<^bold>\<open>The program.\<close> A server process runs the framework (service/core), which reads a JSON
  configuration, sets up the logger, the thread pool and the event bus as singletons, loads component
  libraries, and initialises and starts their components in the order of an unordered map. Components find each other through a
  service registry and exchange events through the event bus. The RPC server component accepts
  protobuf frames from clients that have logged in and dispatches them to registered callbacks; the
  client application makes calls from several threads. Underneath lies common/: codecs, containers,
  allocators, logger, pool.

  \<^bold>\<open>Foundations.\<close> \<open>Prelude\<close>: failures, words, bytes, lists, and the locale \<open>byte_codec\<close> (decoding
  inverts encoding on the values allowed). \<open>ByteChannel\<close>: the locale \<open>byte_channel\<close> of byte queues,
  with any interleaving of writes and reads proved once to be a queue.

  \<^bold>\<open>Codecs and buffers.\<close> \<open>BufConvert\<close> (common/source/util/BufConvert.cpp): the checksum with its
  signed bytes and wrapping sums, proved equal to Adler-32 on ASCII data, and byte reversal.
  \<open>Base64\<close> (same file): both directions as the loops they are, with the 32-bit output index and the
  \<open>int\<close> the decoded size passes through; proved equal to RFC 4648 while the encoding is shorter
  than \<open>2 ^ 32\<close> characters, and inverse to each other up to \<open>2 ^ 31 - 2\<close> bytes. \<open>NetBuffer\<close> (mmrNet/Buffer.hpp) and \<open>DataStream\<close> (util/CDataStream.hpp): both
  interpret \<open>byte_channel\<close>; the stream is also a \<open>byte_codec\<close> for sequences of values between hosts of
  any byte orders. \<open>ProtoCodec\<close> (protoBase/ProtoCodec.hpp): frames built and taken apart in
  place; a \<open>byte_codec\<close>, with the rejected frames and the unchecked lengths as error properties. The
  protobuf library is the record \<open>protobuf\<close>, and \<open>pb_wire_ok\<close> says that it parses what it serialises
  and that the frame stays below \<open>2 ^ 31\<close> bytes, since the encoder computes its size in an \<open>int\<close>.

  \<^bold>\<open>RPC.\<close> \<open>ProtoServer\<close> (service/compnets/ProtoRpcServer): the handler
  of one connection, login before dispatch, one response under the number of its request, callbacks
  never cast a request wrongly. \<open>RpcClient\<close> (service/app/clientTestApp):
  \<open>call\<close> split where threads interleave; a returned reply was sent for that call.
  \<open>RpcSystem\<close>: both joined by a network of two queues of writes; end to end, a call returns what the
  callback of its request answered, and a session can run to its end, also over a byte stream whose
  reads return everything written since the last one. A read that returns part of a frame is not
  modelled, since neither side puts frames together; two frames in one read are refused.

  \<^bold>\<open>Values and text.\<close> \<open>VarData\<close> (util/CVarDatas.hpp): the tagged value over a heap of owned
  strings and arrays; copies are deep, nothing is freed twice or lost. \<open>Json\<close>, \<open>JsonParse\<close>,
  \<open>JsonTerm\<close>, \<open>JsonText\<close> (util/json.hpp): the value, the printers, the parser with the positions it
  keeps; it terminates on every text (\<open>load_fuel\<close>, the length plus 2, is enough because every nested
  value starts further right), reads every layout of a document (\<open>jtext\<close>) and inverts both
  printers (a \<open>byte_codec\<close>). Floating-point arithmetic is the parameter \<open>float_lib\<close>. \<open>JsonHeap\<close> and
  \<open>JsonPrograms\<close> (same file): the tagged union and its heap, with references into a value as the way
  to them; programs of constructors, assignments, moves and operations compute the trees of \<open>Json\<close> and
  lose no cell, as long as no value is assigned a part of itself, which reads freed memory. Their
  argument \<open>n\<close> is the depth to which destructors and copies may recurse; a value nested less deeply
  is always destroyed and copied.

  \<^bold>\<open>Memory.\<close> \<open>ChunkAlloc\<close> (util/ChunkAllocator.h): the caching allocator with its 32-bit sizes
  and its accounting, in steps as fine as its mutex and its atomic counters; the runs exclude the
  pop from an empty queue, which is undefined and shown reachable. \<open>SmallAlloc\<close> (util/SmallAllocator.h): chunks with their free list inside the
  blocks, and the fixed allocator of chunks; both interpret the locale \<open>block_pool\<close>, whose clients
  never get a block in use whatever they write into those they hold. The lock-free lists of the small allocator are followed to the ABA
  execution that hands one block out twice. \<open>Matrix\<close> (util/Matrix.h): an array over one block,
  for any \<open>block_provider\<close>, which the chunk allocator interprets below its size limit. \<open>RowMatrix\<close>
  (util/CMatrix.h, common/source/util/CMatrix.cpp): the matrix as a block of pointers to rows on an
  explicit heap; programs of its operations refine rectangular lists, if plain \<open>delete\<close> of a block
  of \<open>new[]\<close> frees it (\<open>plain_delete\<close>), which the language leaves undefined.

  \<^bold>\<open>Concurrency.\<close> \<open>ThreadPool\<close> (util/CThreadpool.h): queue, workers and the two modes; tasks run
  once, counters agree with the workers, every queued task is started within a bounded number of
  steps in the fixed mode, while the cached mode can be left with a task and no worker, \<open>stop\<close> returns
  (each worker has at most nine steps left after the flag is cleared) without waiting for the queue. \<open>LogBuffer\<close> and \<open>Logger\<close> (util/Clogger.h): lines of bounded
  length, the hand-over of full buffers to the writing thread, files and their rotation: in every
  interleaving the text logged is the text written followed by the text in the buffers, rotation
  drops exactly the oldest file, and after the last call the thread writes everything and ends.
  \<open>EventCtrl\<close> (service/core EventCtrlPolicies): events are dealt with once and in
  order until the clearing that ends a stop, which drops what is queued; a queued event wakes the
  worker. \<open>LockFreeStack\<close> (util/CLockFreeStack.hpp):
  the stack with a split reference count, over a heap of nodes, one atomic access per step: pushes
  and pops are those of a stack in the order of their compare-and-swaps, no node is used after it
  is freed, a popped node is freed once its last reader is done, and the destructor frees the rest
  (its loop needs one turn more than there are nodes). Its head starts as the null pointer with
  count zero, which the constructor does not ensure.

  \<^bold>\<open>Utilities.\<close> \<open>UtilFunc\<close> (common/source/util/UtilFunc.cpp, FileOperator.cpp): paths, character sets,
  identifiers, times, sizes, directories, with the answers of the operating system as arguments, and the
  user database with its connection. \<open>Holders\<close> (util/StdOptional.hpp, StdVariant.hpp, Variant.hpp): classes
  that hold an object, over cells of storage; the locale \<open>holder\<close> is what a move assignment promises,
  and programs of optionals refine optional values. \<open>TypeDict\<close> (common/include/general): the functions on
  lists of types, the dictionary of parameters, policies, the singleton. \<open>Sockets\<close>
  (mmrNet/Socket.hpp, util/TimeCounter.hpp): the socket wrapper over a history of system calls
  answered by a kernel given as an argument, so that what it opens, closes and sets can be read off
  the history; the time counter.

  \<^bold>\<open>Framework.\<close> \<open>Services\<close> (service/core ServiceCtrlPolicies.hpp): the three registries as
  interpretations of \<open>service_registry\<close> and of its extensions, in which a second registration replaces
  the first or is ignored. \<open>Framework\<close> (service/core CCompFramework): configuration, loading, start,
  timers, stop; a start is a fixed sequence of effects, recorded in a trace, up to the first failure.
  \<open>Console\<close> (service/core CLoggerCtrl, CLiceseCtrl): the commands that change log levels, the
  license stubs. \<open>Components\<close> (service/compnets): what the components' \<open>initialise\<close>, \<open>start\<close> and
  \<open>stop\<close> do to the registry, the log levels, the event bus and the RPC server; performing the
  framework's trace on that state joins the parts: after a start, in whatever order the unordered map
  yields the components, the server answers logins, and a stop withdraws the services. Loops that
  read commands or run until told to stop take the lines or the number of turns as an argument.

  \<^bold>\<open>Not modelled.\<close> libnet and 3rdParty are vendored; protoBuf/generate is generated; creo is a GUI
  plug-in over vendor toolkits; example holds demonstrations; mmrNet/Channel.hpp is compiled out. The operating system, sqlite
  and the clock are outside, and where another part depends on them they are arguments. Weak memory is
  not modelled: atomic accesses are sequentially consistent.
\<close>

end
